(* ===== verification/Prelude.thy ===== *)
theory Prelude
  imports Main "HOL-Library.Word" "HOL-Library.Monad_Syntax" "HOL-Library.Multiset"
begin

section \<open>Prelude: aborts, guards and list lemmas shared by the components\<close>

text \<open>
  The runtime is C code that stops the whole process when something is wrong:
  \<^verbatim>\<open>CILK_ASSERT\<close> (bug.h) calls \<^verbatim>\<open>__cilkrts_bug\<close>, which aborts, in every build;
  \<^verbatim>\<open>abort_because_rts_is_corrupted\<close> does the same; dereferencing a null pointer kills
  the process. All three are the value \<open>None\<close> of the option monad, so an operation
  of the model returns \<open>Some s'\<close> exactly when the C function returns, and \<open>s'\<close> is
  the memory it leaves. The do-notation of Monad\_Syntax keeps the order of the
  source's statements.
\<close>

named_theorems rts_simps \<open>unfolding rules for the straight-line operations of the runtime\<close>

text \<open>\<^verbatim>\<open>CILK_ASSERT(ex)\<close> of bug.h.\<close>

definition cilk_assert :: "bool \<Rightarrow> unit option" where
  "cilk_assert ex = (if ex then Some () else None)"

lemma cilk_assert_True [simp]: "cilk_assert True = Some ()"
  by (simp add: cilk_assert_def)

lemma cilk_assert_False [simp]: "cilk_assert False = None"
  by (simp add: cilk_assert_def)

lemma cilk_assert_eq_Some [simp]: "cilk_assert b = Some u \<longleftrightarrow> b"
  by (simp add: cilk_assert_def)

lemma bind_assert_eq_Some [simp]:
  "Option.bind (cilk_assert b) m = Some r \<longleftrightarrow> b \<and> m () = Some r"
  by (simp add: cilk_assert_def)

lemma bind_assert_True [simp]: "b \<Longrightarrow> Option.bind (cilk_assert b) m = m ()"
  by (simp add: cilk_assert_def)

lemma bind_Some_elim:
  assumes "Option.bind m f = Some r"
  obtains x where "m = Some x" and "f x = Some r"
  using assms by (auto simp: bind_eq_Some_conv)

subsection \<open>Lists\<close>

lemma last_snoc_butlast [simp]: "xs \<noteq> [] \<Longrightarrow> butlast xs @ [last xs] = xs"
  by (rule append_butlast_last_id)

lemma remove1_middle: "x \<notin> set xs \<Longrightarrow> remove1 x (xs @ x # ys) = xs @ ys"
  by (simp add: remove1_append)

lemma upt_window_last:
  "h < t \<Longrightarrow> [h..<t] = [h..<t - 1] @ [t - (1::nat)]"
  by (metis Suc_diff_1 less_Suc_eq_le less_nat_zero_code linorder_not_less not_gr_zero upt_Suc)

lemma upt_window_first: "h < t \<Longrightarrow> [h..<t] = h # [Suc h..<t]"
  by (rule upt_conv_Cons)

end
