(* ===== verification/Runtime_State.thy ===== *)
theory Runtime_State
  imports Prelude
begin

section \<open>The runtime's data: stack frames, full frames, workers\<close>

text \<open>
  The structs of include/internal/abi.h, runtime/local\_state.h, runtime/full\_frame.h and
  runtime/worker\_mutex.h as records, and the memory of one process that runs the runtime.
  Pointers are numbers, a null pointer is \<open>None\<close>, and the memory holds one struct per
  address. Reducer maps and exception records are opaque to the scheduler (it moves them
  from slot to slot and calls the merge functions), so they are the type variables \<open>'m\<close>
  and \<open>'e\<close>.

  The deque pointers (\<open>head\<close>, \<open>tail\<close>, \<open>exc\<close>, \<open>protected_tail\<close>, \<open>ltq_limit\<close>, \<open>ltq\<close>) count
  slots of the array \<open>ltq\<close>, so \<^verbatim>\<open>p + 1\<close> of the source is \<open>p + 1\<close> here.
\<close>

type_synonym sfptr = nat
type_synonym ffptr = nat
type_synonym wptr = nat
type_synonym fiber = nat

subsection \<open>Flags of a stack frame (abi.h)\<close>

definition CILK_FRAME_STOLEN :: "32 word" where "CILK_FRAME_STOLEN = 0x01"
definition CILK_FRAME_UNSYNCHED :: "32 word" where "CILK_FRAME_UNSYNCHED = 0x02"
definition CILK_FRAME_DETACHED :: "32 word" where "CILK_FRAME_DETACHED = 0x04"
definition CILK_FRAME_EXCEPTING :: "32 word" where "CILK_FRAME_EXCEPTING = 0x10"
definition CILK_FRAME_SF_PEDIGREE_UNSYNCHED :: "32 word" where
  "CILK_FRAME_SF_PEDIGREE_UNSYNCHED = 0x20"
definition CILK_FRAME_LAST :: "32 word" where "CILK_FRAME_LAST = 0x80"
definition CILK_FRAME_SUSPENDED :: "32 word" where "CILK_FRAME_SUSPENDED = 0x8000"
definition CILK_FRAME_FLAGS_MASK :: "32 word" where "CILK_FRAME_FLAGS_MASK = 0x00FFFFFF"
definition CILK_FRAME_VERSION_MASK :: "32 word" where "CILK_FRAME_VERSION_MASK = 0xFF000000"

lemmas frame_flag_defs =
  CILK_FRAME_STOLEN_def CILK_FRAME_UNSYNCHED_def CILK_FRAME_DETACHED_def
  CILK_FRAME_EXCEPTING_def CILK_FRAME_SF_PEDIGREE_UNSYNCHED_def CILK_FRAME_LAST_def
  CILK_FRAME_SUSPENDED_def CILK_FRAME_FLAGS_MASK_def CILK_FRAME_VERSION_MASK_def

unbundle bit_operations_syntax

text \<open>A C condition \<^verbatim>\<open>flags & F\<close>, and the two assignments \<^verbatim>\<open>flags |= F\<close>, \<^verbatim>\<open>flags &= ~F\<close>.\<close>

definition has_flag :: "32 word \<Rightarrow> 32 word \<Rightarrow> bool" where
  "has_flag fl f \<longleftrightarrow> fl AND f \<noteq> 0"

definition set_flag :: "32 word \<Rightarrow> 32 word \<Rightarrow> 32 word" where
  "set_flag fl f = fl OR f"

definition clear_flag :: "32 word \<Rightarrow> 32 word \<Rightarrow> 32 word" where
  "clear_flag fl f = fl AND NOT f"

definition CILK_FRAME_VERSION_VALUE :: "32 word \<Rightarrow> 32 word" where
  "CILK_FRAME_VERSION_VALUE fl = drop_bit 24 (fl AND CILK_FRAME_VERSION_MASK)"

lemma has_set_flag_same [simp]: "f \<noteq> 0 \<Longrightarrow> has_flag (set_flag fl f) f"
  by (simp add: has_flag_def set_flag_def bit.conj_disj_distrib2)

lemma has_clear_flag_same [simp]: "\<not> has_flag (clear_flag fl f) f"
  by (simp add: has_flag_def clear_flag_def and.assoc)

lemma has_set_flag_other:
  "f AND g = 0 \<Longrightarrow> has_flag (set_flag fl f) g \<longleftrightarrow> has_flag fl g"
  by (simp add: has_flag_def set_flag_def bit.conj_disj_distrib2)

lemma has_clear_flag_other:
  assumes "f AND g = 0"
  shows "has_flag (clear_flag fl f) g \<longleftrightarrow> has_flag fl g"
proof -
  have "(fl AND NOT f) AND g = fl AND g"
  proof (rule bit_eqI)
    fix n
    have "\<not> (bit f n \<and> bit g n)"
      using assms by (metis bit_0_eq bit_and_iff bot_apply bot_bool_def)
    then show "bit ((fl AND NOT f) AND g) n \<longleftrightarrow> bit (fl AND g) n"
      by (auto simp: bit_and_iff bit_not_iff dest: bit_imp_le_length)
  qed
  then show ?thesis by (simp add: has_flag_def clear_flag_def)
qed

subsection \<open>Mutexes (worker\_mutex.h)\<close>

text \<open>\<open>mx_lock\<close> is 1 when the mutex is held; \<open>mx_owner\<close> is kept for debugging checks.\<close>

record mutex =
  mx_lock :: int
  mx_owner :: "wptr option"

subsection \<open>Pedigrees (abi.h, pedigrees.h)\<close>

text \<open>
  A pedigree node lies in a spawn helper's stack frame, in a worker, or in the storage of
  a user thread (its leaf and its root).
\<close>

datatype pedptr = Ped_sf sfptr | Ped_worker wptr | Ped_thread nat

record pedigree =
  rank :: "64 word"
  ped_parent :: "pedptr option"

subsection \<open>Stack frames (abi.h)\<close>

text \<open>
  \<open>sf_sp\<close> and \<open>sf_fp\<close> are the two words of the jump buffer \<^verbatim>\<open>ctx\<close> the scheduler reads
  (\<^verbatim>\<open>SP(sf)\<close> and \<^verbatim>\<open>FP(sf)\<close> of jmpbuf.h). The pedigree union has one value with two names.
\<close>

record stack_frame =
  flags :: "32 word"
  call_parent :: "sfptr option"
  sf_worker :: "wptr option"
  except_data :: "nat option"
  sf_sp :: "64 word"
  sf_fp :: "64 word"
  sf_pedigree :: pedigree

subsection \<open>Full frames (full\_frame.h)\<close>

definition FULL_FRAME_MAGIC_0 :: "64 word" where
  "FULL_FRAME_MAGIC_0 = 0x361e710b9597d553"

definition FULL_FRAME_MAGIC_1 :: "64 word" where
  "FULL_FRAME_MAGIC_1 = 0x189986dcc7aee1ca"

text \<open>\<^verbatim>\<open>join_counter\<close> is an \<^verbatim>\<open>int\<close> that counts the strands of a frame; it is taken as unbounded.\<close>

record ('m, 'e) full_frame =
  full_frame_magic_0 :: "64 word"
  ff_lock :: mutex
  join_counter :: int
  is_call_child :: bool
  simulated_stolen :: bool
  parent :: "ffptr option"
  left_sibling :: "ffptr option"
  right_sibling :: "ffptr option"
  rightmost_child :: "ffptr option"
  call_stack :: "sfptr option"
  children_reducer_map :: "'m option"
  right_reducer_map :: "'m option"
  pending_exception :: "'e option"
  child_pending_exception :: "'e option"
  right_pending_exception :: "'e option"
  sync_sp :: "64 word"
  frame_size :: "64 word"
  fiber_self :: "fiber option"
  fiber_child :: "fiber option"
  sync_master :: "wptr option"
  full_frame_magic_1 :: "64 word"


subsection \<open>Workers (local\_state.h, abi.h)\<close>

text \<open>
  \<open>local_state\<close> is the struct behind \<^verbatim>\<open>w->l\<close> and \<open>worker\<close> extends it with the fields of
  \<^verbatim>\<open>struct __cilkrts_worker\<close>, so \<^verbatim>\<open>w->l->frame_ff\<close> and \<^verbatim>\<open>w->head\<close> are both fields of one
  record. \<open>ltq_slot\<close> is the array the deque pointers point into.
\<close>

datatype worker_type = WORKER_FREE | WORKER_SYSTEM | WORKER_USER

text \<open>The two values \<open>post_suspend\<close> takes: the scheduling-stack functions of scheduler.c.\<close>

datatype sched_fcn = Do_sync | Do_return_from_spawn

definition WORKER_MAGIC_0 :: "64 word" where "WORKER_MAGIC_0 = 0xe0831a4a940c60b8"
definition WORKER_MAGIC_1 :: "64 word" where "WORKER_MAGIC_1 = 0x16164afb0ea0dff9"

record 'e local_state =
  worker_magic_0 :: "64 word"
  w_lock :: mutex
  do_not_steal :: bool
  steal_lock :: mutex
  frame_ff :: "ffptr option"
  next_frame_ff :: "ffptr option"
  last_full_frame :: "ffptr option"
  team :: "wptr option"
  wtype :: worker_type
  ltq :: nat
  ltq_slot :: "nat \<Rightarrow> sfptr option"
  scheduling_fiber :: "fiber option"
  original_pedigree_leaf :: "pedptr option"
  rand_seed :: "32 word"
  post_suspend :: "sched_fcn option"
  suspended_stack :: "sfptr option"
  fiber_to_free :: "fiber option"
  w_pending_exception :: "'e option"
  steal_failure_count :: "32 word"
  has_stolen :: bool
  work_stolen :: bool
  signal_node :: "nat option"
  worker_magic_1 :: "64 word"

record ('m, 'e) worker = "'e local_state" +
  tail :: nat
  head :: nat
  exc :: nat
  protected_tail :: nat
  ltq_limit :: nat
  self :: int
  reducer_map :: "'m option"
  current_stack_frame :: "sfptr option"
  w_pedigree :: pedigree

subsection \<open>The memory of the process\<close>

text \<open>
  One map per kind of struct. Addresses from \<open>ff_brk\<close> on hold no full frame yet:
  \<^verbatim>\<open>__cilkrts_frame_malloc\<close> is asked for a full frame by \<^verbatim>\<open>__cilkrts_make_full_frame\<close> and
  returns memory nobody else holds (proved of the allocator in Frame\_Malloc), which is
  the next address here. \<open>ff_freed\<close> records the full frames that were given back.
\<close>

record ('m, 'e) rts =
  ffh :: "ffptr \<Rightarrow> ('m, 'e) full_frame"
  ff_brk :: ffptr
  ff_freed :: "ffptr list"
  sfh :: "sfptr \<Rightarrow> stack_frame"
  wkh :: "wptr \<Rightarrow> ('m, 'e) worker"

definition upd_ff :: "ffptr \<Rightarrow> (('m, 'e) full_frame \<Rightarrow> ('m, 'e) full_frame)
    \<Rightarrow> ('m, 'e) rts \<Rightarrow> ('m, 'e) rts" where
  "upd_ff p f s = s\<lparr>ffh := (ffh s)(p := f (ffh s p))\<rparr>"

definition upd_sf :: "sfptr \<Rightarrow> (stack_frame \<Rightarrow> stack_frame) \<Rightarrow> ('m, 'e) rts \<Rightarrow> ('m, 'e) rts" where
  "upd_sf p f s = s\<lparr>sfh := (sfh s)(p := f (sfh s p))\<rparr>"

definition upd_wk :: "wptr \<Rightarrow> (('m, 'e) worker \<Rightarrow> ('m, 'e) worker)
    \<Rightarrow> ('m, 'e) rts \<Rightarrow> ('m, 'e) rts" where
  "upd_wk p f s = s\<lparr>wkh := (wkh s)(p := f (wkh s p))\<rparr>"

lemma ffh_upd [simp]:
  "ffh (upd_ff p f s) = (ffh s)(p := f (ffh s p))"
  "ffh (upd_sf q g s) = ffh s"
  "ffh (upd_wk w h s) = ffh s"
  by (simp_all add: upd_ff_def upd_sf_def upd_wk_def)

lemma sfh_upd [simp]:
  "sfh (upd_ff p f s) = sfh s"
  "sfh (upd_sf q g s) = (sfh s)(q := g (sfh s q))"
  "sfh (upd_wk w h s) = sfh s"
  by (simp_all add: upd_ff_def upd_sf_def upd_wk_def)

lemma wkh_upd [simp]:
  "wkh (upd_ff p f s) = wkh s"
  "wkh (upd_sf q g s) = wkh s"
  "wkh (upd_wk w h s) = (wkh s)(w := h (wkh s w))"
  by (simp_all add: upd_ff_def upd_sf_def upd_wk_def)

lemma ff_brk_upd [simp]:
  "ff_brk (upd_ff p f s) = ff_brk s"
  "ff_brk (upd_sf q g s) = ff_brk s"
  "ff_brk (upd_wk w h s) = ff_brk s"
  by (simp_all add: upd_ff_def upd_sf_def upd_wk_def)

lemma ff_freed_upd [simp]:
  "ff_freed (upd_ff p f s) = ff_freed s"
  "ff_freed (upd_sf q g s) = ff_freed s"
  "ff_freed (upd_wk w h s) = ff_freed s"
  by (simp_all add: upd_ff_def upd_sf_def upd_wk_def)

end
