(* ===== verification/Worker_Mutex.thy ===== *)
theory Worker_Mutex
  imports Runtime_State
begin

section \<open>Mutexes (worker\_mutex.c, spin\_mutex.c)\<close>

text \<open>
  The atomic operations of both mutexes, an interface (a mutex that is acquired by an
  atomic attempt and released by its holder) that both implement, and the concurrent
  behaviour of \<^verbatim>\<open>__cilkrts_mutex_lock\<close> and \<^verbatim>\<open>__cilkrts_mutex_unlock\<close>: any number of workers,
  interleaved between any two accesses to the mutex (exchange, read of \<open>lock\<close>, access to
  \<open>owner\<close>), with the spin loop written out.
\<close>

subsection \<open>Operations of the worker mutex\<close>

text \<open>\<^verbatim>\<open>__cilkrts_xchg(&m->lock, 1) == 0\<close>: the new mutex and whether it was acquired.\<close>

definition TRY_ACQUIRE :: "mutex \<Rightarrow> mutex \<times> bool" where
  "TRY_ACQUIRE m = (m\<lparr>mx_lock := 1\<rparr>, mx_lock m = 0)"

definition RELEASE :: "mutex \<Rightarrow> mutex" where
  "RELEASE m = m\<lparr>mx_lock := 0\<rparr>"

definition mutex_init :: "mutex" where
  "mutex_init = \<lparr>mx_lock = 0, mx_owner = None\<rparr>"

text \<open>
  \<^verbatim>\<open>__cilkrts_mutex_lock\<close> seen by a thread that runs alone: if the first exchange fails
  nobody will release the mutex, the spin loop never ends and there is no result. The
  loop itself is in the step relation below.
\<close>

definition mutex_lock :: "wptr \<Rightarrow> mutex \<Rightarrow> mutex option" where
  "mutex_lock w m = (case TRY_ACQUIRE m of (m1, ok) \<Rightarrow>
     if ok then do { cilk_assert (mx_owner m1 = None); Some (m1\<lparr>mx_owner := Some w\<rparr>) }
     else None)"

definition mutex_trylock :: "wptr \<Rightarrow> mutex \<Rightarrow> (mutex \<times> bool) option" where
  "mutex_trylock w m = (case TRY_ACQUIRE m of (m1, ok) \<Rightarrow>
     if ok then do { cilk_assert (mx_owner m1 = None); Some (m1\<lparr>mx_owner := Some w\<rparr>, True) }
     else Some (m1, False))"

definition mutex_unlock :: "wptr \<Rightarrow> mutex \<Rightarrow> mutex option" where
  "mutex_unlock w m = do {
     cilk_assert (mx_owner m = Some w);
     Some (RELEASE (m\<lparr>mx_owner := None\<rparr>)) }"

definition mutex_destroy :: "mutex \<Rightarrow> mutex" where
  "mutex_destroy m = m"

text \<open>A mutex is well formed when it is free and unowned, or held by its owner.\<close>

definition mutex_wf :: "mutex \<Rightarrow> bool" where
  "mutex_wf m \<longleftrightarrow> (mx_lock m = 0 \<and> mx_owner m = None) \<or> (mx_lock m = 1 \<and> mx_owner m \<noteq> None)"

abbreviation mutex_free :: "mutex \<Rightarrow> bool" where
  "mutex_free m \<equiv> mx_lock m = 0 \<and> mx_owner m = None"

subsection \<open>Operations of the spin mutex (spin\_mutex.c)\<close>

record spin_mutex = sm_lock :: int

definition spin_TRY_ACQUIRE :: "spin_mutex \<Rightarrow> spin_mutex \<times> bool" where
  "spin_TRY_ACQUIRE m = (m\<lparr>sm_lock := 1\<rparr>, sm_lock m = 0)"

definition spin_mutex_init :: "spin_mutex" where
  "spin_mutex_init = \<lparr>sm_lock = 0\<rparr>"

definition spin_mutex_lock :: "spin_mutex \<Rightarrow> spin_mutex option" where
  "spin_mutex_lock m = (case spin_TRY_ACQUIRE m of (m1, ok) \<Rightarrow> if ok then Some m1 else None)"

definition spin_mutex_trylock :: "spin_mutex \<Rightarrow> spin_mutex \<times> bool" where
  "spin_mutex_trylock m = spin_TRY_ACQUIRE m"

definition spin_mutex_unlock :: "spin_mutex \<Rightarrow> spin_mutex" where
  "spin_mutex_unlock m = m\<lparr>sm_lock := 0\<rparr>"

subsection \<open>The concurrent mutex\<close>

text \<open>
  Where a worker is in the code of \<^verbatim>\<open>__cilkrts_mutex_lock\<close>, \<^verbatim>\<open>__cilkrts_mutex_trylock\<close> and
  \<^verbatim>\<open>__cilkrts_mutex_unlock\<close>. \<open>M_try c\<close> is about to exchange (\<open>c\<close> is the variable \<open>count\<close>),
  \<open>M_spin c\<close> is in the inner loop, \<open>M_acquired\<close> is before the check and the write of
  \<open>owner\<close>, \<open>M_release\<close> is between the write of \<open>owner\<close> and the releasing exchange;
  \<open>M_bug\<close> has failed a \<^verbatim>\<open>CILK_ASSERT\<close>.
\<close>

datatype mutex_pc = M_idle | M_try nat | M_spin nat | M_acquired | M_crit | M_release | M_bug

record mutex_sys =
  mx :: mutex
  mpc :: "wptr \<Rightarrow> mutex_pc"

definition maxspin :: nat where "maxspin = 1000"

text \<open>One turn of the inner loop: pause, count, yield every \<open>maxspin\<close> turns.\<close>

definition spin_count :: "nat \<Rightarrow> nat" where
  "spin_count c = (if Suc c \<ge> maxspin then 0 else Suc c)"

abbreviation set_mpc :: "wptr \<Rightarrow> mutex_pc \<Rightarrow> mutex_sys \<Rightarrow> mutex_sys" where
  "set_mpc w p s \<equiv> s\<lparr>mpc := (mpc s)(w := p)\<rparr>"

inductive mutex_step :: "mutex_sys \<Rightarrow> mutex_sys \<Rightarrow> bool" where
  call_lock: "mpc s w = M_idle \<Longrightarrow> mutex_step s (set_mpc w (M_try 0) s)"
| try_ok: "\<lbrakk>mpc s w = M_try c; TRY_ACQUIRE (mx s) = (m, True)\<rbrakk>
    \<Longrightarrow> mutex_step s (set_mpc w M_acquired (s\<lparr>mx := m\<rparr>))"
| try_fail: "\<lbrakk>mpc s w = M_try c; TRY_ACQUIRE (mx s) = (m, False)\<rbrakk>
    \<Longrightarrow> mutex_step s (set_mpc w (M_spin c) (s\<lparr>mx := m\<rparr>))"
| spin_again: "\<lbrakk>mpc s w = M_spin c; mx_lock (mx s) \<noteq> 0\<rbrakk>
    \<Longrightarrow> mutex_step s (set_mpc w (M_spin (spin_count c)) s)"
| spin_done: "\<lbrakk>mpc s w = M_spin c; mx_lock (mx s) = 0\<rbrakk>
    \<Longrightarrow> mutex_step s (set_mpc w (M_try (spin_count c)) s)"
| trylock_ok: "\<lbrakk>mpc s w = M_idle; TRY_ACQUIRE (mx s) = (m, True)\<rbrakk>
    \<Longrightarrow> mutex_step s (set_mpc w M_acquired (s\<lparr>mx := m\<rparr>))"
| trylock_fail: "\<lbrakk>mpc s w = M_idle; TRY_ACQUIRE (mx s) = (m, False)\<rbrakk>
    \<Longrightarrow> mutex_step s (s\<lparr>mx := m\<rparr>)"
| own: "\<lbrakk>mpc s w = M_acquired; mx_owner (mx s) = None\<rbrakk>
    \<Longrightarrow> mutex_step s (set_mpc w M_crit (s\<lparr>mx := (mx s)\<lparr>mx_owner := Some w\<rparr>\<rparr>))"
| own_bug: "\<lbrakk>mpc s w = M_acquired; mx_owner (mx s) \<noteq> None\<rbrakk>
    \<Longrightarrow> mutex_step s (set_mpc w M_bug s)"
| disown: "\<lbrakk>mpc s w = M_crit; mx_owner (mx s) = Some w\<rbrakk>
    \<Longrightarrow> mutex_step s (set_mpc w M_release (s\<lparr>mx := (mx s)\<lparr>mx_owner := None\<rparr>\<rparr>))"
| disown_bug: "\<lbrakk>mpc s w = M_crit; mx_owner (mx s) \<noteq> Some w\<rbrakk>
    \<Longrightarrow> mutex_step s (set_mpc w M_bug s)"
| release: "mpc s w = M_release
    \<Longrightarrow> mutex_step s (set_mpc w M_idle (s\<lparr>mx := RELEASE (mx s)\<rparr>))"

definition mutex_sys_init :: mutex_sys where
  "mutex_sys_init = \<lparr>mx = mutex_init, mpc = (\<lambda>_. M_idle)\<rparr>"

inductive mutex_reachable :: "mutex_sys \<Rightarrow> bool" where
  start: "mutex_reachable mutex_sys_init"
| step: "mutex_reachable s \<Longrightarrow> mutex_step s t \<Longrightarrow> mutex_reachable t"

text \<open>A worker that is past a successful exchange and before its release holds the mutex.\<close>

definition holding :: "mutex_pc \<Rightarrow> bool" where
  "holding p \<longleftrightarrow> p = M_acquired \<or> p = M_crit \<or> p = M_release"

lemma holding_simps [simp]:
  "holding M_acquired" "holding M_crit" "holding M_release"
  "\<not> holding M_idle" "\<not> holding (M_try c)" "\<not> holding (M_spin c)" "\<not> holding M_bug"
  by (simp_all add: holding_def)

subsection \<open>The interface of a mutex\<close>

text \<open>
  What the clients of a mutex rely on: an attempt succeeds exactly when the mutex is
  free, and then it is held; a failed attempt leaves it held; release frees it.
\<close>

locale try_mutex =
  fixes held :: "'x \<Rightarrow> bool"
    and init :: 'x
    and attempt :: "wptr \<Rightarrow> 'x \<Rightarrow> 'x \<times> bool"
    and release :: "wptr \<Rightarrow> 'x \<Rightarrow> 'x"
    and legal :: "wptr option \<Rightarrow> 'x \<Rightarrow> bool"
  assumes init_legal: "legal None init"
    and legal_held: "legal h x \<Longrightarrow> held x \<longleftrightarrow> h \<noteq> None"
    and attempt_free: "\<lbrakk>legal None x; attempt w x = (x', b)\<rbrakk> \<Longrightarrow> b \<and> legal (Some w) x'"
    and attempt_held: "\<lbrakk>legal (Some v) x; attempt w x = (x', b)\<rbrakk> \<Longrightarrow> \<not> b \<and> legal (Some v) x'"
    and release_legal: "legal (Some w) x \<Longrightarrow> legal None (release w x)"
begin

text \<open>
  A history of attempts and releases by any workers, where only a worker whose last
  attempt succeeded releases. \<open>run\<close> returns the mutex and the workers inside.
\<close>

primrec run :: "(wptr \<times> bool) list \<Rightarrow> 'x \<times> wptr set \<Rightarrow> 'x \<times> wptr set" where
  "run [] c = c"
| "run (e # es) c = (case (e, c) of ((w, is_attempt), (x, inside)) \<Rightarrow>
     if is_attempt then
       (if w \<in> inside then run es c
        else case attempt w x of (x', b) \<Rightarrow> run es (x', if b then insert w inside else inside))
     else if w \<in> inside then run es (release w x, inside - {w})
     else run es c)"

definition consistent :: "'x \<times> wptr set \<Rightarrow> bool" where
  "consistent c \<longleftrightarrow> (\<exists>h. legal h (fst c) \<and> snd c = set_option h)"

lemma run_consistent: "consistent c \<Longrightarrow> consistent (run es c)"
proof (induction es arbitrary: c)
  case Nil
  then show ?case by simp
next
  case (Cons e es)
  obtain w a where e: "e = (w, a)" by force
  obtain x ins where c: "c = (x, ins)" by force
  from Cons.prems obtain h where h: "legal h x" "ins = set_option h"
    by (auto simp: consistent_def c)
  obtain x' b where at: "attempt w x = (x', b)" by force
  have "consistent (x', if b then insert w ins else ins)" if "w \<notin> ins"
  proof (cases h)
    case None
    with attempt_free [of x w x' b] at h have "b \<and> legal (Some w) x'" by simp
    with None h show ?thesis by (auto simp: consistent_def)
  next
    case (Some v)
    with attempt_held [of v x w x' b] at h have "\<not> b \<and> legal (Some v) x'" by simp
    with Some h show ?thesis by (auto simp: consistent_def)
  qed
  moreover have "consistent (release w x, ins - {w})" if "w \<in> ins"
    using that h release_legal by (cases h) (auto simp: consistent_def)
  ultimately show ?case
    using Cons.IH Cons.prems by (auto simp: e c at)
qed

lemma run_exclusive:
  assumes "run es (init, {}) = (x, inside)" "v \<in> inside" "w \<in> inside"
  shows "v = w"
proof -
  have "consistent (init, {})"
    using init_legal by (auto simp: consistent_def)
  then have "consistent (x, inside)"
    using run_consistent [of "(init, {})" es] assms(1) by simp
  with assms(2,3) show ?thesis by (auto simp: consistent_def)
qed

end

text \<open>The worker mutex as an instance: its attempt and release never fail an assertion there.\<close>

definition mutex_attempt :: "wptr \<Rightarrow> mutex \<Rightarrow> mutex \<times> bool" where
  "mutex_attempt w m = (case mutex_trylock w m of Some r \<Rightarrow> r | None \<Rightarrow> (m, False))"

definition mutex_give :: "wptr \<Rightarrow> mutex \<Rightarrow> mutex" where
  "mutex_give w m = (case mutex_unlock w m of Some m' \<Rightarrow> m' | None \<Rightarrow> m)"

definition mutex_legal :: "wptr option \<Rightarrow> mutex \<Rightarrow> bool" where
  "mutex_legal h m \<longleftrightarrow> mutex_wf m \<and> mx_owner m = h"

interpretation wm: try_mutex "\<lambda>m. mx_lock m = 1" mutex_init mutex_attempt mutex_give mutex_legal
  by unfold_locales
    (auto simp: mutex_legal_def mutex_wf_def mutex_init_def mutex_attempt_def mutex_give_def
      mutex_trylock_def mutex_unlock_def TRY_ACQUIRE_def RELEASE_def)

interpretation sm: try_mutex "\<lambda>m. sm_lock m = 1" spin_mutex_init
  "\<lambda>w. spin_mutex_trylock" "\<lambda>w. spin_mutex_unlock"
  "\<lambda>h m. sm_lock m = (if h = None then 0 else 1)"
  by unfold_locales
    (auto simp: spin_mutex_init_def spin_mutex_trylock_def spin_mutex_unlock_def spin_TRY_ACQUIRE_def)

subsection \<open>Lemmas on the operations\<close>

lemma mutex_lock_free [simp]:
  "mutex_free m \<Longrightarrow> mutex_lock w m = Some (m\<lparr>mx_lock := 1, mx_owner := Some w\<rparr>)"
  by (simp add: mutex_lock_def TRY_ACQUIRE_def)

lemma mutex_unlock_own [simp]:
  "mx_owner m = Some w \<Longrightarrow> mutex_unlock w m = Some (m\<lparr>mx_owner := None, mx_lock := 0\<rparr>)"
  by (simp add: mutex_unlock_def RELEASE_def)

lemma mutex_free_eq: "mutex_free m \<Longrightarrow> m\<lparr>mx_lock := 0, mx_owner := None\<rparr> = m"
  by (cases m) simp

lemma mutex_free_init: "mutex_free m \<longleftrightarrow> m = mutex_init"
  by (cases m) (simp add: mutex_init_def)

subsection \<open>Mutual exclusion of the concurrent mutex\<close>

text \<open>
  The invariant ties the word \<open>lock\<close> and the field \<open>owner\<close> to the workers' positions.
\<close>

definition mutex_inv :: "mutex_sys \<Rightarrow> bool" where
  "mutex_inv s \<longleftrightarrow>
     (\<forall>v w. holding (mpc s v) \<longrightarrow> holding (mpc s w) \<longrightarrow> v = w) \<and>
     (mx_lock (mx s) = 0 \<longrightarrow> (\<forall>w. \<not> holding (mpc s w))) \<and>
     (\<forall>w. mx_owner (mx s) = Some w \<longleftrightarrow> mpc s w = M_crit) \<and>
     (\<forall>w. mpc s w \<noteq> M_bug)"

lemma mutex_inv_init: "mutex_inv mutex_sys_init"
  by (simp add: mutex_inv_def mutex_sys_init_def mutex_init_def)

lemma mutex_inv_owner: "mutex_inv s \<Longrightarrow> mx_owner (mx s) = Some w \<longleftrightarrow> mpc s w = M_crit"
  unfolding mutex_inv_def by blast

lemma mutex_inv_no_owner:
  assumes "mutex_inv s" "\<And>v. mpc s v \<noteq> M_crit"
  shows "mx_owner (mx s) = None"
  using assms mutex_inv_owner [of s] by (cases "mx_owner (mx s)") blast+

lemma mutex_inv_other:
  "\<lbrakk>mutex_inv s; holding (mpc s w); v \<noteq> w\<rbrakk> \<Longrightarrow> \<not> holding (mpc s v)"
  by (auto simp: mutex_inv_def)

text \<open>A successful exchange, in \<^verbatim>\<open>lock\<close> or in \<^verbatim>\<open>trylock\<close>, keeps the invariant.\<close>

lemma mutex_inv_acquire:
  assumes inv: "mutex_inv s" and ta: "TRY_ACQUIRE (mx s) = (m, True)"
  shows "mutex_inv (set_mpc w M_acquired (s\<lparr>mx := m\<rparr>))"
proof -
  from ta have free: "mx_lock (mx s) = 0" and m: "m = (mx s)\<lparr>mx_lock := 1\<rparr>"
    by (auto simp: TRY_ACQUIRE_def)
  have none: "\<not> holding (mpc s v)" for v
    using inv free by (simp add: mutex_inv_def)
  have "mx_owner (mx s) = None"
    using none by (intro mutex_inv_no_owner inv) (metis holding_simps(2))
  with inv none m show ?thesis by (auto simp: mutex_inv_def)
qed

lemma mutex_inv_enter:
  assumes inv: "mutex_inv s" and w: "mpc s w = M_acquired"
  shows "mx_owner (mx s) = None"
proof (rule mutex_inv_no_owner [OF inv])
  fix v
  show "mpc s v \<noteq> M_crit"
    using mutex_inv_other [OF inv, of w v] w by (cases "v = w") auto
qed

lemma mutex_step_inv:
  assumes "mutex_step s t" "mutex_inv s"
  shows "mutex_inv t"
  using assms
proof (induction rule: mutex_step.induct)
  case (own s w)
  have "\<not> holding (mpc s v)" if "v \<noteq> w" for v
    using own that mutex_inv_other [of s w v] by simp
  with own show ?case by (auto simp: mutex_inv_def) (metis holding_simps(1))
next
  case (own_bug s w)
  then show ?case using mutex_inv_enter [of s w] by simp
next
  case (disown s w)
  have "\<not> holding (mpc s v)" if "v \<noteq> w" for v
    using disown that mutex_inv_other [of s w v] by simp
  with disown show ?case by (auto simp: mutex_inv_def) (metis holding_simps(2))
next
  case (disown_bug s w)
  then show ?case using mutex_inv_owner [of s w] by simp
next
  case (release s w)
  have "\<not> holding (mpc s v)" if "v \<noteq> w" for v
    using release that mutex_inv_other [of s w v] by simp
  with release show ?case by (auto simp: mutex_inv_def RELEASE_def)
qed (auto simp: mutex_inv_def TRY_ACQUIRE_def intro: mutex_inv_acquire split: if_splits)

lemma mutex_reachable_inv: "mutex_reachable s \<Longrightarrow> mutex_inv s"
  by (induction rule: mutex_reachable.induct) (auto intro: mutex_inv_init mutex_step_inv)

subsection \<open>Properties\<close>

text \<open>C20: In every reachable state of any number of workers running
  \<^verbatim>\<open>__cilkrts_mutex_lock\<close>, \<^verbatim>\<open>__cilkrts_mutex_trylock\<close> and \<^verbatim>\<open>__cilkrts_mutex_unlock\<close> on one mutex,
  interleaved at every access, at most one worker is between its successful exchange and
  its release, and neither \<^verbatim>\<open>CILK_ASSERT(m->owner == 0)\<close> nor \<^verbatim>\<open>CILK_ASSERT(m->owner == w)\<close>
  has failed.\<close>

theorem worker_mutex_exclusion:
  assumes "mutex_reachable s"
  shows "(holding (mpc s v) \<and> holding (mpc s w) \<longrightarrow> v = w) \<and> mpc s v \<noteq> M_bug"
  using mutex_reachable_inv [OF assms] by (auto simp: mutex_inv_def)

theorem worker_mutex_exclusion_witness:
  "let t = set_mpc 7 M_acquired (mutex_sys_init\<lparr>mx := \<lparr>mx_lock = 1, mx_owner = None\<rparr>\<rparr>) in
     mutex_reachable t \<and> holding (mpc t 7) \<and> \<not> holding (mpc t 3) \<and> mpc t 7 \<noteq> M_bug"
proof -
  let ?t = "set_mpc 7 M_acquired (mutex_sys_init\<lparr>mx := \<lparr>mx_lock = 1, mx_owner = None\<rparr>\<rparr>)"
  have r: "mutex_reachable ?t"
    by (rule mutex_reachable.step [OF mutex_reachable.start], rule mutex_step.trylock_ok)
      (simp_all add: mutex_sys_init_def TRY_ACQUIRE_def mutex_init_def)
  from worker_mutex_exclusion [OF r, of 7 3] r show ?thesis
    by (simp add: Let_def)
qed

text \<open>Any history of \<^verbatim>\<open>spin_mutex_trylock\<close> and \<^verbatim>\<open>spin_mutex_unlock\<close> calls (only a worker that
  got the mutex releases it) leaves at most one worker inside, and the word \<^verbatim>\<open>lock\<close> is 1
  exactly when somebody is inside.\<close>

theorem spin_mutex_exclusion:
  assumes "sm.run es (spin_mutex_init, {}) = (m, inside)"
  shows "(v \<in> inside \<longrightarrow> w \<in> inside \<longrightarrow> v = w) \<and> (sm_lock m = 1 \<longleftrightarrow> inside \<noteq> {})"
proof -
  have "sm.consistent (spin_mutex_init, {})"
    by (simp add: sm.consistent_def spin_mutex_init_def)
  then have "sm.consistent (m, inside)"
    using sm.run_consistent [of "(spin_mutex_init, {})" es] assms by simp
  then show ?thesis
    using sm.run_exclusive [OF assms] by (auto simp: sm.consistent_def split: if_splits)
qed

theorem spin_mutex_exclusion_witness:
  "sm.run [(1, True), (2, True), (1, False), (2, True)] (spin_mutex_init, {}) = (\<lparr>sm_lock = 1\<rparr>, {2})
   \<and> (sm_lock \<lparr>sm_lock = 1\<rparr> = 1 \<longleftrightarrow> {2 :: wptr} \<noteq> {})"
proof -
  have r: "sm.run [(1, True), (2, True), (1, False), (2, True)] (spin_mutex_init, {})
      = (\<lparr>sm_lock = 1\<rparr>, {2})"
    by (simp add: spin_mutex_init_def spin_mutex_trylock_def spin_mutex_unlock_def
        spin_TRY_ACQUIRE_def)
  from spin_mutex_exclusion [OF r, of 2 2] r show ?thesis by simp
qed

end
