(* ===== verification/Frame_Malloc.thy ===== *)
theory Frame_Malloc
  imports Worker_Mutex
begin

section \<open>The allocator of small frames (frame\_malloc.c)\<close>

text \<open>
  Blocks of six sizes are carved from chunks of the operating system's memory, kept in free
  lists per worker and size, and exchanged with global free lists. A free block holds the link to
  the next one in its first word (\<open>cdr\<close>), 0 is the null pointer. The memory the operating system
  returns is an argument \<open>os\<close>: the address of the n-th chunk.
\<close>

definition FRAME_MALLOC_NBUCKETS :: nat where "FRAME_MALLOC_NBUCKETS = 6"
definition FRAME_MALLOC_MAX_SIZE :: nat where "FRAME_MALLOC_MAX_SIZE = 2048"
definition FRAME_MALLOC_CHUNK :: nat where "FRAME_MALLOC_CHUNK = 32 * 1024 - 128"

definition FRAME_MALLOC_BUCKET_TO_SIZE :: "nat \<Rightarrow> nat" where
  "FRAME_MALLOC_BUCKET_TO_SIZE bucket = [64, 128, 256, 512, 1024, 2048] ! bucket"

record frame_cache =
  fm_lock :: mutex
  cdr :: "nat \<Rightarrow> nat"
  pool_list :: "nat list"
  pool_begin :: nat
  pool_end :: nat
  global_free_list :: "nat \<Rightarrow> nat"
  batch_size :: nat
  potential_limit :: nat
  check_for_leaks :: bool
  allocated_from_os :: "64 word"
  wasted :: "64 word"
  allocated_from_global_pool :: "64 word"
  free_list :: "wptr \<Rightarrow> nat \<Rightarrow> nat"
  bucket_potential :: "wptr \<Rightarrow> nat \<Rightarrow> nat"

subsection \<open>Free lists\<close>

text \<open>\<open>push\<close> gives the new head and the links, \<open>pop\<close> the block taken (0 if none) and the new head.\<close>

definition push :: "nat \<Rightarrow> nat \<Rightarrow> (nat \<Rightarrow> nat) \<Rightarrow> nat \<times> (nat \<Rightarrow> nat)" where
  "push b p c = (p, c(p := b))"

definition pop :: "nat \<Rightarrow> (nat \<Rightarrow> nat) \<Rightarrow> nat \<times> nat" where
  "pop b c = (let p = b in (p, if p \<noteq> 0 then c p else b))"

definition worker_push :: "wptr \<Rightarrow> nat \<Rightarrow> nat \<Rightarrow> frame_cache \<Rightarrow> frame_cache" where
  "worker_push w bucket p s =
     (let (h, c) = push (free_list s w bucket) p (cdr s)
      in s\<lparr>free_list := (free_list s)(w := (free_list s w)(bucket := h)), cdr := c\<rparr>)"

definition worker_pop :: "wptr \<Rightarrow> nat \<Rightarrow> frame_cache \<Rightarrow> nat \<times> frame_cache" where
  "worker_pop w bucket s =
     (let (p, h) = pop (free_list s w bucket) (cdr s)
      in (p, s\<lparr>free_list := (free_list s)(w := (free_list s w)(bucket := h))\<rparr>))"

definition add_potential :: "wptr \<Rightarrow> nat \<Rightarrow> nat \<Rightarrow> frame_cache \<Rightarrow> frame_cache" where
  "add_potential w bucket n s = s\<lparr>bucket_potential := (bucket_potential s)
     (w := (bucket_potential s w)(bucket := bucket_potential s w bucket + n))\<rparr>"

subsection \<open>The global allocator\<close>

definition extend_global_pool :: "(nat \<Rightarrow> nat) \<Rightarrow> frame_cache \<Rightarrow> frame_cache" where
  "extend_global_pool os s =
     (let b = os (length (pool_list s))
      in s\<lparr>pool_begin := b, pool_end := b + FRAME_MALLOC_CHUNK,
           allocated_from_os := allocated_from_os s + of_nat FRAME_MALLOC_CHUNK, pool_list := b # pool_list s\<rparr>)"

definition global_alloc :: "(nat \<Rightarrow> nat) \<Rightarrow> nat \<Rightarrow> frame_cache \<Rightarrow> (nat \<times> frame_cache) option" where
  "global_alloc os bucket s = do {
     cilk_assert (bucket < FRAME_MALLOC_NBUCKETS);
     let sz = FRAME_MALLOC_BUCKET_TO_SIZE bucket;
     let s = s\<lparr>allocated_from_global_pool := allocated_from_global_pool s + of_nat sz\<rparr>;
     let (mem, h) = pop (global_free_list s bucket) (cdr s);
     let s = s\<lparr>global_free_list := (global_free_list s)(bucket := h)\<rparr>;
     if mem = 0 then do {
       cilk_assert (pool_begin s \<le> pool_end s);
       let s = (if pool_begin s + sz > pool_end s
                then extend_global_pool os (s\<lparr>wasted := wasted s + of_nat (pool_end s - pool_begin s)\<rparr>) else s);
       Some (pool_begin s, s\<lparr>pool_begin := pool_begin s + sz\<rparr>) }
     else Some (mem, s) }"

definition global_free :: "nat \<Rightarrow> nat \<Rightarrow> frame_cache \<Rightarrow> frame_cache option" where
  "global_free p bucket s = do {
     cilk_assert (bucket < FRAME_MALLOC_NBUCKETS);
     let sz = FRAME_MALLOC_BUCKET_TO_SIZE bucket;
     let s = s\<lparr>allocated_from_global_pool := allocated_from_global_pool s - of_nat sz\<rparr>;
     let (h, c) = push (global_free_list s bucket) p (cdr s);
     Some (s\<lparr>global_free_list := (global_free_list s)(bucket := h), cdr := c\<rparr>) }"

definition frame_malloc_global_init :: "frame_cache \<Rightarrow> frame_cache" where
  "frame_malloc_global_init s = s\<lparr>fm_lock := mutex_init, check_for_leaks := True, pool_list := [],
     pool_begin := 0, pool_end := 0, batch_size := 8000, potential_limit := 4 * 8000,
     allocated_from_os := 0, allocated_from_global_pool := 0, wasted := 0, global_free_list := (\<lambda>_. 0)\<rparr>"

partial_function (option) count_free_list :: "nat \<Rightarrow> (nat \<Rightarrow> nat) \<Rightarrow> nat \<Rightarrow> 64 word \<Rightarrow> 64 word option" where
  "count_free_list sz c p n = (if p = 0 then Some n else count_free_list sz c (c p) (n + of_nat sz))"

fun count_buckets :: "nat list \<Rightarrow> frame_cache \<Rightarrow> 64 word \<Rightarrow> 64 word option" where
  "count_buckets [] s n = Some n"
| "count_buckets (i # is) s n = do {
     m \<leftarrow> count_free_list (FRAME_MALLOC_BUCKET_TO_SIZE i) (cdr s) (global_free_list s i) 0;
     count_buckets is s (n + m) }"

definition count_memory_in_global_list :: "frame_cache \<Rightarrow> 64 word option" where
  "count_memory_in_global_list s = count_buckets [0..<FRAME_MALLOC_NBUCKETS] s 0"

text \<open>\<^verbatim>\<open>__cilkrts_frame_malloc_global_cleanup\<close>: the two reports are calls of \<^verbatim>\<open>__cilkrts_bug\<close>, which do not return.\<close>

datatype fm_bug = Corrupted | Memory_leak

definition frame_malloc_global_cleanup :: "frame_cache \<Rightarrow> (fm_bug + frame_cache) option" where
  "frame_malloc_global_cleanup s = do {
     corrupt \<leftarrow> (if check_for_leaks s then do {
                   n \<leftarrow> count_memory_in_global_list s;
                   Some (n > allocated_from_os s) }
                 else Some False);
     if corrupt then Some (Inl Corrupted)
     else do {
       let s = s\<lparr>pool_list := [], fm_lock := mutex_destroy (fm_lock s)\<rparr>;
       Some (if check_for_leaks s \<and> allocated_from_global_pool s \<noteq> 0 then Inl Memory_leak else Inr s) } }"

subsection \<open>The allocator of a worker\<close>

definition fm_mutex_lock :: "wptr \<Rightarrow> frame_cache \<Rightarrow> frame_cache option" where
  "fm_mutex_lock w s = map_option (\<lambda>m. s\<lparr>fm_lock := m\<rparr>) (mutex_lock w (fm_lock s))"

definition fm_mutex_unlock :: "wptr \<Rightarrow> frame_cache \<Rightarrow> frame_cache option" where
  "fm_mutex_unlock w s = map_option (\<lambda>m. s\<lparr>fm_lock := m\<rparr>) (mutex_unlock w (fm_lock s))"

partial_function (option) batch_loop ::
    "(nat \<Rightarrow> nat) \<Rightarrow> wptr \<Rightarrow> nat \<Rightarrow> nat \<Rightarrow> nat \<Rightarrow> frame_cache \<Rightarrow> frame_cache option" where
  "batch_loop os w bucket sz bytes_allocated s = do {
     let s = add_potential w bucket sz s;
     let bytes_allocated = bytes_allocated + sz;
     (p, s) \<leftarrow> global_alloc os bucket s;
     let s = worker_push w bucket p s;
     if bytes_allocated < batch_size s then batch_loop os w bucket sz bytes_allocated s else Some s }"

definition allocate_batch :: "(nat \<Rightarrow> nat) \<Rightarrow> wptr \<Rightarrow> nat \<Rightarrow> nat \<Rightarrow> frame_cache \<Rightarrow> frame_cache option" where
  "allocate_batch os w bucket sz s = do {
     s \<leftarrow> fm_mutex_lock w s;
     s \<leftarrow> batch_loop os w bucket sz 0 s;
     fm_mutex_unlock w s }"

text \<open>The first loop of \<^verbatim>\<open>gc_bucket\<close>: where it stops and the new potential.\<close>

partial_function (option) gc_scan :: "(nat \<Rightarrow> nat) \<Rightarrow> nat \<Rightarrow> nat \<Rightarrow> nat \<Rightarrow> nat \<Rightarrow> (nat \<times> nat) option" where
  "gc_scan c sz pot p newpot =
     (if p \<noteq> 0 \<and> 2 * newpot < pot then gc_scan c sz pot (c p) (newpot + sz) else Some (p, newpot))"

text \<open>Its second loop pops from the link of the block \<open>p\<close> where the first one stopped.\<close>

partial_function (option) gc_free :: "nat \<Rightarrow> nat \<Rightarrow> frame_cache \<Rightarrow> frame_cache option" where
  "gc_free p bucket s = do {
     let (q, h) = pop (cdr s p) (cdr s);
     let s = s\<lparr>cdr := (cdr s)(p := h)\<rparr>;
     if q = 0 then Some s
     else do { s \<leftarrow> global_free q bucket s; gc_free p bucket s } }"

definition gc_bucket :: "wptr \<Rightarrow> nat \<Rightarrow> nat \<Rightarrow> frame_cache \<Rightarrow> frame_cache option" where
  "gc_bucket w bucket sz s = do {
     let pot = bucket_potential s w bucket;
     (p, newpot) \<leftarrow> gc_scan (cdr s) sz pot (free_list s w bucket) 0;
     let s = s\<lparr>bucket_potential := (bucket_potential s)(w := (bucket_potential s w)(bucket := newpot))\<rparr>;
     if p \<noteq> 0 then do {
       s \<leftarrow> fm_mutex_lock w s;
       s \<leftarrow> gc_free p bucket s;
       fm_mutex_unlock w s }
     else Some s }"

text \<open>\<^verbatim>\<open>move_bucket_to_global_free_list\<close> walks with a local pointer: the head of the worker's list stays as it is.\<close>

partial_function (option) move_loop :: "nat \<Rightarrow> nat \<Rightarrow> frame_cache \<Rightarrow> frame_cache option" where
  "move_loop p bucket s = do {
     let (q, p) = pop p (cdr s);
     if q = 0 then Some s
     else do { s \<leftarrow> global_free q bucket s; move_loop p bucket s } }"

definition move_bucket_to_global_free_list :: "wptr \<Rightarrow> nat \<Rightarrow> frame_cache \<Rightarrow> frame_cache option" where
  "move_bucket_to_global_free_list w bucket s = do {
     let p = free_list s w bucket;
     s \<leftarrow> (if p \<noteq> 0 then do {
             s \<leftarrow> fm_mutex_lock w s;
             s \<leftarrow> move_loop p bucket s;
             fm_mutex_unlock w s }
           else Some s);
     Some (s\<lparr>bucket_potential := (bucket_potential s)(w := (bucket_potential s w)(bucket := 0))\<rparr>) }"

function bucket_of_size_from :: "nat \<Rightarrow> nat \<Rightarrow> nat option" where
  "bucket_of_size_from i sz =
     (if i < FRAME_MALLOC_NBUCKETS
      then if sz \<le> FRAME_MALLOC_BUCKET_TO_SIZE i then Some i else bucket_of_size_from (i + 1) sz
      else None)"
  by auto
termination by (relation "measure (\<lambda>(i, _). FRAME_MALLOC_NBUCKETS - i)") auto

declare bucket_of_size_from.simps [simp del]

definition bucket_of_size :: "nat \<Rightarrow> nat option" where
  "bucket_of_size sz = bucket_of_size_from 0 sz"

definition frame_malloc_roundup :: "nat \<Rightarrow> nat option" where
  "frame_malloc_roundup sz =
     (if sz > FRAME_MALLOC_MAX_SIZE then Some sz
      else map_option FRAME_MALLOC_BUCKET_TO_SIZE (bucket_of_size sz))"

definition size_of_bucket :: "int \<Rightarrow> nat option" where
  "size_of_bucket bucket = do {
     cilk_assert (bucket \<ge> 0 \<and> bucket < int FRAME_MALLOC_NBUCKETS);
     Some (FRAME_MALLOC_BUCKET_TO_SIZE (nat bucket)) }"

partial_function (option) malloc_loop :: "(nat \<Rightarrow> nat) \<Rightarrow> wptr \<Rightarrow> nat \<Rightarrow> nat \<Rightarrow> frame_cache \<Rightarrow> (nat \<times> frame_cache) option" where
  "malloc_loop os w bucket sz s = do {
     let (mem, s) = worker_pop w bucket s;
     if mem = 0 then do {
       s \<leftarrow> allocate_batch os w bucket sz s;
       malloc_loop os w bucket sz s }
     else Some (mem, s) }"

text \<open>
  \<^verbatim>\<open>__cilkrts_frame_malloc\<close> and \<^verbatim>\<open>__cilkrts_frame_free\<close>: with no worker or a large size the request is
  passed to the C library (\<open>Inl\<close> with the size, or the state unchanged).
\<close>

definition frame_malloc :: "(nat \<Rightarrow> nat) \<Rightarrow> wptr option \<Rightarrow> nat \<Rightarrow> frame_cache \<Rightarrow> (nat + nat \<times> frame_cache) option" where
  "frame_malloc os w sz s =
     (case w of None \<Rightarrow> Some (Inl sz)
      | Some w \<Rightarrow> if sz > FRAME_MALLOC_MAX_SIZE then Some (Inl sz)
          else do {
            bucket \<leftarrow> bucket_of_size sz;
            let sz = FRAME_MALLOC_BUCKET_TO_SIZE bucket;
            r \<leftarrow> malloc_loop os w bucket sz s;
            Some (Inr r) })"

definition frame_free :: "wptr option \<Rightarrow> nat \<Rightarrow> nat \<Rightarrow> frame_cache \<Rightarrow> frame_cache option" where
  "frame_free w p sz s =
     (case w of None \<Rightarrow> Some s
      | Some w \<Rightarrow> if sz > FRAME_MALLOC_MAX_SIZE then Some s
          else do {
            bucket \<leftarrow> bucket_of_size sz;
            let sz = FRAME_MALLOC_BUCKET_TO_SIZE bucket;
            let s = add_potential w bucket sz s;
            let s = worker_push w bucket p s;
            if bucket_potential s w bucket > potential_limit s then gc_bucket w bucket sz s else Some s })"

definition frame_malloc_per_worker_init :: "wptr \<Rightarrow> frame_cache \<Rightarrow> frame_cache" where
  "frame_malloc_per_worker_init w s =
     s\<lparr>free_list := (free_list s)(w := \<lambda>_. 0), bucket_potential := (bucket_potential s)(w := \<lambda>_. 0)\<rparr>"

fun cleanup_buckets :: "wptr \<Rightarrow> nat list \<Rightarrow> frame_cache \<Rightarrow> frame_cache option" where
  "cleanup_buckets w [] s = Some s"
| "cleanup_buckets w (i # is) s = do { s \<leftarrow> move_bucket_to_global_free_list w i s; cleanup_buckets w is s }"

definition frame_malloc_per_worker_cleanup :: "wptr \<Rightarrow> frame_cache \<Rightarrow> frame_cache option" where
  "frame_malloc_per_worker_cleanup w s = cleanup_buckets w [0..<FRAME_MALLOC_NBUCKETS] s"

declare count_free_list.simps [code] batch_loop.simps [code] gc_scan.simps [code] gc_free.simps [code] move_loop.simps [code] malloc_loop.simps [code]

subsection \<open>Sizes and buckets\<close>

lemma bucket_size_eq:
  "b < 6 \<Longrightarrow> FRAME_MALLOC_BUCKET_TO_SIZE b = 64 * 2 ^ b"
  by (auto simp: FRAME_MALLOC_BUCKET_TO_SIZE_def less_Suc_eq numeral_eq_Suc)

lemma bucket_size_bounds:
  assumes "b < 6" shows "64 \<le> FRAME_MALLOC_BUCKET_TO_SIZE b" "FRAME_MALLOC_BUCKET_TO_SIZE b \<le> 2048"
proof -
  have "(2::nat) ^ b \<le> 2 ^ 5" using assms by (intro power_increasing) auto
  then show "FRAME_MALLOC_BUCKET_TO_SIZE b \<le> 2048" using assms by (simp add: bucket_size_eq)
qed (use assms in \<open>simp add: bucket_size_eq\<close>)

lemma bucket_of_size_eq:
  "bucket_of_size sz = (if sz \<le> 64 then Some 0 else if sz \<le> 128 then Some 1 else if sz \<le> 256 then Some 2
     else if sz \<le> 512 then Some 3 else if sz \<le> 1024 then Some 4 else if sz \<le> 2048 then Some 5 else None)"
proof -
  note step = bucket_of_size_from.simps [unfolded FRAME_MALLOC_NBUCKETS_def]
  show ?thesis unfolding bucket_of_size_def
    by (simp add: step [of 0] step [of "Suc 0"] step [of "Suc (Suc 0)"] step [of "Suc (Suc (Suc 0))"] step [of "Suc (Suc (Suc (Suc 0)))"] step [of "Suc (Suc (Suc (Suc (Suc 0))))"] step [of "Suc (Suc (Suc (Suc (Suc (Suc 0)))))"]
          bucket_size_eq)
qed

lemma bucket_of_size_ok:
  assumes "sz \<le> 2048"
  obtains b where "bucket_of_size sz = Some b" "b < 6" "sz \<le> FRAME_MALLOC_BUCKET_TO_SIZE b"
    "\<And>j. j < b \<Longrightarrow> FRAME_MALLOC_BUCKET_TO_SIZE j < sz"
proof -
  have "\<exists>b. bucket_of_size sz = Some b \<and> b < 6 \<and> sz \<le> FRAME_MALLOC_BUCKET_TO_SIZE b \<and>
      (\<forall>j<b. FRAME_MALLOC_BUCKET_TO_SIZE j < sz)"
    using assms by (auto simp: bucket_of_size_eq bucket_size_eq less_Suc_eq numeral_eq_Suc)
  then show thesis using that by blast
qed

subsection \<open>Who holds a block\<close>

text \<open>
  A block is an address with its bucket. Every block carved so far is in a global list, in the
  cache of a worker, or outside of all lists (given to the program, or on its way between lists).
\<close>

datatype place = Global | Cache wptr | Live

type_synonym owners = "nat \<times> nat \<Rightarrow> place option"

definition relabel :: "nat list \<Rightarrow> nat \<Rightarrow> place \<Rightarrow> owners \<Rightarrow> owners" where
  "relabel xs b l own = (\<lambda>x. if snd x = b \<and> fst x \<in> set xs then Some l else own x)"

definition outside :: "owners \<Rightarrow> (nat \<times> nat) set" where
  "outside own = {x. \<exists>l. own x = Some l \<and> l \<noteq> Global}"

fun linked :: "(nat \<Rightarrow> nat) \<Rightarrow> nat \<Rightarrow> nat list \<Rightarrow> bool" where
  "linked c p [] \<longleftrightarrow> p = 0"
| "linked c p (x # xs) \<longleftrightarrow> p = x \<and> x \<noteq> 0 \<and> linked c (c x) xs"

lemma linked_upd [simp]: "a \<notin> set xs \<Longrightarrow> linked (c(a := v)) p xs = linked c p xs"
  by (induction xs arbitrary: p) auto

lemma linked_null [simp]: "linked c 0 xs \<longleftrightarrow> xs = []"
  by (cases xs) auto

lemma linked_nonnull: "linked c p xs \<Longrightarrow> p \<noteq> 0 \<Longrightarrow> \<exists>ys. xs = p # ys \<and> linked c (c p) ys"
  by (cases xs) auto

definition at_place :: "owners \<Rightarrow> (nat \<Rightarrow> nat) \<Rightarrow> place \<Rightarrow> nat \<Rightarrow> nat \<Rightarrow> bool" where
  "at_place own c l b h \<longleftrightarrow> (\<exists>xs. linked c h xs \<and> distinct xs \<and> set xs = {a. own (a, b) = Some l})"

abbreviation span :: "nat \<times> nat \<Rightarrow> nat set" where
  "span x \<equiv> {fst x ..< fst x + FRAME_MALLOC_BUCKET_TO_SIZE (snd x)}"

text \<open>What the C library promises of \<^verbatim>\<open>malloc\<close>: chunks are not null and do not overlap.\<close>

definition os_ok :: "(nat \<Rightarrow> nat) \<Rightarrow> bool" where
  "os_ok os \<longleftrightarrow> (\<forall>n. 0 < os n) \<and> (\<forall>m n. m \<noteq> n \<longrightarrow>
     {os m ..< os m + FRAME_MALLOC_CHUNK} \<inter> {os n ..< os n + FRAME_MALLOC_CHUNK} = {})"

definition blocks_ok :: "(nat \<Rightarrow> nat) \<Rightarrow> (nat \<times> nat) set \<Rightarrow> frame_cache \<Rightarrow> bool" where
  "blocks_ok os B s \<longleftrightarrow> finite B \<and>
     (\<forall>x\<in>B. snd x < 6 \<and> 0 < fst x \<and>
        (\<exists>n<length (pool_list s). span x \<subseteq> {os n ..< os n + FRAME_MALLOC_CHUNK}) \<and> span x \<inter> {pool_begin s ..< pool_end s} = {}) \<and>
     (\<forall>x\<in>B. \<forall>y\<in>B. x \<noteq> y \<longrightarrow> span x \<inter> span y = {})"

definition pool_ok :: "(nat \<Rightarrow> nat) \<Rightarrow> frame_cache \<Rightarrow> bool" where
  "pool_ok os s \<longleftrightarrow> allocated_from_os s = of_nat (length (pool_list s) * FRAME_MALLOC_CHUNK) \<and>
     (pool_begin s = pool_end s \<or>
      (\<exists>n<length (pool_list s). pool_end s = os n + FRAME_MALLOC_CHUNK \<and> os n \<le> pool_begin s \<and> pool_begin s \<le> pool_end s))"

definition lists_ok :: "(wptr \<times> nat) set \<Rightarrow> owners \<Rightarrow> frame_cache \<Rightarrow> bool" where
  "lists_ok C own s \<longleftrightarrow>
     (\<forall>b<6. at_place own (cdr s) Global b (global_free_list s b)) \<and>
     (\<forall>(w, b)\<in>C. at_place own (cdr s) (Cache w) b (free_list s w b)) \<and>
     (\<forall>a b w. own (a, b) = Some (Cache w) \<longrightarrow> (w, b) \<in> C)"

definition core :: "(nat \<Rightarrow> nat) \<Rightarrow> (wptr \<times> nat) set \<Rightarrow> owners \<Rightarrow> frame_cache \<Rightarrow> bool" where
  "core os C own s \<longleftrightarrow> blocks_ok os (dom own) s \<and> pool_ok os s \<and> lists_ok C own s \<and>
     allocated_from_global_pool s = of_nat (\<Sum>x\<in>outside own. FRAME_MALLOC_BUCKET_TO_SIZE (snd x))"

subsection \<open>Moving blocks between places\<close>

lemma blocks_okD:
  assumes "blocks_ok os B s" "x \<in> B"
  shows "snd x < 6" "0 < fst x" "\<exists>n<length (pool_list s). span x \<subseteq> {os n ..< os n + FRAME_MALLOC_CHUNK}"
    "span x \<inter> {pool_begin s ..< pool_end s} = {}"
  using assms unfolding blocks_ok_def by blast+

lemma blocks_okI:
  assumes "\<And>x. x \<in> B \<Longrightarrow> snd x < 6 \<and> 0 < fst x \<and>
       (\<exists>n<length (pool_list s). span x \<subseteq> {os n ..< os n + FRAME_MALLOC_CHUNK}) \<and> span x \<inter> {pool_begin s ..< pool_end s} = {}"
    and "\<And>x y. x \<in> B \<Longrightarrow> y \<in> B \<Longrightarrow> x \<noteq> y \<Longrightarrow> span x \<inter> span y = {}" and "finite B"
  shows "blocks_ok os B s"
  unfolding blocks_ok_def using assms by blast

lemma blocks_ok_disjoint: "blocks_ok os B s \<Longrightarrow> x \<in> B \<Longrightarrow> y \<in> B \<Longrightarrow> x \<noteq> y \<Longrightarrow> span x \<inter> span y = {}"
  unfolding blocks_ok_def by blast

lemma span_start: "snd x < 6 \<Longrightarrow> fst x \<in> span x"
  using bucket_size_bounds(1) [of "snd x"] by simp

lemma blocks_ok_same_address:
  assumes "blocks_ok os B s" "(a, b) \<in> B" "(a, b') \<in> B" shows "b = b'"
proof (rule ccontr)
  assume "b \<noteq> b'"
  then have "span (a, b) \<inter> span (a, b') = {}" using blocks_ok_disjoint [OF assms] by blast
  moreover have "a \<in> span (a, b)" "a \<in> span (a, b')"
    using span_start [of "(a, b)"] span_start [of "(a, b')"] blocks_okD(1) [OF assms(1)] assms(2,3) by force+
  ultimately show False by blast
qed

lemma at_place_upd:
  assumes "at_place own c l b' h" "blocks_ok os (dom own) s" "own (a, b) = Some l'" "l' \<noteq> l"
  shows "at_place own (c(a := v)) l b' h"
proof -
  from assms(1) obtain xs where xs: "linked c h xs" "distinct xs" "set xs = {a. own (a, b') = Some l}" by (auto simp: at_place_def)
  have "own (a, b') \<noteq> Some l"
  proof
    assume "own (a, b') = Some l"
    then have "b = b'" using blocks_ok_same_address [OF assms(2), of a b b'] assms(3) by blast
    then show False using \<open>own (a, b') = Some l\<close> assms(3,4) by simp
  qed
  then have "a \<notin> set xs" using xs(3) by simp
  then show ?thesis unfolding at_place_def using xs by (intro exI [of _ xs]) simp
qed

lemma coreD:
  assumes "core os C own s"
  shows "blocks_ok os (dom own) s" "pool_ok os s"
    "b < 6 \<Longrightarrow> at_place own (cdr s) Global b (global_free_list s b)"
    "(w, b) \<in> C \<Longrightarrow> at_place own (cdr s) (Cache w) b (free_list s w b)"
    "own (a, b) = Some (Cache w) \<Longrightarrow> (w, b) \<in> C"
    "allocated_from_global_pool s = of_nat (\<Sum>x\<in>outside own. FRAME_MALLOC_BUCKET_TO_SIZE (snd x))"
  using assms unfolding core_def lists_ok_def by blast+

lemma coreI:
  assumes "blocks_ok os (dom own) s" "pool_ok os s"
    "\<And>b. b < 6 \<Longrightarrow> at_place own (cdr s) Global b (global_free_list s b)"
    "\<And>w b. (w, b) \<in> C \<Longrightarrow> at_place own (cdr s) (Cache w) b (free_list s w b)"
    "\<And>a b w. own (a, b) = Some (Cache w) \<Longrightarrow> (w, b) \<in> C"
    "allocated_from_global_pool s = of_nat (\<Sum>x\<in>outside own. FRAME_MALLOC_BUCKET_TO_SIZE (snd x))"
  shows "core os C own s"
  using assms unfolding core_def lists_ok_def by blast

lemma at_place_other:
  assumes "at_place own c l b h" "\<And>a. own' (a, b) = Some l \<longleftrightarrow> own (a, b) = Some l"
  shows "at_place own' c l b h"
  using assms by (auto simp: at_place_def)

lemma dom_relabel [simp]:
  assumes "\<And>a. a \<in> set xs \<Longrightarrow> own (a, b) \<noteq> None" shows "dom (relabel xs b l own) = dom own"
  using assms by (fastforce simp: relabel_def dom_def split: if_splits)

lemma outside_upd:
  "outside (own(x \<mapsto> l)) = (if l = Global then outside own - {x} else insert x (outside own))"
  by (auto simp: outside_def)

lemma finite_outside: "blocks_ok os (dom own) s \<Longrightarrow> finite (outside own)"
  by (rule finite_subset [of _ "dom own"]) (auto simp: blocks_ok_def outside_def)

text \<open>A block that is in no list may be written to.\<close>

lemma core_write:
  assumes "core os C own s" "own (a, b) = Some Live"
  shows "core os C own (s\<lparr>cdr := (cdr s)(a := v)\<rparr>)"
proof (rule coreI)
  note up = at_place_upd [OF _ coreD(1) [OF assms(1)] assms(2), of _ _ _ _ v]
  show "at_place own (cdr (s\<lparr>cdr := (cdr s)(a := v)\<rparr>)) Global b (global_free_list (s\<lparr>cdr := (cdr s)(a := v)\<rparr>) b)" if "b < 6" for b
    using up [OF coreD(3) [OF assms(1) that]] by simp
  show "at_place own (cdr (s\<lparr>cdr := (cdr s)(a := v)\<rparr>)) (Cache w) b (free_list (s\<lparr>cdr := (cdr s)(a := v)\<rparr>) w b)" if "(w, b) \<in> C" for w b
    using up [OF coreD(4) [OF assms(1) that]] by simp
qed (use coreD [OF assms(1)] in \<open>simp_all add: blocks_ok_def pool_ok_def\<close>)

text \<open>Taking the whole list of a worker out of the account of lists, and putting a list in.\<close>

lemma core_detach:
  assumes "core os C own s" "(w, b) \<in> C"
  obtains xs where "linked (cdr s) (free_list s w b) xs" "distinct xs" "\<And>a. a \<in> set xs \<longleftrightarrow> own (a, b) = Some (Cache w)"
    "core os (C - {(w, b)}) (relabel xs b Live own) s"
proof -
  obtain xs where xs: "linked (cdr s) (free_list s w b) xs" "distinct xs" "set xs = {a. own (a, b) = Some (Cache w)}"
    using coreD(4) [OF assms] unfolding at_place_def by blast
  let ?o = "relabel xs b Live own"
  have o: "?o (a, b') = Some l \<longleftrightarrow> own (a, b') = Some l" if "l \<noteq> Live" "l \<noteq> Cache w \<or> b' \<noteq> b" for l a b'
    using that xs(3) by (auto simp: relabel_def)
  have "core os (C - {(w, b)}) ?o s"
  proof (rule coreI)
    show "at_place ?o (cdr s) Global b' (global_free_list s b')" if "b' < 6" for b'
      by (rule at_place_other [OF coreD(3) [OF assms(1) that]]) (simp add: o)
    show "at_place ?o (cdr s) (Cache w') b' (free_list s w' b')" if "(w', b') \<in> C - {(w, b)}" for w' b'
      by (rule at_place_other [OF coreD(4) [OF assms(1)]]) (use that in \<open>auto simp: o\<close>)
    show "(w', b') \<in> C - {(w, b)}" if "?o (a, b') = Some (Cache w')" for a b' w'
      using that xs(3) coreD(5) [OF assms(1), of a b' w'] by (auto simp: relabel_def split: if_splits)
    have "outside ?o = outside own" using xs(3) by (auto simp: outside_def relabel_def)
    then show "allocated_from_global_pool s = of_nat (\<Sum>x\<in>outside ?o. FRAME_MALLOC_BUCKET_TO_SIZE (snd x))"
      using coreD(6) [OF assms(1)] by simp
    have "dom ?o = dom own" by (rule dom_relabel) (use xs(3) in simp)
    then show "blocks_ok os (dom ?o) s" using coreD(1) [OF assms(1)] by simp
  qed (rule coreD(2) [OF assms(1)])
  then show thesis using that xs by blast
qed

lemma core_attach:
  assumes "core os C own s" "(w, b) \<notin> C" "linked (cdr s) (free_list s w b) xs" "distinct xs" "\<And>a. a \<in> set xs \<Longrightarrow> own (a, b) = Some Live"
  shows "core os (insert (w, b) C) (relabel xs b (Cache w) own) s"
proof (rule coreI)
  let ?o = "relabel xs b (Cache w) own"
  have o: "?o (a, b') = Some l \<longleftrightarrow> own (a, b') = Some l" if "l \<noteq> Live" "l \<noteq> Cache w \<or> b' \<noteq> b" for l a b'
    using that assms(5) by (auto simp: relabel_def)
  have n: "own (a, b) \<noteq> Some (Cache w)" for a using coreD(5) [OF assms(1)] assms(2) by blast
  show "at_place ?o (cdr s) (Cache w') b' (free_list s w' b')" if "(w', b') \<in> insert (w, b) C" for w' b'
  proof (cases "(w', b') = (w, b)")
    case True
    then show ?thesis using assms(3,4) n by (auto simp: at_place_def relabel_def)
  next
    case False
    then show ?thesis using that by (intro at_place_other [OF coreD(4) [OF assms(1)]]) (auto simp: o)
  qed
  show "at_place ?o (cdr s) Global b' (global_free_list s b')" if "b' < 6" for b'
    by (rule at_place_other [OF coreD(3) [OF assms(1) that]]) (simp add: o)
  show "(w', b') \<in> insert (w, b) C" if "?o (a, b') = Some (Cache w')" for a b' w'
    using that coreD(5) [OF assms(1), of a b' w'] by (auto simp: relabel_def split: if_splits)
  have "outside ?o = outside own" using assms(5) by (auto simp: outside_def relabel_def)
  then show "allocated_from_global_pool s = of_nat (\<Sum>x\<in>outside ?o. FRAME_MALLOC_BUCKET_TO_SIZE (snd x))"
    using coreD(6) [OF assms(1)] by simp
qed (use coreD(1,2) [OF assms(1)] assms(5) in simp_all)

lemma at_place_cons:
  assumes "at_place own c l b h" "blocks_ok os (dom own) s" "own (p, b) = Some Live" "l \<noteq> Live"
  shows "at_place (own((p, b) \<mapsto> l)) (c(p := h)) l b p"
proof -
  obtain xs where xs: "linked c h xs" "distinct xs" "set xs = {a. own (a, b) = Some l}" using assms(1) unfolding at_place_def by blast
  have "0 < p" using blocks_okD(2) [OF assms(2), of "(p, b)"] assms(3) by auto
  moreover have "p \<notin> set xs" using xs(3) assms(3,4) by simp
  ultimately show ?thesis unfolding at_place_def by (intro exI [of _ "p # xs"]) (use xs in auto)
qed

lemma at_place_uncons:
  assumes "at_place own c l b h" "h \<noteq> 0"
  shows "own (h, b) = Some l" "l' \<noteq> l \<Longrightarrow> at_place (own((h, b) \<mapsto> l')) c l b (c h)"
proof -
  obtain xs where xs: "linked c h xs" "distinct xs" "set xs = {a. own (a, b) = Some l}" using assms(1) unfolding at_place_def by blast
  then obtain ys where ys: "xs = h # ys" "linked c (c h) ys" using linked_nonnull assms(2) by blast
  then show "own (h, b) = Some l" using xs(3) by auto
  show "at_place (own((h, b) \<mapsto> l')) c l b (c h)" if "l' \<noteq> l"
    unfolding at_place_def by (intro exI [of _ ys]) (use xs ys that in auto)
qed

lemma at_place_empty: "at_place own c l b 0 \<Longrightarrow> own (a, b) \<noteq> Some l"
  unfolding at_place_def by auto

lemma worker_push_core:
  assumes "core os C own s" "own (p, b) = Some Live" "(w, b) \<in> C"
  shows "core os C (own((p, b) \<mapsto> Cache w)) (worker_push w b p s)"
proof (rule coreI)
  let ?o = "own((p, b) \<mapsto> Cache w)" and ?s = "worker_push w b p s"
  note B = coreD(1) [OF assms(1)]
  have s: "cdr ?s = (cdr s)(p := free_list s w b)" "free_list ?s = (free_list s)(w := (free_list s w)(b := p))"
    "global_free_list ?s = global_free_list s" by (simp_all add: worker_push_def push_def Let_def)
  show "at_place ?o (cdr ?s) Global b' (global_free_list ?s b')" if "b' < 6" for b' unfolding s
    by (rule at_place_other [OF at_place_upd [OF coreD(3) [OF assms(1) that] B assms(2)]]) (use assms(2) in auto)
  show "at_place ?o (cdr ?s) (Cache w') b' (free_list ?s w' b')" if "(w', b') \<in> C" for w' b'
  proof (cases "(w', b') = (w, b)")
    case True
    then show ?thesis using at_place_cons [OF coreD(4) [OF assms(1,3)] B assms(2)] by (simp add: s)
  next
    case False
    then have "at_place ?o (cdr ?s) (Cache w') b' (free_list s w' b')" unfolding s
      by (intro at_place_other [OF at_place_upd [OF coreD(4) [OF assms(1) that] B assms(2)]]) (use assms(2) in auto)
    then show ?thesis using False by (auto simp: s)
  qed
  show "(w', b') \<in> C" if "?o (a, b') = Some (Cache w')" for a b' w'
    using that coreD(5) [OF assms(1), of a b' w'] assms(3) by (auto split: if_splits)
  have "outside ?o = outside own" using assms(2) by (auto simp: outside_def)
  then show "allocated_from_global_pool ?s = of_nat (\<Sum>x\<in>outside ?o. FRAME_MALLOC_BUCKET_TO_SIZE (snd x))"
    using coreD(6) [OF assms(1)] by (simp add: worker_push_def push_def Let_def)
  have "dom ?o = dom own" using assms(2) by auto
  then show "blocks_ok os (dom ?o) ?s" using B by (simp add: blocks_ok_def worker_push_def push_def Let_def)
qed (use coreD(2) [OF assms(1)] in \<open>simp add: pool_ok_def worker_push_def push_def Let_def\<close>)

lemma worker_pop_core:
  assumes "core os C own s" "(w, b) \<in> C" "free_list s w b \<noteq> 0"
  obtains p s' where "worker_pop w b s = (p, s')" "p \<noteq> 0" "own (p, b) = Some (Cache w)" "core os C (own((p, b) \<mapsto> Live)) s'"
    "fm_lock s' = fm_lock s" "batch_size s' = batch_size s"
proof -
  let ?p = "free_list s w b" and ?s = "s\<lparr>free_list := (free_list s)(w := (free_list s w)(b := cdr s (free_list s w b)))\<rparr>"
  let ?o = "own((?p, b) \<mapsto> Live)"
  have o: "own (?p, b) = Some (Cache w)" using at_place_uncons(1) [OF coreD(4) [OF assms(1,2)] assms(3)] .
  have "core os C ?o ?s"
  proof (rule coreI)
    show "at_place ?o (cdr ?s) Global b' (global_free_list ?s b')" if "b' < 6" for b'
      using at_place_other [OF coreD(3) [OF assms(1) that], of ?o] o by auto
    show "at_place ?o (cdr ?s) (Cache w') b' (free_list ?s w' b')" if "(w', b') \<in> C" for w' b'
    proof (cases "(w', b') = (w, b)")
      case True
      then show ?thesis using at_place_uncons(2) [OF coreD(4) [OF assms(1,2)] assms(3), of Live] by simp
    next
      case False
      then have "at_place ?o (cdr s) (Cache w') b' (free_list s w' b')"
        by (intro at_place_other [OF coreD(4) [OF assms(1) that]]) (use o in auto)
      then show ?thesis using False by auto
    qed
    show "(w', b') \<in> C" if "?o (a, b') = Some (Cache w')" for a b' w'
      using that coreD(5) [OF assms(1), of a b' w'] by (auto split: if_splits)
    have "outside ?o = outside own" using o by (auto simp: outside_def)
    then show "allocated_from_global_pool ?s = of_nat (\<Sum>x\<in>outside ?o. FRAME_MALLOC_BUCKET_TO_SIZE (snd x))"
      using coreD(6) [OF assms(1)] by simp
    have "dom ?o = dom own" using o by auto
    then show "blocks_ok os (dom ?o) ?s" using coreD(1) [OF assms(1)] by (simp add: blocks_ok_def)
  qed (use coreD(2) [OF assms(1)] in \<open>simp add: pool_ok_def\<close>)
  moreover have "worker_pop w b s = (?p, ?s)" using assms(3) by (simp add: worker_pop_def pop_def Let_def)
  ultimately show thesis using that assms(3) o by simp
qed

lemma global_free_core:
  assumes "core os C own s" "own (p, b) = Some Live"
  obtains s' where "global_free p b s = Some s'" "core os C (own((p, b) \<mapsto> Global)) s'" "free_list s' = free_list s"
    "fm_lock s' = fm_lock s" "batch_size s' = batch_size s" "potential_limit s' = potential_limit s" "bucket_potential s' = bucket_potential s"
    "cdr s' = (cdr s)(p := global_free_list s b)"
proof -
  let ?o = "own((p, b) \<mapsto> Global)" and ?s = "s\<lparr>allocated_from_global_pool := allocated_from_global_pool s - of_nat (FRAME_MALLOC_BUCKET_TO_SIZE b),
      global_free_list := (global_free_list s)(b := p), cdr := (cdr s)(p := global_free_list s b)\<rparr>"
  note B = coreD(1) [OF assms(1)]
  have b: "b < 6" using blocks_okD(1) [OF B, of "(p, b)"] assms(2) by auto
  have "core os C ?o ?s"
  proof (rule coreI)
    show "at_place ?o (cdr ?s) Global b' (global_free_list ?s b')" if "b' < 6" for b'
    proof (cases "b' = b")
      case True
      then show ?thesis using at_place_cons [OF coreD(3) [OF assms(1) b] B assms(2)] by simp
    next
      case False
      then have "at_place ?o (cdr ?s) Global b' (global_free_list s b')"
        using at_place_other [OF at_place_upd [OF coreD(3) [OF assms(1) that] B assms(2)], of ?o] by simp
      then show ?thesis using False by simp
    qed
    show "at_place ?o (cdr ?s) (Cache w') b' (free_list ?s w' b')" if "(w', b') \<in> C" for w' b'
      using at_place_other [OF at_place_upd [OF coreD(4) [OF assms(1) that] B assms(2)], of ?o] assms(2) by auto
    show "(w', b') \<in> C" if "?o (a, b') = Some (Cache w')" for a b' w'
      using that coreD(5) [OF assms(1), of a b' w'] by (auto split: if_splits)
    have "(p, b) \<in> outside own" using assms(2) by (auto simp: outside_def)
    then show "allocated_from_global_pool ?s = of_nat (\<Sum>x\<in>outside ?o. FRAME_MALLOC_BUCKET_TO_SIZE (snd x))"
      using coreD(6) [OF assms(1)] sum.remove [OF finite_outside [OF B], of "(p, b)" "\<lambda>x. FRAME_MALLOC_BUCKET_TO_SIZE (snd x)"]
      by (simp add: outside_upd)
    have "dom ?o = dom own" using assms(2) by auto
    then show "blocks_ok os (dom ?o) ?s" using B by (simp add: blocks_ok_def)
  qed (use coreD(2) [OF assms(1)] in \<open>simp add: pool_ok_def\<close>)
  moreover have "global_free p b s = Some ?s" using b by (simp add: global_free_def push_def Let_def FRAME_MALLOC_NBUCKETS_def)
  ultimately show thesis using that by simp
qed

lemma extend_core:
  assumes "core os C own s" "os_ok os"
  shows "core os C own (extend_global_pool os s)"
proof -
  let ?s = "extend_global_pool os s"
  have "blocks_ok os (dom own) ?s" unfolding blocks_ok_def
  proof (intro conjI ballI impI)
    fix x assume x: "x \<in> dom own"
    obtain n where n: "n < length (pool_list s)" "span x \<subseteq> {os n ..< os n + FRAME_MALLOC_CHUNK}"
      using blocks_okD(3) [OF coreD(1) [OF assms(1)] x] by blast
    then show "\<exists>n<length (pool_list ?s). span x \<subseteq> {os n ..< os n + FRAME_MALLOC_CHUNK}"
      by (intro exI [of _ n]) (simp add: extend_global_pool_def Let_def)
    have "{os n ..< os n + FRAME_MALLOC_CHUNK} \<inter> {os (length (pool_list s)) ..< os (length (pool_list s)) + FRAME_MALLOC_CHUNK} = {}"
      using assms(2) n(1) unfolding os_ok_def by (metis nat_neq_iff)
    then show "span x \<inter> {pool_begin ?s ..< pool_end ?s} = {}" using n(2) by (auto simp: extend_global_pool_def Let_def)
  qed (use coreD(1) [OF assms(1)] in \<open>auto simp: blocks_ok_def\<close>)
  moreover have "pool_ok os ?s" using coreD(2) [OF assms(1)] by (auto simp: pool_ok_def extend_global_pool_def Let_def algebra_simps)
  ultimately show ?thesis using assms(1) by (simp add: core_def lists_ok_def extend_global_pool_def Let_def)
qed

lemma carve_core:
  assumes "core os C own s" "os_ok os" "b < 6" "pool_begin s + FRAME_MALLOC_BUCKET_TO_SIZE b \<le> pool_end s"
  defines "s' \<equiv> s\<lparr>allocated_from_global_pool := allocated_from_global_pool s + of_nat (FRAME_MALLOC_BUCKET_TO_SIZE b),
     pool_begin := pool_begin s + FRAME_MALLOC_BUCKET_TO_SIZE b\<rparr>"
  shows "core os C (own((pool_begin s, b) \<mapsto> Live)) s'" "own (pool_begin s, b) = None"
proof -
  let ?x = "(pool_begin s, b)"
  let ?o = "own(?x \<mapsto> Live)"
  note B = coreD(1) [OF assms(1)]
  have sz: "0 < FRAME_MALLOC_BUCKET_TO_SIZE b" using bucket_size_bounds(1) [OF assms(3)] by simp
  have px: "span ?x \<subseteq> {pool_begin s ..< pool_end s}" using assms(4) by auto
  obtain n where n: "n < length (pool_list s)" "pool_end s = os n + FRAME_MALLOC_CHUNK" "os n \<le> pool_begin s"
    using coreD(2) [OF assms(1)] assms(4) sz by (auto simp: pool_ok_def)
  have pos: "0 < os n" using assms(2) by (simp add: os_ok_def)
  show new: "own ?x = None"
  proof (rule ccontr)
    assume "own ?x \<noteq> None"
    then have "?x \<in> dom own" by auto
    from blocks_okD(4) [OF B this] px span_start [of ?x] assms(3) show False by (metis IntI empty_iff snd_conv subsetD)
  qed
  show "core os C ?o s'"
  proof (rule coreI)
    have "snd x < 6 \<and> 0 < fst x \<and> (\<exists>n<length (pool_list s'). span x \<subseteq> {os n ..< os n + FRAME_MALLOC_CHUNK}) \<and>
        span x \<inter> {pool_begin s' ..< pool_end s'} = {}" if "x \<in> dom ?o" for x
    proof (cases "x = ?x")
      case True
      have "span ?x \<subseteq> {os n ..< os n + FRAME_MALLOC_CHUNK}" using px n by auto
      then have "\<exists>n<length (pool_list s). span ?x \<subseteq> {os n ..< os n + FRAME_MALLOC_CHUNK}" using n(1) by blast
      then show ?thesis unfolding True using assms(3) n(3) pos by (simp add: s'_def)
    next
      case False
      then have "x \<in> dom own" using that by (auto split: if_splits)
      note D = blocks_okD [OF B this]
      have "{pool_begin s' ..< pool_end s'} \<subseteq> {pool_begin s ..< pool_end s}" and l: "pool_list s' = pool_list s" by (simp_all add: s'_def)
      then have "span x \<inter> {pool_begin s' ..< pool_end s'} = {}" using D(4) by blast
      then show ?thesis unfolding l by (intro conjI D(1-3))
    qed
    moreover have "span x \<inter> span y = {}" if xy: "x \<in> dom ?o" "y \<in> dom ?o" "x \<noteq> y" for x y
    proof -
      have d: "span z \<inter> span ?x = {}" if "z \<in> dom own" for z
        using Int_mono [OF order_refl [of "span z"] px] blocks_okD(4) [OF B that] by (simp only: subset_empty)
      consider "x = ?x" "y \<in> dom own" | "y = ?x" "x \<in> dom own" | "x \<in> dom own" "y \<in> dom own"
        using xy by (auto split: if_splits)
      then show ?thesis
      proof cases
        case 1
        then show ?thesis using d [of y] by (simp only: Int_commute)
      next
        case 2
        then show ?thesis using d [of x] by (simp only:)
      next
        case 3
        then show ?thesis using blocks_ok_disjoint [OF B _ _ xy(3)] by (simp only:)
      qed
    qed
    moreover have "finite (dom ?o)" using B by (simp add: blocks_ok_def)
    ultimately show "blocks_ok os (dom ?o) s'" by (intro blocks_okI)
    show "pool_ok os s'" using coreD(2) [OF assms(1)] n assms(4) by (auto simp: pool_ok_def s'_def)
    show "at_place ?o (cdr s') Global b' (global_free_list s' b')" if "b' < 6" for b'
      using at_place_other [OF coreD(3) [OF assms(1) that], of ?o] new by (auto simp: s'_def)
    show "at_place ?o (cdr s') (Cache w') b' (free_list s' w' b')" if "(w', b') \<in> C" for w' b'
      using at_place_other [OF coreD(4) [OF assms(1) that], of ?o] new by (auto simp: s'_def)
    show "(w', b') \<in> C" if "?o (a, b') = Some (Cache w')" for a b' w'
      using that coreD(5) [OF assms(1), of a b' w'] by (auto split: if_splits)
    have "?x \<notin> outside own" using new by (simp add: outside_def)
    then show "allocated_from_global_pool s' = of_nat (\<Sum>x\<in>outside ?o. FRAME_MALLOC_BUCKET_TO_SIZE (snd x))"
      using coreD(6) [OF assms(1)] finite_outside [OF B] by (simp add: outside_upd s'_def)
  qed
qed

lemma global_pop_core:
  assumes "core os C own s" "b < 6" "global_free_list s b \<noteq> 0"
  defines "p \<equiv> global_free_list s b"
  shows "own (p, b) = Some Global"
    "core os C (own((p, b) \<mapsto> Live)) (s\<lparr>allocated_from_global_pool := allocated_from_global_pool s + of_nat (FRAME_MALLOC_BUCKET_TO_SIZE b),
       global_free_list := (global_free_list s)(b := cdr s p)\<rparr>)" (is "core os C ?o ?s")
proof -
  note A = coreD(3) [OF assms(1,2), folded p_def]
  show o: "own (p, b) = Some Global" using at_place_uncons(1) [OF A] assms(3) by (simp add: p_def)
  show "core os C ?o ?s"
  proof (rule coreI)
    show "at_place ?o (cdr ?s) Global b' (global_free_list ?s b')" if "b' < 6" for b'
    proof (cases "b' = b")
      case True
      then show ?thesis using at_place_uncons(2) [OF A, of Live] assms(3) by (simp add: p_def)
    next
      case False
      then show ?thesis using at_place_other [OF coreD(3) [OF assms(1) that], of ?o] by simp
    qed
    show "at_place ?o (cdr ?s) (Cache w') b' (free_list ?s w' b')" if "(w', b') \<in> C" for w' b'
      using at_place_other [OF coreD(4) [OF assms(1) that], of ?o] o by auto
    show "(w', b') \<in> C" if "?o (a, b') = Some (Cache w')" for a b' w'
      using that coreD(5) [OF assms(1), of a b' w'] by (auto split: if_splits)
    have "(p, b) \<notin> outside own" using o by (simp add: outside_def)
    then show "allocated_from_global_pool ?s = of_nat (\<Sum>x\<in>outside ?o. FRAME_MALLOC_BUCKET_TO_SIZE (snd x))"
      using coreD(6) [OF assms(1)] finite_outside [OF coreD(1) [OF assms(1)]] by (simp add: outside_upd)
    have "dom ?o = dom own" using o by auto
    then show "blocks_ok os (dom ?o) ?s" using coreD(1) [OF assms(1)] by (simp add: blocks_ok_def)
  qed (use coreD(2) [OF assms(1)] in \<open>simp add: pool_ok_def\<close>)
qed

definition same_caches :: "frame_cache \<Rightarrow> frame_cache \<Rightarrow> bool" where
  "same_caches s s' \<longleftrightarrow> free_list s' = free_list s \<and> bucket_potential s' = bucket_potential s \<and> fm_lock s' = fm_lock s \<and>
     batch_size s' = batch_size s \<and> potential_limit s' = potential_limit s"

lemma global_alloc_core:
  assumes "core os C own s" "os_ok os" "b < 6"
  obtains p s' where "global_alloc os b s = Some (p, s')" "own (p, b) = None \<or> own (p, b) = Some Global"
    "core os C (own((p, b) \<mapsto> Live)) s'" "same_caches s s'"
proof (cases "global_free_list s b = 0")
  case False
  then show thesis using global_pop_core [OF assms(1,3) False] assms(3)
    by (intro that [of "global_free_list s b" "s\<lparr>allocated_from_global_pool := allocated_from_global_pool s + of_nat (FRAME_MALLOC_BUCKET_TO_SIZE b),
       global_free_list := (global_free_list s)(b := cdr s (global_free_list s b))\<rparr>"])
      (simp_all add: global_alloc_def pop_def Let_def FRAME_MALLOC_NBUCKETS_def same_caches_def)
next
  case True
  let ?sz = "FRAME_MALLOC_BUCKET_TO_SIZE b"
  let ?t = "if pool_begin s + ?sz > pool_end s
    then extend_global_pool os (s\<lparr>wasted := wasted s + of_nat (pool_end s - pool_begin s)\<rparr>) else s"
  have "core os C own (s\<lparr>wasted := wasted s + of_nat (pool_end s - pool_begin s)\<rparr>)"
    using assms(1) by (simp add: core_def blocks_ok_def pool_ok_def lists_ok_def)
  from extend_core [OF this assms(2)] have c: "core os C own ?t" using assms(1) by simp
  have "?sz \<le> FRAME_MALLOC_CHUNK" using bucket_size_bounds(2) [OF assms(3)] by (simp add: FRAME_MALLOC_CHUNK_def)
  then have fits: "pool_begin ?t + ?sz \<le> pool_end ?t" by (simp add: extend_global_pool_def Let_def)
  have le: "pool_begin s \<le> pool_end s" using coreD(2) [OF assms(1)] by (auto simp: pool_ok_def)
  have triv: "(global_free_list s)(b := 0) = global_free_list s" using True by auto
  show thesis
  proof (rule that)
    show "global_alloc os b s = Some (pool_begin ?t, ?t\<lparr>allocated_from_global_pool := allocated_from_global_pool ?t + of_nat ?sz,
        pool_begin := pool_begin ?t + ?sz\<rparr>)"
      using True le assms(3) by (simp add: global_alloc_def pop_def Let_def FRAME_MALLOC_NBUCKETS_def extend_global_pool_def triv)
  qed (use carve_core [OF c assms(2,3) fits] in \<open>simp_all add: same_caches_def extend_global_pool_def Let_def\<close>)
qed

lemma core_ghost:
  "core os C own (s\<lparr>fm_lock := m\<rparr>) = core os C own s" "core os C own (s\<lparr>bucket_potential := v\<rparr>) = core os C own s"
  "core os C own (add_potential w b n s) = core os C own s"
  by (simp_all add: core_def blocks_ok_def pool_ok_def lists_ok_def add_potential_def)

text \<open>The blocks the program holds.\<close>

definition live :: "owners \<Rightarrow> (nat \<times> nat) set" where
  "live own = {x. own x = Some Live}"

lemma batch_loop_core:
  assumes "core os C own s" "os_ok os" "b < 6" "(w, b) \<in> C" "sz = FRAME_MALLOC_BUCKET_TO_SIZE b"
  shows "\<exists>s' own'. batch_loop os w b sz n s = Some s' \<and> core os C own' s' \<and> live own' = live own \<and> free_list s' w b \<noteq> 0 \<and>
     fm_lock s' = fm_lock s \<and> batch_size s' = batch_size s \<and> potential_limit s' = potential_limit s"
  using assms(1)
proof (induction "batch_size s - n" arbitrary: n s own rule: less_induct)
  case less
  let ?s = "add_potential w b sz s"
  obtain p s1 where 1: "global_alloc os b ?s = Some (p, s1)" "own (p, b) = None \<or> own (p, b) = Some Global"
    "core os C (own((p, b) \<mapsto> Live)) s1" "same_caches ?s s1"
    using global_alloc_core [of os C own ?s b] less.prems assms(2,3) by (auto simp: core_ghost)
  let ?o = "own((p, b) \<mapsto> Cache w)" and ?s2 = "worker_push w b p s1"
  have 2: "core os C ?o ?s2" using worker_push_core [OF 1(3) _ assms(4), of p] by simp
  have l: "live ?o = live own" using 1(2) by (auto simp: live_def)
  have p: "p \<noteq> 0" using blocks_okD(2) [OF coreD(1) [OF 2], of "(p, b)"] by auto
  have f: "free_list ?s2 w b \<noteq> 0" "fm_lock ?s2 = fm_lock s" "batch_size ?s2 = batch_size s" "potential_limit ?s2 = potential_limit s"
    using 1(4) p by (simp_all add: worker_push_def push_def Let_def same_caches_def add_potential_def)
  have step: "batch_loop os w b sz n s = (if n + sz < batch_size s then batch_loop os w b sz (n + sz) ?s2 else Some ?s2)"
    by (subst batch_loop.simps) (simp add: 1(1) f Let_def)
  show ?case
  proof (cases "n + sz < batch_size s")
    case True
    have "batch_size ?s2 - (n + sz) < batch_size s - n" using True bucket_size_bounds(1) [OF assms(3)] f(3) assms(5) by simp
    from less.hyps [OF this 2] show ?thesis using True step l f by metis
  next
    case False
    then show ?thesis using step 2 l f by auto
  qed
qed

lemma fm_lock_run:
  assumes "mutex_free (fm_lock s)"
  obtains s1 where "fm_mutex_lock w s = Some s1" "s1 = s\<lparr>fm_lock := fm_lock s1\<rparr>"
    "\<And>s2. fm_lock s2 = fm_lock s1 \<Longrightarrow> fm_mutex_unlock w s2 = Some (s2\<lparr>fm_lock := mutex_init\<rparr>)"
  using assms by (auto simp: fm_mutex_lock_def fm_mutex_unlock_def mutex_lock_def mutex_unlock_def TRY_ACQUIRE_def RELEASE_def mutex_init_def)

lemma mutex_free_mutex_init: "mutex_free mutex_init"
  by (simp add: mutex_init_def)

lemma allocate_batch_core:
  assumes "core os C own s" "os_ok os" "b < 6" "(w, b) \<in> C" "sz = FRAME_MALLOC_BUCKET_TO_SIZE b" "mutex_free (fm_lock s)"
  obtains s' own' where "allocate_batch os w b sz s = Some s'" "core os C own' s'" "live own' = live own" "free_list s' w b \<noteq> 0"
    "mutex_free (fm_lock s')"
proof -
  obtain s1 where 1: "fm_mutex_lock w s = Some s1" "s1 = s\<lparr>fm_lock := fm_lock s1\<rparr>"
    "\<And>s2. fm_lock s2 = fm_lock s1 \<Longrightarrow> fm_mutex_unlock w s2 = Some (s2\<lparr>fm_lock := mutex_init\<rparr>)"
    using fm_lock_run [OF assms(6), of w] by blast
  have "core os C own s1" using assms(1) 1(2) by (metis core_ghost(1))
  from batch_loop_core [OF this assms(2-5), of 0] obtain s2 own' where 2: "batch_loop os w b sz 0 s1 = Some s2" "core os C own' s2"
    "live own' = live own" "free_list s2 w b \<noteq> 0" "fm_lock s2 = fm_lock s1" by blast
  then show thesis
    by (intro that [of "s2\<lparr>fm_lock := mutex_init\<rparr>" own'])
      (use 1(3) [OF 2(5)] in \<open>simp_all add: allocate_batch_def 1(1) core_ghost mutex_init_def\<close>)
qed

lemma malloc_loop_core:
  assumes "core os C own s" "os_ok os" "b < 6" "(w, b) \<in> C" "sz = FRAME_MALLOC_BUCKET_TO_SIZE b" "mutex_free (fm_lock s)"
  obtains p s' own' where "malloc_loop os w b sz s = Some (p, s')" "core os C own' s'" "live own' = insert (p, b) (live own)"
    "(p, b) \<notin> live own" "mutex_free (fm_lock s')"
proof -
  have ne: "\<exists>p s' own'. malloc_loop os w b sz s = Some (p, s') \<and> core os C own' s' \<and> live own' = insert (p, b) (live own) \<and>
      (p, b) \<notin> live own \<and> mutex_free (fm_lock s')" if c: "core os C own s" "free_list s w b \<noteq> 0" "mutex_free (fm_lock s)" for s own
  proof -
    obtain p s' where "worker_pop w b s = (p, s')" "p \<noteq> 0" "own (p, b) = Some (Cache w)" "core os C (own((p, b) \<mapsto> Live)) s'" "fm_lock s' = fm_lock s"
      using worker_pop_core [OF c(1) assms(4) c(2)] by metis
    moreover from this have "malloc_loop os w b sz s = Some (p, s')" by (subst malloc_loop.simps) simp
    ultimately show ?thesis using c(3) by (intro exI [of _ p] exI [of _ s'] exI [of _ "own((p, b) \<mapsto> Live)"]) (auto simp: live_def)
  qed
  show thesis
  proof (cases "free_list s w b = 0")
    case False
    then show ?thesis using ne assms(1,6) that by blast
  next
    case True
    obtain s1 own1 where 1: "allocate_batch os w b sz s = Some s1" "core os C own1 s1" "live own1 = live own" "free_list s1 w b \<noteq> 0"
      "mutex_free (fm_lock s1)" using allocate_batch_core [OF assms] by blast
    have "(free_list s)(w := (free_list s w)(b := 0)) = free_list s" using True by (metis fun_upd_triv)
    then have "worker_pop w b s = (0, s)" using True by (simp add: worker_pop_def pop_def)
    then have "malloc_loop os w b sz s = malloc_loop os w b sz s1" by (subst malloc_loop.simps) (simp add: 1(1))
    then show ?thesis using ne [OF 1(2,4,5)] 1(3) that by metis
  qed
qed

subsection \<open>Giving blocks back\<close>

lemma relabel_Nil [simp]: "relabel [] b l own = own"
  by (auto simp: relabel_def)

lemma relabel_Cons: "relabel (q # zs) b l own = relabel zs b l (own((q, b) \<mapsto> l))"
  by (auto simp: relabel_def)

lemma gc_scan_run:
  assumes "linked c p xs"
  obtains ys zs q where "xs = ys @ zs" "gc_scan c sz pot p n = Some (q, n + length ys * sz)" "linked c q zs"
  using assms
proof (induction xs arbitrary: p n thesis)
  case Nil
  then show ?case by (intro Nil(1) [of "[]" "[]" 0]) (simp_all add: gc_scan.simps)
next
  case (Cons x xs)
  show ?case
  proof (cases "2 * n < pot")
    case True
    obtain ys zs q where "xs = ys @ zs" "gc_scan c sz pot (c x) (n + sz) = Some (q, n + sz + length ys * sz)" "linked c q zs"
      using Cons.IH Cons.prems(2) by (metis linked.simps(2))
    then show ?thesis using True Cons.prems(2)
      by (intro Cons.prems(1) [of "x # ys" zs q]) (simp_all add: gc_scan.simps [of c sz pot x] add.assoc mult.commute)
  next
    case False
    then show ?thesis using Cons.prems(2) by (intro Cons.prems(1) [of "[]" "x # xs" p]) (simp_all add: gc_scan.simps)
  qed
qed

lemma linked_cut:
  assumes "linked c h (ys @ p # zs)" "\<And>a. a \<in> set ys \<Longrightarrow> c' a = c a" "c' p = 0"
  shows "linked c' h (ys @ [p])"
  using assms by (induction ys arbitrary: h) auto

lemma gc_free_core:
  assumes "core os C own s" "linked (cdr s) p (p # zs)" "distinct (p # zs)" "\<And>a. a \<in> set (p # zs) \<Longrightarrow> own (a, b) = Some Live"
  shows "\<exists>s'. gc_free p b s = Some s' \<and> core os C (relabel zs b Global own) s' \<and> cdr s' p = 0 \<and>
     (\<forall>a. a \<notin> set (p # zs) \<longrightarrow> cdr s' a = cdr s a) \<and> same_caches s s'"
  using assms
proof (induction zs arbitrary: s own)
  case Nil
  have t: "(cdr s)(p := 0) = cdr s" using Nil(2) by auto
  have "gc_free p b s = Some s" by (subst gc_free.simps) (use Nil(2) t in \<open>simp add: pop_def Let_def\<close>)
  then show ?case using Nil by (simp add: same_caches_def)
next
  case (Cons q zs)
  let ?s1 = "s\<lparr>cdr := (cdr s)(p := cdr s q)\<rparr>"
  have "core os C own ?s1" using core_write [OF Cons.prems(1), of p b] Cons.prems(4) by simp
  from global_free_core [OF this, of q b] Cons.prems(4) obtain s2 where 2: "global_free q b ?s1 = Some s2" "core os C (own((q, b) \<mapsto> Global)) s2"
    "same_caches ?s1 s2" "cdr s2 = (cdr ?s1)(q := global_free_list ?s1 b)" by (auto simp: same_caches_def)
  have dis: "distinct (p # zs)" using Cons.prems(3) by simp
  have "linked (cdr s2) p (p # zs)" using Cons.prems(2,3) by (simp add: 2(4))
  moreover have "\<And>a. a \<in> set (p # zs) \<Longrightarrow> (own((q, b) \<mapsto> Global)) (a, b) = Some Live" using Cons.prems(3,4) by auto
  ultimately obtain s' where 3: "gc_free p b s2 = Some s'" "core os C (relabel zs b Global (own((q, b) \<mapsto> Global))) s'" "cdr s' p = 0"
    "\<forall>a. a \<notin> set (p # zs) \<longrightarrow> cdr s' a = cdr s2 a" "same_caches s2 s'"
    using Cons.IH [OF 2(2)] dis by blast
  have "gc_free p b s = gc_free p b s2"
    by (subst gc_free.simps) (use Cons.prems(2) 2(1) in \<open>simp add: pop_def Let_def\<close>)
  then show ?case using 3 2(3,4) by (auto simp: relabel_Cons same_caches_def)
qed

lemma move_loop_core:
  assumes "core os C own s" "linked (cdr s) p xs" "distinct xs" "\<And>a. a \<in> set xs \<Longrightarrow> own (a, b) = Some Live"
  shows "\<exists>s'. move_loop p b s = Some s' \<and> core os C (relabel xs b Global own) s' \<and> same_caches s s'"
  using assms
proof (induction xs arbitrary: p s own)
  case Nil
  then show ?case by (subst move_loop.simps) (simp add: pop_def Let_def same_caches_def)
next
  case (Cons q zs)
  from global_free_core [OF Cons.prems(1), of q b] Cons.prems(4) obtain s2 where 2: "global_free q b s = Some s2"
    "core os C (own((q, b) \<mapsto> Global)) s2" "same_caches s s2" "cdr s2 = (cdr s)(q := global_free_list s b)" by (auto simp: same_caches_def)
  have "linked (cdr s2) (cdr s q) zs" using Cons.prems(2,3) by (simp add: 2(4))
  moreover have "\<And>a. a \<in> set zs \<Longrightarrow> (own((q, b) \<mapsto> Global)) (a, b) = Some Live" using Cons.prems(3,4) by auto
  ultimately obtain s' where 3: "move_loop (cdr s q) b s2 = Some s'"
    "core os C (relabel zs b Global (own((q, b) \<mapsto> Global))) s'" "same_caches s2 s'" using Cons.IH [OF 2(2)] Cons.prems(3) unfolding distinct.simps by blast
  have "move_loop p b s = move_loop (cdr s q) b s2"
    by (subst move_loop.simps) (use Cons.prems(2) 2(1) in \<open>simp add: pop_def Let_def\<close>)
  then show ?case using 3 2(3) by (auto simp: relabel_Cons same_caches_def)
qed

lemma gc_bucket_core:
  assumes "core os C own s" "(w, b) \<in> C" "mutex_free (fm_lock s)"
  obtains s' own' where "gc_bucket w b sz s = Some s'" "core os C own' s'" "live own' = live own" "mutex_free (fm_lock s')"
proof -
  obtain xs where xs: "linked (cdr s) (free_list s w b) xs" "distinct xs" "\<And>a. a \<in> set xs \<longleftrightarrow> own (a, b) = Some (Cache w)"
    "core os (C - {(w, b)}) (relabel xs b Live own) s" using core_detach [OF assms(1,2)] by blast
  obtain ys zs q where g: "xs = ys @ zs" "gc_scan (cdr s) sz (bucket_potential s w b) (free_list s w b) 0 = Some (q, length ys * sz)"
    "linked (cdr s) q zs" using gc_scan_run [OF xs(1), of sz "bucket_potential s w b" 0] by auto
  let ?s = "s\<lparr>bucket_potential := (bucket_potential s)(w := (bucket_potential s w)(b := length ys * sz))\<rparr>"
  have run: "gc_bucket w b sz s = (if q \<noteq> 0 then do { s \<leftarrow> fm_mutex_lock w ?s; s \<leftarrow> gc_free q b s; fm_mutex_unlock w s } else Some ?s)"
    using g(2) by (simp add: gc_bucket_def)
  show thesis
  proof (cases "q = 0")
    case True
    then show thesis using run assms by (intro that [of ?s own]) (simp_all add: core_ghost)
  next
    case False
    then obtain zs' where z: "zs = q # zs'" using linked_nonnull [OF g(3)] by blast
    obtain s1 where 1: "fm_mutex_lock w ?s = Some s1" "s1 = ?s\<lparr>fm_lock := fm_lock s1\<rparr>"
      "\<And>s2. fm_lock s2 = fm_lock s1 \<Longrightarrow> fm_mutex_unlock w s2 = Some (s2\<lparr>fm_lock := mutex_init\<rparr>)"
      using fm_lock_run [of ?s w] assms(3) by auto
    have s1: "cdr s1 = cdr s" "free_list s1 = free_list s" by (subst 1(2), simp)+
    have c1: "core os (C - {(w, b)}) (relabel xs b Live own) s1" by (subst 1(2)) (simp add: core_ghost xs(4))
    have l1: "linked (cdr s1) q (q # zs')" using g(3) z s1(1) by simp
    have d1: "distinct (q # zs')" using xs(2) g(1) z by simp
    have "relabel xs b Live own (a, b) = Some Live" if "a \<in> set (q # zs')" for a using that g(1) z by (auto simp: relabel_def)
    from gc_free_core [OF c1 l1 d1 this] obtain s2 where 2: "gc_free q b s1 = Some s2"
      "core os (C - {(w, b)}) (relabel zs' b Global (relabel xs b Live own)) s2" "cdr s2 q = 0"
      "\<forall>a. a \<notin> set (q # zs') \<longrightarrow> cdr s2 a = cdr s1 a" "same_caches s1 s2" by blast
    let ?o = "relabel zs' b Global (relabel xs b Live own)"
    have "linked (cdr s2) (free_list s2 w b) (ys @ [q])"
      using xs(1,2) g(1) z 2(3,4,5) s1 by (intro linked_cut [of "cdr s" _ ys q zs']) (auto simp: same_caches_def)
    moreover have "distinct (ys @ [q])" using xs(2) g(1) z by simp
    moreover have "?o (a, b) = Some Live" if "a \<in> set (ys @ [q])" for a using that xs(2) g(1) z by (auto simp: relabel_def)
    ultimately have c3: "core os (insert (w, b) (C - {(w, b)})) (relabel (ys @ [q]) b (Cache w) ?o) s2"
      by (intro core_attach [OF 2(2)]) auto
    have C: "insert (w, b) (C - {(w, b)}) = C" using assms(2) by auto
    have "relabel (ys @ [q]) b (Cache w) ?o x = Some Live \<longleftrightarrow> own x = Some Live" for x
      using xs(3) [of "fst x"] g(1) z by (cases x) (auto simp: relabel_def)
    then have "live (relabel (ys @ [q]) b (Cache w) ?o) = live own" by (simp add: live_def)
    moreover have "fm_mutex_unlock w s2 = Some (s2\<lparr>fm_lock := mutex_init\<rparr>)" using 1(3) 2(5) by (simp add: same_caches_def)
    then have "gc_bucket w b sz s = Some (s2\<lparr>fm_lock := mutex_init\<rparr>)" using False by (simp add: run 1(1) 2(1))
    ultimately show thesis using c3 unfolding C
      by (intro that [of "s2\<lparr>fm_lock := mutex_init\<rparr>" "relabel (ys @ [q]) b (Cache w) ?o"]) (simp_all add: core_ghost mutex_init_def)
  qed
qed

lemma move_bucket_core:
  assumes "core os C own s" "(w, b) \<in> C" "mutex_free (fm_lock s)"
  obtains s' own' where "move_bucket_to_global_free_list w b s = Some s'" "core os (C - {(w, b)}) own' s'" "live own' = live own"
    "mutex_free (fm_lock s')"
proof -
  obtain xs where xs: "linked (cdr s) (free_list s w b) xs" "distinct xs" "\<And>a. a \<in> set xs \<longleftrightarrow> own (a, b) = Some (Cache w)"
    "core os (C - {(w, b)}) (relabel xs b Live own) s" using core_detach [OF assms(1,2)] by blast
  define o2 where "o2 = relabel xs b Global (relabel xs b Live own)"
  have "\<exists>s1. (if free_list s w b \<noteq> 0 then do { s \<leftarrow> fm_mutex_lock w s; s \<leftarrow> move_loop (free_list s w b) b s; fm_mutex_unlock w s } else Some s)
      = Some s1 \<and> core os (C - {(w, b)}) o2 s1 \<and> mutex_free (fm_lock s1)"
  proof (cases "free_list s w b = 0")
    case True
    then have "xs = []" using xs(1) by simp
    then show ?thesis using xs(4) True assms(3) by (simp add: o2_def)
  next
    case False
    obtain s1 where 1: "fm_mutex_lock w s = Some s1" "s1 = s\<lparr>fm_lock := fm_lock s1\<rparr>"
      "\<And>s2. fm_lock s2 = fm_lock s1 \<Longrightarrow> fm_mutex_unlock w s2 = Some (s2\<lparr>fm_lock := mutex_init\<rparr>)"
      using fm_lock_run [of s w] assms(3) by auto
    have s1: "cdr s1 = cdr s" "free_list s1 = free_list s" by (subst 1(2), simp)+
    have c1: "core os (C - {(w, b)}) (relabel xs b Live own) s1" by (subst 1(2)) (simp add: core_ghost xs(4))
    have "relabel xs b Live own (a, b) = Some Live" if "a \<in> set xs" for a using that by (simp add: relabel_def)
    from move_loop_core [OF c1 xs(1) [folded s1(1)] xs(2) this] obtain s2 where
      2: "move_loop (free_list s w b) b s1 = Some s2" "core os (C - {(w, b)}) o2 s2" "same_caches s1 s2" unfolding o2_def by blast
    have "fm_mutex_unlock w s2 = Some (s2\<lparr>fm_lock := mutex_init\<rparr>)" using 1(3) 2(3) by (simp add: same_caches_def)
    then show ?thesis using False 2(1,2) by (simp add: 1(1) s1(2) core_ghost mutex_init_def)
  qed
  then obtain s1 where 1: "(if free_list s w b \<noteq> 0 then do { s \<leftarrow> fm_mutex_lock w s; s \<leftarrow> move_loop (free_list s w b) b s; fm_mutex_unlock w s } else Some s) = Some s1"
    "core os (C - {(w, b)}) o2 s1" "mutex_free (fm_lock s1)" by blast
  have f: "fm_mutex_lock w s = Some t \<Longrightarrow> free_list t w b = free_list s w b" for t by (auto simp: fm_mutex_lock_def)
  have "move_bucket_to_global_free_list w b s = Some (s1\<lparr>bucket_potential := (bucket_potential s1)(w := (bucket_potential s1 w)(b := 0))\<rparr>)"
    using 1(1) f by (auto simp: move_bucket_to_global_free_list_def Let_def bind_eq_Some_conv split: if_splits)
  moreover have "live o2 = live own" using xs(3) by (auto simp: live_def o2_def relabel_def)
  ultimately show thesis using that [of _ o2] 1(2,3) by (simp add: core_ghost)
qed

lemma cleanup_buckets_core:
  assumes "core os C own s" "\<And>b. b \<in> set bs \<Longrightarrow> (w, b) \<in> C" "distinct bs" "mutex_free (fm_lock s)"
  shows "\<exists>s' own'. cleanup_buckets w bs s = Some s' \<and> core os (C - {w} \<times> set bs) own' s' \<and> live own' = live own \<and> mutex_free (fm_lock s')"
  using assms
proof (induction bs arbitrary: C own s)
  case (Cons b bs)
  obtain s1 o1 where 1: "move_bucket_to_global_free_list w b s = Some s1" "core os (C - {(w, b)}) o1 s1" "live o1 = live own"
    "mutex_free (fm_lock s1)" using move_bucket_core [OF Cons.prems(1) _ Cons.prems(4), of w b] Cons.prems(2) by auto
  have "\<exists>s' own'. cleanup_buckets w bs s1 = Some s' \<and> core os (C - {(w, b)} - {w} \<times> set bs) own' s' \<and> live own' = live o1 \<and> mutex_free (fm_lock s')"
    by (rule Cons.IH [OF 1(2) _ _ 1(4)]) (use Cons.prems(2,3) in auto)
  moreover have "C - {(w, b)} - {w} \<times> set bs = C - {w} \<times> set (b # bs)" by auto
  ultimately show ?case using 1 by simp
qed auto

subsection \<open>Every history of the allocator\<close>

text \<open>
  The state after any sequence of calls by workers of the set \<open>W\<close>, with the set \<open>L\<close> of blocks (address and
  requested size) the program holds. The program may store what it likes in a block it holds,
  including where the link of a free block would be. A worker starts with
  \<^verbatim>\<open>__cilkrts_frame_malloc_per_worker_init\<close> and ends with the cleanup of its cache.
\<close>

inductive fm_reach :: "(nat \<Rightarrow> nat) \<Rightarrow> wptr set \<Rightarrow> (nat \<times> nat) set \<Rightarrow> frame_cache \<Rightarrow> bool" for os where
  global_init: "fm_reach os {} {} (frame_malloc_global_init s)"
| worker_init: "fm_reach os W L s \<Longrightarrow> w \<notin> W \<Longrightarrow> fm_reach os (insert w W) L (frame_malloc_per_worker_init w s)"
| malloc: "fm_reach os W L s \<Longrightarrow> w \<in> W \<Longrightarrow> frame_malloc os (Some w) sz s = Some (Inr (p, s')) \<Longrightarrow> fm_reach os W (insert (p, sz) L) s'"
| free: "fm_reach os W L s \<Longrightarrow> w \<in> W \<Longrightarrow> (p, sz) \<in> L \<Longrightarrow> frame_free (Some w) p sz s = Some s' \<Longrightarrow> fm_reach os W (L - {(p, sz)}) s'"
| store: "fm_reach os W L s \<Longrightarrow> (p, sz) \<in> L \<Longrightarrow> fm_reach os W L (s\<lparr>cdr := (cdr s)(p := v)\<rparr>)"
| worker_cleanup: "fm_reach os W L s \<Longrightarrow> w \<in> W \<Longrightarrow> frame_malloc_per_worker_cleanup w s = Some s' \<Longrightarrow> fm_reach os (W - {w}) L s'"

definition block_of :: "nat \<times> nat \<Rightarrow> nat \<times> nat" where
  "block_of x = (fst x, the (bucket_of_size (snd x)))"

definition fm_inv :: "(nat \<Rightarrow> nat) \<Rightarrow> wptr set \<Rightarrow> (nat \<times> nat) set \<Rightarrow> frame_cache \<Rightarrow> bool" where
  "fm_inv os W L s \<longleftrightarrow> mutex_free (fm_lock s) \<and> (\<forall>x\<in>L. snd x \<le> 2048) \<and> inj_on block_of L \<and>
     (\<exists>own. core os (W \<times> {..<6}) own s \<and> live own = block_of ` L)"

lemma global_init_inv: "fm_inv os {} {} (frame_malloc_global_init s)"
proof -
  have "core os ({} \<times> {..<6}) Map.empty (frame_malloc_global_init s)"
    by (rule coreI) (simp_all add: blocks_ok_def pool_ok_def frame_malloc_global_init_def at_place_def outside_def)
  then show ?thesis by (auto simp: fm_inv_def live_def frame_malloc_global_init_def mutex_init_def)
qed

lemma worker_init_inv:
  assumes "fm_inv os W L s" "w \<notin> W" shows "fm_inv os (insert w W) L (frame_malloc_per_worker_init w s)"
proof -
  let ?s = "frame_malloc_per_worker_init w s"
  obtain own where o: "core os (W \<times> {..<6}) own s" "live own = block_of ` L" using assms(1) by (auto simp: fm_inv_def)
  have n: "own (a, b) \<noteq> Some (Cache w)" for a b using coreD(5) [OF o(1), of a b w] assms(2) by auto
  have "core os (insert w W \<times> {..<6}) own ?s"
  proof (rule coreI)
    show "at_place own (cdr ?s) (Cache v) b (free_list ?s v b)" if "(v, b) \<in> insert w W \<times> {..<6}" for v b
    proof (cases "v = w")
      case True
      then show ?thesis using n by (simp add: at_place_def frame_malloc_per_worker_init_def)
    next
      case False
      then show ?thesis using coreD(4) [OF o(1), of v b] that by (simp add: frame_malloc_per_worker_init_def)
    qed
    show "(v, b) \<in> insert w W \<times> {..<6}" if "own (a, b) = Some (Cache v)" for a b v using coreD(5) [OF o(1) that] by auto
  qed (use coreD [OF o(1)] in \<open>simp_all add: frame_malloc_per_worker_init_def blocks_ok_def pool_ok_def\<close>)
  then show ?thesis using assms(1) o(2) unfolding fm_inv_def by (auto simp: frame_malloc_per_worker_init_def)
qed

lemma malloc_inv:
  assumes "fm_inv os W L s" "os_ok os" "w \<in> W" "sz \<le> 2048"
  obtains p s' where "frame_malloc os (Some w) sz s = Some (Inr (p, s'))" "p \<noteq> 0" "fm_inv os W (insert (p, sz) L) s'" "block_of (p, sz) \<notin> block_of ` L"
proof -
  obtain own where o: "core os (W \<times> {..<6}) own s" "live own = block_of ` L" using assms(1) by (auto simp: fm_inv_def)
  obtain b where b: "bucket_of_size sz = Some b" "b < 6" using bucket_of_size_ok [OF assms(4)] by blast
  have "(w, b) \<in> W \<times> {..<6}" "mutex_free (fm_lock s)" using assms(1,3) b by (auto simp: fm_inv_def)
  then obtain p s' own' where 1: "malloc_loop os w b (FRAME_MALLOC_BUCKET_TO_SIZE b) s = Some (p, s')"
    "core os (W \<times> {..<6}) own' s'" "live own' = insert (p, b) (live own)" "(p, b) \<notin> live own" "mutex_free (fm_lock s')"
    using malloc_loop_core [OF o(1) assms(2) b(2) _ refl] by metis
  have pb: "block_of (p, sz) = (p, b)" by (simp add: block_of_def b)
  have "own' (p, b) = Some Live" using 1(3) by (auto simp: live_def)
  then have "(p, b) \<in> dom own'" by blast
  from blocks_okD(2) [OF coreD(1) [OF 1(2)] this] have "p \<noteq> 0" by simp
  moreover have "frame_malloc os (Some w) sz s = Some (Inr (p, s'))"
    using assms(4) b(1) 1(1) by (simp add: frame_malloc_def FRAME_MALLOC_MAX_SIZE_def)
  moreover have "fm_inv os W (insert (p, sz) L) s'" unfolding fm_inv_def
  proof (intro conjI)
    show "inj_on block_of (insert (p, sz) L)" using assms(1) 1(4) o(2) pb by (auto simp: fm_inv_def)
    show "\<exists>own. core os (W \<times> {..<6}) own s' \<and> live own = block_of ` insert (p, sz) L" using 1(2,3) o(2) pb by auto
  qed (use assms(1,4) 1(5) in \<open>auto simp: fm_inv_def\<close>)
  ultimately show thesis using that 1(4) o(2) pb by metis
qed

lemma free_inv:
  assumes "fm_inv os W L s" "w \<in> W" "(p, sz) \<in> L"
  obtains s' where "frame_free (Some w) p sz s = Some s'" "fm_inv os W (L - {(p, sz)}) s'"
proof -
  obtain own where o: "core os (W \<times> {..<6}) own s" "live own = block_of ` L" using assms(1) by (auto simp: fm_inv_def)
  have sz: "sz \<le> 2048" using assms by (auto simp: fm_inv_def)
  obtain b where b: "bucket_of_size sz = Some b" "b < 6" using bucket_of_size_ok [OF sz] by blast
  have pb: "block_of (p, sz) = (p, b)" by (simp add: block_of_def b)
  then have "(p, b) \<in> live own" using o(2) assms(3) by force
  then have lv: "own (p, b) = Some Live" by (simp add: live_def)
  let ?s = "worker_push w b p (add_potential w b (FRAME_MALLOC_BUCKET_TO_SIZE b) s)" and ?o = "own((p, b) \<mapsto> Cache w)"
  have wb: "(w, b) \<in> W \<times> {..<6}" using assms(2) b by simp
  have c: "core os (W \<times> {..<6}) ?o ?s" by (rule worker_push_core [where own = own]) (use o(1) lv wb in \<open>simp_all add: core_ghost\<close>)
  have m: "mutex_free (fm_lock ?s)" using assms(1) by (simp add: fm_inv_def worker_push_def push_def Let_def add_potential_def)
  have "inj_on block_of L" using assms(1) by (simp add: fm_inv_def)
  then have L: "block_of ` (L - {(p, sz)}) = live own - {(p, b)}"
    using inj_on_image_set_diff [of block_of L L "{(p, sz)}"] assms(3) pb o(2) by simp
  have "live ?o = block_of ` (L - {(p, sz)})" unfolding L by (auto simp: live_def)
  then have inv: "fm_inv os W (L - {(p, sz)}) s'" if "core os (W \<times> {..<6}) own' s'" "live own' = live ?o" "mutex_free (fm_lock s')" for s' own'
    using that assms(1) by (auto simp: fm_inv_def inj_on_diff)
  have run: "frame_free (Some w) p sz s = (if bucket_potential ?s w b > potential_limit ?s then gc_bucket w b (FRAME_MALLOC_BUCKET_TO_SIZE b) ?s else Some ?s)"
    using sz b by (simp add: frame_free_def FRAME_MALLOC_MAX_SIZE_def Let_def)
  show thesis
  proof (cases "bucket_potential ?s w b > potential_limit ?s")
    case True
    then show thesis using gc_bucket_core [OF c wb m, of "FRAME_MALLOC_BUCKET_TO_SIZE b"] run inv that by metis
  next
    case False
    then show thesis using run inv [OF c refl m] that by simp
  qed
qed

lemma store_inv:
  assumes "fm_inv os W L s" "(p, sz) \<in> L" shows "fm_inv os W L (s\<lparr>cdr := (cdr s)(p := v)\<rparr>)"
proof -
  obtain own where o: "core os (W \<times> {..<6}) own s" "live own = block_of ` L" using assms(1) by (auto simp: fm_inv_def)
  obtain b where "block_of (p, sz) = (p, b)" by (simp add: block_of_def)
  then have "(p, b) \<in> live own" using o(2) assms(2) by force
  then have "core os (W \<times> {..<6}) own (s\<lparr>cdr := (cdr s)(p := v)\<rparr>)" by (intro core_write [OF o(1)]) (simp add: live_def)
  then show ?thesis using assms(1) o(2) by (auto simp: fm_inv_def)
qed

lemma cleanup_inv:
  assumes "fm_inv os W L s" "w \<in> W"
  obtains s' where "frame_malloc_per_worker_cleanup w s = Some s'" "fm_inv os (W - {w}) L s'"
proof -
  obtain own where o: "core os (W \<times> {..<6}) own s" "live own = block_of ` L" using assms(1) by (auto simp: fm_inv_def)
  have "W \<times> {..<6} - {w} \<times> set [0..<6] = (W - {w}) \<times> {..<6}" by auto
  with cleanup_buckets_core [OF o(1), of "[0..<6]" w] assms o(2) show thesis
    by (auto simp: fm_inv_def frame_malloc_per_worker_cleanup_def FRAME_MALLOC_NBUCKETS_def intro!: that)
qed

lemma fm_reach_inv:
  assumes "fm_reach os W L s" "os_ok os" shows "fm_inv os W L s"
  using assms
proof (induction rule: fm_reach.induct)
  case (malloc W L s w sz p s')
  have "sz \<le> 2048" using malloc.hyps(3) by (auto simp: frame_malloc_def FRAME_MALLOC_MAX_SIZE_def split: if_splits)
  then show ?case using malloc malloc_inv [of os W L s w sz] by (metis option.inject sum.inject(2) prod.inject)
qed (auto intro: global_init_inv worker_init_inv store_inv elim: free_inv cleanup_inv)

subsection \<open>Counting at the end\<close>

lemma blocks_fit:
  assumes "blocks_ok os B s" "A \<subseteq> B"
  shows "(\<Sum>x\<in>A. FRAME_MALLOC_BUCKET_TO_SIZE (snd x)) \<le> length (pool_list s) * FRAME_MALLOC_CHUNK"
proof -
  let ?N = "length (pool_list s)" and ?C = "\<lambda>n. {os n ..< os n + FRAME_MALLOC_CHUNK}"
  have fin: "finite A" using assms finite_subset by (auto simp: blocks_ok_def)
  have "(\<Sum>x\<in>A. FRAME_MALLOC_BUCKET_TO_SIZE (snd x)) = (\<Sum>x\<in>A. card (span x))" by simp
  also have "\<dots> = card (\<Union>x\<in>A. span x)"
  proof (rule card_UN_disjoint [symmetric])
    show "\<forall>x\<in>A. \<forall>y\<in>A. x \<noteq> y \<longrightarrow> span x \<inter> span y = {}" using blocks_ok_disjoint [OF assms(1)] assms(2) by blast
  qed (use fin in auto)
  also have "\<dots> \<le> card (\<Union>n<?N. ?C n)"
  proof (rule card_mono)
    show "(\<Union>x\<in>A. span x) \<subseteq> (\<Union>n<?N. ?C n)"
    proof (rule UN_least)
      fix x assume "x \<in> A"
      then obtain n where "n < ?N" "span x \<subseteq> ?C n" using blocks_okD(3) [OF assms(1)] assms(2) by blast
      then show "span x \<subseteq> (\<Union>n<?N. ?C n)" by blast
    qed
  qed simp
  also have "\<dots> \<le> (\<Sum>n<?N. card (?C n))" by (rule card_UN_le) simp
  finally show ?thesis by simp
qed

lemma of_nat_word_mono: "m \<le> n \<Longrightarrow> n < 2 ^ 64 \<Longrightarrow> (of_nat m :: 64 word) \<le> of_nat n"
  by (simp add: word_le_nat_alt unsigned_of_nat take_bit_nat_eq_self)

lemma of_nat_word_zero: "n < 2 ^ 64 \<Longrightarrow> (of_nat n :: 64 word) = 0 \<longleftrightarrow> n = 0"
  by (auto simp: word_of_nat_eq_0_iff dest: dvd_imp_le)

lemma count_free_list_run: "linked c p xs \<Longrightarrow> count_free_list sz c p n = Some (n + of_nat (length xs * sz))"
  by (induction xs arbitrary: p n) (subst count_free_list.simps; simp add: algebra_simps)+

lemma count_buckets_run:
  assumes "core os C own s" "\<forall>b\<in>set bs. b < 6"
  shows "count_buckets bs s n = Some (n + of_nat (\<Sum>b\<leftarrow>bs. card {a. own (a, b) = Some Global} * FRAME_MALLOC_BUCKET_TO_SIZE b))"
  using assms(2)
proof (induction bs arbitrary: n)
  case (Cons b bs)
  obtain xs where xs: "linked (cdr s) (global_free_list s b) xs" "distinct xs" "set xs = {a. own (a, b) = Some Global}"
    using coreD(3) [OF assms(1), of b] Cons.prems by (auto simp: at_place_def)
  have "length xs = card {a. own (a, b) = Some Global}" using distinct_card [OF xs(2)] xs(3) by simp
  then show ?case using Cons count_free_list_run [OF xs(1)] by (simp add: algebra_simps)
qed simp

lemma count_memory_run:
  assumes "core os C own s"
  shows "count_memory_in_global_list s = Some (of_nat (\<Sum>x\<in>{x. own x = Some Global}. FRAME_MALLOC_BUCKET_TO_SIZE (snd x)))"
proof -
  let ?G = "{x. own x = Some Global}"
  have G: "finite ?G" "snd ` ?G \<subseteq> {..<6}"
    using coreD(1) [OF assms] finite_subset [of ?G "dom own"] blocks_okD(1) [OF coreD(1) [OF assms]] by (auto simp: blocks_ok_def)
  have "(\<Sum>x\<in>?G. FRAME_MALLOC_BUCKET_TO_SIZE (snd x)) = (\<Sum>b<6. \<Sum>x\<in>{x \<in> ?G. snd x = b}. FRAME_MALLOC_BUCKET_TO_SIZE (snd x))"
    by (rule sum.group [OF G(1) _ G(2), symmetric]) simp
  also have "\<dots> = (\<Sum>b<6. card {a. own (a, b) = Some Global} * FRAME_MALLOC_BUCKET_TO_SIZE b)"
  proof (rule sum.cong)
    fix b :: nat
    have "{x \<in> ?G. snd x = b} = (\<lambda>a. (a, b)) ` {a. own (a, b) = Some Global}" by auto
    then show "(\<Sum>x\<in>{x \<in> ?G. snd x = b}. FRAME_MALLOC_BUCKET_TO_SIZE (snd x)) = card {a. own (a, b) = Some Global} * FRAME_MALLOC_BUCKET_TO_SIZE b"
      by (simp add: sum.reindex inj_on_def)
  qed simp
  also have "\<dots> = (\<Sum>b\<leftarrow>[0..<6]. card {a. own (a, b) = Some Global} * FRAME_MALLOC_BUCKET_TO_SIZE b)"
    by (simp add: interv_sum_list_conv_sum_set_nat atLeast0LessThan)
  finally show ?thesis
    using count_buckets_run [OF assms, of "[0..<6]" 0] by (simp add: count_memory_in_global_list_def FRAME_MALLOC_NBUCKETS_def del: upt_rec_numeral)
qed

subsection \<open>Properties\<close>

text \<open>C21: the allocator never hands out memory twice. After any history of mallocs and frees by
  any workers (a block may be freed by another worker than the one that got it, and the program may
  overwrite all of a block it holds), a request of at most 2048 bytes succeeds, and the block it returns is not null, lies in one
  chunk of the operating system's memory and overlaps no block the program still holds.\<close>

theorem frame_malloc_fresh:
  assumes "fm_reach os W L s" and "os_ok os" and "w \<in> W" and "sz \<le> FRAME_MALLOC_MAX_SIZE"
  shows "\<exists>p s' n. frame_malloc os (Some w) sz s = Some (Inr (p, s')) \<and> p \<noteq> 0 \<and> {p ..< p + sz} \<subseteq> {os n ..< os n + FRAME_MALLOC_CHUNK} \<and>
     (\<forall>(q, m)\<in>L. {p ..< p + sz} \<inter> {q ..< q + m} = {})"
proof -
  note inv = fm_reach_inv [OF assms(1,2)]
  have sz: "sz \<le> 2048" using assms(4) by (simp add: FRAME_MALLOC_MAX_SIZE_def)
  obtain p s' where 1: "frame_malloc os (Some w) sz s = Some (Inr (p, s'))" "p \<noteq> 0" "fm_inv os W (insert (p, sz) L) s'"
    "block_of (p, sz) \<notin> block_of ` L" by (rule malloc_inv [OF inv assms(2,3) sz])
  then obtain own where o: "core os (W \<times> {..<6}) own s'" "live own = block_of ` insert (p, sz) L" by (auto simp: fm_inv_def)
  note B = coreD(1) [OF o(1)]
  have d: "block_of x \<in> dom own" if "x \<in> insert (p, sz) L" for x using o(2) that by (force simp: live_def)
  have sub: "{fst x ..< fst x + snd x} \<subseteq> span (block_of x)" if "x \<in> insert (p, sz) L" for x
  proof -
    have "snd x \<le> 2048" using 1(3) that by (auto simp: fm_inv_def)
    then show ?thesis using bucket_of_size_ok [of "snd x"] by (fastforce simp: block_of_def)
  qed
  have "{p ..< p + sz} \<inter> {q ..< q + m} = {}" if "(q, m) \<in> L" for q m
  proof -
    have "span (block_of (p, sz)) \<inter> span (block_of (q, m)) = {}"
      by (rule blocks_ok_disjoint [OF B d d]) (use that 1(4) in auto)
    then show ?thesis using sub [of "(p, sz)"] sub [of "(q, m)"] that by (metis (no_types, lifting) Int_mono fst_conv insertCI snd_conv subset_empty)
  qed
  moreover obtain n where "span (block_of (p, sz)) \<subseteq> {os n ..< os n + FRAME_MALLOC_CHUNK}" using blocks_okD(3) [OF B d, of "(p, sz)"] by auto
  then have "{p ..< p + sz} \<subseteq> {os n ..< os n + FRAME_MALLOC_CHUNK}" using order_trans [OF sub [of "(p, sz)"]] by (simp only: fst_conv snd_conv insertI1)
  ultimately show ?thesis using 1(1,2) by blast
qed

text \<open>the check at the end is exact. When every worker has given its cache back, the cleanup never
  reports corrupted data structures, and it reports a memory leak if and only if the program still holds
  a block, as long as the chunks taken from the operating system fit into a \<^verbatim>\<open>size_t\<close>.\<close>

theorem leak_check_exact:
  assumes "fm_reach os {} L s" and "os_ok os" and "check_for_leaks s" and "length (pool_list s) * FRAME_MALLOC_CHUNK < 2 ^ 64"
  shows "frame_malloc_global_cleanup s = Some (if L = {} then Inr (s\<lparr>pool_list := []\<rparr>) else Inl Memory_leak)"
proof -
  obtain own where o: "core os {} own s" "live own = block_of ` L" using fm_reach_inv [OF assms(1,2)] by (auto simp: fm_inv_def)
  note B = coreD(1) [OF o(1)]
  let ?G = "\<Sum>x\<in>{x. own x = Some Global}. FRAME_MALLOC_BUCKET_TO_SIZE (snd x)" and ?O = "\<Sum>x\<in>outside own. FRAME_MALLOC_BUCKET_TO_SIZE (snd x)"
  let ?N = "length (pool_list s) * FRAME_MALLOC_CHUNK"
  have le: "?G \<le> ?N" "?O \<le> ?N" by (rule blocks_fit [OF B]; auto simp: outside_def)+
  have os: "allocated_from_os s = of_nat ?N" using coreD(2) [OF o(1)] by (simp only: pool_ok_def)
  have n: "\<not> (of_nat ?G :: 64 word) > allocated_from_os s" unfolding os not_less by (rule of_nat_word_mono [OF le(1) assms(4)])
  have "own x \<noteq> Some (Cache v)" for x v using coreD(5) [OF o(1)] by (metis empty_iff surj_pair)
  then have lv: "outside own = live own" by (auto simp: outside_def live_def) (metis place.exhaust)
  have "(of_nat ?O :: 64 word) = 0 \<longleftrightarrow> ?O = 0" by (rule of_nat_word_zero [OF le_less_trans [OF le(2) assms(4)]])
  moreover have "FRAME_MALLOC_BUCKET_TO_SIZE (snd x) \<noteq> 0" if "x \<in> live own" for x
  proof -
    have "x \<in> dom own" using that by (auto simp: live_def)
    from bucket_size_bounds(1) [OF blocks_okD(1) [OF B this]] show ?thesis by simp
  qed
  then have "?O = 0 \<longleftrightarrow> live own = {}" unfolding lv sum_eq_0_iff [OF finite_outside [OF B, unfolded lv]] by blast
  ultimately have z: "allocated_from_global_pool s = 0 \<longleftrightarrow> L = {}" using coreD(6) [OF o(1)] o(2) by simp
  show ?thesis using n z assms(3)
    by (simp add: frame_malloc_global_cleanup_def count_memory_run [OF o(1)] mutex_destroy_def)
qed

subsection \<open>Witnesses\<close>

definition fm_os :: "nat \<Rightarrow> nat" where
  "fm_os n = 4096 + 65536 * n"

definition fm_start :: frame_cache where
  "fm_start = frame_malloc_per_worker_init 0 (frame_malloc_global_init
     \<lparr>fm_lock = mutex_init, cdr = \<lambda>_. 0, pool_list = [], pool_begin = 0, pool_end = 0, global_free_list = \<lambda>_. 0, batch_size = 0,
      potential_limit = 0, check_for_leaks = False, allocated_from_os = 0, wasted = 0, allocated_from_global_pool = 0,
      free_list = \<lambda>_ _. 0, bucket_potential = \<lambda>_ _. 0\<rparr>)"

lemma fm_os_ok: "os_ok fm_os"
proof -
  have "fm_os m + FRAME_MALLOC_CHUNK \<le> fm_os n" if "m < n" for m n using that by (simp add: fm_os_def FRAME_MALLOC_CHUNK_def)
  then have "{fm_os m ..< fm_os m + FRAME_MALLOC_CHUNK} \<inter> {fm_os n ..< fm_os n + FRAME_MALLOC_CHUNK} = {}" if "m < n" for m n
    using that by fastforce
  then show ?thesis unfolding os_ok_def by (metis Int_commute fm_os_def add_gr_0 nat_neq_iff zero_less_numeral)
qed

lemma fm_start_reach: "fm_reach fm_os {0} {} fm_start"
  unfolding fm_start_def by (rule worker_init [OF global_init]) simp

theorem frame_malloc_fresh_witness:
  "\<exists>p s p' s'. frame_malloc fm_os (Some 0) 100 fm_start = Some (Inr (p, s)) \<and> frame_malloc fm_os (Some 0) 2000 s = Some (Inr (p', s')) \<and>
     {p' ..< p' + 2000} \<inter> {p ..< p + 100} = {}"
proof -
  obtain p s where 1: "frame_malloc fm_os (Some 0) 100 fm_start = Some (Inr (p, s))"
    using frame_malloc_fresh [OF fm_start_reach fm_os_ok, of 0 100] by (auto simp: FRAME_MALLOC_MAX_SIZE_def)
  have "fm_reach fm_os {0} {(p, 100)} s" by (rule malloc [OF fm_start_reach _ 1]) simp
  from frame_malloc_fresh [OF this fm_os_ok, of 0 2000] 1 show ?thesis by (simp add: FRAME_MALLOC_MAX_SIZE_def) blast
qed

lemmas fm_eval = global_alloc_def global_free_def push_def pop_def worker_push_def worker_pop_def add_potential_def extend_global_pool_def Let_def
  fm_mutex_lock_def fm_mutex_unlock_def mutex_lock_def mutex_unlock_def TRY_ACQUIRE_def RELEASE_def mutex_init_def
  FRAME_MALLOC_NBUCKETS_def FRAME_MALLOC_BUCKET_TO_SIZE_def FRAME_MALLOC_CHUNK_def fm_os_def

lemma fm_leak_batch:
  "\<exists>s. allocate_batch fm_os 0 5 2048 fm_start = Some s \<and> check_for_leaks s \<and> length (pool_list s) = 1 \<and> fm_lock s = mutex_init \<and>
     free_list s 0 = (\<lambda>_. 0)(5 := 10240) \<and> cdr s 10240 = 8192 \<and> cdr s 8192 = 6144 \<and> cdr s 6144 = 4096 \<and> cdr s 4096 = 0 \<and>
     global_free_list s = (\<lambda>_. 0)"
  unfolding allocate_batch_def fm_start_def frame_malloc_per_worker_init_def frame_malloc_global_init_def
  apply (simp add: fm_eval)
  apply (subst batch_loop.simps, simp add: fm_eval)
  apply (subst batch_loop.simps, simp add: fm_eval)
  apply (subst batch_loop.simps, simp add: fm_eval)
  apply (subst batch_loop.simps, simp add: fm_eval fun_eq_iff)
  done

lemma fm_leak_eval:
  "\<exists>p s s'. frame_malloc fm_os (Some 0) 2000 fm_start = Some (Inr (p, s)) \<and> frame_malloc_per_worker_cleanup 0 s = Some s' \<and>
     check_for_leaks s' \<and> length (pool_list s') = 1"
proof -
  obtain s where b: "allocate_batch fm_os 0 5 2048 fm_start = Some s" "check_for_leaks s" "length (pool_list s) = 1" "fm_lock s = mutex_init"
    "free_list s 0 = (\<lambda>_. 0)(5 := 10240)" "cdr s 10240 = 8192" "cdr s 8192 = 6144" "cdr s 6144 = 4096" "cdr s 4096 = 0"
    "global_free_list s = (\<lambda>_. 0)" using fm_leak_batch by blast
  let ?s = "s\<lparr>free_list := (free_list s)(0 := (free_list s 0)(5 := 8192))\<rparr>"
  have t: "worker_pop 0 5 fm_start = (0, fm_start)"
    by (simp add: fm_start_def frame_malloc_per_worker_init_def frame_malloc_global_init_def fm_eval fun_eq_iff)
  have "malloc_loop fm_os 0 5 2048 fm_start = malloc_loop fm_os 0 5 2048 s" by (subst malloc_loop.simps) (simp add: t b(1))
  also have "\<dots> = Some (10240, ?s)" by (subst malloc_loop.simps) (simp add: b worker_pop_def pop_def)
  finally have m: "frame_malloc fm_os (Some 0) 2000 fm_start = Some (Inr (10240, ?s))"
    by (simp add: frame_malloc_def FRAME_MALLOC_MAX_SIZE_def bucket_of_size_eq FRAME_MALLOC_BUCKET_TO_SIZE_def)
  have u: "[0..<6] = [0, 1, 2, 3, 4, 5::nat]" by (simp add: upt_rec)
  have "\<exists>s'. frame_malloc_per_worker_cleanup 0 ?s = Some s' \<and> check_for_leaks s' \<and> length (pool_list s') = 1"
    unfolding frame_malloc_per_worker_cleanup_def
    apply (simp add: fm_eval u move_bucket_to_global_free_list_def b)
    apply (subst move_loop.simps, simp add: fm_eval b)
    apply (subst move_loop.simps, simp add: fm_eval b)
    apply (subst move_loop.simps, simp add: fm_eval b)
    apply (subst move_loop.simps, simp add: fm_eval b)
    done
  then show ?thesis using m by blast
qed

theorem leak_check_exact_witness:
  "\<exists>p s s'. frame_malloc fm_os (Some 0) 2000 fm_start = Some (Inr (p, s)) \<and> frame_malloc_per_worker_cleanup 0 s = Some s' \<and>
     frame_malloc_global_cleanup s' = Some (Inl Memory_leak)"
proof -
  obtain p s s' where 1: "frame_malloc fm_os (Some 0) 2000 fm_start = Some (Inr (p, s))" "frame_malloc_per_worker_cleanup 0 s = Some s'"
    "check_for_leaks s'" "length (pool_list s') = 1"
    using fm_leak_eval by blast
  have "fm_reach fm_os ({0} - {0}) {(p, 2000)} s'"
    by (rule worker_cleanup [OF malloc [OF fm_start_reach _ 1(1)] _ 1(2)]) simp_all
  then have "fm_reach fm_os {} {(p, 2000)} s'" by simp
  from leak_check_exact [OF this fm_os_ok 1(3)] 1 show ?thesis by (simp add: FRAME_MALLOC_CHUNK_def)
qed

end
