(* ===== verification/THE_Protocol.thy ===== *)
theory THE_Protocol
  imports Worker_Mutex
begin

section \<open>The THE protocol (scheduler.c, cilk-abi.c, cilk\_fake.h)\<close>

text \<open>
  The deque of a worker: \<open>head\<close>, \<open>tail\<close> and \<open>exc\<close> (H, T and E in the comments of scheduler.c)
  over the array \<open>ltq\<close>. First the operations, one definition per C function, on the
  worker's record. Then the protocol itself: one victim that runs user code and any
  number of thieves, interleaved between any two accesses to the shared fields, under
  the sequentially consistent memory the fences of the code ask for. Two things the code
  does not check are guards of the steps, so that their violation is outside the model: a
  spawn finds room in the array (the store of \<^verbatim>\<open>__cilk_fake_detach\<close> is not compared with
  \<open>ltq_limit\<close>), and the victim undoes a detach only after it made one since its deque was
  last reset, as the code the compiler generates does.
\<close>

subsection \<open>Operations on H, T and E\<close>

definition EXC_INFINITY :: nat where
  "EXC_INFINITY = 2 ^ 64 - 1"

definition increment_E :: "('m, 'e) worker \<Rightarrow> ('m, 'e) worker" where
  "increment_E victim =
     (let tmp = exc victim in if tmp \<noteq> EXC_INFINITY then victim\<lparr>exc := tmp + 1\<rparr> else victim)"

definition decrement_E :: "('m, 'e) worker \<Rightarrow> ('m, 'e) worker" where
  "decrement_E victim =
     (let tmp = exc victim in if tmp \<noteq> EXC_INFINITY then victim\<lparr>exc := tmp - 1\<rparr> else victim)"

definition reset_THE_exception :: "('m, 'e) worker \<Rightarrow> ('m, 'e) worker" where
  "reset_THE_exception w = w\<lparr>exc := head w\<rparr>"

definition can_steal_from :: "('m, 'e) worker \<Rightarrow> bool" where
  "can_steal_from victim \<longleftrightarrow> head victim < tail victim \<and> head victim < protected_tail victim"

definition dekker_protocol :: "('m, 'e) worker \<Rightarrow> ('m, 'e) worker \<times> bool" where
  "dekker_protocol victim =
     (let victim1 = increment_E victim
      in if can_steal_from victim1 then (victim1, True) else (decrement_E victim1, False))"

definition restore_stealing :: "('m, 'e) worker \<Rightarrow> nat \<Rightarrow> ('m, 'e) worker" where
  "restore_stealing w saved_protected_tail = w\<lparr>protected_tail := saved_protected_tail\<rparr>"

text \<open>A null \<^verbatim>\<open>new_protected_tail\<close> stands for the start of the array. Returns the old value.\<close>

definition disallow_stealing ::
    "('m, 'e) worker \<Rightarrow> nat option \<Rightarrow> ('m, 'e) worker \<times> nat" where
  "disallow_stealing w new_protected_tail =
     (let saved_protected_tail = protected_tail w;
          npt = (case new_protected_tail of None \<Rightarrow> ltq w | Some p \<Rightarrow> p)
      in if protected_tail w > npt then (w\<lparr>protected_tail := npt\<rparr>, saved_protected_tail)
         else (w, saved_protected_tail))"

text \<open>
  The two stores by which a spawn helper publishes its parent
  (\<^verbatim>\<open>*tail++ = sf->call_parent; w->tail = tail\<close> of \<^verbatim>\<open>__cilk_fake_detach\<close>).
\<close>

definition detach_store :: "('m, 'e) worker \<Rightarrow> sfptr \<Rightarrow> ('m, 'e) worker" where
  "detach_store w sf = w\<lparr>ltq_slot := (ltq_slot w)(tail w := Some sf)\<rparr>"

definition detach_publish :: "('m, 'e) worker \<Rightarrow> ('m, 'e) worker" where
  "detach_publish w = w\<lparr>tail := tail w + 1\<rparr>"

text \<open>
  \<^verbatim>\<open>__cilkrts_undo_detach\<close>: the decrement of T, then the test that says whether it failed;
  the flag \<^verbatim>\<open>CILK_FRAME_DETACHED\<close> of the returning frame is cleared in between.
\<close>

definition undo_detach_dec :: "('m, 'e) worker \<Rightarrow> ('m, 'e) worker" where
  "undo_detach_dec w = w\<lparr>tail := tail w - 1\<rparr>"

definition undo_detach_failed :: "('m, 'e) worker \<Rightarrow> bool" where
  "undo_detach_failed w \<longleftrightarrow> tail w < exc w"

definition undo_detach ::
    "('m, 'e) worker \<Rightarrow> stack_frame \<Rightarrow> (('m, 'e) worker \<times> stack_frame) \<times> bool" where
  "undo_detach w sf =
     (let w1 = undo_detach_dec w;
          sf1 = sf\<lparr>flags := clear_flag (flags sf) CILK_FRAME_DETACHED\<rparr>
      in ((w1, sf1), undo_detach_failed w1))"

text \<open>
  The part of \<^verbatim>\<open>__cilkrts_c_THE_exception_check\<close> that works on the deque, under the worker's
  lock: the new deque and \<open>stolen_p\<close>.
\<close>

definition THE_check :: "('m, 'e) worker \<Rightarrow> ('m, 'e) worker \<times> bool" where
  "THE_check w =
     (let w1 = reset_THE_exception w;
          stolen_p = (\<not> head w1 < tail w1 + 1)
      in if stolen_p then (w1\<lparr>tail := tail w1 + 1\<rparr>, True) else (w1, False))"

text \<open>The body of \<^verbatim>\<open>__cilkrts_pop_tail\<close>, and of \<^verbatim>\<open>simulate_pop_tail\<close> for replay.\<close>

definition pop_tail :: "('m, 'e) worker \<Rightarrow> ('m, 'e) worker \<times> sfptr option" where
  "pop_tail w =
     (let t = tail w
      in if head w < t then (w\<lparr>tail := t - 1\<rparr>, ltq_slot w (t - 1)) else (w, None))"

definition simulate_pop_tail :: "('m, 'e) worker \<Rightarrow> sfptr option" where
  "simulate_pop_tail w = (if head w < tail w then ltq_slot w (tail w - 1) else None)"

text \<open>What \<^verbatim>\<open>setup_for_execution\<close> does to the deque, under the worker's lock.\<close>

definition reset_deque :: "('m, 'e) worker \<Rightarrow> ('m, 'e) worker" where
  "reset_deque w = reset_THE_exception (w\<lparr>head := ltq w, tail := ltq w\<rparr>)"

text \<open>
  \<^verbatim>\<open>make_worker\<close>: \<open>base\<close> is the (non-null) address \<^verbatim>\<open>__cilkrts_malloc\<close> returns for the array of
  \<open>ltqsize\<close> slots; a slot holds no frame before the first spawn. The fiber pool, the
  statistics and the replay log of the worker are not part of the model.
\<close>

definition make_worker :: "nat \<Rightarrow> int \<Rightarrow> nat \<Rightarrow> ('m, 'e) worker" where
  "make_worker ltqsize slf base =
     reset_THE_exception (restore_stealing
       \<lparr>worker_magic_0 = WORKER_MAGIC_0, w_lock = mutex_init, do_not_steal = False,
        steal_lock = mutex_init, frame_ff = None, next_frame_ff = None, last_full_frame = None,
        team = None, wtype = WORKER_FREE, ltq = base, ltq_slot = (\<lambda>_. None),
        scheduling_fiber = None, original_pedigree_leaf = None, rand_seed = 0,
        post_suspend = None, suspended_stack = None, fiber_to_free = None,
        w_pending_exception = None, steal_failure_count = 0, has_stolen = False,
        work_stolen = False, signal_node = None, worker_magic_1 = WORKER_MAGIC_1,
        tail = base, head = base, exc = 0, protected_tail = 0, ltq_limit = base + ltqsize,
        self = slf, reducer_map = None, current_stack_frame = None,
        w_pedigree = \<lparr>rank = 0, ped_parent = None\<rparr>\<rparr>
       (base + ltqsize))"

subsection \<open>The interleaved system\<close>

text \<open>
  The victim: \<open>V_run\<close> executes user code; \<open>V_store sf\<close> has stored a slot and not yet
  incremented T; \<open>V_undo\<close> has decremented T in \<^verbatim>\<open>__cilkrts_undo_detach\<close> and not yet read E;
  \<open>V_check\<close> has seen T < E and waits for its lock in \<^verbatim>\<open>__cilkrts_c_THE_exception_check\<close>;
  \<open>V_locked\<close> has the lock; \<open>V_gone\<close> found its parent stolen and is in the scheduler.

  A thief: \<open>T_lock\<close> holds the victim's lock; \<open>T_inc\<close> has incremented E; \<open>T_tail\<close> has read T
  in the first conjunct of \<open>can_steal_from\<close> and found H below it, and has still to read the
  protected tail; \<open>T_ok\<close> and \<open>T_no\<close> are the two outcomes; \<open>T_took h\<close> has set H to \<open>h + 1\<close> in
  \<^verbatim>\<open>detach_for_steal\<close> and not yet read the slot \<open>h\<close>; \<open>T_unlock\<close> is about to release.
\<close>

datatype victim_pc = V_run | V_store sfptr | V_undo | V_check | V_locked | V_gone

datatype thief_pc = T_idle | T_lock | T_inc | T_tail | T_ok | T_no | T_took nat | T_unlock

text \<open>
  \<open>holder\<close> is who holds the victim's worker lock: nobody, the victim, or a thief.
  \<open>pushed\<close>, \<open>popped\<close> and \<open>stolen\<close> record the frames the victim made available, the
  frames it got back, and the frames thieves took.
\<close>

datatype agent = Victim | Thief wptr

record ('m, 'e) the_sys =
  vw :: "('m, 'e) worker"
  vpc :: victim_pc
  tpc :: "wptr \<Rightarrow> thief_pc"
  holder :: "agent option"
  pushed :: "sfptr list"
  popped :: "sfptr list"
  stolen :: "sfptr list"

abbreviation set_tpc :: "wptr \<Rightarrow> thief_pc \<Rightarrow> ('m, 'e) the_sys \<Rightarrow> ('m, 'e) the_sys" where
  "set_tpc i p s \<equiv> s\<lparr>tpc := (tpc s)(i := p)\<rparr>"

inductive the_step :: "('m, 'e) the_sys \<Rightarrow> ('m, 'e) the_sys \<Rightarrow> bool" where
  push_store: "\<lbrakk>vpc s = V_run; tail (vw s) < ltq_limit (vw s)\<rbrakk>
    \<Longrightarrow> the_step s (s\<lparr>vw := detach_store (vw s) sf, vpc := V_store sf\<rparr>)"
| push_publish: "vpc s = V_store sf
    \<Longrightarrow> the_step s (s\<lparr>vw := detach_publish (vw s), vpc := V_run, pushed := sf # pushed s\<rparr>)"
| undo: "\<lbrakk>vpc s = V_run; ltq (vw s) < tail (vw s)\<rbrakk>
    \<Longrightarrow> the_step s (s\<lparr>vw := undo_detach_dec (vw s), vpc := V_undo\<rparr>)"
| undo_ok: "\<lbrakk>vpc s = V_undo; \<not> undo_detach_failed (vw s); ltq_slot (vw s) (tail (vw s)) = Some sf\<rbrakk>
    \<Longrightarrow> the_step s (s\<lparr>vpc := V_run, popped := sf # popped s\<rparr>)"
| undo_fail: "\<lbrakk>vpc s = V_undo; undo_detach_failed (vw s)\<rbrakk>
    \<Longrightarrow> the_step s (s\<lparr>vpc := V_check\<rparr>)"
| check_lock: "\<lbrakk>vpc s = V_check; holder s = None\<rbrakk>
    \<Longrightarrow> the_step s (s\<lparr>vpc := V_locked, holder := Some Victim\<rparr>)"
| check_kept: "\<lbrakk>vpc s = V_locked; THE_check (vw s) = (w', False);
      ltq_slot (vw s) (tail (vw s)) = Some sf\<rbrakk>
    \<Longrightarrow> the_step s (s\<lparr>vw := w', vpc := V_run, holder := None, popped := sf # popped s\<rparr>)"
| check_stolen: "\<lbrakk>vpc s = V_locked; THE_check (vw s) = (w', True)\<rbrakk>
    \<Longrightarrow> the_step s (s\<lparr>vw := w', vpc := V_gone, holder := None\<rparr>)"
| pop_locked: "\<lbrakk>vpc s = V_run; holder s = None; pop_tail (vw s) = (w', Some sf)\<rbrakk>
    \<Longrightarrow> the_step s (s\<lparr>vw := w', popped := sf # popped s\<rparr>)"
| resume: "\<lbrakk>vpc s = V_gone; holder s = None\<rbrakk>
    \<Longrightarrow> the_step s (s\<lparr>vw := reset_deque (vw s), vpc := V_run\<rparr>)"
| protect: "vpc s = V_run \<Longrightarrow> the_step s (s\<lparr>vw := fst (disallow_stealing (vw s) npt)\<rparr>)"
| unprotect: "vpc s = V_run \<Longrightarrow> the_step s (s\<lparr>vw := restore_stealing (vw s) pt\<rparr>)"
| thief_lock: "\<lbrakk>tpc s i = T_idle; holder s = None\<rbrakk>
    \<Longrightarrow> the_step s (set_tpc i T_lock (s\<lparr>holder := Some (Thief i)\<rparr>))"
| thief_inc: "tpc s i = T_lock
    \<Longrightarrow> the_step s (set_tpc i T_inc (s\<lparr>vw := increment_E (vw s)\<rparr>))"
| thief_tail: "\<lbrakk>tpc s i = T_inc; head (vw s) < tail (vw s)\<rbrakk>
    \<Longrightarrow> the_step s (set_tpc i T_tail s)"
| thief_empty: "\<lbrakk>tpc s i = T_inc; \<not> head (vw s) < tail (vw s)\<rbrakk>
    \<Longrightarrow> the_step s (set_tpc i T_no s)"
| thief_ok: "\<lbrakk>tpc s i = T_tail; head (vw s) < protected_tail (vw s)\<rbrakk>
    \<Longrightarrow> the_step s (set_tpc i T_ok s)"
| thief_protected: "\<lbrakk>tpc s i = T_tail; \<not> head (vw s) < protected_tail (vw s)\<rbrakk>
    \<Longrightarrow> the_step s (set_tpc i T_no s)"
| thief_dec: "tpc s i = T_no
    \<Longrightarrow> the_step s (set_tpc i T_unlock (s\<lparr>vw := decrement_E (vw s)\<rparr>))"
| thief_mismatch: "tpc s i = T_ok
    \<Longrightarrow> the_step s (set_tpc i T_unlock (s\<lparr>vw := decrement_E (vw s)\<rparr>))"
| thief_take: "tpc s i = T_ok
    \<Longrightarrow> the_step s (set_tpc i (T_took (head (vw s)))
          (s\<lparr>vw := (vw s)\<lparr>head := head (vw s) + 1\<rparr>\<rparr>))"
| thief_read: "\<lbrakk>tpc s i = T_took h; ltq_slot (vw s) h = Some sf\<rbrakk>
    \<Longrightarrow> the_step s (set_tpc i T_unlock (s\<lparr>stolen := sf # stolen s\<rparr>))"
| thief_unlock: "tpc s i = T_unlock
    \<Longrightarrow> the_step s (set_tpc i T_idle (s\<lparr>holder := None\<rparr>))"

text \<open>
  The start: a deque as \<^verbatim>\<open>make_worker\<close> builds it, its array inside the address space, the
  victim in user code and nobody in the protocol.
\<close>

definition the_boot :: "nat \<Rightarrow> int \<Rightarrow> nat \<Rightarrow> ('m, 'e) the_sys" where
  "the_boot ltqsize slf base =
     \<lparr>vw = make_worker ltqsize slf base, vpc = V_run, tpc = (\<lambda>_. T_idle), holder = None,
      pushed = [], popped = [], stolen = []\<rparr>"

definition the_init :: "('m, 'e) the_sys \<Rightarrow> bool" where
  "the_init s \<longleftrightarrow> (\<exists>ltqsize slf base.
     s = the_boot ltqsize slf base \<and> 1 \<le> base \<and> base + ltqsize < EXC_INFINITY - 1)"

inductive the_reachable :: "('m, 'e) the_sys \<Rightarrow> bool" where
  start: "the_init s \<Longrightarrow> the_reachable s"
| step: "the_reachable s \<Longrightarrow> the_step s t \<Longrightarrow> the_reachable t"


subsection \<open>Lemmas on the operations\<close>

lemmas the_op_defs =
  increment_E_def decrement_E_def reset_THE_exception_def can_steal_from_def
  restore_stealing_def disallow_stealing_def detach_store_def detach_publish_def
  undo_detach_dec_def undo_detach_failed_def THE_check_def pop_tail_def reset_deque_def

lemma THE_check_cases:
  assumes "THE_check w = (w', b)"
  shows "b \<longleftrightarrow> tail w + 1 \<le> head w"
    and "w' = w\<lparr>exc := head w, tail := (if b then tail w + 1 else tail w)\<rparr>"
  using assms by (auto simp: THE_check_def reset_THE_exception_def Let_def split: if_splits)

lemma disallow_stealing_fields [simp]:
  "head (fst (disallow_stealing w npt)) = head w"
  "tail (fst (disallow_stealing w npt)) = tail w"
  "exc (fst (disallow_stealing w npt)) = exc w"
  "ltq (fst (disallow_stealing w npt)) = ltq w"
  "ltq_slot (fst (disallow_stealing w npt)) = ltq_slot w"
  "ltq_limit (fst (disallow_stealing w npt)) = ltq_limit w"
  by (simp_all add: disallow_stealing_def Let_def)

subsection \<open>The invariant of the protocol\<close>

text \<open>The position of the thief that holds the lock, and whether it has raised E.\<close>

fun holder_pc :: "agent option \<Rightarrow> (wptr \<Rightarrow> thief_pc) \<Rightarrow> thief_pc" where
  "holder_pc (Some (Thief i)) pcs = pcs i"
| "holder_pc _ pcs = T_idle"

definition tst :: "('m, 'e) the_sys \<Rightarrow> thief_pc" where
  "tst s = holder_pc (holder s) (tpc s)"

definition raised :: "thief_pc \<Rightarrow> bool" where
  "raised p \<longleftrightarrow> p = T_inc \<or> p = T_tail \<or> p = T_ok \<or> p = T_no"

lemma raised_simps [simp]:
  "raised T_inc" "raised T_tail" "raised T_ok" "raised T_no"
  "\<not> raised T_idle" "\<not> raised T_lock" "\<not> raised (T_took h)" "\<not> raised T_unlock"
  by (simp_all add: raised_def)

text \<open>
  Between the decrement of T and the outcome of the race the slot at T still belongs to
  the deque: \<open>dq_top\<close> is the end of the slots not yet taken by anybody.
\<close>

definition in_transit :: "victim_pc \<Rightarrow> bool" where
  "in_transit p \<longleftrightarrow> p = V_undo \<or> p = V_check \<or> p = V_locked"

lemma in_transit_simps [simp]:
  "in_transit V_undo" "in_transit V_check" "in_transit V_locked"
  "\<not> in_transit V_run" "\<not> in_transit (V_store sf)" "\<not> in_transit V_gone"
  by (simp_all add: in_transit_def)

definition dq_top :: "('m, 'e) the_sys \<Rightarrow> nat" where
  "dq_top s = (if in_transit (vpc s) then tail (vw s) + 1 else tail (vw s))"

definition slots :: "('m, 'e) worker \<Rightarrow> nat \<Rightarrow> nat \<Rightarrow> sfptr list" where
  "slots w h t = map (\<lambda>i. the (ltq_slot w i)) [h..<t]"

fun flight :: "thief_pc \<Rightarrow> (nat \<Rightarrow> sfptr option) \<Rightarrow> sfptr list" where
  "flight (T_took h) sl = [the (sl h)]"
| "flight _ sl = []"

definition in_flight :: "('m, 'e) the_sys \<Rightarrow> sfptr list" where
  "in_flight s = flight (tst s) (ltq_slot (vw s))"

definition inv_lock :: "('m, 'e) the_sys \<Rightarrow> bool" where
  "inv_lock s \<longleftrightarrow>
     (\<forall>i. tpc s i \<noteq> T_idle \<longleftrightarrow> holder s = Some (Thief i)) \<and>
     (vpc s = V_locked \<longleftrightarrow> holder s = Some Victim)"

definition inv_ptrs :: "('m, 'e) the_sys \<Rightarrow> bool" where
  "inv_ptrs s \<longleftrightarrow>
     1 \<le> ltq (vw s) \<and> ltq (vw s) \<le> head (vw s) \<and> head (vw s) \<le> dq_top s \<and>
     ltq (vw s) \<le> tail (vw s) \<and>
     dq_top s \<le> ltq_limit (vw s) \<and> ltq_limit (vw s) < EXC_INFINITY - 1 \<and>
     exc (vw s) = head (vw s) + (if raised (tst s) then 1 else 0)"

definition inv_pcs :: "('m, 'e) the_sys \<Rightarrow> bool" where
  "inv_pcs s \<longleftrightarrow>
     (\<forall>sf. vpc s = V_store sf \<longrightarrow>
        tail (vw s) < ltq_limit (vw s) \<and> ltq_slot (vw s) (tail (vw s)) = Some sf) \<and>
     (vpc s = V_gone \<longrightarrow> head (vw s) = tail (vw s)) \<and>
     (tst s = T_tail \<or> tst s = T_ok \<longrightarrow> head (vw s) < dq_top s) \<and>
     (\<forall>h. tst s = T_took h \<longrightarrow> head (vw s) = h + 1 \<and> ltq_slot (vw s) h \<noteq> None)"

definition inv_slots :: "('m, 'e) the_sys \<Rightarrow> bool" where
  "inv_slots s \<longleftrightarrow> (\<forall>i. head (vw s) \<le> i \<and> i < dq_top s \<longrightarrow> ltq_slot (vw s) i \<noteq> None)"

definition inv_frames :: "('m, 'e) the_sys \<Rightarrow> bool" where
  "inv_frames s \<longleftrightarrow>
     mset (pushed s) = mset (popped s) + mset (stolen s) + mset (in_flight s)
       + mset (slots (vw s) (head (vw s)) (dq_top s))"

definition the_inv :: "('m, 'e) the_sys \<Rightarrow> bool" where
  "the_inv s \<longleftrightarrow> inv_lock s \<and> inv_ptrs s \<and> inv_pcs s \<and> inv_slots s \<and> inv_frames s"

lemmas the_inv_parts =
  inv_lock_def inv_ptrs_def inv_pcs_def inv_slots_def inv_frames_def

lemma the_inv_init: "the_init s \<Longrightarrow> the_inv s"
  by (auto simp: the_init_def the_boot_def make_worker_def restore_stealing_def
      reset_THE_exception_def the_inv_def the_inv_parts dq_top_def tst_def in_flight_def slots_def)

text \<open>Whoever is inside the protocol is the holder of the lock, so \<open>tst\<close> is its position.\<close>

lemma tst_thief: "inv_lock s \<Longrightarrow> tpc s i \<noteq> T_idle \<Longrightarrow> holder s = Some (Thief i) \<and> tst s = tpc s i"
  by (auto simp: inv_lock_def tst_def)

lemma tst_upd [simp]:
  "tst (s\<lparr>vw := x\<rparr>) = tst s" "tst (s\<lparr>vpc := v\<rparr>) = tst s" "tst (s\<lparr>pushed := a\<rparr>) = tst s"
  "tst (s\<lparr>popped := a\<rparr>) = tst s" "tst (s\<lparr>stolen := a\<rparr>) = tst s"
  by (simp_all add: tst_def)

lemma tst_free: "inv_lock s \<Longrightarrow> holder s = None \<Longrightarrow> tst s = T_idle"
  by (simp add: tst_def)

lemma tst_victim: "inv_lock s \<Longrightarrow> vpc s = V_locked \<Longrightarrow> tst s = T_idle"
  by (simp add: tst_def inv_lock_def)

lemma slots_upd_outside:
  "(\<And>i. h \<le> i \<Longrightarrow> i < t \<Longrightarrow> i \<noteq> j) \<Longrightarrow>
   slots (w\<lparr>ltq_slot := (ltq_slot w)(j := v)\<rparr>) h t = slots w h t"
  by (auto simp: slots_def)

lemma slots_snoc: "h \<le> t \<Longrightarrow> slots w h (Suc t) = slots w h t @ [the (ltq_slot w t)]"
  by (simp add: slots_def)

lemma slots_cons: "h < t \<Longrightarrow> slots w h t = the (ltq_slot w h) # slots w (Suc h) t"
  by (simp add: slots_def upt_conv_Cons)

lemma slots_cong: "ltq_slot w = ltq_slot w' \<Longrightarrow> slots w h t = slots w' h t"
  by (simp add: slots_def)

lemma slots_upd [simp]:
  "slots (w\<lparr>tail := a\<rparr>) h t = slots w h t" "slots (w\<lparr>head := a\<rparr>) h t = slots w h t"
  "slots (w\<lparr>exc := a\<rparr>) h t = slots w h t"
  by (simp_all add: slots_def)



subsection \<open>Steps of the victim\<close>

lemma the_inv_ptrsD:
  assumes "the_inv s"
  shows "1 \<le> ltq (vw s)" "ltq (vw s) \<le> head (vw s)" "head (vw s) \<le> dq_top s"
    "ltq (vw s) \<le> tail (vw s)" "dq_top s \<le> ltq_limit (vw s)" "ltq_limit (vw s) < EXC_INFINITY - 1"
    "exc (vw s) = head (vw s) + (if raised (tst s) then 1 else 0)"
  using assms by (auto simp: the_inv_def inv_ptrs_def)

text \<open>Steps of the victim that leave H, E, the lock and the slots in play alone.\<close>

lemma the_inv_victim:
  assumes inv: "the_inv s"
    and t: "holder t = holder s" "tpc t = tpc s" "pushed t = pushed s" "popped t = popped s"
      "stolen t = stolen s" "head (vw t) = head (vw s)" "exc (vw t) = exc (vw s)"
      "ltq (vw t) = ltq (vw s)" "ltq_limit (vw t) = ltq_limit (vw s)"
      "ltq_slot (vw t) = ltq_slot (vw s)" "dq_top t = dq_top s" "ltq (vw s) \<le> tail (vw t)"
    and pcs: "vpc t = V_locked \<longleftrightarrow> vpc s = V_locked" "vpc t \<noteq> V_gone" "\<And>sf. vpc t \<noteq> V_store sf"
  shows "the_inv t"
proof -
  have "tst t = tst s" using t(1,2) by (simp add: tst_def)
  with inv t pcs show ?thesis
    by (auto simp: the_inv_def the_inv_parts in_flight_def slots_def)
qed

lemma step_undo:
  assumes inv: "the_inv s" and r: "vpc s = V_run" "ltq (vw s) < tail (vw s)"
  shows "the_inv (s\<lparr>vw := undo_detach_dec (vw s), vpc := V_undo\<rparr>)"
  using inv r by (intro the_inv_victim [OF inv]) (auto simp: undo_detach_dec_def dq_top_def)

lemma step_undo_fail:
  assumes inv: "the_inv s" and r: "vpc s = V_undo"
  shows "the_inv (s\<lparr>vpc := V_check\<rparr>)"
  using inv r the_inv_ptrsD [OF inv] by (intro the_inv_victim [OF inv]) (auto simp: dq_top_def)

lemma step_protect:
  assumes inv: "the_inv s" and r: "vpc s = V_run"
  shows "the_inv (s\<lparr>vw := fst (disallow_stealing (vw s) npt)\<rparr>)"
  using inv r the_inv_ptrsD [OF inv] by (intro the_inv_victim [OF inv]) (auto simp: dq_top_def)

lemma step_unprotect:
  assumes inv: "the_inv s" and r: "vpc s = V_run"
  shows "the_inv (s\<lparr>vw := restore_stealing (vw s) pt\<rparr>)"
  using inv r the_inv_ptrsD [OF inv]
  by (intro the_inv_victim [OF inv]) (auto simp: dq_top_def restore_stealing_def)

lemma step_push_store:
  assumes inv: "the_inv s" and r: "vpc s = V_run" "tail (vw s) < ltq_limit (vw s)"
  shows "the_inv (s\<lparr>vw := detach_store (vw s) sf, vpc := V_store sf\<rparr>)"
proof -
  let ?t = "s\<lparr>vw := detach_store (vw s) sf, vpc := V_store sf\<rparr>"
  have tst: "tst ?t = tst s" by simp
  have top: "dq_top ?t = dq_top s" "dq_top s = tail (vw s)" using r by (simp_all add: dq_top_def detach_store_def)
  have took: "h < tail (vw s)" if "tst s = T_took h" for h
    using that inv top by (auto simp: the_inv_def inv_pcs_def inv_ptrs_def)
  have fl: "in_flight ?t = in_flight s"
    using took by (cases "tst s") (auto simp: in_flight_def tst detach_store_def)
  have sl: "slots (detach_store (vw s) sf) h (dq_top s) = slots (vw s) h (dq_top s)" for h
    using top(2) by (simp add: detach_store_def slots_upd_outside)
  show ?thesis
    using inv r fl sl took top
    by (auto simp: the_inv_def the_inv_parts tst detach_store_def)
qed

lemma step_push_publish:
  assumes inv: "the_inv s" and r: "vpc s = V_store sf"
  shows "the_inv (s\<lparr>vw := detach_publish (vw s), vpc := V_run, pushed := sf # pushed s\<rparr>)"
proof -
  let ?t = "s\<lparr>vw := detach_publish (vw s), vpc := V_run, pushed := sf # pushed s\<rparr>"
  have tst: "tst ?t = tst s" by simp
  have top: "dq_top ?t = Suc (dq_top s)" "dq_top s = tail (vw s)"
    using r by (simp_all add: dq_top_def detach_publish_def)
  have fl: "in_flight ?t = in_flight s"
    by (simp add: in_flight_def tst detach_publish_def)
  have slot: "ltq_slot (vw s) (dq_top s) = Some sf" "tail (vw s) < ltq_limit (vw s)"
    using inv r top by (auto simp: the_inv_def inv_pcs_def)
  have sl: "slots (detach_publish (vw s)) (head (vw s)) (Suc (dq_top s)) =
      slots (vw s) (head (vw s)) (dq_top s) @ [sf]"
    using the_inv_ptrsD(3) [OF inv] slot
    by (simp add: slots_snoc detach_publish_def)
  have "inv_frames ?t"
    using inv fl sl top by (simp add: the_inv_def inv_frames_def detach_publish_def)
  moreover have "inv_slots ?t"
    using inv slot top by (auto simp: the_inv_def inv_slots_def detach_publish_def less_Suc_eq)
  ultimately show ?thesis
    using inv r top slot by (auto simp: the_inv_def inv_lock_def inv_ptrs_def inv_pcs_def tst detach_publish_def)
qed


text \<open>Getting the frame back, without the lock, under it, and by \<open>pop_tail\<close>.\<close>

lemma the_inv_pop:
  assumes inv: "the_inv s" and tail: "head (vw s) \<le> k" "dq_top s = Suc k"
    and slot: "ltq_slot (vw s) k = Some sf"
    and lock: "inv_lock t"
    and ok: "tst s = T_tail \<or> tst s = T_ok \<Longrightarrow> head (vw s) < k"
    and t: "tpc t = tpc s" "vpc t = V_run" "pushed t = pushed s" "stolen t = stolen s"
      "popped t = sf # popped s" "tst t = tst s"
    and w: "head (vw t) = head (vw s)" "exc (vw t) = exc (vw s)" "tail (vw t) = k"
      "ltq (vw t) = ltq (vw s)" "ltq_limit (vw t) = ltq_limit (vw s)" "ltq_slot (vw t) = ltq_slot (vw s)"
  shows "the_inv t"
proof -
  have dq: "dq_top t = k" using t w by (simp add: dq_top_def)
  have "slots (vw s) (head (vw s)) (dq_top s) = slots (vw s) (head (vw s)) k @ [sf]"
    using tail slot by (simp add: slots_snoc)
  then have "inv_frames t"
    using inv t w dq by (simp add: the_inv_def inv_frames_def in_flight_def slots_def)
  moreover have "inv_slots t"
    using inv w dq tail by (simp add: the_inv_def inv_slots_def)
  moreover have "inv_ptrs t"
    using inv w t dq tail by (auto simp: the_inv_def inv_ptrs_def)
  moreover have "inv_pcs t"
    using inv w t dq tail ok by (auto simp: the_inv_def inv_pcs_def)
  ultimately show ?thesis using lock by (simp add: the_inv_def)
qed

lemma step_undo_ok:
  assumes inv: "the_inv s" and r: "vpc s = V_undo" "\<not> undo_detach_failed (vw s)"
    "ltq_slot (vw s) (tail (vw s)) = Some sf"
  shows "the_inv (s\<lparr>vpc := V_run, popped := sf # popped s\<rparr>)"
proof -
  have "inv_lock (s\<lparr>vpc := V_run, popped := sf # popped s\<rparr>)"
    using inv r by (simp add: the_inv_def inv_lock_def)
  then show ?thesis
    using r the_inv_ptrsD [OF inv]
    by (intro the_inv_pop [OF inv, of "tail (vw s)"])
      (auto simp: undo_detach_failed_def dq_top_def split: if_splits)
qed

lemma all_idle: "the_inv s \<Longrightarrow> holder s = None \<or> holder s = Some Victim \<Longrightarrow> tpc s i = T_idle"
  by (auto simp: the_inv_def inv_lock_def)

lemma step_check_kept:
  assumes inv: "the_inv s" and r: "vpc s = V_locked" "THE_check (vw s) = (w', False)"
    "ltq_slot (vw s) (tail (vw s)) = Some sf"
  shows "the_inv (s\<lparr>vw := w', vpc := V_run, holder := None, popped := sf # popped s\<rparr>)"
proof -
  have h: "holder s = Some Victim" using inv r by (simp add: the_inv_def inv_lock_def)
  then have tst: "tst s = T_idle" by (simp add: tst_def)
  have "inv_lock (s\<lparr>vw := w', vpc := V_run, holder := None, popped := sf # popped s\<rparr>)"
    using all_idle [OF inv] h by (simp add: inv_lock_def)
  then show ?thesis
    using r THE_check_cases [OF r(2)] the_inv_ptrsD [OF inv] tst
    by (intro the_inv_pop [OF inv, of "tail (vw s)"]) (auto simp: dq_top_def tst_def)
qed

lemma step_pop_locked:
  assumes inv: "the_inv s" and r: "vpc s = V_run" "holder s = None" "pop_tail (vw s) = (w', Some sf)"
  shows "the_inv (s\<lparr>vw := w', popped := sf # popped s\<rparr>)"
proof -
  have tst: "tst s = T_idle" using r by (simp add: tst_def)
  have lt: "head (vw s) < tail (vw s)"
    and w': "w' = (vw s)\<lparr>tail := tail (vw s) - 1\<rparr>" "ltq_slot (vw s) (tail (vw s) - 1) = Some sf"
    using r(3) by (auto simp: pop_tail_def Let_def split: if_splits)
  have "inv_lock (s\<lparr>vw := w', popped := sf # popped s\<rparr>)"
    using inv by (simp add: the_inv_def inv_lock_def)
  then show ?thesis
    using r lt w' the_inv_ptrsD [OF inv] tst
    by (intro the_inv_pop [OF inv, of "tail (vw s) - 1"]) (auto simp: dq_top_def)
qed

lemma step_check_lock:
  assumes inv: "the_inv s" and r: "vpc s = V_check" "holder s = None"
  shows "the_inv (s\<lparr>vpc := V_locked, holder := Some Victim\<rparr>)"
proof -
  let ?t = "s\<lparr>vpc := V_locked, holder := Some Victim\<rparr>"
  have "tst s = T_idle" "tst ?t = T_idle" using r by (simp_all add: tst_def)
  moreover have "dq_top ?t = dq_top s" using r by (simp add: dq_top_def)
  ultimately show ?thesis
    using inv r by (auto simp: the_inv_def the_inv_parts in_flight_def)
qed

lemma step_check_stolen:
  assumes inv: "the_inv s" and r: "vpc s = V_locked" "THE_check (vw s) = (w', True)"
  shows "the_inv (s\<lparr>vw := w', vpc := V_gone, holder := None\<rparr>)"
proof -
  let ?t = "s\<lparr>vw := w', vpc := V_gone, holder := None\<rparr>"
  have h: "holder s = Some Victim" using inv r by (simp add: the_inv_def inv_lock_def)
  then have tst: "tst s = T_idle" "tst ?t = T_idle" by (simp_all add: tst_def)
  have w': "w' = (vw s)\<lparr>exc := head (vw s), tail := tail (vw s) + 1\<rparr>" "tail (vw s) + 1 \<le> head (vw s)"
    using THE_check_cases [OF r(2)] by auto
  then have "dq_top ?t = dq_top s" "dq_top s = tail (vw s) + 1" "head (vw s) = tail (vw s) + 1"
    using r the_inv_ptrsD [OF inv] by (auto simp: dq_top_def)
  then show ?thesis
    using inv r w' tst h all_idle [OF inv]
    by (auto simp: the_inv_def the_inv_parts in_flight_def slots_def)
qed

lemma step_resume:
  assumes inv: "the_inv s" and r: "vpc s = V_gone" "holder s = None"
  shows "the_inv (s\<lparr>vw := reset_deque (vw s), vpc := V_run\<rparr>)"
proof -
  have "tst s = T_idle" using r by (simp add: tst_def)
  moreover have "head (vw s) = dq_top s" using inv r by (simp add: the_inv_def inv_pcs_def dq_top_def)
  ultimately show ?thesis
    using inv r
    by (auto simp: the_inv_def the_inv_parts in_flight_def slots_def reset_deque_def
        reset_THE_exception_def dq_top_def)
qed



subsection \<open>Steps of a thief\<close>

lemma inv_lock_thief:
  assumes "inv_lock s" "tpc s i \<noteq> T_idle" "p \<noteq> T_idle"
    and "holder t = holder s" "vpc t = vpc s" "tpc t = (tpc s)(i := p)"
  shows "inv_lock t" "tst t = p" "tst s = tpc s i" "holder s = Some (Thief i)"
  using assms by (auto simp: inv_lock_def tst_def)

text \<open>A step of the holder that changes E and its own position only.\<close>

lemma the_inv_thief:
  assumes inv: "the_inv s" and i: "tpc s i \<noteq> T_idle" "p \<noteq> T_idle"
    and t: "t = set_tpc i p (s\<lparr>vw := (vw s)\<lparr>exc := e\<rparr>\<rparr>)"
    and e: "e = head (vw s) + (if raised p then 1 else 0)"
    and fl: "\<And>h. p \<noteq> T_took h" "\<And>h. tpc s i \<noteq> T_took h"
    and ok: "p = T_tail \<or> p = T_ok \<Longrightarrow> head (vw s) < dq_top s"
  shows "the_inv t"
proof -
  have lock: "inv_lock t" and tst: "tst t = p" "tst s = tpc s i"
    using inv_lock_thief [of s i p t] inv i t by (simp_all add: the_inv_def)
  have dq: "dq_top t = dq_top s" using t by (simp add: dq_top_def)
  have "in_flight t = []" "in_flight s = []"
    using fl tst by (cases p; cases "tpc s i"; simp add: in_flight_def)+
  then have "inv_frames t"
    using inv t dq by (simp add: the_inv_def inv_frames_def)
  moreover have "inv_ptrs t" using inv t dq e tst by (simp add: the_inv_def inv_ptrs_def)
  moreover have "inv_slots t" using inv t dq by (simp add: the_inv_def inv_slots_def)
  moreover have "inv_pcs t"
    using inv t dq tst fl ok by (auto simp: the_inv_def inv_pcs_def)
  ultimately show ?thesis using lock by (simp add: the_inv_def)
qed

lemma exc_no_inf:
  assumes "the_inv s" shows "exc (vw s) \<noteq> EXC_INFINITY"
  using the_inv_ptrsD [OF assms] by (auto split: if_splits)

lemma upd_exc_same: "w\<lparr>exc := exc w\<rparr> = (w :: ('m, 'e) worker)"
  by (cases w) simp

lemma the_sys_upd_vw_same: "s\<lparr>vw := vw s\<rparr> = (s :: ('m, 'e) the_sys)"
  by (cases s) simp

lemma tst_at: "the_inv s \<Longrightarrow> tpc s i \<noteq> T_idle \<Longrightarrow> tst s = tpc s i"
  using tst_thief [of s i] by (simp add: the_inv_def)

lemma step_thief_inc:
  assumes inv: "the_inv s" and r: "tpc s i = T_lock"
  shows "the_inv (set_tpc i T_inc (s\<lparr>vw := increment_E (vw s)\<rparr>))"
  using r exc_no_inf [OF inv] tst_at [OF inv, of i] the_inv_ptrsD(7) [OF inv]
  by (intro the_inv_thief [OF inv, of i T_inc _ "exc (vw s) + 1"])
    (auto simp: increment_E_def Let_def)

lemma step_thief_dec:
  assumes inv: "the_inv s" and r: "tpc s i = T_no \<or> tpc s i = T_ok"
  shows "the_inv (set_tpc i T_unlock (s\<lparr>vw := decrement_E (vw s)\<rparr>))"
  using r exc_no_inf [OF inv] tst_at [OF inv, of i] the_inv_ptrsD(7) [OF inv]
  by (intro the_inv_thief [OF inv, of i T_unlock _ "exc (vw s) - 1"])
    (auto simp: decrement_E_def Let_def)

text \<open>
  The two reads of \<open>can_steal_from\<close>. Between them the victim may decrement T; it then finds E
  above T and waits for the lock, so the slot at H still belongs to the deque.
\<close>

lemma step_thief_look:
  assumes inv: "the_inv s" and r: "tpc s i = T_inc \<or> tpc s i = T_tail"
    and p: "p = T_tail \<and> head (vw s) < tail (vw s) \<or> p = T_ok \<and> tpc s i = T_tail \<or> p = T_no"
  shows "the_inv (set_tpc i p s)"
proof -
  have tst: "tst s = tpc s i" using tst_at [OF inv, of i] r by auto
  have "head (vw s) < dq_top s" if "p = T_tail \<or> p = T_ok"
    using that p tst inv by (auto simp: the_inv_def inv_pcs_def dq_top_def)
  then show ?thesis
    using r p tst the_inv_ptrsD(7) [OF inv]
    by (intro the_inv_thief [OF inv, of i p _ "exc (vw s)"])
      (auto simp: upd_exc_same the_sys_upd_vw_same)
qed

lemma step_thief_lock:
  assumes inv: "the_inv s" and r: "tpc s i = T_idle" "holder s = None"
  shows "the_inv (set_tpc i T_lock (s\<lparr>holder := Some (Thief i)\<rparr>))"
proof -
  let ?t = "set_tpc i T_lock (s\<lparr>holder := Some (Thief i)\<rparr>)"
  have "tst s = T_idle" "tst ?t = T_lock" using r by (simp_all add: tst_def)
  moreover have "dq_top ?t = dq_top s" by (simp add: dq_top_def)
  moreover have "inv_lock ?t"
    using inv r all_idle [OF inv] by (auto simp: the_inv_def inv_lock_def)
  ultimately show ?thesis
    using inv by (auto simp: the_inv_def inv_ptrs_def inv_pcs_def inv_slots_def inv_frames_def in_flight_def)
qed

lemma step_thief_unlock:
  assumes inv: "the_inv s" and r: "tpc s i = T_unlock"
  shows "the_inv (set_tpc i T_idle (s\<lparr>holder := None\<rparr>))"
proof -
  let ?t = "set_tpc i T_idle (s\<lparr>holder := None\<rparr>)"
  have l: "inv_lock s" using inv by (simp add: the_inv_def)
  have h: "holder s = Some (Thief i)" "tst s = T_unlock"
    using tst_thief [OF l, of i] r by simp_all
  moreover have "tst ?t = T_idle" by (simp add: tst_def)
  moreover have "dq_top ?t = dq_top s" by (simp add: dq_top_def)
  moreover have "inv_lock ?t"
    using l h by (auto simp: inv_lock_def)
  ultimately show ?thesis
    using inv by (auto simp: the_inv_def inv_ptrs_def inv_pcs_def inv_slots_def inv_frames_def in_flight_def)
qed

lemma step_thief_take:
  assumes inv: "the_inv s" and r: "tpc s i = T_ok"
  shows "the_inv (set_tpc i (T_took (head (vw s))) (s\<lparr>vw := (vw s)\<lparr>head := head (vw s) + 1\<rparr>\<rparr>))"
proof -
  let ?h = "head (vw s)"
  let ?t = "set_tpc i (T_took ?h) (s\<lparr>vw := (vw s)\<lparr>head := ?h + 1\<rparr>\<rparr>)"
  have lock: "inv_lock ?t" and tst: "tst ?t = T_took ?h" "tst s = T_ok"
    using inv_lock_thief [of s i "T_took ?h" ?t] inv r by (simp_all add: the_inv_def)
  have dq: "dq_top ?t = dq_top s" by (simp add: dq_top_def)
  have lt: "?h < dq_top s" using inv tst by (simp add: the_inv_def inv_pcs_def)
  have "slots (vw s) ?h (dq_top s) = the (ltq_slot (vw s) ?h) # slots (vw s) (Suc ?h) (dq_top s)"
    using lt by (rule slots_cons)
  then have "inv_frames ?t"
    using inv dq tst by (simp add: the_inv_def inv_frames_def in_flight_def)
  moreover have "inv_ptrs ?t" using inv dq tst lt by (auto simp: the_inv_def inv_ptrs_def)
  moreover have "inv_slots ?t" using inv dq by (auto simp: the_inv_def inv_slots_def)
  moreover have "inv_pcs ?t"
    using inv dq tst lt by (auto simp: the_inv_def inv_pcs_def inv_slots_def dq_top_def)
  ultimately show ?thesis using lock by (simp add: the_inv_def)
qed

lemma step_thief_read:
  assumes inv: "the_inv s" and r: "tpc s i = T_took h" "ltq_slot (vw s) h = Some sf"
  shows "the_inv (set_tpc i T_unlock (s\<lparr>stolen := sf # stolen s\<rparr>))"
proof -
  let ?t = "set_tpc i T_unlock (s\<lparr>stolen := sf # stolen s\<rparr>)"
  have lock: "inv_lock ?t" and tst: "tst ?t = T_unlock" "tst s = T_took h"
    using inv_lock_thief [of s i "T_unlock" ?t] inv r by (simp_all add: the_inv_def)
  moreover have "dq_top ?t = dq_top s" by (simp add: dq_top_def)
  ultimately show ?thesis
    using inv r(2)
    by (auto simp: the_inv_def inv_ptrs_def inv_pcs_def inv_slots_def inv_frames_def in_flight_def)
qed

lemma the_step_inv: "the_step s t \<Longrightarrow> the_inv s \<Longrightarrow> the_inv t"
  by (induction rule: the_step.induct)
    (blast intro: step_push_store step_push_publish step_undo step_undo_ok step_undo_fail
      step_check_lock step_check_kept step_check_stolen step_pop_locked step_resume step_protect
      step_unprotect step_thief_lock step_thief_inc step_thief_look step_thief_dec step_thief_take
      step_thief_read step_thief_unlock)+

lemma the_reachable_inv: "the_reachable s \<Longrightarrow> the_inv s"
  by (induction rule: the_reachable.induct) (auto intro: the_inv_init the_step_inv)


text \<open>A victim that has spawned once and whose deque nobody looks at.\<close>

definition one_frame :: "sfptr \<Rightarrow> ('m, 'e) the_sys \<Rightarrow> bool" where
  "one_frame sf s \<longleftrightarrow> the_reachable s \<and> vpc s = V_run \<and> holder s = None \<and> tpc s 0 = T_idle \<and>
     pushed s = [sf] \<and> popped s = [] \<and> stolen s = [] \<and> head (vw s) = ltq (vw s) \<and>
     tail (vw s) = ltq (vw s) + 1 \<and> head (vw s) < protected_tail (vw s) \<and>
     ltq_slot (vw s) (head (vw s)) = Some sf"

lemma one_frame_ex: "\<exists>s :: ('m, 'e) the_sys. one_frame sf s"
proof -
  let ?s = "the_boot 1024 0 1 :: ('m, 'e) the_sys"
  note boot = the_boot_def make_worker_def restore_stealing_def reset_THE_exception_def
  have "the_init ?s"
    unfolding the_init_def by (intro exI conjI) (rule refl, simp_all add: EXC_INFINITY_def)
  then have r0: "the_reachable ?s" by (rule the_reachable.start)
  let ?s1 = "?s\<lparr>vw := detach_store (vw ?s) sf, vpc := V_store sf\<rparr>"
  have r1: "the_reachable ?s1"
    by (intro the_reachable.step [OF r0] the_step.push_store) (simp_all add: boot)
  let ?s2 = "?s1\<lparr>vw := detach_publish (vw ?s1), vpc := V_run, pushed := sf # pushed ?s1\<rparr>"
  have "the_reachable ?s2"
    by (intro the_reachable.step [OF r1] the_step.push_publish) simp
  then have "one_frame sf ?s2"
    by (simp add: one_frame_def boot detach_store_def detach_publish_def)
  then show ?thesis by blast
qed

text \<open>A thief passes the protocol on it, takes the frame, and the victim then fails to get it back.\<close>

lemma one_frame_ok:
  fixes s :: "('m, 'e) the_sys"
  assumes s: "one_frame sf s"
  shows "\<exists>t :: ('m, 'e) the_sys. the_reachable t \<and> tpc t 0 = T_ok \<and> vpc t = V_run \<and>
    pushed t = [sf] \<and> popped t = [] \<and> stolen t = [] \<and> head (vw t) = ltq (vw t) \<and>
    tail (vw t) = ltq (vw t) + 1 \<and> ltq_slot (vw t) (head (vw t)) = Some sf"
proof -
  note f = s [unfolded one_frame_def]
  let ?s3 = "set_tpc 0 T_lock (s\<lparr>holder := Some (Thief 0)\<rparr>)"
  have r3: "the_reachable ?s3"
    using f by (intro the_reachable.step [OF _ the_step.thief_lock]) simp_all
  let ?s4 = "set_tpc 0 T_inc (?s3\<lparr>vw := increment_E (vw ?s3)\<rparr>)"
  have r4: "the_reachable ?s4"
    by (intro the_reachable.step [OF r3] the_step.thief_inc) simp
  have rt: "the_reachable (set_tpc 0 T_tail ?s4)"
    using f by (intro the_reachable.step [OF r4] the_step.thief_tail) (simp_all add: increment_E_def Let_def)
  have r5: "the_reachable (set_tpc 0 T_ok (set_tpc 0 T_tail ?s4))"
    using f by (intro the_reachable.step [OF rt] the_step.thief_ok) (simp_all add: increment_E_def Let_def)
  show ?thesis
    by (intro exI conjI, rule r5) (use f in \<open>auto simp: increment_E_def Let_def\<close>)
qed

lemma steal_run:
  "(\<exists>t :: ('m, 'e) the_sys. the_reachable t \<and> tpc t 0 = T_ok) \<and>
   (\<exists>t :: ('m, 'e) the_sys. the_reachable t \<and> in_transit (vpc t) \<and> head (vw t) = tail (vw t) + 1) \<and>
   (\<exists>t :: ('m, 'e) the_sys. the_reachable t \<and> pushed t = [sf] \<and> stolen t = [sf] \<and> popped t = [])"
proof -
  obtain s :: "('m, 'e) the_sys" where "one_frame sf s" using one_frame_ex by blast
  from one_frame_ok [OF this] obtain u :: "('m, 'e) the_sys" where r5: "the_reachable u"
    and u: "tpc u 0 = T_ok" "vpc u = V_run" "pushed u = [sf]" "popped u = []" "stolen u = []"
      "head (vw u) = ltq (vw u)" "tail (vw u) = ltq (vw u) + 1" "ltq_slot (vw u) (head (vw u)) = Some sf"
    by blast
  let ?s6 = "set_tpc 0 (T_took (head (vw u))) (u\<lparr>vw := (vw u)\<lparr>head := head (vw u) + 1\<rparr>\<rparr>)"
  have r6: "the_reachable ?s6"
    by (intro the_reachable.step [OF r5] the_step.thief_take u(1))
  let ?s7 = "set_tpc 0 T_unlock (?s6\<lparr>stolen := sf # stolen ?s6\<rparr>)"
  have r7: "the_reachable ?s7"
    using u by (intro the_reachable.step [OF r6] the_step.thief_read [where h = "head (vw u)"]) simp_all
  let ?s8 = "?s7\<lparr>vw := undo_detach_dec (vw ?s7), vpc := V_undo\<rparr>"
  have "the_reachable ?s8"
    using u by (intro the_reachable.step [OF r7] the_step.undo) simp_all
  moreover have "in_transit (vpc ?s8)" "head (vw ?s8) = tail (vw ?s8) + 1"
    using u by (simp_all add: undo_detach_dec_def)
  moreover have "pushed ?s7 = [sf]" "stolen ?s7 = [sf]" "popped ?s7 = []"
    using u by simp_all
  ultimately show ?thesis using r5 u(1) r7 by blast
qed

subsection \<open>Properties\<close>

text \<open>C1: Work is neither lost nor duplicated. In every reachable state of the victim and any
  number of thieves, the frames the victim made available by spawning are exactly the
  frames it got back (by the lock-free test of \<^verbatim>\<open>__cilkrts_undo_detach\<close>, by the exception
  check or by \<^verbatim>\<open>__cilkrts_pop_tail\<close>), the frames thieves took, the frame a thief is taking,
  and the frames still in the deque.\<close>

theorem THE_exactly_once:
  fixes s :: "('m, 'e) the_sys"
  assumes "the_reachable s"
  shows "mset (pushed s) = mset (popped s) + mset (stolen s) + mset (in_flight s)
           + mset (slots (vw s) (head (vw s)) (dq_top s))"
  using the_reachable_inv [OF assms] by (simp add: the_inv_def inv_frames_def)

theorem THE_exactly_once_witness:
  "\<exists>s :: (nat, nat) the_sys. the_reachable s \<and> stolen s = [5] \<and>
     mset (in_flight s) + mset (slots (vw s) (head (vw s)) (dq_top s)) = {#}"
proof -
  obtain s :: "(nat, nat) the_sys" where s: "the_reachable s" "pushed s = [5]" "stolen s = [5]" "popped s = []"
    using steal_run [of 5] by blast
  from THE_exactly_once [OF s(1)] s show ?thesis by auto
qed

lemma raised_exc:
  assumes "the_reachable s"
  shows "exc (vw s) = head (vw s) + 1 \<longleftrightarrow> (\<exists>i. raised (tpc s i))"
proof -
  have inv: "the_inv s" by (rule the_reachable_inv [OF assms])
  have "raised (tst s) \<longleftrightarrow> (\<exists>i. raised (tpc s i))"
  proof
    assume "raised (tst s)"
    then show "\<exists>i. raised (tpc s i)"
      by (cases "(holder s, tpc s)" rule: holder_pc.cases) (auto simp: tst_def)
  next
    assume "\<exists>i. raised (tpc s i)"
    then obtain i where i: "raised (tpc s i)" by blast
    then have "tpc s i \<noteq> T_idle" by auto
    from tst_at [OF inv this] i show "raised (tst s)" by simp
  qed
  then show ?thesis using the_inv_ptrsD(7) [OF inv] by simp
qed

text \<open>C18: The order of the pointers. E equals H, or is one ahead of it, and it is ahead exactly
  while a thief is between raising E and its decision; H is at most T, except between the
  decrement of T and the end of the exception check, where T may be one below H. Both
  bounds are reached: there are reachable states with E one ahead of H, and reachable states
  with T one below H, against the order H <= T in the comment of the protocol.\<close>

theorem THE_pointer_order:
  fixes s :: "('m, 'e) the_sys"
  assumes "the_reachable s"
  shows "exc (vw s) = head (vw s) + (if \<exists>i. raised (tpc s i) then 1 else 0) \<and>
         head (vw s) \<le> tail (vw s) + (if in_transit (vpc s) then 1 else 0) \<and>
         (\<exists>t :: ('m, 'e) the_sys. the_reachable t \<and> exc (vw t) = head (vw t) + 1) \<and>
         (\<exists>t :: ('m, 'e) the_sys. the_reachable t \<and> tail (vw t) + 1 = head (vw t))"
proof (intro conjI)
  note inv = the_reachable_inv [OF assms]
  show "exc (vw s) = head (vw s) + (if \<exists>i. raised (tpc s i) then 1 else 0)"
    using raised_exc [OF assms] the_inv_ptrsD(7) [OF inv] by (auto split: if_splits)
  show "head (vw s) \<le> tail (vw s) + (if in_transit (vpc s) then 1 else 0)"
    using the_inv_ptrsD(3) [OF inv] by (simp add: dq_top_def split: if_splits)
  have steal: "(\<exists>t :: ('m, 'e) the_sys. the_reachable t \<and> tpc t 0 = T_ok) \<and>
      (\<exists>t :: ('m, 'e) the_sys. the_reachable t \<and> in_transit (vpc t) \<and> head (vw t) = tail (vw t) + 1)"
    using steal_run by blast
  then obtain t :: "('m, 'e) the_sys" where "the_reachable t" "tpc t 0 = T_ok" by blast
  moreover from this have "\<exists>i. raised (tpc t i)" by (intro exI [of _ 0]) simp
  ultimately show "\<exists>t :: ('m, 'e) the_sys. the_reachable t \<and> exc (vw t) = head (vw t) + 1"
    using raised_exc by blast
  from steal show "\<exists>t :: ('m, 'e) the_sys. the_reachable t \<and> tail (vw t) + 1 = head (vw t)"
    by auto
qed

theorem THE_pointer_order_witness:
  "\<exists>s :: (nat, nat) the_sys. the_reachable s \<and> pushed s = [5] \<and> stolen s = [5] \<and>
     exc (vw s) = head (vw s) + (if \<exists>i. raised (tpc s i) then 1 else 0) \<and>
     head (vw s) \<le> tail (vw s) + (if in_transit (vpc s) then 1 else 0)"
proof -
  obtain s :: "(nat, nat) the_sys" where s: "the_reachable s" "pushed s = [5]" "stolen s = [5]"
    using steal_run [of 5] by blast
  with THE_pointer_order [OF s(1)] show ?thesis by blast
qed

text \<open>C19: The slots the two sides read hold a frame. A thief that passed \<^verbatim>\<open>dekker_protocol\<close> finds
  a frame at the head (so \<^verbatim>\<open>CILK_ASSERT(*h)\<close> of \<^verbatim>\<open>detach_for_steal\<close> holds) and still finds it
  after it has moved H, and a victim whose undo-detach succeeds owns a frame at its tail.\<close>

theorem THE_slots_full:
  fixes s :: "('m, 'e) the_sys"
  assumes "the_reachable s"
  shows "(tpc s i = T_ok \<longrightarrow> ltq_slot (vw s) (head (vw s)) \<noteq> None) \<and>
         (tpc s i = T_took h \<longrightarrow> ltq_slot (vw s) h \<noteq> None) \<and>
         (vpc s = V_undo \<and> \<not> undo_detach_failed (vw s) \<longrightarrow> ltq_slot (vw s) (tail (vw s)) \<noteq> None)"
proof -
  have inv: "the_inv s" by (rule the_reachable_inv [OF assms])
  show ?thesis
    using inv the_inv_ptrsD [OF inv] tst_at [OF inv, of i]
    by (auto simp: the_inv_def inv_pcs_def inv_slots_def undo_detach_failed_def dq_top_def
        split: if_splits)
qed

theorem THE_slots_full_witness:
  "\<exists>s :: (nat, nat) the_sys. the_reachable s \<and> tpc s 0 = T_ok \<and> ltq_slot (vw s) (head (vw s)) \<noteq> None"
proof -
  obtain s :: "(nat, nat) the_sys" where s: "the_reachable s" "tpc s 0 = T_ok"
    using steal_run [of 5] by blast
  from THE_slots_full [OF s(1), of 0] s show ?thesis by auto
qed

text \<open>\<^verbatim>\<open>dekker_protocol\<close> run by a thief alone: it succeeds exactly when the deque has a frame
  below the protected tail, and a failed attempt leaves the victim's record as it was.\<close>

theorem dekker_protocol_spec:
  fixes victim :: "('m, 'e) worker"
  assumes "exc victim + 1 < EXC_INFINITY"
  shows "dekker_protocol victim =
    (if can_steal_from victim then (victim\<lparr>exc := exc victim + 1\<rparr>, True) else (victim, False))"
  using assms
  by (auto simp: dekker_protocol_def can_steal_from_def increment_E_def decrement_E_def Let_def)

theorem dekker_protocol_spec_witness:
  "dekker_protocol (make_worker 8 0 1 :: (nat, nat) worker) = (make_worker 8 0 1, False)"
  using dekker_protocol_spec [of "make_worker 8 0 1 :: (nat, nat) worker"]
  by (simp add: make_worker_def restore_stealing_def reset_THE_exception_def EXC_INFINITY_def
      can_steal_from_def)

text \<open>Disallowing and restoring stealing. With a null argument no frame of the deque can be
  stolen afterwards; the protected tail only moves towards the start; and restoring the
  returned value gives the worker back unchanged.\<close>

theorem disallow_restore_roundtrip:
  fixes w :: "('m, 'e) worker"
  assumes "disallow_stealing w npt = (w', saved)"
  shows "restore_stealing w' saved = w \<and> protected_tail w' \<le> protected_tail w \<and>
         (npt = None \<and> ltq w \<le> head w \<longrightarrow> \<not> can_steal_from w')"
  using assms
  by (auto simp: disallow_stealing_def restore_stealing_def can_steal_from_def Let_def
      split: if_splits option.splits)

theorem disallow_restore_roundtrip_witness:
  "disallow_stealing (make_worker 8 0 1 :: (nat, nat) worker) None =
     ((make_worker 8 0 1)\<lparr>protected_tail := 1\<rparr>, 9) \<and>
   restore_stealing ((make_worker 8 0 1)\<lparr>protected_tail := 1\<rparr>) 9 =
     (make_worker 8 0 1 :: (nat, nat) worker) \<and>
   \<not> can_steal_from ((make_worker 8 0 1 :: (nat, nat) worker)\<lparr>protected_tail := 1\<rparr>)"
proof -
  let ?w = "make_worker 8 0 1 :: (nat, nat) worker"
  have d: "disallow_stealing ?w None = (?w\<lparr>protected_tail := 1\<rparr>, 9)" and h: "ltq ?w \<le> head ?w"
    by (simp_all add: disallow_stealing_def make_worker_def restore_stealing_def reset_THE_exception_def)
  from disallow_restore_roundtrip [OF d] d h show ?thesis by blast
qed

end
