(* ===== verification/Worker_Lock.thy ===== *)
theory Worker_Lock
  imports THE_Protocol
begin

section \<open>A worker's lock and the right to disturb it (scheduler.c)\<close>

text \<open>
  \<^verbatim>\<open>__cilkrts_worker_lock\<close>, \<^verbatim>\<open>__cilkrts_worker_unlock\<close> and \<^verbatim>\<open>worker_trylock_other\<close>. A worker raises
  \<open>do_not_steal\<close> before it waits for its own lock; a thief takes \<open>steal_lock\<close>, looks at the
  flag and only then tries the lock. The comment of \<^verbatim>\<open>worker_trylock_other\<close> claims a bound on
  how long the worker waits, which is proved here for any number of thieves.
\<close>

subsection \<open>Operations\<close>

text \<open>The operations get the address of the calling worker (\<open>i\<close>) for the owner field.\<close>

definition validate_worker :: "('m, 'e) worker \<Rightarrow> unit option" where
  "validate_worker w =
     (if worker_magic_0 w \<noteq> WORKER_MAGIC_0 \<or> worker_magic_1 w \<noteq> WORKER_MAGIC_1 then None else Some ())"

definition worker_lock :: "wptr \<Rightarrow> ('m, 'e) worker \<Rightarrow> ('m, 'e) worker option" where
  "worker_lock i w = do {
     validate_worker w;
     cilk_assert (\<not> do_not_steal w);
     let w = w\<lparr>do_not_steal := True\<rparr>;
     m \<leftarrow> mutex_lock i (w_lock w);
     Some (w\<lparr>w_lock := m\<rparr>) }"

definition worker_unlock :: "wptr \<Rightarrow> ('m, 'e) worker \<Rightarrow> ('m, 'e) worker option" where
  "worker_unlock i w = do {
     m \<leftarrow> mutex_unlock i (w_lock w);
     cilk_assert (do_not_steal w);
     Some (w\<lparr>w_lock := m, do_not_steal := False\<rparr>) }"

definition worker_trylock_other ::
    "wptr \<Rightarrow> ('m, 'e) worker \<Rightarrow> (('m, 'e) worker \<times> bool) option" where
  "worker_trylock_other i other = do {
     validate_worker other;
     (sl, ok) \<leftarrow> mutex_trylock i (steal_lock other);
     let other = other\<lparr>steal_lock := sl\<rparr>;
     if ok then do {
       (other, status) \<leftarrow>
         (if do_not_steal other then Some (other, False)
          else do {
            (m, got) \<leftarrow> mutex_trylock i (w_lock other);
            Some (other\<lparr>w_lock := m\<rparr>, got) });
       sl \<leftarrow> mutex_unlock i (steal_lock other);
       Some (other\<lparr>steal_lock := sl\<rparr>, status) }
     else Some (other, False) }"

definition worker_unlock_other :: "wptr \<Rightarrow> ('m, 'e) worker \<Rightarrow> ('m, 'e) worker option" where
  "worker_unlock_other i other = do {
     m \<leftarrow> mutex_unlock i (w_lock other);
     Some (other\<lparr>w_lock := m\<rparr>) }"

subsection \<open>The interleaved system\<close>

text \<open>
  The worker (owner of the lock): \<open>O_out\<close>; \<open>O_wait\<close> has set the flag and spins for the lock;
  \<open>O_in\<close> has it; \<open>O_unlocked\<close> has released the lock and not yet cleared the flag.
  A thief: \<open>W_look\<close> holds \<open>steal_lock\<close> and has not read the flag; \<open>W_try\<close> has seen it clear
  and has not tried the lock; \<open>W_got\<close> holds both locks; \<open>W_leave\<close> holds \<open>steal_lock\<close> and
  gives up; \<open>W_in\<close> holds the lock only and steals. Acquiring and releasing a mutex are
  single steps: Worker\_Mutex proves that of the code.
\<close>

datatype owner_pc = O_out | O_wait | O_in | O_unlocked

datatype disturb_pc = W_idle | W_look | W_try | W_got | W_leave | W_in

text \<open>\<open>late\<close> lists the thieves that took the lock since the flag was set.\<close>

record wl_sys =
  lk :: "agent option"
  sl :: "wptr option"
  dns :: bool
  opc :: owner_pc
  wpc :: "wptr \<Rightarrow> disturb_pc"
  late :: "wptr list"

abbreviation set_wpc :: "wptr \<Rightarrow> disturb_pc \<Rightarrow> wl_sys \<Rightarrow> wl_sys" where
  "set_wpc i p s \<equiv> s\<lparr>wpc := (wpc s)(i := p)\<rparr>"

text \<open>
  The same code with the worker and the thieves interleaved: the sequential definitions above run
  an operation at once, here each access to a lock or to the flag is a step of its own.
\<close>

inductive wl_step :: "wl_sys \<Rightarrow> wl_sys \<Rightarrow> bool" where
  raise: "opc s = O_out \<Longrightarrow> wl_step s (s\<lparr>dns := True, opc := O_wait, late := []\<rparr>)"
| enter: "\<lbrakk>opc s = O_wait; lk s = None\<rbrakk> \<Longrightarrow> wl_step s (s\<lparr>lk := Some Victim, opc := O_in\<rparr>)"
| unlock: "opc s = O_in \<Longrightarrow> wl_step s (s\<lparr>lk := None, opc := O_unlocked\<rparr>)"
| lower: "opc s = O_unlocked \<Longrightarrow> wl_step s (s\<lparr>dns := False, opc := O_out\<rparr>)"
| compete: "\<lbrakk>wpc s i = W_idle; sl s = None\<rbrakk> \<Longrightarrow> wl_step s (set_wpc i W_look (s\<lparr>sl := Some i\<rparr>))"
| respect: "\<lbrakk>wpc s i = W_look; dns s\<rbrakk> \<Longrightarrow> wl_step s (set_wpc i W_leave s)"
| decide: "\<lbrakk>wpc s i = W_look; \<not> dns s\<rbrakk> \<Longrightarrow> wl_step s (set_wpc i W_try s)"
| take: "\<lbrakk>wpc s i = W_try; lk s = None\<rbrakk>
    \<Longrightarrow> wl_step s (set_wpc i W_got (s\<lparr>lk := Some (Thief i),
          late := (if dns s then i # late s else late s)\<rparr>))"
| fail: "\<lbrakk>wpc s i = W_try; lk s \<noteq> None\<rbrakk> \<Longrightarrow> wl_step s (set_wpc i W_leave s)"
| go: "wpc s i = W_got \<Longrightarrow> wl_step s (set_wpc i W_in (s\<lparr>sl := None\<rparr>))"
| leave: "wpc s i = W_leave \<Longrightarrow> wl_step s (set_wpc i W_idle (s\<lparr>sl := None\<rparr>))"
| finish: "wpc s i = W_in \<Longrightarrow> wl_step s (set_wpc i W_idle (s\<lparr>lk := None\<rparr>))"

definition wl_init :: wl_sys where
  "wl_init = \<lparr>lk = None, sl = None, dns = False, opc = O_out, wpc = (\<lambda>_. W_idle), late = []\<rparr>"

inductive wl_reachable :: "wl_sys \<Rightarrow> bool" where
  start: "wl_reachable wl_init"
| step: "wl_reachable s \<Longrightarrow> wl_step s t \<Longrightarrow> wl_reachable t"

subsection \<open>The invariant\<close>

definition has_sl :: "disturb_pc \<Rightarrow> bool" where
  "has_sl p \<longleftrightarrow> p = W_look \<or> p = W_try \<or> p = W_got \<or> p = W_leave"

definition has_lk :: "disturb_pc \<Rightarrow> bool" where
  "has_lk p \<longleftrightarrow> p = W_got \<or> p = W_in"

lemma has_simps [simp]:
  "has_sl W_look" "has_sl W_try" "has_sl W_got" "has_sl W_leave" "\<not> has_sl W_idle" "\<not> has_sl W_in"
  "has_lk W_got" "has_lk W_in" "\<not> has_lk W_look" "\<not> has_lk W_try" "\<not> has_lk W_leave" "\<not> has_lk W_idle"
  by (simp_all add: has_sl_def has_lk_def)

definition wl_inv :: "wl_sys \<Rightarrow> bool" where
  "wl_inv s \<longleftrightarrow>
     (\<forall>i. has_sl (wpc s i) \<longleftrightarrow> sl s = Some i) \<and>
     (\<forall>i. has_lk (wpc s i) \<longleftrightarrow> lk s = Some (Thief i)) \<and>
     (opc s = O_in \<longleftrightarrow> lk s = Some Victim) \<and>
     (dns s \<longleftrightarrow> opc s \<noteq> O_out) \<and>
     (dns s \<longrightarrow> length (late s) \<le> 1 \<and> (late s \<noteq> [] \<longrightarrow> (\<forall>i. wpc s i \<noteq> W_try)))"

lemma wl_inv_parts:
  assumes "wl_inv s"
  shows "has_sl (wpc s i) \<longleftrightarrow> sl s = Some i"
    and "has_lk (wpc s i) \<longleftrightarrow> lk s = Some (Thief i)"
    and "opc s = O_in \<longleftrightarrow> lk s = Some Victim"
    and "dns s \<longleftrightarrow> opc s \<noteq> O_out"
    and "dns s \<Longrightarrow> length (late s) \<le> 1"
    and "dns s \<Longrightarrow> late s \<noteq> [] \<Longrightarrow> wpc s i \<noteq> W_try"
  using assms unfolding wl_inv_def by blast+

text \<open>Only the holder of \<open>steal_lock\<close> can be about to try the lock.\<close>

lemma wl_inv_alone:
  assumes "wl_inv s" "wpc s i = W_try" "j \<noteq> i"
  shows "wpc s j \<noteq> W_try"
  using wl_inv_parts(1) [OF assms(1), of i] wl_inv_parts(1) [OF assms(1), of j] assms(2,3)
  by (auto simp: has_sl_def)

text \<open>A thief's step: the new position agrees with the locks it holds, and the others keep theirs.\<close>

lemma wl_inv_thief:
  assumes inv: "wl_inv s"
    and t: "wpc t = (wpc s)(i := q)" "opc t = opc s" "dns t = dns s"
    and sl: "sl t = Some i \<longleftrightarrow> has_sl q" "\<And>j. j \<noteq> i \<Longrightarrow> sl t = Some j \<longleftrightarrow> sl s = Some j"
    and lk: "lk t = Some (Thief i) \<longleftrightarrow> has_lk q" "lk t = Some Victim \<longleftrightarrow> lk s = Some Victim"
      "\<And>j. j \<noteq> i \<Longrightarrow> lk t = Some (Thief j) \<longleftrightarrow> lk s = Some (Thief j)"
    and late: "dns s \<Longrightarrow> length (late t) \<le> 1"
      "\<And>j. \<lbrakk>dns s; late t \<noteq> []; j \<noteq> i\<rbrakk> \<Longrightarrow> wpc s j \<noteq> W_try" "\<lbrakk>dns s; late t \<noteq> []\<rbrakk> \<Longrightarrow> q \<noteq> W_try"
  shows "wl_inv t"
  using t sl lk late wl_inv_parts(1-4) [OF inv] unfolding wl_inv_def by auto

lemma wl_step_inv:
  assumes "wl_step s t" "wl_inv s"
  shows "wl_inv t"
  using assms
proof (induction rule: wl_step.induct)
  case (compete s i)
  show ?case
    using compete wl_inv_parts [OF compete.prems] wl_inv_parts(2) [OF compete.prems, of i]
    by (intro wl_inv_thief [OF compete.prems, where i = i and q = W_look]) auto
next
  case (respect s i)
  show ?case
    using respect wl_inv_parts [OF respect.prems] wl_inv_parts(1,2) [OF respect.prems, of i]
    by (intro wl_inv_thief [OF respect.prems, where i = i and q = W_leave]) auto
next
  case (decide s i)
  show ?case
    using decide wl_inv_parts [OF decide.prems] wl_inv_parts(1,2) [OF decide.prems, of i]
    by (intro wl_inv_thief [OF decide.prems, where i = i and q = W_try]) auto
next
  case (take s i)
  have "late s = []" if "dns s"
    using wl_inv_parts(6) [OF take.prems that, of i] take.hyps by blast
  then show ?case
    using take wl_inv_alone [OF take.prems take.hyps(1)] wl_inv_parts(1) [OF take.prems, of i]
    by (intro wl_inv_thief [OF take.prems, where i = i and q = W_got]) auto
next
  case (fail s i)
  show ?case
    using fail wl_inv_parts [OF fail.prems] wl_inv_parts(1,2) [OF fail.prems, of i]
    by (intro wl_inv_thief [OF fail.prems, where i = i and q = W_leave]) auto
next
  case (go s i)
  show ?case
    using go wl_inv_parts [OF go.prems] wl_inv_parts(1,2) [OF go.prems, of i]
    by (intro wl_inv_thief [OF go.prems, where i = i and q = W_in]) auto
next
  case (leave s i)
  show ?case
    using leave wl_inv_parts [OF leave.prems] wl_inv_parts(1,2) [OF leave.prems, of i]
    by (intro wl_inv_thief [OF leave.prems, where i = i and q = W_idle]) auto
next
  case (finish s i)
  show ?case
    using finish wl_inv_parts [OF finish.prems] wl_inv_parts(1,2) [OF finish.prems, of i]
    by (intro wl_inv_thief [OF finish.prems, where i = i and q = W_idle]) auto
qed (auto simp: wl_inv_def)

lemma wl_inv_init: "wl_inv wl_init"
  by (simp add: wl_inv_def wl_init_def)

lemma wl_reachable_inv: "wl_reachable s \<Longrightarrow> wl_inv s"
  by (induction rule: wl_reachable.induct) (auto intro: wl_inv_init wl_step_inv)

subsection \<open>Properties\<close>

text \<open>C30: The bound the comment of \<^verbatim>\<open>worker_trylock_other\<close> promises. From the moment a worker has
  set \<open>do_not_steal\<close> until it clears the flag, at most one thief acquires its lock (beside
  the thief that may have held it already), however many thieves compete; and while the
  worker is in its critical section no thief holds the lock.\<close>

theorem worker_lock_wait_bound:
  assumes "wl_reachable s"
  shows "(dns s \<longrightarrow> length (late s) \<le> 1) \<and> (opc s = O_in \<longrightarrow> \<not> has_lk (wpc s i))"
  using wl_inv_parts(2) [OF wl_reachable_inv [OF assms], of i]
    wl_inv_parts(3,5) [OF wl_reachable_inv [OF assms]] by auto

theorem worker_lock_wait_bound_witness:
  "\<exists>s. wl_reachable s \<and> dns s \<and> late s = [4] \<and> length (late s) \<le> 1"
proof -
  let ?s1 = "set_wpc 4 W_look (wl_init\<lparr>sl := Some 4\<rparr>)"
  have r1: "wl_reachable ?s1"
    by (intro wl_reachable.step [OF wl_reachable.start] wl_step.compete) (simp_all add: wl_init_def)
  let ?s2 = "set_wpc 4 W_try ?s1"
  have r2: "wl_reachable ?s2"
    by (intro wl_reachable.step [OF r1] wl_step.decide) (simp_all add: wl_init_def)
  let ?s3 = "?s2\<lparr>dns := True, opc := O_wait, late := []\<rparr>"
  have r3: "wl_reachable ?s3"
    by (intro wl_reachable.step [OF r2] wl_step.raise) (simp add: wl_init_def)
  let ?s4 = "set_wpc 4 W_got (?s3\<lparr>lk := Some (Thief 4), late := (if dns ?s3 then 4 # late ?s3 else late ?s3)\<rparr>)"
  have r4: "wl_reachable ?s4"
    by (intro wl_reachable.step [OF r3] wl_step.take) (simp_all add: wl_init_def)
  from worker_lock_wait_bound [OF r4] r4 show ?thesis
    by (intro exI [of _ ?s4]) simp
qed

text \<open>Locking and unlocking one's own worker restores it, \<open>do_not_steal\<close> and the mutex
  included, and in between every thief's attempt leaves the worker alone.\<close>

theorem worker_lock_roundtrip:
  fixes w :: "('m, 'e) worker"
  assumes "validate_worker w = Some ()" "\<not> do_not_steal w" "mutex_free (w_lock w)" "mutex_free (steal_lock w)"
  shows "\<exists>w1. worker_lock i w = Some w1 \<and> worker_unlock i w1 = Some w \<and>
              worker_trylock_other j w1 = Some (w1, False)"
  using assms
  by (simp add: worker_lock_def worker_unlock_def worker_trylock_other_def mutex_trylock_def
      TRY_ACQUIRE_def validate_worker_def split: if_splits)

theorem worker_lock_roundtrip_witness:
  "\<exists>w1. worker_lock 3 (make_worker 8 0 1 :: (nat, nat) worker) = Some w1 \<and>
        worker_unlock 3 w1 = Some (make_worker 8 0 1)"
proof -
  have "validate_worker (make_worker 8 0 1 :: (nat, nat) worker) = Some ()"
    "\<not> do_not_steal (make_worker 8 0 1 :: (nat, nat) worker)"
    "mutex_free (w_lock (make_worker 8 0 1 :: (nat, nat) worker))"
    "mutex_free (steal_lock (make_worker 8 0 1 :: (nat, nat) worker))"
    by (simp_all add: validate_worker_def make_worker_def restore_stealing_def
        reset_THE_exception_def mutex_init_def)
  from worker_lock_roundtrip [OF this, of 3] show ?thesis by blast
qed

end
