(* ===== verification/Full_Frame.thy ===== *)
theory Full_Frame
  imports Worker_Lock
begin

section \<open>Full frames and the tree they form (full\_frame.c, scheduler.c)\<close>

text \<open>
  The operations of full\_frame.c, the sibling lists and join counters of scheduler.c, and
  the one-element queue \<open>next_frame_ff\<close>. The children of a frame are a doubly linked list
  reached from \<open>rightmost_child\<close>; \<open>children\<close> relates it to a list, and the list operations
  are shown to implement appending and removal on it.
\<close>

subsection \<open>full\_frame.c\<close>

definition new_full_frame :: "sfptr option \<Rightarrow> ('m, 'e) full_frame" where
  "new_full_frame sf =
     \<lparr>full_frame_magic_0 = FULL_FRAME_MAGIC_0, ff_lock = mutex_init, join_counter = 0,
      is_call_child = False, simulated_stolen = False, parent = None, left_sibling = None,
      right_sibling = None, rightmost_child = None, call_stack = sf,
      children_reducer_map = None, right_reducer_map = None, pending_exception = None,
      child_pending_exception = None, right_pending_exception = None, sync_sp = 0,
      frame_size = 0, fiber_self = None, fiber_child = None, sync_master = None,
      full_frame_magic_1 = FULL_FRAME_MAGIC_1\<rparr>"

definition make_full_frame :: "sfptr option \<Rightarrow> ('m, 'e) rts \<Rightarrow> ffptr \<times> ('m, 'e) rts" where
  "make_full_frame sf s =
     (let ff = ff_brk s in (ff, upd_ff ff (\<lambda>_. new_full_frame sf) (s\<lparr>ff_brk := ff + 1\<rparr>)))"

text \<open>Stack pointers are 64-bit words, and the arithmetic on \<open>sync_sp\<close> wraps as in the code.\<close>

definition put_stack :: "ffptr \<Rightarrow> sfptr \<Rightarrow> ('m, 'e) rts \<Rightarrow> ('m, 'e) rts" where
  "put_stack ff sf s =
     (let sync_sp_i = sync_sp (ffh s ff); sp = sf_sp (sfh s sf)
      in upd_ff ff (\<lambda>f. f\<lparr>sync_sp := sp + sync_sp_i\<rparr>) s)"

definition take_stack :: "ffptr \<Rightarrow> 64 word \<Rightarrow> ('m, 'e) rts \<Rightarrow> ('m, 'e) rts" where
  "take_stack ff sp s = upd_ff ff (\<lambda>f. f\<lparr>sync_sp := sync_sp f - sp\<rparr>) s"

definition adjust_stack :: "ffptr \<Rightarrow> 64 word \<Rightarrow> ('m, 'e) rts \<Rightarrow> ('m, 'e) rts" where
  "adjust_stack ff sz s = upd_ff ff (\<lambda>f. f\<lparr>sync_sp := sync_sp f + sz\<rparr>) s"

definition validate_full_frame :: "('m, 'e) full_frame \<Rightarrow> unit option" where
  "validate_full_frame f =
     (if full_frame_magic_0 f \<noteq> FULL_FRAME_MAGIC_0 \<or> full_frame_magic_1 f \<noteq> FULL_FRAME_MAGIC_1
      then None else Some ())"

definition destroy_full_frame :: "ffptr \<Rightarrow> ('m, 'e) rts \<Rightarrow> ('m, 'e) rts option" where
  "destroy_full_frame ff s = do {
     validate_full_frame (ffh s ff);
     cilk_assert (children_reducer_map (ffh s ff) = None);
     cilk_assert (right_reducer_map (ffh s ff) = None);
     cilk_assert (pending_exception (ffh s ff) = None);
     cilk_assert (child_pending_exception (ffh s ff) = None);
     cilk_assert (right_pending_exception (ffh s ff) = None);
     let s = upd_ff ff (\<lambda>f. f\<lparr>ff_lock := mutex_destroy (ff_lock f)\<rparr>) s;
     Some (s\<lparr>ff_freed := ff # ff_freed s\<rparr>) }"

definition frame_lock :: "wptr \<Rightarrow> ffptr \<Rightarrow> ('m, 'e) rts \<Rightarrow> ('m, 'e) rts option" where
  "frame_lock w ff s = do {
     validate_full_frame (ffh s ff);
     m \<leftarrow> mutex_lock w (ff_lock (ffh s ff));
     Some (upd_ff ff (\<lambda>f. f\<lparr>ff_lock := m\<rparr>) s) }"

definition frame_unlock :: "wptr \<Rightarrow> ffptr \<Rightarrow> ('m, 'e) rts \<Rightarrow> ('m, 'e) rts option" where
  "frame_unlock w ff s = do {
     m \<leftarrow> mutex_unlock w (ff_lock (ffh s ff));
     Some (upd_ff ff (\<lambda>f. f\<lparr>ff_lock := m\<rparr>) s) }"

subsection \<open>Sibling lists and join counters (scheduler.c)\<close>

definition double_link :: "ffptr option \<Rightarrow> ffptr option \<Rightarrow> ('m, 'e) rts \<Rightarrow> ('m, 'e) rts" where
  "double_link left_ff right_ff s =
     (let s1 = (case left_ff of None \<Rightarrow> s | Some p \<Rightarrow> upd_ff p (\<lambda>f. f\<lparr>right_sibling := right_ff\<rparr>) s)
      in case right_ff of None \<Rightarrow> s1 | Some q \<Rightarrow> upd_ff q (\<lambda>f. f\<lparr>left_sibling := left_ff\<rparr>) s1)"

definition push_child :: "ffptr \<Rightarrow> ffptr \<Rightarrow> ('m, 'e) rts \<Rightarrow> ('m, 'e) rts" where
  "push_child parent_ff child_ff s =
     (let s1 = double_link (rightmost_child (ffh s parent_ff)) (Some child_ff) s;
          s2 = double_link (Some child_ff) None s1
      in upd_ff parent_ff (\<lambda>f. f\<lparr>rightmost_child := Some child_ff\<rparr>) s2)"

definition unlink_child :: "ffptr \<Rightarrow> ffptr \<Rightarrow> ('m, 'e) rts \<Rightarrow> ('m, 'e) rts option" where
  "unlink_child parent_ff child_ff s = do {
     let s = double_link (left_sibling (ffh s child_ff)) (right_sibling (ffh s child_ff)) s;
     s \<leftarrow> (if right_sibling (ffh s child_ff) = None then do {
             cilk_assert (rightmost_child (ffh s parent_ff) = Some child_ff);
             Some (upd_ff parent_ff
               (\<lambda>f. f\<lparr>rightmost_child := left_sibling (ffh s child_ff)\<rparr>) s) }
           else Some s);
     Some (upd_ff child_ff (\<lambda>f. f\<lparr>left_sibling := None, right_sibling := None\<rparr>) s) }"

definition incjoin :: "ffptr \<Rightarrow> ('m, 'e) rts \<Rightarrow> ('m, 'e) rts" where
  "incjoin ff s = upd_ff ff (\<lambda>f. f\<lparr>join_counter := join_counter f + 1\<rparr>) s"

definition decjoin :: "ffptr \<Rightarrow> ('m, 'e) rts \<Rightarrow> (int \<times> ('m, 'e) rts) option" where
  "decjoin ff s = do {
     cilk_assert (join_counter (ffh s ff) > 0);
     let s = upd_ff ff (\<lambda>f. f\<lparr>join_counter := join_counter f - 1\<rparr>) s;
     Some (join_counter (ffh s ff), s) }"

definition simulate_decjoin :: "ffptr \<Rightarrow> ('m, 'e) rts \<Rightarrow> int option" where
  "simulate_decjoin ff s = do {
     cilk_assert (join_counter (ffh s ff) > 0);
     Some (join_counter (ffh s ff) - 1) }"

subsection \<open>Handing frames to workers (scheduler.c)\<close>

definition make_runnable :: "wptr \<Rightarrow> ffptr \<Rightarrow> ('m, 'e) rts \<Rightarrow> ('m, 'e) rts" where
  "make_runnable w ff s =
     upd_ff ff (\<lambda>f. f\<lparr>call_stack := None\<rparr>) (upd_wk w (\<lambda>k. k\<lparr>frame_ff := Some ff\<rparr>) s)"

text \<open>\<^verbatim>\<open>__cilkrts_make_unrunnable_sysdep\<close> of sysdep-unix.c.\<close>

definition make_unrunnable_sysdep :: "ffptr \<Rightarrow> sfptr \<Rightarrow> bool \<Rightarrow> ('m, 'e) rts \<Rightarrow> ('m, 'e) rts" where
  "make_unrunnable_sysdep ff sf is_loot s =
     (let s = upd_sf sf (\<lambda>x. x\<lparr>except_data := None\<rparr>) s
      in if is_loot then
           (let s = (if frame_size (ffh s ff) = 0
                     then upd_ff ff (\<lambda>f. f\<lparr>frame_size := sf_fp (sfh s sf) - sf_sp (sfh s sf)\<rparr>) s
                     else s)
            in upd_sf sf (\<lambda>x. x\<lparr>sf_sp := 0\<rparr>) s)
         else s)"

definition make_unrunnable ::
    "ffptr \<Rightarrow> sfptr option \<Rightarrow> bool \<Rightarrow> ('m, 'e) rts \<Rightarrow> ('m, 'e) rts" where
  "make_unrunnable ff sf is_loot s =
     (let s = upd_ff ff (\<lambda>f. f\<lparr>call_stack := sf\<rparr>) s
      in case sf of None \<Rightarrow> s
         | Some p \<Rightarrow>
             (let s = upd_sf p (\<lambda>x. x\<lparr>flags := set_flag (flags x) (CILK_FRAME_STOLEN OR CILK_FRAME_SUSPENDED),
                                      sf_worker := None\<rparr>) s;
                  s = (if is_loot then put_stack ff p s else s)
              in make_unrunnable_sysdep ff p is_loot s))"

definition push_next_frame :: "wptr \<Rightarrow> ffptr \<Rightarrow> ('m, 'e) rts \<Rightarrow> ('m, 'e) rts option" where
  "push_next_frame w ff s = do {
     cilk_assert (next_frame_ff (wkh s w) = None);
     let s = incjoin ff s;
     Some (upd_wk w (\<lambda>k. k\<lparr>next_frame_ff := Some ff\<rparr>) s) }"

definition pop_next_frame :: "wptr \<Rightarrow> ('m, 'e) rts \<Rightarrow> ffptr option \<times> ('m, 'e) rts" where
  "pop_next_frame w s =
     (let ff = next_frame_ff (wkh s w)
      in (ff, if ff \<noteq> None then upd_wk w (\<lambda>k. k\<lparr>next_frame_ff := None\<rparr>) s else s))"

definition set_sync_master :: "wptr \<Rightarrow> ffptr \<Rightarrow> ('m, 'e) rts \<Rightarrow> ('m, 'e) rts" where
  "set_sync_master w ff s =
     upd_ff ff (\<lambda>f. f\<lparr>sync_master := Some w\<rparr>) (upd_wk w (\<lambda>k. k\<lparr>last_full_frame := Some ff\<rparr>) s)"

definition unset_sync_master :: "wptr \<Rightarrow> ffptr \<Rightarrow> ('m, 'e) rts \<Rightarrow> ('m, 'e) rts option" where
  "unset_sync_master w ff s = do {
     cilk_assert (wtype (wkh s w) = WORKER_USER);
     cilk_assert (sync_master (ffh s ff) = Some w);
     Some (upd_wk w (\<lambda>k. k\<lparr>last_full_frame := None\<rparr>) (upd_ff ff (\<lambda>f. f\<lparr>sync_master := None\<rparr>) s)) }"

text \<open>
  The fiber argument of \<^verbatim>\<open>make_child\<close>: null for a call child, \<^verbatim>\<open>PLACEHOLDER_FIBER\<close> for a
  simulated steal, or the fiber of a thief.
\<close>

datatype fiber_arg = Null_fiber | PLACEHOLDER_FIBER | Fiber fiber

definition make_child ::
    "ffptr \<Rightarrow> sfptr option \<Rightarrow> fiber_arg \<Rightarrow> ('m, 'e) rts \<Rightarrow> (ffptr \<times> ('m, 'e) rts) option" where
  "make_child parent_ff child_sf fiber s = do {
     let (child_ff, s) = make_full_frame child_sf s;
     let s = upd_ff child_ff (\<lambda>f. f\<lparr>parent := Some parent_ff\<rparr>) s;
     let s = push_child parent_ff child_ff s;
     cilk_assert (call_stack (ffh s parent_ff) \<noteq> None);
     let s = upd_ff child_ff (\<lambda>f. f\<lparr>is_call_child := (fiber = Null_fiber)\<rparr>) s;
     let fiber' = (case fiber of Fiber x \<Rightarrow> Some x | _ \<Rightarrow> None);
     let s = upd_ff child_ff (\<lambda>f. f\<lparr>fiber_self := fiber_self (ffh s parent_ff), sync_master := None\<rparr>) s;
     let s = upd_ff parent_ff
               (\<lambda>f. f\<lparr>fiber_self := (if is_call_child (ffh s child_ff) then None else fiber')\<rparr>) s;
     let s = incjoin parent_ff s;
     Some (child_ff, s) }"

subsection \<open>The children of a frame as a list\<close>

text \<open>A segment of a doubly linked list between the neighbours \<open>l\<close> and \<open>r\<close>.\<close>

fun dlseg :: "(ffptr \<Rightarrow> ('m, 'e) full_frame) \<Rightarrow> ffptr option \<Rightarrow> ffptr list \<Rightarrow> ffptr option \<Rightarrow> bool" where
  "dlseg h l [] r \<longleftrightarrow> True"
| "dlseg h l (c # cs) r \<longleftrightarrow>
     left_sibling (h c) = l \<and> right_sibling (h c) = (case cs of [] \<Rightarrow> r | d # _ \<Rightarrow> Some d) \<and>
     dlseg h (Some c) cs r"

definition last_opt :: "'a list \<Rightarrow> 'a option" where
  "last_opt xs = (if xs = [] then None else Some (last xs))"

definition hd_opt :: "'a list \<Rightarrow> 'a option" where
  "hd_opt xs = (if xs = [] then None else Some (hd xs))"

definition children :: "(ffptr \<Rightarrow> ('m, 'e) full_frame) \<Rightarrow> ffptr \<Rightarrow> ffptr list \<Rightarrow> bool" where
  "children h p cs \<longleftrightarrow>
     dlseg h None cs None \<and> rightmost_child (h p) = last_opt cs \<and> distinct cs \<and> p \<notin> set cs \<and>
     (\<forall>c\<in>set cs. parent (h c) = Some p)"

lemma last_opt_simps [simp]: "last_opt [] = None" "last_opt (xs @ [x]) = Some x"
  by (simp_all add: last_opt_def)

lemma hd_opt_simps [simp]: "hd_opt [] = None" "hd_opt (x # xs) = Some x"
  by (simp_all add: hd_opt_def)

lemma last_opt_append [simp]: "last_opt (xs @ y # ys) = last_opt (y # ys)"
  by (simp add: last_opt_def)

lemma dlseg_append:
  "dlseg h l (xs @ ys) r \<longleftrightarrow>
     dlseg h l xs (case ys of [] \<Rightarrow> r | y # _ \<Rightarrow> Some y) \<and>
     dlseg h (if xs = [] then l else last_opt xs) ys r"
proof (induction xs arbitrary: l)
  case Nil
  then show ?case by simp
next
  case (Cons x xs)
  then show ?case
    by (cases xs; cases ys) (auto simp: last_opt_def)
qed

lemma dlseg_cong:
  assumes "\<And>c. c \<in> set cs \<Longrightarrow> left_sibling (h' c) = left_sibling (h c) \<and> right_sibling (h' c) = right_sibling (h c)"
  shows "dlseg h' l cs r \<longleftrightarrow> dlseg h l cs r"
  using assms by (induction cs arbitrary: l) auto


lemma dlseg_upd:
  "c \<notin> set cs \<Longrightarrow> dlseg (h(c := f)) l cs r \<longleftrightarrow> dlseg h l cs r"
  by (rule dlseg_cong) auto

lemma dlseg_upd_same:
  "left_sibling f = left_sibling (h p) \<Longrightarrow> right_sibling f = right_sibling (h p) \<Longrightarrow>
     dlseg (h(p := f)) l cs r \<longleftrightarrow> dlseg h l cs r"
  by (rule dlseg_cong) auto

lemma children_push:
  assumes "children (ffh s) p cs" and "c \<notin> set cs" and "c \<noteq> p" and "parent (ffh s c) = Some p"
  shows "children (ffh (push_child p c s)) p (cs @ [c])"
  using assms
  by (cases cs rule: rev_cases)
     (auto simp: children_def push_child_def double_link_def Let_def dlseg_append dlseg_upd
        dlseg_upd_same fun_upd_twist last_opt_def)

lemma children_unlink:
  assumes "children (ffh s) p (xs @ c # ys)"
  obtains s' where "unlink_child p c s = Some s'" and "children (ffh s') p (xs @ ys)"
    and "left_sibling (ffh s' c) = None" and "right_sibling (ffh s' c) = None"
proof (cases "\<exists>s'. unlink_child p c s = Some s' \<and> children (ffh s') p (xs @ ys) \<and>
    left_sibling (ffh s' c) = None \<and> right_sibling (ffh s' c) = None")
  case True
  then show ?thesis using that by blast
next
  case False
  with assms show ?thesis
    by (cases xs rule: rev_cases; cases ys)
       (auto simp: children_def unlink_child_def double_link_def Let_def dlseg_append dlseg_upd
          dlseg_upd_same fun_upd_twist last_opt_def split: if_splits)
qed


text \<open>Linking and unlinking below \<open>p\<close> leave the children of every other frame as they are.\<close>

lemma children_other_cong:
  assumes "children h q ds"
    and "rightmost_child (h' q) = rightmost_child (h q)"
    and "\<And>d. d \<in> set ds \<Longrightarrow> parent (h' d) = parent (h d) \<and>
        left_sibling (h' d) = left_sibling (h d) \<and> right_sibling (h' d) = right_sibling (h d)"
  shows "children h' q ds"
  using assms dlseg_cong [of ds h' h None None] by (auto simp: children_def)

lemma children_disjoint:
  "children h p cs \<Longrightarrow> children h q ds \<Longrightarrow> p \<noteq> q \<Longrightarrow> set cs \<inter> set ds = {}"
  by (auto simp: children_def)

lemma children_rightmost: "children h p cs \<Longrightarrow> rightmost_child (h p) = Some r \<Longrightarrow> r \<in> set cs"
  by (auto simp: children_def last_opt_def split: if_splits)

lemma dlseg_neighbour:
  "dlseg h l cs r \<Longrightarrow> c \<in> set cs \<Longrightarrow>
     (left_sibling (h c) \<in> Some ` set cs \<union> {l}) \<and> (right_sibling (h c) \<in> Some ` set cs \<union> {r})"
proof (induction cs arbitrary: l)
  case (Cons d cs)
  then show ?case by (cases cs) auto
qed simp

lemma children_push_other:
  assumes "children (ffh s) p cs" and "children (ffh s) q ds" and "p \<noteq> q" and "c \<notin> set ds"
  shows "children (ffh (push_child p c s)) q ds"
proof (rule children_other_cong [OF assms(2)])
  show "rightmost_child (ffh (push_child p c s) q) = rightmost_child (ffh s q)"
    using assms by (auto simp: push_child_def double_link_def Let_def split: option.splits)
next
  fix d assume d: "d \<in> set ds"
  then have "rightmost_child (ffh s p) \<noteq> Some d" and "d \<noteq> c"
    using assms children_disjoint [OF assms(1,2,3)] children_rightmost [OF assms(1), of d] by auto
  then show "parent (ffh (push_child p c s) d) = parent (ffh s d) \<and>
      left_sibling (ffh (push_child p c s) d) = left_sibling (ffh s d) \<and>
      right_sibling (ffh (push_child p c s) d) = right_sibling (ffh s d)"
    by (auto simp: push_child_def double_link_def Let_def split: option.splits)
qed

lemma children_unlink_other:
  assumes "children (ffh s) p cs" and "c \<in> set cs" and "children (ffh s) q ds" and "p \<noteq> q"
    and "unlink_child p c s = Some s'"
  shows "children (ffh s') q ds"
proof -
  have nb: "left_sibling (ffh s c) \<in> Some ` set cs \<union> {None}"
      "right_sibling (ffh s c) \<in> Some ` set cs \<union> {None}"
    using dlseg_neighbour [of "ffh s" None cs None c] assms by (auto simp: children_def)
  have other: "rightmost_child (ffh s' x) = rightmost_child (ffh s x)" if "x \<noteq> p" for x
    using assms(5) that
    by (auto simp: unlink_child_def double_link_def Let_def bind_eq_Some_conv
        split: option.splits if_splits)
  have "parent (ffh s' d) = parent (ffh s d) \<and> left_sibling (ffh s' d) = left_sibling (ffh s d) \<and>
      right_sibling (ffh s' d) = right_sibling (ffh s d)" if d: "d \<in> set ds" for d
  proof -
    have "d \<notin> set cs" using children_disjoint [OF assms(1,3,4)] d by blast
    then have "left_sibling (ffh s c) \<noteq> Some d" "right_sibling (ffh s c) \<noteq> Some d" "d \<noteq> c"
      using nb assms(2) by auto
    then show ?thesis
      using assms(5)
      by (auto simp: unlink_child_def double_link_def Let_def bind_eq_Some_conv
          split: option.splits if_splits)
  qed
  then show ?thesis using assms(3,4) other [of q] by (blast intro: children_other_cong)
qed

lemma children_unlink_remove1:
  assumes "children (ffh s) p cs" and "c \<in> set cs"
  obtains s' where "unlink_child p c s = Some s'" and "children (ffh s') p (remove1 c cs)"
    and "left_sibling (ffh s' c) = None" and "right_sibling (ffh s' c) = None"
proof -
  obtain xs ys where cs: "cs = xs @ c # ys" and "c \<notin> set xs"
    using assms(2) by (meson split_list_first)
  then show ?thesis
    using assms(1) children_unlink [of s p xs c ys] that by (metis remove1_middle)
qed

subsection \<open>The interface: an ordered set of children\<close>

text \<open>
  What the reducer protocol relies on: a new child goes to the right end, and a child that
  returns is taken out from wherever it stands, so the order of the others is kept.
\<close>

locale sibling_list =
  fixes rep :: "'s \<Rightarrow> 'p \<Rightarrow> 'p list \<Rightarrow> bool"
    and fresh :: "'s \<Rightarrow> 'p \<Rightarrow> 'p \<Rightarrow> bool"
    and link :: "'p \<Rightarrow> 'p \<Rightarrow> 's \<Rightarrow> 's"
    and unlink :: "'p \<Rightarrow> 'p \<Rightarrow> 's \<Rightarrow> 's option"
  assumes link_appends:
      "rep s p cs \<Longrightarrow> c \<notin> set cs \<Longrightarrow> fresh s p c \<Longrightarrow> rep (link p c s) p (cs @ [c])"
    and unlink_removes:
      "rep s p cs \<Longrightarrow> c \<in> set cs \<Longrightarrow> \<exists>s'. unlink p c s = Some s' \<and> rep s' p (remove1 c cs)"
begin

primrec unlink_all :: "'p \<Rightarrow> 'p list \<Rightarrow> 's \<Rightarrow> 's option" where
  "unlink_all p [] s = Some s"
| "unlink_all p (c # ds) s = do { s \<leftarrow> unlink p c s; unlink_all p ds s }"

lemma unlink_all_any_order:
  "rep s p cs \<Longrightarrow> mset ds \<subseteq># mset cs \<Longrightarrow>
     \<exists>s' es. unlink_all p ds s = Some s' \<and> rep s' p es \<and> mset es = mset cs - mset ds"
proof (induction ds arbitrary: s cs)
  case Nil
  then show ?case by auto
next
  case (Cons d ds)
  then have "d \<in> set cs" by (metis mset_subset_eqD set_mset_mset list.set_intros(1))
  then obtain s1 where "unlink p d s = Some s1" and rep1: "rep s1 p (remove1 d cs)"
    using Cons.prems unlink_removes by blast
  moreover have "mset ds \<subseteq># mset (remove1 d cs)"
    using Cons.prems(2) \<open>d \<in> set cs\<close> by (simp add: insert_subset_eq_iff)
  ultimately show ?case
    using Cons.IH [OF rep1] by (simp add: diff_diff_add_mset add_mset_commute)
qed

lemma link_unlink:
  assumes "rep s p cs" and "c \<notin> set cs" and "fresh s p c"
  obtains s' where "unlink p c (link p c s) = Some s'" and "rep s' p cs"
proof -
  have "rep (link p c s) p (cs @ [c])" using assms by (rule link_appends)
  then obtain s' where "unlink p c (link p c s) = Some s'" "rep s' p (remove1 c (cs @ [c]))"
    using unlink_removes by fastforce
  with that assms(2) show ?thesis by (simp add: remove1_append)
qed

end

interpretation ch: sibling_list "\<lambda>s. children (ffh s)" "\<lambda>s p c. c \<noteq> p \<and> parent (ffh s c) = Some p"
  push_child unlink_child
proof unfold_locales
  fix s :: "('m, 'e) rts" and p cs c
  assume "children (ffh s) p cs" "c \<in> set cs"
  then show "\<exists>s'. unlink_child p c s = Some s' \<and> children (ffh s') p (remove1 c cs)"
    by (metis children_unlink_remove1)
qed (blast intro: children_push)


subsection \<open>Properties\<close>

text \<open>\<^verbatim>\<open>push_child\<close> puts the new frame at the right end of its parent's children, keeps
  the order of the older ones, and leaves the children of every other frame alone.\<close>

theorem push_child_spec:
  assumes "children (ffh s) p cs" and "c \<notin> set cs" and "c \<noteq> p" and "parent (ffh s c) = Some p"
  shows "children (ffh (push_child p c s)) p (cs @ [c]) \<and>
         (\<forall>q ds. q \<noteq> p \<and> c \<notin> set ds \<and> children (ffh s) q ds \<longrightarrow>
           children (ffh (push_child p c s)) q ds)"
  using assms by (auto intro: ch.link_appends children_push_other)

text \<open>C34: \<^verbatim>\<open>unlink_child\<close> on a frame that is among its parent's children does not fail its
  assertion, takes exactly that frame out of the list (wherever it stands), clears its
  sibling links, and leaves the children of every other frame alone.\<close>

theorem unlink_child_spec:
  assumes "children (ffh s) p cs" and "c \<in> set cs"
  shows "\<exists>s'. unlink_child p c s = Some s' \<and> children (ffh s') p (remove1 c cs) \<and>
           left_sibling (ffh s' c) = None \<and> right_sibling (ffh s' c) = None \<and>
           (\<forall>q ds. q \<noteq> p \<and> children (ffh s) q ds \<longrightarrow> children (ffh s') q ds)"
proof -
  obtain s' where "unlink_child p c s = Some s'" and "children (ffh s') p (remove1 c cs)"
    and "left_sibling (ffh s' c) = None" and "right_sibling (ffh s' c) = None"
    using assms by (rule children_unlink_remove1)
  then show ?thesis using children_unlink_other [OF assms] by blast
qed

text \<open>a frame is suspended at a steal with stack pointer \<open>sp0\<close> (\<^verbatim>\<open>put_stack\<close>), resumed on
  another stack at \<open>sp1\<close> (\<^verbatim>\<open>take_stack\<close>), and suspended again at a sync with the pointer
  \<open>sp2\<close>: \<open>sync_sp\<close> is then the old stack pointer moved by exactly the change of depth
  \<open>sp2 - sp1\<close>, with wrap-around; and resuming at that address leaves zero.\<close>

theorem sync_sp_follows_stack:
  fixes s :: "('m, 'e) rts" and sp0 sp1 sp2 :: "64 word"
  assumes "sync_sp (ffh s ff) = 0"
  shows "sync_sp (ffh (put_stack ff sf (upd_sf sf (\<lambda>x. x\<lparr>sf_sp := sp2\<rparr>)
           (take_stack ff sp1 (put_stack ff sf (upd_sf sf (\<lambda>x. x\<lparr>sf_sp := sp0\<rparr>) s))))) ff)
         = sp0 + (sp2 - sp1) \<and>
         sync_sp (ffh (take_stack ff (sp0 + (sp2 - sp1)) (put_stack ff sf (upd_sf sf (\<lambda>x. x\<lparr>sf_sp := sp2\<rparr>)
           (take_stack ff sp1 (put_stack ff sf (upd_sf sf (\<lambda>x. x\<lparr>sf_sp := sp0\<rparr>) s)))))) ff) = 0"
  using assms by (simp_all add: put_stack_def take_stack_def Let_def)

subsection \<open>Witnesses\<close>

definition sf0 :: stack_frame where
  "sf0 = \<lparr>flags = 0, call_parent = None, sf_worker = None, except_data = None, sf_sp = 0, sf_fp = 0,
     sf_pedigree = \<lparr>rank = 0, ped_parent = None\<rparr>\<rparr>"

text \<open>A memory with one frame 0 and its children 1 and 2; frame 3 is not linked yet.\<close>

definition family_rts :: "(unit, unit) rts" where
  "family_rts = \<lparr>ffh = (\<lambda>_. new_full_frame None)
       (0 := (new_full_frame None)\<lparr>rightmost_child := Some 2\<rparr>,
        1 := (new_full_frame None)\<lparr>parent := Some 0, right_sibling := Some 2\<rparr>,
        2 := (new_full_frame None)\<lparr>parent := Some 0, left_sibling := Some 1\<rparr>,
        3 := (new_full_frame None)\<lparr>parent := Some 0\<rparr>),
     ff_brk = 4, ff_freed = [], sfh = (\<lambda>_. sf0), wkh = (\<lambda>_. make_worker 0 0 1)\<rparr>"

lemma family_children: "children (ffh family_rts) 0 [1, 2]"
  by (auto simp: family_rts_def children_def new_full_frame_def last_opt_def)

lemma family_3: "parent (ffh family_rts 3) = Some 0"
  by (simp add: family_rts_def)

theorem push_child_spec_witness:
  "children (ffh (push_child 0 3 family_rts)) 0 ([1, 2] @ [3])"
  using push_child_spec [OF family_children, of 3] by (simp add: family_3)

theorem unlink_child_spec_witness:
  "\<exists>s'. unlink_child 0 1 family_rts = Some s' \<and> children (ffh s') 0 [2]"
  using unlink_child_spec [OF family_children, of 1] by auto

theorem sync_sp_follows_stack_witness:
  "sync_sp (ffh (put_stack 0 0 (upd_sf 0 (\<lambda>x. x\<lparr>sf_sp := 460\<rparr>)
     (take_stack 0 500 (put_stack 0 0 (upd_sf 0 (\<lambda>x. x\<lparr>sf_sp := 1000\<rparr>) family_rts))))) 0)
   = 1000 + (460 - 500)"
  using sync_sp_follows_stack [of family_rts 0 0 460 500 1000]
  by (simp add: family_rts_def new_full_frame_def)

end
