(* ===== verification/Rng.thy ===== *)
theory Rng
  imports Full_Frame
begin

section \<open>Random numbers and the choice of a victim (scheduler.c)\<close>

text \<open>
  The generator \<^verbatim>\<open>myrand\<close> with the state it keeps in \<open>rand_seed\<close>, its seeding, and the lines
  of \<^verbatim>\<open>random_steal\<close> that pick the victim from it. The product is computed in 64 bits and the
  remainder cut to 32 bits, as in the source.
\<close>

definition RNGMOD :: "32 word" where "RNGMOD = 4294967291"
definition RNGMUL :: "32 word" where "RNGMUL = 69070"

definition myrand :: "('m, 'e) worker \<Rightarrow> 32 word \<times> ('m, 'e) worker" where
  "myrand w =
     (let state = rand_seed w;
          state = ucast ((ucast RNGMUL * ucast state) mod (ucast RNGMOD :: 64 word))
      in (state, w\<lparr>rand_seed := state\<rparr>))"

definition mysrand :: "32 word \<Rightarrow> ('m, 'e) worker \<Rightarrow> ('m, 'e) worker" where
  "mysrand seed w =
     (let seed = seed mod RNGMOD;
          seed = seed + (if seed = 0 then 1 else 0)
      in w\<lparr>rand_seed := seed\<rparr>)"

text \<open>\<open>n = myrand(w) % (total_workers - 1); if (n >= w->self) ++n;\<close> (unsigned remainder).\<close>

definition pick_victim :: "32 word \<Rightarrow> int \<Rightarrow> int \<Rightarrow> int" where
  "pick_victim r tot slf =
     (let n = sint (r mod word_of_int (tot - 1)) in if n \<ge> slf then n + 1 else n)"

lemma unat_RNGMOD: "unat RNGMOD = 4294967291"
  by (simp add: RNGMOD_def)

lemma myrand_unat:
  "unat (fst (myrand w)) = (69070 * unat (rand_seed w)) mod 4294967291"
proof -
  let ?s = "rand_seed w"
  have s: "unat ?s < 4294967296" using unsigned_less [of ?s] by simp
  have p: "unat ((ucast RNGMUL :: 64 word) * ucast ?s) = 69070 * unat ?s"
    using s by (simp add: unat_word_ariths RNGMUL_def unsigned_ucast_eq unsigned_take_bit_eq take_bit_nat_eq_self)
  have m: "unat (ucast RNGMOD :: 64 word) = 4294967291"
    by (simp add: RNGMOD_def)
  have "unat (((ucast RNGMUL :: 64 word) * ucast ?s) mod ucast RNGMOD) = (69070 * unat ?s) mod 4294967291"
    by (simp only: unat_mod p m)
  moreover have "\<dots> < 2 ^ 32"
  proof -
    have "(69070 * unat ?s) mod 4294967291 < (4294967291 :: nat)" by (rule mod_less_divisor) simp
    then show ?thesis by simp
  qed
  ultimately show ?thesis by (simp add: myrand_def Let_def unsigned_ucast_eq unsigned_take_bit_eq take_bit_nat_eq_self)
qed

lemma rng_coprime: "coprime (4294967291 :: nat) 69070"
  by (simp add: coprime_iff_gcd_eq_1 gcd_nat.simps gcd_0_nat)

lemma rng_nonzero:
  fixes x :: nat
  assumes "0 < x" and "x < 4294967291"
  shows "(69070 * x) mod 4294967291 \<noteq> 0"
proof
  assume "(69070 * x) mod 4294967291 = 0"
  then have "4294967291 dvd 69070 * x" by (simp add: mod_eq_0_iff_dvd)
  then have "4294967291 dvd x" using rng_coprime by (simp add: coprime_dvd_mult_right_iff)
  with assms show False using nat_dvd_not_less by blast
qed

lemma rng_inj:
  fixes x y :: nat
  assumes "x < 4294967291" "y < 4294967291" "(69070 * x) mod 4294967291 = (69070 * y) mod 4294967291"
    and "x \<le> y"
  shows "x = y"
proof (rule ccontr)
  assume "x \<noteq> y"
  with assms have "0 < y - x" "y - x < 4294967291" by auto
  then have "(69070 * (y - x)) mod 4294967291 \<noteq> 0" by (rule rng_nonzero)
  moreover have "4294967291 dvd (69070 * y - 69070 * x)"
    using assms by (metis mod_eq_dvd_iff_nat mult_le_mono2)
  ultimately show False by (simp add: diff_mult_distrib2 mod_eq_0_iff_dvd)
qed

definition seeded :: "('m, 'e) worker \<Rightarrow> bool" where
  "seeded w \<longleftrightarrow> rand_seed w \<noteq> 0 \<and> unat (rand_seed w) < unat RNGMOD"

lemma seeded_mysrand: "seeded (mysrand seed w)"
proof -
  have "unat (seed mod RNGMOD) < unat RNGMOD"
    by (simp add: unat_mod unat_RNGMOD)
  then show ?thesis
    by (auto simp: seeded_def mysrand_def Let_def unat_RNGMOD)
qed

lemma seeded_myrand: "seeded w \<Longrightarrow> seeded (snd (myrand w))"
proof -
  assume "seeded w"
  then have "0 < unat (rand_seed w)" "unat (rand_seed w) < 4294967291"
    by (auto simp: seeded_def unat_RNGMOD unat_gt_0)
  from rng_nonzero [OF this] have "unat (fst (myrand w)) \<noteq> 0" by (simp only: myrand_unat not_False_eq_True)
  moreover have "unat (fst (myrand w)) < 4294967291"
    unfolding myrand_unat by (rule mod_less_divisor) simp
  moreover have "rand_seed (snd (myrand w)) = fst (myrand w)" by (simp add: myrand_def Let_def)
  ultimately show ?thesis by (auto simp: seeded_def unat_RNGMOD)
qed

lemma pick_victim_int:
  assumes "1 < tot" and "tot \<le> 2 ^ 31 - 1"
  shows "pick_victim r tot slf =
    (let n = int (unat r) mod (tot - 1) in if n \<ge> slf then n + 1 else n)"
proof -
  have "uint (word_of_int m :: 32 word) = m" if "0 \<le> m" "m < 2 ^ 31" for m
    using that by (simp add: uint_word_of_int)
  then have t: "uint (word_of_int (tot - 1) :: 32 word) = tot - 1"
    using assms by (simp del: of_int_diff)
  have u: "uint (r mod word_of_int (tot - 1)) = int (unat r) mod (tot - 1)"
    by (simp add: uint_mod t del: of_int_diff)
  have "int (unat r) mod (tot - 1) < 2 ^ 31"
    using pos_mod_bound [of "tot - 1" "int (unat r)"] assms by linarith
  moreover have "0 \<le> int (unat r) mod (tot - 1)" using assms by (simp add: pos_mod_sign)
  ultimately have "sint (r mod word_of_int (tot - 1)) = int (unat r) mod (tot - 1)"
    using u by (simp add: sint_uint signed_take_bit_int_eq_self_iff)
  then show ?thesis by (simp add: pick_victim_def)
qed

text \<open>the generator never gets stuck. After \<^verbatim>\<open>mysrand\<close> with any seed, every later state of
  \<^verbatim>\<open>myrand\<close> lies in 1 .. RNGMOD - 1, so 0 (which the congruence never leaves) is not
  reached, and \<^verbatim>\<open>myrand\<close> is injective on these states: it permutes them.\<close>

theorem rng_never_stuck:
  fixes w w1 w2 :: "('m, 'e) worker"
  shows "rand_seed (((snd \<circ> myrand) ^^ n) (mysrand seed w)) \<noteq> 0 \<and>
         unat (rand_seed (((snd \<circ> myrand) ^^ n) (mysrand seed w))) < unat RNGMOD \<and>
         (seeded w1 \<and> seeded w2 \<and> fst (myrand w1) = fst (myrand w2) \<longrightarrow> rand_seed w1 = rand_seed w2)"
proof (intro conjI impI)
  have "seeded (((snd \<circ> myrand) ^^ n) (mysrand seed w))"
    by (induction n) (simp_all add: seeded_mysrand seeded_myrand)
  then show "rand_seed (((snd \<circ> myrand) ^^ n) (mysrand seed w)) \<noteq> 0"
    and "unat (rand_seed (((snd \<circ> myrand) ^^ n) (mysrand seed w))) < unat RNGMOD"
    by (simp_all add: seeded_def)
next
  assume a: "seeded w1 \<and> seeded w2 \<and> fst (myrand w1) = fst (myrand w2)"
  then have "(69070 * unat (rand_seed w1)) mod 4294967291 = (69070 * unat (rand_seed w2)) mod 4294967291"
    by (metis myrand_unat)
  then have "unat (rand_seed w1) = unat (rand_seed w2)"
    using a rng_inj nle_le unfolding seeded_def unat_RNGMOD by metis
  then show "rand_seed w1 = rand_seed w2" by (simp only: word_unat_eq_iff)
qed

theorem rng_never_stuck_witness:
  "seeded (mysrand 5 (make_worker 8 0 1 :: (unit, unit) worker)) \<and>
   rand_seed (((snd \<circ> myrand) ^^ 3) (mysrand 0 (make_worker 8 0 1 :: (unit, unit) worker))) \<noteq> 0"
  using rng_never_stuck [of 3 0 "make_worker 8 0 1 :: (unit, unit) worker"] seeded_mysrand by blast

lemma pick_victim_range:
  assumes "1 < tot" and "tot \<le> 2 ^ 31 - 1" and "0 \<le> slf" and "slf < tot"
  shows "pick_victim r tot slf \<in> {0..<tot} - {slf}"
proof -
  have "0 \<le> uint r mod (tot - 1)" "uint r mod (tot - 1) < tot - 1"
    using assms pos_mod_bound [of "tot - 1" "uint r"] by (simp_all add: pos_mod_sign)
  moreover from this have "uint r mod (tot - 1) + 1 < tot" by linarith
  ultimately show ?thesis
    using assms by (auto simp: pick_victim_int Let_def)
qed

text \<open>the victim picked by \<^verbatim>\<open>random_steal\<close> is a worker of the table other than the thief, and
  every other worker is picked for some random number: the map from the remainders
  0 .. total - 2 to the other workers is a bijection.\<close>

theorem pick_victim_other:
  assumes "1 < tot" and "tot \<le> 2 ^ 31 - 1" and "0 \<le> slf" and "slf < tot"
  shows "pick_victim r tot slf \<in> {0..<tot} - {slf} \<and>
         (\<forall>v\<in>{0..<tot} - {slf}. \<exists>!n. n \<in> {0..<tot - 1} \<and> pick_victim (word_of_int n) tot slf = v)"
proof (intro conjI ballI)
  show "pick_victim r tot slf \<in> {0..<tot} - {slf}"
    using assms by (rule pick_victim_range)
next
  have n: "pick_victim (word_of_int n) tot slf = (if n \<ge> slf then n + 1 else n)"
    if "n \<in> {0..<tot - 1}" for n
  proof -
    have "uint (word_of_int n :: 32 word) = n"
      using that assms by (simp add: uint_word_of_int)
    with that assms show ?thesis by (simp add: pick_victim_int Let_def)
  qed
  fix v assume v: "v \<in> {0..<tot} - {slf}"
  show "\<exists>!n. n \<in> {0..<tot - 1} \<and> pick_victim (word_of_int n) tot slf = v"
  proof (rule ex1I [of _ "if v > slf then v - 1 else v"])
    show "(if v > slf then v - 1 else v) \<in> {0..<tot - 1} \<and>
        pick_victim (word_of_int (if v > slf then v - 1 else v)) tot slf = v"
      using v assms by (subst n) auto
  next
    fix n assume "n \<in> {0..<tot - 1} \<and> pick_victim (word_of_int n) tot slf = v"
    then show "n = (if v > slf then v - 1 else v)" using n [of n] by (auto split: if_splits)
  qed
qed

theorem pick_victim_other_witness: "pick_victim 77 8 3 \<in> {0..<8} - {3}"
  using pick_victim_other [of 8 3 77] by simp

end
