(* ===== verification/Scheduler_Steal.thy ===== *)
theory Scheduler_Steal
  imports Rng
begin

section \<open>Stealing: promotion of a call stack and the steal itself (scheduler.c)\<close>

text \<open>
  \<^verbatim>\<open>unroll_call_stack\<close>, \<^verbatim>\<open>detach_for_steal\<close>, \<^verbatim>\<open>random_steal\<close> and
  \<^verbatim>\<open>__cilkrts_promote_own_deque\<close>. The pointer loops are partial functions into the option
  monad (a cyclic list would make the C code run forever); that they return on a call stack
  that ends is part of what is proved.
\<close>

unbundle bit_operations_syntax

subsection \<open>Promotion of stack frames to full frames\<close>

definition advance_frame :: "sfptr \<Rightarrow> ('m, 'e) rts \<Rightarrow> sfptr option \<times> ('m, 'e) rts" where
  "advance_frame sf s = (call_parent (sfh s sf), upd_sf sf (\<lambda>x. x\<lparr>call_parent := None\<rparr>) s)"

text \<open>The do-while loop that reverses the list of call parents; the result is \<open>rev_sf\<close>.\<close>

partial_function (option) reverse_call_stack ::
    "sfptr \<Rightarrow> sfptr option \<Rightarrow> ('m, 'e) rts \<Rightarrow> (sfptr \<times> ('m, 'e) rts) option" where
  "reverse_call_stack sf rev_sf s =
     (let t_sf = (if has_flag (flags (sfh s sf))
                       (CILK_FRAME_DETACHED OR CILK_FRAME_STOLEN OR CILK_FRAME_LAST)
                  then None else call_parent (sfh s sf));
          s = upd_sf sf (\<lambda>x. x\<lparr>call_parent := rev_sf\<rparr>) s
      in case t_sf of None \<Rightarrow> Some (sf, s) | Some t \<Rightarrow> reverse_call_stack t (Some sf) s)"

text \<open>The for loop that makes a full frame for each frame of the reversed list.\<close>

partial_function (option) promote_frames ::
    "sfptr \<Rightarrow> sfptr \<Rightarrow> sfptr option \<Rightarrow> ffptr \<Rightarrow> ('m, 'e) rts
      \<Rightarrow> (sfptr \<times> ffptr \<times> ('m, 'e) rts) option" where
  "promote_frames loot_sf sf t_sf ff s =
     (case t_sf of None \<Rightarrow> Some (sf, ff, s)
      | Some t \<Rightarrow>
          Option.bind (make_child ff (Some t) Null_fiber s) (\<lambda>(ff, s).
            let s = make_unrunnable ff (Some t) (t = loot_sf) s;
                (t_sf, s) = advance_frame t s
            in promote_frames loot_sf t t_sf ff s))"

definition unroll_call_stack ::
    "wptr \<Rightarrow> ffptr \<Rightarrow> sfptr \<Rightarrow> ('m, 'e) rts \<Rightarrow> (ffptr \<times> ('m, 'e) rts) option" where
  "unroll_call_stack w ff loot_sf s = do {
     let s = (if sf_worker (sfh s loot_sf) \<noteq> Some w
              then upd_sf loot_sf (\<lambda>x. x\<lparr>flags := set_flag (flags x) CILK_FRAME_UNSYNCHED\<rparr>) s
              else s);
     (sf, s) \<leftarrow> reverse_call_stack loot_sf None s;
     let s = make_unrunnable ff (Some sf) (sf = loot_sf) s;
     let (t_sf, s) = advance_frame sf s;
     (sf, ff, s) \<leftarrow> promote_frames loot_sf sf t_sf ff s;
     cilk_assert (call_parent (sfh s sf) = None);
     Some (ff, s) }"

subsection \<open>The steal\<close>

definition detach_for_steal ::
    "wptr \<Rightarrow> wptr \<Rightarrow> fiber_arg \<Rightarrow> ('m, 'e) rts \<Rightarrow> ('m, 'e) rts option" where
  "detach_for_steal w victim fiber s = do {
     let s = upd_wk w (\<lambda>k. k\<lparr>team := team (wkh s victim)\<rparr>) s;
     cilk_assert (frame_ff (wkh s w) = None \<or> w = victim);
     let h = head (wkh s victim);
     cilk_assert (ltq_slot (wkh s victim) h \<noteq> None);
     let s = upd_wk victim (\<lambda>k. k\<lparr>head := h + 1\<rparr>) s;
     parent_ff \<leftarrow> frame_ff (wkh s victim);
     s \<leftarrow> frame_lock w parent_ff s;
     (_, s) \<leftarrow> decjoin parent_ff s;
     sf \<leftarrow> ltq_slot (wkh s victim) h;
     (loot_ff, s) \<leftarrow> unroll_call_stack w parent_ff sf s;
     let s = (if wtype (wkh s victim) = WORKER_USER \<and> last_full_frame (wkh s victim) = None
              then set_sync_master victim loot_ff s else s);
     s \<leftarrow> (if w = victim then do {
             loot_sf \<leftarrow> call_stack (ffh s loot_ff);
             let s = upd_sf loot_sf (\<lambda>x. x\<lparr>flags := set_flag (flags x) CILK_FRAME_UNSYNCHED\<rparr>) s;
             Some (upd_ff loot_ff (\<lambda>f. f\<lparr>simulated_stolen := True\<rparr>) s) }
           else push_next_frame w loot_ff s);
     (child_ff, s) \<leftarrow> make_child loot_ff None fiber s;
     s \<leftarrow> frame_lock w child_ff s;
     let s = incjoin child_ff s;
     let s = make_runnable victim child_ff s;
     s \<leftarrow> frame_unlock w child_ff s;
     frame_unlock w parent_ff s }"

text \<open>
  The fields of \<^verbatim>\<open>global_state_t\<close> a steal reads, and the answers of the code around it: the
  fiber \<^verbatim>\<open>cilk_fiber_allocate\<close> returned, and what the replay log says (without a log
  \<^verbatim>\<open>replay_get_next_recorded_victim\<close> returns its argument and
  \<^verbatim>\<open>replay_match_victim_pedigree\<close> returns true). An unused fiber goes back to the pool.
\<close>

record global_state =
  total_workers :: int
  stealing_disabled :: bool
  workers :: "int \<Rightarrow> wptr"

record steal_env =
  new_fiber :: "fiber option"
  replay_victim :: "int \<Rightarrow> int"
  replay_match :: bool

text \<open>
  Of the code after a successful steal, resetting the state of the new fiber (fibers are names
  here, their state is in the theory on fiber pools) and writing the replay record are left out.
\<close>

definition random_steal ::
    "global_state \<Rightarrow> steal_env \<Rightarrow> wptr \<Rightarrow> ('m, 'e) rts \<Rightarrow> ('m, 'e) rts option" where
  "random_steal g env w s = do {
     let s = upd_wk w (\<lambda>k. k\<lparr>work_stolen := False\<rparr>) s;
     if stealing_disabled g then Some s
     else do {
       cilk_assert (wtype (wkh s w) = WORKER_SYSTEM \<or> team (wkh s w) = Some w);
       cilk_assert (total_workers g > 1);
       let (r, k) = myrand (wkh s w);
       let s = upd_wk w (\<lambda>_. k) s;
       let n = replay_victim env (pick_victim r (total_workers g) (self (wkh s w)));
       if n = -1 then Some s
       else do {
         let victim = workers g n;
         case new_fiber env of None \<Rightarrow> Some s
         | Some fiber \<Rightarrow> do {
             cilk_assert (victim \<noteq> w);
             if \<not> can_steal_from (wkh s victim) then Some s
             else do {
               (v, locked) \<leftarrow> worker_trylock_other w (wkh s victim);
               let s = upd_wk victim (\<lambda>_. v) s;
               (success, s) \<leftarrow>
                 (if locked then do {
                    (success, s) \<leftarrow>
                      (if wtype (wkh s w) = WORKER_USER \<and> team (wkh s victim) \<noteq> Some w
                       then Some (False, s)
                       else if frame_ff (wkh s victim) \<noteq> None then
                         (let (v, ok) = dekker_protocol (wkh s victim);
                              s = upd_wk victim (\<lambda>_. v) s
                          in if ok then
                               (if \<not> replay_match env
                                then Some (False, upd_wk victim decrement_E s)
                                else do { s \<leftarrow> detach_for_steal w victim (Fiber fiber) s;
                                          Some (True, s) })
                             else Some (False, s))
                       else Some (False, s));
                    v \<leftarrow> worker_unlock_other w (wkh s victim);
                    Some (success, upd_wk victim (\<lambda>_. v) s) }
                  else Some (False, s));
               Some (upd_wk w (\<lambda>k. k\<lparr>work_stolen := success\<rparr>) s) } } } } }"

text \<open>\<^verbatim>\<open>__cilkrts_promote_own_deque\<close>: the loop steals every frame of the worker's own deque.\<close>

partial_function (option) promote_loop :: "wptr \<Rightarrow> ('m, 'e) rts \<Rightarrow> ('m, 'e) rts option" where
  "promote_loop w s =
     (let (v, ok) = dekker_protocol (wkh s w);
          s = upd_wk w (\<lambda>_. v) s
      in if ok then Option.bind (detach_for_steal w w PLACEHOLDER_FIBER s) (promote_loop w)
         else Some s)"

definition promote_own_deque :: "wptr \<Rightarrow> ('m, 'e) rts \<Rightarrow> ('m, 'e) rts option" where
  "promote_own_deque w s = do {
     ff \<leftarrow> frame_ff (wkh s w);
     let starting_fiber = fiber_self (ffh s ff);
     k \<leftarrow> worker_lock w (wkh s w);
     s \<leftarrow> promote_loop w (upd_wk w (\<lambda>_. k) s);
     k \<leftarrow> worker_unlock w (wkh s w);
     let s = upd_wk w (\<lambda>_. k) s;
     ff \<leftarrow> frame_ff (wkh s w);
     cilk_assert (fiber_self (ffh s ff) = starting_fiber);
     Some s }"

subsection \<open>make\_child\<close>

fun parent_fiber :: "fiber_arg \<Rightarrow> fiber option" where
  "parent_fiber (Fiber x) = Some x"
| "parent_fiber _ = None"

definition ff_ok :: "ffptr \<Rightarrow> ('m, 'e) rts \<Rightarrow> bool" where
  "ff_ok ff s \<longleftrightarrow> ff < ff_brk s \<and>
     (\<forall>r. rightmost_child (ffh s ff) = Some r \<longrightarrow> r \<noteq> ff \<and> r < ff_brk s)"

text \<open>The memory after \<open>make_child\<close>: one new frame, its parent, and the former rightmost child.\<close>

definition with_child :: "ffptr \<Rightarrow> sfptr option \<Rightarrow> fiber_arg \<Rightarrow> ('m, 'e) rts \<Rightarrow> ('m, 'e) rts" where
  "with_child ff sfo fb s =
    s\<lparr>ff_brk := Suc (ff_brk s),
      ffh := (\<lambda>p. if p = ff_brk s then
          (new_full_frame sfo)\<lparr>parent := Some ff, left_sibling := rightmost_child (ffh s ff),
             is_call_child := (fb = Null_fiber), fiber_self := fiber_self (ffh s ff)\<rparr>
        else if p = ff then (ffh s ff)\<lparr>rightmost_child := Some (ff_brk s),
             fiber_self := parent_fiber fb, join_counter := join_counter (ffh s ff) + 1\<rparr>
        else if rightmost_child (ffh s ff) = Some p then (ffh s p)\<lparr>right_sibling := Some (ff_brk s)\<rparr>
        else ffh s p)\<rparr>"

lemma with_child_simps [simp]:
  "ff_brk (with_child ff sfo fb s) = Suc (ff_brk s)"
  "sfh (with_child ff sfo fb s) = sfh s" "wkh (with_child ff sfo fb s) = wkh s"
  "ff_freed (with_child ff sfo fb s) = ff_freed s"
  by (simp_all add: with_child_def)

lemma with_child_new:
  "ffh (with_child ff sfo fb s) (ff_brk s) =
     (new_full_frame sfo)\<lparr>parent := Some ff, left_sibling := rightmost_child (ffh s ff),
        is_call_child := (fb = Null_fiber), fiber_self := fiber_self (ffh s ff)\<rparr>"
  by (simp add: with_child_def)

lemma with_child_parent:
  "ff \<noteq> ff_brk s \<Longrightarrow> ffh (with_child ff sfo fb s) ff =
     (ffh s ff)\<lparr>rightmost_child := Some (ff_brk s),
        fiber_self := parent_fiber fb, join_counter := join_counter (ffh s ff) + 1\<rparr>"
  by (simp add: with_child_def)

lemma with_child_other:
  "p \<noteq> ff \<Longrightarrow> p \<noteq> ff_brk s \<Longrightarrow> ffh (with_child ff sfo fb s) p =
     (if rightmost_child (ffh s ff) = Some p then (ffh s p)\<lparr>right_sibling := Some (ff_brk s)\<rparr> else ffh s p)"
  by (simp add: with_child_def)

lemmas with_child_frames = with_child_new with_child_parent with_child_other

lemma make_child_eq:
  assumes "ff_ok ff s" and "call_stack (ffh s ff) \<noteq> None"
  shows "make_child ff sfo fb s = Some (ff_brk s, with_child ff sfo fb s)"
proof (cases "rightmost_child (ffh s ff)")
  case None
  then show ?thesis
    using assms
    by (cases fb) (auto simp: make_child_def make_full_frame_def push_child_def double_link_def incjoin_def
        upd_ff_def Let_def ff_ok_def new_full_frame_def fun_eq_iff with_child_def)
next
  case (Some r)
  then show ?thesis
    using assms
    by (cases fb) (auto simp: make_child_def make_full_frame_def push_child_def double_link_def incjoin_def
        upd_ff_def Let_def ff_ok_def new_full_frame_def fun_eq_iff with_child_def)
qed

subsection \<open>The call stack as a list\<close>

text \<open>
  \<open>call_chain\<close>: the frames the reversing loop visits, youngest first: each but the last has a
  call parent and none of the flags that end the loop. \<open>rev_chain\<close>: a reversed list, oldest
  first, linked through the same field.
\<close>

definition ends_stack :: "stack_frame \<Rightarrow> bool" where
  "ends_stack f \<longleftrightarrow> has_flag (flags f) (CILK_FRAME_DETACHED OR CILK_FRAME_STOLEN OR CILK_FRAME_LAST)"

fun call_chain :: "(sfptr \<Rightarrow> stack_frame) \<Rightarrow> sfptr list \<Rightarrow> bool" where
  "call_chain h [] \<longleftrightarrow> False"
| "call_chain h [f] \<longleftrightarrow> ends_stack (h f) \<or> call_parent (h f) = None"
| "call_chain h (f # g # fs) \<longleftrightarrow>
     \<not> ends_stack (h f) \<and> call_parent (h f) = Some g \<and> call_chain h (g # fs)"

fun rev_chain :: "(sfptr \<Rightarrow> stack_frame) \<Rightarrow> sfptr list \<Rightarrow> bool" where
  "rev_chain h [] \<longleftrightarrow> True"
| "rev_chain h (f # fs) \<longleftrightarrow> call_parent (h f) = hd_opt fs \<and> rev_chain h fs"

lemma call_chain_cong:
  assumes "\<And>x. x \<in> set fs \<Longrightarrow> flags (h' x) = flags (h x) \<and> call_parent (h' x) = call_parent (h x)"
  shows "call_chain h' fs \<longleftrightarrow> call_chain h fs"
  using assms by (induction h fs rule: call_chain.induct) (auto simp: ends_stack_def)

lemma rev_chain_cong:
  assumes "\<And>x. x \<in> set fs \<Longrightarrow> call_parent (h' x) = call_parent (h x)"
  shows "rev_chain h' fs \<longleftrightarrow> rev_chain h fs"
  using assms by (induction fs) auto

text \<open>What the loop leaves: only \<open>call_parent\<close> of the visited frames has changed.\<close>

definition relinked :: "sfptr set \<Rightarrow> ('m, 'e) rts \<Rightarrow> ('m, 'e) rts \<Rightarrow> bool" where
  "relinked X s s' \<longleftrightarrow>
     (\<exists>cp. s' = s\<lparr>sfh := (\<lambda>x. if x \<in> X then (sfh s x)\<lparr>call_parent := cp x\<rparr> else sfh s x)\<rparr>)"

lemma relinked_upd:
  assumes "relinked X (upd_sf f (\<lambda>x. x\<lparr>call_parent := r\<rparr>) s) s'"
  shows "relinked (insert f X) s s'"
proof -
  let ?s1 = "upd_sf f (\<lambda>x. x\<lparr>call_parent := r\<rparr>) s"
  obtain cp where "s' = ?s1\<lparr>sfh := (\<lambda>x. if x \<in> X then (sfh ?s1 x)\<lparr>call_parent := cp x\<rparr> else sfh ?s1 x)\<rparr>"
    using assms unfolding relinked_def by blast
  then show ?thesis
    unfolding relinked_def upd_sf_def
    by (intro exI [of _ "\<lambda>x. if x \<in> X then cp x else r"]) (auto simp: fun_eq_iff)
qed

lemma rev_chain_upd: "f \<notin> set rs \<Longrightarrow> rev_chain (h(f := x)) rs \<longleftrightarrow> rev_chain h rs"
  by (rule rev_chain_cong) auto

lemma reverse_call_stack_spec:
  assumes "call_chain (sfh s) fs" and "distinct (fs @ rs)" and "rev_chain (sfh s) rs"
  shows "\<exists>s'. reverse_call_stack (hd fs) (hd_opt rs) s = Some (last fs, s') \<and>
           rev_chain (sfh s') (rev fs @ rs) \<and> relinked (set fs) s s'"
  using assms
proof (induction fs arbitrary: rs s)
  case Nil
  then show ?case by simp
next
  case (Cons f fs)
  note IH = Cons.IH and CP = Cons.prems
  let ?s1 = "upd_sf f (\<lambda>x. x\<lparr>call_parent := hd_opt rs\<rparr>) s"
  have rs1: "rev_chain (sfh ?s1) (f # rs)"
    using Cons.prems by (simp add: rev_chain_upd)
  show ?case
  proof (cases fs)
    case Nil
    have "relinked {f} s ?s1"
      by (auto simp: relinked_def upd_sf_def fun_eq_iff intro!: exI [of _ "\<lambda>_. hd_opt rs"])
    moreover have "reverse_call_stack f (hd_opt rs) s = Some (f, ?s1)"
      using CP(1) Nil by (subst reverse_call_stack.simps) (auto simp: ends_stack_def Let_def)
    ultimately show ?thesis
      using Nil rs1 by (metis append.simps empty_set last.simps list.sel(1) list.simps(15) rev.simps)
  next
    case (Cons g gs)
    have "call_chain (sfh s) (g # gs)" using CP(1) Cons by simp
    then have "call_chain (sfh ?s1) fs"
      using CP(2) Cons by (subst call_chain_cong [of _ _ "sfh s"]) auto
    then obtain s' where s': "reverse_call_stack (hd fs) (hd_opt (f # rs)) ?s1 = Some (last fs, s')"
      "rev_chain (sfh s') (rev fs @ f # rs)" "relinked (set fs) ?s1 s'"
      using IH [OF _ _ rs1] CP(2) by fastforce
    have "reverse_call_stack f (hd_opt rs) s = reverse_call_stack g (Some f) ?s1"
      using CP(1) Cons by (subst reverse_call_stack.simps) (simp add: ends_stack_def Let_def)
    then show ?thesis using s' Cons relinked_upd [OF s'(3)] by (intro exI [of _ s']) simp
  qed
qed

subsection \<open>The promoted spine\<close>

lemma make_unrunnable_eq:
  "make_unrunnable ff (Some p) l s =
     upd_sf p (\<lambda>x. x\<lparr>flags := set_flag (flags x) (CILK_FRAME_STOLEN OR CILK_FRAME_SUSPENDED),
        sf_worker := None, except_data := None, sf_sp := (if l then 0 else sf_sp x)\<rparr>)
     (upd_ff ff (\<lambda>f. f\<lparr>call_stack := Some p,
        sync_sp := (if l then sf_sp (sfh s p) + sync_sp f else sync_sp f),
        frame_size := (if l \<and> frame_size f = 0 then sf_fp (sfh s p) - sf_sp (sfh s p) else frame_size f)\<rparr>) s)"
  by (auto simp: make_unrunnable_def make_unrunnable_sysdep_def put_stack_def Let_def upd_ff_def upd_sf_def)

text \<open>A stack frame that was promoted: suspended, stolen, without worker and call parent.\<close>

definition suspended_sf :: "stack_frame \<Rightarrow> bool" where
  "suspended_sf x \<longleftrightarrow> call_parent x = None \<and> sf_worker x = None \<and>
     has_flag (flags x) CILK_FRAME_STOLEN \<and> has_flag (flags x) CILK_FRAME_SUSPENDED"

lemma has_flag_set_sub:
  "f AND g = f \<Longrightarrow> f \<noteq> 0 \<Longrightarrow> has_flag (set_flag fl g) f"
  by (simp add: has_flag_def set_flag_def bit.conj_disj_distrib2 and.commute [of g])

lemma has_flag_set_mono: "has_flag fl f \<Longrightarrow> has_flag (set_flag fl g) f"
  by (simp add: has_flag_def set_flag_def bit.conj_disj_distrib2 or_eq_0_iff)

lemma suspended_sf_make_unrunnable:
  "suspended_sf (x\<lparr>flags := set_flag (flags x) (CILK_FRAME_STOLEN OR CILK_FRAME_SUSPENDED),
     sf_worker := None, except_data := None, sf_sp := v, call_parent := None\<rparr>)"
  by (simp add: suspended_sf_def has_flag_set_sub frame_flag_defs)

text \<open>What promotion keeps of a stack frame: its pedigree, its ABI version and the flags it has.\<close>

definition sf_kept :: "stack_frame \<Rightarrow> stack_frame \<Rightarrow> bool" where
  "sf_kept x y \<longleftrightarrow> sf_pedigree y = sf_pedigree x \<and>
     CILK_FRAME_VERSION_VALUE (flags y) = CILK_FRAME_VERSION_VALUE (flags x) \<and>
     (\<forall>f. has_flag (flags x) f \<longrightarrow> has_flag (flags y) f)"

lemma version_set_flag:
  "f AND CILK_FRAME_VERSION_MASK = 0 \<Longrightarrow> CILK_FRAME_VERSION_VALUE (set_flag fl f) = CILK_FRAME_VERSION_VALUE fl"
  by (simp add: CILK_FRAME_VERSION_VALUE_def set_flag_def bit.conj_disj_distrib2)

lemma sf_kept_refl [simp]: "sf_kept x x"
  by (simp add: sf_kept_def)

lemma sf_kept_trans [trans]: "sf_kept x y \<Longrightarrow> sf_kept y z \<Longrightarrow> sf_kept x z"
  by (simp add: sf_kept_def)

lemma sf_kept_make_unrunnable:
  "sf_kept x (x\<lparr>flags := set_flag (flags x) (CILK_FRAME_STOLEN OR CILK_FRAME_SUSPENDED),
     sf_worker := None, except_data := None, sf_sp := v, call_parent := c\<rparr>)"
  "sf_kept x (x\<lparr>flags := set_flag (flags x) CILK_FRAME_UNSYNCHED\<rparr>)"
  by (simp_all add: sf_kept_def has_flag_set_mono version_set_flag frame_flag_defs)

text \<open>A full frame nobody has touched since it was made, but for its links.\<close>

definition fresh_frame :: "('m, 'e) full_frame \<Rightarrow> bool" where
  "fresh_frame f \<longleftrightarrow> full_frame_magic_0 f = FULL_FRAME_MAGIC_0 \<and> full_frame_magic_1 f = FULL_FRAME_MAGIC_1 \<and>
     mutex_free (ff_lock f) \<and> pending_exception f = None"

text \<open>
  Below the frame \<open>p\<close> (whose join counter was \<open>j\<close>) hang one call child per stack frame of the
  list, at addresses from \<open>k\<close> on; each inner frame waits for exactly its call child and has
  given its fiber away, and the last one holds the fiber \<open>fb\<close>.
\<close>

fun promoted :: "(ffptr \<Rightarrow> ('m, 'e) full_frame) \<Rightarrow> int \<Rightarrow> ffptr \<Rightarrow> sfptr list \<Rightarrow> ffptr \<Rightarrow> fiber option \<Rightarrow> bool" where
  "promoted h j p [] k fb \<longleftrightarrow> join_counter (h p) = j \<and> fiber_self (h p) = fb"
| "promoted h j p (x # xs) k fb \<longleftrightarrow>
     join_counter (h p) = j + 1 \<and> fiber_self (h p) = None \<and> rightmost_child (h p) = Some k \<and>
     parent (h k) = Some p \<and> is_call_child (h k) \<and> call_stack (h k) = Some x \<and>
     right_sibling (h k) = None \<and> fresh_frame (h k) \<and> (xs = [] \<longrightarrow> rightmost_child (h k) = None) \<and>
     promoted h 0 k xs (Suc k) fb"

definition promoted_heap ::
    "ffptr \<Rightarrow> sfptr list \<Rightarrow> ('m, 'e) rts \<Rightarrow> ('m, 'e) rts \<Rightarrow> bool" where
  "promoted_heap ff xs s s' \<longleftrightarrow>
     ff_brk s' = ff_brk s + length xs \<and> wkh s' = wkh s \<and> ff_freed s' = ff_freed s \<and>
     (\<forall>p<ff_brk s. p \<noteq> ff \<longrightarrow> ffh s' p =
        (if xs \<noteq> [] \<and> rightmost_child (ffh s ff) = Some p
         then (ffh s p)\<lparr>right_sibling := Some (ff_brk s)\<rparr> else ffh s p)) \<and>
     ffh s' ff = (if xs = [] then ffh s ff else (ffh s ff)\<lparr>rightmost_child := Some (ff_brk s),
        fiber_self := None, join_counter := join_counter (ffh s ff) + 1\<rparr>) \<and>
     promoted (ffh s') (join_counter (ffh s ff)) ff xs (ff_brk s) (fiber_self (ffh s ff)) \<and>
     (\<forall>x. if x \<in> set xs then suspended_sf (sfh s' x) else sfh s' x = sfh s x) \<and>
     (\<forall>x. sf_kept (sfh s x) (sfh s' x))"

lemma promoted_heap_Cons:
  assumes h: "promoted_heap (ff_brk s) xs s3 s'" and brk: "ff_brk s3 = Suc (ff_brk s)"
    and other: "\<And>p. p \<noteq> ff_brk s \<Longrightarrow> ffh s3 p = ffh (with_child ff (Some x) Null_fiber s) p"
    and new: "parent (ffh s3 (ff_brk s)) = Some ff" "is_call_child (ffh s3 (ff_brk s))"
      "call_stack (ffh s3 (ff_brk s)) = Some x" "right_sibling (ffh s3 (ff_brk s)) = None"
      "rightmost_child (ffh s3 (ff_brk s)) = None" "join_counter (ffh s3 (ff_brk s)) = 0"
      "fiber_self (ffh s3 (ff_brk s)) = fiber_self (ffh s ff)" "fresh_frame (ffh s3 (ff_brk s))"
    and rest: "wkh s3 = wkh s" "ff_freed s3 = ff_freed s"
    and sf: "suspended_sf (sfh s3 x)" "\<And>y. y \<noteq> x \<Longrightarrow> sfh s3 y = sfh s y"
      "\<And>y. sf_kept (sfh s y) (sfh s3 y)"
    and ff: "ff < ff_brk s" and "x \<notin> set xs"
  shows "promoted_heap ff (x # xs) s s'"
proof -
  have old: "ffh s' p = ffh (with_child ff (Some x) Null_fiber s) p" if "p < ff_brk s" for p
    using h that brk new(5) other [of p] by (auto simp: promoted_heap_def)
  have k: "parent (ffh s' (ff_brk s)) = Some ff" "is_call_child (ffh s' (ff_brk s))"
      "call_stack (ffh s' (ff_brk s)) = Some x" "right_sibling (ffh s' (ff_brk s)) = None"
      "xs = [] \<Longrightarrow> rightmost_child (ffh s' (ff_brk s)) = None" "fresh_frame (ffh s' (ff_brk s))"
    using h new by (auto simp: promoted_heap_def fresh_frame_def split: if_splits)
  have "\<forall>y. if y \<in> set (x # xs) then suspended_sf (sfh s' y) else sfh s' y = sfh s y"
    using h sf \<open>x \<notin> set xs\<close> unfolding promoted_heap_def by (metis set_ConsD list.set_intros)
  moreover have "promoted (ffh s') 0 (ff_brk s) xs (Suc (ff_brk s)) (fiber_self (ffh s ff))"
    using h brk new by (simp add: promoted_heap_def)
  moreover have "\<forall>y. sf_kept (sfh s y) (sfh s' y)"
    using h sf(3) unfolding promoted_heap_def by (blast intro: sf_kept_trans)
  ultimately show ?thesis
    using h brk rest old [of ff] ff k
    by (auto simp: promoted_heap_def with_child_frames old)
qed

lemma promote_frames_spec:
  assumes "ff_ok ff s" and "call_stack (ffh s ff) \<noteq> None" and "rev_chain (sfh s) xs" and "distinct xs"
  shows "\<exists>s'. promote_frames loot sf (hd_opt xs) ff s =
           Some (last (sf # xs), if xs = [] then ff else ff_brk s + length xs - 1, s') \<and> promoted_heap ff xs s s'"
  using assms
proof (induction xs arbitrary: sf ff s)
  case Nil
  then show ?case by (simp add: promoted_heap_def promote_frames.simps)
next
  case (Cons x xs)
  let ?k = "ff_brk s"
  let ?s1 = "with_child ff (Some x) Null_fiber s"
  have s1: "make_child ff (Some x) Null_fiber s = Some (?k, ?s1)"
    by (rule make_child_eq) (use Cons.prems in auto)
  let ?s2 = "make_unrunnable ?k (Some x) (x = loot) ?s1"
  let ?s3 = "snd (advance_frame x ?s2)"
  have adv: "fst (advance_frame x ?s2) = hd_opt xs"
    using Cons.prems by (simp add: advance_frame_def make_unrunnable_eq)
  have step: "promote_frames loot sf (hd_opt (x # xs)) ff s = promote_frames loot x (hd_opt xs) ?k ?s3"
    by (subst promote_frames.simps) (simp add: s1 adv [symmetric] split_beta Let_def)
  have "ff_ok ?k ?s3" "call_stack (ffh ?s3 ?k) \<noteq> None"
    by (simp_all add: ff_ok_def advance_frame_def make_unrunnable_eq with_child_new new_full_frame_def)
  moreover have "rev_chain (sfh ?s3) xs" "distinct xs"
    using Cons.prems by (simp_all add: advance_frame_def make_unrunnable_eq rev_chain_upd)
  ultimately obtain s' where s': "promote_frames loot x (hd_opt xs) ?k ?s3 =
      Some (last (x # xs), if xs = [] then ?k else ff_brk ?s3 + length xs - 1, s')"
      "promoted_heap ?k xs ?s3 s'"
    using Cons.IH [of ?k ?s3 x] by blast
  have brk3: "ff_brk ?s3 = Suc ?k" by (simp add: advance_frame_def make_unrunnable_eq)
  have other3: "ffh ?s3 p = ffh ?s1 p" if "p \<noteq> ?k" for p
    using that by (simp add: advance_frame_def make_unrunnable_eq)
  have new3: "parent (ffh ?s3 ?k) = Some ff" "is_call_child (ffh ?s3 ?k)" "call_stack (ffh ?s3 ?k) = Some x"
      "right_sibling (ffh ?s3 ?k) = None" "rightmost_child (ffh ?s3 ?k) = None"
      "join_counter (ffh ?s3 ?k) = 0" "fiber_self (ffh ?s3 ?k) = fiber_self (ffh s ff)" "fresh_frame (ffh ?s3 ?k)"
    by (simp_all add: advance_frame_def make_unrunnable_eq with_child_new new_full_frame_def fresh_frame_def mutex_init_def)
  have rest3: "wkh ?s3 = wkh s" "ff_freed ?s3 = ff_freed s"
    by (simp_all add: advance_frame_def make_unrunnable_eq)
  have sf3: "suspended_sf (sfh ?s3 x)" "y \<noteq> x \<Longrightarrow> sfh ?s3 y = sfh s y" for y
    using suspended_sf_make_unrunnable [where x = "sfh s x"] by (simp_all add: advance_frame_def make_unrunnable_eq)
  have mono3: "sf_kept (sfh s y) (sfh ?s3 y)" for y
    by (simp add: advance_frame_def make_unrunnable_eq sf_kept_make_unrunnable)
  have "promoted_heap ff (x # xs) s s'"
    by (rule promoted_heap_Cons [OF s'(2) brk3 other3 new3 rest3 sf3 mono3])
      (use Cons.prems in \<open>auto simp: ff_ok_def\<close>)
  then show ?case
    using s'(1) step brk3 by (cases xs) auto
qed

lemma unsynched_nonzero: "CILK_FRAME_UNSYNCHED \<noteq> 0"
  by (simp add: frame_flag_defs)

lemma ends_stack_unsynched:
  "ends_stack (x\<lparr>flags := set_flag (flags x) CILK_FRAME_UNSYNCHED\<rparr>) = ends_stack x"
  by (simp add: ends_stack_def has_set_flag_other frame_flag_defs)

lemma call_chain_unsynched:
  "call_chain ((h(f := (h f)\<lparr>flags := set_flag (flags (h f)) CILK_FRAME_UNSYNCHED\<rparr>))) fs = call_chain h fs"
  by (induction h fs rule: call_chain.induct) (simp_all add: ends_stack_unsynched)

text \<open>What \<open>unroll_call_stack\<close> leaves of the frame \<open>ff\<close> it starts from and of the other frames.\<close>

definition unrolled :: "ffptr \<Rightarrow> sfptr list \<Rightarrow> ('m, 'e) rts \<Rightarrow> ('m, 'e) rts \<Rightarrow> bool" where
  "unrolled ff fs s s' \<longleftrightarrow>
     ff_brk s' + 1 = ff_brk s + length fs \<and> wkh s' = wkh s \<and> ff_freed s' = ff_freed s \<and>
     (\<forall>p<ff_brk s. p \<noteq> ff \<longrightarrow> ffh s' p =
        (if tl fs \<noteq> [] \<and> rightmost_child (ffh s ff) = Some p
         then (ffh s p)\<lparr>right_sibling := Some (ff_brk s)\<rparr> else ffh s p)) \<and>
     (\<exists>sp fz. ffh s' ff = (if tl fs = []
         then (ffh s ff)\<lparr>call_stack := Some (last fs), sync_sp := sp, frame_size := fz\<rparr>
         else (ffh s ff)\<lparr>call_stack := Some (last fs), sync_sp := sp, frame_size := fz,
                rightmost_child := Some (ff_brk s), fiber_self := None,
                join_counter := join_counter (ffh s ff) + 1\<rparr>)) \<and>
     promoted (ffh s') (join_counter (ffh s ff)) ff (tl (rev fs)) (ff_brk s) (fiber_self (ffh s ff)) \<and>
     (\<forall>x. if x \<in> set fs then suspended_sf (sfh s' x) else sfh s' x = sfh s x) \<and>
     (\<forall>x. sf_kept (sfh s x) (sfh s' x))"

lemma unroll_call_stack_spec:
  assumes chain: "call_chain (sfh s) (loot # fs)" and dist: "distinct (loot # fs)" and ff: "ff_ok ff s"
  shows "\<exists>s'. unroll_call_stack w ff loot s =
           Some (if fs = [] then ff else ff_brk s + length fs - 1, s') \<and>
           unrolled ff (loot # fs) s s' \<and>
           (sf_worker (sfh s loot) \<noteq> Some w \<longrightarrow> has_flag (flags (sfh s' loot)) CILK_FRAME_UNSYNCHED)"
proof -
  let ?all = "loot # fs"
  define s1 where "s1 = (if sf_worker (sfh s loot) \<noteq> Some w
     then upd_sf loot (\<lambda>x. x\<lparr>flags := set_flag (flags x) CILK_FRAME_UNSYNCHED\<rparr>) s else s)"
  have s1: "call_chain (sfh s1) ?all" "ffh s1 = ffh s" "ff_brk s1 = ff_brk s" "wkh s1 = wkh s"
      "ff_freed s1 = ff_freed s" "\<And>x. x \<notin> set ?all \<Longrightarrow> sfh s1 x = sfh s x"
      "sf_worker (sfh s loot) \<noteq> Some w \<Longrightarrow> has_flag (flags (sfh s1 loot)) CILK_FRAME_UNSYNCHED"
      "\<And>x. sf_kept (sfh s x) (sfh s1 x)"
    using chain dist
    by (auto simp: s1_def call_chain_unsynched unsynched_nonzero sf_kept_make_unrunnable)
  obtain s2 where s2: "reverse_call_stack loot None s1 = Some (last ?all, s2)"
    "rev_chain (sfh s2) (rev ?all)" "relinked (set ?all) s1 s2"
    using reverse_call_stack_spec [OF s1(1), of "[]"] dist by auto
  then have s2': "ffh s2 = ffh s" "ff_brk s2 = ff_brk s" "wkh s2 = wkh s" "ff_freed s2 = ff_freed s"
      "\<And>x. x \<notin> set ?all \<Longrightarrow> sfh s2 x = sfh s x" "flags (sfh s2 loot) = flags (sfh s1 loot)"
      "\<And>x. sf_kept (sfh s1 x) (sfh s2 x)"
    using s1 unfolding relinked_def by (auto simp: sf_kept_def)
  obtain xs where rev: "rev ?all = last ?all # xs" and xs: "xs = tl (rev ?all)"
    by (metis hd_rev list.collapse list.discI rev_is_Nil_conv)
  let ?s3 = "make_unrunnable ff (Some (last ?all)) (last ?all = loot) s2"
  let ?s4 = "snd (advance_frame (last ?all) ?s3)"
  have adv: "fst (advance_frame (last ?all) ?s3) = hd_opt xs"
    using s2(2) unfolding rev by (simp add: advance_frame_def make_unrunnable_eq)
  have d: "distinct (last ?all # xs)" using dist rev by (metis distinct_rev)
  have ok4: "ff_ok ff ?s4" "call_stack (ffh ?s4 ff) \<noteq> None" "rev_chain (sfh ?s4) xs" "distinct xs"
    using ff s2(2) d s2' unfolding rev
    by (simp_all add: ff_ok_def advance_frame_def make_unrunnable_eq rev_chain_upd)
  from promote_frames_spec [OF ok4, of loot "last ?all"]
  obtain s' where s': "promote_frames loot (last ?all) (hd_opt xs) ff ?s4 =
      Some (last (last ?all # xs), if xs = [] then ff else ff_brk ?s4 + length xs - 1, s')"
    "promoted_heap ff xs ?s4 s'" by blast
  have loot: "last (last ?all # xs) = loot" and len: "length xs = length fs" and set: "set ?all = insert (last ?all) (set xs)"
    and nil: "xs = [] \<longleftrightarrow> fs = []"
    using rev by (metis last_rev list.sel(1) list.discI, metis length_rev length_Cons nat.inject,
        metis set_rev list.set(2), metis length_0_conv length_rev length_Cons nat.inject)
  have sf4: "suspended_sf (sfh ?s4 (last ?all))" "\<And>x. x \<noteq> last ?all \<Longrightarrow> sfh ?s4 x = sfh s2 x"
      "\<And>x. sf_kept (sfh s2 x) (sfh ?s4 x)"
    using suspended_sf_make_unrunnable [where x = "sfh s2 (last ?all)"]
    by (auto simp: advance_frame_def make_unrunnable_eq sf_kept_make_unrunnable)
  have kept: "sf_kept (sfh s x) (sfh s' x)" for x
    using s'(2) sf_kept_trans [OF sf_kept_trans [OF s1(8) s2'(7)] sf4(3)] sf_kept_trans
    unfolding promoted_heap_def by metis
  have susp: "if x \<in> set ?all then suspended_sf (sfh s' x) else sfh s' x = sfh s x" for x
    using s'(2) sf4(1,2) s2'(5) [of x] set unfolding promoted_heap_def by (metis insert_iff)
  then have "call_parent (sfh s' loot) = None" by (metis list.set_intros(1) suspended_sf_def)
  then have run: "unroll_call_stack w ff loot s = Some (if fs = [] then ff else ff_brk s + length fs - 1, s')"
    using s2(1) s'(1) s2'(2) loot len nil adv
    by (simp add: unroll_call_stack_def s1_def [symmetric] split_beta Let_def)
      (simp add: advance_frame_def make_unrunnable_eq)
  obtain sp fz where ff4: "ffh ?s4 ff = (ffh s ff)\<lparr>call_stack := Some (last ?all), sync_sp := sp, frame_size := fz\<rparr>"
    using s2'(1) by (simp add: advance_frame_def make_unrunnable_eq)
  have frames4: "p \<noteq> ff \<Longrightarrow> ffh ?s4 p = ffh s p" "ff_brk ?s4 = ff_brk s" "wkh ?s4 = wkh s" "ff_freed ?s4 = ff_freed s" for p
    using s2' by (simp_all add: advance_frame_def make_unrunnable_eq)
  note H = s'(2) [unfolded promoted_heap_def frames4(2-4) ff4 len nil]
  have e1: "promoted (ffh s') (join_counter (ffh s ff)) ff (tl (rev ?all)) (ff_brk s) (fiber_self (ffh s ff))"
    using H unfolding xs [symmetric] by simp
  have e2: "\<forall>p<ff_brk s. p \<noteq> ff \<longrightarrow> ffh s' p =
      (if fs \<noteq> [] \<and> rightmost_child (ffh s ff) = Some p
       then (ffh s p)\<lparr>right_sibling := Some (ff_brk s)\<rparr> else ffh s p)"
  proof (intro allI impI)
    fix p assume p: "p < ff_brk s" "p \<noteq> ff"
    from H p have "ffh s' p = (if fs \<noteq> [] \<and> rightmost_child (ffh s ff) = Some p
       then (ffh ?s4 p)\<lparr>right_sibling := Some (ff_brk s)\<rparr> else ffh ?s4 p)" by simp
    then show "ffh s' p = (if fs \<noteq> [] \<and> rightmost_child (ffh s ff) = Some p
       then (ffh s p)\<lparr>right_sibling := Some (ff_brk s)\<rparr> else ffh s p)"
      unfolding frames4(1) [OF p(2)] .
  qed
  have e3: "ffh s' ff = (if fs = []
         then (ffh s ff)\<lparr>call_stack := Some (last ?all), sync_sp := sp, frame_size := fz\<rparr>
         else (ffh s ff)\<lparr>call_stack := Some (last ?all), sync_sp := sp, frame_size := fz,
                rightmost_child := Some (ff_brk s), fiber_self := None,
                join_counter := join_counter (ffh s ff) + 1\<rparr>)"
    using H by (simp cong: if_cong)
  have e4: "ff_brk s' + 1 = ff_brk s + length ?all" "wkh s' = wkh s" "ff_freed s' = ff_freed s"
    using H by simp_all
  have "unrolled ff ?all s s'"
    unfolding unrolled_def list.sel using e1 e2 e3 e4 susp kept by blast
  moreover have "has_flag (flags (sfh s' loot)) CILK_FRAME_UNSYNCHED" if "sf_worker (sfh s loot) \<noteq> Some w"
    using s'(2) sf4(3) s2'(6) s1(7) [OF that] unfolding promoted_heap_def sf_kept_def by metis
  ultimately show ?thesis using run by blast
qed

subsection \<open>The steal as a whole\<close>

lemma promoted_last:
  assumes "promoted h j p xs k fb"
  shows "fiber_self (h (if xs = [] then p else k + length xs - 1)) = fb \<and>
     join_counter (h (if xs = [] then p else k + length xs - 1)) = (if xs = [] then j else 0) \<and>
     (xs \<noteq> [] \<longrightarrow> call_stack (h (k + length xs - 1)) = Some (last xs) \<and> fresh_frame (h (k + length xs - 1)) \<and>
        rightmost_child (h (k + length xs - 1)) = None)"
  using assms
proof (induction xs arbitrary: j p k)
  case Nil
  then show ?case by simp
next
  case (Cons x xs)
  then show ?case
    using Cons.IH [of 0 k "Suc k"] by (cases xs) auto
qed

lemma unrolled_loot:
  assumes "unrolled ff (sf # fs) s s'" and "ff_ok ff s"
  shows "let loot = (if fs = [] then ff else ff_brk s + length fs - 1) in
     loot < ff_brk s' \<and> ff_ok loot s' \<and> call_stack (ffh s' loot) = Some sf \<and>
     fiber_self (ffh s' loot) = fiber_self (ffh s ff) \<and>
     join_counter (ffh s' loot) = (if fs = [] then join_counter (ffh s ff) else 0) \<and>
     (fs \<noteq> [] \<longrightarrow> fresh_frame (ffh s' loot))"
proof (cases "fs = []")
  case True
  with assms show ?thesis by (auto simp: unrolled_def ff_ok_def Let_def)
next
  case False
  define ys where "ys = tl (rev (sf # fs))"
  have ys: "ys \<noteq> []" "last ys = sf" "length ys = length fs"
    using False by (auto simp: ys_def last_tl intro: list.expand)
  have brk: "ff_brk s' = ff_brk s + length fs" using assms(1) by (simp add: unrolled_def)
  have "promoted (ffh s') (join_counter (ffh s ff)) ff ys (ff_brk s) (fiber_self (ffh s ff))"
    using assms(1) unfolding unrolled_def ys_def by blast
  from promoted_last [OF this] show ?thesis
    using False ys brk by (auto simp: ff_ok_def Let_def)
qed

text \<open>The state in which a thief reaches \<open>detach_for_steal\<close>, and the one it leaves.\<close>

definition steal_ready :: "wptr \<Rightarrow> wptr \<Rightarrow> ffptr \<Rightarrow> sfptr \<Rightarrow> sfptr list \<Rightarrow> ('m, 'e) rts \<Rightarrow> bool" where
  "steal_ready w v p sf fs s \<longleftrightarrow>
     w \<noteq> v \<and> frame_ff (wkh s w) = None \<and> next_frame_ff (wkh s w) = None \<and>
     frame_ff (wkh s v) = Some p \<and> ltq_slot (wkh s v) (head (wkh s v)) = Some sf \<and>
     call_chain (sfh s) (sf # fs) \<and> distinct (sf # fs) \<and> ff_ok p s \<and> 0 < join_counter (ffh s p) \<and>
     full_frame_magic_0 (ffh s p) = FULL_FRAME_MAGIC_0 \<and>
     full_frame_magic_1 (ffh s p) = FULL_FRAME_MAGIC_1 \<and> mutex_free (ff_lock (ffh s p))"

definition stolen_state ::
    "wptr \<Rightarrow> wptr \<Rightarrow> ffptr \<Rightarrow> sfptr \<Rightarrow> sfptr list \<Rightarrow> fiber \<Rightarrow> ('m, 'e) rts \<Rightarrow> ('m, 'e) rts \<Rightarrow> bool" where
  "stolen_state w v p sf fs fb s s' \<longleftrightarrow>
     (let loot = (if fs = [] then p else ff_brk s + length fs - 1); child = ff_brk s + length fs in
      next_frame_ff (wkh s' w) = Some loot \<and> frame_ff (wkh s' v) = Some child \<and>
      head (wkh s' v) = head (wkh s v) + 1 \<and> tail (wkh s' v) = tail (wkh s v) \<and>
      exc (wkh s' v) = exc (wkh s v) \<and> w_lock (wkh s' v) = w_lock (wkh s v) \<and> team (wkh s' w) = team (wkh s v) \<and>
      parent (ffh s' child) = Some loot \<and> \<not> is_call_child (ffh s' child) \<and>
      call_stack (ffh s' child) = None \<and> join_counter (ffh s' child) = 1 \<and>
      rightmost_child (ffh s' loot) = Some child \<and> right_sibling (ffh s' child) = None \<and>
      call_stack (ffh s' loot) = Some sf \<and>
      join_counter (ffh s' loot) = (if fs = [] then join_counter (ffh s p) + 1 else 2) \<and>
      (fs \<noteq> [] \<longrightarrow> join_counter (ffh s' p) = join_counter (ffh s p)) \<and>
      fiber_self (ffh s' child) = fiber_self (ffh s p) \<and> fiber_self (ffh s' loot) = Some fb \<and>
      mutex_free (ff_lock (ffh s' p)) \<and> mutex_free (ff_lock (ffh s' child)) \<and>
      (\<forall>x\<in>set (sf # fs). suspended_sf (sfh s' x)) \<and> (\<forall>x. x \<notin> set (sf # fs) \<longrightarrow> sfh s' x = sfh s x) \<and>
      (\<forall>x. sf_kept (sfh s x) (sfh s' x)) \<and>
      (sf_worker (sfh s sf) \<noteq> Some w \<longrightarrow> has_flag (flags (sfh s' sf)) CILK_FRAME_UNSYNCHED) \<and>
      full_frame_magic_0 (ffh s' loot) = FULL_FRAME_MAGIC_0 \<and> full_frame_magic_1 (ffh s' loot) = FULL_FRAME_MAGIC_1 \<and>
      mutex_free (ff_lock (ffh s' loot)) \<and>
      pending_exception (ffh s' loot) = (if fs = [] then pending_exception (ffh s p) else None) \<and>
      wkh s' w = (wkh s w)\<lparr>team := team (wkh s v), next_frame_ff := Some loot\<rparr> \<and>
      (wtype (wkh s v) = WORKER_USER \<and> last_full_frame (wkh s v) = None \<longrightarrow>
         last_full_frame (wkh s' v) = Some loot \<and> sync_master (ffh s' loot) = Some v))"

lemma mutex_upd_full: "(m :: mutex)\<lparr>mx_lock := a, mx_owner := b\<rparr> = \<lparr>mx_lock = a, mx_owner = b\<rparr>"
  by (cases m) simp

lemma detach_run:
  assumes ready: "steal_ready w v p sf fs s"
    and s1: "s1 = upd_wk v (\<lambda>k. k\<lparr>head := Suc (head (wkh s v))\<rparr>) (upd_wk w (\<lambda>k. k\<lparr>team := team (wkh s v)\<rparr>) s)"
    and s2: "s2 = upd_ff p (\<lambda>f. f\<lparr>ff_lock := \<lparr>mx_lock = 1, mx_owner = Some w\<rparr>, join_counter := join_counter f - 1\<rparr>) s1"
    and un: "unroll_call_stack w p sf s2 = Some (loot, s3)"
    and s4: "s4 = (if wtype (wkh s3 v) = WORKER_USER \<and> last_full_frame (wkh s3 v) = None
              then set_sync_master v loot s3 else s3)"
    and nx: "next_frame_ff (wkh s4 w) = None"
    and s5: "s5 = upd_wk w (\<lambda>k. k\<lparr>next_frame_ff := Some loot\<rparr>) (incjoin loot s4)"
    and ok: "ff_ok loot s5" "call_stack (ffh s5 loot) \<noteq> None"
    and s6: "s6 = make_runnable v (ff_brk s5) (incjoin (ff_brk s5) (with_child loot None (Fiber fb) s5))"
    and lk: "ff_lock (ffh s6 p) = \<lparr>mx_lock = 1, mx_owner = Some w\<rparr>" and p: "p \<noteq> ff_brk s5"
  shows "detach_for_steal w v (Fiber fb) s = Some (upd_ff p (\<lambda>f. f\<lparr>ff_lock := mutex_init\<rparr>) s6)"
proof -
  let ?c = "ff_brk s5"
  have "frame_lock w p s1 = Some (upd_ff p (\<lambda>f. f\<lparr>ff_lock := \<lparr>mx_lock = 1, mx_owner = Some w\<rparr>\<rparr>) s1)"
    using ready unfolding s1
    by (simp add: steal_ready_def frame_lock_def validate_full_frame_def mutex_upd_full)
  moreover have "decjoin p (upd_ff p (\<lambda>f. f\<lparr>ff_lock := \<lparr>mx_lock = 1, mx_owner = Some w\<rparr>\<rparr>) s1)
      = Some (join_counter (ffh s p) - 1, s2)"
    using ready unfolding s1 s2
    by (simp add: steal_ready_def decjoin_def upd_ff_def upd_wk_def Let_def)
  moreover have "make_child loot None (Fiber fb) s5 = Some (?c, with_child loot None (Fiber fb) s5)"
    using ok by (rule make_child_eq)
  moreover have "frame_lock w ?c (with_child loot None (Fiber fb) s5) =
      Some (upd_ff ?c (\<lambda>f. f\<lparr>ff_lock := \<lparr>mx_lock = 1, mx_owner = Some w\<rparr>\<rparr>) (with_child loot None (Fiber fb) s5))"
    by (simp add: frame_lock_def validate_full_frame_def with_child_new new_full_frame_def mutex_init_def)
  moreover have "frame_unlock w ?c (make_runnable v ?c (incjoin ?c
      (upd_ff ?c (\<lambda>f. f\<lparr>ff_lock := \<lparr>mx_lock = 1, mx_owner = Some w\<rparr>\<rparr>) (with_child loot None (Fiber fb) s5)))) = Some s6"
    unfolding s6
    by (simp add: frame_unlock_def make_runnable_def incjoin_def upd_ff_def upd_wk_def
        with_child_new new_full_frame_def mutex_init_def)
  moreover have "frame_unlock w p s6 = Some (upd_ff p (\<lambda>f. f\<lparr>ff_lock := mutex_init\<rparr>) s6)"
    using lk by (simp add: frame_unlock_def mutex_init_def)
  moreover have "push_next_frame w loot s4 = Some s5"
    using nx s5 by (simp add: push_next_frame_def)
  moreover have "ltq_slot (wkh s2 v) (head (wkh s v)) = Some sf"
    using ready unfolding s2 s1 by (simp add: steal_ready_def)
  ultimately show ?thesis
    using ready un
    by (simp add: detach_for_steal_def steal_ready_def Let_def s1 [symmetric] s4 [symmetric])
qed

lemma detach_for_steal_run:
  assumes ready: "steal_ready w v p sf fs s"
  shows "\<exists>s'. detach_for_steal w v (Fiber fb) s = Some s' \<and> stolen_state w v p sf fs fb s s'"
proof -
  define loot where loot: "loot = (if fs = [] then p else ff_brk s + length fs - 1)"
  define s1 where "s1 = upd_wk v (\<lambda>k. k\<lparr>head := Suc (head (wkh s v))\<rparr>) (upd_wk w (\<lambda>k. k\<lparr>team := team (wkh s v)\<rparr>) s)"
  define s2 where "s2 = upd_ff p (\<lambda>f. f\<lparr>ff_lock := \<lparr>mx_lock = 1, mx_owner = Some w\<rparr>, join_counter := join_counter f - 1\<rparr>) s1"
  have s2: "sfh s2 = sfh s" "ff_brk s2 = ff_brk s" "ff_ok p s2" "fiber_self (ffh s2 p) = fiber_self (ffh s p)"
      "join_counter (ffh s2 p) = join_counter (ffh s p) - 1"
      "ff_lock (ffh s2 p) = \<lparr>mx_lock = 1, mx_owner = Some w\<rparr>"
    using ready by (simp_all add: s2_def s1_def steal_ready_def ff_ok_def)
  obtain s3 where un: "unroll_call_stack w p sf s2 = Some (loot, s3)" and u: "unrolled p (sf # fs) s2 s3"
    and uns: "sf_worker (sfh s sf) \<noteq> Some w \<Longrightarrow> has_flag (flags (sfh s3 sf)) CILK_FRAME_UNSYNCHED"
    using unroll_call_stack_spec [of s2 sf fs p w, unfolded s2(1,2), folded loot] ready s2(3)
    unfolding steal_ready_def by blast
  have L: "loot < ff_brk s3" "ff_ok loot s3" "call_stack (ffh s3 loot) = Some sf"
      "fiber_self (ffh s3 loot) = fiber_self (ffh s p)"
      "join_counter (ffh s3 loot) = (if fs = [] then join_counter (ffh s p) - 1 else 0)"
      "fs \<noteq> [] \<Longrightarrow> fresh_frame (ffh s3 loot)"
    using unrolled_loot [OF u s2(3), unfolded Let_def s2(2,4,5), folded loot] by blast+
  have brk3: "ff_brk s3 = ff_brk s + length fs" and wk3: "wkh s3 = wkh s1"
    using u s2(2) by (simp_all add: unrolled_def s2_def)
  have p3: "ff_lock (ffh s3 p) = \<lparr>mx_lock = 1, mx_owner = Some w\<rparr>"
      "fs \<noteq> [] \<Longrightarrow> join_counter (ffh s3 p) = join_counter (ffh s p)"
    using u s2 by (auto simp: unrolled_def)
  have p3': "full_frame_magic_0 (ffh s3 p) = FULL_FRAME_MAGIC_0" "full_frame_magic_1 (ffh s3 p) = FULL_FRAME_MAGIC_1"
      "pending_exception (ffh s3 p) = pending_exception (ffh s p)"
    using u ready by (auto simp: unrolled_def s2_def s1_def steal_ready_def)
  have kept: "sf_kept (sfh s x) (sfh s3 x)" for x
    using u unfolding unrolled_def s2(1) by blast
  have susp: "x \<in> set (sf # fs) \<Longrightarrow> suspended_sf (sfh s3 x)" "x \<notin> set (sf # fs) \<Longrightarrow> sfh s3 x = sfh s x" for x
    using u unfolding unrolled_def s2(1) by metis+
  define s4 where "s4 = (if wtype (wkh s3 v) = WORKER_USER \<and> last_full_frame (wkh s3 v) = None
              then set_sync_master v loot s3 else s3)"
  define s5 where "s5 = upd_wk w (\<lambda>k. k\<lparr>next_frame_ff := Some loot\<rparr>) (incjoin loot s4)"
  define s6 where "s6 = make_runnable v (ff_brk s5) (incjoin (ff_brk s5) (with_child loot None (Fiber fb) s5))"
  have p: "p < ff_brk s" "w \<noteq> v" "v \<noteq> w" using ready by (auto simp: steal_ready_def ff_ok_def)
  have lp: "loot < ff_brk s + length fs" "fs \<noteq> [] \<Longrightarrow> loot \<noteq> p" "fs = [] \<Longrightarrow> loot = p"
    using p(1) by (cases fs; auto simp: loot)+
  have brk5: "ff_brk s5 = ff_brk s + length fs"
    by (simp add: s5_def s4_def incjoin_def set_sync_master_def brk3)
  have s5: "ff_ok loot s5" "call_stack (ffh s5 loot) = Some sf"
    using L by (simp_all add: ff_ok_def s5_def s4_def incjoin_def set_sync_master_def)
  have "detach_for_steal w v (Fiber fb) s = Some (upd_ff p (\<lambda>f. f\<lparr>ff_lock := mutex_init\<rparr>) s6)"
  proof (rule detach_run [OF ready s1_def s2_def un s4_def _ s5_def _ _ s6_def])
    show "next_frame_ff (wkh s4 w) = None"
      using ready by (simp add: s4_def set_sync_master_def wk3 s1_def steal_ready_def)
    show "ff_lock (ffh s6 p) = \<lparr>mx_lock = 1, mx_owner = Some w\<rparr>"
      using p3(1) p brk5
      by (auto simp: s6_def make_runnable_def incjoin_def with_child_def s5_def s4_def set_sync_master_def)
  qed (use s5 p brk5 in auto)
  moreover have "stolen_state w v p sf fs fb s (upd_ff p (\<lambda>f. f\<lparr>ff_lock := mutex_init\<rparr>) s6)"
    unfolding stolen_state_def Let_def loot [symmetric]
    apply (intro conjI ballI allI impI)
    apply (simp_all add: s6_def s5_def s4_def make_runnable_def incjoin_def set_sync_master_def with_child_def
          wk3 s1_def p new_full_frame_def mutex_init_def)
    using p lp L p3 p3' brk3 uns
    apply (auto simp: susp kept fresh_frame_def)
    done
  ultimately show ?thesis by blast
qed

lemma trylock_other_free:
  assumes "validate_worker k = Some ()" and "mutex_free (steal_lock k)" and "mutex_free (w_lock k)"
    and "\<not> do_not_steal k"
  shows "worker_trylock_other i k = Some (k\<lparr>w_lock := \<lparr>mx_lock = 1, mx_owner = Some i\<rparr>\<rparr>, True)"
  using assms mutex_free_eq [of "steal_lock k"]
  by (simp add: worker_trylock_other_def mutex_trylock_def TRY_ACQUIRE_def mutex_upd_full)

text \<open>Everything \<open>random_steal\<close> tests before it takes a frame, for the victim it picks.\<close>

definition steal_enabled :: "global_state \<Rightarrow> steal_env \<Rightarrow> wptr \<Rightarrow> wptr \<Rightarrow> ('m, 'e) rts \<Rightarrow> bool" where
  "steal_enabled g env w v s \<longleftrightarrow>
     \<not> stealing_disabled g \<and> wtype (wkh s w) = WORKER_SYSTEM \<and> 1 < total_workers g \<and>
     (let n = replay_victim env (pick_victim (fst (myrand (wkh s w))) (total_workers g) (self (wkh s w)))
      in n \<noteq> -1 \<and> workers g n = v) \<and>
     replay_match env \<and> validate_worker (wkh s v) = Some () \<and> mutex_free (steal_lock (wkh s v)) \<and>
     mutex_free (w_lock (wkh s v)) \<and> \<not> do_not_steal (wkh s v) \<and> exc (wkh s v) \<noteq> EXC_INFINITY \<and>
     head (wkh s v) < tail (wkh s v) \<and> head (wkh s v) < protected_tail (wkh s v)"

lemma myrand_fields:
  "fst (myrand (k\<lparr>work_stolen := b\<rparr>)) = fst (myrand k)" "self (snd (myrand k)) = self k"
  "wtype (snd (myrand k)) = wtype k" "team (snd (myrand k)) = team k"
  by (simp_all add: myrand_def Let_def)

lemma upd_wk_const: "upd_wk v (\<lambda>_. f (wkh s v)) s = upd_wk v f s"
  by (simp add: upd_wk_def)

lemma random_steal_run:
  assumes en: "steal_enabled g env w v s" and fb: "new_fiber env = Some fb"
    and ready: "steal_ready w v p sf fs s"
  obtains s0 s1 where "steal_ready w v p sf fs s0" and "ffh s0 = ffh s" and "sfh s0 = sfh s" and "ff_brk s0 = ff_brk s"
    and "wkh s0 w = snd (myrand ((wkh s w)\<lparr>work_stolen := False\<rparr>))"
    and "wkh s0 v = (wkh s v)\<lparr>w_lock := \<lparr>mx_lock = 1, mx_owner = Some w\<rparr>, exc := exc (wkh s v) + 1\<rparr>"
    and "detach_for_steal w v (Fiber fb) s0 = Some s1" and "stolen_state w v p sf fs fb s0 s1"
    and "random_steal g env w s = Some (upd_wk w (\<lambda>k. k\<lparr>work_stolen := True\<rparr>)
       (upd_wk v (\<lambda>k. k\<lparr>w_lock := mutex_init\<rparr>) s1))"
proof -
  define k where "k = (wkh s v)\<lparr>w_lock := \<lparr>mx_lock = 1, mx_owner = Some w\<rparr>, exc := exc (wkh s v) + 1\<rparr>"
  define s0 where "s0 = upd_wk v (\<lambda>_. k) (upd_wk w (\<lambda>x. snd (myrand (x\<lparr>work_stolen := False\<rparr>))) s)"
  have wv: "w \<noteq> v" "v \<noteq> w" using ready by (auto simp: steal_ready_def)
  have r0: "steal_ready w v p sf fs s0"
    using ready wv by (auto simp: steal_ready_def s0_def k_def ff_ok_def myrand_def Let_def)
  from detach_for_steal_run [OF r0] obtain s1 where s1: "detach_for_steal w v (Fiber fb) s0 = Some s1"
    "stolen_state w v p sf fs fb s0 s1" by blast
  then have "w_lock (wkh s1 v) = \<lparr>mx_lock = 1, mx_owner = Some w\<rparr>"
    by (simp add: stolen_state_def Let_def s0_def k_def)
  then have unl: "worker_unlock_other w (wkh s1 v) = Some ((wkh s1 v)\<lparr>w_lock := mutex_init\<rparr>)"
    by (simp add: worker_unlock_other_def mutex_init_def)
  have tl: "worker_trylock_other w (wkh s v) =
      Some ((wkh s v)\<lparr>w_lock := \<lparr>mx_lock = 1, mx_owner = Some w\<rparr>\<rparr>, True)"
    using en by (intro trylock_other_free) (simp_all add: steal_enabled_def)
  have dk: "dekker_protocol ((wkh s v)\<lparr>w_lock := \<lparr>mx_lock = 1, mx_owner = Some w\<rparr>\<rparr>) = (k, True)"
    using en by (simp add: steal_enabled_def dekker_protocol_def increment_E_def can_steal_from_def k_def Let_def)
  have eq: "upd_wk v (\<lambda>_. k) (upd_wk v (\<lambda>_. (wkh s v)\<lparr>w_lock := \<lparr>mx_lock = 1, mx_owner = Some w\<rparr>\<rparr>)
      (upd_wk w (\<lambda>_. snd (myrand ((wkh s w)\<lparr>work_stolen := False\<rparr>))) (upd_wk w (\<lambda>k. k\<lparr>work_stolen := False\<rparr>) s))) = s0"
    using wv by (simp add: s0_def upd_wk_def)
  have "random_steal g env w s = Some (upd_wk w (\<lambda>k. k\<lparr>work_stolen := True\<rparr>)
       (upd_wk v (\<lambda>k. k\<lparr>w_lock := mutex_init\<rparr>) s1))"
    using en fb ready tl dk s1(1) unl wv eq
    by (simp add: random_steal_def split_beta Let_def steal_enabled_def steal_ready_def myrand_fields
        can_steal_from_def upd_wk_const)
  then show ?thesis
    using that [OF r0 _ _ _ _ _ s1] wv by (simp add: s0_def k_def)
qed

lemma random_steal_nothing:
  assumes "\<not> stealing_disabled g" and "wtype (wkh s w) = WORKER_SYSTEM" and "1 < total_workers g"
    and "n = replay_victim env (pick_victim (fst (myrand (wkh s w))) (total_workers g) (self (wkh s w)))"
    and "n \<noteq> -1" and "workers g n \<noteq> w" and "\<not> can_steal_from (wkh s (workers g n))"
  shows "random_steal g env w s = Some (upd_wk w (\<lambda>k. snd (myrand (k\<lparr>work_stolen := False\<rparr>))) s)"
proof -
  have "upd_wk w (\<lambda>_. snd (myrand ((wkh s w)\<lparr>work_stolen := False\<rparr>))) (upd_wk w (\<lambda>k. k\<lparr>work_stolen := False\<rparr>) s)
      = upd_wk w (\<lambda>k. snd (myrand (k\<lparr>work_stolen := False\<rparr>))) s"
    by (simp add: upd_wk_def)
  then show ?thesis
    using assms by (simp add: random_steal_def split_beta Let_def myrand_fields split: option.split)
qed

subsection \<open>Properties\<close>

text \<open>C33: \<^verbatim>\<open>unroll_call_stack\<close> returns on every call stack that ends, fails no assertion, and
  promotes exactly its frames: the oldest one belongs to the full frame it was given, each
  younger one to a new call child of the one before, each waiting for exactly that child;
  all stack frames are marked stolen and suspended and lose their worker and call parent, no
  other stack frame changes; the result is the full frame of the youngest, which is marked
  unsynched when another worker unrolls it and gets the fiber.\<close>

theorem unroll_promotes_call_stack:
  assumes "call_chain (sfh s) (loot # fs)" and "distinct (loot # fs)" and "ff_ok ff s"
  shows "\<exists>s' loot_ff. unroll_call_stack w ff loot s = Some (loot_ff, s') \<and>
     ff_brk s' = ff_brk s + length fs \<and>
     call_stack (ffh s' ff) = Some (last (loot # fs)) \<and>
     promoted (ffh s') (join_counter (ffh s ff)) ff (tl (rev (loot # fs))) (ff_brk s) (fiber_self (ffh s ff)) \<and>
     call_stack (ffh s' loot_ff) = Some loot \<and> fiber_self (ffh s' loot_ff) = fiber_self (ffh s ff) \<and>
     (\<forall>x\<in>set (loot # fs). suspended_sf (sfh s' x)) \<and> (\<forall>x. x \<notin> set (loot # fs) \<longrightarrow> sfh s' x = sfh s x) \<and>
     (sf_worker (sfh s loot) \<noteq> Some w \<longrightarrow> has_flag (flags (sfh s' loot)) CILK_FRAME_UNSYNCHED)"
proof -
  obtain s' where run: "unroll_call_stack w ff loot s = Some (if fs = [] then ff else ff_brk s + length fs - 1, s')"
    and u: "unrolled ff (loot # fs) s s'"
    and un: "sf_worker (sfh s loot) \<noteq> Some w \<longrightarrow> has_flag (flags (sfh s' loot)) CILK_FRAME_UNSYNCHED"
    using unroll_call_stack_spec [OF assms] by blast
  have L: "call_stack (ffh s' (if fs = [] then ff else ff_brk s + length fs - 1)) = Some loot \<and>
      fiber_self (ffh s' (if fs = [] then ff else ff_brk s + length fs - 1)) = fiber_self (ffh s ff)"
    using unrolled_loot [OF u assms(3)] unfolding Let_def by blast
  have cs: "call_stack (ffh s' ff) = Some (last (loot # fs))" and brk: "ff_brk s' = ff_brk s + length fs"
    using u by (auto simp: unrolled_def split: if_splits)
  have su: "(\<forall>x\<in>set (loot # fs). suspended_sf (sfh s' x)) \<and> (\<forall>x. x \<notin> set (loot # fs) \<longrightarrow> sfh s' x = sfh s x)"
    and pr: "promoted (ffh s') (join_counter (ffh s ff)) ff (tl (rev (loot # fs))) (ff_brk s) (fiber_self (ffh s ff))"
    using u unfolding unrolled_def by metis+
  show ?thesis
    using run brk cs pr L su un by blast
qed

text \<open>C10: a steal moves the oldest frame of the victim to the thief and installs a new child in
  its place. No assertion fails and all frame locks are released; the victim runs a fresh
  spawn child of the loot, which inherits the old fiber, while the loot gets the thief's
  fiber and becomes its next frame; the join counters count exactly one reference per
  worker and per child; only H of the deque moves.\<close>

theorem detach_for_steal_spec:
  assumes "steal_ready w v p sf fs s"
  shows "\<exists>s'. detach_for_steal w v (Fiber fb) s = Some s' \<and> stolen_state w v p sf fs fb s s'"
  using assms by (rule detach_for_steal_run)

text \<open>when the victim \<^verbatim>\<open>random_steal\<close> picks has a stealable frame and its locks are free, the
  steal succeeds: the thief's next frame is the loot, \<open>work_stolen\<close> is set, the victim has
  lost exactly the frame at H, E has followed H, and the victim's lock is free again.\<close>

theorem random_steal_success:
  assumes "steal_enabled g env w v s" and "new_fiber env = Some fb" and "steal_ready w v p sf fs s"
  shows "\<exists>s'. random_steal g env w s = Some s' \<and> work_stolen (wkh s' w) \<and>
     next_frame_ff (wkh s' w) = Some (if fs = [] then p else ff_brk s + length fs - 1) \<and>
     frame_ff (wkh s' v) = Some (ff_brk s + length fs) \<and>
     head (wkh s' v) = head (wkh s v) + 1 \<and> exc (wkh s' v) = exc (wkh s v) + 1 \<and>
     tail (wkh s' v) = tail (wkh s v) \<and> mutex_free (w_lock (wkh s' v))"
proof -
  obtain s0 s1 where s0: "steal_ready w v p sf fs s0" "ff_brk s0 = ff_brk s"
      "wkh s0 v = (wkh s v)\<lparr>w_lock := \<lparr>mx_lock = 1, mx_owner = Some w\<rparr>, exc := exc (wkh s v) + 1\<rparr>"
    and st: "stolen_state w v p sf fs fb s0 s1"
    and run: "random_steal g env w s = Some (upd_wk w (\<lambda>k. k\<lparr>work_stolen := True\<rparr>)
       (upd_wk v (\<lambda>k. k\<lparr>w_lock := mutex_init\<rparr>) s1))"
    using assms by (rule random_steal_run)
  have "w \<noteq> v" using s0 by (simp add: steal_ready_def)
  with st s0 show ?thesis
    unfolding run by (auto simp: stolen_state_def Let_def mutex_init_def)
qed

text \<open>a victim with nothing to steal (H at T or at the protected tail) is left alone: the
  attempt takes no lock and changes only the thief's random seed and \<open>work_stolen\<close>.\<close>

theorem random_steal_empty:
  assumes "\<not> stealing_disabled g" and "wtype (wkh s w) = WORKER_SYSTEM" and "1 < total_workers g"
    and "n = replay_victim env (pick_victim (fst (myrand (wkh s w))) (total_workers g) (self (wkh s w)))"
    and "n \<noteq> -1" and "workers g n \<noteq> w" and "\<not> can_steal_from (wkh s (workers g n))"
  shows "random_steal g env w s = Some (upd_wk w (\<lambda>k. snd (myrand (k\<lparr>work_stolen := False\<rparr>))) s)"
  using assms by (rule random_steal_nothing)

subsection \<open>Witnesses\<close>

text \<open>
  Worker 0 steals from worker 1, which runs full frame 0 and has one entry in its deque: stack
  frame 10, called by stack frame 11, a spawn helper.
\<close>

definition steal_rts :: "(unit, unit) rts" where
  "steal_rts = \<lparr>ffh = (\<lambda>_. (new_full_frame None)\<lparr>join_counter := 1\<rparr>), ff_brk = 1, ff_freed = [],
     sfh = (\<lambda>_. sf0)(10 := sf0\<lparr>call_parent := Some 11\<rparr>, 11 := sf0\<lparr>flags := CILK_FRAME_DETACHED\<rparr>),
     wkh = (\<lambda>_. (make_worker 8 0 50)\<lparr>wtype := WORKER_SYSTEM, rand_seed := 1\<rparr>)
       (1 := (make_worker 8 1 100)\<lparr>wtype := WORKER_SYSTEM, ltq_slot := (\<lambda>_. None)(100 := Some 10), tail := 101,
               frame_ff := Some 0\<rparr>)\<rparr>"

definition steal_gs :: global_state where
  "steal_gs = \<lparr>total_workers = 2, stealing_disabled = False, workers = nat\<rparr>"

definition steal_env0 :: steal_env where
  "steal_env0 = \<lparr>new_fiber = Some 7, replay_victim = id, replay_match = True\<rparr>"

lemma steal_chain: "call_chain (sfh steal_rts) [10, 11]"
  by (simp add: steal_rts_def sf0_def ends_stack_def has_flag_def frame_flag_defs)

lemma steal_ff_ok: "ff_ok 0 steal_rts"
  by (simp add: steal_rts_def ff_ok_def new_full_frame_def)

lemmas worker_eval = make_worker_def restore_stealing_def reset_THE_exception_def

lemma steal_ready_rts: "steal_ready 0 1 0 10 [11] steal_rts"
  using steal_chain steal_ff_ok
  by (simp add: steal_ready_def) (simp add: steal_rts_def worker_eval new_full_frame_def mutex_init_def)

lemma steal_enabled_rts: "steal_enabled steal_gs steal_env0 0 1 steal_rts"
  by (simp add: steal_enabled_def steal_gs_def steal_env0_def steal_rts_def worker_eval mutex_init_def
      validate_worker_def EXC_INFINITY_def pick_victim_def Let_def)

theorem unroll_promotes_call_stack_witness:
  "\<exists>s' loot_ff. unroll_call_stack 0 0 10 steal_rts = Some (loot_ff, s') \<and> call_stack (ffh s' loot_ff) = Some 10"
  using unroll_promotes_call_stack [OF steal_chain _ steal_ff_ok, of 0] by auto

theorem detach_for_steal_spec_witness:
  "\<exists>s'. detach_for_steal 0 1 (Fiber 7) steal_rts = Some s' \<and> stolen_state 0 1 0 10 [11] 7 steal_rts s'"
  by (rule detach_for_steal_spec [OF steal_ready_rts])

theorem random_steal_success_witness:
  "\<exists>s'. random_steal steal_gs steal_env0 0 steal_rts = Some s' \<and> next_frame_ff (wkh s' 0) = Some 1"
  using random_steal_success [OF steal_enabled_rts _ steal_ready_rts, of 7]
  by (auto simp: steal_env0_def steal_rts_def)

theorem random_steal_empty_witness:
  "random_steal steal_gs steal_env0 0 (upd_wk 1 (\<lambda>k. k\<lparr>head := 101\<rparr>) steal_rts) =
     Some (upd_wk 0 (\<lambda>k. snd (myrand (k\<lparr>work_stolen := False\<rparr>))) (upd_wk 1 (\<lambda>k. k\<lparr>head := 101\<rparr>) steal_rts))"
  by (rule random_steal_empty [OF _ _ _ refl])
    (simp_all add: steal_gs_def steal_env0_def steal_rts_def worker_eval pick_victim_def can_steal_from_def)

end
