(* ===== verification/Scheduler_Sync.thy ===== *)
theory Scheduler_Sync
  imports Scheduler_Steal
begin

section \<open>Joining: syncs and returns (scheduler.c, local\_state.c)\<close>

text \<open>
  The operations that end a strand: the provably good steal at a sync or at the return of a
  spawned child, the return from a called child whose parent was promoted, and the setup of
  the frame a worker continues with. Exceptions are records of the C++ runtime; the
  scheduler moves them between slots, so what it needs of them is the argument \<open>x\<close>.
\<close>

unbundle bit_operations_syntax

subsection \<open>Exceptions, as far as the scheduler sees them\<close>

text \<open>
  \<open>merge_both\<close> is \<^verbatim>\<open>__cilkrts_merge_pending_exceptions\<close> on two records (null when nothing is
  left); \<open>rethrow\<close> and \<open>active\<close> are the fields \<^verbatim>\<open>__cilkrts_setup_for_execution_sysdep\<close> reads.
\<close>

record 'e exn_rt =
  merge_both :: "'e \<Rightarrow> 'e \<Rightarrow> 'e option"
  rethrow :: "'e \<Rightarrow> bool"
  active :: "'e \<Rightarrow> nat option"

fun merge_pending_exceptions :: "'e exn_rt \<Rightarrow> 'e option \<Rightarrow> 'e option \<Rightarrow> 'e option" where
  "merge_pending_exceptions x None right = right"
| "merge_pending_exceptions x (Some l) None = Some l"
| "merge_pending_exceptions x (Some l) (Some r) = merge_both x l r"

text \<open>
  What it does to the frame and the worker. The state of the C++ runtime it also checks and
  restores, and the record it destroys when it is empty, are those of \<open>setup_exceptions\<close> in the
  theory on exceptions.
\<close>

definition setup_for_execution_sysdep ::
    "'e exn_rt \<Rightarrow> wptr \<Rightarrow> ffptr \<Rightarrow> ('m, 'e) rts \<Rightarrow> ('m, 'e) rts option" where
  "setup_for_execution_sysdep x w ff s =
     (case w_pending_exception (wkh s w) of None \<Rightarrow> Some s
      | Some info \<Rightarrow> do {
          let s = upd_wk w (\<lambda>k. k\<lparr>w_pending_exception := None\<rparr>) s;
          sf \<leftarrow> call_stack (ffh s ff);
          let s = (if rethrow x info
                   then upd_sf sf (\<lambda>f. f\<lparr>flags := set_flag (flags f) CILK_FRAME_EXCEPTING\<rparr>) s else s);
          Some (case active x info of None \<Rightarrow> s
            | Some ex \<Rightarrow> upd_sf sf (\<lambda>f. f\<lparr>flags := set_flag (flags f) CILK_FRAME_EXCEPTING,
                                           except_data := Some ex\<rparr>) s) })"

subsection \<open>The provably good steal\<close>

datatype provably_good_steal_t = ABANDON_EXECUTION | CONTINUE_EXECUTION | WAIT_FOR_CONTINUE

definition provably_good_steal_exceptions :: "'e exn_rt \<Rightarrow> ffptr \<Rightarrow> ('m, 'e) rts \<Rightarrow> ('m, 'e) rts" where
  "provably_good_steal_exceptions x ff s =
     upd_ff ff (\<lambda>f. f\<lparr>pending_exception :=
                 merge_pending_exceptions x (child_pending_exception f) (pending_exception f),
               child_pending_exception := None\<rparr>) s"

definition provably_good_steal_stacks :: "ffptr \<Rightarrow> ('m, 'e) rts \<Rightarrow> ('m, 'e) rts option" where
  "provably_good_steal_stacks ff s = do {
     cilk_assert (fiber_self (ffh s ff) = None);
     Some (upd_ff ff (\<lambda>f. f\<lparr>fiber_self := fiber_child f, fiber_child := None\<rparr>) s) }"

definition mark_synched :: "ffptr \<Rightarrow> ('m, 'e) rts \<Rightarrow> ('m, 'e) rts option" where
  "mark_synched ff s = do {
     sf \<leftarrow> call_stack (ffh s ff);
     let s = upd_sf sf (\<lambda>f. f\<lparr>flags := clear_flag (flags f) CILK_FRAME_UNSYNCHED\<rparr>) s;
     Some (upd_ff ff (\<lambda>f. f\<lparr>simulated_stolen := False\<rparr>) s) }"

text \<open>\<open>match_found\<close> is the answer of \<^verbatim>\<open>replay_match_sync_pedigree\<close>, false without a replay log.\<close>

definition provably_good_steal ::
    "'e exn_rt \<Rightarrow> bool \<Rightarrow> wptr \<Rightarrow> ffptr \<Rightarrow> ('m, 'e) rts \<Rightarrow> (provably_good_steal_t \<times> ('m, 'e) rts) option" where
  "provably_good_steal x match_found w ff s = do {
     left \<leftarrow> (if match_found then simulate_decjoin ff s else Some 0);
     if match_found \<and> left \<noteq> 0 then Some (WAIT_FOR_CONTINUE, s)
     else do {
       (n, s) \<leftarrow> decjoin ff s;
       if n = 0 then do {
         let s = provably_good_steal_exceptions x ff s;
         s \<leftarrow> provably_good_steal_stacks ff s;
         s \<leftarrow> mark_synched ff s;
         if sync_master (ffh s ff) \<noteq> None then do {
           tm \<leftarrow> team (wkh s w);
           s \<leftarrow> unset_sync_master tm ff s;
           s \<leftarrow> push_next_frame tm ff s;
           Some (if w = tm then CONTINUE_EXECUTION else ABANDON_EXECUTION, s) }
         else do {
           s \<leftarrow> push_next_frame w ff s;
           Some (CONTINUE_EXECUTION, s) } }
       else Some (ABANDON_EXECUTION, s) } }"

definition unconditional_steal :: "wptr \<Rightarrow> ffptr \<Rightarrow> ('m, 'e) rts \<Rightarrow> ('m, 'e) rts option" where
  "unconditional_steal w ff s = do {
     (_, s) \<leftarrow> decjoin ff s;
     push_next_frame w ff s }"

subsection \<open>Return from a call\<close>

definition splice_exceptions_for_call :: "ffptr \<Rightarrow> ffptr \<Rightarrow> ('m, 'e) rts \<Rightarrow> ('m, 'e) rts option" where
  "splice_exceptions_for_call parent_ff child_ff s = do {
     cilk_assert (is_call_child (ffh s child_ff));
     cilk_assert (right_pending_exception (ffh s child_ff) = None);
     cilk_assert (pending_exception (ffh s parent_ff) = None);
     let s = upd_ff parent_ff (\<lambda>f. f\<lparr>pending_exception := pending_exception (ffh s child_ff)\<rparr>) s;
     Some (upd_ff child_ff (\<lambda>f. f\<lparr>pending_exception := None\<rparr>) s) }"

definition splice_stacks_for_call :: "ffptr \<Rightarrow> ffptr \<Rightarrow> ('m, 'e) rts \<Rightarrow> ('m, 'e) rts option" where
  "splice_stacks_for_call parent_ff child_ff s = do {
     cilk_assert (fiber_child (ffh s child_ff) = None);
     cilk_assert (is_call_child (ffh s child_ff));
     cilk_assert (fiber_self (ffh s parent_ff) = None);
     let s = upd_ff parent_ff (\<lambda>f. f\<lparr>fiber_self := fiber_self (ffh s child_ff)\<rparr>) s;
     Some (upd_ff child_ff (\<lambda>f. f\<lparr>fiber_self := None\<rparr>) s) }"

definition finalize_child_for_call :: "wptr \<Rightarrow> ffptr \<Rightarrow> ffptr \<Rightarrow> ('m, 'e) rts \<Rightarrow> ('m, 'e) rts option" where
  "finalize_child_for_call w parent_ff child_ff s = do {
     cilk_assert (is_call_child (ffh s child_ff));
     cilk_assert (join_counter (ffh s child_ff) = 0);
     cilk_assert (rightmost_child (ffh s child_ff) = None);
     cilk_assert (Some child_ff = rightmost_child (ffh s parent_ff));
     cilk_assert (children_reducer_map (ffh s child_ff) = None);
     cilk_assert (right_reducer_map (ffh s child_ff) = None);
     s \<leftarrow> splice_exceptions_for_call parent_ff child_ff s;
     s \<leftarrow> splice_stacks_for_call parent_ff child_ff s;
     s \<leftarrow> unlink_child parent_ff child_ff s;
     s \<leftarrow> unconditional_steal w parent_ff s;
     destroy_full_frame child_ff s }"

subsection \<open>Setting a worker up to run a frame\<close>

definition setup_for_execution_reducers :: "wptr \<Rightarrow> ffptr \<Rightarrow> ('m, 'e) rts \<Rightarrow> ('m, 'e) rts option" where
  "setup_for_execution_reducers w ff s = do {
     sf \<leftarrow> call_stack (ffh s ff);
     if \<not> has_flag (flags (sfh s sf)) CILK_FRAME_UNSYNCHED then do {
       cilk_assert (rightmost_child (ffh s ff) = None);
       (if children_reducer_map (ffh s ff) \<noteq> None then do {
          cilk_assert (reducer_map (wkh s w) = None);
          let s = upd_wk w (\<lambda>k. k\<lparr>reducer_map := children_reducer_map (ffh s ff)\<rparr>) s;
          Some (upd_ff ff (\<lambda>f. f\<lparr>children_reducer_map := None\<rparr>) s) }
        else Some s) }
     else Some s }"

definition setup_for_execution_exceptions :: "wptr \<Rightarrow> ffptr \<Rightarrow> ('m, 'e) rts \<Rightarrow> ('m, 'e) rts option" where
  "setup_for_execution_exceptions w ff s = do {
     cilk_assert (w_pending_exception (wkh s w) = None);
     let s = upd_wk w (\<lambda>k. k\<lparr>w_pending_exception := pending_exception (ffh s ff)\<rparr>) s;
     Some (upd_ff ff (\<lambda>f. f\<lparr>pending_exception := None\<rparr>) s) }"

definition setup_for_execution_pedigree :: "wptr \<Rightarrow> ('m, 'e) rts \<Rightarrow> ('m, 'e) rts option" where
  "setup_for_execution_pedigree w s = do {
     sf \<leftarrow> current_stack_frame (wkh s w);
     if CILK_FRAME_VERSION_VALUE (flags (sfh s sf)) = 0 then Some s
     else do {
       let pedigree_unsynched = has_flag (flags (sfh s sf)) CILK_FRAME_SF_PEDIGREE_UNSYNCHED;
       let s = upd_sf sf (\<lambda>f. f\<lparr>flags := clear_flag (flags f) CILK_FRAME_SF_PEDIGREE_UNSYNCHED\<rparr>) s;
       let pp = sf_pedigree (sfh s sf);
       let s = (if work_stolen (wkh s w) \<or> pedigree_unsynched
                then upd_wk w (\<lambda>k. k\<lparr>w_pedigree := (w_pedigree k)\<lparr>rank :=
                       (if work_stolen k then rank pp + 1 else rank pp)\<rparr>\<rparr>) s
                else s);
       Some (upd_wk w (\<lambda>k. k\<lparr>w_pedigree := (w_pedigree k)\<lparr>ped_parent := ped_parent pp\<rparr>,
                            work_stolen := False\<rparr>) s) } }"

definition setup_for_execution ::
    "'e exn_rt \<Rightarrow> wptr \<Rightarrow> ffptr \<Rightarrow> bool \<Rightarrow> ('m, 'e) rts \<Rightarrow> ('m, 'e) rts option" where
  "setup_for_execution x w ff is_return_from_call s = do {
     s \<leftarrow> setup_for_execution_reducers w ff s;
     s \<leftarrow> setup_for_execution_exceptions w ff s;
     sf \<leftarrow> call_stack (ffh s ff);
     let s = upd_sf sf (\<lambda>f. f\<lparr>sf_worker := Some w\<rparr>) s;
     let s = upd_wk w (\<lambda>k. k\<lparr>current_stack_frame := call_stack (ffh s ff)\<rparr>) s;
     s \<leftarrow> (if \<not> is_return_from_call then setup_for_execution_pedigree w s else Some s);
     s \<leftarrow> setup_for_execution_sysdep x w ff s;
     let s = upd_wk w reset_deque s;
     Some (make_runnable w ff s) }"

text \<open>\<^verbatim>\<open>scheduling_fiber_prepare_to_resume_user_code\<close> and \<^verbatim>\<open>cilkrts_resume\<close> up to the jump.\<close>

definition prepare_to_resume_user_code :: "wptr \<Rightarrow> sfptr \<Rightarrow> ('m, 'e) rts \<Rightarrow> ('m, 'e) rts" where
  "prepare_to_resume_user_code w sf s =
     upd_sf sf (\<lambda>f. f\<lparr>sf_worker := Some w\<rparr>) (upd_wk w (\<lambda>k. k\<lparr>current_stack_frame := Some sf\<rparr>) s)"

definition cilkrts_resume :: "sfptr \<Rightarrow> ffptr \<Rightarrow> ('m, 'e) rts \<Rightarrow> 64 word \<times> ('m, 'e) rts" where
  "cilkrts_resume sf ff s =
     (let sp = sync_sp (ffh s ff);
          s = take_stack ff sp s;
          s = upd_sf sf (\<lambda>f. f\<lparr>flags := clear_flag (flags f) CILK_FRAME_SUSPENDED\<rparr>) s
      in (sp, s))"

subsection \<open>The scheduling-stack functions and the returns\<close>

definition lock_worker :: "wptr \<Rightarrow> ('m, 'e) rts \<Rightarrow> ('m, 'e) rts option" where
  "lock_worker w s = do { k \<leftarrow> worker_lock w (wkh s w); Some (upd_wk w (\<lambda>_. k) s) }"

definition unlock_worker :: "wptr \<Rightarrow> ('m, 'e) rts \<Rightarrow> ('m, 'e) rts option" where
  "unlock_worker w s = do { k \<leftarrow> worker_unlock w (wkh s w); Some (upd_wk w (\<lambda>_. k) s) }"

definition disown :: "wptr \<Rightarrow> ffptr \<Rightarrow> sfptr option \<Rightarrow> ('m, 'e) rts \<Rightarrow> ffptr option \<times> ('m, 'e) rts" where
  "disown w ff sf s =
     (let s = make_unrunnable ff sf (sf \<noteq> None) s;
          s = upd_wk w (\<lambda>k. k\<lparr>frame_ff := None\<rparr>) s
      in (parent (ffh s ff), s))"

text \<open>
  \<^verbatim>\<open>do_sync\<close> and \<^verbatim>\<open>do_return_from_spawn\<close> up to their replay loops, which only run when the
  first attempt answers \<open>WAIT_FOR_CONTINUE\<close> (during the replay of a log).
\<close>

definition do_sync ::
    "'e exn_rt \<Rightarrow> bool \<Rightarrow> wptr \<Rightarrow> ffptr \<Rightarrow> sfptr \<Rightarrow> ('m, 'e) rts
      \<Rightarrow> (provably_good_steal_t \<times> ('m, 'e) rts) option" where
  "do_sync x match_found w ff sf s = do {
     s \<leftarrow> lock_worker w s;
     s \<leftarrow> frame_lock w ff s;
     cilk_assert (call_parent (sfh s sf) = None);
     cilk_assert (has_flag (flags (sfh s sf)) CILK_FRAME_UNSYNCHED);
     cilk_assert (fiber_self (ffh s ff) = None);
     let s = (if CILK_FRAME_VERSION_VALUE (flags (sfh s sf)) \<ge> 1
              then upd_sf sf (\<lambda>f. f\<lparr>sf_pedigree := \<lparr>rank = rank (w_pedigree (wkh s w)),
                                       ped_parent = ped_parent (w_pedigree (wkh s w))\<rparr>,
                                     flags := set_flag (flags f) CILK_FRAME_SF_PEDIGREE_UNSYNCHED\<rparr>) s
              else s);
     (steal_result, s) \<leftarrow> provably_good_steal x match_found w ff s;
     s \<leftarrow> frame_unlock w ff s;
     let s = (if steal_result \<noteq> WAIT_FOR_CONTINUE then upd_wk w (\<lambda>k. k\<lparr>frame_ff := None\<rparr>) s else s);
     s \<leftarrow> unlock_worker w s;
     Some (steal_result, s) }"

definition do_return_from_spawn ::
    "'e exn_rt \<Rightarrow> bool \<Rightarrow> wptr \<Rightarrow> ffptr \<Rightarrow> sfptr option \<Rightarrow> ('m, 'e) rts
      \<Rightarrow> (provably_good_steal_t \<times> ('m, 'e) rts) option" where
  "do_return_from_spawn x match_found w ff sf s = do {
     s \<leftarrow> lock_worker w s;
     cilk_assert (\<not> is_call_child (ffh s ff));
     cilk_assert (sf = None);
     let parent_ff = parent (ffh s ff);
     s \<leftarrow> frame_lock w ff s;
     (_, s) \<leftarrow> decjoin ff s;
     s \<leftarrow> frame_unlock w ff s;
     parent_ff \<leftarrow> parent_ff;
     s \<leftarrow> frame_lock w parent_ff s;
     (steal_result, s) \<leftarrow>
       (if simulated_stolen (ffh s parent_ff) then do {
          s \<leftarrow> unconditional_steal w parent_ff s; Some (ABANDON_EXECUTION, s) }
        else provably_good_steal x match_found w parent_ff s);
     s \<leftarrow> frame_unlock w parent_ff s;
     s \<leftarrow> unlock_worker w s;
     (if steal_result = WAIT_FOR_CONTINUE then Some (steal_result, s)
      else do { s \<leftarrow> destroy_full_frame ff s; Some (steal_result, s) }) }"

text \<open>\<^verbatim>\<open>run_scheduling_stack_fcn\<close> of local\_state.c.\<close>

definition run_scheduling_stack_fcn ::
    "'e exn_rt \<Rightarrow> bool \<Rightarrow> wptr \<Rightarrow> ('m, 'e) rts \<Rightarrow> (provably_good_steal_t \<times> ('m, 'e) rts) option" where
  "run_scheduling_stack_fcn x match_found w s = do {
     let fcn = post_suspend (wkh s w);
     let ff2 = frame_ff (wkh s w);
     let sf2 = suspended_stack (wkh s w);
     let s = upd_wk w (\<lambda>k. k\<lparr>post_suspend := None, suspended_stack := None, frame_ff := None\<rparr>) s;
     fcn \<leftarrow> fcn;
     ff2 \<leftarrow> ff2;
     (r, s) \<leftarrow> (case fcn of Do_sync \<Rightarrow> do { sf2 \<leftarrow> sf2; do_sync x match_found w ff2 sf2 s }
       | Do_return_from_spawn \<Rightarrow> do_return_from_spawn x match_found w ff2 sf2 s);
     cilk_assert (frame_ff (wkh s w) = None);
     Some (r, s) }"

text \<open>\<^verbatim>\<open>__cilkrts_return\<close>: return from a call whose frame was promoted.\<close>

definition cilkrts_return :: "'e exn_rt \<Rightarrow> wptr \<Rightarrow> ('m, 'e) rts \<Rightarrow> ('m, 'e) rts option" where
  "cilkrts_return x w s = do {
     s \<leftarrow> lock_worker w s;
     ff \<leftarrow> frame_ff (wkh s w);
     cilk_assert (join_counter (ffh s ff) = 1);
     cilk_assert (is_call_child (ffh s ff));
     s \<leftarrow> frame_lock w ff s;
     let (parent_ff, s) = disown w ff None s;
     (_, s) \<leftarrow> decjoin ff s;
     cilk_assert (pending_exception (ffh s ff) = None);
     let s = upd_ff ff (\<lambda>f. f\<lparr>pending_exception := w_pending_exception (wkh s w)\<rparr>) s;
     let s = upd_wk w (\<lambda>k. k\<lparr>w_pending_exception := None\<rparr>) s;
     s \<leftarrow> frame_unlock w ff s;
     parent_ff \<leftarrow> parent_ff;
     s \<leftarrow> frame_lock w parent_ff s;
     s \<leftarrow> finalize_child_for_call w parent_ff ff s;
     s \<leftarrow> frame_unlock w parent_ff s;
     let (nf, s) = pop_next_frame w s;
     cilk_assert (frame_ff (wkh s w) = None);
     s \<leftarrow> (case nf of None \<Rightarrow> Some s
       | Some ff \<Rightarrow> do {
           s \<leftarrow> frame_lock w ff s;
           sf \<leftarrow> call_stack (ffh s ff);
           cilk_assert (call_parent (sfh s sf) = None);
           s \<leftarrow> setup_for_execution x w ff True s;
           frame_unlock w ff s });
     unlock_worker w s }"

subsection \<open>The last to join resumes the frame\<close>

text \<open>Workers arrive one after the other at the sync of \<open>ff\<close> (no replay log).\<close>

primrec join_all :: "'e exn_rt \<Rightarrow> wptr list \<Rightarrow> ffptr \<Rightarrow> ('m, 'e) rts
    \<Rightarrow> (provably_good_steal_t list \<times> ('m, 'e) rts) option" where
  "join_all x [] ff s = Some ([], s)"
| "join_all x (w # ws) ff s = do {
     (r, s) \<leftarrow> provably_good_steal x False w ff s;
     (rs, s) \<leftarrow> join_all x ws ff s;
     Some (r # rs, s) }"

lemma join_all_append:
  "join_all x (us @ ws) ff s = do {
     (rs, s) \<leftarrow> join_all x us ff s;
     (qs, s) \<leftarrow> join_all x ws ff s;
     Some (rs @ qs, s) }"
  by (induction us arbitrary: s) (auto simp: Option.bind_assoc split_beta intro!: Option.bind_cong split: prod.split)

lemma pgs_abandon:
  assumes "1 < join_counter (ffh s ff)"
  shows "provably_good_steal x False w ff s =
    Some (ABANDON_EXECUTION, upd_ff ff (\<lambda>f. f\<lparr>join_counter := join_counter f - 1\<rparr>) s)"
  using assms by (simp add: provably_good_steal_def decjoin_def Let_def)

lemma join_all_abandon:
  assumes "int (length ws) < join_counter (ffh s ff)"
  shows "join_all x ws ff s = Some (replicate (length ws) ABANDON_EXECUTION,
    upd_ff ff (\<lambda>f. f\<lparr>join_counter := join_counter f - int (length ws)\<rparr>) s)"
  using assms
proof (induction ws arbitrary: s)
  case Nil
  then show ?case by (simp add: upd_ff_def)
next
  case (Cons w ws)
  let ?s1 = "upd_ff ff (\<lambda>f. f\<lparr>join_counter := join_counter f - 1\<rparr>) s"
  have "join_all x ws ff ?s1 = Some (replicate (length ws) ABANDON_EXECUTION,
      upd_ff ff (\<lambda>f. f\<lparr>join_counter := join_counter f - int (length ws)\<rparr>) ?s1)"
    using Cons.prems by (intro Cons.IH) simp
  moreover have "upd_ff ff (\<lambda>f. f\<lparr>join_counter := join_counter f - int (length ws)\<rparr>) ?s1 =
      upd_ff ff (\<lambda>f. f\<lparr>join_counter := join_counter f - int (length (w # ws))\<rparr>) s"
    by (simp add: upd_ff_def algebra_simps)
  ultimately show ?case
    using Cons.prems by (simp add: pgs_abandon)
qed

text \<open>The state after the last one has joined: everything the children left is in \<open>ff\<close>.\<close>

definition synched_frame :: "'e exn_rt \<Rightarrow> ('m, 'e) full_frame \<Rightarrow> ('m, 'e) full_frame" where
  "synched_frame x f =
     f\<lparr>pending_exception := merge_pending_exceptions x (child_pending_exception f) (pending_exception f),
       child_pending_exception := None, fiber_self := fiber_child f, fiber_child := None,
       simulated_stolen := False, join_counter := 1\<rparr>"

lemma synched_frame_master:
  "f\<lparr>pending_exception := e, child_pending_exception := e', fiber_self := g, fiber_child := g',
     simulated_stolen := b, sync_master := m, join_counter := j\<rparr> =
   f\<lparr>pending_exception := e, child_pending_exception := e', fiber_self := g, fiber_child := g',
     simulated_stolen := b, join_counter := j, sync_master := m\<rparr>"
  by (cases f) simp

lemma pgs_last:
  assumes "join_counter (ffh s ff) = 1" and "fiber_self (ffh s ff) = None" and "call_stack (ffh s ff) = Some sf"
    and "sync_master (ffh s ff) = None" and "next_frame_ff (wkh s w) = None"
  shows "provably_good_steal x False w ff s = Some (CONTINUE_EXECUTION,
    upd_wk w (\<lambda>k. k\<lparr>next_frame_ff := Some ff\<rparr>)
      (upd_ff ff (synched_frame x)
        (upd_sf sf (\<lambda>f. f\<lparr>flags := clear_flag (flags f) CILK_FRAME_UNSYNCHED\<rparr>) s)))"
  using assms
  by (simp add: provably_good_steal_def decjoin_def provably_good_steal_exceptions_def
      provably_good_steal_stacks_def mark_synched_def push_next_frame_def incjoin_def Let_def
      upd_ff_def upd_sf_def upd_wk_def synched_frame_def)

text \<open>The same when a user worker owns the team: the frame goes back to it.\<close>

lemma pgs_last_master:
  assumes "join_counter (ffh s ff) = 1" and "fiber_self (ffh s ff) = None" and "call_stack (ffh s ff) = Some sf"
    and "sync_master (ffh s ff) = Some m" and "team (wkh s w) = Some m" and "wtype (wkh s m) = WORKER_USER"
    and "next_frame_ff (wkh s m) = None"
  shows "provably_good_steal x False w ff s = Some (if w = m then CONTINUE_EXECUTION else ABANDON_EXECUTION,
    upd_wk m (\<lambda>k. k\<lparr>last_full_frame := None, next_frame_ff := Some ff\<rparr>)
      (upd_ff ff (\<lambda>f. (synched_frame x f)\<lparr>sync_master := None\<rparr>)
        (upd_sf sf (\<lambda>f. f\<lparr>flags := clear_flag (flags f) CILK_FRAME_UNSYNCHED\<rparr>) s)))"
  using assms
  by (simp add: provably_good_steal_def decjoin_def provably_good_steal_exceptions_def unset_sync_master_def
      provably_good_steal_stacks_def mark_synched_def push_next_frame_def incjoin_def Let_def
      upd_ff_def upd_sf_def upd_wk_def synched_frame_def synched_frame_master)

subsection \<open>Return from a call\<close>

text \<open>Unlinking touches the sibling and child links only; \<open>core\<close> forgets them.\<close>

definition core :: "('m, 'e) full_frame \<Rightarrow> ('m, 'e) full_frame" where
  "core f = f\<lparr>left_sibling := None, right_sibling := None, rightmost_child := None\<rparr>"

lemma core_upd [simp]:
  "core (f\<lparr>left_sibling := l\<rparr>) = core f" "core (f\<lparr>right_sibling := l\<rparr>) = core f"
  "core (f\<lparr>rightmost_child := l\<rparr>) = core f"
  by (simp_all add: core_def)

lemma core_eqD:
  assumes "core f = core g"
  shows "full_frame_magic_0 f = full_frame_magic_0 g"
    "ff_lock f = ff_lock g"
    "join_counter f = join_counter g"
    "is_call_child f = is_call_child g"
    "simulated_stolen f = simulated_stolen g"
    "parent f = parent g"
    "call_stack f = call_stack g"
    "children_reducer_map f = children_reducer_map g"
    "right_reducer_map f = right_reducer_map g"
    "pending_exception f = pending_exception g"
    "child_pending_exception f = child_pending_exception g"
    "right_pending_exception f = right_pending_exception g"
    "sync_sp f = sync_sp g"
    "frame_size f = frame_size g"
    "fiber_self f = fiber_self g"
    "fiber_child f = fiber_child g"
    "sync_master f = sync_master g"
    "full_frame_magic_1 f = full_frame_magic_1 g"
  using arg_cong [OF assms, of full_frame_magic_0] arg_cong [OF assms, of ff_lock]
    arg_cong [OF assms, of join_counter]
    arg_cong [OF assms, of is_call_child]
    arg_cong [OF assms, of simulated_stolen]
    arg_cong [OF assms, of parent]
    arg_cong [OF assms, of call_stack]
    arg_cong [OF assms, of children_reducer_map]
    arg_cong [OF assms, of right_reducer_map]
    arg_cong [OF assms, of pending_exception]
    arg_cong [OF assms, of child_pending_exception]
    arg_cong [OF assms, of right_pending_exception]
    arg_cong [OF assms, of sync_sp]
    arg_cong [OF assms, of frame_size]
    arg_cong [OF assms, of fiber_self]
    arg_cong [OF assms, of fiber_child]
    arg_cong [OF assms, of sync_master]
    arg_cong [OF assms, of full_frame_magic_1]
  by (simp_all add: core_def)

lemma unlink_child_fields:
  assumes "unlink_child p c s = Some s'"
  shows "sfh s' = sfh s" "wkh s' = wkh s" "ff_brk s' = ff_brk s" "ff_freed s' = ff_freed s"
    "core (ffh s' q) = core (ffh s q)"
  using assms by (auto simp: unlink_child_def double_link_def Let_def bind_eq_Some_conv
        split: option.splits if_splits)

text \<open>A call child \<open>c\<close> that is done, at the right end of the children of \<open>p\<close>.\<close>

definition call_done :: "ffptr \<Rightarrow> ffptr \<Rightarrow> ffptr list \<Rightarrow> ('m, 'e) rts \<Rightarrow> bool" where
  "call_done p c cs s \<longleftrightarrow>
     children (ffh s) p (cs @ [c]) \<and> is_call_child (ffh s c) \<and> rightmost_child (ffh s c) = None \<and>
     validate_full_frame (ffh s c) = Some () \<and>
     children_reducer_map (ffh s c) = None \<and> right_reducer_map (ffh s c) = None \<and>
     child_pending_exception (ffh s c) = None \<and> right_pending_exception (ffh s c) = None \<and>
     fiber_child (ffh s c) = None \<and> pending_exception (ffh s p) = None \<and> fiber_self (ffh s p) = None \<and>
     0 < join_counter (ffh s p)"

lemma finalize_child_run:
  assumes d: "call_done p c cs s" and j: "join_counter (ffh s c) = 0" and nx: "next_frame_ff (wkh s w) = None"
  obtains s' where "finalize_child_for_call w p c s = Some s'" and "children (ffh s') p cs"
    and "core (ffh s' p) = core ((ffh s p)\<lparr>pending_exception := pending_exception (ffh s c), fiber_self := fiber_self (ffh s c)\<rparr>)"
    and "sfh s' = sfh s" and "wkh s' = (wkh s)(w := (wkh s w)\<lparr>next_frame_ff := Some p\<rparr>)"
    and "ff_freed s' = c # ff_freed s"
proof -
  have pc: "p \<noteq> c" using d by (auto simp: call_done_def children_def)
  define s1 where "s1 = upd_ff c (\<lambda>f. f\<lparr>pending_exception := None\<rparr>)
     (upd_ff p (\<lambda>f. f\<lparr>pending_exception := pending_exception (ffh s c)\<rparr>) s)"
  define s2 where "s2 = upd_ff c (\<lambda>f. f\<lparr>fiber_self := None\<rparr>)
     (upd_ff p (\<lambda>f. f\<lparr>fiber_self := fiber_self (ffh s c)\<rparr>) s1)"
  have r1: "splice_exceptions_for_call p c s = Some s1"
    using d by (simp add: splice_exceptions_for_call_def call_done_def s1_def)
  have r2: "splice_stacks_for_call p c s1 = Some s2"
    using d pc by (simp add: splice_stacks_for_call_def call_done_def s1_def s2_def)
  have ch2: "children (ffh s2) p (cs @ [c])"
    using d unfolding call_done_def by (auto intro!: children_other_cong [of "ffh s"] simp: s1_def s2_def)
  then obtain s3 where r3: "unlink_child p c s2 = Some s3" and ch3: "children (ffh s3) p (cs @ [])"
    by (rule children_unlink)
  note f3 = unlink_child_fields [OF r3]
  note p3 = core_eqD [OF f3(5) [of p]] and c3 = core_eqD [OF f3(5) [of c]]
  define s4 where "s4 = upd_wk w (\<lambda>k. k\<lparr>next_frame_ff := Some p\<rparr>)
     (upd_ff p (\<lambda>f. f\<lparr>join_counter := join_counter f + 1\<rparr>) (upd_ff p (\<lambda>f. f\<lparr>join_counter := join_counter f - 1\<rparr>) s3))"
  have r4: "unconditional_steal w p s3 = Some s4"
    using d nx p3 f3(2) pc
    by (simp add: unconditional_steal_def decjoin_def push_next_frame_def incjoin_def call_done_def s4_def s1_def s2_def)
  define s5 where "s5 = (upd_ff c (\<lambda>f. f\<lparr>ff_lock := mutex_destroy (ff_lock f)\<rparr>) s4)\<lparr>ff_freed := c # ff_freed s4\<rparr>"
  have r5: "destroy_full_frame c s4 = Some s5"
    using d pc c3
    by (simp add: destroy_full_frame_def validate_full_frame_def call_done_def s4_def s1_def s2_def s5_def
        split: if_splits)
  have run: "finalize_child_for_call w p c s = Some s5"
    using d j r1 r2 r3 r4 r5
    by (simp add: finalize_child_for_call_def call_done_def children_def last_opt_def)
  have "children (ffh s5) p cs"
    using ch3 pc by (auto intro!: children_other_cong [of "ffh s3"] simp: s4_def s5_def mutex_destroy_def)
  moreover have "core (ffh s5 p) = core ((ffh s p)\<lparr>pending_exception := pending_exception (ffh s c), fiber_self := fiber_self (ffh s c)\<rparr>)"
    using f3(5) [of p] pc by (simp add: s5_def s4_def s1_def s2_def)
  ultimately show ?thesis
    using run that by (simp add: s5_def s4_def s1_def s2_def f3)
qed

lemma lock_worker_free:
  assumes "validate_worker (wkh s w) = Some ()" and "\<not> do_not_steal (wkh s w)" and "mutex_free (w_lock (wkh s w))"
  shows "lock_worker w s = Some (upd_wk w (\<lambda>k. k\<lparr>do_not_steal := True, w_lock := \<lparr>mx_lock = 1, mx_owner = Some w\<rparr>\<rparr>) s)"
  using assms by (simp add: lock_worker_def worker_lock_def mutex_upd_full upd_wk_def)

lemma unlock_worker_own:
  assumes "do_not_steal (wkh s w)" and "w_lock (wkh s w) = \<lparr>mx_lock = 1, mx_owner = Some w\<rparr>"
  shows "unlock_worker w s = Some (upd_wk w (\<lambda>k. k\<lparr>w_lock := mutex_init, do_not_steal := False\<rparr>) s)"
  using assms by (simp add: unlock_worker_def worker_unlock_def mutex_init_def upd_wk_def)

lemma frame_lock_free:
  assumes "validate_full_frame (ffh s ff) = Some ()" and "mutex_free (ff_lock (ffh s ff))"
  shows "frame_lock w ff s = Some (upd_ff ff (\<lambda>f. f\<lparr>ff_lock := \<lparr>mx_lock = 1, mx_owner = Some w\<rparr>\<rparr>) s)"
  using assms by (simp add: frame_lock_def mutex_upd_full)

lemma frame_unlock_own:
  assumes "ff_lock (ffh s ff) = \<lparr>mx_lock = 1, mx_owner = Some w\<rparr>"
  shows "frame_unlock w ff s = Some (upd_ff ff (\<lambda>f. f\<lparr>ff_lock := mutex_init\<rparr>) s)"
  using assms by (simp add: frame_unlock_def mutex_init_def)

text \<open>A worker about to return from the promoted call child \<open>c\<close> to \<open>p\<close>.\<close>

definition return_ready :: "wptr \<Rightarrow> ffptr \<Rightarrow> ffptr \<Rightarrow> ffptr list \<Rightarrow> sfptr \<Rightarrow> ('m, 'e) rts \<Rightarrow> bool" where
  "return_ready w c p cs sf s \<longleftrightarrow>
     validate_worker (wkh s w) = Some () \<and> \<not> do_not_steal (wkh s w) \<and> mutex_free (w_lock (wkh s w)) \<and>
     frame_ff (wkh s w) = Some c \<and> next_frame_ff (wkh s w) = None \<and> w_pending_exception (wkh s w) = None \<and>
     call_done p c cs s \<and> join_counter (ffh s c) = 1 \<and> pending_exception (ffh s c) = None \<and>
     mutex_free (ff_lock (ffh s c)) \<and> mutex_free (ff_lock (ffh s p)) \<and>
     validate_full_frame (ffh s p) = Some () \<and>
     call_stack (ffh s p) = Some sf \<and> call_parent (sfh s sf) = None \<and>
     (\<not> has_flag (flags (sfh s sf)) CILK_FRAME_UNSYNCHED \<longrightarrow> cs = [] \<and>
        (children_reducer_map (ffh s p) = None \<or> reducer_map (wkh s w) = None))"

text \<open>\<open>setup_for_execution\<close> for a return from a call without a pending exception.\<close>

lemma setup_for_return:
  assumes "call_stack (ffh s p) = Some sf" and "pending_exception (ffh s p) = None"
    and "w_pending_exception (wkh s w) = None"
    and "\<not> has_flag (flags (sfh s sf)) CILK_FRAME_UNSYNCHED \<longrightarrow> rightmost_child (ffh s p) = None \<and>
        (children_reducer_map (ffh s p) = None \<or> reducer_map (wkh s w) = None)"
  shows "\<exists>s'. setup_for_execution x w p True s = Some s' \<and>
     frame_ff (wkh s' w) = Some p \<and> current_stack_frame (wkh s' w) = Some sf \<and>
     head (wkh s' w) = ltq (wkh s w) \<and> tail (wkh s' w) = ltq (wkh s w) \<and> exc (wkh s' w) = ltq (wkh s w) \<and>
     w_lock (wkh s' w) = w_lock (wkh s w) \<and> do_not_steal (wkh s' w) = do_not_steal (wkh s w) \<and>
     next_frame_ff (wkh s' w) = next_frame_ff (wkh s w) \<and> w_pedigree (wkh s' w) = w_pedigree (wkh s w) \<and>
     sf_worker (sfh s' sf) = Some w \<and> ff_freed s' = ff_freed s \<and> call_stack (ffh s' p) = None \<and>
     ff_lock (ffh s' p) = ff_lock (ffh s p) \<and> fiber_self (ffh s' p) = fiber_self (ffh s p) \<and>
     join_counter (ffh s' p) = join_counter (ffh s p) \<and> rightmost_child (ffh s' p) = rightmost_child (ffh s p) \<and>
     (\<forall>q. q \<noteq> p \<longrightarrow> ffh s' q = ffh s q) \<and> left_sibling (ffh s' p) = left_sibling (ffh s p) \<and>
     right_sibling (ffh s' p) = right_sibling (ffh s p) \<and> parent (ffh s' p) = parent (ffh s p)"
proof -
  define s1 where "s1 = (if \<not> has_flag (flags (sfh s sf)) CILK_FRAME_UNSYNCHED \<and> children_reducer_map (ffh s p) \<noteq> None
     then upd_ff p (\<lambda>f. f\<lparr>children_reducer_map := None\<rparr>)
        (upd_wk w (\<lambda>k. k\<lparr>reducer_map := children_reducer_map (ffh s p)\<rparr>) s) else s)"
  have "setup_for_execution_reducers w p s = Some s1"
    using assms by (cases "has_flag (flags (sfh s sf)) CILK_FRAME_UNSYNCHED"; cases "children_reducer_map (ffh s p)")
      (auto simp: setup_for_execution_reducers_def s1_def)
  then show ?thesis
    using assms
    by (auto simp: setup_for_execution_def setup_for_execution_exceptions_def setup_for_execution_sysdep_def
        reset_deque_def reset_THE_exception_def make_runnable_def s1_def)
qed

text \<open>The first half of the return: \<open>c\<close> is disowned and the parent's lock is taken.\<close>

definition returning :: "wptr \<Rightarrow> ffptr \<Rightarrow> ffptr \<Rightarrow> ('m, 'e) rts \<Rightarrow> ('m, 'e) rts" where
  "returning w c p s =
     upd_ff p (\<lambda>f. f\<lparr>ff_lock := \<lparr>mx_lock = 1, mx_owner = Some w\<rparr>\<rparr>)
     (upd_ff c (\<lambda>f. f\<lparr>call_stack := None, join_counter := 0, ff_lock := mutex_init\<rparr>)
     (upd_wk w (\<lambda>k. k\<lparr>do_not_steal := True, w_lock := \<lparr>mx_lock = 1, mx_owner = Some w\<rparr>, frame_ff := None\<rparr>) s))"

lemma returning_fields:
  assumes "p \<noteq> c"
  shows "ffh (returning w c p s) p = (ffh s p)\<lparr>ff_lock := \<lparr>mx_lock = 1, mx_owner = Some w\<rparr>\<rparr>"
    "ffh (returning w c p s) c = (ffh s c)\<lparr>call_stack := None, join_counter := 0, ff_lock := mutex_init\<rparr>"
    "q \<noteq> p \<Longrightarrow> q \<noteq> c \<Longrightarrow> ffh (returning w c p s) q = ffh s q" "sfh (returning w c p s) = sfh s"
    "wkh (returning w c p s) w = (wkh s w)\<lparr>do_not_steal := True, w_lock := \<lparr>mx_lock = 1, mx_owner = Some w\<rparr>, frame_ff := None\<rparr>"
    "ff_freed (returning w c p s) = ff_freed s"
  using assms by (simp_all add: returning_def)

lemma cilkrts_return_first:
  assumes "return_ready w c p cs sf s"
  shows "cilkrts_return x w s = do {
     s \<leftarrow> finalize_child_for_call w p c (returning w c p s);
     s \<leftarrow> frame_unlock w p s;
     let (nf, s) = pop_next_frame w s;
     cilk_assert (frame_ff (wkh s w) = None);
     s \<leftarrow> (case nf of None \<Rightarrow> Some s
       | Some ff \<Rightarrow> do {
           s \<leftarrow> frame_lock w ff s;
           sf \<leftarrow> call_stack (ffh s ff);
           cilk_assert (call_parent (sfh s sf) = None);
           s \<leftarrow> setup_for_execution x w ff True s;
           frame_unlock w ff s });
     unlock_worker w s }"
proof -
  have pc: "p \<noteq> c" using assms by (auto simp: return_ready_def call_done_def children_def)
  have par: "parent (ffh s c) = Some p" using assms by (auto simp: return_ready_def call_done_def children_def)
  define s1 where "s1 = upd_wk w (\<lambda>k. k\<lparr>do_not_steal := True, w_lock := \<lparr>mx_lock = 1, mx_owner = Some w\<rparr>\<rparr>) s"
  define s2 where "s2 = upd_ff c (\<lambda>f. f\<lparr>ff_lock := \<lparr>mx_lock = 1, mx_owner = Some w\<rparr>\<rparr>) s1"
  define s3 where "s3 = upd_wk w (\<lambda>k. k\<lparr>frame_ff := None\<rparr>) (upd_ff c (\<lambda>f. f\<lparr>call_stack := None\<rparr>) s2)"
  define s4 where "s4 = upd_ff c (\<lambda>f. f\<lparr>join_counter := join_counter f - 1\<rparr>) s3"
  define s5 where "s5 = upd_wk w (\<lambda>k. k\<lparr>w_pending_exception := None\<rparr>)
      (upd_ff c (\<lambda>f. f\<lparr>pending_exception := w_pending_exception (wkh s4 w)\<rparr>) s4)"
  define s6 where "s6 = upd_ff c (\<lambda>f. f\<lparr>ff_lock := mutex_init\<rparr>) s5"
  note defs = s1_def s2_def s3_def s4_def s5_def s6_def
  have "lock_worker w s = Some s1"
    unfolding s1_def by (rule lock_worker_free) (use assms in \<open>simp_all add: return_ready_def\<close>)
  moreover have "frame_lock w c s1 = Some s2"
    unfolding s2_def by (rule frame_lock_free) (use assms in \<open>simp_all add: return_ready_def call_done_def s1_def\<close>)
  moreover have "disown w c None s2 = (Some p, s3)"
    using par by (simp add: disown_def make_unrunnable_def s3_def s2_def s1_def)
  moreover have "decjoin c s3 = Some (join_counter (ffh s4 c), s4)" "0 = join_counter (ffh s4 c)"
    using assms by (simp_all add: decjoin_def s4_def s3_def s2_def s1_def return_ready_def)
  moreover have "frame_unlock w c s5 = Some s6"
    unfolding s6_def by (rule frame_unlock_own) (simp add: s5_def s4_def s3_def s2_def)
  moreover have "frame_lock w p s6 = Some (returning w c p s)"
  proof -
    have "frame_lock w p s6 = Some (upd_ff p (\<lambda>f. f\<lparr>ff_lock := \<lparr>mx_lock = 1, mx_owner = Some w\<rparr>\<rparr>) s6)"
      by (rule frame_lock_free) (use assms pc in \<open>simp_all add: return_ready_def defs\<close>)
    moreover have "s6 = upd_ff c (\<lambda>f. f\<lparr>call_stack := None, join_counter := 0, ff_lock := mutex_init\<rparr>)
       (upd_wk w (\<lambda>k. k\<lparr>do_not_steal := True, w_lock := \<lparr>mx_lock = 1, mx_owner = Some w\<rparr>, frame_ff := None\<rparr>) s)"
      using assms
      by (auto simp: defs return_ready_def fun_eq_iff intro!: rts.equality full_frame.equality worker.equality)
    ultimately show ?thesis by (simp add: returning_def)
  qed
  moreover have "frame_ff (wkh s1 w) = Some c" "join_counter (ffh s1 c) = 1" "is_call_child (ffh s1 c)"
      "pending_exception (ffh s4 c) = None"
    using assms by (simp_all add: return_ready_def call_done_def s1_def s2_def s3_def s4_def)
  ultimately show ?thesis
    by (simp add: cilkrts_return_def s5_def [symmetric])
qed

text \<open>What a return leaves: the parent runs on the same worker, with the child's fiber.\<close>

definition returned :: "wptr \<Rightarrow> ffptr \<Rightarrow> ffptr \<Rightarrow> ffptr list \<Rightarrow> sfptr \<Rightarrow> ('m, 'e) rts \<Rightarrow> ('m, 'e) rts \<Rightarrow> bool" where
  "returned w c p cs sf s s' \<longleftrightarrow>
     frame_ff (wkh s' w) = Some p \<and> current_stack_frame (wkh s' w) = Some sf \<and> sf_worker (sfh s' sf) = Some w \<and>
     next_frame_ff (wkh s' w) = None \<and>
     head (wkh s' w) = ltq (wkh s w) \<and> tail (wkh s' w) = ltq (wkh s w) \<and> exc (wkh s' w) = ltq (wkh s w) \<and>
     w_pedigree (wkh s' w) = w_pedigree (wkh s w) \<and>
     mutex_free (w_lock (wkh s' w)) \<and> \<not> do_not_steal (wkh s' w) \<and>
     children (ffh s' ) p cs \<and> fiber_self (ffh s' p) = fiber_self (ffh s c) \<and>
     join_counter (ffh s' p) = join_counter (ffh s p) \<and> call_stack (ffh s' p) = None \<and>
     mutex_free (ff_lock (ffh s' p)) \<and> ff_freed s' = c # ff_freed s"

lemma cilkrts_return_run:
  assumes ready: "return_ready w c p cs sf s"
  shows "\<exists>s'. cilkrts_return x w s = Some s' \<and> returned w c p cs sf s s'"
proof -
  have pc: "p \<noteq> c" using ready by (auto simp: return_ready_def call_done_def children_def)
  note R = returning_fields [OF pc]
  let ?r = "returning w c p s"
  have "children (ffh ?r) p (cs @ [c])"
    using ready unfolding return_ready_def call_done_def
    by (auto intro!: children_other_cong [of "ffh s"] simp: returning_def)
  then have dn: "call_done p c cs ?r"
    using ready by (simp add: call_done_def return_ready_def R validate_full_frame_def)
  have "join_counter (ffh ?r c) = 0" "next_frame_ff (wkh ?r w) = None"
    using ready by (simp_all add: return_ready_def R)
  with dn obtain s8 where r8: "finalize_child_for_call w p c ?r = Some s8" and ch8: "children (ffh s8) p cs"
    and co8: "core (ffh s8 p) = core ((ffh ?r p)\<lparr>pending_exception := pending_exception (ffh ?r c), fiber_self := fiber_self (ffh ?r c)\<rparr>)"
    and sf8: "sfh s8 = sfh ?r" and wk8: "wkh s8 = (wkh ?r)(w := (wkh ?r w)\<lparr>next_frame_ff := Some p\<rparr>)"
    and fr8: "ff_freed s8 = c # ff_freed ?r"
    by (rule finalize_child_run)
  note p8 = core_eqD [OF co8]
  define s9 where "s9 = upd_ff p (\<lambda>f. f\<lparr>ff_lock := mutex_init\<rparr>) s8"
  have r9: "frame_unlock w p s8 = Some s9"
    unfolding s9_def by (rule frame_unlock_own) (simp add: p8 R)
  define s10 where "s10 = upd_wk w (\<lambda>k. k\<lparr>next_frame_ff := None\<rparr>) s9"
  have r10: "pop_next_frame w s9 = (Some p, s10)"
    by (simp add: pop_next_frame_def s10_def s9_def wk8)
  define s11 where "s11 = upd_ff p (\<lambda>f. f\<lparr>ff_lock := \<lparr>mx_lock = 1, mx_owner = Some w\<rparr>\<rparr>) s10"
  have r11: "frame_lock w p s10 = Some s11"
    unfolding s11_def
    by (rule frame_lock_free) (use ready p8 in \<open>simp_all add: R s10_def s9_def return_ready_def validate_full_frame_def mutex_init_def\<close>)
  have rm8: "rightmost_child (ffh s8 p) = last_opt cs" using ch8 by (simp add: children_def)
  have wk11: "wkh s11 w = (wkh s w)\<lparr>do_not_steal := True, w_lock := \<lparr>mx_lock = 1, mx_owner = Some w\<rparr>,
      frame_ff := None, next_frame_ff := None\<rparr>"
    using ready by (simp add: s11_def s10_def s9_def wk8 R return_ready_def)
  have sf11: "sfh s11 = sfh s" by (simp add: s11_def s10_def s9_def sf8 R)
  have p11: "call_stack (ffh s11 p) = Some sf" "pending_exception (ffh s11 p) = None" "rightmost_child (ffh s11 p) = last_opt cs"
      "children_reducer_map (ffh s11 p) = children_reducer_map (ffh s p)" "fiber_self (ffh s11 p) = fiber_self (ffh s c)"
      "join_counter (ffh s11 p) = join_counter (ffh s p)" "ff_lock (ffh s11 p) = \<lparr>mx_lock = 1, mx_owner = Some w\<rparr>"
      "ff_freed s11 = c # ff_freed s"
    using ready p8 pc rm8 fr8 by (simp_all add: R s11_def s10_def s9_def return_ready_def)
  obtain s12 where r12: "setup_for_execution x w p True s11 = Some s12"
    and e12: "frame_ff (wkh s12 w) = Some p" "current_stack_frame (wkh s12 w) = Some sf"
      "head (wkh s12 w) = ltq (wkh s w)" "tail (wkh s12 w) = ltq (wkh s w)" "exc (wkh s12 w) = ltq (wkh s w)"
      "w_lock (wkh s12 w) = \<lparr>mx_lock = 1, mx_owner = Some w\<rparr>" "do_not_steal (wkh s12 w)"
      "next_frame_ff (wkh s12 w) = None" "w_pedigree (wkh s12 w) = w_pedigree (wkh s w)"
      "sf_worker (sfh s12 sf) = Some w" "ff_freed s12 = c # ff_freed s" "call_stack (ffh s12 p) = None"
      "ff_lock (ffh s12 p) = \<lparr>mx_lock = 1, mx_owner = Some w\<rparr>" "fiber_self (ffh s12 p) = fiber_self (ffh s c)"
      "join_counter (ffh s12 p) = join_counter (ffh s p)" "rightmost_child (ffh s12 p) = last_opt cs"
      "\<forall>q. q \<noteq> p \<longrightarrow> ffh s12 q = ffh s11 q"
    using setup_for_return [of s11 p sf w x] ready wk11 sf11 p11 by (auto simp: return_ready_def)
  have ch11: "children (ffh s11) p cs"
    using ch8 by (auto intro!: children_other_cong [of "ffh s8"] simp: s11_def s10_def s9_def)
  then have ch12: "children (ffh s12) p cs"
    using e12(16,17) p11(3) by (intro children_other_cong [OF ch11]) (auto simp: children_def)
  define s13 where "s13 = upd_ff p (\<lambda>f. f\<lparr>ff_lock := mutex_init\<rparr>) s12"
  have r13: "frame_unlock w p s12 = Some s13"
    unfolding s13_def by (rule frame_unlock_own) (rule e12(13))
  have r14: "unlock_worker w s13 = Some (upd_wk w (\<lambda>k. k\<lparr>w_lock := mutex_init, do_not_steal := False\<rparr>) s13)"
    by (rule unlock_worker_own) (simp_all add: s13_def e12)
  have "frame_ff (wkh s10 w) = None" by (simp add: s10_def s9_def wk8 R)
  then have "cilkrts_return x w s = Some (upd_wk w (\<lambda>k. k\<lparr>w_lock := mutex_init, do_not_steal := False\<rparr>) s13)"
    using ready r8 r9 r10 r11 r12 r13 r14 p11(1) sf11
    by (simp add: cilkrts_return_first [OF ready] return_ready_def)
  moreover have "children (ffh s13) p cs"
    using ch12 by (auto intro!: children_other_cong [of "ffh s12"] simp: s13_def)
  ultimately show ?thesis
    by (simp add: returned_def e12 s13_def mutex_init_def)
qed

subsection \<open>The sync\<close>

definition sync_ready :: "wptr \<Rightarrow> ffptr \<Rightarrow> sfptr \<Rightarrow> ('m, 'e) rts \<Rightarrow> bool" where
  "sync_ready w ff sf s \<longleftrightarrow>
     validate_worker (wkh s w) = Some () \<and> \<not> do_not_steal (wkh s w) \<and> mutex_free (w_lock (wkh s w)) \<and>
     next_frame_ff (wkh s w) = None \<and>
     validate_full_frame (ffh s ff) = Some () \<and> mutex_free (ff_lock (ffh s ff)) \<and>
     call_stack (ffh s ff) = Some sf \<and> fiber_self (ffh s ff) = None \<and> sync_master (ffh s ff) = None \<and>
     0 < join_counter (ffh s ff) \<and>
     call_parent (sfh s sf) = None \<and> has_flag (flags (sfh s sf)) CILK_FRAME_UNSYNCHED"

definition save_pedigree :: "('m, 'e) worker \<Rightarrow> stack_frame \<Rightarrow> stack_frame" where
  "save_pedigree k f = (if CILK_FRAME_VERSION_VALUE (flags f) \<ge> 1
     then f\<lparr>sf_pedigree := \<lparr>rank = rank (w_pedigree k), ped_parent = ped_parent (w_pedigree k)\<rparr>,
            flags := set_flag (flags f) CILK_FRAME_SF_PEDIGREE_UNSYNCHED\<rparr> else f)"

lemma upd_sf_if: "(if b (sfh s q) then upd_sf q f s else s) = upd_sf q (\<lambda>x. if b x then f x else x) s"
  by (simp add: upd_sf_def)

lemma do_sync_run:
  assumes r: "sync_ready w ff sf s"
  shows "do_sync x False w ff sf s = Some (
    if join_counter (ffh s ff) = 1 then CONTINUE_EXECUTION else ABANDON_EXECUTION,
    upd_wk w (\<lambda>k. k\<lparr>w_lock := mutex_init, do_not_steal := False\<rparr>)
    (upd_wk w (\<lambda>k. k\<lparr>frame_ff := None\<rparr>)
    (upd_ff ff (\<lambda>f. f\<lparr>ff_lock := mutex_init\<rparr>)
    (snd (the (provably_good_steal x False w ff
      (upd_sf sf (save_pedigree (wkh s w))
      (upd_ff ff (\<lambda>f. f\<lparr>ff_lock := \<lparr>mx_lock = 1, mx_owner = Some w\<rparr>\<rparr>)
      (upd_wk w (\<lambda>k. k\<lparr>do_not_steal := True, w_lock := \<lparr>mx_lock = 1, mx_owner = Some w\<rparr>\<rparr>) s)))))))))"
proof -
  define s1 where "s1 = upd_wk w (\<lambda>k. k\<lparr>do_not_steal := True, w_lock := \<lparr>mx_lock = 1, mx_owner = Some w\<rparr>\<rparr>) s"
  define s2 where "s2 = upd_ff ff (\<lambda>f. f\<lparr>ff_lock := \<lparr>mx_lock = 1, mx_owner = Some w\<rparr>\<rparr>) s1"
  define s3 where "s3 = upd_sf sf (save_pedigree (wkh s w)) s2"
  have r1: "lock_worker w s = Some s1"
    unfolding s1_def by (rule lock_worker_free) (use r in \<open>simp_all add: sync_ready_def\<close>)
  have r2: "frame_lock w ff s1 = Some s2"
    unfolding s2_def by (rule frame_lock_free) (use r in \<open>simp_all add: sync_ready_def s1_def\<close>)
  have a2: "call_parent (sfh s2 sf) = None" "has_flag (flags (sfh s2 sf)) CILK_FRAME_UNSYNCHED" "fiber_self (ffh s2 ff) = None"
    using r by (simp_all add: sync_ready_def s2_def s1_def)
  have r3: "(if CILK_FRAME_VERSION_VALUE (flags (sfh s2 sf)) \<ge> 1
              then upd_sf sf (\<lambda>f. f\<lparr>sf_pedigree := \<lparr>rank = rank (w_pedigree (wkh s2 w)),
                                       ped_parent = ped_parent (w_pedigree (wkh s2 w))\<rparr>,
                                     flags := set_flag (flags f) CILK_FRAME_SF_PEDIGREE_UNSYNCHED\<rparr>) s2
              else s2) = s3"
    by (simp add: s3_def s2_def s1_def save_pedigree_def upd_sf_def)
  have ff3: "ffh s3 ff = (ffh s ff)\<lparr>ff_lock := \<lparr>mx_lock = 1, mx_owner = Some w\<rparr>\<rparr>"
    and wk3: "wkh s3 w = (wkh s w)\<lparr>do_not_steal := True, w_lock := \<lparr>mx_lock = 1, mx_owner = Some w\<rparr>\<rparr>"
    by (simp_all add: s3_def s2_def s1_def)
  let ?res = "if join_counter (ffh s ff) = 1 then CONTINUE_EXECUTION else ABANDON_EXECUTION"
  obtain s4 where r4: "provably_good_steal x False w ff s3 = Some (?res, s4)"
    and e4: "ff_lock (ffh s4 ff) = \<lparr>mx_lock = 1, mx_owner = Some w\<rparr>" "do_not_steal (wkh s4 w)"
      "w_lock (wkh s4 w) = \<lparr>mx_lock = 1, mx_owner = Some w\<rparr>"
  proof (cases "join_counter (ffh s ff) = 1")
    case True
    with r show ?thesis
      using pgs_last [of s3 ff sf w x] that by (simp add: sync_ready_def ff3 wk3 synched_frame_def)
  next
    case False
    with r show ?thesis
      using pgs_abandon [of s3 ff x w] that by (simp add: sync_ready_def ff3 wk3)
  qed
  have "frame_unlock w ff s4 = Some (upd_ff ff (\<lambda>f. f\<lparr>ff_lock := mutex_init\<rparr>) s4)"
    by (rule frame_unlock_own) (rule e4)
  moreover have "unlock_worker w (upd_wk w (\<lambda>k. k\<lparr>frame_ff := None\<rparr>) (upd_ff ff (\<lambda>f. f\<lparr>ff_lock := mutex_init\<rparr>) s4)) =
      Some (upd_wk w (\<lambda>k. k\<lparr>w_lock := mutex_init, do_not_steal := False\<rparr>)
        (upd_wk w (\<lambda>k. k\<lparr>frame_ff := None\<rparr>) (upd_ff ff (\<lambda>f. f\<lparr>ff_lock := mutex_init\<rparr>) s4)))"
    by (rule unlock_worker_own) (simp_all add: e4)
  ultimately show ?thesis
    using r1 r2 a2 r3 r4
    by (simp add: do_sync_def s3_def [symmetric] s2_def [symmetric] s1_def [symmetric])
qed

subsection \<open>Properties\<close>

text \<open>Who goes on after the sync: the worker that joined last, or the user worker the frame belongs to.\<close>

definition resumer :: "wptr \<Rightarrow> ffptr \<Rightarrow> ('m, 'e) rts \<Rightarrow> wptr" where
  "resumer w ff s = (case sync_master (ffh s ff) of None \<Rightarrow> w | Some m \<Rightarrow> m)"

lemma pgs_resumer:
  fixes s :: "('m, 'e) rts"
  assumes "join_counter (ffh s ff) = 1" and "fiber_self (ffh s ff) = None" and "call_stack (ffh s ff) = Some sf"
    and "\<forall>m. sync_master (ffh s ff) = Some m \<longrightarrow> team (wkh s w) = Some m \<and> wtype (wkh s m) = WORKER_USER"
    and "next_frame_ff (wkh s (resumer w ff s)) = None"
  shows "provably_good_steal x False w ff s = Some (if w = resumer w ff s then CONTINUE_EXECUTION else ABANDON_EXECUTION,
    upd_wk (resumer w ff s) (\<lambda>k. k\<lparr>last_full_frame := (if sync_master (ffh s ff) = None then last_full_frame k else None),
        next_frame_ff := Some ff\<rparr>)
      (upd_ff ff (\<lambda>f. (synched_frame x f)\<lparr>sync_master := None\<rparr>)
        (upd_sf sf (\<lambda>f. f\<lparr>flags := clear_flag (flags f) CILK_FRAME_UNSYNCHED\<rparr>) s)))"
proof (cases "sync_master (ffh s ff)")
  case None
  then have "upd_ff ff (\<lambda>f. (synched_frame x f)\<lparr>sync_master := None\<rparr>) s' = upd_ff ff (synched_frame x) s'"
    if "ffh s' = ffh s" for s' :: "('m, 'e) rts"
    using that by (auto simp: synched_frame_def fun_eq_iff intro!: rts.equality full_frame.equality)
  then show ?thesis using pgs_last [of s ff sf w x] assms None by (simp add: resumer_def)
next
  case (Some m)
  then show ?thesis using pgs_last_master [of s ff sf m w x] assms by (simp add: resumer_def)
qed

text \<open>C9: exactly the last arrival at a sync brings the frame to run again. When as many strands
  as the join counter says arrive (any workers, in any order), all but the last abandon and
  change nothing but the counter. With the last one the counter is 1 again, the exceptions of
  the children are merged in front of the frame's own, the leftmost child's fiber becomes the
  frame's, the frame is marked synched, and it becomes the next frame of one worker: of the
  arriving one, which continues, if the frame has no sync master; otherwise of the sync master
  - the user worker of the team - and the arriving worker abandons unless it is the master
  itself. The bond of the master with the frame is dissolved, and no other worker changes.\<close>

theorem last_to_join_resumes:
  assumes "join_counter (ffh s ff) = int (length ws) + 1" and "fiber_self (ffh s ff) = None"
    and "call_stack (ffh s ff) = Some sf"
    and "\<forall>m. sync_master (ffh s ff) = Some m \<longrightarrow> team (wkh s w) = Some m \<and> wtype (wkh s m) = WORKER_USER"
    and "next_frame_ff (wkh s (resumer w ff s)) = None"
  shows "join_all x (ws @ [w]) ff s = Some (replicate (length ws) ABANDON_EXECUTION @
      [if w = resumer w ff s then CONTINUE_EXECUTION else ABANDON_EXECUTION],
    upd_wk (resumer w ff s) (\<lambda>k. k\<lparr>last_full_frame := (if sync_master (ffh s ff) = None then last_full_frame k else None),
        next_frame_ff := Some ff\<rparr>)
      (upd_ff ff (\<lambda>f. (synched_frame x f)\<lparr>sync_master := None\<rparr>)
        (upd_sf sf (\<lambda>f. f\<lparr>flags := clear_flag (flags f) CILK_FRAME_UNSYNCHED\<rparr>) s)))"
proof -
  let ?s1 = "upd_ff ff (\<lambda>f. f\<lparr>join_counter := join_counter f - int (length ws)\<rparr>) s"
  have "join_all x ws ff s = Some (replicate (length ws) ABANDON_EXECUTION, ?s1)"
    by (rule join_all_abandon) (use assms in simp)
  moreover have r: "resumer w ff ?s1 = resumer w ff s" "sync_master (ffh ?s1 ff) = sync_master (ffh s ff)"
    by (simp_all add: resumer_def)
  moreover have "provably_good_steal x False w ff ?s1 = Some (if w = resumer w ff ?s1 then CONTINUE_EXECUTION else ABANDON_EXECUTION,
    upd_wk (resumer w ff ?s1) (\<lambda>k. k\<lparr>last_full_frame := (if sync_master (ffh ?s1 ff) = None then last_full_frame k else None),
        next_frame_ff := Some ff\<rparr>)
      (upd_ff ff (\<lambda>f. (synched_frame x f)\<lparr>sync_master := None\<rparr>)
        (upd_sf sf (\<lambda>f. f\<lparr>flags := clear_flag (flags f) CILK_FRAME_UNSYNCHED\<rparr>) ?s1)))"
    by (rule pgs_resumer) (use assms r in simp_all)
  moreover have "upd_ff ff (\<lambda>f. (synched_frame x f)\<lparr>sync_master := None\<rparr>)
        (upd_sf sf (\<lambda>f. f\<lparr>flags := clear_flag (flags f) CILK_FRAME_UNSYNCHED\<rparr>) ?s1) =
      upd_ff ff (\<lambda>f. (synched_frame x f)\<lparr>sync_master := None\<rparr>) (upd_sf sf (\<lambda>f. f\<lparr>flags := clear_flag (flags f) CILK_FRAME_UNSYNCHED\<rparr>) s)"
    by (auto simp: synched_frame_def fun_eq_iff intro!: rts.equality full_frame.equality)
  ultimately show ?thesis by (simp add: join_all_append)
qed

text \<open>only the user worker that owns the team crosses the sync of its frame. When the last
  strand joins a frame with a sync master, whichever worker it is, the frame is handed to
  the master, whose bond with the frame is dissolved; the arriving worker continues only if
  it is the master itself.\<close>

theorem sync_master_resumes:
  assumes "join_counter (ffh s ff) = 1" and "fiber_self (ffh s ff) = None" and "call_stack (ffh s ff) = Some sf"
    and "sync_master (ffh s ff) = Some m" and "team (wkh s w) = Some m" and "wtype (wkh s m) = WORKER_USER"
    and "next_frame_ff (wkh s m) = None"
  shows "\<exists>r s'. provably_good_steal x False w ff s = Some (r, s') \<and> (r = CONTINUE_EXECUTION \<longleftrightarrow> w = m) \<and>
     next_frame_ff (wkh s' m) = Some ff \<and> sync_master (ffh s' ff) = None \<and> last_full_frame (wkh s' m) = None \<and>
     (\<forall>v. v \<noteq> m \<longrightarrow> wkh s' v = wkh s v) \<and> join_counter (ffh s' ff) = 1"
  using pgs_last_master [OF assms] by (auto simp: synched_frame_def)

text \<open>\<^verbatim>\<open>do_sync\<close> takes and releases its locks, fails no assertion, gives up the frame, and makes
  it the worker's next frame exactly when no other strand is outstanding; the worker's
  pedigree is saved in the frame.\<close>

theorem do_sync_spec:
  assumes "sync_ready w ff sf s"
  shows "\<exists>s'. do_sync x False w ff sf s =
       Some (if join_counter (ffh s ff) = 1 then CONTINUE_EXECUTION else ABANDON_EXECUTION, s') \<and>
     frame_ff (wkh s' w) = None \<and>
     next_frame_ff (wkh s' w) = (if join_counter (ffh s ff) = 1 then Some ff else None) \<and>
     join_counter (ffh s' ff) = max 1 (join_counter (ffh s ff) - 1) \<and>
     mutex_free (w_lock (wkh s' w)) \<and> \<not> do_not_steal (wkh s' w) \<and> mutex_free (ff_lock (ffh s' ff)) \<and>
     sf_pedigree (sfh s' sf) = sf_pedigree (save_pedigree (wkh s w) (sfh s sf))"
proof -
  let ?s3 = "upd_sf sf (save_pedigree (wkh s w))
      (upd_ff ff (\<lambda>f. f\<lparr>ff_lock := \<lparr>mx_lock = 1, mx_owner = Some w\<rparr>\<rparr>)
      (upd_wk w (\<lambda>k. k\<lparr>do_not_steal := True, w_lock := \<lparr>mx_lock = 1, mx_owner = Some w\<rparr>\<rparr>) s))"
  show ?thesis
  proof (cases "join_counter (ffh s ff) = 1")
    case True
    have "provably_good_steal x False w ff ?s3 = Some (CONTINUE_EXECUTION,
        upd_wk w (\<lambda>k. k\<lparr>next_frame_ff := Some ff\<rparr>) (upd_ff ff (synched_frame x)
        (upd_sf sf (\<lambda>f. f\<lparr>flags := clear_flag (flags f) CILK_FRAME_UNSYNCHED\<rparr>) ?s3)))"
      by (rule pgs_last) (use assms True in \<open>simp_all add: sync_ready_def\<close>)
    then show ?thesis
      using True by (simp add: do_sync_run [OF assms] synched_frame_def mutex_init_def)
  next
    case False
    then have "1 < join_counter (ffh ?s3 ff)" using assms by (simp add: sync_ready_def)
    then have "provably_good_steal x False w ff ?s3 =
        Some (ABANDON_EXECUTION, upd_ff ff (\<lambda>f. f\<lparr>join_counter := join_counter f - 1\<rparr>) ?s3)"
      by (rule pgs_abandon)
    then show ?thesis
      using False assms by (auto simp: do_sync_run [OF assms] mutex_init_def sync_ready_def)
  qed
qed

text \<open>\<^verbatim>\<open>__cilkrts_return\<close> from a promoted call returns: no assertion fails, every lock is
  released, the child is unlinked and freed, the parent runs next on the same worker with
  the child's fiber, an empty deque, its own stack frame current, and its join counter and
  its other children as they were.\<close>

theorem cilkrts_return_spec:
  assumes "return_ready w c p cs sf s"
  shows "\<exists>s'. cilkrts_return x w s = Some s' \<and> returned w c p cs sf s s'"
  using assms by (rule cilkrts_return_run)

subsection \<open>Witnesses\<close>

text \<open>No exceptions; frame 0 is at a sync with two strands outstanding.\<close>

definition no_exn :: "unit exn_rt" where
  "no_exn = \<lparr>merge_both = (\<lambda>_ _. None), rethrow = (\<lambda>_. False), active = (\<lambda>_. None)\<rparr>"

definition sync_rts :: "(unit, unit) rts" where
  "sync_rts = \<lparr>ffh = (\<lambda>_. new_full_frame None)
       (0 := (new_full_frame (Some 10))\<lparr>join_counter := 2, fiber_child := Some 4\<rparr>,
        1 := (new_full_frame (Some 10))\<lparr>join_counter := 1, sync_master := Some 5\<rparr>,
        2 := (new_full_frame (Some 10))\<lparr>join_counter := 1, rightmost_child := Some 3\<rparr>,
        3 := (new_full_frame None)\<lparr>join_counter := 1, is_call_child := True, parent := Some 2, fiber_self := Some 6\<rparr>),
     ff_brk = 4, ff_freed = [], sfh = (\<lambda>_. sf0\<lparr>flags := CILK_FRAME_UNSYNCHED\<rparr>),
     wkh = (\<lambda>_. (make_worker 8 0 50)\<lparr>team := Some 5, wtype := WORKER_USER, frame_ff := Some 3\<rparr>)\<rparr>"

theorem last_to_join_resumes_witness:
  "(\<exists>s'. join_all no_exn [1, 2] 0 sync_rts = Some ([ABANDON_EXECUTION, CONTINUE_EXECUTION], s') \<and> next_frame_ff (wkh s' 2) = Some 0) \<and>
   (\<exists>s'. join_all no_exn [2] 1 sync_rts = Some ([ABANDON_EXECUTION], s') \<and> next_frame_ff (wkh s' 5) = Some 1)"
  using last_to_join_resumes [of sync_rts 0 "[1]" 10 2 no_exn] last_to_join_resumes [of sync_rts 1 "[]" 10 2 no_exn]
  by (auto simp: sync_rts_def new_full_frame_def worker_eval resumer_def)

theorem sync_master_resumes_witness:
  "\<exists>r s'. provably_good_steal no_exn False 2 1 sync_rts = Some (r, s') \<and> next_frame_ff (wkh s' 5) = Some 1"
  using sync_master_resumes [of sync_rts 1 10 5 2 no_exn]
  by (auto simp: sync_rts_def new_full_frame_def worker_eval)

lemma sync_ready_rts: "sync_ready 0 0 10 sync_rts"
  by (simp add: sync_ready_def sync_rts_def new_full_frame_def worker_eval sf0_def mutex_init_def validate_worker_def
      validate_full_frame_def has_flag_def frame_flag_defs)

theorem do_sync_spec_witness:
  "\<exists>s'. do_sync no_exn False 0 0 10 sync_rts = Some (ABANDON_EXECUTION, s') \<and> join_counter (ffh s' 0) = 1"
  using do_sync_spec [OF sync_ready_rts, of no_exn] by (auto simp: sync_rts_def new_full_frame_def)

lemma return_ready_rts: "return_ready 0 3 2 [] 10 sync_rts"
  by (simp add: return_ready_def call_done_def children_def last_opt_def sync_rts_def new_full_frame_def worker_eval
      sf0_def mutex_init_def validate_worker_def validate_full_frame_def has_flag_def frame_flag_defs)

theorem cilkrts_return_spec_witness:
  "\<exists>s'. cilkrts_return no_exn 0 sync_rts = Some s' \<and> returned 0 3 2 [] 10 sync_rts s'"
  by (rule cilkrts_return_spec [OF return_ready_rts])

end
