(* ===== verification/Reducer_Protocol.thy ===== *)
theory Reducer_Protocol
  imports Scheduler_Sync
begin

section \<open>The reducer protocol (scheduler.c)\<close>

text \<open>
  Reducer maps hold the views of the strands to the left of a slot. A child that returns to
  a stolen parent merges the map to its left, its own and the one to its right, and leaves
  the result on the left; a frame that stalls at a sync does the same with its own map. The
  merge of two maps is the argument \<open>mu\<close> (reducer\_impl.cpp calls the reduce functions of the
  user, which form a monoid); reductions are serial, so the worker does not change during one.
\<close>

subsection \<open>Merging maps\<close>

fun merge_reducer_maps :: "('m \<Rightarrow> 'm \<Rightarrow> 'm) \<Rightarrow> 'm option \<Rightarrow> 'm option \<Rightarrow> 'm option" where
  "merge_reducer_maps mu None right_map = right_map"
| "merge_reducer_maps mu (Some l) None = Some l"
| "merge_reducer_maps mu (Some l) (Some r) = Some (mu l r)"

text \<open>The do-while loop pulls in maps the worker acquired during the merge.\<close>

partial_function (option) repeated_merge_reducer_maps ::
    "('m \<Rightarrow> 'm \<Rightarrow> 'm) \<Rightarrow> wptr \<Rightarrow> 'm option \<Rightarrow> 'm option \<Rightarrow> ('m, 'e) rts
      \<Rightarrow> ('m option \<times> ('m, 'e) rts) option" where
  "repeated_merge_reducer_maps mu w left_map right_map s =
     (let left_map = merge_reducer_maps mu left_map right_map;
          right_map = reducer_map (wkh s w);
          s = upd_wk w (\<lambda>k. k\<lparr>reducer_map := None\<rparr>) s
      in if right_map \<noteq> None then repeated_merge_reducer_maps mu w left_map right_map s
         else Some (left_map, s))"

subsection \<open>The slot to the left\<close>

text \<open>\<open>splice_left_ptrs\<close>: both pointers point into the left sibling or into the parent.\<close>

datatype left_slot = Right_of ffptr | Children_of ffptr

fun map_at :: "left_slot \<Rightarrow> ('m, 'e) rts \<Rightarrow> 'm option" where
  "map_at (Right_of l) s = right_reducer_map (ffh s l)"
| "map_at (Children_of p) s = children_reducer_map (ffh s p)"

fun set_map_at :: "left_slot \<Rightarrow> 'm option \<Rightarrow> ('m, 'e) rts \<Rightarrow> ('m, 'e) rts" where
  "set_map_at (Right_of l) m s = upd_ff l (\<lambda>f. f\<lparr>right_reducer_map := m\<rparr>) s"
| "set_map_at (Children_of p) m s = upd_ff p (\<lambda>f. f\<lparr>children_reducer_map := m\<rparr>) s"

fun exception_at :: "left_slot \<Rightarrow> ('m, 'e) rts \<Rightarrow> 'e option" where
  "exception_at (Right_of l) s = right_pending_exception (ffh s l)"
| "exception_at (Children_of p) s = child_pending_exception (ffh s p)"

fun set_exception_at :: "left_slot \<Rightarrow> 'e option \<Rightarrow> ('m, 'e) rts \<Rightarrow> ('m, 'e) rts" where
  "set_exception_at (Right_of l) e s = upd_ff l (\<lambda>f. f\<lparr>right_pending_exception := e\<rparr>) s"
| "set_exception_at (Children_of p) e s = upd_ff p (\<lambda>f. f\<lparr>child_pending_exception := e\<rparr>) s"

definition compute_left_ptrs_for_spawn_return :: "ffptr \<Rightarrow> ('m, 'e) rts \<Rightarrow> left_slot option" where
  "compute_left_ptrs_for_spawn_return ff s =
     (case left_sibling (ffh s ff) of
        Some l \<Rightarrow> Some (Right_of l)
      | None \<Rightarrow> map_option Children_of (parent (ffh s ff)))"

definition compute_left_ptrs_for_sync :: "ffptr \<Rightarrow> ('m, 'e) rts \<Rightarrow> left_slot option" where
  "compute_left_ptrs_for_sync ff s =
     (case rightmost_child (ffh s ff) of
        Some r \<Rightarrow> do { cilk_assert (parent (ffh s r) = Some ff); Some (Right_of r) }
      | None \<Rightarrow> Some (Children_of ff))"

definition splice_exceptions_for_spawn ::
    "'e exn_rt \<Rightarrow> ffptr \<Rightarrow> left_slot \<Rightarrow> ('m, 'e) rts \<Rightarrow> ('m, 'e) rts" where
  "splice_exceptions_for_spawn x ff left s =
     (let s = set_exception_at left
                (merge_pending_exceptions x (exception_at left s) (pending_exception (ffh s ff))) s;
          s = upd_ff ff (\<lambda>f. f\<lparr>pending_exception := None\<rparr>) s;
          s = set_exception_at left
                (merge_pending_exceptions x (exception_at left s) (right_pending_exception (ffh s ff))) s
      in upd_ff ff (\<lambda>f. f\<lparr>right_pending_exception := None\<rparr>) s)"

subsection \<open>Return from a spawn\<close>

text \<open>The numbered cases of the source: bit 0 the left map, bit 1 the own map, bit 2 the right map.\<close>

definition case_value :: "wptr \<Rightarrow> ffptr \<Rightarrow> left_slot \<Rightarrow> ('m, 'e) rts \<Rightarrow> nat" where
  "case_value w ff left s =
     (if map_at left s \<noteq> None then 1 else 0) + (if reducer_map (wkh s w) \<noteq> None then 2 else 0) +
     (if right_reducer_map (ffh s ff) \<noteq> None then 4 else 0)"

definition fast_path_reductions_for_spawn_return ::
    "'e exn_rt \<Rightarrow> wptr \<Rightarrow> ffptr \<Rightarrow> ('m, 'e) rts \<Rightarrow> (left_slot option \<times> ('m, 'e) rts) option" where
  "fast_path_reductions_for_spawn_return x w ff s = do {
     cilk_assert (w_pending_exception (wkh s w) = None);
     left \<leftarrow> compute_left_ptrs_for_spawn_return ff s;
     let s = splice_exceptions_for_spawn x ff left s;
     let cv = case_value w ff left s;
     Some (if cv \<ge> 2 then
        (if cv = 2 then
           (None, upd_wk w (\<lambda>k. k\<lparr>reducer_map := None\<rparr>) (set_map_at left (reducer_map (wkh s w)) s))
         else if cv = 4 then
           (None, upd_ff ff (\<lambda>f. f\<lparr>right_reducer_map := None\<rparr>)
                    (set_map_at left (right_reducer_map (ffh s ff)) s))
         else (Some left, s))
      else (None, s)) }"

text \<open>
  One turn of the loop of the slow path, up to the release of the parent's lock: the maps
  slide left, and what is left to merge is taken out of its slots. \<open>Inr s\<close> is the return.
\<close>

definition slow_path_take ::
    "wptr \<Rightarrow> ffptr \<Rightarrow> left_slot \<Rightarrow> ('m, 'e) rts
      \<Rightarrow> ('m option \<times> 'm option \<times> 'm option \<times> ('m, 'e) rts) + ('m, 'e) rts" where
  "slow_path_take w ff left s =
     (let s = (if map_at left s = None
               then upd_wk w (\<lambda>k. k\<lparr>reducer_map := None\<rparr>) (set_map_at left (reducer_map (wkh s w)) s) else s);
          s = (if reducer_map (wkh s w) = None
               then upd_ff ff (\<lambda>f. f\<lparr>right_reducer_map := None\<rparr>)
                      (upd_wk w (\<lambda>k. k\<lparr>reducer_map := right_reducer_map (ffh s ff)\<rparr>) s) else s)
      in if reducer_map (wkh s w) = None then Inr s
         else (let left_map = map_at left s; s = set_map_at left None s;
                   middle_map = reducer_map (wkh s w); s = upd_wk w (\<lambda>k. k\<lparr>reducer_map := None\<rparr>) s;
                   right_map = right_reducer_map (ffh s ff);
                   s = upd_ff ff (\<lambda>f. f\<lparr>right_reducer_map := None\<rparr>) s
               in Inl (left_map, middle_map, right_map, s)))"

text \<open>The rest of the turn: the merges without the lock, and the new left slot under it.\<close>

definition slow_path_put ::
    "('m \<Rightarrow> 'm \<Rightarrow> 'm) \<Rightarrow> 'e exn_rt \<Rightarrow> wptr \<Rightarrow> ffptr \<Rightarrow> 'm option \<Rightarrow> 'm option \<Rightarrow> 'm option
      \<Rightarrow> ('m, 'e) rts \<Rightarrow> (left_slot \<times> ('m, 'e) rts) option" where
  "slow_path_put mu x w ff left_map middle_map right_map s = do {
     (left_map, s) \<leftarrow> repeated_merge_reducer_maps mu w left_map middle_map s;
     (left_map, s) \<leftarrow> repeated_merge_reducer_maps mu w left_map right_map s;
     cilk_assert (reducer_map (wkh s w) = None);
     let s = upd_wk w (\<lambda>k. k\<lparr>reducer_map := left_map\<rparr>) s;
     cilk_assert (pending_exception (ffh s ff) = None);
     let s = upd_ff ff (\<lambda>f. f\<lparr>pending_exception := w_pending_exception (wkh s w)\<rparr>) s;
     let s = upd_wk w (\<lambda>k. k\<lparr>w_pending_exception := None\<rparr>) s;
     p \<leftarrow> parent (ffh s ff);
     s \<leftarrow> frame_lock w p s;
     left \<leftarrow> compute_left_ptrs_for_spawn_return ff s;
     Some (left, splice_exceptions_for_spawn x ff left s) }"

text \<open>
  The loop runs its turns without interference: between the release of the parent's lock and the
  next lock other strands of the same parent could deposit maps, which the loop would find in the next turn.
\<close>

partial_function (option) slow_path_reductions_for_spawn_return ::
    "('m \<Rightarrow> 'm \<Rightarrow> 'm) \<Rightarrow> 'e exn_rt \<Rightarrow> wptr \<Rightarrow> ffptr \<Rightarrow> left_slot \<Rightarrow> ('m, 'e) rts \<Rightarrow> ('m, 'e) rts option" where
  "slow_path_reductions_for_spawn_return mu x w ff left s =
     (case slow_path_take w ff left s of
        Inr s \<Rightarrow> Some s
      | Inl r \<Rightarrow> (case r of (left_map, middle_map, right_map, s) \<Rightarrow>
          Option.bind (parent (ffh s ff)) (\<lambda>p.
          Option.bind (frame_unlock w p s) (\<lambda>s.
          Option.bind (slow_path_put mu x w ff left_map middle_map right_map s) (\<lambda>r. (case r of (left, s) \<Rightarrow>
            slow_path_reductions_for_spawn_return mu x w ff left s))))))"

definition finish_spawn_return_on_user_stack :: "wptr \<Rightarrow> ffptr \<Rightarrow> ffptr \<Rightarrow> ('m, 'e) rts \<Rightarrow> ('m, 'e) rts option" where
  "finish_spawn_return_on_user_stack w parent_ff child_ff s = do {
     cilk_assert (fiber_to_free (wkh s w) = None);
     s \<leftarrow> (if left_sibling (ffh s child_ff) \<noteq> None \<or> fiber_child (ffh s parent_ff) \<noteq> None then do {
             cilk_assert (fiber_child (ffh s parent_ff) \<noteq> fiber_self (ffh s child_ff));
             Some (upd_wk w (\<lambda>k. k\<lparr>fiber_to_free := fiber_self (ffh s child_ff)\<rparr>) s) }
           else Some (upd_wk w (\<lambda>k. k\<lparr>fiber_to_free := None\<rparr>)
                  (upd_ff parent_ff (\<lambda>f. f\<lparr>fiber_child := fiber_self (ffh s child_ff)\<rparr>) s)));
     let s = upd_ff child_ff (\<lambda>f. f\<lparr>fiber_self := None\<rparr>) s;
     unlink_child parent_ff child_ff s }"

definition restore_frame_for_spawn_return_reduction ::
    "wptr \<Rightarrow> ffptr \<Rightarrow> sfptr \<Rightarrow> ('m, 'e) rts \<Rightarrow> ('m, 'e) rts" where
  "restore_frame_for_spawn_return_reduction w ff returning_sf s =
     make_runnable w ff (upd_wk w (\<lambda>k. k\<lparr>current_stack_frame := Some returning_sf\<rparr>) s)"

definition execute_reductions_for_spawn_return ::
    "('m \<Rightarrow> 'm \<Rightarrow> 'm) \<Rightarrow> 'e exn_rt \<Rightarrow> wptr \<Rightarrow> ffptr \<Rightarrow> sfptr \<Rightarrow> ('m, 'e) rts \<Rightarrow> ('m, 'e) rts option" where
  "execute_reductions_for_spawn_return mu x w ff returning_sf s = do {
     let s = restore_frame_for_spawn_return_reduction w ff returning_sf s;
     p \<leftarrow> parent (ffh s ff);
     s \<leftarrow> frame_lock w p s;
     (left_map_ptr, s) \<leftarrow> fast_path_reductions_for_spawn_return x w ff s;
     s \<leftarrow> (case left_map_ptr of None \<Rightarrow> Some s
           | Some left \<Rightarrow> slow_path_reductions_for_spawn_return mu x w ff left s);
     s \<leftarrow> finish_spawn_return_on_user_stack w p ff s;
     frame_unlock w p s }"

subsection \<open>Stalling at a sync\<close>

definition fast_path_reductions_for_sync :: "wptr \<Rightarrow> ffptr \<Rightarrow> ('m, 'e) rts \<Rightarrow> bool" where
  "fast_path_reductions_for_sync w ff s \<longleftrightarrow>
     \<not> (reducer_map (wkh s w) \<noteq> None \<or> pending_exception (ffh s ff) \<noteq> None)"

partial_function (option) slow_path_sync_loop ::
    "('m \<Rightarrow> 'm \<Rightarrow> 'm) \<Rightarrow> 'e exn_rt \<Rightarrow> wptr \<Rightarrow> ffptr \<Rightarrow> 'm option \<Rightarrow> ('m, 'e) rts \<Rightarrow> ('m, 'e) rts option" where
  "slow_path_sync_loop mu x w ff middle_map s =
     Option.bind (frame_lock w ff s) (\<lambda>s.
     Option.bind (compute_left_ptrs_for_sync ff s) (\<lambda>left.
       let left_map = map_at left s;
           s = set_map_at left None s;
           (left_map, middle_map) = (if left_map = None then (middle_map, None) else (left_map, middle_map));
           s = set_exception_at left
                 (merge_pending_exceptions x (exception_at left s) (pending_exception (ffh s ff))) s;
           s = upd_ff ff (\<lambda>f. f\<lparr>pending_exception := None\<rparr>) s
       in if middle_map = None then frame_unlock w ff (set_map_at left left_map s)
          else Option.bind (frame_unlock w ff s) (\<lambda>s.
               Option.bind (repeated_merge_reducer_maps mu w left_map middle_map s) (\<lambda>r. (case r of (middle_map, s) \<Rightarrow>
               Option.bind (cilk_assert (pending_exception (ffh s ff) = None)) (\<lambda>_.
                 let s = upd_ff ff (\<lambda>f. f\<lparr>pending_exception := w_pending_exception (wkh s w)\<rparr>) s;
                     s = upd_wk w (\<lambda>k. k\<lparr>w_pending_exception := None\<rparr>) s
                 in slow_path_sync_loop mu x w ff middle_map s))))))"

definition slow_path_reductions_for_sync ::
    "('m \<Rightarrow> 'm \<Rightarrow> 'm) \<Rightarrow> 'e exn_rt \<Rightarrow> wptr \<Rightarrow> ffptr \<Rightarrow> ('m, 'e) rts \<Rightarrow> ('m, 'e) rts option" where
  "slow_path_reductions_for_sync mu x w ff s =
     (let middle_map = reducer_map (wkh s w);
          s = upd_wk w (\<lambda>k. k\<lparr>reducer_map := None\<rparr>) s
      in slow_path_sync_loop mu x w ff middle_map s)"

text \<open>
  The assertion on \<^verbatim>\<open>CILK_FRAME_STOLEN\<close> is written with a bitwise or in the source and always
  holds, so it is no guard here.
\<close>

definition execute_reductions_for_sync ::
    "('m \<Rightarrow> 'm \<Rightarrow> 'm) \<Rightarrow> 'e exn_rt \<Rightarrow> wptr \<Rightarrow> ffptr \<Rightarrow> sfptr \<Rightarrow> ('m, 'e) rts \<Rightarrow> ('m, 'e) rts option" where
  "execute_reductions_for_sync mu x w ff sf_at_sync s = do {
     let s = upd_ff ff (\<lambda>f. f\<lparr>call_stack := None\<rparr>) s;
     let s = put_stack ff sf_at_sync s;
     let s = make_unrunnable_sysdep ff sf_at_sync True s;
     cilk_assert (frame_ff (wkh s w) = Some ff);
     s \<leftarrow> (if fast_path_reductions_for_sync w ff s then Some s
           else slow_path_reductions_for_sync mu x w ff s);
     cilk_assert (frame_ff (wkh s w) = Some ff);
     cilk_assert (call_stack (ffh s ff) = None);
     let s = upd_ff ff (\<lambda>f. f\<lparr>call_stack := Some sf_at_sync\<rparr>) s;
     let s = upd_sf sf_at_sync (\<lambda>f. f\<lparr>flags := set_flag (flags f) CILK_FRAME_SUSPENDED\<rparr>) s;
     let s = upd_wk w (\<lambda>k. k\<lparr>fiber_to_free := fiber_self (ffh s ff)\<rparr>) s;
     Some (upd_ff ff (\<lambda>f. f\<lparr>fiber_self := None\<rparr>) s) }"

text \<open>\<^verbatim>\<open>__cilkrts_c_sync\<close> up to the jump into the runtime, which then runs \<open>do_sync\<close>.\<close>

definition c_sync ::
    "('m \<Rightarrow> 'm \<Rightarrow> 'm) \<Rightarrow> 'e exn_rt \<Rightarrow> wptr \<Rightarrow> sfptr \<Rightarrow> ('m, 'e) rts \<Rightarrow> ('m, 'e) rts option" where
  "c_sync mu x w sf_at_sync s = do {
     ff \<leftarrow> frame_ff (wkh s w);
     cilk_assert (pending_exception (ffh s ff) = None);
     let s = upd_ff ff (\<lambda>f. f\<lparr>pending_exception := w_pending_exception (wkh s w)\<rparr>) s;
     let s = upd_wk w (\<lambda>k. k\<lparr>w_pending_exception := None\<rparr>) s;
     execute_reductions_for_sync mu x w ff sf_at_sync s }"

subsection \<open>The three slots of a returning child\<close>

text \<open>\<open>put_maps\<close> writes the left slot, the worker's own map and the map to the right of \<open>ff\<close>.\<close>

definition put_maps :: "left_slot \<Rightarrow> 'm option \<Rightarrow> wptr \<Rightarrow> 'm option \<Rightarrow> ffptr \<Rightarrow> 'm option
    \<Rightarrow> ('m, 'e) rts \<Rightarrow> ('m, 'e) rts" where
  "put_maps left l w m ff r s =
     upd_ff ff (\<lambda>f. f\<lparr>right_reducer_map := r\<rparr>) (upd_wk w (\<lambda>k. k\<lparr>reducer_map := m\<rparr>) (set_map_at left l s))"

lemma put_maps_read [simp]:
  assumes "left \<noteq> Right_of ff"
  shows "map_at left (put_maps left l w m ff r s) = l"
    and "reducer_map (wkh (put_maps left l w m ff r s) w) = m"
    and "right_reducer_map (ffh (put_maps left l w m ff r s) ff) = r"
  using assms by (cases left; simp add: put_maps_def)+

lemma put_maps_put [simp]:
  assumes "left \<noteq> Right_of ff"
  shows "put_maps left l w m ff r (put_maps left l' w m' ff r' s) = put_maps left l w m ff r s"
  using assms
  by (cases left) (auto simp: put_maps_def upd_ff_def upd_wk_def fun_eq_iff intro!: rts.equality full_frame.equality)

lemma put_maps_same:
  "put_maps left (map_at left s) w (reducer_map (wkh s w)) ff (right_reducer_map (ffh s ff)) s = s"
  by (cases left) (auto simp: put_maps_def upd_ff_def upd_wk_def fun_eq_iff intro!: rts.equality full_frame.equality worker.equality)

text \<open>The fields of a full frame that control who resumes it: no reduction touches them.\<close>

definition control :: "('m, 'e) full_frame \<Rightarrow> int \<times> bool \<times> bool \<times> wptr option" where
  "control f = (join_counter f, is_call_child f, simulated_stolen f, sync_master f)"

lemma put_maps_fields [simp]:
  "parent (ffh (put_maps left l w m ff r s) q) = parent (ffh s q)"
  "left_sibling (ffh (put_maps left l w m ff r s) q) = left_sibling (ffh s q)"
  "right_sibling (ffh (put_maps left l w m ff r s) q) = right_sibling (ffh s q)"
  "rightmost_child (ffh (put_maps left l w m ff r s) q) = rightmost_child (ffh s q)"
  "ff_lock (ffh (put_maps left l w m ff r s) q) = ff_lock (ffh s q)"
  "pending_exception (ffh (put_maps left l w m ff r s) q) = pending_exception (ffh s q)"
  "right_pending_exception (ffh (put_maps left l w m ff r s) q) = right_pending_exception (ffh s q)"
  "fiber_self (ffh (put_maps left l w m ff r s) q) = fiber_self (ffh s q)"
  "fiber_child (ffh (put_maps left l w m ff r s) q) = fiber_child (ffh s q)"
  "validate_full_frame (ffh (put_maps left l w m ff r s) q) = validate_full_frame (ffh s q)"
  "exception_at e (put_maps left l w m ff r s) = exception_at e s"
  "w_pending_exception (wkh (put_maps left l w m ff r s) v) = w_pending_exception (wkh s v)"
  "fiber_to_free (wkh (put_maps left l w m ff r s) v) = fiber_to_free (wkh s v)"
  "v \<noteq> w \<Longrightarrow> wkh (put_maps left l w m ff r s) v = wkh s v"
  by (cases left; simp add: put_maps_def validate_full_frame_def; cases e; simp add: put_maps_def)+

lemma put_maps_control [simp]:
  "control (ffh (put_maps left l w m ff r s) q) = control (ffh s q)"
  "call_stack (ffh (put_maps left l w m ff r s) q) = call_stack (ffh s q)"
  "child_pending_exception (ffh (put_maps left l w m ff r s) q) = child_pending_exception (ffh s q)"
  "sfh (put_maps left l w m ff r s) = sfh s" "ff_brk (put_maps left l w m ff r s) = ff_brk s" "ff_freed (put_maps left l w m ff r s) = ff_freed s"
  "wkh (put_maps left l w m ff r s) w = (wkh s w)\<lparr>reducer_map := m\<rparr>"
  by (cases left; simp add: put_maps_def control_def)+

lemma compute_left_put [simp]:
  "compute_left_ptrs_for_spawn_return ff (put_maps left l w m ff r s) = compute_left_ptrs_for_spawn_return ff s"
  by (simp add: compute_left_ptrs_for_spawn_return_def split: option.split)

lemma repeated_merge_done:
  assumes "reducer_map (wkh s w) = None"
  shows "repeated_merge_reducer_maps mu w l r s = Some (merge_reducer_maps mu l r, s)"
proof -
  have "upd_wk w (\<lambda>k. k\<lparr>reducer_map := None\<rparr>) s = s"
    using assms by (auto simp: upd_wk_def fun_eq_iff intro!: rts.equality worker.equality)
  then show ?thesis using assms by (subst repeated_merge_reducer_maps.simps) simp
qed

definition reduce_assoc :: "('m \<Rightarrow> 'm \<Rightarrow> 'm) \<Rightarrow> bool" where
  "reduce_assoc mu \<longleftrightarrow> (\<forall>a b c. mu (mu a b) c = mu a (mu b c))"

lemma merge_None_right [simp]: "merge_reducer_maps mu l None = l"
  by (cases l) auto

lemma merge_assoc:
  assumes "reduce_assoc mu"
  shows "merge_reducer_maps mu (merge_reducer_maps mu a b) c = merge_reducer_maps mu a (merge_reducer_maps mu b c)"
  using assms by (cases a; cases b; cases c) (auto simp: reduce_assoc_def)

abbreviation three_maps :: "('m \<Rightarrow> 'm \<Rightarrow> 'm) \<Rightarrow> left_slot \<Rightarrow> wptr \<Rightarrow> ffptr \<Rightarrow> ('m, 'e) rts \<Rightarrow> 'm option" where
  "three_maps mu left w ff s \<equiv>
     merge_reducer_maps mu (merge_reducer_maps mu (map_at left s) (reducer_map (wkh s w))) (right_reducer_map (ffh s ff))"

lemma slide_left:
  assumes "left \<noteq> Right_of ff"
  shows "upd_wk w (\<lambda>k. k\<lparr>reducer_map := b\<rparr>) (set_map_at left a s) = put_maps left a w b ff (right_reducer_map (ffh s ff)) s"
proof -
  have "right_reducer_map (ffh (set_map_at left a s) ff) = right_reducer_map (ffh s ff)"
    using assms by (cases left) auto
  then show ?thesis
    by (auto simp: put_maps_def upd_ff_def fun_eq_iff intro!: rts.equality full_frame.equality)
qed

lemma slide_right:
  "upd_ff ff (\<lambda>f. f\<lparr>right_reducer_map := b\<rparr>) (upd_wk w (\<lambda>k. k\<lparr>reducer_map := a\<rparr>) s) = put_maps left (map_at left s) w a ff b s"
proof -
  have "set_map_at left (map_at left s) s = s"
    by (cases left) (auto simp: upd_ff_def fun_eq_iff intro!: rts.equality full_frame.equality)
  then show ?thesis by (simp add: put_maps_def)
qed

lemma slow_path_take_eq:
  assumes "left \<noteq> Right_of ff"
  shows "slow_path_take w ff left s =
    (let l = map_at left s; m = reducer_map (wkh s w); r = right_reducer_map (ffh s ff) in
     if l \<noteq> None \<and> m \<noteq> None then Inl (l, m, r, put_maps left None w None ff None s)
     else if l \<noteq> None \<and> r \<noteq> None then Inl (l, r, None, put_maps left None w None ff None s)
     else if r \<noteq> None then Inl (m, r, None, put_maps left None w None ff None s)
     else Inr (put_maps left (if l \<noteq> None then l else m) w None ff None s))"
proof -
  have take: "(let left_map = map_at left s; s = set_map_at left None s;
                   middle_map = reducer_map (wkh s w); s = upd_wk w (\<lambda>k. k\<lparr>reducer_map := None\<rparr>) s;
                   right_map = right_reducer_map (ffh s ff);
                   s = upd_ff ff (\<lambda>f. f\<lparr>right_reducer_map := None\<rparr>) s
               in Inl (left_map, middle_map, right_map, s)) =
      Inl (map_at left s, reducer_map (wkh s w), right_reducer_map (ffh s ff), put_maps left None w None ff None s)"
    for s :: "('m, 'e) rts"
    using assms by (cases left) (auto simp: put_maps_def Let_def)
  show ?thesis
    unfolding slow_path_take_def take slide_left [OF assms] slide_right [of ff _ w _ _ left]
    using assms put_maps_same [of left s w ff]
    by (cases "map_at left s"; cases "reducer_map (wkh s w)"; cases "right_reducer_map (ffh s ff)")
       (simp_all add: Let_def)
qed

lemma merge_exceptions_None [simp]: "merge_pending_exceptions x e None = e"
  by (cases e) auto

lemma set_exception_same: "set_exception_at left (exception_at left s) s = s"
  by (cases left) (auto simp: upd_ff_def fun_eq_iff intro!: rts.equality full_frame.equality)

lemma upd_ff_same: "f (ffh s p) = ffh s p \<Longrightarrow> upd_ff p f s = s"
  by (simp add: upd_ff_def)

lemma upd_wk_same: "f (wkh s p) = wkh s p \<Longrightarrow> upd_wk p f s = s"
  by (simp add: upd_wk_def)

lemma ff_pending_same: "pending_exception f = e \<Longrightarrow> f\<lparr>pending_exception := e\<rparr> = f"
  by (rule full_frame.equality) auto

lemma ff_right_pending_same: "right_pending_exception f = e \<Longrightarrow> f\<lparr>right_pending_exception := e\<rparr> = f"
  by (rule full_frame.equality) auto

lemma ff_lock_same: "ff_lock f = e \<Longrightarrow> f\<lparr>ff_lock := e\<rparr> = f"
  by (rule full_frame.equality) auto

lemma wk_pending_same: "w_pending_exception (k :: ('m, 'e) worker) = e \<Longrightarrow> k\<lparr>w_pending_exception := e\<rparr> = k"
  by (rule worker.equality) auto

lemma splice_exceptions_none:
  assumes "pending_exception (ffh s ff) = None" and "right_pending_exception (ffh s ff) = None"
  shows "splice_exceptions_for_spawn x ff left s = s"
proof -
  have a: "upd_ff ff (\<lambda>f. f\<lparr>pending_exception := None\<rparr>) s = s" "upd_ff ff (\<lambda>f. f\<lparr>right_pending_exception := None\<rparr>) s = s"
    using assms by (simp_all add: upd_ff_same ff_pending_same ff_right_pending_same)
  show ?thesis
    using assms a by (simp add: splice_exceptions_for_spawn_def set_exception_same)
qed

text \<open>A child \<open>ff\<close> of \<open>p\<close> in the slow path: worker \<open>w\<close> holds the lock of \<open>p\<close>, exceptions are merged.\<close>

definition in_slow_path :: "wptr \<Rightarrow> ffptr \<Rightarrow> ffptr \<Rightarrow> left_slot \<Rightarrow> ('m, 'e) rts \<Rightarrow> bool" where
  "in_slow_path w ff p left s \<longleftrightarrow>
     parent (ffh s ff) = Some p \<and> validate_full_frame (ffh s p) = Some () \<and>
     ff_lock (ffh s p) = \<lparr>mx_lock = 1, mx_owner = Some w\<rparr> \<and>
     compute_left_ptrs_for_spawn_return ff s = Some left \<and> left \<noteq> Right_of ff \<and>
     pending_exception (ffh s ff) = None \<and> right_pending_exception (ffh s ff) = None \<and>
     w_pending_exception (wkh s w) = None"

lemma in_slow_path_put: "in_slow_path w ff p left (put_maps left l w m ff r s) = in_slow_path w ff p left s"
  by (simp add: in_slow_path_def)

lemma slow_path_turn:
  assumes "in_slow_path w ff p left s"
  shows "Option.bind (frame_unlock w p (put_maps left None w None ff None s)) (slow_path_put mu x w ff a b c) =
     Some (left, put_maps left None w (merge_reducer_maps mu (merge_reducer_maps mu a b) c) ff None s)"
proof -
  let ?t = "put_maps left None w None ff None s" and ?X = "merge_reducer_maps mu (merge_reducer_maps mu a b) c"
  let ?L = "\<lparr>mx_lock = 1, mx_owner = Some w\<rparr>"
  have ne: "left \<noteq> Right_of ff" using assms by (simp add: in_slow_path_def)
  have "in_slow_path w ff p left ?t" using assms by (simp only: in_slow_path_put)
  note I = this [unfolded in_slow_path_def]
  let ?u = "upd_ff p (\<lambda>f. f\<lparr>ff_lock := mutex_init\<rparr>) ?t"
  let ?v = "upd_wk w (\<lambda>k. k\<lparr>reducer_map := ?X\<rparr>) ?u"
  have unl: "frame_unlock w p ?t = Some ?u"
    using I by (intro frame_unlock_own) blast
  have m: "reducer_map (wkh ?u w) = None" using ne by simp
  have pe: "upd_ff ff (\<lambda>f. f\<lparr>pending_exception := w_pending_exception (wkh ?v w)\<rparr>) ?v = ?v"
    using I by (intro upd_ff_same ff_pending_same) auto
  have we: "upd_wk w (\<lambda>k. k\<lparr>w_pending_exception := None\<rparr>) ?v = ?v"
    using I by (intro upd_wk_same wk_pending_same) auto
  have lk: "frame_lock w p ?v = Some (upd_ff p (\<lambda>f. f\<lparr>ff_lock := ?L\<rparr>) ?v)"
    using I by (intro frame_lock_free) (auto simp: validate_full_frame_def mutex_init_def split: if_splits)
  have bk: "upd_ff p (\<lambda>f. f\<lparr>ff_lock := ?L\<rparr>) ?v = put_maps left None w ?X ff None s"
  proof -
    have "upd_ff p (\<lambda>f. f\<lparr>ff_lock := ?L\<rparr>) ?v = upd_wk w (\<lambda>k. k\<lparr>reducer_map := ?X\<rparr>) (upd_ff p (\<lambda>f. f\<lparr>ff_lock := ?L\<rparr>) ?t)"
      by (simp add: upd_ff_def upd_wk_def)
    also have "upd_ff p (\<lambda>f. f\<lparr>ff_lock := ?L\<rparr>) ?t = ?t"
      using I by (intro upd_ff_same ff_lock_same) blast
    also have "upd_wk w (\<lambda>k. k\<lparr>reducer_map := ?X\<rparr>) ?t = put_maps left None w ?X ff None s"
      by (simp add: put_maps_def upd_ff_def upd_wk_def)
    finally show ?thesis .
  qed
  have I2: "in_slow_path w ff p left (put_maps left None w ?X ff None s)" using assms by (simp only: in_slow_path_put)
  then have sp: "splice_exceptions_for_spawn x ff left (put_maps left None w ?X ff None s) = put_maps left None w ?X ff None s"
    by (intro splice_exceptions_none) (simp_all add: in_slow_path_def)
  have "slow_path_put mu x w ff a b c ?u = Some (left, put_maps left None w ?X ff None s)"
    using I I2 m pe we lk sp unfolding bk
    by (cases "ff = p") (simp_all add: slow_path_put_def repeated_merge_done in_slow_path_def)
  then show ?thesis by (simp add: unl)
qed

text \<open>Without interference the loop ends in the second turn.\<close>

lemma slow_path_done:
  assumes "in_slow_path w ff p left s"
  shows "slow_path_reductions_for_spawn_return mu x w ff left (put_maps left None w m ff None s) =
     Some (put_maps left m w None ff None s)"
  using assms by (subst slow_path_reductions_for_spawn_return.simps)
    (simp add: slow_path_take_eq in_slow_path_def Let_def)

lemma slow_path_loop:
  assumes "in_slow_path w ff p left s" and "slow_path_take w ff left s = Inl (a, b, c, put_maps left None w None ff None s)"
  shows "slow_path_reductions_for_spawn_return mu x w ff left s =
     Some (put_maps left (merge_reducer_maps mu (merge_reducer_maps mu a b) c) w None ff None s)"
proof -
  have "slow_path_reductions_for_spawn_return mu x w ff left s =
      Option.bind (Option.bind (frame_unlock w p (put_maps left None w None ff None s)) (slow_path_put mu x w ff a b c))
        (\<lambda>r. (case r of (left, s) \<Rightarrow> slow_path_reductions_for_spawn_return mu x w ff left s))"
    using assms by (subst slow_path_reductions_for_spawn_return.simps) (simp add: in_slow_path_def Option.bind_assoc)
  then show ?thesis by (simp add: slow_path_turn [OF assms(1)] slow_path_done [OF assms(1)])
qed

lemma slow_path_return:
  "slow_path_take w ff left s = Inr t \<Longrightarrow> slow_path_reductions_for_spawn_return mu x w ff left s = Some t"
  by (subst slow_path_reductions_for_spawn_return.simps) simp

lemma slow_path_run:
  assumes s: "in_slow_path w ff p left s"
  shows "slow_path_reductions_for_spawn_return mu x w ff left s =
     Some (put_maps left (three_maps mu left w ff s) w None ff None s)"
proof -
  have ne: "left \<noteq> Right_of ff" using s by (simp add: in_slow_path_def)
  note loop = slow_path_loop [OF s, of _ _ _ mu x] and ret = slow_path_return [of w ff left s _ mu x]
  show ?thesis
    using slow_path_take_eq [OF ne, of w s]
    by (cases "map_at left s"; cases "reducer_map (wkh s w)"; cases "right_reducer_map (ffh s ff)")
      (auto simp: Let_def dest: loop ret)
qed

lemma set_exception_fields [simp]:
  "map_at l (set_exception_at left e s) = map_at l s" "wkh (set_exception_at left e s) = wkh s"
  "right_reducer_map (ffh (set_exception_at left e s) q) = right_reducer_map (ffh s q)"
  "parent (ffh (set_exception_at left e s) q) = parent (ffh s q)"
  "left_sibling (ffh (set_exception_at left e s) q) = left_sibling (ffh s q)"
  "right_sibling (ffh (set_exception_at left e s) q) = right_sibling (ffh s q)"
  "rightmost_child (ffh (set_exception_at left e s) q) = rightmost_child (ffh s q)"
  "children_reducer_map (ffh (set_exception_at left e s) q) = children_reducer_map (ffh s q)"
  "ff_lock (ffh (set_exception_at left e s) q) = ff_lock (ffh s q)"
  "fiber_self (ffh (set_exception_at left e s) q) = fiber_self (ffh s q)"
  "fiber_child (ffh (set_exception_at left e s) q) = fiber_child (ffh s q)"
  "pending_exception (ffh (set_exception_at left e s) q) = pending_exception (ffh s q)"
  "validate_full_frame (ffh (set_exception_at left e s) q) = validate_full_frame (ffh s q)"
  by (cases left; cases l; simp add: validate_full_frame_def)+

lemma validate_upd [simp]:
  "validate_full_frame (f\<lparr>right_pending_exception := e\<rparr>) = validate_full_frame f"
  "validate_full_frame (f\<lparr>pending_exception := e\<rparr>) = validate_full_frame f"
  "validate_full_frame (f\<lparr>ff_lock := k\<rparr>) = validate_full_frame f"
  "validate_full_frame (f\<lparr>call_stack := c\<rparr>) = validate_full_frame f"
  by (simp_all add: validate_full_frame_def)

lemma splice_exceptions_fields:
  "map_at l (splice_exceptions_for_spawn x ff left s) = map_at l s"
  "wkh (splice_exceptions_for_spawn x ff left s) = wkh s"
  "right_reducer_map (ffh (splice_exceptions_for_spawn x ff left s) q) = right_reducer_map (ffh s q)"
  "parent (ffh (splice_exceptions_for_spawn x ff left s) q) = parent (ffh s q)"
  "left_sibling (ffh (splice_exceptions_for_spawn x ff left s) q) = left_sibling (ffh s q)"
  "right_sibling (ffh (splice_exceptions_for_spawn x ff left s) q) = right_sibling (ffh s q)"
  "rightmost_child (ffh (splice_exceptions_for_spawn x ff left s) q) = rightmost_child (ffh s q)"
  "children_reducer_map (ffh (splice_exceptions_for_spawn x ff left s) q) = children_reducer_map (ffh s q)"
  "ff_lock (ffh (splice_exceptions_for_spawn x ff left s) q) = ff_lock (ffh s q)"
  "fiber_self (ffh (splice_exceptions_for_spawn x ff left s) q) = fiber_self (ffh s q)"
  "fiber_child (ffh (splice_exceptions_for_spawn x ff left s) q) = fiber_child (ffh s q)"
  "pending_exception (ffh (splice_exceptions_for_spawn x ff left s) ff) = None"
  "right_pending_exception (ffh (splice_exceptions_for_spawn x ff left s) ff) = None"
  "validate_full_frame (ffh (splice_exceptions_for_spawn x ff left s) q) = validate_full_frame (ffh s q)"
proof -
  obtain e1 e2 where "splice_exceptions_for_spawn x ff left s =
      upd_ff ff (\<lambda>f. f\<lparr>right_pending_exception := None\<rparr>) (set_exception_at left e2
        (upd_ff ff (\<lambda>f. f\<lparr>pending_exception := None\<rparr>) (set_exception_at left e1 s)))"
    unfolding splice_exceptions_for_spawn_def Let_def by blast
  note eq = this
  show "map_at l (splice_exceptions_for_spawn x ff left s) = map_at l s"
    by (cases l) (simp_all add: eq)
qed (simp_all add: splice_exceptions_for_spawn_def Let_def)

lemma splice_exceptions_control:
  "control (ffh (splice_exceptions_for_spawn x ff left s) q) = control (ffh s q)"
  "call_stack (ffh (splice_exceptions_for_spawn x ff left s) q) = call_stack (ffh s q)"
  "left \<noteq> Children_of ff \<Longrightarrow> child_pending_exception (ffh (splice_exceptions_for_spawn x ff left s) ff) = child_pending_exception (ffh s ff)"
  "sfh (splice_exceptions_for_spawn x ff left s) = sfh s" "ff_brk (splice_exceptions_for_spawn x ff left s) = ff_brk s"
  "ff_freed (splice_exceptions_for_spawn x ff left s) = ff_freed s"
  by (cases left; simp add: splice_exceptions_for_spawn_def Let_def control_def)+

text \<open>The fast path leaves the same maps: it is the slow path where nothing has to be merged.\<close>

lemma fast_path_run:
  assumes "compute_left_ptrs_for_spawn_return ff s = Some left" and ne: "left \<noteq> Right_of ff"
    and "w_pending_exception (wkh s w) = None"
  shows "fast_path_reductions_for_spawn_return x w ff s =
     (let t = splice_exceptions_for_spawn x ff left s in
      Some (if case_value w ff left s = 2 \<or> case_value w ff left s = 4 \<or> case_value w ff left s < 2
        then (None, put_maps left (three_maps mu left w ff s) w None ff None t) else (Some left, t)))"
proof -
  let ?t = "splice_exceptions_for_spawn x ff left s"
  have cv: "case_value w ff left ?t = case_value w ff left s"
    by (simp add: case_value_def splice_exceptions_fields)
  have two: "upd_wk w (\<lambda>k. k\<lparr>reducer_map := None\<rparr>) (set_map_at left (reducer_map (wkh ?t w)) ?t) =
      put_maps left (reducer_map (wkh s w)) w None ff (right_reducer_map (ffh s ff)) ?t"
    by (simp add: slide_left [OF ne] splice_exceptions_fields)
  have four: "upd_ff ff (\<lambda>f. f\<lparr>right_reducer_map := None\<rparr>) (set_map_at left (right_reducer_map (ffh ?t ff)) ?t) =
      put_maps left (right_reducer_map (ffh s ff)) w (reducer_map (wkh s w)) ff None ?t"
  proof -
    have "upd_wk w (\<lambda>k. k\<lparr>reducer_map := reducer_map (wkh s w)\<rparr>) (set_map_at left (right_reducer_map (ffh s ff)) ?t)
        = set_map_at left (right_reducer_map (ffh s ff)) ?t"
    proof (rule upd_wk_same)
      have "wkh (set_map_at left (right_reducer_map (ffh s ff)) ?t) w = wkh s w"
        by (cases left) (simp_all add: splice_exceptions_fields)
      then show "(wkh (set_map_at left (right_reducer_map (ffh s ff)) ?t) w)\<lparr>reducer_map := reducer_map (wkh s w)\<rparr> =
          wkh (set_map_at left (right_reducer_map (ffh s ff)) ?t) w" by simp
    qed
    then show ?thesis by (simp add: put_maps_def splice_exceptions_fields)
  qed
  have same: "put_maps left (map_at left s) w (reducer_map (wkh s w)) ff (right_reducer_map (ffh s ff)) ?t = ?t"
    using put_maps_same [of left ?t w ff] by (simp add: splice_exceptions_fields)
  show ?thesis
    using assms same
    by (cases "map_at left s"; cases "reducer_map (wkh s w)"; cases "right_reducer_map (ffh s ff)")
      (simp_all add: fast_path_reductions_for_spawn_return_def Let_def cv two four, simp_all add: case_value_def)
qed

subsection \<open>The return of one child\<close>

text \<open>
  A family: the parent \<open>p\<close>, unlocked, its children \<open>cs\<close> and the worker \<open>wk c\<close> that runs child
  \<open>c\<close>; no exceptions are in flight in the workers, and every child has a fiber of its own.
\<close>

definition family :: "(ffptr \<Rightarrow> wptr) \<Rightarrow> ffptr \<Rightarrow> ffptr list \<Rightarrow> ('m, 'e) rts \<Rightarrow> bool" where
  "family wk p cs s \<longleftrightarrow>
     children (ffh s) p cs \<and> validate_full_frame (ffh s p) = Some () \<and> mutex_free (ff_lock (ffh s p)) \<and>
     inj_on wk (set cs) \<and>
     (\<forall>c\<in>set cs. w_pending_exception (wkh s (wk c)) = None \<and> fiber_to_free (wkh s (wk c)) = None \<and>
        fiber_self (ffh s c) \<noteq> None \<and> fiber_self (ffh s c) \<noteq> fiber_child (ffh s p)) \<and>
     (\<forall>c\<in>set cs. \<forall>d\<in>set cs. fiber_self (ffh s c) = fiber_self (ffh s d) \<longrightarrow> c = d)"

lemma left_slot_of_child:
  assumes "children h p (xs @ c # ys)"
  shows "left_sibling (h c) = last_opt xs" and "parent (h c) = Some p" and "c \<notin> set xs" and "c \<noteq> p"
  using assms by (auto simp: children_def dlseg_append last_opt_def split: if_splits)

lemma compute_left_family:
  assumes "children (ffh s) p (xs @ c # ys)"
  shows "compute_left_ptrs_for_spawn_return c s = Some (case last_opt xs of Some l \<Rightarrow> Right_of l | None \<Rightarrow> Children_of p)"
  using left_slot_of_child [OF assms] by (simp add: compute_left_ptrs_for_spawn_return_def split: option.split)

lemma family_left_ne:
  assumes "children (ffh s) p (xs @ c # ys)" and "left = (case last_opt xs of Some l \<Rightarrow> Right_of l | None \<Rightarrow> Children_of p)"
  shows "left \<noteq> Right_of c"
  using left_slot_of_child [OF assms(1)] assms(2) by (auto simp: last_opt_def)

text \<open>Both paths together: one merge of the three maps, left in the left slot.\<close>

lemma reductions_run:
  assumes "compute_left_ptrs_for_spawn_return c s = Some left" and "left \<noteq> Right_of c"
    and "w_pending_exception (wkh s w) = None" and "parent (ffh s c) = Some p" and "validate_full_frame (ffh s p) = Some ()"
    and "ff_lock (ffh s p) = \<lparr>mx_lock = 1, mx_owner = Some w\<rparr>"
  shows "Option.bind (fast_path_reductions_for_spawn_return x w c s) (\<lambda>(ptr, s).
      (case ptr of None \<Rightarrow> Some s | Some left \<Rightarrow> slow_path_reductions_for_spawn_return mu x w c left s)) =
     Some (put_maps left (three_maps mu left w c s) w None c None (splice_exceptions_for_spawn x c left s))"
proof -
  let ?t = "splice_exceptions_for_spawn x c left s"
  have "in_slow_path w c p left ?t"
    using assms
    by (auto simp: in_slow_path_def splice_exceptions_fields compute_left_ptrs_for_spawn_return_def split: option.splits)
  from slow_path_run [OF this, of mu x]
  have "slow_path_reductions_for_spawn_return mu x w c left ?t = Some (put_maps left (three_maps mu left w c s) w None c None ?t)"
    by (simp add: splice_exceptions_fields)
  then show ?thesis
    using fast_path_run [OF assms(1,2,3), of x mu] by (simp add: Let_def)
qed

text \<open>What the return of \<open>c\<close> to \<open>p\<close> leaves; \<open>m\<close> is the map it deposits in \<open>left\<close>.\<close>

definition spawn_returned :: "wptr \<Rightarrow> ffptr \<Rightarrow> ffptr \<Rightarrow> left_slot \<Rightarrow> 'm option \<Rightarrow> ('m, 'e) rts \<Rightarrow> ('m, 'e) rts \<Rightarrow> bool" where
  "spawn_returned w c p left m s s' \<longleftrightarrow>
     reducer_map (wkh s' w) = None \<and> w_pending_exception (wkh s' w) = w_pending_exception (wkh s w) \<and> (\<forall>v. v \<noteq> w \<longrightarrow> wkh s' v = wkh s v) \<and>
     (\<forall>q. right_reducer_map (ffh s' q) = (if left = Right_of q then m else if q = c then None else right_reducer_map (ffh s q))) \<and>
     (\<forall>q. children_reducer_map (ffh s' q) = (if left = Children_of q then m else children_reducer_map (ffh s q))) \<and>
     (\<forall>q. q \<noteq> c \<longrightarrow> fiber_self (ffh s' q) = fiber_self (ffh s q)) \<and>
     fiber_child (ffh s' p) = (if left_sibling (ffh s c) \<noteq> None \<or> fiber_child (ffh s p) \<noteq> None
        then fiber_child (ffh s p) else fiber_self (ffh s c)) \<and>
     fiber_to_free (wkh s' w) = (if left_sibling (ffh s c) \<noteq> None \<or> fiber_child (ffh s p) \<noteq> None
        then fiber_self (ffh s c) else None) \<and>
     validate_full_frame (ffh s' p) = Some () \<and> mutex_free (ff_lock (ffh s' p))"

text \<open>What it does not touch, apart from the frame the worker is on again while it merges.\<close>

definition spawn_return_keeps :: "wptr \<Rightarrow> ffptr \<Rightarrow> ffptr \<Rightarrow> sfptr \<Rightarrow> ('m, 'e) rts \<Rightarrow> ('m, 'e) rts \<Rightarrow> bool" where
  "spawn_return_keeps w c p sf s s' \<longleftrightarrow>
     wkh s' w = (wkh s w)\<lparr>current_stack_frame := Some sf, frame_ff := Some c, reducer_map := None, fiber_to_free := fiber_to_free (wkh s' w)\<rparr> \<and>
     sfh s' = sfh s \<and> ff_brk s' = ff_brk s \<and> ff_freed s' = ff_freed s \<and>
     (\<forall>q. control (ffh s' q) = control (ffh s q) \<and> parent (ffh s' q) = parent (ffh s q) \<and>
        validate_full_frame (ffh s' q) = validate_full_frame (ffh s q)) \<and>
     (\<forall>q. q \<noteq> p \<longrightarrow> ff_lock (ffh s' q) = ff_lock (ffh s q)) \<and> (\<forall>q. q \<noteq> c \<longrightarrow> call_stack (ffh s' q) = call_stack (ffh s q)) \<and>
     pending_exception (ffh s' c) = None \<and> right_pending_exception (ffh s' c) = None \<and>
     child_pending_exception (ffh s' c) = child_pending_exception (ffh s c) \<and> fiber_self (ffh s' c) = None"

lemma finish_spawn_return_run:
  assumes ch: "children (ffh s) p cs" and c: "c \<in> set cs" and "fiber_to_free (wkh s w) = None"
    and "fiber_self (ffh s c) \<noteq> fiber_child (ffh s p)"
  obtains s' where "finish_spawn_return_on_user_stack w p c s = Some s'" and "children (ffh s') p (remove1 c cs)"
    and "wkh s' = (wkh s)(w := (wkh s w)\<lparr>fiber_to_free := (if left_sibling (ffh s c) \<noteq> None \<or> fiber_child (ffh s p) \<noteq> None
        then fiber_self (ffh s c) else None)\<rparr>)"
    and "\<And>q. core (ffh s' q) = core (if q = c then (ffh s c)\<lparr>fiber_self := None\<rparr>
        else if q = p \<and> \<not> (left_sibling (ffh s c) \<noteq> None \<or> fiber_child (ffh s p) \<noteq> None)
        then (ffh s p)\<lparr>fiber_child := fiber_self (ffh s c)\<rparr> else ffh s q)"
    and "sfh s' = sfh s" and "ff_brk s' = ff_brk s" and "ff_freed s' = ff_freed s"
proof -
  let ?b = "left_sibling (ffh s c) \<noteq> None \<or> fiber_child (ffh s p) \<noteq> None"
  have pc: "p \<noteq> c" using ch c by (auto simp: children_def)
  define s1 where "s1 = upd_ff c (\<lambda>f. f\<lparr>fiber_self := None\<rparr>)
     (if ?b then upd_wk w (\<lambda>k. k\<lparr>fiber_to_free := fiber_self (ffh s c)\<rparr>) s
      else upd_wk w (\<lambda>k. k\<lparr>fiber_to_free := None\<rparr>) (upd_ff p (\<lambda>f. f\<lparr>fiber_child := fiber_self (ffh s c)\<rparr>) s))"
  have "children (ffh s1) p cs"
    by (rule children_other_cong [OF ch]) (simp_all add: s1_def)
  then obtain s' where u: "unlink_child p c s1 = Some s'" and "children (ffh s') p (remove1 c cs)"
    using c by (rule children_unlink_remove1)
  moreover have "finish_spawn_return_on_user_stack w p c s = unlink_child p c s1"
    using assms by (auto simp: finish_spawn_return_on_user_stack_def s1_def)
  ultimately show ?thesis
    using that unlink_child_fields [OF u] pc by (auto simp: s1_def)
qed

lemma put_maps_red:
  assumes "left \<noteq> Right_of c"
  shows "right_reducer_map (ffh (put_maps left l w m c r s) q) =
      (if left = Right_of q then l else if q = c then r else right_reducer_map (ffh s q))"
    and "children_reducer_map (ffh (put_maps left l w m c r s) q) =
      (if left = Children_of q then l else children_reducer_map (ffh s q))"
    and "reducer_map (wkh (put_maps left l w m c r s) v) = (if v = w then m else reducer_map (wkh s v))"
  using assms by (cases left; simp add: put_maps_def)+

lemma spawn_return_full:
  assumes fam: "family wk p cs s" and c: "c \<in> set cs" and w: "w = wk c"
    and left: "compute_left_ptrs_for_spawn_return c s = Some left"
  shows "\<exists>s'. execute_reductions_for_spawn_return mu x w c sf s = Some s' \<and> children (ffh s') p (remove1 c cs) \<and>
     spawn_returned w c p left (three_maps mu left w c s) s s' \<and> spawn_return_keeps w c p sf s s'"
proof -
  obtain xs ys where cs: "cs = xs @ c # ys" using c by (meson split_list)
  have ch: "children (ffh s) p cs" using fam by (simp add: family_def)
  have ch': "children (ffh s) p (xs @ c # ys)" using ch unfolding cs .
  have ne: "left \<noteq> Right_of c"
    using family_left_ne [OF ch' refl] compute_left_family [OF ch'] left by simp
  have pc: "parent (ffh s c) = Some p" "c \<noteq> p" using left_slot_of_child [OF ch'] by auto
  define s2 where "s2 = upd_ff p (\<lambda>f. f\<lparr>ff_lock := \<lparr>mx_lock = 1, mx_owner = Some w\<rparr>\<rparr>)
     (restore_frame_for_spawn_return_reduction w c sf s)"
  have lk: "frame_lock w p (restore_frame_for_spawn_return_reduction w c sf s) = Some s2"
    unfolding s2_def
    by (rule frame_lock_free) (use fam pc in \<open>simp_all add: family_def restore_frame_for_spawn_return_reduction_def make_runnable_def\<close>)
  have f2: "parent (ffh s2 q) = parent (ffh s q)" "left_sibling (ffh s2 q) = left_sibling (ffh s q)"
      "right_sibling (ffh s2 q) = right_sibling (ffh s q)" "rightmost_child (ffh s2 q) = rightmost_child (ffh s q)"
      "right_reducer_map (ffh s2 q) = right_reducer_map (ffh s q)" "children_reducer_map (ffh s2 q) = children_reducer_map (ffh s q)"
      "fiber_self (ffh s2 q) = fiber_self (ffh s q)" "fiber_child (ffh s2 q) = fiber_child (ffh s q)"
      "validate_full_frame (ffh s2 q) = validate_full_frame (ffh s q)" "map_at l s2 = map_at l s"
      "w_pending_exception (wkh s2 v) = w_pending_exception (wkh s v)" "reducer_map (wkh s2 v) = reducer_map (wkh s v)"
      "fiber_to_free (wkh s2 v) = fiber_to_free (wkh s v)" "v \<noteq> w \<Longrightarrow> wkh s2 v = wkh s v" for q l v
    by (simp_all add: s2_def restore_frame_for_spawn_return_reduction_def make_runnable_def) (cases l; simp)
  have lock2: "ff_lock (ffh s2 p) = \<lparr>mx_lock = 1, mx_owner = Some w\<rparr>" by (simp add: s2_def)
  let ?X = "three_maps mu left w c s"
  define s3 where "s3 = put_maps left ?X w None c None (splice_exceptions_for_spawn x c left s2)"
  have red: "Option.bind (fast_path_reductions_for_spawn_return x w c s2) (\<lambda>(ptr, s).
      (case ptr of None \<Rightarrow> Some s | Some left \<Rightarrow> slow_path_reductions_for_spawn_return mu x w c left s)) = Some s3"
  proof -
    have "compute_left_ptrs_for_spawn_return c s2 = Some left"
      using left by (simp add: compute_left_ptrs_for_spawn_return_def f2 split: option.splits)
    from reductions_run [OF this ne, of w p x mu] show ?thesis
      using fam c w pc lock2 by (simp add: f2 family_def s3_def)
  qed
  note f3 = put_maps_red [OF ne] splice_exceptions_fields f2
  have ch3: "children (ffh s3) p cs"
    by (rule children_other_cong [OF ch]) (simp_all add: s3_def f3)
  obtain s4 where fin: "finish_spawn_return_on_user_stack w p c s3 = Some s4" and ch4: "children (ffh s4) p (remove1 c cs)"
    and wk4: "wkh s4 = (wkh s3)(w := (wkh s3 w)\<lparr>fiber_to_free := (if left_sibling (ffh s3 c) \<noteq> None \<or> fiber_child (ffh s3 p) \<noteq> None
        then fiber_self (ffh s3 c) else None)\<rparr>)"
    and co4: "\<And>q. core (ffh s4 q) = core (if q = c then (ffh s3 c)\<lparr>fiber_self := None\<rparr>
        else if q = p \<and> \<not> (left_sibling (ffh s3 c) \<noteq> None \<or> fiber_child (ffh s3 p) \<noteq> None)
        then (ffh s3 p)\<lparr>fiber_child := fiber_self (ffh s3 c)\<rparr> else ffh s3 q)"
    and rest4: "sfh s4 = sfh s3" "ff_brk s4 = ff_brk s3" "ff_freed s4 = ff_freed s3"
    by (rule finish_spawn_return_run [OF ch3 c, of w]) (use fam c w in \<open>simp_all add: s3_def f3 family_def\<close>)
  note q4 = core_eqD [OF co4]
  have unl: "frame_unlock w p s4 = Some (upd_ff p (\<lambda>f. f\<lparr>ff_lock := mutex_init\<rparr>) s4)"
    by (rule frame_unlock_own) (use pc lock2 in \<open>simp add: q4 s3_def f3\<close>)
  have run: "execute_reductions_for_spawn_return mu x w c sf s = Some (upd_ff p (\<lambda>f. f\<lparr>ff_lock := mutex_init\<rparr>) s4)"
  proof -
    from red obtain ptr t where "fast_path_reductions_for_spawn_return x w c s2 = Some (ptr, t)"
      and "(case ptr of None \<Rightarrow> Some t | Some left \<Rightarrow> slow_path_reductions_for_spawn_return mu x w c left t) = Some s3"
      by (auto simp: bind_eq_Some_conv)
    moreover have "parent (ffh (restore_frame_for_spawn_return_reduction w c sf s) c) = Some p"
      using pc by (simp add: restore_frame_for_spawn_return_reduction_def make_runnable_def)
    ultimately show ?thesis
      using lk fin unl by (simp add: execute_reductions_for_spawn_return_def)
  qed
  have s3f: "right_reducer_map (ffh s3 q) = (if left = Right_of q then ?X else if q = c then None else right_reducer_map (ffh s q))"
      "children_reducer_map (ffh s3 q) = (if left = Children_of q then ?X else children_reducer_map (ffh s q))"
      "fiber_self (ffh s3 q) = fiber_self (ffh s q)" "fiber_child (ffh s3 q) = fiber_child (ffh s q)"
      "left_sibling (ffh s3 q) = left_sibling (ffh s q)" "validate_full_frame (ffh s3 q) = validate_full_frame (ffh s q)"
      "reducer_map (wkh s3 w) = None" "w_pending_exception (wkh s3 v) = w_pending_exception (wkh s v)"
      "v \<noteq> w \<Longrightarrow> wkh s3 v = wkh s v" for q v
    by (simp_all add: s3_def f3)
  have s4f: "right_reducer_map (ffh s4 q) = right_reducer_map (ffh s3 q)"
      "children_reducer_map (ffh s4 q) = children_reducer_map (ffh s3 q)"
      "fiber_self (ffh s4 q) = (if q = c then None else fiber_self (ffh s3 q))"
      "fiber_child (ffh s4 p) = (if left_sibling (ffh s c) \<noteq> None \<or> fiber_child (ffh s p) \<noteq> None
        then fiber_child (ffh s p) else fiber_self (ffh s c))"
      "validate_full_frame (ffh s4 p) = validate_full_frame (ffh s3 p)" for q
    using pc by (simp_all add: q4 s3f validate_full_frame_def)
  have "children (ffh (upd_ff p (\<lambda>f. f\<lparr>ff_lock := mutex_init\<rparr>) s4)) p (remove1 c cs)"
    by (rule children_other_cong [OF ch4]) simp_all
  moreover have "spawn_returned w c p left ?X s (upd_ff p (\<lambda>f. f\<lparr>ff_lock := mutex_init\<rparr>) s4)"
    unfolding spawn_returned_def
    using fam pc by (simp add: s4f s3f wk4 mutex_init_def family_def)
  moreover have "spawn_return_keeps w c p sf s (upd_ff p (\<lambda>f. f\<lparr>ff_lock := mutex_init\<rparr>) s4)"
  proof -
    have lc: "left \<noteq> Children_of c" using left pc by (auto simp: compute_left_ptrs_for_spawn_return_def split: option.splits)
    have c2: "control (ffh s2 q) = control (ffh s q)" "q \<noteq> c \<Longrightarrow> call_stack (ffh s2 q) = call_stack (ffh s q)"
      "q \<noteq> p \<Longrightarrow> ff_lock (ffh s2 q) = ff_lock (ffh s q)" "child_pending_exception (ffh s2 q) = child_pending_exception (ffh s q)"
      "sfh s2 = sfh s" "ff_brk s2 = ff_brk s" "ff_freed s2 = ff_freed s"
      "wkh s2 w = (wkh s w)\<lparr>current_stack_frame := Some sf, frame_ff := Some c\<rparr>" for q
      by (simp_all add: s2_def restore_frame_for_spawn_return_reduction_def make_runnable_def control_def)
    have c3: "control (ffh s3 q) = control (ffh s q)" "q \<noteq> c \<Longrightarrow> call_stack (ffh s3 q) = call_stack (ffh s q)"
      "q \<noteq> p \<Longrightarrow> ff_lock (ffh s3 q) = ff_lock (ffh s q)" "child_pending_exception (ffh s3 c) = child_pending_exception (ffh s c)"
      "pending_exception (ffh s3 c) = None" "right_pending_exception (ffh s3 c) = None" "parent (ffh s3 q) = parent (ffh s q)"
      "sfh s3 = sfh s" "ff_brk s3 = ff_brk s" "ff_freed s3 = ff_freed s"
      "wkh s3 w = (wkh s w)\<lparr>current_stack_frame := Some sf, frame_ff := Some c, reducer_map := None\<rparr>" for q
      using lc by (simp_all add: s3_def f3 splice_exceptions_control c2)
    have c4: "control (ffh s4 q) = control (ffh s3 q)" "validate_full_frame (ffh s4 q) = validate_full_frame (ffh s3 q)" for q
      by (simp_all add: control_def validate_full_frame_def q4)
    have v: "validate_full_frame (f\<lparr>ff_lock := l\<rparr>) = validate_full_frame f" "control (f\<lparr>ff_lock := l\<rparr>) = control f" for f l
      by (simp_all add: validate_full_frame_def control_def)
    show ?thesis
      unfolding spawn_return_keeps_def using pc
      by (simp add: wk4 rest4 c3 c4 s3f v) (simp add: q4 c3)
  qed
  ultimately show ?thesis using run by blast
qed

lemma spawn_return_run:
  assumes "family wk p cs s" and "c \<in> set cs" and "w = wk c" and "compute_left_ptrs_for_spawn_return c s = Some left"
  shows "\<exists>s'. execute_reductions_for_spawn_return mu x w c sf s = Some s' \<and> children (ffh s') p (remove1 c cs) \<and>
     spawn_returned w c p left (three_maps mu left w c s) s s'"
  using spawn_return_full [OF assms, of mu x sf] by blast

subsection \<open>The views in serial order\<close>

text \<open>
  The maps of a family in the order of a serial execution: the children's map of the
  parent, then for each child from left to right its own map and the one to its right.
\<close>

definition view_seq :: "(ffptr \<Rightarrow> wptr) \<Rightarrow> ffptr \<Rightarrow> ffptr list \<Rightarrow> ('m, 'e) rts \<Rightarrow> 'm option list" where
  "view_seq wk p cs s = children_reducer_map (ffh s p) #
     concat (map (\<lambda>c. [reducer_map (wkh s (wk c)), right_reducer_map (ffh s c)]) cs)"

definition product :: "('m \<Rightarrow> 'm \<Rightarrow> 'm) \<Rightarrow> 'm option list \<Rightarrow> 'm option" where
  "product mu ms = foldr (merge_reducer_maps mu) ms None"

lemma product_Nil [simp]: "product mu [] = None"
  by (simp add: product_def)

lemma product_Cons [simp]: "product mu (m # ms) = merge_reducer_maps mu m (product mu ms)"
  by (simp add: product_def)

lemma product_append:
  "reduce_assoc mu \<Longrightarrow> product mu (xs @ ys) = merge_reducer_maps mu (product mu xs) (product mu ys)"
  by (induction xs) (simp_all add: merge_assoc)

text \<open>The return of one child keeps the product: it only brackets it differently.\<close>

lemma view_product_return:
  assumes mu: "reduce_assoc mu" and fam: "family wk p (xs @ c # ys) s"
    and left: "left = (case last_opt xs of Some l \<Rightarrow> Right_of l | None \<Rightarrow> Children_of p)"
    and ret: "spawn_returned (wk c) c p left (three_maps mu left (wk c) c s) s s'"
  shows "product mu (view_seq wk p (xs @ ys) s') = product mu (view_seq wk p (xs @ c # ys) s)"
proof -
  let ?X = "three_maps mu left (wk c) c s"
  have ch: "children (ffh s) p (xs @ c # ys)" and inj: "inj_on wk (set (xs @ c # ys))" using fam by (auto simp: family_def)
  then have d: "distinct (xs @ c # ys)" "p \<notin> set (xs @ c # ys)" by (auto simp: children_def)
  have wk: "wk q \<noteq> wk c" if "q \<in> set xs \<union> set ys" for q
    using inj that d by (auto simp: inj_on_def)
  have own: "reducer_map (wkh s' (wk q)) = reducer_map (wkh s (wk q))" if "q \<in> set xs \<union> set ys" for q
    using ret wk [OF that] by (simp add: spawn_returned_def)
  have right: "right_reducer_map (ffh s' q) = (if left = Right_of q then ?X else right_reducer_map (ffh s q))"
    if "q \<in> set xs \<union> set ys" for q
    using ret that d by (auto simp: spawn_returned_def)
  have kids: "children_reducer_map (ffh s' p) = (if left = Children_of p then ?X else children_reducer_map (ffh s p))"
    using ret by (simp add: spawn_returned_def)
  have "left \<noteq> Right_of q" if "q \<in> set ys" for q
  proof
    assume "left = Right_of q"
    then have "xs \<noteq> []" "q = last xs" using left by (auto simp: last_opt_def split: if_splits)
    then have "q \<in> set xs" by simp
    then show False using that d(1) by auto
  qed
  then have right': "right_reducer_map (ffh s' q) = right_reducer_map (ffh s q)" if "q \<in> set ys" for q
    using right that by simp
  have ys: "concat (map (\<lambda>c. [reducer_map (wkh s' (wk c)), right_reducer_map (ffh s' c)]) ys) =
      concat (map (\<lambda>c. [reducer_map (wkh s (wk c)), right_reducer_map (ffh s c)]) ys)"
    by (intro arg_cong [where f = concat] map_cong refl) (simp add: own right')
  show ?thesis
  proof (cases xs rule: rev_cases)
    case Nil
    then show ?thesis using left kids ys mu by (simp add: view_seq_def merge_assoc)
  next
    case (snoc us l)
    have l: "left = Right_of l" using left snoc by (simp add: last_opt_def)
    have us: "concat (map (\<lambda>c. [reducer_map (wkh s' (wk c)), right_reducer_map (ffh s' c)]) us) =
        concat (map (\<lambda>c. [reducer_map (wkh s (wk c)), right_reducer_map (ffh s c)]) us)"
      using d snoc by (intro arg_cong [where f = concat] map_cong refl) (auto simp: own right l)
    show ?thesis
      using l snoc kids ys us own [of l] right [of l] mu by (simp add: view_seq_def product_append merge_assoc)
  qed
qed

lemma family_return:
  assumes fam: "family wk p cs s" and c: "c \<in> set cs" and ch: "children (ffh s') p (remove1 c cs)"
    and ret: "spawn_returned (wk c) c p left m s s'"
  shows "family wk p (remove1 c cs) s'"
proof -
  have d: "distinct cs" using fam by (simp add: family_def children_def)
  have sub: "d \<in> set (remove1 c cs) \<longleftrightarrow> d \<in> set cs \<and> d \<noteq> c" for d using d by auto
  have wk: "wk q \<noteq> wk c" if "q \<in> set (remove1 c cs)" for q
    using fam that c sub by (auto simp: family_def inj_on_def)
  have same: "wkh s' (wk q) = wkh s (wk q)" "fiber_self (ffh s' q) = fiber_self (ffh s q)" if "q \<in> set (remove1 c cs)" for q
    using ret wk [OF that] that sub by (auto simp: spawn_returned_def)
  have "fiber_self (ffh s q) \<noteq> fiber_child (ffh s' p)" if "q \<in> set cs" "q \<noteq> c" for q
    using ret fam that c unfolding spawn_returned_def family_def by metis
  moreover have "inj_on wk (set (remove1 c cs))"
    using fam by (auto simp: family_def intro: inj_on_subset [OF _ set_remove1_subset])
  ultimately show ?thesis
    using ch fam ret same sub unfolding family_def by (auto simp: spawn_returned_def)
qed

text \<open>All children return, in the order of the list \<open>ds\<close>.\<close>

primrec return_all :: "('m \<Rightarrow> 'm \<Rightarrow> 'm) \<Rightarrow> 'e exn_rt \<Rightarrow> (ffptr \<Rightarrow> wptr) \<Rightarrow> (ffptr \<Rightarrow> sfptr) \<Rightarrow> ffptr list
    \<Rightarrow> ('m, 'e) rts \<Rightarrow> ('m, 'e) rts option" where
  "return_all mu x wk sf [] s = Some s"
| "return_all mu x wk sf (c # ds) s = do {
     s \<leftarrow> execute_reductions_for_spawn_return mu x (wk c) c (sf c) s;
     return_all mu x wk sf ds s }"

lemma return_one:
  assumes mu: "reduce_assoc mu" and fam: "family wk p cs s" and c: "c \<in> set cs"
  obtains s' where "execute_reductions_for_spawn_return mu x (wk c) c sf s = Some s'"
    and "family wk p (remove1 c cs) s'" and "product mu (view_seq wk p (remove1 c cs) s') = product mu (view_seq wk p cs s)"
proof -
  obtain xs ys where cs: "cs = xs @ c # ys" and "c \<notin> set xs" using c by (meson split_list_first)
  define left where "left = (case last_opt xs of Some l \<Rightarrow> Right_of l | None \<Rightarrow> Children_of p)"
  have "compute_left_ptrs_for_spawn_return c s = Some left"
    unfolding left_def by (rule compute_left_family) (use fam cs in \<open>auto simp: family_def\<close>)
  then obtain s' where run: "execute_reductions_for_spawn_return mu x (wk c) c sf s = Some s'"
    and ch: "children (ffh s') p (remove1 c cs)" and ret: "spawn_returned (wk c) c p left (three_maps mu left (wk c) c s) s s'"
    using spawn_return_run [OF fam c refl] by blast
  have "product mu (view_seq wk p (xs @ ys) s') = product mu (view_seq wk p (xs @ c # ys) s)"
    using view_product_return [where wk = wk and p = p and c = c and xs = xs and ys = ys, OF mu _ left_def ret] fam cs by simp
  then show ?thesis
    using that [OF run family_return [OF fam c ch ret]] cs \<open>c \<notin> set xs\<close> by (simp add: remove1_middle)
qed

lemma return_all_run:
  assumes "reduce_assoc mu" and "family wk p cs s" and "mset ds = mset cs"
  shows "\<exists>s'. return_all mu x wk sf ds s = Some s' \<and> family wk p [] s' \<and>
     product mu (view_seq wk p [] s') = product mu (view_seq wk p cs s)"
  using assms
proof (induction ds arbitrary: s cs)
  case Nil
  then show ?case by auto
next
  case (Cons c ds)
  have c: "c \<in> set cs" using Cons.prems(3) by (metis list.set_intros(1) mset_eq_setD)
  obtain s1 where s1: "execute_reductions_for_spawn_return mu x (wk c) c (sf c) s = Some s1"
    "family wk p (remove1 c cs) s1" "product mu (view_seq wk p (remove1 c cs) s1) = product mu (view_seq wk p cs s)"
    using Cons.prems(1,2) c by (rule return_one)
  have "mset ds = mset (remove1 c cs)" using Cons.prems(3) by (simp flip: Cons.prems(3))
  from Cons.IH [OF Cons.prems(1) s1(2) this] s1 show ?case by auto
qed

subsection \<open>Stalling at a sync\<close>

text \<open>The exceptions of \<open>ff\<close> move to the left slot.\<close>

definition sync_exceptions :: "'e exn_rt \<Rightarrow> ffptr \<Rightarrow> left_slot \<Rightarrow> ('m, 'e) rts \<Rightarrow> ('m, 'e) rts" where
  "sync_exceptions x ff left s = upd_ff ff (\<lambda>f. f\<lparr>pending_exception := None\<rparr>)
     (set_exception_at left (merge_pending_exceptions x (exception_at left s) (pending_exception (ffh s ff))) s)"

definition sync_stalled :: "wptr \<Rightarrow> ffptr \<Rightarrow> left_slot \<Rightarrow> ('m, 'e) rts \<Rightarrow> bool" where
  "sync_stalled w ff left s \<longleftrightarrow>
     validate_full_frame (ffh s ff) = Some () \<and> mutex_free (ff_lock (ffh s ff)) \<and>
     compute_left_ptrs_for_sync ff s = Some left \<and> reducer_map (wkh s w) = None \<and> w_pending_exception (wkh s w) = None"

lemma sync_exceptions_fields [simp]:
  "map_at l (sync_exceptions x ff left s) = map_at l s" "wkh (sync_exceptions x ff left s) = wkh s"
  "ff_lock (ffh (sync_exceptions x ff left s) q) = ff_lock (ffh s q)"
  "validate_full_frame (ffh (sync_exceptions x ff left s) q) = validate_full_frame (ffh s q)"
  "parent (ffh (sync_exceptions x ff left s) q) = parent (ffh s q)"
  "rightmost_child (ffh (sync_exceptions x ff left s) q) = rightmost_child (ffh s q)"
  "left_sibling (ffh (sync_exceptions x ff left s) q) = left_sibling (ffh s q)"
  "right_sibling (ffh (sync_exceptions x ff left s) q) = right_sibling (ffh s q)"
  "right_reducer_map (ffh (sync_exceptions x ff left s) q) = right_reducer_map (ffh s q)"
  "children_reducer_map (ffh (sync_exceptions x ff left s) q) = children_reducer_map (ffh s q)"
  "fiber_self (ffh (sync_exceptions x ff left s) q) = fiber_self (ffh s q)"
  "pending_exception (ffh (sync_exceptions x ff left s) ff) = None"
  "call_stack (ffh (sync_exceptions x ff left s) q) = call_stack (ffh s q)"
  "sync_sp (ffh (sync_exceptions x ff left s) q) = sync_sp (ffh s q)"
  "sfh (sync_exceptions x ff left s) = sfh s"
proof -
  show "map_at l (sync_exceptions x ff left s) = map_at l s" by (cases l) (simp_all add: sync_exceptions_def)
  show "call_stack (ffh (sync_exceptions x ff left s) q) = call_stack (ffh s q)"
    "sync_sp (ffh (sync_exceptions x ff left s) q) = sync_sp (ffh s q)"
    "sfh (sync_exceptions x ff left s) = sfh s"
    by (cases left; simp add: sync_exceptions_def)+
qed (simp_all add: sync_exceptions_def)

lemma set_map_fields [simp]:
  "wkh (set_map_at left m s) = wkh s" "sfh (set_map_at left m s) = sfh s"
  "ff_lock (ffh (set_map_at left m s) q) = ff_lock (ffh s q)"
  "validate_full_frame (ffh (set_map_at left m s) q) = validate_full_frame (ffh s q)"
  "parent (ffh (set_map_at left m s) q) = parent (ffh s q)"
  "rightmost_child (ffh (set_map_at left m s) q) = rightmost_child (ffh s q)"
  "left_sibling (ffh (set_map_at left m s) q) = left_sibling (ffh s q)"
  "right_sibling (ffh (set_map_at left m s) q) = right_sibling (ffh s q)"
  "fiber_self (ffh (set_map_at left m s) q) = fiber_self (ffh s q)"
  "call_stack (ffh (set_map_at left m s) q) = call_stack (ffh s q)"
  "sync_sp (ffh (set_map_at left m s) q) = sync_sp (ffh s q)"
  "pending_exception (ffh (set_map_at left m s) q) = pending_exception (ffh s q)"
  "map_at left (set_map_at left m s) = m"
  "set_map_at left m (set_map_at left m' s) = set_map_at left m s"
  by (cases left; simp add: validate_full_frame_def upd_ff_def)+

lemma sync_stalled_step [simp]:
  "sync_stalled w ff left (set_map_at left m (sync_exceptions x ff left s)) = sync_stalled w ff left s"
  by (simp add: sync_stalled_def compute_left_ptrs_for_sync_def split: option.split)

text \<open>Taking and releasing the lock around a step leaves no trace.\<close>

lemma sync_under_lock:
  assumes "mutex_free (ff_lock (ffh s ff))"
  shows "frame_unlock w ff (set_map_at left m (sync_exceptions x ff left (set_map_at left k
      (upd_ff ff (\<lambda>f. f\<lparr>ff_lock := \<lparr>mx_lock = 1, mx_owner = Some w\<rparr>\<rparr>) s)))) =
    Some (set_map_at left m (sync_exceptions x ff left s))"
proof -
  have l: "ff_lock (ffh s ff) = mutex_init" using assms by (simp add: mutex_free_init)
  have "upd_ff ff (\<lambda>f. f\<lparr>ff_lock := mutex_init\<rparr>) (set_map_at left m (sync_exceptions x ff left (set_map_at left k
      (upd_ff ff (\<lambda>f. f\<lparr>ff_lock := \<lparr>mx_lock = 1, mx_owner = Some w\<rparr>\<rparr>) s)))) = set_map_at left m (sync_exceptions x ff left s)"
    by (cases left)
      (auto simp: sync_exceptions_def fun_eq_iff l intro!: rts.equality full_frame.equality)
  then show ?thesis by (subst frame_unlock_own) auto
qed

lemma set_map_sync:
  "set_map_at left m (sync_exceptions x ff left s) = sync_exceptions x ff left (set_map_at left m s)"
  by (cases left) (auto simp: sync_exceptions_def fun_eq_iff intro!: rts.equality full_frame.equality)

lemma sync_loop_step:
  assumes "sync_stalled w ff left s"
  shows "slow_path_sync_loop mu x w ff m s =
    (if map_at left s = None \<or> m = None
     then Some (set_map_at left (merge_reducer_maps mu (map_at left s) m) (sync_exceptions x ff left s))
     else slow_path_sync_loop mu x w ff (merge_reducer_maps mu (map_at left s) m)
       (set_map_at left None (sync_exceptions x ff left s)))"
proof -
  let ?s1 = "upd_ff ff (\<lambda>f. f\<lparr>ff_lock := \<lparr>mx_lock = 1, mx_owner = Some w\<rparr>\<rparr>) s"
  have lk: "frame_lock w ff s = Some ?s1"
    using assms by (intro frame_lock_free) (simp_all add: sync_stalled_def)
  have left: "compute_left_ptrs_for_sync ff ?s1 = Some left"
    using assms by (auto simp: sync_stalled_def compute_left_ptrs_for_sync_def split: option.splits)
  have map1: "map_at left ?s1 = map_at left s" by (cases left) auto
  let ?E = "\<lambda>s. sync_exceptions x ff left s"
  have E: "upd_ff ff (\<lambda>f. f\<lparr>pending_exception := None\<rparr>)
      (set_exception_at left (merge_pending_exceptions x (exception_at left s) (pending_exception (ffh s ff))) s) = ?E s"
    for s by (simp add: sync_exceptions_def)
  have unl: "frame_unlock w ff (set_map_at left k (?E (set_map_at left None ?s1))) = Some (set_map_at left k (?E s))" for k
    using assms by (intro sync_under_lock) (simp add: sync_stalled_def)
  have unl0: "frame_unlock w ff (?E (set_map_at left None ?s1)) = Some (set_map_at left None (?E s))"
    using unl [of None] by (simp add: set_map_sync)
  let ?s2 = "set_map_at left None (?E s)"
  have s2: "reducer_map (wkh ?s2 w) = None" "pending_exception (ffh ?s2 ff) = None" "w_pending_exception (wkh ?s2 w) = None"
    using assms by (simp_all add: sync_stalled_def)
  have same: "upd_ff ff (\<lambda>f. f\<lparr>pending_exception := None\<rparr>) ?s2 = ?s2" "upd_wk w (\<lambda>k. k\<lparr>w_pending_exception := None\<rparr>) ?s2 = ?s2"
    using s2 by (simp_all add: upd_ff_same upd_wk_same ff_pending_same wk_pending_same)
  have w: "reducer_map (wkh s w) = None" "w_pending_exception (wkh s w) = None"
    using assms by (simp_all add: sync_stalled_def)
  show ?thesis
    by (subst slow_path_sync_loop.simps, simp only: lk left Option.bind_lunit Let_def E map1)
      (simp add: unl unl0 repeated_merge_done w same)
qed

lemma sync_exceptions_again:
  assumes "pending_exception (ffh s ff) = None"
  shows "sync_exceptions x ff left s = s"
  using assms by (simp add: sync_exceptions_def set_exception_same upd_ff_same ff_pending_same)

lemma sync_loop_run:
  assumes "sync_stalled w ff left s"
  shows "slow_path_sync_loop mu x w ff m s =
    Some (set_map_at left (merge_reducer_maps mu (map_at left s) m) (sync_exceptions x ff left s))"
proof (cases "map_at left s = None \<or> m = None")
  case True
  then show ?thesis using sync_loop_step [OF assms] by simp
next
  case False
  let ?s2 = "set_map_at left None (sync_exceptions x ff left s)"
  have "sync_stalled w ff left ?s2" using assms by simp
  from sync_loop_step [OF this, of mu x "merge_reducer_maps mu (map_at left s) m"]
  have "slow_path_sync_loop mu x w ff (merge_reducer_maps mu (map_at left s) m) ?s2 =
      Some (set_map_at left (merge_reducer_maps mu (map_at left s) m) (sync_exceptions x ff left s))"
    by (simp add: sync_exceptions_again)
  then show ?thesis using sync_loop_step [OF assms, of mu x m] False by simp
qed

text \<open>The frame \<open>ff\<close> of worker \<open>w\<close> with children \<open>cs\<close> arrives at a sync.\<close>

definition at_sync :: "wptr \<Rightarrow> ffptr \<Rightarrow> ffptr list \<Rightarrow> ('m, 'e) rts \<Rightarrow> bool" where
  "at_sync w ff cs s \<longleftrightarrow>
     frame_ff (wkh s w) = Some ff \<and> children (ffh s) ff cs \<and>
     validate_full_frame (ffh s ff) = Some () \<and> mutex_free (ff_lock (ffh s ff)) \<and> pending_exception (ffh s ff) = None"

definition sync_slot :: "ffptr \<Rightarrow> ffptr list \<Rightarrow> left_slot" where
  "sync_slot ff cs = (case last_opt cs of Some r \<Rightarrow> Right_of r | None \<Rightarrow> Children_of ff)"

lemma compute_left_sync:
  assumes "children (ffh s) ff cs"
  shows "compute_left_ptrs_for_sync ff s = Some (sync_slot ff cs)"
  using assms by (auto simp: compute_left_ptrs_for_sync_def children_def sync_slot_def last_opt_def split: option.split)

text \<open>The product of the family grows by the frame's own map, on the right.\<close>

lemma view_product_sync:
  assumes mu: "reduce_assoc mu" and d: "distinct cs" "ff \<notin> set cs" and wk: "w \<notin> wk ` set cs"
    and own: "\<And>v. v \<noteq> w \<Longrightarrow> reducer_map (wkh s' v) = reducer_map (wkh s v)"
    and right: "\<And>q. right_reducer_map (ffh s' q) = (if sync_slot ff cs = Right_of q then merge_reducer_maps mu (map_at (sync_slot ff cs) s) m
        else right_reducer_map (ffh s q))"
    and kids: "children_reducer_map (ffh s' ff) = (if sync_slot ff cs = Children_of ff then merge_reducer_maps mu (map_at (sync_slot ff cs) s) m
        else children_reducer_map (ffh s ff))"
  shows "product mu (view_seq wk ff cs s') = merge_reducer_maps mu (product mu (view_seq wk ff cs s)) m"
proof (cases cs rule: rev_cases)
  case Nil
  then show ?thesis using kids by (simp add: view_seq_def sync_slot_def)
next
  case (snoc us l)
  have slot: "sync_slot ff cs = Right_of l" using snoc by (simp add: sync_slot_def last_opt_def)
  have w: "reducer_map (wkh s' (wk q)) = reducer_map (wkh s (wk q))" if "q \<in> set cs" for q
    using own [of "wk q"] wk that by auto
  have us: "concat (map (\<lambda>c. [reducer_map (wkh s' (wk c)), right_reducer_map (ffh s' c)]) us) =
      concat (map (\<lambda>c. [reducer_map (wkh s (wk c)), right_reducer_map (ffh s c)]) us)"
    using d snoc by (intro arg_cong [where f = concat] map_cong refl) (auto simp: w right slot slot [unfolded snoc])
  show ?thesis
    using snoc kids us w [of l] right [of l] mu by (simp add: view_seq_def slot slot [unfolded snoc] product_append merge_assoc)
qed

lemma set_map_red:
  "right_reducer_map (ffh (set_map_at left m s) q) = (if left = Right_of q then m else right_reducer_map (ffh s q))"
  "children_reducer_map (ffh (set_map_at left m s) q) = (if left = Children_of q then m else children_reducer_map (ffh s q))"
  by (cases left; simp)+

lemma c_sync_run:
  assumes s: "at_sync w ff cs s"
  shows "\<exists>s'. c_sync mu x w sf s = Some s' \<and> children (ffh s') ff cs \<and>
     reducer_map (wkh s' w) = None \<and> (\<forall>v. v \<noteq> w \<longrightarrow> reducer_map (wkh s' v) = reducer_map (wkh s v)) \<and>
     (\<forall>q. right_reducer_map (ffh s' q) = (if sync_slot ff cs = Right_of q
        then merge_reducer_maps mu (map_at (sync_slot ff cs) s) (reducer_map (wkh s w)) else right_reducer_map (ffh s q))) \<and>
     (\<forall>q. children_reducer_map (ffh s' q) = (if sync_slot ff cs = Children_of q
        then merge_reducer_maps mu (map_at (sync_slot ff cs) s) (reducer_map (wkh s w)) else children_reducer_map (ffh s q))) \<and>
     call_stack (ffh s' ff) = Some sf \<and> has_flag (flags (sfh s' sf)) CILK_FRAME_SUSPENDED \<and>
     fiber_self (ffh s' ff) = None \<and> fiber_to_free (wkh s' w) = fiber_self (ffh s ff) \<and>
     sync_sp (ffh s' ff) = sf_sp (sfh s sf) + sync_sp (ffh s ff) \<and> mutex_free (ff_lock (ffh s' ff)) \<and>
     w_pending_exception (wkh s' w) = None"
proof -
  let ?slot = "sync_slot ff cs"
  define a where "a = upd_wk w (\<lambda>k. k\<lparr>w_pending_exception := None\<rparr>) (upd_ff ff (\<lambda>f. f\<lparr>pending_exception := w_pending_exception (wkh s w)\<rparr>) s)"
  define b where "b = make_unrunnable_sysdep ff sf True (put_stack ff sf (upd_ff ff (\<lambda>f. f\<lparr>call_stack := None\<rparr>) a))"
  have b: "right_reducer_map (ffh b q) = right_reducer_map (ffh s q)" "children_reducer_map (ffh b q) = children_reducer_map (ffh s q)"
      "parent (ffh b q) = parent (ffh s q)" "rightmost_child (ffh b q) = rightmost_child (ffh s q)"
      "left_sibling (ffh b q) = left_sibling (ffh s q)" "right_sibling (ffh b q) = right_sibling (ffh s q)"
      "ff_lock (ffh b q) = ff_lock (ffh s q)" "validate_full_frame (ffh b q) = validate_full_frame (ffh s q)"
      "fiber_self (ffh b q) = fiber_self (ffh s q)" "call_stack (ffh b ff) = None"
      "sync_sp (ffh b ff) = sf_sp (sfh s sf) + sync_sp (ffh s ff)"
      "reducer_map (wkh b v) = reducer_map (wkh s v)" "frame_ff (wkh b v) = frame_ff (wkh s v)"
      "w_pending_exception (wkh b w) = None" for q v
    by (simp_all add: b_def a_def make_unrunnable_sysdep_def put_stack_def Let_def validate_full_frame_def)
  have map_b: "map_at l b = map_at l s" for l by (cases l) (simp_all add: b)
  have ch: "children (ffh s) ff cs" using s by (simp add: at_sync_def)
  have chb: "children (ffh b) ff cs" by (rule children_other_cong [OF ch]) (simp_all add: b)
  define c where "c = (if fast_path_reductions_for_sync w ff b then b
     else set_map_at ?slot (merge_reducer_maps mu (map_at ?slot s) (reducer_map (wkh s w)))
       (sync_exceptions x ff ?slot (upd_wk w (\<lambda>k. k\<lparr>reducer_map := None\<rparr>) b)))"
  have run_c: "(if fast_path_reductions_for_sync w ff b then Some b else slow_path_reductions_for_sync mu x w ff b) = Some c"
  proof (cases "fast_path_reductions_for_sync w ff b")
    case False
    let ?b1 = "upd_wk w (\<lambda>k. k\<lparr>reducer_map := None\<rparr>) b"
    have "compute_left_ptrs_for_sync ff ?b1 = Some ?slot"
      by (rule compute_left_sync) (use chb in simp)
    then have "sync_stalled w ff ?slot ?b1"
      using s by (simp add: sync_stalled_def at_sync_def b)
    from sync_loop_run [OF this, of mu x] have "slow_path_sync_loop mu x w ff (reducer_map (wkh b w)) ?b1 = Some c"
      using False by (simp add: c_def b) (cases ?slot; simp add: b)
    then show ?thesis using False by (simp add: slow_path_reductions_for_sync_def)
  qed (simp add: c_def)
  have c: "reducer_map (wkh c w) = None" "v \<noteq> w \<Longrightarrow> reducer_map (wkh c v) = reducer_map (wkh s v)"
      "right_reducer_map (ffh c q) = (if ?slot = Right_of q then merge_reducer_maps mu (map_at ?slot s) (reducer_map (wkh s w)) else right_reducer_map (ffh s q))"
      "children_reducer_map (ffh c q) = (if ?slot = Children_of q then merge_reducer_maps mu (map_at ?slot s) (reducer_map (wkh s w)) else children_reducer_map (ffh s q))"
      "frame_ff (wkh c w) = Some ff" "call_stack (ffh c ff) = None" "sync_sp (ffh c ff) = sf_sp (sfh s sf) + sync_sp (ffh s ff)"
      "fiber_self (ffh c q) = fiber_self (ffh s q)" "ff_lock (ffh c q) = ff_lock (ffh s q)"
      "parent (ffh c q) = parent (ffh s q)" "rightmost_child (ffh c q) = rightmost_child (ffh s q)"
      "left_sibling (ffh c q) = left_sibling (ffh s q)" "right_sibling (ffh c q) = right_sibling (ffh s q)"
      "w_pending_exception (wkh c w) = None" for q v
    using s by (auto simp: c_def b at_sync_def set_map_red fast_path_reductions_for_sync_def)
  define d where "d = upd_ff ff (\<lambda>f. f\<lparr>fiber_self := None\<rparr>) (upd_wk w (\<lambda>k. k\<lparr>fiber_to_free := fiber_self (ffh c ff)\<rparr>)
     (upd_sf sf (\<lambda>f. f\<lparr>flags := set_flag (flags f) CILK_FRAME_SUSPENDED\<rparr>) (upd_ff ff (\<lambda>f. f\<lparr>call_stack := Some sf\<rparr>) c)))"
  have "frame_ff (wkh b w) = Some ff" using s by (simp add: b at_sync_def)
  then have "execute_reductions_for_sync mu x w ff sf a = Some d"
    unfolding execute_reductions_for_sync_def Let_def b_def [symmetric] run_c d_def by (simp add: c)
  then have run: "c_sync mu x w sf s = Some d"
    using s by (simp add: c_sync_def at_sync_def a_def)
  have "children (ffh d) ff cs" by (rule children_other_cong [OF ch]) (simp_all add: d_def c)
  moreover have "has_flag (flags (sfh d sf)) CILK_FRAME_SUSPENDED"
    by (simp add: d_def has_set_flag_same frame_flag_defs)
  ultimately show ?thesis
    using run s c by (intro exI [of _ d]) (simp add: d_def at_sync_def)
qed

subsection \<open>Properties\<close>

text \<open>C2: reductions are deterministic. When the reduce operation is associative, the children of a
  frame may return to it in any order, through the fast or the slow path: every return
  succeeds, and the map that is left for the parent is the product of all maps of the
  family in the order of a serial execution.\<close>

theorem reducers_serial_order:
  assumes "reduce_assoc mu" and "family wk p cs s" and "mset ds = mset cs"
  shows "\<exists>s'. return_all mu x wk sf ds s = Some s' \<and> children (ffh s') p [] \<and>
     children_reducer_map (ffh s' p) = product mu (view_seq wk p cs s)"
proof -
  obtain s' where "return_all mu x wk sf ds s = Some s'" "family wk p [] s'"
    "product mu (view_seq wk p [] s') = product mu (view_seq wk p cs s)"
    using return_all_run [OF assms] by blast
  then show ?thesis by (auto simp: family_def view_seq_def)
qed

text \<open>one return. \<^verbatim>\<open>execute_reductions_for_spawn_return\<close> takes the child out of its parent's
  list, deposits the merge of left, own and right map in the slot to its left and empties
  the others, touches no other map, keeps the leftmost fiber for the parent and schedules
  any other one to be freed, and releases the parent's lock.\<close>

theorem spawn_return_spec:
  assumes "family wk p cs s" and "c \<in> set cs" and "compute_left_ptrs_for_spawn_return c s = Some left"
  shows "\<exists>s'. execute_reductions_for_spawn_return mu x (wk c) c sf s = Some s' \<and>
     children (ffh s') p (remove1 c cs) \<and>
     spawn_returned (wk c) c p left (three_maps mu left (wk c) c s) s s'"
  using assms by (intro spawn_return_run) simp_all

text \<open>A child \<open>c\<close> of \<open>p\<close> at the start of its reductions: its worker holds the lock of the parent. The
  child and the frame to its left may have pending exceptions.\<close>

definition at_spawn_return :: "wptr \<Rightarrow> ffptr \<Rightarrow> ffptr \<Rightarrow> left_slot \<Rightarrow> ('m, 'e) rts \<Rightarrow> bool" where
  "at_spawn_return w c p left s \<longleftrightarrow>
     parent (ffh s c) = Some p \<and> validate_full_frame (ffh s p) = Some () \<and>
     ff_lock (ffh s p) = \<lparr>mx_lock = 1, mx_owner = Some w\<rparr> \<and>
     compute_left_ptrs_for_spawn_return c s = Some left \<and> left \<noteq> Right_of c"

lemma splice_in_slow_path:
  assumes "at_spawn_return w c p left s" and "w_pending_exception (wkh s w) = None"
  shows "in_slow_path w c p left (splice_exceptions_for_spawn x c left s)"
proof -
  let ?t = "splice_exceptions_for_spawn x c left s"
  have "compute_left_ptrs_for_spawn_return c ?t = compute_left_ptrs_for_spawn_return c s"
    unfolding compute_left_ptrs_for_spawn_return_def splice_exceptions_fields ..
  then show ?thesis using assms by (simp add: at_spawn_return_def in_slow_path_def splice_exceptions_fields)
qed

text \<open>C39: the fast path is an optimisation only. Whatever exceptions the returning child and the frame
  to its left have pending, where the fast path finishes the job, the slow path, which starts from the state in which
  the fast path has spliced the exceptions, would have left the same memory.\<close>

theorem fast_path_equals_slow_path:
  assumes "fast_path_reductions_for_spawn_return x w c s = Some (None, s')"
    and "at_spawn_return w c p left s"
  shows "slow_path_reductions_for_spawn_return mu x w c left (splice_exceptions_for_spawn x c left s) = Some s'"
proof -
  let ?t = "splice_exceptions_for_spawn x c left s"
  have w: "w_pending_exception (wkh s w) = None"
    using assms(1) by (auto simp: fast_path_reductions_for_spawn_return_def cilk_assert_def split: if_splits)
  have "s' = put_maps left (three_maps mu left w c s) w None c None ?t"
    using assms w fast_path_run [of c s left w x mu] by (auto simp: at_spawn_return_def Let_def split: if_splits)
  moreover have "three_maps mu left w c ?t = three_maps mu left w c s"
    by (simp add: splice_exceptions_fields)
  ultimately show ?thesis using slow_path_run [OF splice_in_slow_path [OF assms(2) w], of mu x] by simp
qed

text \<open>a frame that stalls at a sync multiplies its own map into the product of its family, on the
  right, and leaves its worker without a map; it is suspended with its stack pointer saved,
  and its fiber is scheduled to be freed.\<close>

theorem sync_keeps_serial_order:
  assumes "reduce_assoc mu" and "at_sync w ff cs s" and "w \<notin> wk ` set cs"
  shows "\<exists>s'. c_sync mu x w sf s = Some s' \<and> reducer_map (wkh s' w) = None \<and>
     product mu (view_seq wk ff cs s') = merge_reducer_maps mu (product mu (view_seq wk ff cs s)) (reducer_map (wkh s w)) \<and>
     call_stack (ffh s' ff) = Some sf \<and> has_flag (flags (sfh s' sf)) CILK_FRAME_SUSPENDED \<and>
     sync_sp (ffh s' ff) = sf_sp (sfh s sf) + sync_sp (ffh s ff) \<and>
     fiber_self (ffh s' ff) = None \<and> fiber_to_free (wkh s' w) = fiber_self (ffh s ff)"
proof -
  obtain s' where s': "c_sync mu x w sf s = Some s'" "reducer_map (wkh s' w) = None"
    "\<forall>v. v \<noteq> w \<longrightarrow> reducer_map (wkh s' v) = reducer_map (wkh s v)"
    "\<forall>q. right_reducer_map (ffh s' q) = (if sync_slot ff cs = Right_of q
        then merge_reducer_maps mu (map_at (sync_slot ff cs) s) (reducer_map (wkh s w)) else right_reducer_map (ffh s q))"
    "\<forall>q. children_reducer_map (ffh s' q) = (if sync_slot ff cs = Children_of q
        then merge_reducer_maps mu (map_at (sync_slot ff cs) s) (reducer_map (wkh s w)) else children_reducer_map (ffh s q))"
    and rest: "call_stack (ffh s' ff) = Some sf \<and> has_flag (flags (sfh s' sf)) CILK_FRAME_SUSPENDED \<and>
     fiber_self (ffh s' ff) = None \<and> fiber_to_free (wkh s' w) = fiber_self (ffh s ff) \<and>
     sync_sp (ffh s' ff) = sf_sp (sfh s sf) + sync_sp (ffh s ff)"
    using c_sync_run [OF assms(2), of mu x sf] by blast
  have "distinct cs" "ff \<notin> set cs" using assms(2) by (auto simp: at_sync_def children_def)
  then have "product mu (view_seq wk ff cs s') =
      merge_reducer_maps mu (product mu (view_seq wk ff cs s)) (reducer_map (wkh s w))"
    using assms(1,3) s'(3,4,5) by (intro view_product_sync) auto
  then show ?thesis using s' rest by blast
qed

subsection \<open>Witnesses\<close>

text \<open>
  Strings under concatenation. Frame 0 has the children 1 and 2, which run on the workers 1
  and 2; frame 0 itself runs on worker 0.
\<close>

definition red_rts :: "(string, unit) rts" where
  "red_rts = \<lparr>ffh = (\<lambda>_. new_full_frame None)
       (0 := (new_full_frame None)\<lparr>rightmost_child := Some 2, fiber_self := Some 9\<rparr>,
        1 := (new_full_frame None)\<lparr>parent := Some 0, right_sibling := Some 2, fiber_self := Some 7, right_reducer_map := Some ''b''\<rparr>,
        2 := (new_full_frame None)\<lparr>parent := Some 0, left_sibling := Some 1, fiber_self := Some 8\<rparr>),
     ff_brk = 3, ff_freed = [], sfh = (\<lambda>_. sf0),
     wkh = (\<lambda>_. (make_worker 8 0 50)\<lparr>frame_ff := Some 0, reducer_map := Some ''d''\<rparr>)
       (1 := (make_worker 8 0 50)\<lparr>reducer_map := Some ''a''\<rparr>, 2 := (make_worker 8 0 50)\<lparr>reducer_map := Some ''c''\<rparr>)\<rparr>"

lemma append_assoc_reduce: "reduce_assoc (@)"
  by (simp add: reduce_assoc_def)

lemma red_children: "children (ffh red_rts) 0 [1, 2]"
  by (auto simp: red_rts_def children_def new_full_frame_def last_opt_def)

lemma red_family: "family id 0 [1, 2] red_rts"
  using red_children
  by (simp add: family_def) (simp add: red_rts_def new_full_frame_def worker_eval validate_full_frame_def mutex_init_def)

lemma red_views: "view_seq id 0 [1, 2] red_rts = [None, Some ''a'', Some ''b'', Some ''c'', None]"
  by (simp add: view_seq_def red_rts_def new_full_frame_def)

theorem reducers_serial_order_witness:
  "\<exists>s'. return_all (@) no_exn id (\<lambda>_. 5) [2, 1] red_rts = Some s' \<and> children_reducer_map (ffh s' 0) = Some ''abc''"
  using reducers_serial_order [OF append_assoc_reduce red_family, of "[2, 1]" no_exn "\<lambda>_. 5", unfolded red_views]
  by auto

theorem spawn_return_spec_witness:
  "\<exists>s'. execute_reductions_for_spawn_return (@) no_exn 2 2 5 red_rts = Some s' \<and> children (ffh s') 0 [1]"
proof -
  have "compute_left_ptrs_for_spawn_return 2 red_rts = Some (Right_of 1)"
    by (simp add: compute_left_ptrs_for_spawn_return_def red_rts_def)
  from spawn_return_spec [OF red_family _ this, of "(@)" no_exn 5] show ?thesis by auto
qed

text \<open>Child 2 returns with an exception pending, to the right of child 1, whose slot for maps is empty.\<close>

definition exn_rts :: "(string, unit) rts" where
  "exn_rts = upd_ff 2 (\<lambda>f. f\<lparr>pending_exception := Some ()\<rparr>) (upd_ff 1 (\<lambda>f. f\<lparr>right_reducer_map := None\<rparr>)
     (upd_ff 0 (\<lambda>f. f\<lparr>ff_lock := \<lparr>mx_lock = 1, mx_owner = Some 2\<rparr>\<rparr>) red_rts))"

theorem fast_path_equals_slow_path_witness:
  "\<exists>s'. fast_path_reductions_for_spawn_return no_exn 2 2 exn_rts = Some (None, s') \<and>
     slow_path_reductions_for_spawn_return (@) no_exn 2 2 (Right_of 1) (splice_exceptions_for_spawn no_exn 2 (Right_of 1) exn_rts) = Some s' \<and>
     pending_exception (ffh exn_rts 2) = Some () \<and> right_pending_exception (ffh s' 1) = Some ()"
proof -
  have i: "at_spawn_return 2 2 0 (Right_of 1) exn_rts" and w: "w_pending_exception (wkh exn_rts 2) = None"
    and e: "pending_exception (ffh exn_rts 2) = Some ()" "right_pending_exception (ffh exn_rts 1) = None" "right_pending_exception (ffh exn_rts 2) = None"
    by (simp_all add: exn_rts_def at_spawn_return_def red_rts_def new_full_frame_def worker_eval validate_full_frame_def
        compute_left_ptrs_for_spawn_return_def)
  have "case_value 2 2 (Right_of 1) exn_rts = 2"
    by (simp add: exn_rts_def case_value_def red_rts_def new_full_frame_def)
  then obtain s' where s': "fast_path_reductions_for_spawn_return no_exn 2 2 exn_rts = Some (None, s')"
      "s' = put_maps (Right_of 1) (three_maps (@) (Right_of 1) 2 2 exn_rts) 2 None 2 None (splice_exceptions_for_spawn no_exn 2 (Right_of 1) exn_rts)"
    using fast_path_run [of 2 exn_rts "Right_of 1" 2 no_exn "(@)"] i w by (auto simp: at_spawn_return_def Let_def)
  have "right_pending_exception (ffh s' 1) = Some ()"
    using e by (simp add: s'(2) put_maps_def splice_exceptions_for_spawn_def Let_def)
  with fast_path_equals_slow_path [OF s'(1) i] s'(1) e(1) show ?thesis by blast
qed

theorem sync_keeps_serial_order_witness:
  "\<exists>s'. c_sync (@) no_exn 0 5 red_rts = Some s' \<and> product (@) (view_seq id 0 [1, 2] s') = Some ''abcd''"
proof -
  have "at_sync 0 0 [1, 2] red_rts"
    using red_children by (simp add: at_sync_def)
      (simp add: red_rts_def new_full_frame_def validate_full_frame_def mutex_init_def)
  moreover have "reducer_map (wkh red_rts 0) = Some ''d''" by (simp add: red_rts_def)
  ultimately show ?thesis
    using sync_keeps_serial_order [OF append_assoc_reduce, of 0 0 "[1, 2]" red_rts id no_exn 5, unfolded red_views]
    by auto
qed

end
