(* ===== verification/Signal_Node.thy ===== *)
theory Signal_Node
  imports Reducer_Protocol
begin

section \<open>Waking and resting the system workers (signal\_node.c, scheduler.c)\<close>

text \<open>
  Every system worker waits on a signal node: a flag \<open>run\<close> and a semaphore. The nodes form a
  binary tree over the worker numbers. Only the root is told from outside to run or to rest;
  each worker passes the message on to its children. First the operations, then the
  workers as an interleaved system: a message is two accesses (the store to \<open>run\<close> and the
  post of the semaphore), and any other worker may move between them.
\<close>

subsection \<open>signal\_node.c\<close>

record signal_node_t =
  run :: "32 word"
  sem :: nat

definition signal_node_create :: signal_node_t where
  "signal_node_create = \<lparr>run = 0, sem = 0\<rparr>"

definition signal_node_should_wait :: "signal_node_t \<Rightarrow> bool" where
  "signal_node_should_wait node \<longleftrightarrow> run node = 0"

text \<open>\<^verbatim>\<open>sem_post\<close>, and \<^verbatim>\<open>sem_wait\<close> when it does not block.\<close>

definition signal_cilk_semaphore :: "signal_node_t \<Rightarrow> signal_node_t" where
  "signal_cilk_semaphore node = node\<lparr>sem := sem node + 1\<rparr>"

definition wait_on_cilk_semaphore :: "signal_node_t \<Rightarrow> signal_node_t option" where
  "wait_on_cilk_semaphore node = (if sem node = 0 then None else Some (node\<lparr>sem := sem node - 1\<rparr>))"

definition signal_node_msg :: "32 word \<Rightarrow> signal_node_t \<Rightarrow> signal_node_t option" where
  "signal_node_msg msg node =
     (if msg = 0 then Some (node\<lparr>run := msg\<rparr>)
      else if msg = 1 then Some (signal_cilk_semaphore (node\<lparr>run := msg\<rparr>))
      else None)"

subsection \<open>The tree of system workers (scheduler.c)\<close>

text \<open>
  The fields of \<^verbatim>\<open>global_state_t\<close> this part reads: \<open>P\<close> (the workers that count for the system
  workers), \<open>Q\<close> (user threads inside Cilk), \<open>work_done\<close> and \<open>max_steal_failures\<close>.
\<close>

record runtime_state = global_state +
  P :: int
  Q :: int
  work_done :: bool
  max_steal_failures :: "32 word"

definition msg_to ::
    "('m, 'e) rts \<Rightarrow> wptr \<Rightarrow> 32 word \<Rightarrow> (nat \<Rightarrow> signal_node_t) \<Rightarrow> (nat \<Rightarrow> signal_node_t) option" where
  "msg_to s w msg nodes = do {
     p \<leftarrow> signal_node (wkh s w);
     nd \<leftarrow> signal_node_msg msg (nodes p);
     Some (nodes(p := nd)) }"

definition notify_children ::
    "runtime_state \<Rightarrow> ('m, 'e) rts \<Rightarrow> wptr \<Rightarrow> 32 word \<Rightarrow> (nat \<Rightarrow> signal_node_t) \<Rightarrow> (nat \<Rightarrow> signal_node_t) option" where
  "notify_children g s w msg nodes =
     (let num_sys_workers = P g - 1;
          child_num = push_bit 1 (self (wkh s w)) + 1
      in if child_num < num_sys_workers then do {
           nodes \<leftarrow> msg_to s (workers g child_num) msg nodes;
           let child_num = child_num + 1;
           (if child_num < num_sys_workers then msg_to s (workers g child_num) msg nodes else Some nodes) }
         else Some nodes)"

definition notify_children_wait where "notify_children_wait g s w = notify_children g s w 0"
definition notify_children_run where "notify_children_run g s w = notify_children g s w 1"

definition wake_runtime ::
    "runtime_state \<Rightarrow> ('m, 'e) rts \<Rightarrow> (nat \<Rightarrow> signal_node_t) \<Rightarrow> (nat \<Rightarrow> signal_node_t) option" where
  "wake_runtime g s nodes = (if P g > 1 then msg_to s (workers g 0) 1 nodes else Some nodes)"

definition sleep_runtime ::
    "runtime_state \<Rightarrow> ('m, 'e) rts \<Rightarrow> (nat \<Rightarrow> signal_node_t) \<Rightarrow> (nat \<Rightarrow> signal_node_t) option" where
  "sleep_runtime g s nodes = (if P g > 1 then msg_to s (workers g 0) 0 nodes else Some nodes)"

definition enter_cilk ::
    "('m, 'e) rts \<Rightarrow> runtime_state \<Rightarrow> (nat \<Rightarrow> signal_node_t) \<Rightarrow> (runtime_state \<times> (nat \<Rightarrow> signal_node_t)) option" where
  "enter_cilk s g nodes =
     (let q = Q g; g = g\<lparr>Q := q + 1\<rparr>
      in if q = 0 then do { nodes \<leftarrow> wake_runtime g s nodes; Some (g, nodes) } else Some (g, nodes))"

definition leave_cilk ::
    "('m, 'e) rts \<Rightarrow> runtime_state \<Rightarrow> (nat \<Rightarrow> signal_node_t) \<Rightarrow> (runtime_state \<times> (nat \<Rightarrow> signal_node_t)) option" where
  "leave_cilk s g nodes =
     (let g = g\<lparr>Q := Q g - 1\<rparr>
      in if Q g = 0 then do { nodes \<leftarrow> sleep_runtime g s nodes; Some (g, nodes) } else Some (g, nodes))"

datatype schedule_t = SCHEDULE_RUN | SCHEDULE_WAIT | SCHEDULE_EXIT

definition worker_runnable ::
    "runtime_state \<Rightarrow> (nat \<Rightarrow> signal_node_t) \<Rightarrow> wptr \<Rightarrow> ('m, 'e) rts \<Rightarrow> (schedule_t \<times> ('m, 'e) rts) option" where
  "worker_runnable g nodes w s =
     (if next_frame_ff (wkh s w) \<noteq> None then Some (SCHEDULE_RUN, s)
      else if work_done g then Some (SCHEDULE_EXIT, s)
      else if self (wkh s w) = 0 then
        (if steal_failure_count (wkh s w) > max_steal_failures g then do {
           nd \<leftarrow> signal_node (wkh s w);
           if signal_node_should_wait (nodes nd) then Some (SCHEDULE_WAIT, s)
           else Some (SCHEDULE_RUN, upd_wk w (\<lambda>k. k\<lparr>steal_failure_count := 0\<rparr>) s) }
         else Some (SCHEDULE_RUN, s))
      else if wtype (wkh s w) = WORKER_SYSTEM then do {
        nd \<leftarrow> signal_node (wkh s w);
        Some (if signal_node_should_wait (nodes nd) then SCHEDULE_WAIT else SCHEDULE_RUN, s) }
      else Some (SCHEDULE_RUN, s))"

subsection \<open>The workers as an interleaved system\<close>

text \<open>
  Worker \<open>n\<close> of the \<open>N\<close> system workers is \<open>Waiting\<close> at the head of the loop of
  \<^verbatim>\<open>signal_node_wait\<close> (it starts there), \<open>Blocked\<close> before the semaphore, \<open>Waking k\<close> in
  \<^verbatim>\<open>notify_children_run\<close> (\<open>k\<close> counts its four accesses), \<open>Running\<close> in the steal loop or in user
  code, or \<open>Resting k\<close> in \<^verbatim>\<open>notify_children_wait\<close>. \<open>posts\<close> counts messages of other threads to
  the root that have stored 1 and not yet posted.
\<close>

datatype sys_pc = Waiting | Blocked | Waking nat | Running | Resting nat

record sig_sys =
  spc :: "nat \<Rightarrow> sys_pc"
  nds :: "nat \<Rightarrow> signal_node_t"
  posts :: nat

definition child :: "nat \<Rightarrow> nat \<Rightarrow> nat" where
  "child n i = 2 * n + 1 + i"

definition at_pc :: "nat \<Rightarrow> sys_pc \<Rightarrow> sig_sys \<Rightarrow> sig_sys" where
  "at_pc n c \<sigma> = \<sigma>\<lparr>spc := (spc \<sigma>)(n := c)\<rparr>"

definition store_run :: "nat \<Rightarrow> 32 word \<Rightarrow> sig_sys \<Rightarrow> sig_sys" where
  "store_run n v \<sigma> = \<sigma>\<lparr>nds := (nds \<sigma>)(n := (nds \<sigma> n)\<lparr>run := v\<rparr>)\<rparr>"

definition post_sem :: "nat \<Rightarrow> sig_sys \<Rightarrow> sig_sys" where
  "post_sem n \<sigma> = \<sigma>\<lparr>nds := (nds \<sigma>)(n := signal_cilk_semaphore (nds \<sigma> n))\<rparr>"

text \<open>
  A worker of the tree goes to rest when its signal node says so. The root of the tree also
  rests on its own after too many failed steals (\<open>root_rests_after_failures\<close> in the theory on the
  scheduling loop), and a worker leaves the loop at the end of the runtime (\<^verbatim>\<open>SCHEDULE_EXIT\<close>);
  neither is a step here: the steps are those of a tree whose root is told what to do.
\<close>

inductive sys_step :: "nat \<Rightarrow> nat \<Rightarrow> sig_sys \<Rightarrow> sig_sys \<Rightarrow> bool" for N where
  wait_again: "n < N \<Longrightarrow> spc \<sigma> n = Waiting \<Longrightarrow> signal_node_should_wait (nds \<sigma> n) \<Longrightarrow>
     sys_step N n \<sigma> (at_pc n Blocked \<sigma>)"
| wait_done: "n < N \<Longrightarrow> spc \<sigma> n = Waiting \<Longrightarrow> \<not> signal_node_should_wait (nds \<sigma> n) \<Longrightarrow>
     sys_step N n \<sigma> (at_pc n (Waking 0) \<sigma>)"
| unblock: "n < N \<Longrightarrow> spc \<sigma> n = Blocked \<Longrightarrow> wait_on_cilk_semaphore (nds \<sigma> n) = Some nd \<Longrightarrow>
     sys_step N n \<sigma> (at_pc n Waiting (\<sigma>\<lparr>nds := (nds \<sigma>)(n := nd)\<rparr>))"
| wake_store: "n < N \<Longrightarrow> spc \<sigma> n = Waking (2 * i) \<Longrightarrow> i < 2 \<Longrightarrow> child n i < N \<Longrightarrow>
     sys_step N n \<sigma> (at_pc n (Waking (2 * i + 1)) (store_run (child n i) 1 \<sigma>))"
| wake_post: "n < N \<Longrightarrow> spc \<sigma> n = Waking (2 * i + 1) \<Longrightarrow> i < 2 \<Longrightarrow>
     sys_step N n \<sigma> (at_pc n (if i = 0 then Waking 2 else Running) (post_sem (child n i) \<sigma>))"
| wake_end: "n < N \<Longrightarrow> spc \<sigma> n = Waking (2 * i) \<Longrightarrow> i < 2 \<Longrightarrow> \<not> child n i < N \<Longrightarrow>
     sys_step N n \<sigma> (at_pc n Running \<sigma>)"
| go_rest: "n < N \<Longrightarrow> spc \<sigma> n = Running \<Longrightarrow> signal_node_should_wait (nds \<sigma> n) \<Longrightarrow>
     sys_step N n \<sigma> (at_pc n (Resting 0) \<sigma>)"
| rest_store: "n < N \<Longrightarrow> spc \<sigma> n = Resting i \<Longrightarrow> i < 2 \<Longrightarrow> child n i < N \<Longrightarrow>
     sys_step N n \<sigma> (at_pc n (if i = 0 then Resting 1 else Waiting) (store_run (child n i) 0 \<sigma>))"
| rest_end: "n < N \<Longrightarrow> spc \<sigma> n = Resting i \<Longrightarrow> i < 2 \<Longrightarrow> \<not> child n i < N \<Longrightarrow>
     sys_step N n \<sigma> (at_pc n Waiting \<sigma>)"

text \<open>Messages to the root from user threads (\<^verbatim>\<open>wake_runtime\<close>, \<^verbatim>\<open>sleep_runtime\<close>, and the suspend and resume entry points).\<close>

inductive env_step :: "sig_sys \<Rightarrow> sig_sys \<Rightarrow> bool" where
  env_sleep: "env_step \<sigma> (store_run 0 0 \<sigma>)"
| env_wake: "env_step \<sigma> (store_run 0 1 (\<sigma>\<lparr>posts := posts \<sigma> + 1\<rparr>))"
| env_post: "0 < posts \<sigma> \<Longrightarrow> env_step \<sigma> (post_sem 0 (\<sigma>\<lparr>posts := posts \<sigma> - 1\<rparr>))"

definition sig_init :: sig_sys where
  "sig_init = \<lparr>spc = (\<lambda>_. Waiting), nds = (\<lambda>_. signal_node_create), posts = 0\<rparr>"

inductive sig_reachable :: "nat \<Rightarrow> sig_sys \<Rightarrow> bool" for N where
  sig_start: "sig_reachable N sig_init"
| sig_sys: "sig_reachable N \<sigma> \<Longrightarrow> sys_step N n \<sigma> \<tau> \<Longrightarrow> sig_reachable N \<tau>"
| sig_env: "sig_reachable N \<sigma> \<Longrightarrow> env_step \<sigma> \<tau> \<Longrightarrow> sig_reachable N \<tau>"

text \<open>The accesses of a message, one after the other, are \<open>signal_node_msg\<close>.\<close>

lemma msg_is_store_post:
  "signal_node_msg 1 (nds \<sigma> n) = Some (nds (post_sem n (store_run n 1 \<sigma>)) n)"
  "signal_node_msg 0 (nds \<sigma> n) = Some (nds (store_run n 0 \<sigma>) n)"
  by (simp_all add: signal_node_msg_def post_sem_def store_run_def)

lemma sig_fields [simp]:
  "spc (at_pc n c \<sigma>) = (spc \<sigma>)(n := c)" "nds (at_pc n c \<sigma>) = nds \<sigma>" "posts (at_pc n c \<sigma>) = posts \<sigma>"
  "spc (store_run n v \<sigma>) = spc \<sigma>" "nds (store_run n v \<sigma>) = (nds \<sigma>)(n := (nds \<sigma> n)\<lparr>run := v\<rparr>)"
  "posts (store_run n v \<sigma>) = posts \<sigma>"
  "spc (post_sem n \<sigma>) = spc \<sigma>" "nds (post_sem n \<sigma>) = (nds \<sigma>)(n := (nds \<sigma> n)\<lparr>sem := sem (nds \<sigma> n) + 1\<rparr>)"
  "posts (post_sem n \<sigma>) = posts \<sigma>"
  by (simp_all add: at_pc_def store_run_def post_sem_def signal_cilk_semaphore_def)

subsection \<open>What a worker last told its children\<close>

text \<open>\<open>told c i\<close>: the message the child \<open>i\<close> (0 or 1) of a worker at \<open>c\<close> has last been sent.\<close>

fun told :: "sys_pc \<Rightarrow> nat \<Rightarrow> 32 word" where
  "told Waiting i = 0"
| "told Blocked i = 0"
| "told (Waking k) i = (if 2 * i < k then 1 else 0)"
| "told Running i = 1"
| "told (Resting k) i = (if i < k then 0 else 1)"

definition posting :: "sys_pc \<Rightarrow> nat \<Rightarrow> bool" where
  "posting c i \<longleftrightarrow> c = Waking (2 * i + 1)"

definition sig_pcs :: "nat \<Rightarrow> sig_sys \<Rightarrow> bool" where
  "sig_pcs N \<sigma> \<longleftrightarrow> (\<forall>n k. (spc \<sigma> n = Waking k \<longrightarrow> k < 4) \<and> (spc \<sigma> n = Resting k \<longrightarrow> k < 2) \<and>
     (spc \<sigma> n = Waking (2 * k + 1) \<longrightarrow> child n k < N))"

definition sig_told :: "nat \<Rightarrow> sig_sys \<Rightarrow> bool" where
  "sig_told N \<sigma> \<longleftrightarrow> (\<forall>n i. i < 2 \<longrightarrow> child n i < N \<longrightarrow> run (nds \<sigma> (child n i)) = told (spc \<sigma> n) i)"

text \<open>A worker that is blocked and was told to run has a signal waiting, or one is on its way.\<close>

definition sig_root :: "sig_sys \<Rightarrow> bool" where
  "sig_root \<sigma> \<longleftrightarrow> (spc \<sigma> 0 = Blocked \<longrightarrow> run (nds \<sigma> 0) \<noteq> 0 \<longrightarrow> 0 < sem (nds \<sigma> 0) + posts \<sigma>)"

definition sig_wake :: "nat \<Rightarrow> sig_sys \<Rightarrow> bool" where
  "sig_wake N \<sigma> \<longleftrightarrow> (\<forall>n i. i < 2 \<longrightarrow> child n i < N \<longrightarrow> spc \<sigma> (child n i) = Blocked \<longrightarrow> told (spc \<sigma> n) i \<noteq> 0 \<longrightarrow>
     0 < sem (nds \<sigma> (child n i)) \<or> posting (spc \<sigma> n) i)"

definition sig_inv :: "nat \<Rightarrow> sig_sys \<Rightarrow> bool" where
  "sig_inv N \<sigma> \<longleftrightarrow> sig_pcs N \<sigma> \<and> sig_told N \<sigma> \<and> sig_root \<sigma> \<and> sig_wake N \<sigma>"

lemma child_simps [simp]:
  "child n i \<noteq> n" "n \<noteq> child n i" "child n i \<noteq> 0" "0 < child n i" "n < child n i"
  by (simp_all add: child_def)

lemma child_inj: "i < 2 \<Longrightarrow> j < 2 \<Longrightarrow> child n i = child m j \<longleftrightarrow> n = m \<and> i = j"
  unfolding child_def by presburger

lemma child_first: "child n (Suc 0) < N \<Longrightarrow> child n 0 < N"
  by (simp add: child_def)

lemma child_parent: "0 < c \<Longrightarrow> child ((c - 1) div 2) ((c - 1) mod 2) = c"
  by (simp add: child_def)

lemma child_cases:
  assumes "0 < c"
  obtains n i where "i < 2" and "c = child n i"
  using that [OF _ child_parent [OF assms, symmetric]] by simp

lemma less_2: "(i::nat) < 2 \<longleftrightarrow> i = 0 \<or> i = 1"
  by linarith

lemma sig_toldD: "sig_told N \<sigma> \<Longrightarrow> i < 2 \<Longrightarrow> child n i < N \<Longrightarrow> run (nds \<sigma> (child n i)) = told (spc \<sigma> n) i"
  by (simp add: sig_told_def)

lemma sig_wakeD: "sig_wake N \<sigma> \<Longrightarrow> i < 2 \<Longrightarrow> child n i < N \<Longrightarrow> spc \<sigma> (child n i) = Blocked \<Longrightarrow>
    told (spc \<sigma> n) i \<noteq> 0 \<Longrightarrow> 0 < sem (nds \<sigma> (child n i)) \<or> posting (spc \<sigma> n) i"
  by (simp add: sig_wake_def)

lemma sig_inv_init: "sig_inv N sig_init"
  by (simp add: sig_inv_def sig_pcs_def sig_told_def sig_root_def sig_wake_def sig_init_def signal_node_create_def)

lemma sig_inv_env:
  assumes "env_step \<sigma> \<tau>" and "sig_inv N \<sigma>"
  shows "sig_inv N \<tau>"
  using assms
  by cases (auto simp: sig_inv_def sig_pcs_def sig_told_def sig_root_def sig_wake_def)

lemma sig_pcs_sys:
  assumes "sys_step N n \<sigma> \<tau>" and "sig_pcs N \<sigma>"
  shows "sig_pcs N \<tau>"
  using assms
proof cases
  case (wake_store i)
  then show ?thesis using assms(2) by (auto simp: sig_pcs_def)
qed (auto simp: sig_pcs_def split: if_splits)

text \<open>A step of \<open>n\<close> leaves the messages of every other worker alone.\<close>

lemma sig_told_sys:
  assumes "sys_step N n \<sigma> \<tau>" and "sig_told N \<sigma>"
  shows "sig_told N \<tau>"
  unfolding sig_told_def
proof (intro allI impI)
  fix m j :: nat assume j: "j < 2" "child m j < N"
  with assms(2) have t: "run (nds \<sigma> (child m j)) = told (spc \<sigma> m) j" by (simp add: sig_told_def)
  from assms(1) show "run (nds \<tau> (child m j)) = told (spc \<tau> m) j"
    by cases (use t j in \<open>auto simp: child_inj less_2 dest: child_first simp: wait_on_cilk_semaphore_def split: if_splits\<close>)
qed

lemma sig_root_sys:
  assumes "sys_step N n \<sigma> \<tau>" and "sig_root \<sigma>"
  shows "sig_root \<tau>"
  using assms by cases (auto simp: sig_root_def signal_node_should_wait_def)

lemma sig_wake_sys:
  assumes "sys_step N n \<sigma> \<tau>" and "sig_wake N \<sigma>" and "sig_told N \<sigma>"
  shows "sig_wake N \<tau>"
  unfolding sig_wake_def
proof (intro allI impI)
  fix m j :: nat assume j: "j < 2" "child m j < N" "spc \<tau> (child m j) = Blocked" "told (spc \<tau> m) j \<noteq> 0"
  with assms(2,3) have t: "run (nds \<sigma> (child m j)) = told (spc \<sigma> m) j"
    "spc \<sigma> (child m j) = Blocked \<longrightarrow> told (spc \<sigma> m) j \<noteq> 0 \<longrightarrow> 0 < sem (nds \<sigma> (child m j)) \<or> posting (spc \<sigma> m) j"
    by (simp_all add: sig_told_def sig_wake_def)
  from assms(1) show "0 < sem (nds \<tau> (child m j)) \<or> posting (spc \<tau> m) j"
    by cases (use t j in \<open>auto simp: child_inj less_2 posting_def dest: child_first simp: signal_node_should_wait_def split: if_splits\<close>)
qed

lemma sig_reachable_inv: "sig_reachable N \<sigma> \<Longrightarrow> sig_inv N \<sigma>"
proof (induction rule: sig_reachable.induct)
  case sig_start
  show ?case by (rule sig_inv_init)
next
  case (sig_sys \<sigma> n \<tau>)
  then show ?case
    using sig_pcs_sys sig_told_sys sig_root_sys sig_wake_sys unfolding sig_inv_def by blast
next
  case (sig_env \<sigma> \<tau>)
  then show ?case by (blast intro: sig_inv_env)
qed

subsection \<open>The end of every run\<close>

definition settled :: "nat \<Rightarrow> sig_sys \<Rightarrow> bool" where
  "settled N \<sigma> \<longleftrightarrow> (\<forall>n \<tau>. \<not> sys_step N n \<sigma> \<tau>)"

lemma settled_pc:
  assumes "settled N \<sigma>" and "sig_pcs N \<sigma>" and n: "n < N"
  shows "spc \<sigma> n = Blocked \<and> sem (nds \<sigma> n) = 0 \<or> spc \<sigma> n = Running \<and> run (nds \<sigma> n) \<noteq> 0"
proof -
  have st: "\<not> sys_step N n \<sigma> \<tau>" for \<tau> using assms(1) by (simp add: settled_def)
  show ?thesis
  proof (cases "spc \<sigma> n")
    case Waiting
    then show ?thesis using st wait_again [OF n, of \<sigma>] wait_done [OF n, of \<sigma>] by blast
  next
    case Blocked
    then have "wait_on_cilk_semaphore (nds \<sigma> n) = None"
      using st unblock [OF n, of \<sigma>] by (cases "wait_on_cilk_semaphore (nds \<sigma> n)") auto
    then show ?thesis using Blocked by (simp add: wait_on_cilk_semaphore_def split: if_splits)
  next
    case (Waking k)
    then have "k < 4" using assms(2) by (simp add: sig_pcs_def)
    then obtain i where i: "i < 2" "k = 2 * i \<or> k = 2 * i + 1"
      by (metis add.commute div_less_iff_less_mult mod_mult_div_eq mult.commute mult_2_right numeral_Bit0
          not_mod_2_eq_1_eq_0 add_0_right zero_less_numeral)
    then show ?thesis
      using st wake_store [OF n, of \<sigma> i] wake_end [OF n, of \<sigma> i] wake_post [OF n, of \<sigma> i] Waking by blast
  next
    case Running
    then show ?thesis using st go_rest [OF n, of \<sigma>] by (auto simp: signal_node_should_wait_def)
  next
    case (Resting k)
    then have "k < 2" using assms(2) by (simp add: sig_pcs_def)
    then show ?thesis using st rest_store [OF n, of \<sigma> k] rest_end [OF n, of \<sigma> k] Resting by blast
  qed
qed

lemma settled_follows_root:
  assumes "settled N \<sigma>" and "sig_inv N \<sigma>" and "posts \<sigma> = 0"
  shows "n < N \<Longrightarrow> spc \<sigma> n = (if run (nds \<sigma> 0) = 0 then Blocked else Running)"
proof (induction n rule: less_induct)
  case (less n)
  have pc: "spc \<sigma> n = Blocked \<and> sem (nds \<sigma> n) = 0 \<or> spc \<sigma> n = Running \<and> run (nds \<sigma> n) \<noteq> 0"
    using settled_pc [OF assms(1) _ less.prems] assms(2) by (simp add: sig_inv_def)
  show ?case
  proof (cases "n = 0")
    case True
    then show ?thesis using pc assms(2,3) by (auto simp: sig_inv_def sig_root_def)
  next
    case False
    then obtain m i where mi: "i < 2" "n = child m i" by (metis child_cases gr0I)
    have ih: "spc \<sigma> m = (if run (nds \<sigma> 0) = 0 then Blocked else Running)"
      using mi less by simp
    have "run (nds \<sigma> n) = told (spc \<sigma> m) i"
      and "spc \<sigma> n = Blocked \<longrightarrow> told (spc \<sigma> m) i \<noteq> 0 \<longrightarrow> 0 < sem (nds \<sigma> n) \<or> posting (spc \<sigma> m) i"
      using assms(2) mi less.prems by (simp_all add: sig_inv_def sig_told_def sig_wake_def)
    then show ?thesis using pc ih by (auto simp: posting_def split: if_splits)
  qed
qed

text \<open>
  Every step of a worker lowers its own measure and touches only workers with larger numbers, so
  the measures of all workers, read from the root on, fall in the lexicographic order.
\<close>

fun pc_weight :: "bool \<Rightarrow> sys_pc \<Rightarrow> nat" where
  "pc_weight awake Waiting = (if awake then 6 else 3)"
| "pc_weight awake Blocked = (if awake then 7 else 2)"
| "pc_weight awake (Waking k) = (if awake then 5 - k else 10 - k)"
| "pc_weight awake Running = (if awake then 1 else 6)"
| "pc_weight awake (Resting k) = (if awake then 9 - k else 5 - k)"

definition weight :: "sig_sys \<Rightarrow> nat \<Rightarrow> nat" where
  "weight \<sigma> n = pc_weight (run (nds \<sigma> n) \<noteq> 0) (spc \<sigma> n) + 2 * sem (nds \<sigma> n)"

definition weights :: "nat \<Rightarrow> sig_sys \<Rightarrow> nat list" where
  "weights N \<sigma> = map (weight \<sigma>) [0..<N]"

lemma sys_step_weight:
  assumes "sys_step N n \<sigma> \<tau>" and "sig_pcs N \<sigma>"
  shows "n < N \<and> weight \<tau> n < weight \<sigma> n \<and> (\<forall>m<n. weight \<tau> m = weight \<sigma> m)"
proof -
  have k: "\<And>k. spc \<sigma> n = Waking k \<Longrightarrow> k < 4" "\<And>k. spc \<sigma> n = Resting k \<Longrightarrow> k < 2"
    using assms(2) by (auto simp: sig_pcs_def)
  have c: "m < n \<Longrightarrow> m \<noteq> child n i" for m i by (simp add: child_def)
  from assms(1) show ?thesis
    by cases (use k c in \<open>auto simp: weight_def signal_node_should_wait_def wait_on_cilk_semaphore_def less_2 split: if_splits\<close>)
qed

lemma lexn_first:
  assumes "length xs = length ys" and "n < length xs" and "xs ! n < ys ! n" and "\<forall>m<n. xs ! m = (ys ! m :: nat)"
  shows "(xs, ys) \<in> lexn less_than (length ys)"
proof -
  have "take n xs = take n ys" using assms by (intro nth_take_lemma) auto
  moreover have "xs = take n xs @ xs ! n # drop (Suc n) xs" "ys = take n ys @ ys ! n # drop (Suc n) ys"
    using assms(1,2) by (simp_all add: id_take_nth_drop)
  ultimately show ?thesis using assms(1,3) by (auto simp: lexn_conv)
qed

lemma sys_step_lex:
  assumes "sys_step N n \<sigma> \<tau>" and "sig_pcs N \<sigma>"
  shows "(weights N \<tau>, weights N \<sigma>) \<in> lexn less_than N"
  using lexn_first [of "weights N \<tau>" "weights N \<sigma>" n] sys_step_weight [OF assms] by (simp add: weights_def)

lemma sys_step_root: "sys_step N n \<sigma> \<tau> \<Longrightarrow> run (nds \<tau> 0) = run (nds \<sigma> 0) \<and> posts \<tau> = posts \<sigma>"
  by (cases rule: sys_step.cases) (auto simp: wait_on_cilk_semaphore_def split: if_splits)

definition sys_run :: "nat \<Rightarrow> sig_sys \<Rightarrow> sig_sys \<Rightarrow> bool" where
  "sys_run N = (\<lambda>\<sigma> \<tau>. \<exists>n. sys_step N n \<sigma> \<tau>)\<^sup>*\<^sup>*"

lemma sys_run_keeps:
  assumes "sys_run N \<sigma> \<tau>" and "sig_reachable N \<sigma>"
  shows "sig_reachable N \<tau> \<and> run (nds \<tau> 0) = run (nds \<sigma> 0) \<and> posts \<tau> = posts \<sigma>"
  using assms unfolding sys_run_def
  by (induction rule: rtranclp_induct) (auto dest: sys_step_root intro: sig_sys)

lemma no_infinite_run:
  assumes "sig_reachable N (f 0)" and "\<forall>i. \<exists>n. sys_step N n (f i) (f (Suc i))"
  shows False
proof -
  have r: "sig_reachable N (f i)" for i
    using assms by (induction i) (auto intro: sig_sys)
  have "wf (inv_image (lexn less_than N) (weights N))" by (intro wf_inv_image wf_lexn wf_less_than)
  moreover have "(f (Suc i), f i) \<in> inv_image (lexn less_than N) (weights N)" for i
    using assms(2) sys_step_lex sig_reachable_inv [OF r] by (fastforce simp: sig_inv_def)
  ultimately show False unfolding wf_iff_no_infinite_down_chain by blast
qed

subsection \<open>Properties\<close>

text \<open>C25: no wake-up is lost. Whatever the interleaving, a worker that sleeps on its semaphore although
  its flag says run finds a signal there, or the one who set the flag is about to post it.\<close>

theorem no_lost_wakeup:
  assumes "sig_reachable N \<sigma>" and "n < N" and "spc \<sigma> n = Blocked" and "\<not> signal_node_should_wait (nds \<sigma> n)"
  shows "0 < sem (nds \<sigma> n) \<or> (if n = 0 then 0 < posts \<sigma>
     else spc \<sigma> ((n - 1) div 2) = Waking (2 * ((n - 1) mod 2) + 1))"
proof (cases "n = 0")
  case True
  then show ?thesis using assms sig_reachable_inv [OF assms(1)]
    by (auto simp: sig_inv_def sig_root_def signal_node_should_wait_def)
next
  case False
  let ?m = "(n - 1) div 2" and ?i = "(n - 1) mod 2"
  have c: "child ?m ?i = n" using False child_parent by simp
  have "sig_told N \<sigma>" "sig_wake N \<sigma>" using sig_reachable_inv [OF assms(1)] by (simp_all add: sig_inv_def)
  from sig_toldD [OF this(1), of ?i ?m] sig_wakeD [OF this(2), of ?i ?m]
  have "run (nds \<sigma> n) = told (spc \<sigma> ?m) ?i"
    and "told (spc \<sigma> ?m) ?i \<noteq> 0 \<longrightarrow> 0 < sem (nds \<sigma> n) \<or> posting (spc \<sigma> ?m) ?i"
    using assms(2,3) by (simp_all only: c) simp_all
  then show ?thesis using assms(4) False by (simp add: posting_def signal_node_should_wait_def)
qed

text \<open>C22: one message to the root moves the whole tree. From any reachable state with no message to the
  root in flight the workers come to rest after finitely many steps of their own, and then
  all N of them run if the root was told to run, and all are blocked if it was told to rest.\<close>

theorem tree_follows_root:
  assumes "sig_reachable N \<sigma>" and "posts \<sigma> = 0"
  shows "(\<nexists>f. f 0 = \<sigma> \<and> (\<forall>i. \<exists>n. sys_step N n (f i) (f (Suc i)))) \<and>
     (\<forall>\<tau>. sys_run N \<sigma> \<tau> \<longrightarrow> settled N \<tau> \<longrightarrow>
        (\<forall>n<N. spc \<tau> n = (if signal_node_should_wait (nds \<sigma> 0) then Blocked else Running)))"
proof (intro conjI allI impI)
  show "\<nexists>f. f 0 = \<sigma> \<and> (\<forall>i. \<exists>n. sys_step N n (f i) (f (Suc i)))"
    using no_infinite_run assms(1) by blast
next
  fix \<tau> n assume "sys_run N \<sigma> \<tau>" "settled N \<tau>" "n < N"
  moreover from this have "sig_inv N \<tau> \<and> run (nds \<tau> 0) = run (nds \<sigma> 0) \<and> posts \<tau> = 0"
    using sys_run_keeps assms sig_reachable_inv by metis
  ultimately show "spc \<tau> n = (if signal_node_should_wait (nds \<sigma> 0) then Blocked else Running)"
    using settled_follows_root [of N \<tau> n] by (simp add: signal_node_should_wait_def)
qed

subsection \<open>Witnesses\<close>

text \<open>The root fell asleep before it was told to run, and the message has stored its flag.\<close>

definition sig_told_root :: sig_sys where
  "sig_told_root = store_run 0 1 ((at_pc 0 Blocked sig_init)\<lparr>posts := 1\<rparr>)"

lemma sig_told_root_reachable: "sig_reachable N (post_sem 0 (sig_told_root\<lparr>posts := 0\<rparr>)) \<and> sig_reachable N sig_told_root" if "0 < N"
proof -
  have "sys_step N 0 sig_init (at_pc 0 Blocked sig_init)"
    using that by (intro wait_again) (simp_all add: sig_init_def signal_node_create_def signal_node_should_wait_def)
  then have "sig_reachable N (at_pc 0 Blocked sig_init)" by (rule sig_sys [OF sig_start])
  moreover have "env_step (at_pc 0 Blocked sig_init) sig_told_root"
    using env_wake [of "at_pc 0 Blocked sig_init"] by (simp add: sig_told_root_def) (simp add: sig_init_def)
  ultimately have "sig_reachable N sig_told_root" by (rule sig_env)
  moreover have "env_step sig_told_root (post_sem 0 (sig_told_root\<lparr>posts := 0\<rparr>))"
    using env_post [of sig_told_root] by (simp add: sig_told_root_def)
  ultimately show ?thesis by (blast intro: sig_env)
qed

theorem no_lost_wakeup_witness: "0 < sem (nds sig_told_root 0) \<or> 0 < posts sig_told_root"
  using no_lost_wakeup [of 3 sig_told_root 0] sig_told_root_reachable [of 3]
  by (auto simp: sig_told_root_def signal_node_should_wait_def)

theorem tree_follows_root_witness:
  "\<nexists>f. f 0 = post_sem 0 (sig_told_root\<lparr>posts := 0\<rparr>) \<and> (\<forall>i. \<exists>n. sys_step 3 n (f i) (f (Suc i)))"
  using tree_follows_root [of 3 "post_sem 0 (sig_told_root\<lparr>posts := 0\<rparr>)"] sig_told_root_reachable [of 3]
  by simp

end
