(* ===== verification/User_Thread.thy ===== *)
theory User_Thread
  imports Signal_Node
begin

section \<open>User threads entering and leaving Cilk (cilk-abi.c, scheduler.c, pedigrees.c, os-unix.c)\<close>

text \<open>
  A user thread that calls a spawning function is bound to a worker: it takes a free user
  worker of the table (or a new one), gets the initial full frame, and its pedigree moves
  into the worker. When the initial frame returns all this is undone. Both happen under the
  global mutex, so they are functions of the whole process.
\<close>

subsection \<open>The process\<close>

text \<open>
  \<open>tls_worker\<close> and \<open>tls_pedigree_leaf\<close> are thread-local, indexed by the thread. The nodes
  \<^verbatim>\<open>pedigree_tls[0]\<close> and \<^verbatim>\<open>pedigree_tls[1]\<close> that \<^verbatim>\<open>__cilkrts_get_tls_pedigree_leaf\<close> allocates are
  \<open>Ped_thread p\<close> and \<open>Ped_thread (p + 1)\<close>. \<open>freed_workers\<close> lists the overflow workers given back.
\<close>

record ('m, 'e) process =
  mem :: "('m, 'e) rts"
  glob :: runtime_state
  nodes :: "nat \<Rightarrow> signal_node_t"
  tls_worker :: "nat \<Rightarrow> wptr option"
  tls_pedigree_leaf :: "nat \<Rightarrow> pedptr option"
  ped_nodes :: "nat \<Rightarrow> pedigree"
  ped_brk :: nat
  global_pedigree_tls_counter :: "64 word"
  freed_workers :: "wptr list"

definition upd_mem :: "(('m, 'e) rts \<Rightarrow> ('m, 'e) rts) \<Rightarrow> ('m, 'e) process \<Rightarrow> ('m, 'e) process" where
  "upd_mem f pr = pr\<lparr>mem := f (mem pr)\<rparr>"

fun read_pedigree :: "('m, 'e) process \<Rightarrow> pedptr \<Rightarrow> pedigree" where
  "read_pedigree pr (Ped_sf p) = sf_pedigree (sfh (mem pr) p)"
| "read_pedigree pr (Ped_worker w) = w_pedigree (wkh (mem pr) w)"
| "read_pedigree pr (Ped_thread p) = ped_nodes pr p"

fun write_pedigree :: "pedptr \<Rightarrow> pedigree \<Rightarrow> ('m, 'e) process \<Rightarrow> ('m, 'e) process" where
  "write_pedigree (Ped_sf p) v pr = upd_mem (upd_sf p (\<lambda>f. f\<lparr>sf_pedigree := v\<rparr>)) pr"
| "write_pedigree (Ped_worker w) v pr = upd_mem (upd_wk w (\<lambda>k. k\<lparr>w_pedigree := v\<rparr>)) pr"
| "write_pedigree (Ped_thread p) v pr = pr\<lparr>ped_nodes := (ped_nodes pr)(p := v)\<rparr>"

subsection \<open>Thread-local storage and pedigrees\<close>

definition set_tls_worker :: "nat \<Rightarrow> wptr option \<Rightarrow> ('m, 'e) process \<Rightarrow> ('m, 'e) process" where
  "set_tls_worker t w pr = pr\<lparr>tls_worker := (tls_worker pr)(t := w)\<rparr>"

definition set_tls_pedigree_leaf :: "nat \<Rightarrow> pedptr option \<Rightarrow> ('m, 'e) process \<Rightarrow> ('m, 'e) process" where
  "set_tls_pedigree_leaf t leaf pr = pr\<lparr>tls_pedigree_leaf := (tls_pedigree_leaf pr)(t := leaf)\<rparr>"

text \<open>\<^verbatim>\<open>__cilkrts_get_tls_pedigree_leaf(1)\<close>. A rank is compared with -1 as an unsigned 64-bit number.\<close>

definition get_tls_pedigree_leaf :: "nat \<Rightarrow> ('m, 'e) process \<Rightarrow> (pedptr \<times> ('m, 'e) process) option" where
  "get_tls_pedigree_leaf t pr =
     (case tls_pedigree_leaf pr t of Some leaf \<Rightarrow> Some (leaf, pr)
      | None \<Rightarrow> do {
          let p = ped_brk pr;
          let pr = pr\<lparr>ped_brk := p + 2\<rparr>;
          let pr = set_tls_pedigree_leaf t (Some (Ped_thread p)) pr;
          let pr = write_pedigree (Ped_thread p) \<lparr>rank = 0, ped_parent = Some (Ped_thread (p + 1))\<rparr> pr;
          let c = global_pedigree_tls_counter pr + 1;
          let pr = pr\<lparr>global_pedigree_tls_counter := c\<rparr>;
          let pr = write_pedigree (Ped_thread (p + 1)) \<lparr>rank = c, ped_parent = None\<rparr> pr;
          cilk_assert (c \<noteq> -1);
          Some (Ped_thread p, pr) })"

definition load_pedigree_leaf_into_user_worker :: "nat \<Rightarrow> wptr \<Rightarrow> ('m, 'e) process \<Rightarrow> ('m, 'e) process option" where
  "load_pedigree_leaf_into_user_worker t w pr = do {
     cilk_assert (wtype (wkh (mem pr) w) = WORKER_USER);
     (leaf, pr) \<leftarrow> get_tls_pedigree_leaf t pr;
     let pr = write_pedigree (Ped_worker w) (read_pedigree pr leaf) pr;
     cilk_assert (original_pedigree_leaf (wkh (mem pr) w) = None);
     let pr = upd_mem (upd_wk w (\<lambda>k. k\<lparr>original_pedigree_leaf := Some leaf\<rparr>)) pr;
     let pr = set_tls_pedigree_leaf t (Some (Ped_worker w)) pr;
     root \<leftarrow> ped_parent (w_pedigree (wkh (mem pr) w));
     cilk_assert (ped_parent (read_pedigree pr root) = None);
     Some pr }"

definition save_pedigree_leaf_from_user_worker :: "nat \<Rightarrow> wptr \<Rightarrow> ('m, 'e) process \<Rightarrow> ('m, 'e) process option" where
  "save_pedigree_leaf_from_user_worker t w pr = do {
     cilk_assert (wtype (wkh (mem pr) w) = WORKER_USER);
     leaf \<leftarrow> original_pedigree_leaf (wkh (mem pr) w);
     let pr = write_pedigree leaf ((read_pedigree pr leaf)\<lparr>rank := rank (w_pedigree (wkh (mem pr) w))\<rparr>) pr;
     let pr = set_tls_pedigree_leaf t (original_pedigree_leaf (wkh (mem pr) w)) pr;
     Some (upd_mem (upd_wk w (\<lambda>k. k\<lparr>original_pedigree_leaf := None\<rparr>)) pr) }"

definition bump_worker_rank_internal :: "nat \<Rightarrow> wptr option \<Rightarrow> ('m, 'e) process \<Rightarrow> ('m, 'e) process option" where
  "bump_worker_rank_internal t w pr = do {
     (p, pr) \<leftarrow> (case w of Some w \<Rightarrow> Some (Ped_worker w, pr) | None \<Rightarrow> get_tls_pedigree_leaf t pr);
     Some (write_pedigree p ((read_pedigree pr p)\<lparr>rank := rank (read_pedigree pr p) + 1\<rparr>) pr) }"

definition bump_loop_rank_internal :: "wptr option \<Rightarrow> ('m, 'e) process \<Rightarrow> (int \<times> ('m, 'e) process) option" where
  "bump_loop_rank_internal w pr =
     (case w of None \<Rightarrow> Some (-1, pr)
      | Some w \<Rightarrow> do {
          p \<leftarrow> ped_parent (w_pedigree (wkh (mem pr) w));
          let pr = write_pedigree p ((read_pedigree pr p)\<lparr>rank := rank (read_pedigree pr p) + 1\<rparr>) pr;
          Some (0, upd_mem (upd_wk w (\<lambda>k. k\<lparr>w_pedigree := (w_pedigree k)\<lparr>rank := 0\<rparr>\<rparr>)) pr) })"

subsection \<open>Choosing a worker\<close>

text \<open>
  The scan of the user workers, then a worker of its own for the thread: \<open>nw\<close> is its address and
  \<open>base\<close>, \<open>ltqsize\<close> its deque (what the allocations return).
\<close>

record bind_env =
  new_worker :: wptr
  new_ltq :: nat
  ltqsize :: nat
  thread_fiber :: fiber
  sched_fiber :: "fiber option"

primrec scan_user_workers :: "('m, 'e) rts \<Rightarrow> wptr list \<Rightarrow> wptr option option" where
  "scan_user_workers s [] = Some None"
| "scan_user_workers s (w # ws) = do {
     cilk_assert (wtype (wkh s w) \<noteq> WORKER_SYSTEM);
     if wtype (wkh s w) = WORKER_FREE then Some (Some w) else scan_user_workers s ws }"

definition find_free_worker ::
    "bind_env \<Rightarrow> runtime_state \<Rightarrow> ('m, 'e) rts \<Rightarrow> (wptr \<times> ('m, 'e) rts) option" where
  "find_free_worker b g s = do {
     found \<leftarrow> scan_user_workers s (map (workers g) [P g - 1 .. total_workers g - 1]);
     let (w, s) = (case found of Some w \<Rightarrow> (w, s)
       | None \<Rightarrow> (new_worker b, upd_wk (new_worker b) (\<lambda>_. make_worker (ltqsize b) (-1) (new_ltq b)) s));
     Some (w, upd_wk w (\<lambda>k. k\<lparr>wtype := WORKER_USER, team := Some w\<rparr>) s) }"

subsection \<open>Binding\<close>

text \<open>
  \<^verbatim>\<open>__cilkrts_bind_thread_1\<close> once the runtime is initialised: \<open>rm\<close> is the new reducer map. The
  scheduling fiber is reset right after it was allocated, before the code asks whether it is
  null: for a worker of the table a null fiber kills the process.
\<close>

definition ensure_scheduling_fiber :: "bind_env \<Rightarrow> wptr \<Rightarrow> ('m, 'e) process \<Rightarrow> ('m, 'e) process option" where
  "ensure_scheduling_fiber b w pr =
     (if scheduling_fiber (wkh (mem pr) w) = None \<and> self (wkh (mem pr) w) \<ge> 0
      then do { f \<leftarrow> sched_fiber b; Some (upd_mem (upd_wk w (\<lambda>k. k\<lparr>scheduling_fiber := Some f\<rparr>)) pr) }
      else Some pr)"

definition bind_thread :: "bind_env \<Rightarrow> 'm \<Rightarrow> nat \<Rightarrow> ('m, 'e) process \<Rightarrow> (wptr \<times> ('m, 'e) process) option" where
  "bind_thread b rm t pr = do {
     cilk_assert (\<not> work_done (glob pr));
     (w, s) \<leftarrow> find_free_worker b (glob pr) (mem pr);
     let pr = set_tls_worker t (Some w) (pr\<lparr>mem := s\<rparr>);
     let (ff, s) = make_full_frame None (mem pr);
     let s = upd_ff ff (\<lambda>f. f\<lparr>fiber_self := Some (thread_fiber b)\<rparr>) s;
     cilk_assert (join_counter (ffh s ff) = 0);
     let s = upd_ff ff (\<lambda>f. f\<lparr>join_counter := 1\<rparr>) s;
     let s = upd_wk w (\<lambda>k. k\<lparr>frame_ff := Some ff, reducer_map := Some rm\<rparr>) s;
     pr \<leftarrow> load_pedigree_leaf_into_user_worker t w (pr\<lparr>mem := s\<rparr>);
     let k = wkh (mem pr) w;
     cilk_assert (head k = ltq k);
     cilk_assert (tail k = ltq k);
     cilk_assert (protected_tail k = ltq_limit k);
     let pr = upd_mem (upd_wk w (\<lambda>k. k\<lparr>w_pending_exception := None\<rparr>)) pr;
     pr \<leftarrow> ensure_scheduling_fiber b w pr;
     let pr = (if scheduling_fiber (wkh (mem pr) w) = None
               then upd_mem (upd_wk w (\<lambda>k. fst (disallow_stealing k None))) pr else pr);
     pr \<leftarrow> (if self (wkh (mem pr) w) \<noteq> -1 then do {
              (g, nd) \<leftarrow> enter_cilk (mem pr) (glob pr) (nodes pr);
              Some (pr\<lparr>glob := g, nodes := nd\<rparr>) }
            else Some pr);
     Some (w, pr) }"

subsection \<open>Unbinding\<close>

text \<open>\<^verbatim>\<open>destroy_worker\<close>: the checks it makes; its memory goes back to the allocators.\<close>

definition destroy_worker :: "wptr \<Rightarrow> ('m, 'e) process \<Rightarrow> ('m, 'e) process option" where
  "destroy_worker w pr = do {
     let k = wkh (mem pr) w;
     cilk_assert (w_pending_exception k = None);
     (if scheduling_fiber k \<noteq> None then cilk_assert (wtype k = WORKER_FREE) else Some ());
     let pr = upd_mem (upd_wk w (\<lambda>k. k\<lparr>scheduling_fiber := None\<rparr>)) pr;
     (if signal_node k \<noteq> None then cilk_assert (wtype k = WORKER_SYSTEM) else Some ());
     Some (pr\<lparr>freed_workers := w # freed_workers pr\<rparr>) }"

definition unbind_thread :: "nat \<Rightarrow> ('m, 'e) process \<Rightarrow> ('m, 'e) process option" where
  "unbind_thread t pr =
     (case tls_worker pr t of None \<Rightarrow> Some pr
      | Some w \<Rightarrow> do {
          let pr = set_tls_worker t None pr;
          if self (wkh (mem pr) w) = -1 then destroy_worker w pr
          else do {
            let pr = upd_mem (upd_wk w (\<lambda>k. k\<lparr>wtype := WORKER_FREE\<rparr>)) pr;
            (g, nd) \<leftarrow> leave_cilk (mem pr) (glob pr) (nodes pr);
            Some (pr\<lparr>glob := g, nodes := nd\<rparr>) } })"

text \<open>
  The reducer map of the initial frame is destroyed on the way; the map is a value here, its
  destruction is \<open>destroy_reducer_map\<close> in the theory on reducer maps.
\<close>

definition c_return_from_initial :: "nat \<Rightarrow> wptr \<Rightarrow> ('m, 'e) process \<Rightarrow> ('m, 'e) process option" where
  "c_return_from_initial t w pr = do {
     cilk_assert (wtype (wkh (mem pr) w) = WORKER_USER);
     s \<leftarrow> lock_worker w (mem pr);
     ff \<leftarrow> frame_ff (wkh s w);
     cilk_assert (join_counter (ffh s ff) = 1);
     let s = upd_wk w (\<lambda>k. k\<lparr>frame_ff := None\<rparr>) s;
     cilk_assert (fiber_self (ffh s ff) \<noteq> None);
     cilk_assert (fiber_self (ffh s ff) \<noteq> scheduling_fiber (wkh s w));
     let s = upd_ff ff (\<lambda>f. f\<lparr>fiber_self := None\<rparr>) s;
     let s = upd_wk w (\<lambda>k. k\<lparr>reducer_map := None\<rparr>) s;
     s \<leftarrow> destroy_full_frame ff s;
     s \<leftarrow> unlock_worker w s;
     pr \<leftarrow> save_pedigree_leaf_from_user_worker t w (pr\<lparr>mem := s\<rparr>);
     unbind_thread t pr }"

subsection \<open>A bound thread\<close>

lemma process_upd [simp]:
  "mem (upd_mem f pr) = f (mem pr)" "glob (upd_mem f pr) = glob pr" "nodes (upd_mem f pr) = nodes pr"
  "tls_worker (upd_mem f pr) = tls_worker pr" "tls_pedigree_leaf (upd_mem f pr) = tls_pedigree_leaf pr"
  "ped_nodes (upd_mem f pr) = ped_nodes pr" "ped_brk (upd_mem f pr) = ped_brk pr"
  "mem (set_tls_worker t w pr) = mem pr" "glob (set_tls_worker t w pr) = glob pr" "nodes (set_tls_worker t w pr) = nodes pr"
  "tls_worker (set_tls_worker t w pr) = (tls_worker pr)(t := w)" "tls_pedigree_leaf (set_tls_worker t w pr) = tls_pedigree_leaf pr"
  "ped_nodes (set_tls_worker t w pr) = ped_nodes pr" "ped_brk (set_tls_worker t w pr) = ped_brk pr"
  "mem (set_tls_pedigree_leaf t l pr) = mem pr" "glob (set_tls_pedigree_leaf t l pr) = glob pr"
  "nodes (set_tls_pedigree_leaf t l pr) = nodes pr" "tls_worker (set_tls_pedigree_leaf t l pr) = tls_worker pr"
  "tls_pedigree_leaf (set_tls_pedigree_leaf t l pr) = (tls_pedigree_leaf pr)(t := l)"
  "global_pedigree_tls_counter (upd_mem f pr) = global_pedigree_tls_counter pr"
  "global_pedigree_tls_counter (set_tls_worker t w pr) = global_pedigree_tls_counter pr"
  "global_pedigree_tls_counter (set_tls_pedigree_leaf t l pr) = global_pedigree_tls_counter pr"
  "ped_nodes (set_tls_pedigree_leaf t l pr) = ped_nodes pr" "ped_brk (set_tls_pedigree_leaf t l pr) = ped_brk pr"
  by (simp_all add: upd_mem_def set_tls_worker_def set_tls_pedigree_leaf_def)

definition idle_worker :: "('m, 'e) worker \<Rightarrow> bool" where
  "idle_worker k \<longleftrightarrow> validate_worker k = Some () \<and> \<not> do_not_steal k \<and> mutex_free (w_lock k) \<and>
     head k = ltq k \<and> tail k = ltq k \<and> protected_tail k = ltq_limit k \<and> original_pedigree_leaf k = None"

text \<open>The thread has no worker; its pedigree leaf is absent or has the thread's root above it.\<close>

definition thread_unbound :: "nat \<Rightarrow> ('m, 'e) process \<Rightarrow> bool" where
  "thread_unbound t pr \<longleftrightarrow> tls_worker pr t = None \<and>
     (case tls_pedigree_leaf pr t of None \<Rightarrow> global_pedigree_tls_counter pr + 1 \<noteq> -1
      | Some leaf \<Rightarrow> (\<exists>p q. leaf = Ped_thread p \<and> ped_parent (ped_nodes pr p) = Some (Ped_thread q) \<and>
          ped_parent (ped_nodes pr q) = None))"

definition thread_leaf :: "nat \<Rightarrow> ('m, 'e) process \<Rightarrow> pedptr" where
  "thread_leaf t pr = (case tls_pedigree_leaf pr t of None \<Rightarrow> Ped_thread (ped_brk pr) | Some leaf \<Rightarrow> leaf)"

definition bound :: "nat \<Rightarrow> wptr \<Rightarrow> ffptr \<Rightarrow> pedptr \<Rightarrow> ('m, 'e) process \<Rightarrow> bool" where
  "bound t w ff leaf pr \<longleftrightarrow> tls_worker pr t = Some w \<and> tls_pedigree_leaf pr t = Some (Ped_worker w) \<and>
     (\<exists>p. leaf = Ped_thread p) \<and>
     (let k = wkh (mem pr) w; f = ffh (mem pr) ff in
        wtype k = WORKER_USER \<and> self k \<noteq> -1 \<and> frame_ff k = Some ff \<and> original_pedigree_leaf k = Some leaf \<and>
        validate_worker k = Some () \<and> \<not> do_not_steal k \<and> mutex_free (w_lock k) \<and>
        validate_full_frame f = Some () \<and> join_counter f = 1 \<and> fiber_self f \<noteq> None \<and> fiber_self f \<noteq> scheduling_fiber k \<and>
        children_reducer_map f = None \<and> right_reducer_map f = None \<and> pending_exception f = None \<and>
        child_pending_exception f = None \<and> right_pending_exception f = None)"

text \<open>The root of the signal tree exists when there are system workers.\<close>

definition root_ready :: "('m, 'e) process \<Rightarrow> bool" where
  "root_ready pr \<longleftrightarrow> (P (glob pr) > 1 \<longrightarrow> signal_node (wkh (mem pr) (workers (glob pr) 0)) \<noteq> None)"

lemma enter_cilk_run:
  assumes "P g > 1 \<longrightarrow> signal_node (wkh s (workers g 0)) \<noteq> None"
  obtains nd' where "enter_cilk s g nd = Some (g\<lparr>Q := Q g + 1\<rparr>, nd')"
  using assms by (cases "Q g = 0"; cases "P g > 1")
    (auto simp: enter_cilk_def wake_runtime_def msg_to_def signal_node_msg_def Let_def)

lemma leave_cilk_run:
  assumes "P g > 1 \<longrightarrow> signal_node (wkh s (workers g 0)) \<noteq> None"
  obtains nd' where "leave_cilk s g nd = Some (g\<lparr>Q := Q g - 1\<rparr>, nd')"
  using assms by (cases "Q g = 1"; cases "P g > 1")
    (auto simp: leave_cilk_def sleep_runtime_def msg_to_def signal_node_msg_def Let_def)

lemma load_pedigree_run:
  assumes "thread_unbound t (pr\<lparr>tls_worker := (tls_worker pr)(t := None)\<rparr>)" and "wtype (wkh (mem pr) w) = WORKER_USER"
    and "original_pedigree_leaf (wkh (mem pr) w) = None"
  obtains pr' v where "load_pedigree_leaf_into_user_worker t w pr = Some pr'"
    and "mem pr' = upd_wk w (\<lambda>k. k\<lparr>w_pedigree := v, original_pedigree_leaf := Some (thread_leaf t pr)\<rparr>) (mem pr)"
    and "glob pr' = glob pr" and "nodes pr' = nodes pr" and "tls_worker pr' = tls_worker pr"
    and "tls_pedigree_leaf pr' t = Some (Ped_worker w)"
    and "\<exists>p. thread_leaf t pr = Ped_thread p"
proof (cases "tls_pedigree_leaf pr t")
  case None
  then show ?thesis
    using assms that
    by (auto simp: load_pedigree_leaf_into_user_worker_def get_tls_pedigree_leaf_def thread_unbound_def thread_leaf_def
        Let_def upd_wk_def)
next
  case (Some leaf)
  then show ?thesis
    using assms that
    by (auto simp: load_pedigree_leaf_into_user_worker_def get_tls_pedigree_leaf_def thread_unbound_def thread_leaf_def
        Let_def upd_wk_def)
qed

lemma bind_thread_run:
  assumes free: "scan_user_workers (mem pr) (map (workers (glob pr)) [P (glob pr) - 1 .. total_workers (glob pr) - 1]) = Some (Some w)"
    and idle: "idle_worker (wkh (mem pr) w)" and slf: "self (wkh (mem pr) w) \<ge> 0"
    and nd: "\<not> work_done (glob pr)" and t: "thread_unbound t pr" and r: "root_ready pr"
    and sf: "scheduling_fiber (wkh (mem pr) w) = None \<longrightarrow> sched_fiber b \<noteq> None"
    and tf: "scheduling_fiber (wkh (mem pr) w) \<noteq> Some (thread_fiber b)" "sched_fiber b \<noteq> Some (thread_fiber b)"
  obtains pr' where "bind_thread b rm t pr = Some (w, pr')" and "bound t w (ff_brk (mem pr)) (thread_leaf t pr) pr'"
    and "glob pr' = (glob pr)\<lparr>Q := Q (glob pr) + 1\<rparr>" and "reducer_map (wkh (mem pr') w) = Some rm"
    and "root_ready pr'" and "\<forall>v. v \<noteq> w \<longrightarrow> wkh (mem pr') v = wkh (mem pr) v"
    and "head (wkh (mem pr') w) = ltq (wkh (mem pr') w)"
proof -
  let ?ff = "ff_brk (mem pr)"
  define s1 where "s1 = upd_wk w (\<lambda>k. k\<lparr>wtype := WORKER_USER, team := Some w\<rparr>) (mem pr)"
  have f: "find_free_worker b (glob pr) (mem pr) = Some (w, s1)"
    using free by (simp add: find_free_worker_def s1_def)
  define s2 where "s2 = upd_wk w (\<lambda>k. k\<lparr>frame_ff := Some ?ff, reducer_map := Some rm\<rparr>)
     (upd_ff ?ff (\<lambda>f. f\<lparr>join_counter := 1\<rparr>) (upd_ff ?ff (\<lambda>f. f\<lparr>fiber_self := Some (thread_fiber b)\<rparr>) (snd (make_full_frame None s1))))"
  define pr2 where "pr2 = (set_tls_worker t (Some w) (pr\<lparr>mem := s1\<rparr>))\<lparr>mem := s2\<rparr>"
  have k2: "wkh s2 w = (wkh (mem pr) w)\<lparr>wtype := WORKER_USER, team := Some w, frame_ff := Some ?ff, reducer_map := Some rm\<rparr>"
    by (simp add: s2_def s1_def make_full_frame_def Let_def)
  have f2: "ffh s2 ?ff = (new_full_frame None)\<lparr>join_counter := 1, fiber_self := Some (thread_fiber b)\<rparr>"
    by (simp add: s2_def s1_def make_full_frame_def Let_def)
  have o2: "v \<noteq> w \<Longrightarrow> wkh s2 v = wkh (mem pr) v" for v
    by (simp add: s2_def s1_def make_full_frame_def Let_def)
  have l2: "thread_leaf t pr2 = thread_leaf t pr" by (simp add: pr2_def thread_leaf_def split: option.split)
  have m2: "mem pr2 = s2" "glob pr2 = glob pr" "nodes pr2 = nodes pr" "tls_worker pr2 = (tls_worker pr)(t := Some w)"
    by (simp_all add: pr2_def)
  have a2: "wtype (wkh (mem pr2) w) = WORKER_USER" "original_pedigree_leaf (wkh (mem pr2) w) = None"
    using idle by (simp_all add: m2 k2 idle_worker_def)
  have u2: "thread_unbound t (pr2\<lparr>tls_worker := (tls_worker pr2)(t := None)\<rparr>)"
    using t by (simp add: pr2_def thread_unbound_def set_tls_worker_def split: option.splits)
  obtain pr3 v where l: "load_pedigree_leaf_into_user_worker t w pr2 = Some pr3"
    and m3: "mem pr3 = upd_wk w (\<lambda>k. k\<lparr>w_pedigree := v, original_pedigree_leaf := Some (thread_leaf t pr)\<rparr>) s2"
    and p3: "glob pr3 = glob pr" "nodes pr3 = nodes pr" "tls_worker pr3 = (tls_worker pr)(t := Some w)"
      "tls_pedigree_leaf pr3 t = Some (Ped_worker w)" "\<exists>p. thread_leaf t pr = Ped_thread p"
    by (rule load_pedigree_run [OF u2 a2]) (rule that, simp_all add: m2 l2)
  define fb where "fb = (if scheduling_fiber (wkh (mem pr) w) = None then sched_fiber b else scheduling_fiber (wkh (mem pr) w))"
  have fb: "fb \<noteq> None" "fb \<noteq> Some (thread_fiber b)" using sf tf by (auto simp: fb_def)
  define pr4 where "pr4 = upd_mem (upd_wk w (\<lambda>k. k\<lparr>w_pending_exception := None, scheduling_fiber := fb\<rparr>)) pr3"
  have k4: "wkh (mem pr4) w = (wkh s2 w)\<lparr>w_pedigree := v, original_pedigree_leaf := Some (thread_leaf t pr),
      w_pending_exception := None, scheduling_fiber := fb\<rparr>"
    by (simp add: pr4_def m3)
  have o4: "u \<noteq> w \<Longrightarrow> wkh (mem pr4) u = wkh (mem pr) u" for u by (simp add: pr4_def m3 o2)
  have rr: "P (glob pr4) > 1 \<longrightarrow> signal_node (wkh (mem pr4) (workers (glob pr4) 0)) \<noteq> None"
    using r k4 k2 o4 by (cases "workers (glob pr) 0 = w") (simp_all add: root_ready_def pr4_def p3)
  obtain nd' where e: "enter_cilk (mem pr4) (glob pr4) (nodes pr4) = Some ((glob pr4)\<lparr>Q := Q (glob pr4) + 1\<rparr>, nd')"
    using enter_cilk_run [OF rr] by blast
  define pr5 where "pr5 = pr4\<lparr>glob := (glob pr4)\<lparr>Q := Q (glob pr4) + 1\<rparr>, nodes := nd'\<rparr>"
  have "ensure_scheduling_fiber b w (upd_mem (upd_wk w (\<lambda>k. k\<lparr>w_pending_exception := None\<rparr>)) pr3) = Some pr4"
    using slf sf by (auto simp: ensure_scheduling_fiber_def m3 k2 pr4_def fb_def upd_mem_def upd_wk_def o2 intro!: process.equality rts.equality)
  moreover have "snd (make_full_frame None (mem (set_tls_worker t (Some w) (pr\<lparr>mem := s1\<rparr>)))) = snd (make_full_frame None s1)"
    "fst (make_full_frame None (mem (set_tls_worker t (Some w) (pr\<lparr>mem := s1\<rparr>)))) = ?ff"
    by (simp_all add: make_full_frame_def Let_def s1_def)
  moreover have "join_counter (ffh (snd (make_full_frame None s1)) ?ff) = 0"
    by (simp add: make_full_frame_def Let_def new_full_frame_def s1_def)
  moreover have "scheduling_fiber (wkh (mem pr4) w) \<noteq> None" "self (wkh (mem pr4) w) \<noteq> -1" using fb slf by (simp_all add: k4 k2)
  ultimately have "bind_thread b rm t pr = Some (w, pr5)"
    using nd f l e idle
    by (auto simp: bind_thread_def Let_def split_beta s2_def [symmetric] pr2_def [symmetric] pr5_def m3 k2 idle_worker_def)
  moreover have "bound t w ?ff (thread_leaf t pr) pr5"
    using idle fb slf p3 unfolding bound_def pr5_def
    by (simp add: k4 k2 idle_worker_def validate_worker_def) (simp add: pr4_def p3 m3 f2 validate_full_frame_def new_full_frame_def)
  moreover have "glob pr5 = (glob pr)\<lparr>Q := Q (glob pr) + 1\<rparr>" by (simp add: pr5_def pr4_def p3)
  moreover have "root_ready pr5" using rr by (simp add: root_ready_def pr5_def)
  ultimately show ?thesis
    using that [of pr5] idle by (simp add: pr5_def k4 k2 o4 idle_worker_def)
qed

lemma return_from_initial_run:
  assumes b: "bound t w ff leaf pr" and r: "root_ready pr"
  obtains pr' where "c_return_from_initial t w pr = Some pr'" and "tls_worker pr' t = None"
    and "tls_pedigree_leaf pr' t = Some leaf" and "rank (read_pedigree pr' leaf) = rank (w_pedigree (wkh (mem pr) w))"
    and "ped_parent (read_pedigree pr' leaf) = ped_parent (read_pedigree pr leaf)"
    and "glob pr' = (glob pr)\<lparr>Q := Q (glob pr) - 1\<rparr>"
    and "wkh (mem pr') w = (wkh (mem pr) w)\<lparr>wtype := WORKER_FREE, frame_ff := None, reducer_map := None,
       original_pedigree_leaf := None, w_lock := mutex_init\<rparr>"
    and "\<forall>v. v \<noteq> w \<longrightarrow> wkh (mem pr') v = wkh (mem pr) v" and "ff_freed (mem pr') = ff # ff_freed (mem pr)"
proof -
  let ?k = "wkh (mem pr) w"
  obtain p where p: "leaf = Ped_thread p" using b by (auto simp: bound_def)
  have k: "wtype ?k = WORKER_USER" "self ?k \<noteq> -1" "frame_ff ?k = Some ff" "original_pedigree_leaf ?k = Some leaf"
    "validate_worker ?k = Some ()" "\<not> do_not_steal ?k" "mutex_free (w_lock ?k)"
    and f: "validate_full_frame (ffh (mem pr) ff) = Some ()" "join_counter (ffh (mem pr) ff) = 1" "fiber_self (ffh (mem pr) ff) \<noteq> None"
      "fiber_self (ffh (mem pr) ff) \<noteq> scheduling_fiber ?k" "children_reducer_map (ffh (mem pr) ff) = None" "right_reducer_map (ffh (mem pr) ff) = None"
      "pending_exception (ffh (mem pr) ff) = None" "child_pending_exception (ffh (mem pr) ff) = None" "right_pending_exception (ffh (mem pr) ff) = None"
    and t: "tls_worker pr t = Some w"
    using b by (simp_all add: bound_def Let_def)
  define s1 where "s1 = upd_wk w (\<lambda>k. k\<lparr>do_not_steal := True, w_lock := \<lparr>mx_lock = 1, mx_owner = Some w\<rparr>\<rparr>) (mem pr)"
  have l: "lock_worker w (mem pr) = Some s1" using k unfolding s1_def by (intro lock_worker_free) simp_all
  define s2 where "s2 = upd_wk w (\<lambda>k. k\<lparr>reducer_map := None\<rparr>) (upd_ff ff (\<lambda>f. f\<lparr>fiber_self := None\<rparr>)
     (upd_wk w (\<lambda>k. k\<lparr>frame_ff := None\<rparr>) s1))"
  define s3 where "s3 = (upd_ff ff (\<lambda>f. f\<lparr>ff_lock := mutex_destroy (ff_lock f)\<rparr>) s2)\<lparr>ff_freed := ff # ff_freed s2\<rparr>"
  have d: "destroy_full_frame ff s2 = Some s3"
    using f by (simp add: destroy_full_frame_def s3_def s2_def s1_def validate_full_frame_def split: if_splits)
  define s4 where "s4 = upd_wk w (\<lambda>k. k\<lparr>w_lock := mutex_init, do_not_steal := False\<rparr>) s3"
  have u: "unlock_worker w s3 = Some s4" unfolding s4_def by (rule unlock_worker_own) (simp_all add: s3_def s2_def s1_def)
  have k4: "wkh s4 w = ?k\<lparr>frame_ff := None, reducer_map := None, w_lock := mutex_init\<rparr>"
    using k by (simp add: s4_def s3_def s2_def s1_def)
  have o4: "v \<noteq> w \<Longrightarrow> wkh s4 v = wkh (mem pr) v" for v by (simp add: s4_def s3_def s2_def s1_def)
  define pr5 where "pr5 = upd_mem (upd_wk w (\<lambda>k. k\<lparr>original_pedigree_leaf := None\<rparr>))
     (set_tls_pedigree_leaf t (Some leaf) (write_pedigree leaf ((read_pedigree (pr\<lparr>mem := s4\<rparr>) leaf)\<lparr>rank := rank (w_pedigree (wkh s4 w))\<rparr>) (pr\<lparr>mem := s4\<rparr>)))"
  have v: "save_pedigree_leaf_from_user_worker t w (pr\<lparr>mem := s4\<rparr>) = Some pr5"
    using k by (simp add: save_pedigree_leaf_from_user_worker_def k4 p pr5_def Let_def)
  define pr6 where "pr6 = upd_mem (upd_wk w (\<lambda>k. k\<lparr>wtype := WORKER_FREE\<rparr>)) (set_tls_worker t None pr5)"
  have w6: "wkh (mem pr6) w = ?k\<lparr>wtype := WORKER_FREE, frame_ff := None, reducer_map := None, original_pedigree_leaf := None, w_lock := mutex_init\<rparr>"
    by (simp add: pr6_def pr5_def p k4)
  have o6: "u \<noteq> w \<Longrightarrow> wkh (mem pr6) u = wkh (mem pr) u" for u by (simp add: pr6_def pr5_def p o4)
  have g6: "glob pr6 = glob pr" by (simp add: pr6_def pr5_def p)
  have rr: "P (glob pr6) > 1 \<longrightarrow> signal_node (wkh (mem pr6) (workers (glob pr6) 0)) \<noteq> None"
    using r w6 o6 by (cases "workers (glob pr) 0 = w") (simp_all add: root_ready_def g6)
  obtain nd' where e: "leave_cilk (mem pr6) (glob pr6) (nodes pr6) = Some ((glob pr6)\<lparr>Q := Q (glob pr6) - 1\<rparr>, nd')"
    using leave_cilk_run [OF rr] by blast
  define pr7 where "pr7 = pr6\<lparr>glob := (glob pr6)\<lparr>Q := Q (glob pr6) - 1\<rparr>, nodes := nd'\<rparr>"
  have t5: "tls_worker pr5 t = Some w" using t by (simp add: pr5_def p)
  have s5: "self (wkh (mem pr5) w) \<noteq> -1" using k by (simp add: pr5_def p k4)
  have ub: "unbind_thread t pr5 = Some pr7"
    using t5 s5 e by (simp add: unbind_thread_def Let_def pr6_def [symmetric] pr7_def)
  have a: "frame_ff (wkh s1 w) = Some ff" "join_counter (ffh s1 ff) = 1" "fiber_self (ffh s1 ff) \<noteq> None"
    "fiber_self (ffh s1 ff) \<noteq> scheduling_fiber (wkh s1 w)"
    using k f by (simp_all add: s1_def)
  have "c_return_from_initial t w pr = Some pr7"
    using k(1) l a d u v ub by (simp add: c_return_from_initial_def Let_def s2_def [symmetric])
  moreover have "rank (read_pedigree pr7 leaf) = rank (w_pedigree ?k)" "ped_parent (read_pedigree pr7 leaf) = ped_parent (read_pedigree pr leaf)"
    by (simp_all add: pr7_def pr6_def pr5_def p k4)
  moreover have "ff_freed (mem pr7) = ff # ff_freed (mem pr)" by (simp add: pr7_def pr6_def pr5_def p s4_def s3_def s2_def s1_def)
  ultimately show ?thesis
    using that [of pr7] by (simp add: pr7_def w6 o6 g6) (simp add: pr6_def pr5_def p)
qed

subsection \<open>Properties\<close>

text \<open>C27: a thread that enters Cilk leaves it as it came. Binding takes the first free user worker, makes the
  initial frame with join counter 1, moves the thread's pedigree into the worker and counts
  the thread in Q. Whatever the program did in between, as long as the thread is still bound
  and its initial frame has no outstanding work, returning from the initial frame succeeds:
  the worker is free and has no frame and no reducer map, the full frame is freed, the
  thread has its own pedigree leaf back with the rank it reached inside Cilk and the same
  parent, and Q is as before.\<close>

theorem bind_return_roundtrip:
  assumes "scan_user_workers (mem pr) (map (workers (glob pr)) [P (glob pr) - 1 .. total_workers (glob pr) - 1]) = Some (Some w)"
    and "idle_worker (wkh (mem pr) w)" and "self (wkh (mem pr) w) \<ge> 0"
    and "\<not> work_done (glob pr)" and "thread_unbound t pr" and "root_ready pr"
    and "scheduling_fiber (wkh (mem pr) w) = None \<longrightarrow> sched_fiber b \<noteq> None"
    and "scheduling_fiber (wkh (mem pr) w) \<noteq> Some (thread_fiber b)" and "sched_fiber b \<noteq> Some (thread_fiber b)"
  shows "\<exists>pr1. bind_thread b rm t pr = Some (w, pr1) \<and> bound t w (ff_brk (mem pr)) (thread_leaf t pr) pr1 \<and>
     reducer_map (wkh (mem pr1) w) = Some rm \<and> Q (glob pr1) = Q (glob pr) + 1 \<and>
     (\<forall>pr2. bound t w (ff_brk (mem pr)) (thread_leaf t pr) pr2 \<longrightarrow> glob pr2 = glob pr1 \<longrightarrow> root_ready pr2 \<longrightarrow>
       (\<exists>pr3. c_return_from_initial t w pr2 = Some pr3 \<and> glob pr3 = glob pr \<and> tls_worker pr3 t = None \<and>
          tls_pedigree_leaf pr3 t = Some (thread_leaf t pr) \<and>
          read_pedigree pr3 (thread_leaf t pr) =
            (read_pedigree pr2 (thread_leaf t pr))\<lparr>rank := rank (w_pedigree (wkh (mem pr2) w))\<rparr> \<and>
          wtype (wkh (mem pr3) w) = WORKER_FREE \<and> frame_ff (wkh (mem pr3) w) = None \<and>
          reducer_map (wkh (mem pr3) w) = None \<and> ff_freed (mem pr3) = ff_brk (mem pr) # ff_freed (mem pr2)))"
proof -
  obtain pr1 where 1: "bind_thread b rm t pr = Some (w, pr1)" "bound t w (ff_brk (mem pr)) (thread_leaf t pr) pr1"
    "glob pr1 = (glob pr)\<lparr>Q := Q (glob pr) + 1\<rparr>" "reducer_map (wkh (mem pr1) w) = Some rm"
    by (rule bind_thread_run [OF assms]) blast
  have "\<exists>pr3. c_return_from_initial t w pr2 = Some pr3 \<and> glob pr3 = glob pr \<and> tls_worker pr3 t = None \<and>
          tls_pedigree_leaf pr3 t = Some (thread_leaf t pr) \<and>
          read_pedigree pr3 (thread_leaf t pr) =
            (read_pedigree pr2 (thread_leaf t pr))\<lparr>rank := rank (w_pedigree (wkh (mem pr2) w))\<rparr> \<and>
          wtype (wkh (mem pr3) w) = WORKER_FREE \<and> frame_ff (wkh (mem pr3) w) = None \<and>
          reducer_map (wkh (mem pr3) w) = None \<and> ff_freed (mem pr3) = ff_brk (mem pr) # ff_freed (mem pr2)"
    if "bound t w (ff_brk (mem pr)) (thread_leaf t pr) pr2" "glob pr2 = glob pr1" "root_ready pr2" for pr2
    by (rule return_from_initial_run [OF that(1,3)]) (auto simp: that(2) 1 intro: pedigree.equality)
  then show ?thesis using 1 by auto
qed

subsection \<open>Witnesses\<close>

text \<open>One system worker (0, with signal node 0) and one user worker (1); thread 0 has never been in Cilk.\<close>

definition user_process :: "(unit, unit) process" where
  "user_process = \<lparr>mem = \<lparr>ffh = (\<lambda>_. new_full_frame None), ff_brk = 0, ff_freed = [], sfh = (\<lambda>_. sf0),
       wkh = (\<lambda>_. make_worker 8 1 50)(0 := (make_worker 8 0 50)\<lparr>wtype := WORKER_SYSTEM, signal_node := Some 0\<rparr>)\<rparr>,
     glob = \<lparr>total_workers = 2, stealing_disabled = False, workers = nat, P = 2, Q = 0, work_done = False,
       max_steal_failures = 128\<rparr>,
     nodes = (\<lambda>_. signal_node_create), tls_worker = (\<lambda>_. None), tls_pedigree_leaf = (\<lambda>_. None),
     ped_nodes = (\<lambda>_. \<lparr>rank = 0, ped_parent = None\<rparr>), ped_brk = 0, global_pedigree_tls_counter = -1, freed_workers = []\<rparr>"

theorem bind_return_roundtrip_witness:
  "\<exists>pr1 pr3. bind_thread \<lparr>new_worker = 9, new_ltq = 90, ltqsize = 8, thread_fiber = 3, sched_fiber = Some 4\<rparr> () 0 user_process = Some (1, pr1) \<and>
     Q (glob pr1) = 1 \<and> c_return_from_initial 0 1 pr1 = Some pr3 \<and> Q (glob pr3) = 0 \<and> wtype (wkh (mem pr3) 1) = WORKER_FREE"
proof -
  let ?b = "\<lparr>new_worker = 9, new_ltq = 90, ltqsize = 8, thread_fiber = 3, sched_fiber = Some 4\<rparr>"
  have h: "scan_user_workers (mem user_process) (map (workers (glob user_process)) [P (glob user_process) - 1 .. total_workers (glob user_process) - 1]) = Some (Some 1)"
    "idle_worker (wkh (mem user_process) 1)" "self (wkh (mem user_process) 1) \<ge> 0" "\<not> work_done (glob user_process)"
    "thread_unbound 0 user_process" "root_ready user_process"
    "scheduling_fiber (wkh (mem user_process) 1) = None \<longrightarrow> sched_fiber ?b \<noteq> None"
    "scheduling_fiber (wkh (mem user_process) 1) \<noteq> Some (thread_fiber ?b)" "sched_fiber ?b \<noteq> Some (thread_fiber ?b)"
    by (simp_all add: user_process_def worker_eval idle_worker_def validate_worker_def thread_unbound_def root_ready_def
        mutex_init_def)
  from bind_return_roundtrip [OF h, of "()"] obtain pr1 where
    1: "bind_thread ?b () 0 user_process = Some (1, pr1)" "bound 0 1 (ff_brk (mem user_process)) (thread_leaf 0 user_process) pr1"
      "Q (glob pr1) = Q (glob user_process) + 1"
    and 2: "\<And>pr2 :: (unit, unit) process. bound 0 1 (ff_brk (mem user_process)) (thread_leaf 0 user_process) pr2 \<Longrightarrow> glob pr2 = glob pr1 \<Longrightarrow> root_ready pr2 \<Longrightarrow>
      \<exists>pr3. c_return_from_initial 0 1 pr2 = Some pr3 \<and> glob pr3 = glob user_process \<and> wtype (wkh (mem pr3) 1) = WORKER_FREE"
    by blast
  obtain pr' where "bind_thread ?b () 0 user_process = Some (1, pr')" "root_ready pr'" by (rule bind_thread_run [OF h, of "()"]) blast
  with 1 have "root_ready pr1" by simp
  from 2 [OF 1(2) _ this] 1 show ?thesis by (auto simp: user_process_def)
qed

end
