(* ===== verification/Cilk_ABI.thy ===== *)
theory Cilk_ABI
  imports User_Thread
begin

section \<open>What compiled code calls: frames, spawns, syncs (cilk-abi.c, cilk\_fake.h, scheduler.c)\<close>

text \<open>
  The life of a spawning function and of a spawn helper: entering a frame, detaching, leaving,
  syncing, and the jump into the runtime when the parent was stolen. A C function that jumps
  away does not return; the model returns where control is next.
\<close>

unbundle bit_operations_syntax

text \<open>
  \<open>exn\<close> and \<open>reduce\<close> are the arguments of the earlier theories; \<open>sync_match\<close> is the answer of the
  replay log at a sync (false without a log); \<open>make_info exc rethrow\<close> is the record
  \<^verbatim>\<open>save_exception_info\<close> makes of the C++ runtime's state.
\<close>

record ('m, 'e) abi_env =
  exn :: "'e exn_rt"
  reduce :: "'m \<Rightarrow> 'm \<Rightarrow> 'm"
  sync_match :: bool
  make_info :: "nat option \<Rightarrow> bool \<Rightarrow> 'e"

datatype outcome = Returned | In_scheduler | Resumed ffptr

subsection \<open>Entering frames (cilk-abi.c, cilk\_fake.h)\<close>

definition enter_frame_fast_internal :: "sfptr \<Rightarrow> wptr \<Rightarrow> 32 word \<Rightarrow> ('m, 'e) rts \<Rightarrow> ('m, 'e) rts" where
  "enter_frame_fast_internal sf w version s =
     (let s = upd_sf sf (\<lambda>f. f\<lparr>flags := push_bit 24 version,
                                call_parent := current_stack_frame (wkh s w), sf_worker := Some w\<rparr>) s
      in upd_wk w (\<lambda>k. k\<lparr>current_stack_frame := Some sf\<rparr>) s)"

definition enter_frame_internal ::
    "bind_env \<Rightarrow> 'm \<Rightarrow> nat \<Rightarrow> sfptr \<Rightarrow> 32 word \<Rightarrow> ('m, 'e) process \<Rightarrow> ('m, 'e) process option" where
  "enter_frame_internal b rm t sf version pr = do {
     (w, last_flag, pr) \<leftarrow> (case tls_worker pr t of
        None \<Rightarrow> do { (w, pr) \<leftarrow> bind_thread b rm t pr; Some (w, CILK_FRAME_LAST, pr) }
      | Some w \<Rightarrow> Some (w, 0, pr));
     let fl = last_flag OR push_bit 24 version;
     cilk_assert (fl AND CILK_FRAME_FLAGS_MASK = last_flag);
     Some (upd_mem (\<lambda>s. upd_wk w (\<lambda>k. k\<lparr>current_stack_frame := Some sf\<rparr>)
       (upd_sf sf (\<lambda>f. f\<lparr>flags := fl, call_parent := current_stack_frame (wkh s w), sf_worker := Some w\<rparr>) s)) pr) }"

definition CILK_FAKE_VERSION_FLAG :: "32 word" where
  "CILK_FAKE_VERSION_FLAG = push_bit 24 1"

definition fake_enter_frame_fast :: "sfptr \<Rightarrow> wptr \<Rightarrow> ('m, 'e) rts \<Rightarrow> ('m, 'e) rts" where
  "fake_enter_frame_fast sf w s =
     (let s = upd_sf sf (\<lambda>f. f\<lparr>call_parent := current_stack_frame (wkh s w), sf_worker := Some w,
                                flags := CILK_FAKE_VERSION_FLAG\<rparr>) s
      in upd_wk w (\<lambda>k. k\<lparr>current_stack_frame := Some sf\<rparr>) s)"

definition fake_helper_enter_frame :: "sfptr \<Rightarrow> sfptr \<Rightarrow> ('m, 'e) rts \<Rightarrow> ('m, 'e) rts" where
  "fake_helper_enter_frame sf parent_sf s = upd_sf sf (\<lambda>f. f\<lparr>sf_worker := None, call_parent := Some parent_sf\<rparr>) s"

text \<open>
  \<^verbatim>\<open>__cilk_fake_detach\<close> stores through the tail pointer without a check; a store behind the last slot
  of the deque has no result in the model.
\<close>

definition fake_detach :: "sfptr \<Rightarrow> ('m, 'e) rts \<Rightarrow> ('m, 'e) rts option" where
  "fake_detach sf s = do {
     parent_sf \<leftarrow> call_parent (sfh s sf);
     w \<leftarrow> sf_worker (sfh s parent_sf);
     let s = fake_enter_frame_fast sf w s;
     let ped = w_pedigree (wkh s w);
     let s = upd_sf sf (\<lambda>f. f\<lparr>sf_pedigree := ped\<rparr>) s;
     let s = upd_sf parent_sf (\<lambda>f. f\<lparr>sf_pedigree := ped\<rparr>) s;
     let s = upd_wk w (\<lambda>k. k\<lparr>w_pedigree := \<lparr>rank = 0, ped_parent = Some (Ped_sf sf)\<rparr>\<rparr>) s;
     slot \<leftarrow> call_parent (sfh s sf);
     _ \<leftarrow> (if tail (wkh s w) < ltq_limit (wkh s w) then Some () else None);
     let s = upd_wk w (\<lambda>k. detach_publish (detach_store k slot)) s;
     Some (upd_sf sf (\<lambda>f. f\<lparr>flags := set_flag (flags f) CILK_FRAME_DETACHED\<rparr>) s) }"

definition fake_pop_frame :: "sfptr \<Rightarrow> ('m, 'e) rts \<Rightarrow> ('m, 'e) rts option" where
  "fake_pop_frame sf s = do {
     w \<leftarrow> sf_worker (sfh s sf);
     let s = upd_wk w (\<lambda>k. k\<lparr>current_stack_frame := call_parent (sfh s sf)\<rparr>) s;
     Some (upd_sf sf (\<lambda>f. f\<lparr>call_parent := None\<rparr>) s) }"

subsection \<open>Pedigrees (pedigrees.h, cilk\_api.c)\<close>

definition update_pedigree_on_leave_frame :: "wptr \<Rightarrow> sfptr \<Rightarrow> ('m, 'e) rts \<Rightarrow> ('m, 'e) rts" where
  "update_pedigree_on_leave_frame w sf s =
     (if CILK_FRAME_VERSION_VALUE (flags (sfh s sf)) \<ge> 1
      then upd_wk w (\<lambda>k. k\<lparr>w_pedigree := \<lparr>rank = rank (sf_pedigree (sfh s sf)) + 1,
                                        ped_parent = ped_parent (sf_pedigree (sfh s sf))\<rparr>\<rparr>) s
      else s)"

text \<open>
  \<^verbatim>\<open>__cilkrts_get_pedigree_info\<close>: the context is at the start of a walk, at a node, or at the end
  (the pointer -1); the result is 0 with a rank, or 1 when the walk is complete.
\<close>

datatype ped_context = Walk_start | Walk_at pedptr | PEDIGREE_WALK_COMPLETE

definition get_pedigree_info ::
    "nat \<Rightarrow> ped_context \<Rightarrow> ('m, 'e) process \<Rightarrow> (64 word option \<times> ped_context \<times> ('m, 'e) process) option" where
  "get_pedigree_info t c pr =
     (case c of PEDIGREE_WALK_COMPLETE \<Rightarrow> Some (None, c, pr)
      | _ \<Rightarrow> do {
          (node, pr) \<leftarrow> (case c of Walk_at p \<Rightarrow> Some (p, pr)
             | _ \<Rightarrow> (case tls_worker pr t of Some w \<Rightarrow> Some (Ped_worker w, pr) | None \<Rightarrow> get_tls_pedigree_leaf t pr));
          case ped_parent (read_pedigree pr node) of
            None \<Rightarrow> Some (None, PEDIGREE_WALK_COMPLETE, pr)
          | Some p \<Rightarrow> Some (Some (rank (read_pedigree pr p)), Walk_at p, pr) })"

subsection \<open>Jumping into the runtime (scheduler.c)\<close>

text \<open>
  \<^verbatim>\<open>enter_runtime_transition_proc\<close> runs on the scheduling fiber right after the switch. What the
  fibers themselves record (owner and \<^verbatim>\<open>resume_sf\<close>) is not part of the model.
\<close>

definition enter_runtime_transition_proc ::
    "('m, 'e) abi_env \<Rightarrow> wptr \<Rightarrow> ('m, 'e) rts \<Rightarrow> ('m, 'e) rts option" where
  "enter_runtime_transition_proc e w s =
     (if post_suspend (wkh s w) \<noteq> None then do {
        (_, s) \<leftarrow> run_scheduling_stack_fcn (exn e) (sync_match e) w s;
        cilk_assert (reducer_map (wkh s w) = None);
        Some s }
      else Some s)"

definition call_sched_fcn ::
    "('m, 'e) abi_env \<Rightarrow> sched_fcn \<Rightarrow> wptr \<Rightarrow> ffptr \<Rightarrow> sfptr option \<Rightarrow> ('m, 'e) rts
      \<Rightarrow> (provably_good_steal_t \<times> ('m, 'e) rts) option" where
  "call_sched_fcn e fcn w ff sf s =
     (case fcn of Do_sync \<Rightarrow> do { sf \<leftarrow> sf; do_sync (exn e) (sync_match e) w ff sf s }
      | Do_return_from_spawn \<Rightarrow> do_return_from_spawn (exn e) (sync_match e) w ff sf s)"

definition longjmp_into_runtime ::
    "('m, 'e) abi_env \<Rightarrow> int \<Rightarrow> wptr \<Rightarrow> sched_fcn \<Rightarrow> sfptr option \<Rightarrow> ('m, 'e) rts
      \<Rightarrow> (outcome \<times> ('m, 'e) rts) option" where
  "longjmp_into_runtime e p w fcn sf s = do {
     cilk_assert (post_suspend (wkh s w) = None);
     ff \<leftarrow> frame_ff (wkh s w);
     if p = 1 then do {
       (_, s) \<leftarrow> call_sched_fcn e fcn w ff sf s;
       let (nf, s) = pop_next_frame w s;
       ff2 \<leftarrow> nf;
       s \<leftarrow> setup_for_execution (exn e) w ff2 False s;
       sf2 \<leftarrow> current_stack_frame (wkh s w);
       let s = prepare_to_resume_user_code w sf2 s;
       let (_, s) = cilkrts_resume sf2 ff2 s;
       Some (Resumed ff2, s) }
     else do {
       let s = upd_wk w (\<lambda>k. k\<lparr>post_suspend := Some fcn, suspended_stack := sf\<rparr>) s;
       current_fiber \<leftarrow> (case fiber_to_free (wkh s w) of Some fb \<Rightarrow> Some fb
          | None \<Rightarrow> do { pff \<leftarrow> parent (ffh s ff); fiber_child (ffh s pff) });
       cilk_assert (fiber_self (ffh s ff) = None);
       let s = upd_wk w (\<lambda>k. k\<lparr>fiber_to_free := None\<rparr>) s;
       s \<leftarrow> enter_runtime_transition_proc e w s;
       Some (In_scheduler, s) } }"

subsection \<open>Saving exceptions (except-gcc.cpp)\<close>

definition save_exception_info :: "'e \<Rightarrow> wptr \<Rightarrow> ('m, 'e) rts \<Rightarrow> ('m, 'e) rts option" where
  "save_exception_info info w s = do {
     cilk_assert (w_pending_exception (wkh s w) = None);
     Some (upd_wk w (\<lambda>k. k\<lparr>w_pending_exception := Some info\<rparr>) s) }"

definition exception_to_frame :: "wptr \<Rightarrow> ffptr \<Rightarrow> ('m, 'e) rts \<Rightarrow> ('m, 'e) rts option" where
  "exception_to_frame w ff s = do {
     cilk_assert (pending_exception (ffh s ff) = None);
     let s = upd_ff ff (\<lambda>f. f\<lparr>pending_exception := w_pending_exception (wkh s w)\<rparr>) s;
     Some (upd_wk w (\<lambda>k. k\<lparr>w_pending_exception := None\<rparr>) s) }"

definition save_exception_state :: "('m, 'e) abi_env \<Rightarrow> wptr \<Rightarrow> ffptr \<Rightarrow> ('m, 'e) rts \<Rightarrow> ('m, 'e) rts option" where
  "save_exception_state e w ff s = do {
     s \<leftarrow> save_exception_info (make_info e None False) w s;
     exception_to_frame w ff s }"

subsection \<open>The exception check of the THE protocol (scheduler.c)\<close>

definition c_THE_exception_check ::
    "('m, 'e) abi_env \<Rightarrow> int \<Rightarrow> wptr \<Rightarrow> sfptr \<Rightarrow> ('m, 'e) rts \<Rightarrow> (outcome \<times> ('m, 'e) rts) option" where
  "c_THE_exception_check e p w returning_sf s = do {
     s \<leftarrow> lock_worker w s;
     ff \<leftarrow> frame_ff (wkh s w);
     cilk_assert (w_pending_exception (wkh s w) = None);
     let s = upd_wk w reset_THE_exception s;
     let stolen_p = (\<not> head (wkh s w) < tail (wkh s w) + 1);
     s \<leftarrow> (if stolen_p then do {
             s \<leftarrow> save_exception_state e w ff s;
             Some (upd_wk w (\<lambda>k. k\<lparr>tail := tail k + 1\<rparr>) s) }
           else Some s);
     s \<leftarrow> unlock_worker w s;
     if stolen_p then do {
       s \<leftarrow> execute_reductions_for_spawn_return (reduce e) (exn e) w ff returning_sf s;
       let s = update_pedigree_on_leave_frame w returning_sf s;
       longjmp_into_runtime e p w Do_return_from_spawn None s }
     else Some (Returned, s) }"

definition exception_from_spawn ::
    "('m, 'e) abi_env \<Rightarrow> int \<Rightarrow> wptr \<Rightarrow> sfptr \<Rightarrow> ('m, 'e) rts \<Rightarrow> (outcome \<times> ('m, 'e) rts) option" where
  "exception_from_spawn e p w returning_sf s = do {
     ff \<leftarrow> frame_ff (wkh s w);
     cilk_assert (head (wkh s w) = tail (wkh s w));
     s \<leftarrow> execute_reductions_for_spawn_return (reduce e) (exn e) w ff returning_sf s;
     longjmp_into_runtime e p w Do_return_from_spawn None s }"

definition c_pop_tail :: "wptr \<Rightarrow> ('m, 'e) rts \<Rightarrow> (sfptr option \<times> ('m, 'e) rts) option" where
  "c_pop_tail w s = do {
     s \<leftarrow> lock_worker w s;
     let (k, sf) = pop_tail (wkh s w);
     s \<leftarrow> unlock_worker w (upd_wk w (\<lambda>_. k) s);
     Some (sf, s) }"

definition return_exception ::
    "('m, 'e) abi_env \<Rightarrow> int \<Rightarrow> sfptr \<Rightarrow> ('m, 'e) rts \<Rightarrow> (outcome \<times> ('m, 'e) rts) option" where
  "return_exception e p sf s = do {
     w \<leftarrow> sf_worker (sfh s sf);
     let ex = except_data (sfh s sf);
     cilk_assert (has_flag (flags (sfh s sf)) CILK_FRAME_DETACHED);
     let s = upd_sf sf (\<lambda>f. f\<lparr>flags := clear_flag (flags f) CILK_FRAME_DETACHED\<rparr>) s;
     (popped, s) \<leftarrow> c_pop_tail w s;
     if popped = None then do {
       let s = update_pedigree_on_leave_frame w sf s;
       let s = upd_wk w (\<lambda>k. k\<lparr>current_stack_frame := call_parent (sfh s sf)\<rparr>) s;
       let s = upd_sf sf (\<lambda>f. f\<lparr>call_parent := None\<rparr>) s;
       s \<leftarrow> save_exception_info (make_info e ex (ex = None)) w s;
       ff \<leftarrow> frame_ff (wkh s w);
       s \<leftarrow> exception_to_frame w ff s;
       exception_from_spawn e p w sf s }
     else Some (Returned, update_pedigree_on_leave_frame w sf s) }"

subsection \<open>Leaving a frame, and the sync (cilk-abi.c)\<close>

definition leave_frame ::
    "('m, 'e) abi_env \<Rightarrow> nat \<Rightarrow> sfptr \<Rightarrow> ('m, 'e) process \<Rightarrow> (outcome \<times> ('m, 'e) process) option" where
  "leave_frame e t sf pr = do {
     let s = mem pr;
     w \<leftarrow> sf_worker (sfh s sf);
     if has_flag (flags (sfh s sf)) CILK_FRAME_DETACHED then
       (if has_flag (flags (sfh s sf)) CILK_FRAME_EXCEPTING then do {
          (r, s) \<leftarrow> return_exception e (P (glob pr)) sf s;
          Some (r, pr\<lparr>mem := s\<rparr>) }
        else do {
          let ((k, f), failed) = undo_detach (wkh s w) (sfh s sf);
          let s = upd_sf sf (\<lambda>_. f) (upd_wk w (\<lambda>_. k) s);
          (r, s) \<leftarrow> (if failed then c_THE_exception_check e (P (glob pr)) w sf s else Some (Returned, s));
          if r = Returned then do {
            let s = update_pedigree_on_leave_frame w sf s;
            cilk_assert (\<not> has_flag (flags (sfh s sf)) CILK_FRAME_FLAGS_MASK);
            Some (Returned, pr\<lparr>mem := s\<rparr>) }
          else Some (r, pr\<lparr>mem := s\<rparr>) })
     else if has_flag (flags (sfh s sf)) CILK_FRAME_LAST then do {
       pr \<leftarrow> c_return_from_initial t w pr;
       Some (Returned, pr) }
     else if has_flag (flags (sfh s sf)) CILK_FRAME_STOLEN then do {
       s \<leftarrow> cilkrts_return (exn e) w s;
       Some (Returned, pr\<lparr>mem := s\<rparr>) }
     else Some (Returned, pr) }"

text \<open>
  \<^verbatim>\<open>__cilkrts_c_sync_except\<close> up to its call of \<^verbatim>\<open>__cilkrts_c_sync\<close>. Its assertion that the C++ runtime
  has no uncaught exception left (\<^verbatim>\<open>std::uncaught_exception\<close>) is about state outside the model; that
  saving the exceptions clears that state is part of the round trip in the theory on exceptions.
\<close>

definition c_sync_except ::
    "('m, 'e) abi_env \<Rightarrow> wptr \<Rightarrow> sfptr \<Rightarrow> ('m, 'e) rts \<Rightarrow> ('m, 'e) rts option" where
  "c_sync_except e w sf s = do {
     let ex = except_data (sfh s sf);
     cilk_assert (has_flag (flags (sfh s sf)) CILK_FRAME_UNSYNCHED \<and> has_flag (flags (sfh s sf)) CILK_FRAME_EXCEPTING);
     let s = upd_sf sf (\<lambda>f. f\<lparr>flags := clear_flag (flags f) CILK_FRAME_EXCEPTING\<rparr>) s;
     save_exception_info (make_info e ex False) w s }"

text \<open>\<^verbatim>\<open>__cilkrts_sync\<close>: saves exceptions if there are any, then stalls the frame and jumps into the runtime.\<close>

definition cilkrts_sync ::
    "('m, 'e) abi_env \<Rightarrow> int \<Rightarrow> sfptr \<Rightarrow> ('m, 'e) rts \<Rightarrow> (outcome \<times> ('m, 'e) rts) option" where
  "cilkrts_sync e p sf s = do {
     w \<leftarrow> sf_worker (sfh s sf);
     cilk_assert (has_flag (flags (sfh s sf)) CILK_FRAME_UNSYNCHED);
     s \<leftarrow> (if has_flag (flags (sfh s sf)) CILK_FRAME_EXCEPTING then c_sync_except e w sf s else Some s);
     s \<leftarrow> c_sync (reduce e) (exn e) w sf s;
     longjmp_into_runtime e p w Do_sync (Some sf) s }"

text \<open>\<^verbatim>\<open>CILK_FAKE_SYNC_IMP\<close>: the compiled sync, up to the jump when there is one.\<close>

definition fake_sync ::
    "('m, 'e) abi_env \<Rightarrow> int \<Rightarrow> sfptr \<Rightarrow> ('m, 'e) rts \<Rightarrow> (outcome \<times> ('m, 'e) rts) option" where
  "fake_sync e p sf s = do {
     w \<leftarrow> sf_worker (sfh s sf);
     if has_flag (flags (sfh s sf)) CILK_FRAME_UNSYNCHED then
       cilkrts_sync e p sf (upd_sf sf (\<lambda>f. f\<lparr>sf_pedigree := w_pedigree (wkh s w)\<rparr>) s)
     else Some (Returned, upd_wk w (\<lambda>k. k\<lparr>w_pedigree := (w_pedigree k)\<lparr>rank := rank (w_pedigree k) + 1\<rparr>\<rparr>) s) }"

definition synched :: "wptr option \<Rightarrow> ('m, 'e) rts \<Rightarrow> bool option" where
  "synched w s =
     (case w of None \<Rightarrow> Some True
      | Some w \<Rightarrow> do {
          sf \<leftarrow> current_stack_frame (wkh s w);
          Some (if \<not> has_flag (flags (sfh s sf)) CILK_FRAME_UNSYNCHED then True
                else (case frame_ff (wkh s w) of None \<Rightarrow> True | Some ff \<Rightarrow> join_counter (ffh s ff) = 1)) })"

end
