(* ===== verification/Serial_Run.thy ===== *)
theory Serial_Run
  imports Cilk_ABI
begin

section \<open>A spawning program without thieves\<close>

text \<open>
  A task is a function that spawns: a list of spawns of subtasks, plain calls of other spawning
  functions, and syncs, in any order, with the implicit sync at its end. The code around it is
  what the compiler emits (the macros of cilk\_fake.h). Its stack frame lies at address \<open>a\<close>, the
  frame of a spawn helper at \<open>a + 1\<close>, the frame of the function the helper calls at \<open>a + 2\<close>, and
  that of a function it calls itself at \<open>a + 1\<close>. Each task records the pedigree it starts with.
  The deque is the array between \<open>ltq\<close> and \<open>ltq_limit\<close>; a spawn that finds it full has no result.
\<close>

datatype task = Task "item list" and item = Spawn task | Call task | Sync

primrec walk :: "nat \<Rightarrow> ('m, 'e) process \<Rightarrow> pedptr option \<Rightarrow> 64 word list" where
  "walk 0 pr p = []"
| "walk (Suc n) pr p = (case p of None \<Rightarrow> []
     | Some p \<Rightarrow> rank (read_pedigree pr p) # walk n pr (ped_parent (read_pedigree pr p)))"

text \<open>The end of a spawning function (implicit sync, pop, leave) and of a spawn helper.\<close>

definition exit_function :: "('m, 'e) abi_env \<Rightarrow> nat \<Rightarrow> sfptr \<Rightarrow> ('m, 'e) process \<Rightarrow> ('m, 'e) process option" where
  "exit_function e t a pr = do {
     (r, s) \<leftarrow> fake_sync e (P (glob pr)) a (mem pr);
     cilk_assert (r = Returned);
     s \<leftarrow> fake_pop_frame a s;
     (r, pr) \<leftarrow> (if flags (sfh s a) \<noteq> CILK_FAKE_VERSION_FLAG then leave_frame e t a (pr\<lparr>mem := s\<rparr>)
                 else Some (Returned, pr\<lparr>mem := s\<rparr>));
     cilk_assert (r = Returned);
     Some pr }"

definition leave_helper :: "('m, 'e) abi_env \<Rightarrow> nat \<Rightarrow> sfptr \<Rightarrow> ('m, 'e) process \<Rightarrow> ('m, 'e) process option" where
  "leave_helper e t h pr = do {
     s \<leftarrow> fake_pop_frame h (mem pr);
     (r, pr) \<leftarrow> leave_frame e t h (pr\<lparr>mem := s\<rparr>);
     cilk_assert (r = Returned);
     Some pr }"

definition sync_function :: "('m, 'e) abi_env \<Rightarrow> sfptr \<Rightarrow> ('m, 'e) process \<Rightarrow> ('m, 'e) process option" where
  "sync_function e a pr = do {
     (r, s) \<leftarrow> fake_sync e (P (glob pr)) a (mem pr);
     cilk_assert (r = Returned);
     Some (pr\<lparr>mem := s\<rparr>) }"

fun run_task :: "('m, 'e) abi_env \<Rightarrow> nat \<Rightarrow> nat \<Rightarrow> wptr \<Rightarrow> sfptr \<Rightarrow> task \<Rightarrow> ('m, 'e) process
    \<Rightarrow> (64 word list list \<times> ('m, 'e) process) option"
and run_items :: "('m, 'e) abi_env \<Rightarrow> nat \<Rightarrow> nat \<Rightarrow> wptr \<Rightarrow> sfptr \<Rightarrow> item list \<Rightarrow> ('m, 'e) process
    \<Rightarrow> (64 word list list \<times> ('m, 'e) process) option" where
  "run_task e n t w a (Task cs) pr = do {
     let start = walk n pr (Some (Ped_worker w));
     let pr = upd_mem (fake_enter_frame_fast a w) pr;
     (log, pr) \<leftarrow> run_items e n t w a cs pr;
     pr \<leftarrow> exit_function e t a pr;
     Some (start # log, pr) }"
| "run_items e n t w a [] pr = Some ([], pr)"
| "run_items e n t w a (Spawn c # cs) pr = do {
     s \<leftarrow> fake_detach (a + 1) (fake_helper_enter_frame (a + 1) a (mem pr));
     (log1, pr) \<leftarrow> run_task e n t w (a + 2) c (pr\<lparr>mem := s\<rparr>);
     pr \<leftarrow> leave_helper e t (a + 1) pr;
     (log2, pr) \<leftarrow> run_items e n t w a cs pr;
     Some (log1 @ log2, pr) }"
| "run_items e n t w a (Call c # cs) pr = do {
     (log1, pr) \<leftarrow> run_task e n t w (a + 1) c pr;
     (log2, pr) \<leftarrow> run_items e n t w a cs pr;
     Some (log1 @ log2, pr) }"
| "run_items e n t w a (Sync # cs) pr = do {
     pr \<leftarrow> sync_function e a pr;
     run_items e n t w a cs pr }"

text \<open>
  By how much a task advances the rank: one per spawn and per sync, its own implicit one
  included. The pedigrees a serial execution should record: a rank counts the spawns and syncs
  passed so far, those of called functions included.
\<close>

fun advance :: "task \<Rightarrow> nat" and advances :: "item list \<Rightarrow> nat" where
  "advance (Task cs) = Suc (advances cs)"
| "advances [] = 0"
| "advances (Spawn c # cs) = Suc (advances cs)"
| "advances (Call c # cs) = advance c + advances cs"
| "advances (Sync # cs) = Suc (advances cs)"

fun peds :: "64 word \<Rightarrow> 64 word list \<Rightarrow> task \<Rightarrow> 64 word list list"
and peds_items :: "64 word \<Rightarrow> 64 word list \<Rightarrow> item list \<Rightarrow> 64 word list list" where
  "peds r rs (Task cs) = (r # rs) # peds_items r rs cs"
| "peds_items r rs [] = []"
| "peds_items r rs (Spawn c # cs) = peds 0 (r # rs) c @ peds_items (r + 1) rs cs"
| "peds_items r rs (Call c # cs) = peds r rs c @ peds_items (r + of_nat (advance c)) rs cs"
| "peds_items r rs (Sync # cs) = peds_items (r + 1) rs cs"

text \<open>The deepest nesting of spawns, which is the number of slots of the deque a task needs, and one more.\<close>

fun depth :: "task \<Rightarrow> nat" and depths :: "item list \<Rightarrow> nat" where
  "depth (Task cs) = Suc (depths cs)"
| "depths [] = 0"
| "depths (Spawn c # cs) = max (depth c) (depths cs)"
| "depths (Call c # cs) = max (depth c - 1) (depths cs)"
| "depths (Sync # cs) = depths cs"

lemma depth_pos [simp]: "0 < depth tk"
  by (cases tk) simp

subsection \<open>What a serial stretch leaves alone\<close>

text \<open>\<open>quiet a w pr pr'\<close>: only frames from \<open>a\<close> on, dead deque slots and the pedigree of \<open>w\<close> may have changed.\<close>

definition changed :: "wptr \<Rightarrow> (sfptr \<Rightarrow> stack_frame) \<Rightarrow> (nat \<Rightarrow> sfptr option) \<Rightarrow> pedigree \<Rightarrow> ('m, 'e) process \<Rightarrow> ('m, 'e) process" where
  "changed w h dq v pr = pr\<lparr>mem := (mem pr)\<lparr>sfh := h, wkh := (wkh (mem pr))(w := (wkh (mem pr) w)\<lparr>ltq_slot := dq, w_pedigree := v\<rparr>)\<rparr>\<rparr>"

definition quiet :: "sfptr \<Rightarrow> wptr \<Rightarrow> ('m, 'e) process \<Rightarrow> ('m, 'e) process \<Rightarrow> bool" where
  "quiet a w pr pr' \<longleftrightarrow> (\<exists>h dq v. pr' = changed w h dq v pr \<and> (\<forall>p<a. h p = sfh (mem pr) p) \<and>
     (\<forall>i<tail (wkh (mem pr) w). dq i = ltq_slot (wkh (mem pr) w) i))"

fun ped_chain :: "('m, 'e) process \<Rightarrow> sfptr \<Rightarrow> wptr \<Rightarrow> pedptr option \<Rightarrow> 64 word list \<Rightarrow> bool" where
  "ped_chain pr a w None xs = (xs = [])"
| "ped_chain pr a w (Some p) [] = False"
| "ped_chain pr a w (Some p) (x # xs) =
     (rank (read_pedigree pr p) = x \<and> (case p of Ped_sf q \<Rightarrow> q < a | Ped_worker v \<Rightarrow> v \<noteq> w | Ped_thread _ \<Rightarrow> True) \<and>
      ped_chain pr a w (ped_parent (read_pedigree pr p)) xs)"

lemma changed_simps [simp]:
  "mem (changed w h dq v pr) = (mem pr)\<lparr>sfh := h, wkh := (wkh (mem pr))(w := (wkh (mem pr) w)\<lparr>ltq_slot := dq, w_pedigree := v\<rparr>)\<rparr>"
  "glob (changed w h dq v pr) = glob pr" "ped_nodes (changed w h dq v pr) = ped_nodes pr"
  "changed w h dq v (changed w h' dq' v' pr) = changed w h dq v pr"
  by (simp_all add: changed_def)

lemma fun_upd_cong: "x = y \<Longrightarrow> f(a := x) = f(a := y)"
  by simp

lemma quiet_refl [simp]: "quiet a w pr pr"
  by (auto simp: quiet_def changed_def intro!: exI [of _ "sfh (mem pr)"] exI [of _ "ltq_slot (wkh (mem pr) w)"]
      exI [of _ "w_pedigree (wkh (mem pr) w)"] process.equality rts.equality)

lemma quietI:
  "pr' = changed w h dq v pr \<Longrightarrow> (\<And>p. p < a \<Longrightarrow> h p = sfh (mem pr) p) \<Longrightarrow>
    (\<And>i. i < tail (wkh (mem pr) w) \<Longrightarrow> dq i = ltq_slot (wkh (mem pr) w) i) \<Longrightarrow> quiet a w pr pr'"
  unfolding quiet_def by blast

lemma quiet_trans:
  assumes "quiet a w pr pr'" and "quiet b w pr' pr''" and "a \<le> b"
  shows "quiet a w pr pr''"
proof -
  obtain h dq v where 1: "pr' = changed w h dq v pr" "\<forall>p<a. h p = sfh (mem pr) p"
    "\<forall>i<tail (wkh (mem pr) w). dq i = ltq_slot (wkh (mem pr) w) i"
    using assms(1) unfolding quiet_def by blast
  obtain h' dq' v' where 2: "pr'' = changed w h' dq' v' pr'" "\<forall>p<b. h' p = sfh (mem pr') p"
    "\<forall>i<tail (wkh (mem pr') w). dq' i = ltq_slot (wkh (mem pr') w) i"
    using assms(2) unfolding quiet_def by blast
  show ?thesis
    by (rule quietI [of _ _ h' dq' v']) (use 1 2 assms(3) in simp_all)
qed

lemma quietD:
  assumes "quiet a w pr pr'"
  shows "\<And>p. p < a \<Longrightarrow> sfh (mem pr') p = sfh (mem pr) p" and "tail (wkh (mem pr') w) = tail (wkh (mem pr) w)"
    and "exc (wkh (mem pr') w) = exc (wkh (mem pr) w)" and "glob pr' = glob pr"
    and "current_stack_frame (wkh (mem pr') w) = current_stack_frame (wkh (mem pr) w)"
    and "ltq_limit (wkh (mem pr') w) = ltq_limit (wkh (mem pr) w)"
  using assms by (auto simp: quiet_def)

lemma ped_chain_mono: "ped_chain pr a w p xs \<Longrightarrow> a \<le> b \<Longrightarrow> ped_chain pr b w p xs"
  by (induction pr a w p xs rule: ped_chain.induct) (auto split: pedptr.splits)

lemma ped_chain_cong:
  assumes "\<And>q. q < a \<Longrightarrow> sf_pedigree (sfh (mem pr') q) = sf_pedigree (sfh (mem pr) q)"
    and "\<And>v. v \<noteq> w \<Longrightarrow> w_pedigree (wkh (mem pr') v) = w_pedigree (wkh (mem pr) v)" and "ped_nodes pr' = ped_nodes pr"
  shows "ped_chain pr a w p xs \<Longrightarrow> ped_chain pr' a w p xs"
proof (induction xs arbitrary: p)
  case Nil
  then show ?case by (cases p) auto
next
  case (Cons x xs)
  then obtain q where q: "p = Some q" by (cases p) auto
  have "read_pedigree pr' q = read_pedigree pr q"
    using assms Cons.prems q by (cases q) auto
  then show ?case using Cons q by auto
qed

lemma walk_chain: "ped_chain pr a w p xs \<Longrightarrow> length xs \<le> n \<Longrightarrow> walk n pr p = xs"
proof (induction n arbitrary: p xs)
  case (Suc n)
  then show ?case by (cases p; cases xs) auto
qed simp

subsection \<open>One spawn and one function frame\<close>

lemma version_flag_facts:
  "\<not> has_flag CILK_FAKE_VERSION_FLAG CILK_FRAME_UNSYNCHED"
  "has_flag (set_flag CILK_FAKE_VERSION_FLAG CILK_FRAME_DETACHED) CILK_FRAME_DETACHED"
  "\<not> has_flag (set_flag CILK_FAKE_VERSION_FLAG CILK_FRAME_DETACHED) CILK_FRAME_EXCEPTING"
  "clear_flag (set_flag CILK_FAKE_VERSION_FLAG CILK_FRAME_DETACHED) CILK_FRAME_DETACHED = CILK_FAKE_VERSION_FLAG"
  "\<not> has_flag CILK_FAKE_VERSION_FLAG CILK_FRAME_FLAGS_MASK"
  "CILK_FRAME_VERSION_VALUE CILK_FAKE_VERSION_FLAG = 1"
  by (simp_all add: has_flag_def set_flag_def clear_flag_def CILK_FAKE_VERSION_FLAG_def CILK_FRAME_VERSION_VALUE_def frame_flag_defs)

text \<open>The frame \<open>a\<close> of a function that runs on \<open>w\<close>.\<close>

definition in_function :: "sfptr \<Rightarrow> wptr \<Rightarrow> ('m, 'e) process \<Rightarrow> bool" where
  "in_function a w pr \<longleftrightarrow> sf_worker (sfh (mem pr) a) = Some w \<and> flags (sfh (mem pr) a) = CILK_FAKE_VERSION_FLAG \<and>
     current_stack_frame (wkh (mem pr) w) = Some a \<and> exc (wkh (mem pr) w) \<le> tail (wkh (mem pr) w)"

text \<open>The state after a detach: helper frame, parent's saved pedigree, one more slot.\<close>

definition detached :: "sfptr \<Rightarrow> wptr \<Rightarrow> ('m, 'e) rts \<Rightarrow> ('m, 'e) rts" where
  "detached a w s = (let k = wkh s w in
     s\<lparr>sfh := (sfh s)(a := (sfh s a)\<lparr>sf_pedigree := w_pedigree k\<rparr>,
        a + 1 := (sfh s (a + 1))\<lparr>sf_worker := Some w, call_parent := Some a, sf_pedigree := w_pedigree k,
           flags := set_flag CILK_FAKE_VERSION_FLAG CILK_FRAME_DETACHED\<rparr>),
       wkh := (wkh s)(w := k\<lparr>current_stack_frame := Some (a + 1), w_pedigree := \<lparr>rank = 0, ped_parent = Some (Ped_sf (a + 1))\<rparr>,
          ltq_slot := (ltq_slot k)(tail k := Some a), tail := tail k + 1\<rparr>)\<rparr>)"

lemma fake_detach_run:
  assumes "in_function a w pr" and "tail (wkh (mem pr) w) < ltq_limit (wkh (mem pr) w)"
  shows "fake_detach (a + 1) (fake_helper_enter_frame (a + 1) a (mem pr)) = Some (detached a w (mem pr))"
  using assms
  by (auto simp: in_function_def fake_detach_def fake_helper_enter_frame_def fake_enter_frame_fast_def Let_def detached_def
      detach_publish_def detach_store_def fun_upd_twist intro!: rts.equality worker.equality stack_frame.equality)

lemma leave_helper_run:
  assumes "sfh (mem pr) h = f" and "sf_worker f = Some w" and "flags f = set_flag CILK_FAKE_VERSION_FLAG CILK_FRAME_DETACHED"
    and "exc (wkh (mem pr) w) \<le> tail (wkh (mem pr) w) - 1"
  shows "Option.bind (fake_pop_frame h (mem pr)) (\<lambda>s. leave_frame e t h (pr\<lparr>mem := s\<rparr>)) =
     Some (Returned, pr\<lparr>mem := (mem pr)\<lparr>sfh := (sfh (mem pr))(h := f\<lparr>call_parent := None, flags := CILK_FAKE_VERSION_FLAG\<rparr>),
       wkh := (wkh (mem pr))(w := (wkh (mem pr) w)\<lparr>current_stack_frame := call_parent f, tail := tail (wkh (mem pr) w) - 1,
         w_pedigree := \<lparr>rank = rank (sf_pedigree f) + 1, ped_parent = ped_parent (sf_pedigree f)\<rparr>\<rparr>)\<rparr>\<rparr>)"
  using assms
  by (simp add: fake_pop_frame_def leave_frame_def Let_def undo_detach_def undo_detach_dec_def undo_detach_failed_def version_flag_facts
      update_pedigree_on_leave_frame_def)

lemma function_exit_run:
  assumes "in_function a w pr"
  shows "fake_sync e p a (mem pr) = Some (Returned, (mem pr)\<lparr>wkh := (wkh (mem pr))(w := (wkh (mem pr) w)\<lparr>w_pedigree :=
       (w_pedigree (wkh (mem pr) w))\<lparr>rank := rank (w_pedigree (wkh (mem pr) w)) + 1\<rparr>\<rparr>)\<rparr>)"
  using assms by (simp add: fake_sync_def in_function_def version_flag_facts upd_wk_def)

text \<open>A function whose body is quiet and leaves its frame in place returns.\<close>

lemma enter_run:
  "fake_enter_frame_fast a w s = s\<lparr>sfh := (sfh s)(a := (sfh s a)\<lparr>call_parent := current_stack_frame (wkh s w),
      sf_worker := Some w, flags := CILK_FAKE_VERSION_FLAG\<rparr>), wkh := (wkh s)(w := (wkh s w)\<lparr>current_stack_frame := Some a\<rparr>)\<rparr>"
  by (simp add: fake_enter_frame_fast_def Let_def upd_sf_def upd_wk_def)

lemma enter_in_function: "exc (wkh (mem pr) w) \<le> tail (wkh (mem pr) w) \<Longrightarrow> in_function a w (upd_mem (fake_enter_frame_fast a w) pr)"
  by (simp add: in_function_def enter_run)

lemma enter_chain: "ped_chain pr a w p rs \<Longrightarrow> ped_chain (upd_mem (fake_enter_frame_fast a w) pr) a w p rs"
  by (rule ped_chain_cong [where pr = pr]) (simp_all add: enter_run)

lemma function_returns:
  assumes pr1: "pr1 = upd_mem (fake_enter_frame_fast a w) pr" and q2: "quiet a w pr1 pr2" and f2: "in_function a w pr2"
    and p2: "call_parent (sfh (mem pr2) a) = call_parent (sfh (mem pr1) a)"
  obtains pr3 where "exit_function e t a pr2 = Some pr3" "quiet a w pr pr3"
    "w_pedigree (wkh (mem pr3) w) = (w_pedigree (wkh (mem pr2) w))\<lparr>rank := rank (w_pedigree (wkh (mem pr2) w)) + 1\<rparr>"
proof -
  let ?k = "wkh (mem pr) w"
  have m1: "mem pr1 = (mem pr)\<lparr>sfh := (sfh (mem pr))(a := (sfh (mem pr) a)\<lparr>call_parent := current_stack_frame ?k,
      sf_worker := Some w, flags := CILK_FAKE_VERSION_FLAG\<rparr>), wkh := (wkh (mem pr))(w := ?k\<lparr>current_stack_frame := Some a\<rparr>)\<rparr>"
    by (simp add: pr1 enter_run)
  obtain h dq v where q: "pr2 = changed w h dq v pr1" "\<forall>p<a. h p = sfh (mem pr1) p"
    "\<forall>i<tail (wkh (mem pr1) w). dq i = ltq_slot (wkh (mem pr1) w) i"
    using q2 unfolding quiet_def by blast
  define pr3 where "pr3 = changed w (h(a := (h a)\<lparr>call_parent := None\<rparr>)) dq (v\<lparr>rank := rank v + 1\<rparr>) pr"
  have ha: "sf_worker (h a) = Some w" "flags (h a) = CILK_FAKE_VERSION_FLAG" "call_parent (h a) = current_stack_frame ?k"
    using f2 p2 q by (simp_all add: in_function_def m1)
  have "fake_pop_frame a ((mem pr2)\<lparr>wkh := (wkh (mem pr2))(w := (wkh (mem pr2) w)\<lparr>w_pedigree :=
       (w_pedigree (wkh (mem pr2) w))\<lparr>rank := rank (w_pedigree (wkh (mem pr2) w)) + 1\<rparr>\<rparr>)\<rparr>) = Some (mem pr3)"
    using ha by (simp add: fake_pop_frame_def q pr3_def m1 upd_wk_def upd_sf_def)
  moreover have "pr2\<lparr>mem := mem pr3\<rparr> = pr3"
    by (simp add: pr3_def q changed_def pr1 upd_mem_def)
  moreover have "flags (sfh (mem pr3) a) = CILK_FAKE_VERSION_FLAG" using ha by (simp add: pr3_def)
  ultimately have "exit_function e t a pr2 = Some pr3" using function_exit_run [OF f2] by (simp add: exit_function_def)
  moreover have "quiet a w pr pr3"
    unfolding pr3_def by (rule quietI [OF refl]) (use q in \<open>simp_all add: m1\<close>)
  ultimately show thesis using that q by (simp add: pr3_def m1)
qed

text \<open>A spawn whose callee is quiet returns to the spawning function.\<close>

lemma detached_chain:
  assumes "ped_chain pr a w p rs" shows "ped_chain (pr\<lparr>mem := detached a w (mem pr)\<rparr>) (a + 2) w p rs"
  by (rule ped_chain_mono [OF ped_chain_cong [OF _ _ _ assms]]) (simp_all add: detached_def Let_def)

lemma detached_worker: "wkh (detached a w s) w = (wkh s w)\<lparr>current_stack_frame := Some (a + 1), w_pedigree := \<lparr>rank = 0, ped_parent = Some (Ped_sf (a + 1))\<rparr>,
      ltq_slot := (ltq_slot (wkh s w))(tail (wkh s w) := Some a), tail := tail (wkh s w) + 1\<rparr>"
  by (simp add: detached_def Let_def)

lemma helper_returns:
  assumes f: "in_function a w pr" and pr1: "pr1 = pr\<lparr>mem := detached a w (mem pr)\<rparr>" and q2: "quiet (a + 2) w pr1 pr2"
  obtains pr3 where "leave_helper e t (a + 1) pr2 = Some pr3" "quiet a w pr pr3" "in_function a w pr3"
    "call_parent (sfh (mem pr3) a) = call_parent (sfh (mem pr) a)"
    "w_pedigree (wkh (mem pr3) w) = (w_pedigree (wkh (mem pr) w))\<lparr>rank := rank (w_pedigree (wkh (mem pr) w)) + 1\<rparr>"
proof -
  let ?k = "wkh (mem pr) w" and ?h = "a + 1"
  have fa: "sf_worker (sfh (mem pr) a) = Some w" "flags (sfh (mem pr) a) = CILK_FAKE_VERSION_FLAG"
    "current_stack_frame ?k = Some a" "exc ?k \<le> tail ?k"
    using f by (simp_all add: in_function_def)
  have k1: "wkh (mem pr1) w = ?k\<lparr>current_stack_frame := Some ?h, w_pedigree := \<lparr>rank = 0, ped_parent = Some (Ped_sf ?h)\<rparr>,
      ltq_slot := (ltq_slot ?k)(tail ?k := Some a), tail := tail ?k + 1\<rparr>"
    by (simp add: pr1 detached_worker)
  obtain h dq v where q: "pr2 = changed w h dq v pr1" "\<forall>p<a + 2. h p = sfh (mem pr1) p"
    "\<forall>i<tail (wkh (mem pr1) w). dq i = ltq_slot (wkh (mem pr1) w) i"
    using q2 unfolding quiet_def by blast
  have hh: "h ?h = (sfh (mem pr) ?h)\<lparr>sf_worker := Some w, call_parent := Some a, sf_pedigree := w_pedigree ?k,
      flags := set_flag CILK_FAKE_VERSION_FLAG CILK_FRAME_DETACHED\<rparr>"
    and ha: "h a = (sfh (mem pr) a)\<lparr>sf_pedigree := w_pedigree ?k\<rparr>"
    using q(2) by (simp_all add: pr1 detached_def Let_def)
  define pr3 where "pr3 = changed w (h(?h := (h ?h)\<lparr>call_parent := None, flags := CILK_FAKE_VERSION_FLAG\<rparr>)) dq
      ((w_pedigree ?k)\<lparr>rank := rank (w_pedigree ?k) + 1\<rparr>) pr"
  have h2: "sfh (mem pr2) ?h = h ?h" and e2: "exc (wkh (mem pr2) w) \<le> tail (wkh (mem pr2) w) - 1"
    using fa by (simp_all add: q k1)
  have "Option.bind (fake_pop_frame ?h (mem pr2)) (\<lambda>s. leave_frame e t ?h (pr2\<lparr>mem := s\<rparr>)) = Some (Returned, pr3)"
  proof (rule trans [OF leave_helper_run [OF h2 _ _ e2]])
    show "Some (Returned, pr2\<lparr>mem := (mem pr2)\<lparr>sfh := (sfh (mem pr2))(?h := (h ?h)\<lparr>call_parent := None, flags := CILK_FAKE_VERSION_FLAG\<rparr>),
         wkh := (wkh (mem pr2))(w := (wkh (mem pr2) w)\<lparr>current_stack_frame := call_parent (h ?h), tail := tail (wkh (mem pr2) w) - 1,
         w_pedigree := \<lparr>rank = rank (sf_pedigree (h ?h)) + 1, ped_parent = ped_parent (sf_pedigree (h ?h))\<rparr>\<rparr>)\<rparr>\<rparr>) = Some (Returned, pr3)"
      using fa by (auto simp: q pr3_def hh pr1 detached_def Let_def changed_def
          intro!: process.equality rts.equality fun_upd_cong worker.equality pedigree.equality)
  qed (unfold hh, simp_all)
  then have "leave_helper e t ?h pr2 = Some pr3" by (auto simp: leave_helper_def elim: bind_Some_elim)
  moreover have "quiet a w pr pr3"
    unfolding pr3_def by (rule quietI [OF refl]) (use q in \<open>simp_all add: k1 pr1 detached_def Let_def\<close>)
  moreover have "in_function a w pr3" using fa by (simp add: in_function_def pr3_def ha)
  ultimately show thesis using that by (simp add: pr3_def ha)
qed

lemma quiet_chain: "quiet a w pr pr' \<Longrightarrow> ped_chain pr a w p rs \<Longrightarrow> ped_chain pr' a w p rs"
  by (rule ped_chain_cong [where pr = pr]) (auto simp: quiet_def)

text \<open>A call and a sync leave the function they are in.\<close>

lemma called_returns:
  assumes "in_function a w pr" and "quiet (a + 1) w pr pr'"
  shows "quiet a w pr pr'" "in_function a w pr'" "call_parent (sfh (mem pr') a) = call_parent (sfh (mem pr) a)"
  using assms quietD [OF assms(2)] quiet_trans [OF quiet_refl assms(2), of a] by (simp_all add: in_function_def)

lemma sync_returns:
  assumes f: "in_function a w pr"
  obtains pr' where "sync_function e a pr = Some pr'" "quiet a w pr pr'" "in_function a w pr'"
    "call_parent (sfh (mem pr') a) = call_parent (sfh (mem pr) a)"
    "w_pedigree (wkh (mem pr') w) = (w_pedigree (wkh (mem pr) w))\<lparr>rank := rank (w_pedigree (wkh (mem pr) w)) + 1\<rparr>"
proof -
  let ?k = "wkh (mem pr) w"
  define pr' where "pr' = changed w (sfh (mem pr)) (ltq_slot ?k) ((w_pedigree ?k)\<lparr>rank := rank (w_pedigree ?k) + 1\<rparr>) pr"
  have "sync_function e a pr = Some pr'"
    using function_exit_run [OF f] by (simp add: sync_function_def pr'_def changed_def)
  moreover have "quiet a w pr pr'" unfolding pr'_def by (rule quietI [OF refl]) simp_all
  ultimately show thesis using that f by (simp add: in_function_def pr'_def)
qed

text \<open>What a task and a list of items do, from a state with room in the deque for their spawns.\<close>

abbreviation task_runs :: "('m, 'e) abi_env \<Rightarrow> nat \<Rightarrow> nat \<Rightarrow> wptr \<Rightarrow> sfptr \<Rightarrow> 64 word \<Rightarrow> 64 word list \<Rightarrow> task \<Rightarrow> ('m, 'e) process \<Rightarrow> bool" where
  "task_runs e n t w a r rs tk pr \<equiv> \<exists>pr'. run_task e n t w a tk pr = Some (peds r rs tk, pr') \<and> quiet a w pr pr' \<and>
     w_pedigree (wkh (mem pr') w) = (w_pedigree (wkh (mem pr) w))\<lparr>rank := r + of_nat (advance tk)\<rparr>"

abbreviation items_run :: "('m, 'e) abi_env \<Rightarrow> nat \<Rightarrow> nat \<Rightarrow> wptr \<Rightarrow> sfptr \<Rightarrow> 64 word \<Rightarrow> 64 word list \<Rightarrow> item list \<Rightarrow> ('m, 'e) process \<Rightarrow> bool" where
  "items_run e n t w a r rs cs pr \<equiv> \<exists>pr'. run_items e n t w a cs pr = Some (peds_items r rs cs, pr') \<and> quiet a w pr pr' \<and>
     in_function a w pr' \<and> call_parent (sfh (mem pr') a) = call_parent (sfh (mem pr) a) \<and>
     w_pedigree (wkh (mem pr') w) = (w_pedigree (wkh (mem pr) w))\<lparr>rank := r + of_nat (advances cs)\<rparr>"

text \<open>The rest of the items after one that returned to the function.\<close>

lemma items_rest:
  assumes q: "quiet a w pr pr3" "call_parent (sfh (mem pr3) a) = call_parent (sfh (mem pr) a)"
    and v: "w_pedigree (wkh (mem pr3) w) = (w_pedigree (wkh (mem pr) w))\<lparr>rank := r + of_nat d\<rparr>"
    and rest: "items_run e n t w a (r + of_nat d) rs cs pr3"
    and run: "\<And>pr4. run_items e n t w a cs pr3 = Some (peds_items (r + of_nat d) rs cs, pr4) \<Longrightarrow>
       run_items e n t w a (c # cs) pr = Some (peds_items r rs (c # cs), pr4)"
    and d: "advances (c # cs) = d + advances cs"
  shows "items_run e n t w a r rs (c # cs) pr"
proof -
  obtain pr4 where 4: "run_items e n t w a cs pr3 = Some (peds_items (r + of_nat d) rs cs, pr4)" "quiet a w pr3 pr4"
    "in_function a w pr4" "call_parent (sfh (mem pr4) a) = call_parent (sfh (mem pr3) a)"
    "w_pedigree (wkh (mem pr4) w) = (w_pedigree (wkh (mem pr3) w))\<lparr>rank := r + of_nat d + of_nat (advances cs)\<rparr>"
    using rest by blast
  have "w_pedigree (wkh (mem pr4) w) = (w_pedigree (wkh (mem pr) w))\<lparr>rank := r + of_nat (advances (c # cs))\<rparr>"
    using 4(5) v d by (simp add: add.assoc)
  then show ?thesis using run [OF 4(1)] quiet_trans [OF q(1) 4(2)] 4(3,4) q(2) by auto
qed

lemma task_case:
  fixes pr :: "('m, 'e) process"
  assumes items: "\<And>pr :: ('m, 'e) process. in_function a w pr \<Longrightarrow> ped_chain pr a w (ped_parent (w_pedigree (wkh (mem pr) w))) rs \<Longrightarrow>
      rank (w_pedigree (wkh (mem pr) w)) = r \<Longrightarrow> tail (wkh (mem pr) w) + depths cs \<le> ltq_limit (wkh (mem pr) w) \<Longrightarrow> items_run e n t w a r rs cs pr"
    and ex: "exc (wkh (mem pr) w) \<le> tail (wkh (mem pr) w)" and c: "ped_chain pr a w (ped_parent (w_pedigree (wkh (mem pr) w))) rs"
    and r: "rank (w_pedigree (wkh (mem pr) w)) = r" and n: "length rs + depth (Task cs) \<le> n"
    and room: "tail (wkh (mem pr) w) + depth (Task cs) \<le> Suc (ltq_limit (wkh (mem pr) w))"
  shows "task_runs e n t w a r rs (Task cs) pr"
proof -
  let ?k = "wkh (mem pr) w"
  define pr1 where "pr1 = upd_mem (fake_enter_frame_fast a w) pr"
  have w1: "w_pedigree (wkh (mem pr1) w) = w_pedigree ?k" "tail (wkh (mem pr1) w) = tail ?k" "ltq_limit (wkh (mem pr1) w) = ltq_limit ?k"
    by (simp_all add: pr1_def enter_run)
  have c1: "ped_chain pr1 a w (ped_parent (w_pedigree (wkh (mem pr1) w))) rs" using enter_chain [OF c] by (simp add: pr1_def enter_run)
  obtain pr2 where r2: "run_items e n t w a cs pr1 = Some (peds_items r rs cs, pr2)" and q2: "quiet a w pr1 pr2"
    and f2: "in_function a w pr2" and p2: "call_parent (sfh (mem pr2) a) = call_parent (sfh (mem pr1) a)"
    and v2: "w_pedigree (wkh (mem pr2) w) = (w_pedigree (wkh (mem pr1) w))\<lparr>rank := r + of_nat (advances cs)\<rparr>"
    using items [OF enter_in_function [OF ex, of a, folded pr1_def] c1] r room w1 by auto
  obtain pr3 where 3: "exit_function e t a pr2 = Some pr3" "quiet a w pr pr3"
    "w_pedigree (wkh (mem pr3) w) = (w_pedigree (wkh (mem pr2) w))\<lparr>rank := rank (w_pedigree (wkh (mem pr2) w)) + 1\<rparr>"
    by (rule function_returns [OF pr1_def q2 f2 p2])
  have "walk n pr (Some (Ped_worker w)) = r # rs"
    using walk_chain [OF c] r n by (cases n) simp_all
  then have "run_task e n t w a (Task cs) pr = Some (peds r rs (Task cs), pr3)"
    using r2 3(1) by (simp add: pr1_def [symmetric] Let_def)
  then show ?thesis using 3(2,3) v2 w1 by (simp add: add_ac)
qed

lemma spawn_case:
  fixes pr :: "('m, 'e) process"
  assumes child: "\<And>pr :: ('m, 'e) process. exc (wkh (mem pr) w) \<le> tail (wkh (mem pr) w) \<Longrightarrow>
      ped_chain pr (a + 2) w (ped_parent (w_pedigree (wkh (mem pr) w))) (r # rs) \<Longrightarrow> rank (w_pedigree (wkh (mem pr) w)) = 0 \<Longrightarrow>
      tail (wkh (mem pr) w) + depth c \<le> Suc (ltq_limit (wkh (mem pr) w)) \<Longrightarrow> task_runs e n t w (a + 2) 0 (r # rs) c pr"
    and f: "in_function a w pr" and ch: "ped_chain pr a w (ped_parent (w_pedigree (wkh (mem pr) w))) rs"
    and r: "rank (w_pedigree (wkh (mem pr) w)) = r" and room: "tail (wkh (mem pr) w) + depth c \<le> ltq_limit (wkh (mem pr) w)"
  obtains pr2 pr3 where "fake_detach (a + 1) (fake_helper_enter_frame (a + 1) a (mem pr)) = Some (detached a w (mem pr))"
    "run_task e n t w (a + 2) c (pr\<lparr>mem := detached a w (mem pr)\<rparr>) = Some (peds 0 (r # rs) c, pr2)"
    "leave_helper e t (a + 1) pr2 = Some pr3" "quiet a w pr pr3" "in_function a w pr3"
    "call_parent (sfh (mem pr3) a) = call_parent (sfh (mem pr) a)"
    "w_pedigree (wkh (mem pr3) w) = (w_pedigree (wkh (mem pr) w))\<lparr>rank := r + 1\<rparr>"
proof -
  define pr1 where "pr1 = pr\<lparr>mem := detached a w (mem pr)\<rparr>"
  have k1: "exc (wkh (mem pr1) w) \<le> tail (wkh (mem pr1) w)" "w_pedigree (wkh (mem pr1) w) = \<lparr>rank = 0, ped_parent = Some (Ped_sf (a + 1))\<rparr>"
    "tail (wkh (mem pr1) w) + depth c \<le> Suc (ltq_limit (wkh (mem pr1) w))"
    using f room by (simp_all add: pr1_def detached_worker in_function_def)
  have c1: "ped_chain pr1 (a + 2) w (ped_parent (w_pedigree (wkh (mem pr1) w))) (r # rs)"
    using detached_chain [OF ch] r k1 by (simp add: pr1_def) (simp add: detached_def Let_def)
  obtain pr2 where r2: "run_task e n t w (a + 2) c pr1 = Some (peds 0 (r # rs) c, pr2)" and q2: "quiet (a + 2) w pr1 pr2"
    using child [OF k1(1) c1 _ k1(3)] k1(2) by auto
  obtain pr3 where 3: "leave_helper e t (a + 1) pr2 = Some pr3" "quiet a w pr pr3" "in_function a w pr3"
    "call_parent (sfh (mem pr3) a) = call_parent (sfh (mem pr) a)"
    "w_pedigree (wkh (mem pr3) w) = (w_pedigree (wkh (mem pr) w))\<lparr>rank := rank (w_pedigree (wkh (mem pr) w)) + 1\<rparr>"
    by (rule helper_returns [OF f pr1_def q2])
  have "tail (wkh (mem pr) w) < ltq_limit (wkh (mem pr) w)" using room depth_pos [of c] by linarith
  from that [OF fake_detach_run [OF f this] r2 [unfolded pr1_def] 3(1-4)] 3(5) r show thesis by simp
qed

lemma serial_run:
  fixes pr :: "('m, 'e) process"
  shows "exc (wkh (mem pr) w) \<le> tail (wkh (mem pr) w) \<Longrightarrow> ped_chain pr a w (ped_parent (w_pedigree (wkh (mem pr) w))) rs \<Longrightarrow>
      rank (w_pedigree (wkh (mem pr) w)) = r \<Longrightarrow> length rs + depth tk \<le> n \<Longrightarrow>
      tail (wkh (mem pr) w) + depth tk \<le> Suc (ltq_limit (wkh (mem pr) w)) \<Longrightarrow> task_runs e n t w a r rs tk pr"
    and "in_function a w pr \<Longrightarrow> ped_chain pr a w (ped_parent (w_pedigree (wkh (mem pr) w))) rs \<Longrightarrow>
      rank (w_pedigree (wkh (mem pr) w)) = r \<Longrightarrow> length rs + depths cs < n \<Longrightarrow>
      tail (wkh (mem pr) w) + depths cs \<le> ltq_limit (wkh (mem pr) w) \<Longrightarrow> items_run e n t w a r rs cs pr"
proof (induction r rs tk and r rs cs arbitrary: a pr and a pr rule: peds_peds_items.induct)
  case (1 r rs cs)
  have "length rs + depths cs < n" using 1(5) by simp
  from task_case [OF 1(1) [OF _ _ _ this] 1(2-6)] show ?case .
next
  case (2 r rs)
  then show ?case by (intro exI [of _ pr]) (auto intro: pedigree.equality)
next
  case (3 r rs c cs)
  have n: "length (r # rs) + depth c \<le> n" "length rs + depths cs < n" using 3(6) by simp_all
  have room: "tail (wkh (mem pr) w) + depth c \<le> ltq_limit (wkh (mem pr) w)" "tail (wkh (mem pr) w) + depths cs \<le> ltq_limit (wkh (mem pr) w)"
    using 3(7) by simp_all
  obtain pr2 pr3 where s: "fake_detach (a + 1) (fake_helper_enter_frame (a + 1) a (mem pr)) = Some (detached a w (mem pr))"
    "run_task e n t w (a + 2) c (pr\<lparr>mem := detached a w (mem pr)\<rparr>) = Some (peds 0 (r # rs) c, pr2)"
    "leave_helper e t (a + 1) pr2 = Some pr3" "quiet a w pr pr3" "in_function a w pr3"
    "call_parent (sfh (mem pr3) a) = call_parent (sfh (mem pr) a)"
    "w_pedigree (wkh (mem pr3) w) = (w_pedigree (wkh (mem pr) w))\<lparr>rank := r + 1\<rparr>"
    by (rule spawn_case [OF 3(1) [OF _ _ _ n(1)] 3(3-5) room(1)])
  have rest: "items_run e n t w a (r + 1) rs cs pr3"
    using 3(2) [OF s(5) _ _ n(2)] quiet_chain [OF s(4) 3(4)] s(7) room(2) quietD [OF s(4)] by simp
  show ?case
    by (rule items_rest [where d = 1, OF s(4,6)]) (use s(1,2,3,7) rest in simp_all)
next
  case (4 r rs c cs)
  have n: "length rs + depth c \<le> n" "length rs + depths cs < n" using 4(6) by simp_all
  have room: "tail (wkh (mem pr) w) + depth c \<le> Suc (ltq_limit (wkh (mem pr) w))" "tail (wkh (mem pr) w) + depths cs \<le> ltq_limit (wkh (mem pr) w)"
    using 4(7) by simp_all
  have ex: "exc (wkh (mem pr) w) \<le> tail (wkh (mem pr) w)" using 4(3) by (simp add: in_function_def)
  obtain pr3 where 3: "run_task e n t w (a + 1) c pr = Some (peds r rs c, pr3)" "quiet (a + 1) w pr pr3"
    "w_pedigree (wkh (mem pr3) w) = (w_pedigree (wkh (mem pr) w))\<lparr>rank := r + of_nat (advance c)\<rparr>"
    using 4(1) [OF ex ped_chain_mono [OF 4(4)] 4(5) n(1) room(1), of "a + 1"] by auto
  note s = called_returns [OF 4(3) 3(2)]
  have rest: "items_run e n t w a (r + of_nat (advance c)) rs cs pr3"
    using 4(2) [OF s(2) _ _ n(2)] quiet_chain [OF s(1) 4(4)] 3(3) room(2) quietD [OF s(1)] by simp
  show ?case
    by (rule items_rest [where d = "advance c", OF s(1,3)]) (use 3(1,3) rest in simp_all)
next
  case (5 r rs cs)
  obtain pr3 where s: "sync_function e a pr = Some pr3" "quiet a w pr pr3" "in_function a w pr3"
    "call_parent (sfh (mem pr3) a) = call_parent (sfh (mem pr) a)"
    "w_pedigree (wkh (mem pr3) w) = (w_pedigree (wkh (mem pr) w))\<lparr>rank := rank (w_pedigree (wkh (mem pr) w)) + 1\<rparr>"
    by (rule sync_returns [OF 5(2)])
  have rest: "items_run e n t w a (r + 1) rs cs pr3"
    using 5(1) [OF s(3)] quiet_chain [OF s(2) 5(3)] s(5) 5(4-6) quietD [OF s(2)] by simp
  show ?case
    by (rule items_rest [where d = 1, OF s(2,4)]) (use s(1,5) 5(4) rest in simp_all)
qed

subsection \<open>Properties\<close>

text \<open>C16: spawning costs nothing that lasts. When no thief comes and the deque has room for the
  nesting of the spawns, every program of nested spawns, calls and syncs, run through the compiled
  protocol (enter, detach, undo the detach, leave, sync), returns without failing an assertion
  and leaves the memory as it was: no full frame is made, H, T, E and the frames below are
  unchanged, only dead deque slots, its own dead stack frames and the worker's pedigree differ.
  The rank has advanced by one per spawn and per sync, and each task ran under the pedigree that
  is its position in the spawn tree, so a pedigree names a strand independently of the
  schedule.\<close>

theorem serial_program_leaves_no_trace:
  assumes "exc (wkh (mem pr) w) \<le> tail (wkh (mem pr) w)"
    and "tail (wkh (mem pr) w) + depth tk \<le> ltq_limit (wkh (mem pr) w) + 1"
    and "ped_chain pr a w (ped_parent (w_pedigree (wkh (mem pr) w))) rs" and "length rs + depth tk \<le> n"
  shows "\<exists>pr'. run_task e n t w a tk pr = Some (peds (rank (w_pedigree (wkh (mem pr) w))) rs tk, pr') \<and> quiet a w pr pr' \<and>
     w_pedigree (wkh (mem pr') w) = (w_pedigree (wkh (mem pr) w))\<lparr>rank := rank (w_pedigree (wkh (mem pr) w)) + of_nat (advance tk)\<rparr>"
  using serial_run(1) [OF assms(1,3) refl assms(4)] assms(2) by simp

theorem serial_program_leaves_no_trace_witness:
  "\<exists>pr'. run_task \<lparr>exn = no_exn, reduce = (\<lambda>_ _. ()), sync_match = False, make_info = (\<lambda>_ _. ())\<rparr> 9 0 1 0
       (Task [Spawn (Task []), Sync, Call (Task [Spawn (Task [])]), Spawn (Task [Spawn (Task [])])]) user_process =
       Some ([[0], [0, 0], [2], [0, 2], [0, 4], [0, 0, 4]], pr') \<and> rank (w_pedigree (wkh (mem pr') 1)) = 6"
proof -
  let ?tk = "Task [Spawn (Task []), Sync, Call (Task [Spawn (Task [])]), Spawn (Task [Spawn (Task [])])]"
  have h: "exc (wkh (mem user_process) 1) \<le> tail (wkh (mem user_process) 1)"
    "tail (wkh (mem user_process) 1) + depth ?tk \<le> ltq_limit (wkh (mem user_process) 1) + 1"
    "ped_chain user_process 0 1 (ped_parent (w_pedigree (wkh (mem user_process) 1))) []"
    "length [] + depth ?tk \<le> 9"
    by (simp_all add: user_process_def worker_eval)
  have "rank (w_pedigree (wkh (mem user_process) 1)) = 0" by (simp add: user_process_def worker_eval)
  with serial_program_leaves_no_trace [OF h] show ?thesis by fastforce
qed

text \<open>The room is needed: a task that spawns when the deque is full stores behind its array.\<close>

lemma full_deque_no_result:
  assumes "\<not> tail (wkh (mem pr) w) < ltq_limit (wkh (mem pr) w)"
  shows "run_task e n t w a (Task (Spawn c # cs)) pr = None"
  using assms
  by (simp add: enter_run fake_detach_def fake_helper_enter_frame_def Let_def upd_sf_def)

end
