(* ===== verification/Stolen_Return.thy ===== *)
theory Stolen_Return
  imports Serial_Run
begin

section \<open>Returning to a stolen parent: the THE protocol, the reductions and the join together\<close>

text \<open>
  A spawned child finishes and finds its parent stolen. The path through the runtime crosses
  most components: the undo of the detach and the exception check, the merge of reducer maps
  and exceptions, the jump to the scheduling stack, the join counter and the release of the
  child's full frame.
\<close>

subsection \<open>The scheduling-stack function of a spawn return\<close>

definition return_ok :: "wptr \<Rightarrow> ffptr \<Rightarrow> ffptr \<Rightarrow> ('m, 'e) rts \<Rightarrow> bool" where
  "return_ok w c p s \<longleftrightarrow>
     validate_worker (wkh s w) = Some () \<and> \<not> do_not_steal (wkh s w) \<and> mutex_free (w_lock (wkh s w)) \<and>
     parent (ffh s c) = Some p \<and> p \<noteq> c \<and>
     validate_full_frame (ffh s c) = Some () \<and> mutex_free (ff_lock (ffh s c)) \<and>
     \<not> is_call_child (ffh s c) \<and> join_counter (ffh s c) = 1 \<and>
     validate_full_frame (ffh s p) = Some () \<and> mutex_free (ff_lock (ffh s p)) \<and>
     \<not> simulated_stolen (ffh s p) \<and> 1 \<le> join_counter (ffh s p) \<and>
     (join_counter (ffh s p) = 1 \<longrightarrow> fiber_self (ffh s p) = None \<and> call_stack (ffh s p) \<noteq> None \<and>
        sync_master (ffh s p) = None \<and> next_frame_ff (wkh s w) = None) \<and>
     children_reducer_map (ffh s c) = None \<and> right_reducer_map (ffh s c) = None \<and> pending_exception (ffh s c) = None \<and>
     child_pending_exception (ffh s c) = None \<and> right_pending_exception (ffh s c) = None"

text \<open>The outcome for the parent: resumed by \<open>w\<close> when nobody else is outstanding, else one strand less.\<close>

definition joined :: "wptr \<Rightarrow> ffptr \<Rightarrow> ffptr \<Rightarrow> ('m, 'e) rts \<Rightarrow> ('m, 'e) rts \<Rightarrow> bool" where
  "joined w c p s s' \<longleftrightarrow>
     wkh s' w = (wkh s w)\<lparr>w_lock := mutex_init, next_frame_ff := (if join_counter (ffh s p) = 1 then Some p else next_frame_ff (wkh s w))\<rparr> \<and>
     (\<forall>v. v \<noteq> w \<longrightarrow> wkh s' v = wkh s v) \<and> ff_freed s' = c # ff_freed s \<and>
     join_counter (ffh s' p) = (if join_counter (ffh s p) = 1 then 1 else join_counter (ffh s p) - 1) \<and>
     (join_counter (ffh s p) = 1 \<longrightarrow> fiber_self (ffh s' p) = fiber_child (ffh s p)) \<and>
     mutex_free (ff_lock (ffh s' p)) \<and>
     (\<forall>q. rightmost_child (ffh s' q) = rightmost_child (ffh s q) \<and> left_sibling (ffh s' q) = left_sibling (ffh s q) \<and>
        right_sibling (ffh s' q) = right_sibling (ffh s q) \<and> parent (ffh s' q) = parent (ffh s q) \<and>
        children_reducer_map (ffh s' q) = children_reducer_map (ffh s q) \<and> right_reducer_map (ffh s' q) = right_reducer_map (ffh s q))"

lemma pgs_either:
  assumes "1 \<le> join_counter (ffh s p)" and "join_counter (ffh s p) = 1 \<longrightarrow> fiber_self (ffh s p) = None \<and> call_stack (ffh s p) \<noteq> None \<and>
        sync_master (ffh s p) = None \<and> next_frame_ff (wkh s w) = None"
  obtains r s' where "provably_good_steal x False w p s = Some (r, s')" and "r \<noteq> WAIT_FOR_CONTINUE"
    and "wkh s' w = (wkh s w)\<lparr>next_frame_ff := (if join_counter (ffh s p) = 1 then Some p else next_frame_ff (wkh s w))\<rparr>"
    and "\<And>v. v \<noteq> w \<Longrightarrow> wkh s' v = wkh s v" and "\<And>q. q \<noteq> p \<Longrightarrow> ffh s' q = ffh s q"
    and "ffh s' p = (if join_counter (ffh s p) = 1 then synched_frame x (ffh s p) else (ffh s p)\<lparr>join_counter := join_counter (ffh s p) - 1\<rparr>)"
    and "ff_freed s' = ff_freed s"
proof (cases "join_counter (ffh s p) = 1")
  case True
  then obtain sf where "call_stack (ffh s p) = Some sf" using assms(2) by auto
  from pgs_last [OF True _ this, of w x]
  have "provably_good_steal x False w p s = Some (CONTINUE_EXECUTION, upd_wk w (\<lambda>k. k\<lparr>next_frame_ff := Some p\<rparr>)
      (upd_ff p (synched_frame x) (upd_sf sf (\<lambda>f. f\<lparr>flags := clear_flag (flags f) CILK_FRAME_UNSYNCHED\<rparr>) s)))"
    using True assms(2) by simp
  then show ?thesis by (rule that) (simp_all add: True)
next
  case False
  then have "1 < join_counter (ffh s p)" using assms(1) by simp
  from pgs_abandon [OF this, of x w] show ?thesis by (rule that) (simp_all add: False)
qed

lemma do_return_run:
  assumes "return_ok w c p s"
  obtains r s' where "do_return_from_spawn x False w c None s = Some (r, s')" and "joined w c p s s'"
proof -
  let ?L = "\<lparr>mx_lock = 1, mx_owner = Some w\<rparr>"
  note A = assms [unfolded return_ok_def]
  define s1 where "s1 = upd_wk w (\<lambda>k. k\<lparr>do_not_steal := True, w_lock := ?L\<rparr>) s"
  have r1: "lock_worker w s = Some s1" unfolding s1_def by (rule lock_worker_free) (use A in auto)
  define s2 where "s2 = upd_ff c (\<lambda>f. f\<lparr>ff_lock := ?L\<rparr>) s1"
  have r2: "frame_lock w c s1 = Some s2" unfolding s2_def by (rule frame_lock_free) (use A in \<open>auto simp: s1_def\<close>)
  define s3 where "s3 = upd_ff c (\<lambda>f. f\<lparr>join_counter := join_counter f - 1\<rparr>) s2"
  have r3: "decjoin c s2 = Some (0, s3)" using A by (simp add: decjoin_def s3_def s2_def s1_def Let_def)
  define s4 where "s4 = upd_ff c (\<lambda>f. f\<lparr>ff_lock := mutex_init\<rparr>) s3"
  have r4: "frame_unlock w c s3 = Some s4" unfolding s4_def by (rule frame_unlock_own) (simp add: s3_def s2_def)
  define s5 where "s5 = upd_ff p (\<lambda>f. f\<lparr>ff_lock := ?L\<rparr>) s4"
  have r5: "frame_lock w p s4 = Some s5"
    unfolding s5_def by (rule frame_lock_free) (use A in \<open>auto simp: s4_def s3_def s2_def s1_def\<close>)
  have p5: "ffh s5 p = (ffh s p)\<lparr>ff_lock := ?L\<rparr>" and c5: "ffh s5 c = (ffh s c)\<lparr>join_counter := 0, ff_lock := mutex_init\<rparr>"
    and o5: "q \<noteq> c \<Longrightarrow> q \<noteq> p \<Longrightarrow> ffh s5 q = ffh s q" and w5: "wkh s5 w = (wkh s w)\<lparr>do_not_steal := True, w_lock := ?L\<rparr>"
    and v5: "v \<noteq> w \<Longrightarrow> wkh s5 v = wkh s v" and fr5: "ff_freed s5 = ff_freed s" for q v
    using A by (simp_all add: s5_def s4_def s3_def s2_def s1_def)
  obtain r s6 where r6: "provably_good_steal x False w p s5 = Some (r, s6)" "r \<noteq> WAIT_FOR_CONTINUE"
    and w6: "wkh s6 w = (wkh s5 w)\<lparr>next_frame_ff := (if join_counter (ffh s5 p) = 1 then Some p else next_frame_ff (wkh s5 w))\<rparr>"
    and v6: "\<And>v. v \<noteq> w \<Longrightarrow> wkh s6 v = wkh s5 v" and o6: "\<And>q. q \<noteq> p \<Longrightarrow> ffh s6 q = ffh s5 q"
    and p6: "ffh s6 p = (if join_counter (ffh s5 p) = 1 then synched_frame x (ffh s5 p) else (ffh s5 p)\<lparr>join_counter := join_counter (ffh s5 p) - 1\<rparr>)"
    and fr6: "ff_freed s6 = ff_freed s5"
    by (rule pgs_either [of s5 p w x]) (use A in \<open>auto simp: p5 w5\<close>)
  define s7 where "s7 = upd_ff p (\<lambda>f. f\<lparr>ff_lock := mutex_init\<rparr>) s6"
  have r7: "frame_unlock w p s6 = Some s7" unfolding s7_def by (rule frame_unlock_own) (simp add: p6 p5 synched_frame_def)
  define s8 where "s8 = upd_wk w (\<lambda>k. k\<lparr>w_lock := mutex_init, do_not_steal := False\<rparr>) s7"
  have r8: "unlock_worker w s7 = Some s8" unfolding s8_def by (rule unlock_worker_own) (simp_all add: s7_def w6 w5)
  define s9 where "s9 = (upd_ff c (\<lambda>f. f\<lparr>ff_lock := mutex_destroy (ff_lock f)\<rparr>) s8)\<lparr>ff_freed := c # ff_freed s8\<rparr>"
  have c8: "ffh s8 c = (ffh s c)\<lparr>join_counter := 0, ff_lock := mutex_init\<rparr>" using A by (simp add: s8_def s7_def o6 c5)
  have r9: "destroy_full_frame c s8 = Some s9"
    using A by (simp add: destroy_full_frame_def c8 s9_def validate_full_frame_def split: if_splits)
  have "do_return_from_spawn x False w c None s = Some (r, s9)"
    using r1 r2 r3 r4 r5 r6 r7 r8 r9 A
    by (simp add: do_return_from_spawn_def s1_def [symmetric]) (simp add: s5_def s4_def s3_def s2_def s1_def p5)
  moreover have "joined w c p s s9"
  proof -
    have p9: "ffh s9 p = (ffh s6 p)\<lparr>ff_lock := mutex_init\<rparr>" and c9: "ffh s9 c = (ffh s c)\<lparr>join_counter := 0, ff_lock := mutex_init\<rparr>"
      and o9: "q \<noteq> c \<Longrightarrow> q \<noteq> p \<Longrightarrow> ffh s9 q = ffh s q"
      and w9: "wkh s9 w = (wkh s w)\<lparr>w_lock := mutex_init, next_frame_ff := (if join_counter (ffh s p) = 1 then Some p else next_frame_ff (wkh s w))\<rparr>"
      and v9: "v \<noteq> w \<Longrightarrow> wkh s9 v = wkh s v" for q v
      using A by (simp_all add: s9_def c8 mutex_destroy_def) (simp_all add: s8_def s7_def o6 o5 w6 w5 v6 v5 p5)
    have same: "rightmost_child (ffh s9 q) = rightmost_child (ffh s q) \<and> left_sibling (ffh s9 q) = left_sibling (ffh s q) \<and>
        right_sibling (ffh s9 q) = right_sibling (ffh s q) \<and> parent (ffh s9 q) = parent (ffh s q) \<and>
        children_reducer_map (ffh s9 q) = children_reducer_map (ffh s q) \<and> right_reducer_map (ffh s9 q) = right_reducer_map (ffh s q)" for q
      by (cases "q = c"; cases "q = p") (simp_all add: p9 c9 o9 p6 p5 synched_frame_def)
    show ?thesis
      unfolding joined_def
      by (simp add: w9 v9 same) (simp add: p9 p6 p5 synched_frame_def mutex_init_def mutex_destroy_def s9_def s8_def s7_def fr6 fr5)
  qed
  ultimately show ?thesis by (rule that)
qed

subsection \<open>The reductions of one return, with everything the rest of the path needs\<close>

lemma return_one_full:
  assumes mu: "reduce_assoc mu" and fam: "family wk p cs s" and c: "c \<in> set cs"
  obtains s' where "execute_reductions_for_spawn_return mu x (wk c) c sf s = Some s'"
    and "children (ffh s') p (remove1 c cs)" and "product mu (view_seq wk p (remove1 c cs) s') = product mu (view_seq wk p cs s)"
    and "spawn_return_keeps (wk c) c p sf s s'" and "\<And>v. v \<noteq> wk c \<Longrightarrow> wkh s' v = wkh s v"
    and "right_reducer_map (ffh s' c) = None" and "children_reducer_map (ffh s' c) = children_reducer_map (ffh s c)"
    and "fiber_self (ffh s' p) = fiber_self (ffh s p)" and "validate_full_frame (ffh s' p) = Some ()" and "mutex_free (ff_lock (ffh s' p))"
    and "fiber_to_free (wkh s' (wk c)) = None \<longrightarrow> fiber_child (ffh s' p) \<noteq> None"
proof -
  obtain xs ys where cs: "cs = xs @ c # ys" and cx: "c \<notin> set xs" using c by (meson split_list_first)
  define left where "left = (case last_opt xs of Some l \<Rightarrow> Right_of l | None \<Rightarrow> Children_of p)"
  have ch: "children (ffh s) p (xs @ c # ys)" using fam cs by (simp add: family_def)
  have l: "compute_left_ptrs_for_spawn_return c s = Some left" unfolding left_def by (rule compute_left_family [OF ch])
  have ne: "left \<noteq> Right_of c" by (rule family_left_ne [OF ch left_def])
  have pc: "c \<noteq> p" using left_slot_of_child [OF ch] by simp
  have lc: "left \<noteq> Children_of c" using pc by (simp add: left_def split: option.split)
  obtain s' where run: "execute_reductions_for_spawn_return mu x (wk c) c sf s = Some s'"
    and ch': "children (ffh s') p (remove1 c cs)" and ret: "spawn_returned (wk c) c p left (three_maps mu left (wk c) c s) s s'"
    and keep: "spawn_return_keeps (wk c) c p sf s s'"
    using spawn_return_full [OF fam c refl l, of mu x sf] by blast
  have "product mu (view_seq wk p (xs @ ys) s') = product mu (view_seq wk p (xs @ c # ys) s)"
    using view_product_return [where wk = wk and p = p and c = c and xs = xs and ys = ys, OF mu _ left_def ret] fam cs by simp
  then have pr: "product mu (view_seq wk p (remove1 c cs) s') = product mu (view_seq wk p cs s)"
    using cs cx by (simp add: remove1_middle)
  have "fiber_self (ffh s c) \<noteq> None" using fam c by (simp add: family_def)
  then show ?thesis
    by (intro that [OF run ch' pr keep]) (use ret ne lc pc in \<open>auto simp: spawn_returned_def split: if_splits\<close>)
qed

subsection \<open>The whole path\<close>

definition stolen_child :: "(ffptr \<Rightarrow> wptr) \<Rightarrow> ffptr \<Rightarrow> ffptr list \<Rightarrow> ffptr \<Rightarrow> sfptr \<Rightarrow> ('m, 'e) rts \<Rightarrow> bool" where
  "stolen_child wk p cs c sf s \<longleftrightarrow> family wk p cs s \<and> c \<in> set cs \<and>
     sf_worker (sfh s sf) = Some (wk c) \<and> flags (sfh s sf) = set_flag CILK_FAKE_VERSION_FLAG CILK_FRAME_DETACHED \<and>
     (let k = wkh s (wk c) in head k = tail k \<and> 0 < tail k \<and> tail k \<le> exc k \<and> frame_ff k = Some c \<and> post_suspend k = None \<and>
        validate_worker k = Some () \<and> \<not> do_not_steal k \<and> mutex_free (w_lock k) \<and>
        (join_counter (ffh s p) = 1 \<longrightarrow> next_frame_ff k = None)) \<and>
     (let f = ffh s c in validate_full_frame f = Some () \<and> mutex_free (ff_lock f) \<and> \<not> is_call_child f \<and> join_counter f = 1 \<and>
        pending_exception f = None \<and> child_pending_exception f = None \<and> children_reducer_map f = None) \<and>
     (let f = ffh s p in \<not> simulated_stolen f \<and> 1 \<le> join_counter f \<and>
        (join_counter f = 1 \<longrightarrow> fiber_self f = None \<and> call_stack f \<noteq> None \<and> sync_master f = None))"

text \<open>The memory after the exception check: E is back at H, T is restored, the exception state is saved.\<close>

definition checked :: "('m, 'e) abi_env \<Rightarrow> wptr \<Rightarrow> ffptr \<Rightarrow> sfptr \<Rightarrow> ('m, 'e) rts \<Rightarrow> ('m, 'e) rts" where
  "checked e w c sf s = upd_wk w (\<lambda>k. k\<lparr>exc := head k, w_lock := mutex_init, do_not_steal := False, w_pending_exception := None\<rparr>)
     (upd_ff c (\<lambda>f. f\<lparr>pending_exception := Some (make_info e None False)\<rparr>)
       (upd_sf sf (\<lambda>f. f\<lparr>flags := CILK_FAKE_VERSION_FLAG\<rparr>) s))"

lemma family_checked:
  assumes "stolen_child wk p cs c sf s"
  shows "family wk p cs (checked e (wk c) c sf s)" and "view_seq wk p cs (checked e (wk c) c sf s) = view_seq wk p cs s"
proof -
  have ch: "children (ffh s) p cs" using assms by (simp add: stolen_child_def family_def)
  have "children (ffh (checked e (wk c) c sf s)) p cs"
    by (rule children_other_cong [OF ch]) (simp_all add: checked_def)
  moreover have "validate_full_frame (ffh (checked e (wk c) c sf s) q) = validate_full_frame (ffh s q)"
    "ff_lock (ffh (checked e (wk c) c sf s) q) = ff_lock (ffh s q)"
    "fiber_self (ffh (checked e (wk c) c sf s) q) = fiber_self (ffh s q)"
    "fiber_child (ffh (checked e (wk c) c sf s) q) = fiber_child (ffh s q)"
    "fiber_to_free (wkh (checked e (wk c) c sf s) v) = fiber_to_free (wkh s v)"
    "w_pending_exception (wkh s v) = None \<Longrightarrow> w_pending_exception (wkh (checked e (wk c) c sf s) v) = None" for q v
    by (simp_all add: checked_def validate_full_frame_def)
  moreover have "family wk p cs s" using assms by (simp add: stolen_child_def)
  ultimately show "family wk p cs (checked e (wk c) c sf s)"
    by (simp add: family_def)
  show "view_seq wk p cs (checked e (wk c) c sf s) = view_seq wk p cs s"
    unfolding view_seq_def by (intro arg_cong2 [where f = Cons] arg_cong [where f = concat] map_cong) (simp_all add: checked_def)
qed

lemma exception_check_stolen:
  assumes st: "stolen_child wk p cs c sf s" and w: "w = wk c"
  shows "c_THE_exception_check e P0 w sf (upd_sf sf (\<lambda>f. f\<lparr>flags := CILK_FAKE_VERSION_FLAG\<rparr>) (upd_wk w undo_detach_dec s)) = do {
     s \<leftarrow> execute_reductions_for_spawn_return (reduce e) (exn e) w c sf (checked e w c sf s);
     longjmp_into_runtime e P0 w Do_return_from_spawn None (update_pedigree_on_leave_frame w sf s) }"
proof -
  let ?L = "\<lparr>mx_lock = 1, mx_owner = Some w\<rparr>" and ?k = "wkh s w"
  define s0 where "s0 = upd_sf sf (\<lambda>f. f\<lparr>flags := CILK_FAKE_VERSION_FLAG\<rparr>) (upd_wk w undo_detach_dec s)"
  have k: "head ?k = tail ?k" "0 < tail ?k" "frame_ff ?k = Some c" "validate_worker ?k = Some ()" "\<not> do_not_steal ?k" "mutex_free (w_lock ?k)"
    "w_pending_exception ?k = None" and f: "pending_exception (ffh s c) = None"
    using st w by (auto simp: stolen_child_def family_def Let_def)
  define s1 where "s1 = upd_wk w (\<lambda>k. k\<lparr>do_not_steal := True, w_lock := ?L\<rparr>) s0"
  have r1: "lock_worker w s0 = Some s1"
    unfolding s1_def by (rule lock_worker_free) (use k in \<open>simp_all add: s0_def undo_detach_dec_def validate_worker_def split: if_splits\<close>)
  define t where "t = upd_wk w (\<lambda>k. k\<lparr>w_pending_exception := None\<rparr>)
     (upd_ff c (\<lambda>f. f\<lparr>pending_exception := Some (make_info e None False)\<rparr>) (upd_wk w reset_THE_exception s1))"
  define s2 where "s2 = upd_wk w (\<lambda>k. k\<lparr>tail := tail k + 1\<rparr>) t"
  have w1: "wkh s1 w = ?k\<lparr>tail := tail ?k - 1, do_not_steal := True, w_lock := ?L\<rparr>" "ffh s1 = ffh s"
    by (simp_all add: s1_def s0_def undo_detach_dec_def)
  have r2: "save_exception_state e w c (upd_wk w reset_THE_exception s1) = Some t"
    using k f by (simp add: save_exception_state_def save_exception_info_def exception_to_frame_def w1 reset_THE_exception_def t_def upd_wk_def upd_ff_def)
  define s3 where "s3 = upd_wk w (\<lambda>k. k\<lparr>w_lock := mutex_init, do_not_steal := False\<rparr>) s2"
  have r3: "unlock_worker w s2 = Some s3" unfolding s3_def
    by (rule unlock_worker_own) (simp_all add: s2_def t_def w1 reset_THE_exception_def)
  have e3: "s3 = checked e w c sf s"
    using k by (auto simp: s3_def s2_def t_def s1_def s0_def checked_def undo_detach_dec_def reset_THE_exception_def upd_wk_def upd_ff_def upd_sf_def
        intro!: rts.equality fun_upd_cong worker.equality)
  show ?thesis
    unfolding s0_def [symmetric] e3 [symmetric]
    using r1 r2 r3 k by (simp add: c_THE_exception_check_def w1 reset_THE_exception_def s2_def)
qed

text \<open>\<open>longjmp_into_runtime\<close> on the return path, with at least one system worker and no replay log.\<close>

lemma longjmp_return_run:
  assumes r: "return_ok w c p s" and "frame_ff (wkh s w) = Some c" and "post_suspend (wkh s w) = None" and "P0 \<noteq> 1"
    and "\<not> sync_match e" and "fiber_self (ffh s c) = None" and "reducer_map (wkh s w) = None"
    and "fiber_to_free (wkh s w) = None \<longrightarrow> fiber_child (ffh s p) \<noteq> None"
  obtains s' where "longjmp_into_runtime e P0 w Do_return_from_spawn None s = Some (In_scheduler, s')"
    and "joined w c p (upd_wk w (\<lambda>k. k\<lparr>post_suspend := None, suspended_stack := None, frame_ff := None, fiber_to_free := None\<rparr>) s) s'"
proof -
  let ?u = "upd_wk w (\<lambda>k. k\<lparr>post_suspend := None, suspended_stack := None, frame_ff := None, fiber_to_free := None\<rparr>) s"
  define s1 where "s1 = upd_wk w (\<lambda>k. k\<lparr>fiber_to_free := None\<rparr>) (upd_wk w (\<lambda>k. k\<lparr>post_suspend := Some Do_return_from_spawn, suspended_stack := None\<rparr>) s)"
  have u: "upd_wk w (\<lambda>k. k\<lparr>post_suspend := None, suspended_stack := None, frame_ff := None\<rparr>) s1 = ?u"
    by (auto simp: s1_def upd_wk_def intro!: rts.equality fun_upd_cong worker.equality)
  have "return_ok w c p ?u" using r by (simp add: return_ok_def validate_worker_def)
  then obtain r' s' where d: "do_return_from_spawn (exn e) False w c None ?u = Some (r', s')" and j: "joined w c p ?u s'"
    by (rule do_return_run)
  have k1: "post_suspend (wkh s1 w) = Some Do_return_from_spawn" "frame_ff (wkh s1 w) = Some c" "suspended_stack (wkh s1 w) = None"
    using assms(2) by (simp_all add: s1_def)
  have "frame_ff (wkh s' w) = None" "reducer_map (wkh s' w) = None" using j assms(7) by (simp_all add: joined_def)
  then have "enter_runtime_transition_proc e w s1 = Some s'"
    using d k1 assms(5) by (simp add: enter_runtime_transition_proc_def run_scheduling_stack_fcn_def u)
  moreover have "parent (ffh s c) = Some p" using r by (simp add: return_ok_def)
  ultimately have "longjmp_into_runtime e P0 w Do_return_from_spawn None s = Some (In_scheduler, s')"
    using assms by (cases "fiber_to_free (wkh s w)") (auto simp: longjmp_into_runtime_def s1_def [symmetric])
  then show ?thesis using j by (rule that)
qed

lemma joined_view:
  assumes "joined w c p s s'"
  shows "children (ffh s) p ds \<Longrightarrow> children (ffh s') p ds" and "view_seq wk p ds s' = view_seq wk p ds s"
proof -
  show "children (ffh s') p ds" if "children (ffh s) p ds"
    by (rule children_other_cong [OF that]) (use assms in \<open>simp_all add: joined_def\<close>)
  have "reducer_map (wkh s' v) = reducer_map (wkh s v)" for v
    using assms by (cases "v = w") (simp_all add: joined_def)
  then show "view_seq wk p ds s' = view_seq wk p ds s" using assms by (simp add: view_seq_def joined_def)
qed

subsection \<open>Properties\<close>

text \<open>C8: a child that returns to a stolen parent hands its part over completely. Leaving the frame of the
  spawn helper finds the deque empty, and then no assertion on the whole path fails; control
  ends in the scheduler with the worker holding no frame and no reducer map and its deque
  empty with E back at H. The child is out of its parent's list and its full frame is freed; the product of the
  family's reducer maps in serial order is unchanged; the pedigree is that of the strand after
  the spawn; and the join counter decides: if this was the last outstanding strand the
  parent is the worker's next frame, with the leftmost child's fiber, otherwise the counter is one lower.\<close>

theorem return_to_stolen_parent:
  assumes "reduce_assoc (reduce e)" and "\<not> sync_match e" and "P (glob pr) \<noteq> 1" and "stolen_child wk p cs c sf (mem pr)"
  shows "\<exists>s'. leave_frame e t sf pr = Some (In_scheduler, pr\<lparr>mem := s'\<rparr>) \<and> children (ffh s') p (remove1 c cs) \<and>
     product (reduce e) (view_seq wk p (remove1 c cs) s') = product (reduce e) (view_seq wk p cs (mem pr)) \<and>
     ff_freed s' = c # ff_freed (mem pr) \<and>
     (let k = wkh s' (wk c); k0 = wkh (mem pr) (wk c) in frame_ff k = None \<and> reducer_map k = None \<and> fiber_to_free k = None \<and>
        head k = head k0 \<and> tail k = head k0 \<and> exc k = head k0 \<and> mutex_free (w_lock k) \<and>
        w_pedigree k = (sf_pedigree (sfh (mem pr) sf))\<lparr>rank := rank (sf_pedigree (sfh (mem pr) sf)) + 1\<rparr> \<and>
        (if join_counter (ffh (mem pr) p) = 1 then next_frame_ff k = Some p \<and> join_counter (ffh s' p) = 1
         else next_frame_ff k = next_frame_ff k0 \<and> join_counter (ffh s' p) = join_counter (ffh (mem pr) p) - 1))"
proof -
  let ?w = "wk c" and ?s = "mem pr"
  note st = assms(4)
  note S = st [unfolded stolen_child_def Let_def]
  define s1 where "s1 = checked e ?w c sf ?s"
  have c: "c \<in> set cs" using S by simp
  obtain s2 where r2: "execute_reductions_for_spawn_return (reduce e) (exn e) ?w c sf s1 = Some s2"
    and ch2: "children (ffh s2) p (remove1 c cs)" and pr2: "product (reduce e) (view_seq wk p (remove1 c cs) s2) = product (reduce e) (view_seq wk p cs s1)"
    and kp2: "spawn_return_keeps ?w c p sf s1 s2" and mm2: "right_reducer_map (ffh s2 c) = None" "children_reducer_map (ffh s2 c) = children_reducer_map (ffh s1 c)"
      "fiber_self (ffh s2 p) = fiber_self (ffh s1 p)" "validate_full_frame (ffh s2 p) = Some ()" "mutex_free (ff_lock (ffh s2 p))"
      "fiber_to_free (wkh s2 ?w) = None \<longrightarrow> fiber_child (ffh s2 p) \<noteq> None"
    using return_one_full [OF assms(1) family_checked(1) [OF st, of e] c, of "exn e" sf, folded s1_def] by metis
  define s3 where "s3 = update_pedigree_on_leave_frame ?w sf s2"
  have f3: "ffh s3 = ffh s2" "ff_freed s3 = ff_freed s2" "wkh s3 v = (if v = ?w then (wkh s2 ?w)\<lparr>w_pedigree :=
      (sf_pedigree (sfh ?s sf))\<lparr>rank := rank (sf_pedigree (sfh ?s sf)) + 1\<rparr>\<rparr> else wkh s2 v)" for v
    using kp2 by (auto simp: s3_def update_pedigree_on_leave_frame_def spawn_return_keeps_def s1_def checked_def version_flag_facts intro: pedigree.equality)
  have par: "parent (ffh ?s c) = Some p" "c \<noteq> p"
  proof -
    obtain xs ys where "cs = xs @ c # ys" using c by (meson split_list)
    then show "parent (ffh ?s c) = Some p" "c \<noteq> p" using left_slot_of_child [of "ffh ?s" p xs c ys] S by (auto simp: family_def)
  qed
  have k1: "wkh s1 ?w = (wkh ?s ?w)\<lparr>exc := head (wkh ?s ?w), w_lock := mutex_init, do_not_steal := False, w_pending_exception := None\<rparr>"
    by (simp add: s1_def checked_def)
  have g1: "control (ffh s1 q) = control (ffh ?s q)" "call_stack (ffh s1 q) = call_stack (ffh ?s q)" "parent (ffh s1 q) = parent (ffh ?s q)"
    "validate_full_frame (ffh s1 q) = validate_full_frame (ffh ?s q)" "ff_lock (ffh s1 q) = ff_lock (ffh ?s q)"
    "children_reducer_map (ffh s1 q) = children_reducer_map (ffh ?s q)" "fiber_self (ffh s1 q) = fiber_self (ffh ?s q)"
    "child_pending_exception (ffh s1 q) = child_pending_exception (ffh ?s q)" "ff_freed s1 = ff_freed ?s" for q
    by (simp_all add: s1_def checked_def control_def validate_full_frame_def)
  have k2: "wkh s2 ?w = (wkh s1 ?w)\<lparr>current_stack_frame := Some sf, frame_ff := Some c, reducer_map := None, fiber_to_free := fiber_to_free (wkh s2 ?w)\<rparr>"
    and g2: "control (ffh s2 q) = control (ffh s1 q)" "parent (ffh s2 q) = parent (ffh s1 q)" "validate_full_frame (ffh s2 q) = validate_full_frame (ffh s1 q)"
      "q \<noteq> p \<Longrightarrow> ff_lock (ffh s2 q) = ff_lock (ffh s1 q)" "q \<noteq> c \<Longrightarrow> call_stack (ffh s2 q) = call_stack (ffh s1 q)"
      "pending_exception (ffh s2 c) = None" "right_pending_exception (ffh s2 c) = None" "child_pending_exception (ffh s2 c) = child_pending_exception (ffh s1 c)"
      "fiber_self (ffh s2 c) = None" "ff_freed s2 = ff_freed s1" for q
    using kp2 by (simp_all add: spawn_return_keeps_def)
  define fb where "fb = fiber_to_free (wkh s2 ?w)"
  have k3: "wkh s3 ?w = (wkh ?s ?w)\<lparr>exc := head (wkh ?s ?w), w_lock := mutex_init, do_not_steal := False, w_pending_exception := None,
      current_stack_frame := Some sf, frame_ff := Some c, reducer_map := None, fiber_to_free := fb,
      w_pedigree := (sf_pedigree (sfh ?s sf))\<lparr>rank := rank (sf_pedigree (sfh ?s sf)) + 1\<rparr>\<rparr>"
    unfolding f3 k2 [folded fb_def] k1 by simp
  have ctl: "join_counter (ffh s3 q) = join_counter (ffh ?s q)" "is_call_child (ffh s3 q) = is_call_child (ffh ?s q)"
    "simulated_stolen (ffh s3 q) = simulated_stolen (ffh ?s q)" "sync_master (ffh s3 q) = sync_master (ffh ?s q)" for q
    using g2(1) [of q] g1(1) [of q] by (simp_all add: f3 control_def)
  have ok: "return_ok ?w c p s3"
    using S par mm2 by (simp add: return_ok_def k3 ctl validate_worker_def mutex_init_def split: if_splits) (simp add: f3 g2 g1)
  have fc: "fiber_to_free (wkh s3 ?w) = None \<longrightarrow> fiber_child (ffh s3 p) \<noteq> None" "fiber_self (ffh s3 c) = None"
    using mm2 g2(9) by (simp_all add: k3 fb_def) (simp_all add: f3)
  obtain s4 where r4: "longjmp_into_runtime e (P (glob pr)) ?w Do_return_from_spawn None s3 = Some (In_scheduler, s4)"
    and j: "joined ?w c p (upd_wk ?w (\<lambda>k. k\<lparr>post_suspend := None, suspended_stack := None, frame_ff := None, fiber_to_free := None\<rparr>) s3) s4"
    by (rule longjmp_return_run [OF ok _ _ assms(3,2) fc(2) _ fc(1)]) (use S in \<open>simp_all add: k3\<close>)
  have "undo_detach (wkh ?s ?w) (sfh ?s sf) = ((undo_detach_dec (wkh ?s ?w), (sfh ?s sf)\<lparr>flags := CILK_FAKE_VERSION_FLAG\<rparr>), True)"
    using S by (auto simp: undo_detach_def undo_detach_failed_def undo_detach_dec_def version_flag_facts)
  moreover have eq: "upd_sf sf (\<lambda>_. (sfh ?s sf)\<lparr>flags := CILK_FAKE_VERSION_FLAG\<rparr>) (upd_wk ?w (\<lambda>_. undo_detach_dec (wkh ?s ?w)) ?s) =
      upd_sf sf (\<lambda>f. f\<lparr>flags := CILK_FAKE_VERSION_FLAG\<rparr>) (upd_wk ?w undo_detach_dec ?s)"
    by (simp add: upd_sf_def upd_wk_def)
  ultimately have "leave_frame e t sf pr = Some (In_scheduler, pr\<lparr>mem := s4\<rparr>)"
    using S exception_check_stolen [OF st refl, of e "P (glob pr)"] r2 r4
    by (simp add: leave_frame_def version_flag_facts eq s1_def [symmetric] s3_def [symmetric])
  moreover have "children (ffh s4) p (remove1 c cs)"
    by (rule joined_view(1) [OF j]) (simp add: f3 ch2)
  moreover have "view_seq wk p (remove1 c cs) s4 = view_seq wk p (remove1 c cs) s2"
  proof -
    have "reducer_map (wkh (upd_wk ?w (\<lambda>k. k\<lparr>post_suspend := None, suspended_stack := None, frame_ff := None, fiber_to_free := None\<rparr>) s3) v) =
        reducer_map (wkh s2 v)" for v by (simp add: f3)
    note m = this
    show ?thesis by (rule trans [OF joined_view(2) [OF j]]) (unfold view_seq_def m ffh_upd f3(1), rule refl)
  qed
  moreover have "ff_freed s4 = c # ff_freed ?s" using j by (simp add: joined_def f3 g2(10) g1)
  moreover have "wkh s4 ?w = (wkh s3 ?w)\<lparr>post_suspend := None, suspended_stack := None, frame_ff := None, fiber_to_free := None,
      w_lock := mutex_init, next_frame_ff := (if join_counter (ffh ?s p) = 1 then Some p else next_frame_ff (wkh ?s ?w))\<rparr>"
    using j by (simp add: joined_def ctl k3)
  moreover have "join_counter (ffh s4 p) = (if join_counter (ffh ?s p) = 1 then 1 else join_counter (ffh ?s p) - 1)"
    using j by (simp add: joined_def ctl)
  moreover have "view_seq wk p cs s1 = view_seq wk p cs ?s" unfolding s1_def by (rule family_checked(2) [OF st])
  ultimately show ?thesis
    using S pr2 by (intro exI [of _ s4]) (simp add: k3 mutex_init_def Let_def)
qed

subsection \<open>Witness\<close>

text \<open>The family of the reducer example; worker 2 leaves the helper frame 7 of child 2, and another strand is outstanding.\<close>

definition stolen_process :: "(string, unit) process" where
  "stolen_process = \<lparr>mem = upd_sf 7 (\<lambda>f. f\<lparr>sf_worker := Some 2, flags := set_flag CILK_FAKE_VERSION_FLAG CILK_FRAME_DETACHED\<rparr>)
       (upd_wk 2 (\<lambda>k. k\<lparr>frame_ff := Some 2\<rparr>) (upd_ff 2 (\<lambda>f. f\<lparr>join_counter := 1\<rparr>) (upd_ff 0 (\<lambda>f. f\<lparr>join_counter := 2\<rparr>) red_rts))),
     glob = \<lparr>total_workers = 4, stealing_disabled = False, workers = nat, P = 4, Q = 1, work_done = False, max_steal_failures = 128\<rparr>,
     nodes = (\<lambda>_. signal_node_create), tls_worker = (\<lambda>_. None), tls_pedigree_leaf = (\<lambda>_. None),
     ped_nodes = (\<lambda>_. \<lparr>rank = 0, ped_parent = None\<rparr>), ped_brk = 0, global_pedigree_tls_counter = -1, freed_workers = []\<rparr>"

lemma stolen_process_ok: "stolen_child id 0 [1, 2] 2 7 (mem stolen_process)"
proof -
  have "family id 0 [1, 2] red_rts" by (rule red_family)
  then have "children (ffh red_rts) 0 [1, 2]" by (simp add: family_def)
  then have "children (ffh (mem stolen_process)) 0 [1, 2]"
    by (rule children_other_cong) (simp_all add: stolen_process_def)
  then have "family id 0 [1, 2] (mem stolen_process)"
    by (simp add: family_def stolen_process_def) (simp add: red_rts_def new_full_frame_def validate_full_frame_def mutex_init_def worker_eval)
  then show ?thesis
    by (simp add: stolen_child_def) (simp add: stolen_process_def red_rts_def new_full_frame_def validate_full_frame_def mutex_init_def
        worker_eval validate_worker_def)
qed

theorem return_to_stolen_parent_witness:
  "\<exists>s'. leave_frame \<lparr>exn = no_exn, reduce = (@), sync_match = False, make_info = (\<lambda>_ _. ())\<rparr> 0 7 stolen_process = Some (In_scheduler, stolen_process\<lparr>mem := s'\<rparr>) \<and>
     children (ffh s') 0 [1] \<and> join_counter (ffh s' 0) = 1"
proof -
  let ?e = "\<lparr>exn = no_exn, reduce = (@), sync_match = False, make_info = (\<lambda>_ _. ())\<rparr>"
  have "reduce_assoc (reduce ?e)" "\<not> sync_match ?e" "P (glob stolen_process) \<noteq> 1"
    by (simp_all add: append_assoc_reduce stolen_process_def)
  from return_to_stolen_parent [OF this stolen_process_ok, of 0]
  show ?thesis by (auto simp: Let_def stolen_process_def split: if_splits)
qed

end
