(* ===== verification/Reducer_Map.thy ===== *)
theory Reducer_Map
  imports Frame_Malloc Stolen_Return
begin

section \<open>The hash map of views (reducer\_impl.cpp)\<close>

text \<open>
  A reducer map finds the view of a hyperobject by the address of its leftmost view. Views are
  addresses in a store of values, 0 is null. An element whose key is null is \<open>None\<close>: the code never reads its
  other fields. Operations of the user's monoid are in the hyperobject, the reduce operation
  leaves its result in the left view. The memory of buckets comes from the frame allocator and is not
  followed here, and the global state has \<^verbatim>\<open>force_reduce\<close> off.
\<close>

unbundle bit_operations_syntax

record 'v hyperobject =
  hb_addr :: "64 word"
  view_offset :: "64 word"
  identity_fn :: 'v
  reduce_fn :: "'v \<Rightarrow> 'v \<Rightarrow> 'v"

record 'v elem =
  el_key :: "64 word"
  el_hb :: "'v hyperobject"
  el_view :: "64 word"

record 'v bucket =
  nmax :: nat
  els :: "'v elem option list"

record 'v cilkred_map =
  nelem :: nat
  nbuckets :: nat
  buckets :: "'v bucket option list"
  merging :: bool
  is_leftmost_map :: bool

type_synonym 'v store = "64 word \<Rightarrow> 'v option"

definition get_hyperobject_key :: "'v hyperobject \<Rightarrow> 64 word" where
  "get_hyperobject_key hb = hb_addr hb + view_offset hb"

definition get_leftmost_view :: "64 word \<Rightarrow> 64 word" where
  "get_leftmost_view key = key"

definition el_is_leftmost :: "'v elem \<Rightarrow> bool" where
  "el_is_leftmost e \<longleftrightarrow> el_key e = el_view e"

subsection \<open>Buckets\<close>

definition sizeof_bucket :: "nat \<Rightarrow> nat" where
  "sizeof_bucket n = 32 + n * 24"

definition roundup :: "nat \<Rightarrow> nat option" where
  "roundup n = do {
     sz \<leftarrow> frame_malloc_roundup (sizeof_bucket n);
     Some ((sz - 32) div 24) }"

definition is_power_of_2 :: "nat \<Rightarrow> bool" where
  "is_power_of_2 n \<longleftrightarrow> n AND (n - 1) = 0"

definition make_buckets :: "nat \<Rightarrow> 'v cilkred_map \<Rightarrow> 'v cilkred_map option" where
  "make_buckets new_nbuckets h = do {
     cilk_assert (is_power_of_2 new_nbuckets);
     Some (h\<lparr>nbuckets := new_nbuckets, buckets := replicate new_nbuckets None, nelem := 0\<rparr>) }"

definition minsz :: "nat \<Rightarrow> nat" where "minsz n = 1 + n + n div 8"
definition nextsz :: "nat \<Rightarrow> nat" where "nextsz n = 2 * n"

definition need_rehash_p :: "'v cilkred_map \<Rightarrow> bool" where
  "need_rehash_p h \<longleftrightarrow> minsz (nelem h) > nbuckets h"

definition hashfun :: "nat \<Rightarrow> 64 word \<Rightarrow> nat" where
  "hashfun nb key =
     (let k = key;
          k = k XOR drop_bit 21 k;
          k = k XOR drop_bit 8 k;
          k = k XOR drop_bit 3 k
      in unat k AND (nb - 1))"

text \<open>The loop \<^verbatim>\<open>for (el = b->el; el->key; ++el)\<close>; running past the array is no result.\<close>

fun scan :: "'v elem option list \<Rightarrow> 'v elem list option" where
  "scan [] = None"
| "scan (None # xs) = Some []"
| "scan (Some e # xs) = map_option (Cons e) (scan xs)"

definition scan_bucket :: "'v bucket option \<Rightarrow> 'v elem list option" where
  "scan_bucket b = (case b of None \<Rightarrow> Some [] | Some b \<Rightarrow> scan (els b))"

fun check_elems :: "bool \<Rightarrow> 'v elem list \<Rightarrow> nat \<Rightarrow> nat option" where
  "check_elems allow_null_view [] cnt = Some cnt"
| "check_elems allow_null_view (e # es) cnt = do {
     cilk_assert (allow_null_view \<or> el_view e \<noteq> 0);
     check_elems allow_null_view es (cnt + 1) }"

fun check_buckets :: "bool \<Rightarrow> 'v bucket option list \<Rightarrow> nat \<Rightarrow> nat option" where
  "check_buckets allow_null_view [] cnt = Some cnt"
| "check_buckets allow_null_view (b # bs) cnt = do {
     es \<leftarrow> scan_bucket b;
     cnt \<leftarrow> check_elems allow_null_view es cnt;
     check_buckets allow_null_view bs cnt }"

definition check :: "bool \<Rightarrow> 'v cilkred_map \<Rightarrow> unit option" where
  "check allow_null_view h = do {
     cnt \<leftarrow> check_buckets allow_null_view (buckets h) 0;
     cilk_assert (nelem h = cnt) }"

text \<open>\<^verbatim>\<open>grow\<close>: the bucket and the index of the element to fill.\<close>

fun first_empty :: "'v elem option list \<Rightarrow> nat option" where
  "first_empty [] = None"
| "first_empty (None # xs) = Some 0"
| "first_empty (Some e # xs) = map_option Suc (first_empty xs)"

definition grow_new :: "nat \<Rightarrow> 'v elem option list \<Rightarrow> ('v bucket \<times> nat) option" where
  "grow_new n old = do {
     nnmax \<leftarrow> roundup (2 * n);
     Some (\<lparr>nmax = nnmax, els = take n old @ replicate (nnmax - n) None @ [None]\<rparr>, n) }"

definition grow :: "'v bucket option \<Rightarrow> ('v bucket \<times> nat) option" where
  "grow bp = (case bp of
     Some b \<Rightarrow> (case first_empty (take (nmax b) (els b)) of
        Some i \<Rightarrow> Some (b, i)
      | None \<Rightarrow> grow_new (nmax b) (els b))
   | None \<Rightarrow> grow_new 0 [])"

subsection \<open>Insertion, rehashing, lookup\<close>

definition insert_no_rehash :: "64 word \<Rightarrow> 'v hyperobject \<Rightarrow> 64 word \<Rightarrow> 'v cilkred_map \<Rightarrow> 'v cilkred_map option" where
  "insert_no_rehash key hb view h = do {
     cilk_assert (key \<noteq> 0);
     cilk_assert (view \<noteq> 0);
     let j = hashfun (nbuckets h) key;
     cilk_assert (j < length (buckets h));
     (b, i) \<leftarrow> grow (buckets h ! j);
     let b = b\<lparr>els := (els b)[i := Some \<lparr>el_key = key, el_hb = hb, el_view = view\<rparr>]\<rparr>;
     Some (h\<lparr>buckets := (buckets h)[j := Some b], nelem := nelem h + 1\<rparr>) }"

fun insert_all :: "'v elem list \<Rightarrow> 'v cilkred_map \<Rightarrow> 'v cilkred_map option" where
  "insert_all [] h = Some h"
| "insert_all (e # es) h = do { h \<leftarrow> insert_no_rehash (el_key e) (el_hb e) (el_view e) h; insert_all es h }"

fun rehash_loop :: "'v bucket option list \<Rightarrow> 'v cilkred_map \<Rightarrow> 'v cilkred_map option" where
  "rehash_loop [] h = Some h"
| "rehash_loop (b # bs) h = do { es \<leftarrow> scan_bucket b; h \<leftarrow> insert_all es h; rehash_loop bs h }"

definition rehash :: "'v cilkred_map \<Rightarrow> 'v cilkred_map option" where
  "rehash h = do {
     let onelem = nelem h;
     let obuckets = buckets h;
     h \<leftarrow> make_buckets (nextsz (nbuckets h)) h;
     h \<leftarrow> rehash_loop obuckets h;
     cilk_assert (nelem h = onelem);
     Some h }"

definition rehash_and_insert :: "64 word \<Rightarrow> 'v hyperobject \<Rightarrow> 64 word \<Rightarrow> 'v cilkred_map \<Rightarrow> 'v cilkred_map option" where
  "rehash_and_insert key hb view h = do {
     h \<leftarrow> (if need_rehash_p h then rehash h else Some h);
     insert_no_rehash key hb view h }"

fun lookup_in :: "'v elem option list \<Rightarrow> 64 word \<Rightarrow> 'v elem option option" where
  "lookup_in [] key = None"
| "lookup_in (None # xs) key = Some None"
| "lookup_in (Some e # xs) key =
     (if el_key e = key then do { cilk_assert (el_view e \<noteq> 0); Some (Some e) } else lookup_in xs key)"

definition lookup :: "'v cilkred_map \<Rightarrow> 64 word \<Rightarrow> 'v elem option option" where
  "lookup h key = do {
     let j = hashfun (nbuckets h) key;
     cilk_assert (j < length (buckets h));
     case buckets h ! j of None \<Rightarrow> Some None | Some b \<Rightarrow> lookup_in (els b) key }"

text \<open>Assignment to the view of the element \<open>lookup\<close> found.\<close>

fun set_view_in :: "'v elem option list \<Rightarrow> 64 word \<Rightarrow> 64 word \<Rightarrow> 'v elem option list" where
  "set_view_in [] key v = []"
| "set_view_in (None # xs) key v = None # xs"
| "set_view_in (Some e # xs) key v =
     (if el_key e = key then Some (e\<lparr>el_view := v\<rparr>) # xs else Some e # set_view_in xs key v)"

definition upd_bucket :: "64 word \<Rightarrow> ('v elem option list \<Rightarrow> 'v elem option list) \<Rightarrow> 'v cilkred_map \<Rightarrow> 'v cilkred_map" where
  "upd_bucket key f h =
     (let j = hashfun (nbuckets h) key
      in h\<lparr>buckets := (buckets h)[j := map_option (\<lambda>b. b\<lparr>els := f (els b)\<rparr>) (buckets h ! j)]\<rparr>)"

definition set_view :: "64 word \<Rightarrow> 64 word \<Rightarrow> 'v cilkred_map \<Rightarrow> 'v cilkred_map" where
  "set_view key v h = upd_bucket key (\<lambda>xs. set_view_in xs key v) h"

text \<open>The removal loop of \<^verbatim>\<open>__cilkrts_hyper_destroy\<close>, from the element with the key on.\<close>

fun shift_down :: "'v elem option list \<Rightarrow> 'v elem option list" where
  "shift_down (x # y # xs) = (if y = None then None # None # xs else y # shift_down (y # xs))"
| "shift_down xs = xs"

fun remove_in :: "'v elem option list \<Rightarrow> 64 word \<Rightarrow> 'v elem option list" where
  "remove_in [] key = []"
| "remove_in (None # xs) key = None # xs"
| "remove_in (Some e # xs) key = (if el_key e = key then shift_down (Some e # xs) else Some e # remove_in xs key)"

subsection \<open>Creating, finding and destroying reducers\<close>

definition make_reducer_map :: "'v cilkred_map" where
  "make_reducer_map = \<lparr>nelem = 0, nbuckets = 1, buckets = [None], merging = False, is_leftmost_map = False\<rparr>"

definition set_leftmost_reducer_map :: "'v cilkred_map \<Rightarrow> bool \<Rightarrow> 'v cilkred_map" where
  "set_leftmost_reducer_map h b = h\<lparr>is_leftmost_map := b\<rparr>"

text \<open>
  The state of a strand: whether it has a worker, the worker's map (none yet: null), and the store.
  \<open>fresh\<close> is the address the monoid's allocate function returns.
\<close>

record 'v strand =
  has_worker :: bool
  cur_map :: "'v cilkred_map option"
  vals :: "'v store"

definition current_map :: "'v strand \<Rightarrow> 'v cilkred_map" where
  "current_map s = (case cur_map s of None \<Rightarrow> make_reducer_map | Some h \<Rightarrow> h)"

definition hyper_create :: "'v hyperobject \<Rightarrow> 'v strand \<Rightarrow> 'v strand option" where
  "hyper_create hb s =
     (if \<not> has_worker s then Some s
      else do {
        let key = get_hyperobject_key hb;
        let view = get_leftmost_view key;
        let h = current_map s;
        found \<leftarrow> lookup h key;
        cilk_assert (found = None);
        cilk_assert (\<not> merging h);
        h \<leftarrow> rehash_and_insert view hb view h;
        Some (s\<lparr>cur_map := Some h\<rparr>) })"

text \<open>
  \<^verbatim>\<open>__cilkrts_hyper_lookup\<close> with \<^verbatim>\<open>force_reduce\<close> off; the branch for the race detector's setting, which
  promotes the worker's own frame before the lookup, is left out.
\<close>

definition hyper_lookup :: "64 word \<Rightarrow> 'v hyperobject \<Rightarrow> 'v strand \<Rightarrow> (64 word \<times> 'v strand) option" where
  "hyper_lookup fresh hb s =
     (let key = get_hyperobject_key hb in
      if \<not> has_worker s then Some (get_leftmost_view key, s)
      else do {
        let h = current_map s;
        cilk_assert (\<not> merging h);
        found \<leftarrow> lookup h key;
        case found of
          Some e \<Rightarrow> Some (el_view e, s\<lparr>cur_map := Some h\<rparr>)
        | None \<Rightarrow> do {
            let (rep, m) = (if is_leftmost_map h then (get_leftmost_view key, vals s)
                            else (fresh, (vals s)(fresh \<mapsto> identity_fn hb)));
            h \<leftarrow> rehash_and_insert key hb rep h;
            Some (rep, s\<lparr>cur_map := Some h, vals := m\<rparr>) } })"

definition destroy_elem :: "'v elem \<Rightarrow> 'v store \<Rightarrow> 'v store option" where
  "destroy_elem e m = (if el_is_leftmost e then Some m
     else do { cilk_assert (m (el_view e) \<noteq> None); Some (m(el_view e := None)) })"

definition hyper_destroy :: "'v hyperobject \<Rightarrow> 'v strand \<Rightarrow> 'v strand option" where
  "hyper_destroy hb s =
     (if \<not> has_worker s then Some s
      else do {
        h \<leftarrow> cur_map s;
        cilk_assert (\<not> merging h);
        let key = get_hyperobject_key hb;
        found \<leftarrow> lookup h key;
        e \<leftarrow> found;
        cilk_assert (el_is_leftmost e);
        m \<leftarrow> destroy_elem e (vals s);
        let h = upd_bucket key (\<lambda>xs. remove_in xs key) h;
        Some (s\<lparr>cur_map := Some (h\<lparr>nelem := nelem h - 1\<rparr>), vals := m\<rparr>) })"

subsection \<open>Merging\<close>

datatype merge_kind = MERGE_UNORDERED | MERGE_INTO_LEFT | MERGE_INTO_RIGHT

definition merge_elem :: "merge_kind \<Rightarrow> bool \<Rightarrow> 'v elem \<Rightarrow> 'v cilkred_map \<Rightarrow> 'v store
    \<Rightarrow> ('v elem \<times> 'v cilkred_map \<times> 'v store) option" where
  "merge_elem kind merge_to_leftmost other_el h m = do {
     let other_view = el_view other_el;
     cilk_assert (other_view \<noteq> 0);
     let key = el_key other_el;
     let hb = el_hb other_el;
     this_el \<leftarrow> lookup h key;
     (this_el, h) \<leftarrow> (if this_el = None \<and> merge_to_leftmost then do {
           let leftmost = get_leftmost_view key;
           if leftmost \<noteq> other_view then do {
             h \<leftarrow> rehash_and_insert key hb leftmost h;
             Some (Some \<lparr>el_key = key, el_hb = hb, el_view = leftmost\<rparr>, h) }
           else Some (None, h) }
         else Some (this_el, h));
     case this_el of
       None \<Rightarrow> do {
         h \<leftarrow> rehash_and_insert key hb other_view h;
         Some (other_el\<lparr>el_view := 0\<rparr>, h, m) }
     | Some te \<Rightarrow> do {
         cilk_assert (kind \<noteq> MERGE_UNORDERED);
         let (this_view, right_view, h) =
           (if kind = MERGE_INTO_RIGHT then (other_view, el_view te, set_view key other_view h) else (el_view te, other_view, h));
         l \<leftarrow> m this_view;
         r \<leftarrow> m right_view;
         Some (other_el\<lparr>el_view := right_view\<rparr>, h, m(this_view \<mapsto> reduce_fn hb l r)) } }"

fun merge_elems :: "merge_kind \<Rightarrow> bool \<Rightarrow> 'v elem option list \<Rightarrow> 'v cilkred_map \<Rightarrow> 'v store
    \<Rightarrow> ('v elem option list \<times> 'v cilkred_map \<times> 'v store) option" where
  "merge_elems kind ml [] h m = None"
| "merge_elems kind ml (None # xs) h m = Some (None # xs, h, m)"
| "merge_elems kind ml (Some e # xs) h m = do {
     (e, h, m) \<leftarrow> merge_elem kind ml e h m;
     (xs, h, m) \<leftarrow> merge_elems kind ml xs h m;
     Some (Some e # xs, h, m) }"

fun merge_buckets :: "merge_kind \<Rightarrow> bool \<Rightarrow> 'v bucket option list \<Rightarrow> 'v cilkred_map \<Rightarrow> 'v store
    \<Rightarrow> ('v bucket option list \<times> 'v cilkred_map \<times> 'v store) option" where
  "merge_buckets kind ml [] h m = Some ([], h, m)"
| "merge_buckets kind ml (None # bs) h m = do {
     (bs, h, m) \<leftarrow> merge_buckets kind ml bs h m;
     Some (None # bs, h, m) }"
| "merge_buckets kind ml (Some b # bs) h m = do {
     (xs, h, m) \<leftarrow> merge_elems kind ml (els b) h m;
     (bs, h, m) \<leftarrow> merge_buckets kind ml bs h m;
     Some (Some (b\<lparr>els := xs\<rparr>) # bs, h, m) }"

fun destroy_elems :: "'v elem list \<Rightarrow> 'v store \<Rightarrow> 'v store option" where
  "destroy_elems [] m = Some m"
| "destroy_elems (e # es) m = do { m \<leftarrow> (if el_view e \<noteq> 0 then destroy_elem e m else Some m); destroy_elems es m }"

fun destroy_buckets :: "'v bucket option list \<Rightarrow> 'v store \<Rightarrow> 'v store option" where
  "destroy_buckets [] m = Some m"
| "destroy_buckets (b # bs) m = do { es \<leftarrow> scan_bucket b; m \<leftarrow> destroy_elems es m; destroy_buckets bs m }"

definition destroy_reducer_map :: "'v cilkred_map \<Rightarrow> 'v store \<Rightarrow> 'v store option" where
  "destroy_reducer_map h m = destroy_buckets (buckets h) m"

definition merge :: "'v cilkred_map \<Rightarrow> 'v cilkred_map \<Rightarrow> merge_kind \<Rightarrow> 'v store \<Rightarrow> ('v cilkred_map \<times> 'v store) option" where
  "merge h other_map kind m = do {
     let h = h\<lparr>merging := True\<rparr>;
     let other_map = other_map\<lparr>merging := True\<rparr>;
     cilk_assert (\<not> is_leftmost_map other_map);
     let merge_to_leftmost = is_leftmost_map h;
     (bs, h, m) \<leftarrow> merge_buckets kind merge_to_leftmost (buckets other_map) h m;
     let other_map = other_map\<lparr>buckets := bs\<rparr>;
     let h = h\<lparr>is_leftmost_map := is_leftmost_map h \<or> is_leftmost_map other_map, merging := False\<rparr>;
     m \<leftarrow> destroy_reducer_map (other_map\<lparr>merging := False\<rparr>) m;
     Some (h, m) }"

definition merge_maps :: "'v cilkred_map option \<Rightarrow> 'v cilkred_map option \<Rightarrow> 'v store
    \<Rightarrow> ('v cilkred_map option \<times> 'v store) option" where
  "merge_maps left_map right_map m = (case (left_map, right_map) of
     (None, _) \<Rightarrow> Some (right_map, m)
   | (_, None) \<Rightarrow> Some (left_map, m)
   | (Some l, Some r) \<Rightarrow>
       if is_leftmost_map l \<or> nelem l > nelem r then do {
         (h, m) \<leftarrow> merge l r MERGE_INTO_LEFT m;
         Some (Some h, m) }
       else do {
         (h, m) \<leftarrow> merge r l MERGE_INTO_RIGHT m;
         Some (Some h, m) })"

subsection \<open>Well-formed maps and what they contain\<close>

definition bucket_elems :: "'v bucket option \<Rightarrow> 'v elem list" where
  "bucket_elems b = (case b of None \<Rightarrow> [] | Some b \<Rightarrow> map the (takeWhile (\<lambda>x. x \<noteq> None) (els b)))"

definition all_elems :: "'v bucket option list \<Rightarrow> 'v elem list" where
  "all_elems bs = concat (map bucket_elems bs)"

definition wf_bucket :: "'v bucket option \<Rightarrow> bool" where
  "wf_bucket b \<longleftrightarrow> (case b of None \<Rightarrow> True
     | Some b \<Rightarrow> \<exists>es. 1 \<le> nmax b \<and> length es \<le> nmax b \<and> els b = map Some es @ replicate (nmax b + 1 - length es) None)"

definition wf_map :: "(64 word \<Rightarrow> 'v hyperobject) \<Rightarrow> 'v cilkred_map \<Rightarrow> bool" where
  "wf_map H h \<longleftrightarrow> (\<exists>n. nbuckets h = 2 ^ n) \<and> length (buckets h) = nbuckets h \<and> (\<forall>b\<in>set (buckets h). wf_bucket b) \<and>
     (\<forall>j<nbuckets h. \<forall>e\<in>set (bucket_elems (buckets h ! j)). hashfun (nbuckets h) (el_key e) = j) \<and>
     (\<forall>e\<in>set (all_elems (buckets h)). el_key e \<noteq> 0 \<and> el_view e \<noteq> 0 \<and> el_hb e = H (el_key e)) \<and>
     distinct (map el_key (all_elems (buckets h))) \<and> nelem h = length (all_elems (buckets h))"

definition views :: "'v cilkred_map \<Rightarrow> 64 word \<Rightarrow> 'v elem option" where
  "views h = map_of (map (\<lambda>e. (el_key e, e)) (all_elems (buckets h)))"

lemma takeWhile_Some [simp]: "takeWhile (\<lambda>x. x \<noteq> None) (map Some es @ replicate n None) = map Some es"
  by (induction es) (auto simp: takeWhile_eq_Nil_iff)

lemma bucket_elems_Some [simp]:
  "els b = map Some es @ replicate n None \<Longrightarrow> bucket_elems (Some b) = es"
  by (simp add: bucket_elems_def comp_def del: not_None_eq)

lemma option_ext: "(\<And>e. x = Some e \<longleftrightarrow> y = Some e) \<Longrightarrow> x = y"
  by (cases x; cases y) auto

lemma and_exp_minus_1: "(a::nat) AND (2 ^ n - 1) = take_bit n a"
  by (simp add: take_bit_eq_mask mask_eq_exp_minus_1)

lemma wf_bucketE:
  assumes "wf_bucket (Some b)"
  obtains es where "1 \<le> nmax b" "length es \<le> nmax b" "els b = map Some es @ replicate (nmax b + 1 - length es) None" "bucket_elems (Some b) = es"
  using assms by (auto simp: wf_bucket_def)

lemma wf_bucketI:
  assumes "els b = map Some es @ replicate (nmax b + 1 - length es) None" "1 \<le> nmax b" "length es \<le> nmax b"
  shows "wf_bucket (Some b)" "bucket_elems (Some b) = es"
  using assms by (auto simp: wf_bucket_def)

lemma bucket_elems_None [simp]: "bucket_elems None = []" "wf_bucket None"
  by (simp_all add: bucket_elems_def wf_bucket_def)

lemma all_elems_simps [simp]: "all_elems [] = []" "all_elems (b # bs) = bucket_elems b @ all_elems bs"
  "all_elems (replicate n None) = []"
  by (simp_all add: all_elems_def)

lemma all_elems_nth:
  "j < length bs \<Longrightarrow> all_elems bs = all_elems (take j bs) @ bucket_elems (bs ! j) @ all_elems (drop (Suc j) bs)"
  using id_take_nth_drop [of j bs] by (simp add: all_elems_def) (metis concat.simps(2) concat_append list.simps(9) map_append)

lemma all_elems_mem: "e \<in> set (all_elems bs) \<longleftrightarrow> (\<exists>j<length bs. e \<in> set (bucket_elems (bs ! j)))"
  unfolding all_elems_def by simp (metis in_set_conv_nth)

lemma all_elems_upd:
  "j < length bs \<Longrightarrow> all_elems (bs[j := b]) = all_elems (take j bs) @ bucket_elems b @ all_elems (drop (Suc j) bs)"
  by (simp add: all_elems_def upd_conv_take_nth_drop)

lemma hashfun_less: "nb = 2 ^ n \<Longrightarrow> hashfun nb k < nb"
  unfolding hashfun_def Let_def by (simp only: and_exp_minus_1) simp

lemma is_power_of_2_exp: "is_power_of_2 (2 ^ n)"
  unfolding is_power_of_2_def and_exp_minus_1 by simp

lemma wf_mapD:
  assumes "wf_map H h"
  shows "\<exists>n. nbuckets h = 2 ^ n" "length (buckets h) = nbuckets h" "b \<in> set (buckets h) \<Longrightarrow> wf_bucket b"
    "j < nbuckets h \<Longrightarrow> e \<in> set (bucket_elems (buckets h ! j)) \<Longrightarrow> hashfun (nbuckets h) (el_key e) = j"
    "e \<in> set (all_elems (buckets h)) \<Longrightarrow> el_key e \<noteq> 0 \<and> el_view e \<noteq> 0 \<and> el_hb e = H (el_key e)"
    "distinct (map el_key (all_elems (buckets h)))" "nelem h = length (all_elems (buckets h))"
    "hashfun (nbuckets h) k < nbuckets h"
  using assms hashfun_less unfolding wf_map_def by blast+

lemma views_iff:
  assumes "wf_map H h"
  shows "views h k = Some e \<longleftrightarrow> e \<in> set (all_elems (buckets h)) \<and> el_key e = k"
  using wf_mapD(6) [OF assms] by (auto simp: views_def map_of_eq_Some_iff comp_def)

lemma viewsD:
  assumes "wf_map H h" "views h k = Some e" shows "el_key e = k" "el_view e \<noteq> 0" "k \<noteq> 0" "el_hb e = H k"
  using wf_mapD(5) [OF assms(1), of e] assms by (auto simp: views_iff)

lemma map_of_elems: "distinct (map el_key es) \<Longrightarrow> map_of (map (\<lambda>e. (el_key e, e)) es) k = Some e \<longleftrightarrow> e \<in> set es \<and> el_key e = k"
  by (auto simp: map_of_eq_Some_iff comp_def)

lemma lookup_in_run:
  "\<forall>e\<in>set es. el_view e \<noteq> 0 \<Longrightarrow> lookup_in (map Some es @ replicate (Suc n) None) k = Some (map_of (map (\<lambda>e. (el_key e, e)) es) k)"
  by (induction es) auto

lemma views_bucket:
  assumes "wf_map H h"
  shows "views h k = map_of (map (\<lambda>e. (el_key e, e)) (bucket_elems (buckets h ! hashfun (nbuckets h) k))) k"
proof (rule option_ext)
  let ?j = "hashfun (nbuckets h) k"
  have j: "?j < length (buckets h)" using wf_mapD(2,8) [OF assms] by simp
  have d: "distinct (map el_key (bucket_elems (buckets h ! ?j)))"
    using wf_mapD(6) [OF assms] unfolding all_elems_nth [OF j] by simp
  fix e
  have "e \<in> set (all_elems (buckets h)) \<and> el_key e = k \<longleftrightarrow> e \<in> set (bucket_elems (buckets h ! ?j)) \<and> el_key e = k"
    using wf_mapD(4) [OF assms] j wf_mapD(2) [OF assms] unfolding all_elems_mem by metis
  then show "views h k = Some e \<longleftrightarrow> map_of (map (\<lambda>e. (el_key e, e)) (bucket_elems (buckets h ! ?j))) k = Some e"
    by (simp add: views_iff [OF assms] map_of_elems [OF d])
qed

lemma lookup_run:
  assumes "wf_map H h" shows "lookup h k = Some (views h k)"
proof -
  let ?j = "hashfun (nbuckets h) k"
  have j: "?j < length (buckets h)" using wf_mapD(2,8) [OF assms] by simp
  show ?thesis
  proof (cases "buckets h ! ?j")
    case None
    then show ?thesis using j views_bucket [OF assms, of k] by (simp add: lookup_def Let_def)
  next
    case (Some b)
    obtain es where es: "length es \<le> nmax b" "els b = map Some es @ replicate (nmax b + 1 - length es) None" "bucket_elems (Some b) = es"
      using wf_mapD(3) [OF assms, of "Some b"] Some j by (metis nth_mem wf_bucketE)
    have "\<forall>e\<in>set es. el_view e \<noteq> 0" using wf_mapD(5) [OF assms] es(3) Some all_elems_nth [OF j] by auto
    from lookup_in_run [OF this, of "nmax b - length es"] show ?thesis
      using j Some views_bucket [OF assms, of k] es by (simp add: lookup_def Let_def Suc_diff_le)
  qed
qed

subsection \<open>Changing one bucket\<close>

lemma hashed_distinct:
  assumes "\<forall>j<length bs. \<forall>e\<in>set (bucket_elems (bs ! j)). f (el_key e) = j" "\<forall>j<length bs. distinct (map el_key (bucket_elems (bs ! j)))"
  shows "distinct (map el_key (all_elems bs))"
  using assms
proof (induction bs rule: rev_induct)
  case (snoc b bs)
  have 1: "distinct (map el_key (all_elems bs))"
    by (rule snoc.IH) (use snoc.prems in \<open>auto simp: nth_append less_Suc_eq\<close>)
  have 2: "f (el_key e) < length bs" if "e \<in> set (all_elems bs)" for e
    using that snoc.prems(1) unfolding all_elems_mem by (auto simp: nth_append less_Suc_eq)
  have 3: "f (el_key e) = length bs" if "e \<in> set (bucket_elems b)" for e using snoc.prems(1) that by auto
  have 4: "distinct (map el_key (bucket_elems b))" using snoc.prems(2) by auto
  have "all_elems (bs @ [b]) = all_elems bs @ bucket_elems b" by (simp add: all_elems_def)
  moreover have "el_key ` set (all_elems bs) \<inter> el_key ` set (bucket_elems b) = {}" using 2 3 by fastforce
  ultimately show ?case using 1 4 by simp
qed simp

lemma wf_upd:
  assumes "wf_map H h" "j < nbuckets h" "wf_bucket b" "distinct (map el_key (bucket_elems b))"
    "\<And>e. e \<in> set (bucket_elems b) \<Longrightarrow> hashfun (nbuckets h) (el_key e) = j \<and> el_key e \<noteq> 0 \<and> el_view e \<noteq> 0 \<and> el_hb e = H (el_key e)"
    "n + length (bucket_elems (buckets h ! j)) = nelem h + length (bucket_elems b)"
  shows "wf_map H (h\<lparr>buckets := (buckets h)[j := b], nelem := n\<rparr>)" (is "wf_map H ?h")
    "views (h\<lparr>buckets := (buckets h)[j := b], nelem := n\<rparr>) k =
       (if hashfun (nbuckets h) k = j then map_of (map (\<lambda>e. (el_key e, e)) (bucket_elems b)) k else views h k)"
proof -
  note W = wf_mapD [OF assms(1)]
  have j: "j < length (buckets h)" using W(2) assms(2) by simp
  have d: "distinct (map el_key (bucket_elems (buckets h ! i)))" if "i < length (buckets h)" for i
    using W(6) unfolding all_elems_nth [OF that] by simp
  show wf: "wf_map H ?h" unfolding wf_map_def
  proof (intro conjI allI impI ballI)
    show "distinct (map el_key (all_elems (buckets ?h)))"
      by (rule hashed_distinct [where f = "hashfun (nbuckets h)"]) (use W(2,4) d assms(2,4,5) in \<open>auto simp: nth_list_update\<close>)
    show "nelem ?h = length (all_elems (buckets ?h))"
      using assms(6) W(7) all_elems_nth [OF j] by (simp add: all_elems_upd [OF j])
    show "wf_bucket c" if "c \<in> set (buckets ?h)" for c
      using that W(3) assms(3) set_update_subset_insert [of "buckets h" j b] by auto
    fix e assume "e \<in> set (all_elems (buckets ?h))"
    then have "e \<in> set (bucket_elems b) \<or> e \<in> set (all_elems (buckets h))"
      using all_elems_upd [OF j, of b] all_elems_nth [OF j] by auto
    then show "el_key e \<noteq> 0" "el_view e \<noteq> 0" "el_hb e = H (el_key e)" using W(5) assms(5) by blast+
  qed (use W(1,2,4) assms(2,5) in \<open>auto simp: nth_list_update split: if_splits\<close>)
  show "views ?h k = (if hashfun (nbuckets h) k = j then map_of (map (\<lambda>e. (el_key e, e)) (bucket_elems b)) k else views h k)"
    using views_bucket [OF wf, of k] views_bucket [OF assms(1), of k] j by simp
qed

lemma frame_malloc_roundup_ge:
  "\<exists>m. frame_malloc_roundup n = Some m \<and> n \<le> m"
proof (cases "n > 2048")
  case False
  then show ?thesis using bucket_of_size_ok [of n] by (fastforce simp: frame_malloc_roundup_def FRAME_MALLOC_MAX_SIZE_def)
qed (simp add: frame_malloc_roundup_def FRAME_MALLOC_MAX_SIZE_def)

lemma roundup_grows: obtains m where "roundup (2 * n) = Some m" "n < m"
proof (cases "n = 0")
  case True
  then show thesis by (intro that [of 1])
    (simp_all add: roundup_def sizeof_bucket_def frame_malloc_roundup_def FRAME_MALLOC_MAX_SIZE_def bucket_of_size_eq bucket_size_eq)
next
  case False
  obtain s where s: "frame_malloc_roundup (sizeof_bucket (2 * n)) = Some s" "sizeof_bucket (2 * n) \<le> s"
    using frame_malloc_roundup_ge by blast
  have "n < (s - 32) div 24" using s(2) False by (simp add: sizeof_bucket_def)
  then show thesis using s by (intro that) (simp_all add: roundup_def)
qed

lemma first_empty_run:
  "first_empty (map Some es @ replicate n None) = (if n = 0 then None else Some (length es))"
  by (induction es) (cases n; auto)+

lemma grow_run:
  assumes "wf_bucket bp"
  obtains b i where "grow bp = Some (b, i)" "wf_bucket (Some (b\<lparr>els := (els b)[i := Some e]\<rparr>))"
    "bucket_elems (Some (b\<lparr>els := (els b)[i := Some e]\<rparr>)) = bucket_elems bp @ [e]"
proof -
  have new: "\<exists>b. grow_new (length es) (map Some es @ xs) = Some (b, length es) \<and> wf_bucket (Some (b\<lparr>els := (els b)[length es := Some e]\<rparr>)) \<and>
      bucket_elems (Some (b\<lparr>els := (els b)[length es := Some e]\<rparr>)) = es @ [e]" for es :: "'a elem list" and xs
  proof -
    obtain m where m: "roundup (2 * length es) = Some m" "length es < m" by (rule roundup_grows)
    let ?b = "\<lparr>nmax = m, els = map Some es @ replicate (m - length es) None @ [None]\<rparr>"
    have "els (?b\<lparr>els := (els ?b)[length es := Some e]\<rparr>) = map Some (es @ [e]) @ replicate (m + 1 - length (es @ [e])) None"
    proof -
      obtain n where "m = length es + Suc n" using m(2) less_iff_Suc_add by auto
      then show ?thesis by (simp add: list_update_append replicate_append_same)
    qed
    moreover have "nmax (?b\<lparr>els := (els ?b)[length es := Some e]\<rparr>) = m" by simp
    ultimately have "wf_bucket (Some (?b\<lparr>els := (els ?b)[length es := Some e]\<rparr>))"
      "bucket_elems (Some (?b\<lparr>els := (els ?b)[length es := Some e]\<rparr>)) = es @ [e]"
      using m(2) wf_bucketI [of "?b\<lparr>els := (els ?b)[length es := Some e]\<rparr>" "es @ [e]"] by auto
    then show ?thesis using m by (simp add: grow_new_def)
  qed
  show thesis
  proof (cases bp)
    case None
    then show thesis using new [of "[]" "[]"] that by (auto simp: grow_def)
  next
    case (Some b)
    obtain es where es: "1 \<le> nmax b" "length es \<le> nmax b" "els b = map Some es @ replicate (nmax b + 1 - length es) None" "bucket_elems (Some b) = es"
      using assms Some wf_bucketE by blast
    have t: "take (nmax b) (els b) = map Some es @ replicate (nmax b - length es) None" using es(2,3) by (simp add: min_def)
    show thesis
    proof (cases "length es = nmax b")
      case True
      then have "grow bp = grow_new (length es) (map Some es @ replicate (nmax b + 1 - length es) None)"
        using Some t es(3) first_empty_run [of es 0] by (simp add: grow_def)
      then show thesis using new [of es "replicate (nmax b + 1 - length es) None"] es(4) Some that by metis
    next
      case False
      let ?b = "b\<lparr>els := (els b)[length es := Some e]\<rparr>"
      have "els ?b = map Some (es @ [e]) @ replicate (nmax ?b + 1 - length (es @ [e])) None"
        using es False by (simp add: list_update_append Suc_diff_le)
      then have "wf_bucket (Some ?b)" "bucket_elems (Some ?b) = es @ [e]"
        using wf_bucketI [of ?b "es @ [e]"] es False by auto
      moreover have "grow bp = Some (b, length es)" using Some t False es by (simp add: grow_def first_empty_run)
      ultimately show thesis using that es(4) Some by simp
    qed
  qed
qed

lemma insert_run:
  assumes "wf_map H h" "k \<noteq> 0" "v \<noteq> 0" "views h k = None"
  obtains h' where "insert_no_rehash k (H k) v h = Some h'" "wf_map H h'" "views h' = (views h)(k \<mapsto> \<lparr>el_key = k, el_hb = H k, el_view = v\<rparr>)"
    "nelem h' = nelem h + 1" "merging h' = merging h" "is_leftmost_map h' = is_leftmost_map h"
proof -
  let ?j = "hashfun (nbuckets h) k" and ?e = "\<lparr>el_key = k, el_hb = H k, el_view = v\<rparr>"
  note W = wf_mapD [OF assms(1)]
  have j: "?j < length (buckets h)" "?j < nbuckets h" using W(2,8) by simp_all
  have wb: "wf_bucket (buckets h ! ?j)" using W(3) j by simp
  obtain b i where g: "grow (buckets h ! ?j) = Some (b, i)" "wf_bucket (Some (b\<lparr>els := (els b)[i := Some ?e]\<rparr>))"
    "bucket_elems (Some (b\<lparr>els := (els b)[i := Some ?e]\<rparr>)) = bucket_elems (buckets h ! ?j) @ [?e]" using grow_run [OF wb] by blast
  let ?b = "Some (b\<lparr>els := (els b)[i := Some ?e]\<rparr>)" and ?h = "h\<lparr>buckets := (buckets h)[?j := Some (b\<lparr>els := (els b)[i := Some ?e]\<rparr>)], nelem := nelem h + 1\<rparr>"
  have d: "distinct (map el_key (bucket_elems (buckets h ! ?j)))" using W(6) unfolding all_elems_nth [OF j(1)] by simp
  have n: "map_of (map (\<lambda>e. (el_key e, e)) (bucket_elems (buckets h ! ?j))) k = None" using views_bucket [OF assms(1), of k] assms(4) by simp
  then have nk: "k \<notin> el_key ` set (bucket_elems (buckets h ! ?j))" by (simp add: map_of_eq_None_iff image_image)
  have wf: "wf_map H ?h" and vw: "views ?h k' = (if hashfun (nbuckets h) k' = ?j then map_of (map (\<lambda>e. (el_key e, e)) (bucket_elems ?b)) k' else views h k')" for k'
  proof -
    have D: "distinct (map el_key (bucket_elems ?b))" unfolding g(3) using d nk by simp
    have E: "hashfun (nbuckets h) (el_key e) = ?j \<and> el_key e \<noteq> 0 \<and> el_view e \<noteq> 0 \<and> el_hb e = H (el_key e)" if "e \<in> set (bucket_elems ?b)" for e
      using that W(4) [OF j(2), of e] W(5) [of e] assms(2,3) all_elems_nth [OF j(1)] unfolding g(3) by auto
    have L: "nelem h + 1 + length (bucket_elems (buckets h ! ?j)) = nelem h + length (bucket_elems ?b)" unfolding g(3) by simp
    show "wf_map H ?h" by (rule wf_upd(1) [OF assms(1) j(2) g(2) D E L])
    show "views ?h k' = (if hashfun (nbuckets h) k' = ?j then map_of (map (\<lambda>e. (el_key e, e)) (bucket_elems ?b)) k' else views h k')" for k'
      by (rule wf_upd(2) [OF assms(1) j(2) g(2) D E L])
  qed
  have "views ?h = (views h)(k \<mapsto> ?e)"
  proof
    fix k' show "views ?h k' = ((views h)(k \<mapsto> ?e)) k'"
      unfolding vw g(3) using views_bucket [OF assms(1), of k'] n by (auto simp: map_add_def split: option.splits)
  qed
  moreover have "insert_no_rehash k (H k) v h = Some ?h" using assms(2,3) j g(1) by (simp add: insert_no_rehash_def Let_def)
  ultimately show thesis using that wf by simp
qed

lemma scan_run: "scan (map Some es @ replicate (Suc n) None) = Some es"
  by (induction es) auto

lemma scan_bucket_run:
  assumes "wf_bucket b" shows "scan_bucket b = Some (bucket_elems b)"
proof (cases b)
  case (Some c)
  obtain es where "length es \<le> nmax c" "els c = map Some es @ replicate (nmax c + 1 - length es) None" "bucket_elems (Some c) = es"
    using assms Some wf_bucketE by blast
  then show ?thesis using scan_run [of es "nmax c - length es"] Some by (simp add: scan_bucket_def Suc_diff_le)
qed (simp add: scan_bucket_def)

lemma insert_all_append: "insert_all (xs @ ys) h = do { h \<leftarrow> insert_all xs h; insert_all ys h }"
  by (induction xs arbitrary: h) (auto split: Option.bind_split)

lemma rehash_loop_eq: "\<forall>b\<in>set bs. wf_bucket b \<Longrightarrow> rehash_loop bs h = insert_all (all_elems bs) h"
  by (induction bs arbitrary: h) (simp_all add: scan_bucket_run insert_all_append cong: bind_option_cong)

lemma insert_all_run:
  assumes "wf_map H h" "distinct (map el_key es)"
    "\<forall>e\<in>set es. el_key e \<noteq> 0 \<and> el_view e \<noteq> 0 \<and> el_hb e = H (el_key e) \<and> views h (el_key e) = None"
  shows "\<exists>h'. insert_all es h = Some h' \<and> wf_map H h' \<and> views h' = views h ++ map_of (map (\<lambda>e. (el_key e, e)) es) \<and>
     nelem h' = nelem h + length es \<and> merging h' = merging h \<and> is_leftmost_map h' = is_leftmost_map h"
  using assms
proof (induction es arbitrary: h)
  case (Cons e es)
  have e: "el_key e \<noteq> 0" "el_view e \<noteq> 0" "views h (el_key e) = None" "el_hb e = H (el_key e)" using Cons.prems(3) by simp_all
  obtain h1 where 1: "insert_no_rehash (el_key e) (H (el_key e)) (el_view e) h = Some h1" "wf_map H h1"
    "views h1 = (views h)(el_key e \<mapsto> \<lparr>el_key = el_key e, el_hb = H (el_key e), el_view = el_view e\<rparr>)" "nelem h1 = nelem h + 1"
    "merging h1 = merging h" "is_leftmost_map h1 = is_leftmost_map h" by (rule insert_run [OF Cons.prems(1) e(1-3)])
  have ee: "\<lparr>el_key = el_key e, el_hb = H (el_key e), el_view = el_view e\<rparr> = e" using e(4) by (cases e) simp
  have "\<forall>e'\<in>set es. el_key e' \<noteq> 0 \<and> el_view e' \<noteq> 0 \<and> el_hb e' = H (el_key e') \<and> views h1 (el_key e') = None"
  proof
    fix e' assume "e' \<in> set es"
    moreover from this have "el_key e' \<noteq> el_key e" using Cons.prems(2) by (metis distinct.simps(2) image_eqI list.simps(9) set_map)
    ultimately show "el_key e' \<noteq> 0 \<and> el_view e' \<noteq> 0 \<and> el_hb e' = H (el_key e') \<and> views h1 (el_key e') = None"
      using Cons.prems(3) by (simp add: 1(3))
  qed
  from Cons.IH [OF 1(2) _ this] Cons.prems(2) obtain h' where 2: "insert_all es h1 = Some h'" "wf_map H h'"
    "views h' = views h1 ++ map_of (map (\<lambda>e. (el_key e, e)) es)" "nelem h' = nelem h1 + length es" "merging h' = merging h1"
    "is_leftmost_map h' = is_leftmost_map h1" by auto
  have "views h' = views h ++ map_of (map (\<lambda>e. (el_key e, e)) (e # es))"
  proof
    have "map_of (map (\<lambda>e. (el_key e, e)) es) (el_key e) = None" using Cons.prems(2) by (simp add: map_of_eq_None_iff image_image)
    then show "views h' k = (views h ++ map_of (map (\<lambda>e. (el_key e, e)) (e # es))) k" for k
      by (auto simp: 2(3) 1(3) ee map_add_def split: option.splits)
  qed
  moreover have "insert_all (e # es) h = Some h'" using 1(1) 2(1) e(4) by simp
  moreover have "nelem h' = nelem h + length (e # es)" "merging h' = merging h" "is_leftmost_map h' = is_leftmost_map h" using 1(4-6) 2(4-6) by simp_all
  ultimately show ?case using 2(2) by blast
qed simp

lemma rehash_run:
  assumes "wf_map H h"
  obtains h' where "rehash h = Some h'" "wf_map H h'" "views h' = views h" "nelem h' = nelem h" "merging h' = merging h"
    "is_leftmost_map h' = is_leftmost_map h"
proof -
  note W = wf_mapD [OF assms]
  obtain n where n: "nbuckets h = 2 ^ n" using W(1) by blast
  let ?h = "h\<lparr>nbuckets := 2 ^ Suc n, buckets := replicate (2 ^ Suc n) None, nelem := 0\<rparr>"
  have mk: "make_buckets (nextsz (nbuckets h)) h = Some ?h"
    using is_power_of_2_exp [of "Suc n"] by (simp add: make_buckets_def nextsz_def n)
  have wf: "wf_map H ?h" unfolding wf_map_def by (auto intro: exI [of _ "Suc n"])
  have v: "views ?h = Map.empty" by (simp add: views_def)
  have "\<forall>e\<in>set (all_elems (buckets h)). el_key e \<noteq> 0 \<and> el_view e \<noteq> 0 \<and> el_hb e = H (el_key e) \<and> views ?h (el_key e) = None"
    using W(5) v by simp
  from insert_all_run [OF wf W(6) this] obtain h' where 1: "insert_all (all_elems (buckets h)) ?h = Some h'" "wf_map H h'"
    "views h' = views h" "nelem h' = nelem h" "merging h' = merging h" "is_leftmost_map h' = is_leftmost_map h"
    using W(7) v by (auto simp: views_def)
  have "rehash h = Some h'" unfolding rehash_def Let_def mk using 1(1,4) rehash_loop_eq [of "buckets h"] W(3) by simp
  then show thesis using that 1 by simp
qed

lemma rehash_and_insert_run:
  assumes "wf_map H h" "k \<noteq> 0" "v \<noteq> 0" "views h k = None"
  obtains h' where "rehash_and_insert k (H k) v h = Some h'" "wf_map H h'" "views h' = (views h)(k \<mapsto> \<lparr>el_key = k, el_hb = H k, el_view = v\<rparr>)"
    "merging h' = merging h" "is_leftmost_map h' = is_leftmost_map h"
proof -
  obtain h1 where 1: "(if need_rehash_p h then rehash h else Some h) = Some h1" "wf_map H h1" "views h1 = views h" "merging h1 = merging h"
    "is_leftmost_map h1 = is_leftmost_map h" using rehash_run [OF assms(1)] assms(1) by (metis (full_types))
  obtain h2 where "insert_no_rehash k (H k) v h1 = Some h2" "wf_map H h2" "views h2 = (views h1)(k \<mapsto> \<lparr>el_key = k, el_hb = H k, el_view = v\<rparr>)"
    "merging h2 = merging h1" "is_leftmost_map h2 = is_leftmost_map h1" using insert_run [OF 1(2) assms(2,3)] assms(4) 1(3) by metis
  then show thesis using that 1 by (simp add: rehash_and_insert_def)
qed

lemma set_view_in_run:
  "distinct (map el_key es) \<Longrightarrow> set_view_in (map Some es @ replicate n None) k v =
     map Some (map (\<lambda>e. if el_key e = k then e\<lparr>el_view := v\<rparr> else e) es) @ replicate n None"
proof (induction es)
  case Nil
  then show ?case by (cases n) auto
next
  case (Cons e es)
  show ?case
  proof (cases "el_key e = k")
    case True
    have "map (\<lambda>e. if el_key e = k then e\<lparr>el_view := v\<rparr> else e) es = es"
      by (rule map_idI) (use Cons.prems True in \<open>auto simp: image_iff\<close>)
    then show ?thesis using True by (simp del: map_map)
  next
    case False
    then show ?thesis using Cons by simp
  qed
qed

lemma shift_down_run: "shift_down (Some e # map Some es @ replicate (Suc n) None) = map Some es @ replicate (Suc (Suc n)) None"
  by (induction es arbitrary: e) auto

lemma remove_in_run:
  assumes "distinct (map el_key es)" "k \<in> el_key ` set es"
  shows "remove_in (map Some es @ replicate (Suc n) None) k = map Some (filter (\<lambda>e. el_key e \<noteq> k) es) @ replicate (Suc (Suc n)) None"
  using assms
proof (induction es)
  case (Cons e es)
  show ?case
  proof (cases "el_key e = k")
    case True
    then have "filter (\<lambda>e. el_key e \<noteq> k) es = es" using Cons.prems(1) by (auto simp: filter_id_conv image_iff)
    then show ?thesis using True shift_down_run [of e es n] by simp
  next
    case False
    then show ?thesis using Cons by auto
  qed
qed simp

lemma map_of_filter_key: "map_of (map (\<lambda>e. (el_key e, e)) (filter (\<lambda>e. el_key e \<noteq> k) es)) k' =
    (if k' = k then None else map_of (map (\<lambda>e. (el_key e, e)) es) k')"
  by (induction es) auto

lemma map_of_set_view: "map_of (map (\<lambda>e. (el_key e, e)) (map (\<lambda>e. if el_key e = k then e\<lparr>el_view := v\<rparr> else e) es)) k' =
    (if k' = k then map_option (\<lambda>e. e\<lparr>el_view := v\<rparr>) (map_of (map (\<lambda>e. (el_key e, e)) es) k')
     else map_of (map (\<lambda>e. (el_key e, e)) es) k')"
  by (induction es) auto

text \<open>The bucket an existing key is in.\<close>

lemma bucket_of_key:
  assumes "wf_map H h" "views h k = Some e"
  obtains b es where "buckets h ! hashfun (nbuckets h) k = Some b" "length es \<le> nmax b" "1 \<le> nmax b"
    "els b = map Some es @ replicate (nmax b + 1 - length es) None" "bucket_elems (Some b) = es" "distinct (map el_key es)" "e \<in> set es" "el_key e = k"
    "\<And>e. e \<in> set es \<Longrightarrow> hashfun (nbuckets h) (el_key e) = hashfun (nbuckets h) k \<and> el_key e \<noteq> 0 \<and> el_view e \<noteq> 0 \<and> el_hb e = H (el_key e)"
proof -
  let ?j = "hashfun (nbuckets h) k"
  note W = wf_mapD [OF assms(1)]
  have j: "?j < length (buckets h)" "?j < nbuckets h" using W(2,8) by simp_all
  have m: "map_of (map (\<lambda>e. (el_key e, e)) (bucket_elems (buckets h ! ?j))) k = Some e" using views_bucket [OF assms(1), of k] assms(2) by simp
  then obtain b where b: "buckets h ! ?j = Some b" by (cases "buckets h ! ?j") auto
  obtain es where es: "1 \<le> nmax b" "length es \<le> nmax b" "els b = map Some es @ replicate (nmax b + 1 - length es) None" "bucket_elems (Some b) = es"
    using W(3) [of "Some b"] b j(1) by (metis nth_mem wf_bucketE)
  have "distinct (map el_key es)" using W(6) unfolding all_elems_nth [OF j(1)] b es(4) by simp
  moreover have "e \<in> set es \<and> el_key e = k" using m b es(4) map_of_elems [OF calculation] by simp
  moreover have "hashfun (nbuckets h) (el_key e) = ?j \<and> el_key e \<noteq> 0 \<and> el_view e \<noteq> 0 \<and> el_hb e = H (el_key e)" if "e \<in> set es" for e
    using W(4) [OF j(2), of e] W(5) [of e] that b es(4) all_elems_nth [OF j(1)] by auto
  ultimately show thesis using that b es by blast
qed

lemma set_view_run:
  assumes "wf_map H h" "views h k = Some e" "v \<noteq> 0"
  shows "wf_map H (set_view k v h)" "views (set_view k v h) = (views h)(k \<mapsto> e\<lparr>el_view := v\<rparr>)"
proof -
  obtain b es where b: "buckets h ! hashfun (nbuckets h) k = Some b" "length es \<le> nmax b" "1 \<le> nmax b"
    "els b = map Some es @ replicate (nmax b + 1 - length es) None" "bucket_elems (Some b) = es" "distinct (map el_key es)" "e \<in> set es" "el_key e = k"
    "\<And>e. e \<in> set es \<Longrightarrow> hashfun (nbuckets h) (el_key e) = hashfun (nbuckets h) k \<and> el_key e \<noteq> 0 \<and> el_view e \<noteq> 0 \<and> el_hb e = H (el_key e)"
    by (rule bucket_of_key [OF assms(1,2)]) (rule that; assumption)
  let ?j = "hashfun (nbuckets h) k" and ?es = "map (\<lambda>e. if el_key e = k then e\<lparr>el_view := v\<rparr> else e) es"
  let ?b = "b\<lparr>els := set_view_in (els b) k v\<rparr>"
  have "els ?b = map Some ?es @ replicate (nmax ?b + 1 - length ?es) None" using b(4) set_view_in_run [OF b(6)] by simp
  from wf_bucketI [OF this] have wb: "wf_bucket (Some ?b)" "bucket_elems (Some ?b) = ?es" using b(2,3) by simp_all
  have keys: "map el_key ?es = map el_key es" by simp
  have h: "set_view k v h = h\<lparr>buckets := (buckets h)[?j := Some ?b], nelem := nelem h\<rparr>" by (simp add: set_view_def upd_bucket_def Let_def b(1))
  have E: "hashfun (nbuckets h) (el_key e) = ?j \<and> el_key e \<noteq> 0 \<and> el_view e \<noteq> 0 \<and> el_hb e = H (el_key e)" if el: "e \<in> set (bucket_elems (Some ?b))" for e
  proof -
    obtain e0 where "e0 \<in> set es" "e = (if el_key e0 = k then e0\<lparr>el_view := v\<rparr> else e0)" using el unfolding wb(2) set_map by blast
    then show ?thesis using b(9) [of e0] assms(3) by auto
  qed
  have D: "distinct (map el_key (bucket_elems (Some ?b)))" unfolding wb(2) keys by (rule b(6))
  have L: "nelem h + length (bucket_elems (buckets h ! ?j)) = nelem h + length (bucket_elems (Some ?b))" unfolding wb(2) b(1,5) by simp
  note U = wf_upd [OF assms(1) wf_mapD(8) [OF assms(1)] wb(1) D E L, folded h]
  show "wf_map H (set_view k v h)" by (rule U(1))
  have m: "map_of (map (\<lambda>e. (el_key e, e)) es) k = Some e" using views_bucket [OF assms(1), of k] b(1,5) assms(2) by simp
  show "views (set_view k v h) = (views h)(k \<mapsto> e\<lparr>el_view := v\<rparr>)"
  proof
    fix k' show "views (set_view k v h) k' = ((views h)(k \<mapsto> e\<lparr>el_view := v\<rparr>)) k'"
      using U(2) [of k'] m views_bucket [OF assms(1), of k'] b(1,5) unfolding wb(2) map_of_set_view by auto
  qed
qed

lemma remove_run:
  assumes "wf_map H h" "views h k = Some e"
  defines "h' \<equiv> (upd_bucket k (\<lambda>xs. remove_in xs k) h)\<lparr>nelem := nelem h - 1\<rparr>"
  shows "wf_map H h'" "views h' = (views h)(k := None)"
proof -
  obtain b es where b: "buckets h ! hashfun (nbuckets h) k = Some b" "length es \<le> nmax b" "1 \<le> nmax b"
    "els b = map Some es @ replicate (nmax b + 1 - length es) None" "bucket_elems (Some b) = es" "distinct (map el_key es)" "e \<in> set es" "el_key e = k"
    "\<And>e. e \<in> set es \<Longrightarrow> hashfun (nbuckets h) (el_key e) = hashfun (nbuckets h) k \<and> el_key e \<noteq> 0 \<and> el_view e \<noteq> 0 \<and> el_hb e = H (el_key e)"
    by (rule bucket_of_key [OF assms(1,2)]) (rule that; assumption)
  let ?j = "hashfun (nbuckets h) k" and ?es = "filter (\<lambda>e. el_key e \<noteq> k) es"
  let ?b = "b\<lparr>els := remove_in (els b) k\<rparr>"
  have len: "length es = Suc (length ?es)"
  proof -
    have "length (map el_key es) = length (filter (\<lambda>x. x \<noteq> k) (map el_key es)) + length (filter (\<lambda>x. \<not> x \<noteq> k) (map el_key es))"
      by (rule sum_length_filter_compl [symmetric])
    moreover have "{k} \<inter> el_key ` set es = {k}" using b(7,8) by blast
    then have "length (filter (\<lambda>x. \<not> x \<noteq> k) (map el_key es)) = 1"
      using distinct_length_filter [OF b(6), of "\<lambda>x. \<not> x \<noteq> k"] by simp
    ultimately show ?thesis by (simp add: filter_map comp_def)
  qed
  have "els ?b = map Some ?es @ replicate (nmax ?b + 1 - length ?es) None"
  proof -
    have "k \<in> el_key ` set es" using b(7,8) by blast
    moreover have "els b = map Some es @ replicate (Suc (nmax b - length es)) None" using b(2,4) by (simp add: Suc_diff_le)
    moreover have "nmax b + 1 - length ?es = Suc (Suc (nmax b - length es))" using b(2) len by simp
    ultimately have "remove_in (els b) k = map Some ?es @ replicate (nmax b + 1 - length ?es) None"
      using remove_in_run [OF b(6), of k "nmax b - length es"] by metis
    then show ?thesis by simp
  qed
  from wf_bucketI [OF this] have wb: "wf_bucket (Some ?b)" "bucket_elems (Some ?b) = ?es" using b(2,3) len by simp_all
  have h: "h' = h\<lparr>buckets := (buckets h)[?j := Some ?b], nelem := nelem h - 1\<rparr>" by (simp add: h'_def upd_bucket_def Let_def b(1))
  have E: "hashfun (nbuckets h) (el_key e) = ?j \<and> el_key e \<noteq> 0 \<and> el_view e \<noteq> 0 \<and> el_hb e = H (el_key e)" if "e \<in> set (bucket_elems (Some ?b))" for e
    using that b(9) unfolding wb(2) by auto
  have D: "distinct (map el_key (bucket_elems (Some ?b)))" unfolding wb(2) using b(6) by (simp add: distinct_map_filter)
  have j: "?j < length (buckets h)" using wf_mapD(2,8) [OF assms(1)] by simp
  have "length es \<le> nelem h" unfolding wf_mapD(7) [OF assms(1)] all_elems_nth [OF j] b(1,5) by simp
  then have L: "nelem h - 1 + length (bucket_elems (buckets h ! ?j)) = nelem h + length (bucket_elems (Some ?b))" unfolding wb(2) b(1,5) using len by simp
  note U = wf_upd [OF assms(1) wf_mapD(8) [OF assms(1)] wb(1) D E L, folded h]
  show "wf_map H h'" by (rule U(1))
  show "views h' = (views h)(k := None)"
  proof
    fix k' show "views h' k' = ((views h)(k := None)) k'"
      using U(2) [of k'] unfolding wb(2) map_of_filter_key using views_bucket [OF assms(1), of k'] b(1,5) by auto
  qed
qed

subsection \<open>Merging element by element\<close>

definition addr :: "'v cilkred_map \<Rightarrow> 64 word \<Rightarrow> 64 word option" where
  "addr h k = map_option el_view (views h k)"

text \<open>The view of \<open>k\<close> in the map merged into, given that the other map has the view \<open>v\<close>: its own, or the leftmost one.\<close>

definition this_addr :: "(64 word \<Rightarrow> 64 word option) \<Rightarrow> bool \<Rightarrow> 64 word \<Rightarrow> 64 word \<Rightarrow> 64 word option" where
  "this_addr A ml k v = (case A k of Some u \<Rightarrow> Some u | None \<Rightarrow> if ml \<and> k \<noteq> v then Some k else None)"

definition kept :: "merge_kind \<Rightarrow> 64 word \<Rightarrow> 64 word \<Rightarrow> 64 word" where
  "kept kind u v = (if kind = MERGE_INTO_RIGHT then v else u)"

definition dropped :: "merge_kind \<Rightarrow> 64 word option \<Rightarrow> 64 word \<Rightarrow> 64 word" where
  "dropped kind u v = (case u of None \<Rightarrow> 0 | Some u \<Rightarrow> if kind = MERGE_INTO_RIGHT then u else v)"

definition reduced :: "merge_kind \<Rightarrow> 'v hyperobject \<Rightarrow> 'v \<Rightarrow> 'v \<Rightarrow> 'v" where
  "reduced kind hb this other = (if kind = MERGE_INTO_RIGHT then reduce_fn hb other this else reduce_fn hb this other)"

definition step_addr :: "merge_kind \<Rightarrow> bool \<Rightarrow> (64 word \<Rightarrow> 64 word option) \<Rightarrow> 64 word \<Rightarrow> 64 word \<Rightarrow> 64 word" where
  "step_addr kind ml A k v = (case this_addr A ml k v of None \<Rightarrow> v | Some u \<Rightarrow> kept kind u v)"

definition step_store :: "merge_kind \<Rightarrow> bool \<Rightarrow> 'v hyperobject \<Rightarrow> (64 word \<Rightarrow> 64 word option) \<Rightarrow> 64 word \<Rightarrow> 64 word \<Rightarrow> 'v store \<Rightarrow> 'v store" where
  "step_store kind ml hb A k v m = (case this_addr A ml k v of None \<Rightarrow> m
     | Some u \<Rightarrow> m(kept kind u v \<mapsto> reduced kind hb (the (m u)) (the (m v))))"

lemma addr_upd [simp]: "views h' = (views h)(k \<mapsto> e) \<Longrightarrow> addr h' = (addr h)(k \<mapsto> el_view e)"
  by (auto simp: addr_def)

lemma merge_elem_run:
  assumes "wf_map H h" "el_key e = k" "el_view e = v" "k \<noteq> 0" "v \<noteq> 0" "el_hb e = H k" "kind \<noteq> MERGE_UNORDERED" "ml \<Longrightarrow> kind = MERGE_INTO_LEFT"
    "m v \<noteq> None" "\<And>u. this_addr (addr h) ml k v = Some u \<Longrightarrow> m u \<noteq> None"
  obtains h' where "merge_elem kind ml e h m =
      Some (e\<lparr>el_view := dropped kind (this_addr (addr h) ml k v) v\<rparr>, h', step_store kind ml (H k) (addr h) k v m)"
    "wf_map H h'" "addr h' = (addr h)(k \<mapsto> step_addr kind ml (addr h) k v)" "merging h' = merging h" "is_leftmost_map h' = is_leftmost_map h"
proof (cases "views h k")
  case None
  note ins = rehash_and_insert_run [OF assms(1,4) _ None]
  have a: "addr h k = None" using None by (simp add: addr_def)
  show thesis
  proof (cases "ml \<and> k \<noteq> v")
    case True
    obtain h' where h': "rehash_and_insert k (H k) k h = Some h'" "wf_map H h'" "views h' = (views h)(k \<mapsto> \<lparr>el_key = k, el_hb = H k, el_view = k\<rparr>)"
      "merging h' = merging h" "is_leftmost_map h' = is_leftmost_map h" using ins [OF assms(4)] by blast
    have t: "this_addr (addr h) ml k v = Some k" using True a by (simp add: this_addr_def)
    obtain x y where "m k = Some x" "m v = Some y" using assms(9,10) t by fastforce
    then show thesis using that [OF _ h'(2) _ h'(4,5)] True None assms(2-8) h'(1,3) t
      by (simp add: merge_elem_def Let_def lookup_run [OF assms(1)] get_leftmost_view_def dropped_def step_store_def step_addr_def kept_def reduced_def)
  next
    case False
    obtain h' where h': "rehash_and_insert k (H k) v h = Some h'" "wf_map H h'" "views h' = (views h)(k \<mapsto> \<lparr>el_key = k, el_hb = H k, el_view = v\<rparr>)"
      "merging h' = merging h" "is_leftmost_map h' = is_leftmost_map h" using ins [OF assms(5)] by blast
    have t: "this_addr (addr h) ml k v = None" using False a by (simp add: this_addr_def)
    show thesis using that [OF _ h'(2) _ h'(4,5)] False None assms(2-8) h'(1,3) t
      by (cases ml) (simp_all add: merge_elem_def Let_def lookup_run [OF assms(1)] get_leftmost_view_def dropped_def step_store_def step_addr_def)
  qed
next
  case (Some te)
  let ?u = "el_view te"
  have t: "this_addr (addr h) ml k v = Some ?u" using Some by (simp add: this_addr_def addr_def)
  obtain x y where xy: "m ?u = Some x" "m v = Some y" using assms(9,10) t by fastforce
  have s: "wf_map H (set_view k v h)" "addr (set_view k v h) = (addr h)(k \<mapsto> v)" using set_view_run [OF assms(1) Some assms(5)] by simp_all
  have f: "merging (set_view k v h) = merging h" "is_leftmost_map (set_view k v h) = is_leftmost_map h" by (simp_all add: set_view_def upd_bucket_def Let_def)
  have k: "(addr h)(k \<mapsto> ?u) = addr h" using Some by (auto simp: addr_def)
  note run = merge_elem_def Let_def lookup_run [OF assms(1)] Some dropped_def step_store_def step_addr_def kept_def reduced_def t
  show thesis
  proof (cases "kind = MERGE_INTO_RIGHT")
    case True
    then show thesis using that [OF _ s(1) _ f] s(2) xy assms(2-8) by (simp add: run)
  next
    case False
    then show thesis using that [OF _ assms(1) _ refl refl] k xy assms(2-8) by (simp add: run)
  qed
qed

fun merge_list :: "merge_kind \<Rightarrow> bool \<Rightarrow> 'v elem list \<Rightarrow> 'v cilkred_map \<Rightarrow> 'v store \<Rightarrow> ('v elem list \<times> 'v cilkred_map \<times> 'v store) option" where
  "merge_list kind ml [] h m = Some ([], h, m)"
| "merge_list kind ml (e # es) h m = do {
     (e, h, m) \<leftarrow> merge_elem kind ml e h m;
     (es, h, m) \<leftarrow> merge_list kind ml es h m;
     Some (e # es, h, m) }"

lemma merge_list_append:
  "merge_list kind ml (xs @ ys) h m = do {
     (xs, h, m) \<leftarrow> merge_list kind ml xs h m;
     (ys, h, m) \<leftarrow> merge_list kind ml ys h m;
     Some (xs @ ys, h, m) }"
  by (induction xs arbitrary: h m) (auto simp: Let_def split: Option.bind_split prod.splits)

lemma merge_elems_list:
  "merge_elems kind ml (map Some es @ replicate (Suc n) None) h m =
     map_option (\<lambda>(es, h, m). (map Some es @ replicate (Suc n) None, h, m)) (merge_list kind ml es h m)"
  by (induction es arbitrary: h m) (auto split: Option.bind_split prod.splits)

lemma merge_buckets_list:
  assumes "\<forall>b\<in>set bs. wf_bucket b" "merge_list kind ml (all_elems bs) h m = Some (es, h', m')"
  obtains bs' where "merge_buckets kind ml bs h m = Some (bs', h', m')" "\<And>m. destroy_buckets bs' m = destroy_elems es m"
  using assms
proof (induction bs arbitrary: h m es thesis)
  case Nil
  then show ?case by auto
next
  case (Cons b bs)
  obtain es1 h1 m1 es2 where 1: "merge_list kind ml (bucket_elems b) h m = Some (es1, h1, m1)"
    "merge_list kind ml (all_elems bs) h1 m1 = Some (es2, h', m')" "es = es1 @ es2"
    using Cons.prems(3) by (auto simp: merge_list_append bind_eq_Some_conv)
  obtain bs' where 2: "merge_buckets kind ml bs h1 m1 = Some (bs', h', m')" "\<And>m. destroy_buckets bs' m = destroy_elems es2 m"
    using Cons.IH [OF _ _ 1(2)] Cons.prems(2) by auto
  have da: "destroy_elems (xs @ ys) m = do { m \<leftarrow> destroy_elems xs m; destroy_elems ys m }" for xs ys and m :: "'a store"
    by (induction xs arbitrary: m) (auto split: Option.bind_split)
  show ?case
  proof (cases b)
    case None
    then show ?thesis using Cons.prems(1) [of "None # bs'"] 1 2 by (simp add: scan_bucket_def)
  next
    case (Some c)
    obtain xs where xs: "length xs \<le> nmax c" "els c = map Some xs @ replicate (nmax c + 1 - length xs) None" "bucket_elems (Some c) = xs"
      using Cons.prems(2) Some wf_bucketE by (metis list.set_intros(1))
    have "nmax c + 1 - length xs = Suc (nmax c - length xs)" using xs(1) by simp
    then have "merge_elems kind ml (els c) h m = Some (map Some es1 @ replicate (Suc (nmax c - length xs)) None, h1, m1)"
      using merge_elems_list [of kind ml xs "nmax c - length xs" h m] xs 1(1) Some by (simp only: option.map prod.case)
    then show ?thesis using Cons.prems(1) [of "Some (c\<lparr>els := map Some es1 @ replicate (Suc (nmax c - length xs)) None\<rparr>) # bs'"] 1(3) 2 Some
      using scan_run [of es1 "nmax c - length xs"] by (simp add: scan_bucket_def da cong: bind_option_cong)
  qed
qed

subsection \<open>Merging all elements\<close>

text \<open>No two elements share a view, and every view that will be used is there.\<close>

definition apart :: "(64 word \<Rightarrow> 64 word option) \<Rightarrow> 'v elem list \<Rightarrow> 'v store \<Rightarrow> bool \<Rightarrow> bool" where
  "apart A es m ml \<longleftrightarrow> distinct (map el_key es) \<and>
     (\<forall>e\<in>set es. m (el_view e) \<noteq> None \<and> (\<forall>u. this_addr A ml (el_key e) (el_view e) = Some u \<longrightarrow> m u \<noteq> None)) \<and>
     (\<forall>e\<in>set es. \<forall>k u. A k = Some u \<longrightarrow> u \<noteq> el_view e) \<and>
     (\<forall>e\<in>set es. \<forall>e'\<in>set es. el_view e = el_view e' \<longrightarrow> e = e') \<and>
     (\<forall>k k' u. A k = Some u \<longrightarrow> A k' = Some u \<longrightarrow> k = k') \<and>
     (ml \<longrightarrow> (\<forall>e\<in>set es. (\<forall>k. A k = Some (el_key e) \<longrightarrow> k = el_key e) \<and> (\<forall>e'\<in>set es. el_view e' = el_key e \<longrightarrow> e' = e)))"

lemma apartD:
  assumes "apart A es m ml"
  shows "distinct (map el_key es)" "e \<in> set es \<Longrightarrow> m (el_view e) \<noteq> None"
    "e \<in> set es \<Longrightarrow> this_addr A ml (el_key e) (el_view e) = Some u \<Longrightarrow> m u \<noteq> None"
    "e \<in> set es \<Longrightarrow> A k = Some u \<Longrightarrow> u \<noteq> el_view e"
    "e \<in> set es \<Longrightarrow> e' \<in> set es \<Longrightarrow> el_view e = el_view e' \<Longrightarrow> e = e'"
    "A k = Some u \<Longrightarrow> A k' = Some u \<Longrightarrow> k = k'"
    "ml \<Longrightarrow> e \<in> set es \<Longrightarrow> A k = Some (el_key e) \<Longrightarrow> k = el_key e"
    "ml \<Longrightarrow> e \<in> set es \<Longrightarrow> e' \<in> set es \<Longrightarrow> el_view e' = el_key e \<Longrightarrow> e' = e"
  using assms unfolding apart_def by blast+

lemma apart_key_neq: "apart A (e # es) m ml \<Longrightarrow> e' \<in> set es \<Longrightarrow> el_key e' \<noteq> el_key e \<and> e' \<noteq> e"
  using apartD(1) by (fastforce simp: image_iff)

lemma step_addr_or:
  "step_addr kind ml A k v = v \<or> A k = Some (step_addr kind ml A k v) \<or> (ml \<and> A k = None \<and> step_addr kind ml A k v = k)"
  by (cases "A k") (auto simp: step_addr_def this_addr_def kept_def)

text \<open>The view one step keeps is none of those the later steps use.\<close>

lemma apart_fresh:
  assumes "apart A (e # es) m ml" "a = step_addr kind ml A (el_key e) (el_view e)"
  shows "A k = Some a \<Longrightarrow> k = el_key e" "e' \<in> set es \<Longrightarrow> el_view e' \<noteq> a" "ml \<Longrightarrow> e' \<in> set es \<Longrightarrow> el_key e' \<noteq> a"
    "e' \<in> set es \<Longrightarrow> this_addr A ml (el_key e') (el_view e') \<noteq> Some a"
proof -
  note D = apartD [OF assms(1)]
  have e: "e \<in> set (e # es)" by simp
  consider "a = el_view e" | "A (el_key e) = Some a" | "ml" "a = el_key e" using step_addr_or [of kind ml A "el_key e" "el_view e"] assms(2) by metis
  then have "(\<forall>k. A k = Some a \<longrightarrow> k = el_key e) \<and> (\<forall>e'\<in>set es. el_view e' \<noteq> a \<and> (ml \<longrightarrow> el_key e' \<noteq> a))"
  proof cases
    case 1
    then show ?thesis using D(4) [OF e] D(5) [OF e] D(8) [OF _ _ e] apart_key_neq [OF assms(1)] by (metis list.set_intros(2))
  next
    case 2
    then show ?thesis using D(4) D(6) D(7) apart_key_neq [OF assms(1)] by (metis list.set_intros(2))
  next
    case 3
    then show ?thesis using D(7) [OF _ e] D(8) [OF _ e] apart_key_neq [OF assms(1)] by (metis list.set_intros(2))
  qed
  then show 1: "A k = Some a \<Longrightarrow> k = el_key e" "e' \<in> set es \<Longrightarrow> el_view e' \<noteq> a" "ml \<Longrightarrow> e' \<in> set es \<Longrightarrow> el_key e' \<noteq> a" for k e' by blast+
  show "this_addr A ml (el_key e') (el_view e') \<noteq> Some a" if "e' \<in> set es"
    using 1(1) [of "el_key e'"] 1(3) [OF _ that] apart_key_neq [OF assms(1) that] by (auto simp: this_addr_def split: option.splits if_splits)
qed

lemma step_store_alloc:
  assumes "\<And>u. this_addr A ml k v = Some u \<Longrightarrow> m u \<noteq> None" "m v \<noteq> None"
  shows "step_store kind ml hb A k v m x = None \<longleftrightarrow> m x = None"
  using assms by (auto simp: step_store_def kept_def split: option.splits)

lemma step_store_other: "x \<noteq> step_addr kind ml A k v \<Longrightarrow> step_store kind ml hb A k v m x = m x"
  by (auto simp: step_store_def step_addr_def split: option.splits)

lemma this_addr_upd [simp]: "k' \<noteq> k \<Longrightarrow> this_addr (A(k := x)) ml k' v = this_addr A ml k' v"
  by (simp add: this_addr_def)

lemma step_addr_upd [simp]: "k' \<noteq> k \<Longrightarrow> step_addr kind ml (A(k := x)) k' v = step_addr kind ml A k' v"
  by (simp add: step_addr_def)

lemma apart_step:
  assumes "apart A (e # es) m ml" "a = step_addr kind ml A (el_key e) (el_view e)"
  shows "apart (A(el_key e \<mapsto> a)) es (step_store kind ml hb A (el_key e) (el_view e) m) ml"
proof -
  note D = apartD [OF assms(1)] and F = apart_fresh [OF assms] and N = apart_key_neq [OF assms(1)]
  have al: "step_store kind ml hb A (el_key e) (el_view e) m x = None \<longleftrightarrow> m x = None" for x
    by (rule step_store_alloc) (use D(2,3) in auto)
  show ?thesis unfolding apart_def al
  proof (intro conjI ballI allI impI)
    show "distinct (map el_key es)" using D(1) by simp
  next
    fix e' assume e': "e' \<in> set es"
    then show "m (el_view e') \<noteq> None" using D(2) by simp
    fix u assume "this_addr (A(el_key e \<mapsto> a)) ml (el_key e') (el_view e') = Some u"
    then show "m u \<noteq> None" using D(3) [of e' u] e' N [OF e'] by simp
  next
    fix e' k u assume e': "e' \<in> set es" and "(A(el_key e \<mapsto> a)) k = Some u"
    then show "u \<noteq> el_view e'" using F(2) [OF e'] D(4) [of e' k u] by (auto split: if_splits)
  next
    fix e' e'' assume "e' \<in> set es" "e'' \<in> set es" "el_view e' = el_view e''"
    then show "e' = e''" using D(5) by simp
  next
    fix k k' u assume "(A(el_key e \<mapsto> a)) k = Some u" "(A(el_key e \<mapsto> a)) k' = Some u"
    then show "k = k'" using F(1) D(6) [of k u k'] by (auto split: if_splits)
  next
    fix e' k assume ml and e': "e' \<in> set es" and "(A(el_key e \<mapsto> a)) k = Some (el_key e')"
    then show "k = el_key e'" using F(3) [OF _ e'] D(7) [of e' k] by (auto split: if_splits)
  next
    fix e' e'' assume "ml" "e' \<in> set es" "e'' \<in> set es" "el_view e'' = el_key e'"
    then show "e'' = e'" using D(8) by simp
  qed
qed

lemma merge_list_run:
  assumes "wf_map H h" "apart (addr h) es m ml" "\<forall>e\<in>set es. el_key e \<noteq> 0 \<and> el_view e \<noteq> 0 \<and> el_hb e = H (el_key e)"
    "kind \<noteq> MERGE_UNORDERED" "ml \<Longrightarrow> kind = MERGE_INTO_LEFT"
  shows "\<exists>h' m'. merge_list kind ml es h m =
       Some (map (\<lambda>e. e\<lparr>el_view := dropped kind (this_addr (addr h) ml (el_key e) (el_view e)) (el_view e)\<rparr>) es, h', m') \<and>
     wf_map H h' \<and> merging h' = merging h \<and> is_leftmost_map h' = is_leftmost_map h \<and>
     (\<forall>e\<in>set es. addr h' (el_key e) = Some (step_addr kind ml (addr h) (el_key e) (el_view e))) \<and>
     (\<forall>k. k \<notin> el_key ` set es \<longrightarrow> addr h' k = addr h k) \<and>
     (\<forall>e\<in>set es. \<forall>u. this_addr (addr h) ml (el_key e) (el_view e) = Some u \<longrightarrow>
        m' (kept kind u (el_view e)) = Some (reduced kind (H (el_key e)) (the (m u)) (the (m (el_view e))))) \<and>
     (\<forall>x. (\<forall>e\<in>set es. this_addr (addr h) ml (el_key e) (el_view e) \<noteq> None \<longrightarrow> x \<noteq> step_addr kind ml (addr h) (el_key e) (el_view e)) \<longrightarrow> m' x = m x) \<and>
     (\<forall>x. m' x = None \<longleftrightarrow> m x = None) \<and> (\<forall>k k' u. addr h' k = Some u \<longrightarrow> addr h' k' = Some u \<longrightarrow> k = k')"
  using assms(1-3)
proof (induction es arbitrary: h m)
  case (Cons e es)
  let ?k = "el_key e" and ?v = "el_view e" and ?A = "addr h"
  let ?a = "step_addr kind ml ?A ?k ?v" and ?m = "step_store kind ml (H ?k) ?A ?k ?v m"
  note D = apartD [OF Cons.prems(2)] and F = apart_fresh [OF Cons.prems(2) refl [of "step_addr kind ml (addr h) (el_key e) (el_view e)"]] and N = apart_key_neq [OF Cons.prems(2)]
  obtain h1 where 1: "merge_elem kind ml e h m = Some (e\<lparr>el_view := dropped kind (this_addr ?A ml ?k ?v) ?v\<rparr>, h1, ?m)"
    "wf_map H h1" "addr h1 = ?A(?k \<mapsto> ?a)" "merging h1 = merging h" "is_leftmost_map h1 = is_leftmost_map h"
    using merge_elem_run [OF Cons.prems(1) refl refl _ _ _ assms(4,5), of e ml m] Cons.prems(3) D(2,3) [of e] by auto
  have ap: "apart (addr h1) es ?m ml" unfolding 1(3) by (rule apart_step [OF Cons.prems(2) refl])
  have ok: "\<forall>e\<in>set es. el_key e \<noteq> 0 \<and> el_view e \<noteq> 0 \<and> el_hb e = H (el_key e)" using Cons.prems(3) by simp
  note IH = Cons.IH [OF 1(2) ap ok]
  have same: "this_addr (addr h1) ml (el_key x) (el_view x) = this_addr ?A ml (el_key x) (el_view x)"
    "step_addr kind ml (addr h1) (el_key x) (el_view x) = step_addr kind ml ?A (el_key x) (el_view x)"
    "?m (el_view x) = m (el_view x)" if "x \<in> set es" for x
    using N [OF that] F(2) [OF that] by (simp_all add: 1(3) step_store_other)
  have sameu: "?m u = m u" if "x \<in> set es" "this_addr ?A ml (el_key x) (el_view x) = Some u" for x u
    using F(4) [OF that(1)] that(2) by (intro step_store_other) auto
  have al: "?m x = None \<longleftrightarrow> m x = None" for x by (rule step_store_alloc) (use D(2,3) in auto)
  obtain h' m' where 2: "merge_list kind ml es h1 ?m =
       Some (map (\<lambda>e. e\<lparr>el_view := dropped kind (this_addr (addr h1) ml (el_key e) (el_view e)) (el_view e)\<rparr>) es, h', m')"
     "wf_map H h'" "merging h' = merging h1" "is_leftmost_map h' = is_leftmost_map h1"
     "\<forall>e\<in>set es. addr h' (el_key e) = Some (step_addr kind ml (addr h1) (el_key e) (el_view e))"
     "\<forall>k. k \<notin> el_key ` set es \<longrightarrow> addr h' k = addr h1 k"
     "\<forall>e\<in>set es. \<forall>u. this_addr (addr h1) ml (el_key e) (el_view e) = Some u \<longrightarrow>
        m' (kept kind u (el_view e)) = Some (reduced kind (H (el_key e)) (the (?m u)) (the (?m (el_view e))))"
     "\<forall>x. (\<forall>e\<in>set es. this_addr (addr h1) ml (el_key e) (el_view e) \<noteq> None \<longrightarrow> x \<noteq> step_addr kind ml (addr h1) (el_key e) (el_view e)) \<longrightarrow> m' x = ?m x"
     "\<forall>x. m' x = None \<longleftrightarrow> ?m x = None" "\<forall>k k' u. addr h' k = Some u \<longrightarrow> addr h' k' = Some u \<longrightarrow> k = k'" using IH by blast
  have 3: "merge_list kind ml (e # es) h m =
       Some (map (\<lambda>e. e\<lparr>el_view := dropped kind (this_addr ?A ml (el_key e) (el_view e)) (el_view e)\<rparr>) (e # es), h', m')"
    using 1(1) 2(1) same(1) by (simp cong: map_cong)
  have nk: "?k \<notin> el_key ` set es" using D(1) by simp
  have 4: "\<forall>x\<in>set (e # es). addr h' (el_key x) = Some (step_addr kind ml ?A (el_key x) (el_view x))"
    using 2(5,6) same(2) nk by (simp add: 1(3))
  have 5: "\<forall>k. k \<notin> el_key ` set (e # es) \<longrightarrow> addr h' k = ?A k" using 2(6) by (simp add: 1(3))
  have own: "m' ?a = ?m ?a"
  proof (rule 2(8) [rule_format])
    fix x assume x: "x \<in> set es" "this_addr (addr h1) ml (el_key x) (el_view x) \<noteq> None"
    then obtain u where u: "this_addr ?A ml (el_key x) (el_view x) = Some u" using same(1) by auto
    then have "step_addr kind ml ?A (el_key x) (el_view x) = u \<or> step_addr kind ml ?A (el_key x) (el_view x) = el_view x"
      by (simp add: step_addr_def kept_def)
    then show "?a \<noteq> step_addr kind ml (addr h1) (el_key x) (el_view x)" using F(2,4) [OF x(1)] u same(2) [OF x(1)] by metis
  qed
  have 6: "\<forall>x\<in>set (e # es). \<forall>u. this_addr ?A ml (el_key x) (el_view x) = Some u \<longrightarrow>
        m' (kept kind u (el_view x)) = Some (reduced kind (H (el_key x)) (the (m u)) (the (m (el_view x))))"
    using 2(7) same sameu own by (auto simp: step_addr_def step_store_def)
  have 7: "\<forall>x. (\<forall>e\<in>set (e # es). this_addr ?A ml (el_key e) (el_view e) \<noteq> None \<longrightarrow> x \<noteq> step_addr kind ml ?A (el_key e) (el_view e)) \<longrightarrow> m' x = m x"
  proof (intro allI impI)
    fix x assume x: "\<forall>e\<in>set (e # es). this_addr ?A ml (el_key e) (el_view e) \<noteq> None \<longrightarrow> x \<noteq> step_addr kind ml ?A (el_key e) (el_view e)"
    then have "m' x = ?m x" by (intro 2(8) [rule_format]) (use same(1,2) in auto)
    also have "\<dots> = m x" using x by (auto simp: step_store_def step_addr_def split: option.splits)
    finally show "m' x = m x" .
  qed
  have 8: "\<forall>x. m' x = None \<longleftrightarrow> m x = None" using 2(9) al by simp
  have fl: "merging h' = merging h" "is_leftmost_map h' = is_leftmost_map h" using 1(4,5) 2(3,4) by simp_all
  show ?case by (rule exI [of _ h'], rule exI [of _ m']) (intro conjI 3 2(2) fl 4 5 6 7 8 2(10))
next
  case Nil
  then show ?case using apartD(6) [OF Nil(2)] by auto
qed

subsection \<open>Merging two maps\<close>

definition freed_views :: "'v elem list \<Rightarrow> 64 word list" where
  "freed_views es = map el_view (filter (\<lambda>e. el_view e \<noteq> 0 \<and> el_view e \<noteq> el_key e) es)"

lemma destroy_elems_run:
  assumes "distinct (freed_views es)" "\<forall>a\<in>set (freed_views es). m a \<noteq> None"
  shows "destroy_elems es m = Some (\<lambda>x. if x \<in> set (freed_views es) then None else m x)"
  using assms
proof (induction es arbitrary: m)
  case (Cons e es)
  let ?a = "el_view e"
  show ?case
  proof (cases "?a \<noteq> 0 \<and> ?a \<noteq> el_key e")
    case True
    then have f: "freed_views (e # es) = ?a # freed_views es" by (simp add: freed_views_def)
    have "destroy_elems es (m(?a := None)) = Some (\<lambda>x. if x \<in> set (freed_views es) then None else (m(?a := None)) x)"
      by (rule Cons.IH) (use Cons.prems f in auto)
    moreover have "destroy_elems (e # es) m = destroy_elems es (m(?a := None))"
      using True Cons.prems(2) f by (auto simp: destroy_elem_def el_is_leftmost_def)
    ultimately show ?thesis unfolding f by auto
  next
    case False
    then have f: "freed_views (e # es) = freed_views es" by (auto simp: freed_views_def)
    then show ?thesis using Cons False by (auto simp: destroy_elem_def el_is_leftmost_def)
  qed
qed (simp add: freed_views_def)

lemma addr_iff:
  assumes "wf_map H h"
  shows "addr h k = Some v \<longleftrightarrow> (\<exists>e\<in>set (all_elems (buckets h)). el_key e = k \<and> el_view e = v)"
  using views_iff [OF assms] by (auto simp: addr_def)

definition val :: "'v cilkred_map \<Rightarrow> 'v store \<Rightarrow> 64 word \<Rightarrow> 'v option" where
  "val h m k = Option.bind (addr h k) m"

text \<open>Whether the views of two maps do not overlap, on addresses: \<open>A\<close> is the map merged into.\<close>

definition separate :: "(64 word \<Rightarrow> 64 word option) \<Rightarrow> (64 word \<Rightarrow> 64 word option) \<Rightarrow> 'v store \<Rightarrow> bool \<Rightarrow> bool" where
  "separate A B m ml \<longleftrightarrow>
     (\<forall>k u. A k = Some u \<or> B k = Some u \<longrightarrow> m u \<noteq> None) \<and> (\<forall>k k' u. A k = Some u \<longrightarrow> B k' \<noteq> Some u) \<and>
     (\<forall>k k' u. A k = Some u \<longrightarrow> A k' = Some u \<longrightarrow> k = k') \<and> (\<forall>k k' u. B k = Some u \<longrightarrow> B k' = Some u \<longrightarrow> k = k') \<and>
     (ml \<longrightarrow> (\<forall>k. B k \<noteq> None \<longrightarrow> m k \<noteq> None \<and> (\<forall>k'. A k' = Some k \<or> B k' = Some k \<longrightarrow> k' = k)))"

lemma separate_apart:
  assumes "wf_map H other" "separate A (addr other) m ml"
  shows "apart A (all_elems (buckets other)) m ml"
proof -
  let ?es = "all_elems (buckets other)"
  have e: "addr other (el_key e) = Some (el_view e)" if "e \<in> set ?es" for e using addr_iff [OF assms(1)] that by blast
  have u: "e = e'" if "e \<in> set ?es" "e' \<in> set ?es" "el_key e = el_key e'" for e e'
    using that views_iff [OF assms(1)] by (metis option.inject)
  show ?thesis unfolding apart_def
  proof (intro conjI ballI allI impI)
    show "distinct (map el_key ?es)" by (rule wf_mapD(6) [OF assms(1)])
    fix e assume "e \<in> set ?es"
    then show "m (el_view e) \<noteq> None" using e assms(2) by (auto simp: separate_def)
    fix v assume "this_addr A ml (el_key e) (el_view e) = Some v"
    then show "m v \<noteq> None" using e [OF \<open>e \<in> set ?es\<close>] assms(2)
      by (auto simp: separate_def this_addr_def split: option.splits if_splits)
  qed (use e u assms(2) in \<open>unfold separate_def, metis option.distinct(1)\<close>)+
qed

lemma merge_run:
  assumes "wf_map H h" "wf_map H other" "separate (addr h) (addr other) m (is_leftmost_map h)" "\<not> is_leftmost_map other"
    "kind \<noteq> MERGE_UNORDERED" "is_leftmost_map h \<Longrightarrow> kind = MERGE_INTO_LEFT"
  defines "t \<equiv> \<lambda>k v. this_addr (addr h) (is_leftmost_map h) k v"
  obtains h' m' where "merge h other kind m = Some (h', m')" "wf_map H h'" "\<not> merging h'" "is_leftmost_map h' = is_leftmost_map h"
    "\<And>k. addr h' k = (case addr other k of None \<Rightarrow> addr h k | Some v \<Rightarrow> Some (case t k v of None \<Rightarrow> v | Some u \<Rightarrow> kept kind u v))"
    "\<And>k. val h' m' k = (case addr other k of None \<Rightarrow> val h m k | Some v \<Rightarrow>
        (case t k v of None \<Rightarrow> m v | Some u \<Rightarrow> Some (reduced kind (H k) (the (m u)) (the (m v)))))"
    "\<And>x. m' x = None \<longleftrightarrow> m x = None \<or> (\<exists>k v u. addr other k = Some v \<and> t k v = Some u \<and> x = dropped kind (Some u) v \<and> x \<noteq> k)"
    "\<forall>x. (\<forall>k. addr h' k \<noteq> Some x) \<longrightarrow> m' x = None \<or> m' x = m x" "\<forall>k k' u. addr h' k = Some u \<longrightarrow> addr h' k' = Some u \<longrightarrow> k = k'"
proof -
  let ?ml = "is_leftmost_map h" and ?es = "all_elems (buckets other)" and ?h = "h\<lparr>merging := True\<rparr>"
  let ?d = "\<lambda>e. dropped kind (t (el_key e) (el_view e)) (el_view e)"
  have sB: "addr h k = Some u \<Longrightarrow> addr other k' \<noteq> Some u" and iA: "addr h k = Some u \<Longrightarrow> addr h k' = Some u \<Longrightarrow> k = k'"
    and iB: "addr other k = Some u \<Longrightarrow> addr other k' = Some u \<Longrightarrow> k = k'"
    and lB: "is_leftmost_map h \<Longrightarrow> addr other k \<noteq> None \<Longrightarrow> addr other k' = Some k \<Longrightarrow> k' = k" for k k' u
    using assms(3) unfolding separate_def by blast+
  have wf0: "wf_map H ?h" and a0: "addr ?h = addr h" using assms(1) by (simp_all add: wf_map_def addr_def views_def fun_eq_iff)
  have ap: "apart (addr h) ?es m ?ml" by (rule separate_apart [OF assms(2,3)])
  note D = apartD [OF ap]
  have ok: "\<forall>e\<in>set ?es. el_key e \<noteq> 0 \<and> el_view e \<noteq> 0 \<and> el_hb e = H (el_key e)" using wf_mapD(5) [OF assms(2)] by blast
  obtain h1 m1 where 1: "merge_list kind ?ml ?es ?h m = Some (map (\<lambda>e. e\<lparr>el_view := ?d e\<rparr>) ?es, h1, m1)"
     "wf_map H h1" "is_leftmost_map h1 = is_leftmost_map ?h"
     "\<forall>e\<in>set ?es. addr h1 (el_key e) = Some (step_addr kind ?ml (addr h) (el_key e) (el_view e))"
     "\<forall>k. k \<notin> el_key ` set ?es \<longrightarrow> addr h1 k = addr h k"
     "\<forall>e\<in>set ?es. \<forall>u. t (el_key e) (el_view e) = Some u \<longrightarrow>
        m1 (kept kind u (el_view e)) = Some (reduced kind (H (el_key e)) (the (m u)) (the (m (el_view e))))"
     "\<forall>x. (\<forall>e\<in>set ?es. t (el_key e) (el_view e) \<noteq> None \<longrightarrow> x \<noteq> step_addr kind ?ml (addr h) (el_key e) (el_view e)) \<longrightarrow> m1 x = m x"
     "\<forall>x. m1 x = None \<longleftrightarrow> m x = None" "\<forall>k k' u. addr h1 k = Some u \<longrightarrow> addr h1 k' = Some u \<longrightarrow> k = k'"
    using merge_list_run [OF wf0 ap [folded a0] ok assms(5,6)] unfolding a0 t_def by blast
  obtain bs where 2: "merge_buckets kind ?ml (buckets other) ?h m = Some (bs, h1, m1)"
    "\<And>m. destroy_buckets bs m = destroy_elems (map (\<lambda>e. e\<lparr>el_view := ?d e\<rparr>) ?es) m"
    using merge_buckets_list [OF _ 1(1)] wf_mapD(3) [OF assms(2)] by blast
  let ?F = "freed_views (map (\<lambda>e. e\<lparr>el_view := ?d e\<rparr>) ?es)"
  have e: "addr other k = Some v \<longleftrightarrow> (\<exists>e\<in>set ?es. el_key e = k \<and> el_view e = v)" for k v by (rule addr_iff [OF assms(2)])
  have F: "?F = map ?d (filter (\<lambda>e. ?d e \<noteq> 0 \<and> ?d e \<noteq> el_key e) ?es)" by (simp add: freed_views_def filter_map comp_def)
  have tz: "u \<noteq> 0" if "t k v = Some u" "k \<noteq> 0" for k v u
    using that viewsD(2) [OF assms(1), of k] by (auto simp: t_def this_addr_def addr_def split: option.splits if_splits)
  have setF: "x \<in> set ?F \<longleftrightarrow> (\<exists>k v u. addr other k = Some v \<and> t k v = Some u \<and> x = dropped kind (Some u) v \<and> x \<noteq> k)" for x
  proof
    assume "x \<in> set ?F"
    then obtain y where y: "y \<in> set ?es" "?d y = x" "x \<noteq> 0" "x \<noteq> el_key y" unfolding F by auto
    then obtain u where "t (el_key y) (el_view y) = Some u" by (auto simp: dropped_def split: option.splits)
    then show "\<exists>k v u. addr other k = Some v \<and> t k v = Some u \<and> x = dropped kind (Some u) v \<and> x \<noteq> k" using y e by metis
  next
    assume "\<exists>k v u. addr other k = Some v \<and> t k v = Some u \<and> x = dropped kind (Some u) v \<and> x \<noteq> k"
    then obtain y u where y: "y \<in> set ?es" "t (el_key y) (el_view y) = Some u" "x = dropped kind (Some u) (el_view y)" "x \<noteq> el_key y"
      using e by metis
    then have "x \<noteq> 0" using tz ok by (auto simp: dropped_def)
    then show "x \<in> set ?F" unfolding F using y by force
  qed
  have tr: "t k v = Some u \<Longrightarrow> kind = MERGE_INTO_RIGHT \<Longrightarrow> addr h k = Some u" for k v u
    using assms(6) by (auto simp: t_def this_addr_def split: option.splits if_splits)
  have dist: "distinct ?F" unfolding F
  proof (rule distinct_map [THEN iffD2], intro conjI inj_onI)
    show "distinct (filter (\<lambda>e. ?d e \<noteq> 0 \<and> ?d e \<noteq> el_key e) ?es)" using D(1) by (simp add: distinct_map)
    fix y z assume "y \<in> set (filter (\<lambda>e. ?d e \<noteq> 0 \<and> ?d e \<noteq> el_key e) ?es)" "z \<in> set (filter (\<lambda>e. ?d e \<noteq> 0 \<and> ?d e \<noteq> el_key e) ?es)" "?d y = ?d z"
    moreover from this obtain u u' where "t (el_key y) (el_view y) = Some u" "t (el_key z) (el_view z) = Some u'"
      by (auto simp: dropped_def split: option.splits)
    ultimately have yz: "y \<in> set ?es" "z \<in> set ?es" "(if kind = MERGE_INTO_RIGHT then u = u' else el_view y = el_view z)"
      "t (el_key y) (el_view y) = Some u" "t (el_key z) (el_view z) = Some u'" by (auto simp: dropped_def)
    show "y = z"
    proof (cases "kind = MERGE_INTO_RIGHT")
      case True
      then have "el_key y = el_key z" using tr yz D(6) by metis
      then show ?thesis using yz(1,2) views_iff [OF assms(2)] by (metis option.inject)
    next
      case False
      then show ?thesis using yz D(5) by simp
    qed
  qed
  have alF: "\<forall>a\<in>set ?F. m1 a \<noteq> None"
  proof
    fix a assume "a \<in> set ?F"
    then obtain k v u where "addr other k = Some v" "t k v = Some u" "a = dropped kind (Some u) v" using setF by blast
    then show "m1 a \<noteq> None" using 1(8) D(2,3) e [of k v] by (auto simp: dropped_def t_def)
  qed
  let ?h' = "h1\<lparr>is_leftmost_map := is_leftmost_map h1, merging := False\<rparr>" and ?m' = "\<lambda>x. if x \<in> set ?F then None else m1 x"
  have run: "merge h other kind m = Some (?h', ?m')"
    using assms(4) 2 destroy_elems_run [OF dist alF] 1(3) by (simp add: merge_def Let_def destroy_reducer_map_def)
  have a1: "addr ?h' = addr h1" by (simp add: addr_def views_def fun_eq_iff)
  have A: "addr ?h' k = (case addr other k of None \<Rightarrow> addr h k | Some v \<Rightarrow> Some (case t k v of None \<Rightarrow> v | Some u \<Rightarrow> kept kind u v))" for k
  proof (cases "addr other k")
    case None
    then have "k \<notin> el_key ` set ?es" using e by (metis imageE option.distinct(1))
    then show ?thesis using 1(5) None unfolding a1 by simp
  next
    case (Some v)
    then obtain y where "y \<in> set ?es" "el_key y = k" "el_view y = v" using e by blast
    then show ?thesis using 1(4) Some unfolding a1 by (auto simp: step_addr_def t_def)
  qed
  have keep: "x \<notin> set ?F" if "addr ?h' k = Some x" for k x
  proof
    assume "x \<in> set ?F"
    then obtain k' v' u' where d: "addr other k' = Some v'" "t k' v' = Some u'" "x = dropped kind (Some u') v'" using setF by blast
    consider (R) "kind = MERGE_INTO_RIGHT" "addr h k' = Some x" | (L) "kind \<noteq> MERGE_INTO_RIGHT" "x = v'"
      using d tr by (auto simp: dropped_def)
    then show False
    proof cases
      case R
      show False
      proof (cases "addr other k")
        case None
        then have "addr h k = Some x" using A that by simp
        then show False using iA [OF _ R(2)] None d(1) by auto
      next
        case (Some v)
        then have "x = v" using A [of k] that R(1) by (auto simp: kept_def split: option.splits)
        then show False using sB [OF R(2)] Some by blast
      qed
    next
      case L
      show False
      proof (cases "addr other k")
        case None
        then have "addr h k = Some x" using A that by simp
        then show False using sB d(1) L(2) by blast
      next
        case (Some v)
        show False
        proof (cases "t k v")
          case None
          then have "x = v" using A [of k] that Some by simp
          then show False using iB [OF d(1), of k] d(1,2) L(2) Some None by auto
        next
          case (Some u)
          then have "x = u" using A [of k] that \<open>addr other k = Some v\<close> L(1) by (simp add: kept_def)
          moreover have "addr h k = Some u \<or> ?ml \<and> u = k \<and> k \<noteq> v" using Some by (auto simp: t_def this_addr_def split: option.splits if_splits)
          ultimately show False using sB [of k u k'] lB [of k k'] d(1) L(2) \<open>addr other k = Some v\<close> by auto
        qed
      qed
    qed
  qed
  have other: "m1 x = m x" if "addr ?h' k = Some x" "\<And>v. addr other k = Some v \<Longrightarrow> t k v = None" for k x
  proof (rule 1(7) [rule_format])
    fix y assume y: "y \<in> set ?es" "t (el_key y) (el_view y) \<noteq> None"
    then have "addr ?h' (el_key y) = Some (step_addr kind ?ml (addr h) (el_key y) (el_view y))" using 1(4) a1 by simp
    moreover have "el_key y \<noteq> k" using y that(2) e by (metis (no_types))
    ultimately show "x \<noteq> step_addr kind ?ml (addr h) (el_key y) (el_view y)" using that(1) 1(9) a1 by metis
  qed
  have V: "val ?h' ?m' k = (case addr other k of None \<Rightarrow> val h m k | Some v \<Rightarrow>
        (case t k v of None \<Rightarrow> m v | Some u \<Rightarrow> Some (reduced kind (H k) (the (m u)) (the (m v)))))" for k
  proof (cases "addr other k")
    case None
    then show ?thesis using A [of k] keep [of k] other [of k] by (cases "addr h k") (auto simp: val_def)
  next
    case (Some v)
    then obtain y where y: "y \<in> set ?es" "el_key y = k" "el_view y = v" using e by blast
    show ?thesis using A [of k] keep [of k] other [of k] Some 1(6) y by (cases "t k v") (auto simp: val_def)
  qed
  have al: "?m' x = None \<longleftrightarrow> m x = None \<or> (\<exists>k v u. addr other k = Some v \<and> t k v = Some u \<and> x = dropped kind (Some u) v \<and> x \<noteq> k)" for x
    using setF [of x] 1(8) by auto
  have fr: "\<forall>x. (\<forall>k. addr ?h' k \<noteq> Some x) \<longrightarrow> ?m' x = None \<or> ?m' x = m x"
  proof (intro allI impI)
    fix x assume "\<forall>k. addr ?h' k \<noteq> Some x"
    then have "m1 x = m x" by (intro 1(7) [rule_format]) (metis 1(4) a1)
    then show "?m' x = None \<or> ?m' x = m x" by simp
  qed
  have inj: "\<forall>k k' u. addr ?h' k = Some u \<longrightarrow> addr ?h' k' = Some u \<longrightarrow> k = k'" unfolding a1 by (rule 1(9))
  have "wf_map H ?h'" using 1(2) by (simp add: wf_map_def)
  then show thesis using that [OF run _ _ _ A V al fr inj] 1(3) by simp
qed

text \<open>The view of \<open>k\<close> on the left: its own, or the leftmost view if the left map is the leftmost one.\<close>

definition left_addr :: "'v cilkred_map \<Rightarrow> 'v cilkred_map \<Rightarrow> 64 word \<Rightarrow> 64 word option" where
  "left_addr L R k = (case addr R k of None \<Rightarrow> addr L k | Some v \<Rightarrow> this_addr (addr L) (is_leftmost_map L) k v)"

definition left_val :: "'v cilkred_map \<Rightarrow> 'v cilkred_map \<Rightarrow> 'v store \<Rightarrow> 64 word \<Rightarrow> 'v option" where
  "left_val L R m k = Option.bind (left_addr L R k) m"

text \<open>The specification: reducer by reducer, the left value times the right value.\<close>

definition merge_vals :: "('k \<Rightarrow> 'v \<Rightarrow> 'v \<Rightarrow> 'v) \<Rightarrow> ('k \<Rightarrow> 'v option) \<Rightarrow> ('k \<Rightarrow> 'v option) \<Rightarrow> 'k \<Rightarrow> 'v option" where
  "merge_vals red f g k = (case f k of None \<Rightarrow> g k | Some a \<Rightarrow> (case g k of None \<Rightarrow> Some a | Some b \<Rightarrow> Some (red k a b)))"

lemma separateD:
  assumes "separate A B m ml"
  shows "A k = Some u \<Longrightarrow> m u \<noteq> None" "B k = Some u \<Longrightarrow> m u \<noteq> None" "ml \<Longrightarrow> B k \<noteq> None \<Longrightarrow> m k \<noteq> None"
  using assms unfolding separate_def by blast+

lemma merge_maps_left:
  assumes "wf_map H L" "wf_map H R" "separate (addr L) (addr R) m (is_leftmost_map L)" "\<not> is_leftmost_map R"
  obtains h m' where "merge L R MERGE_INTO_LEFT m = Some (h, m')" "wf_map H h" "\<not> merging h" "is_leftmost_map h = is_leftmost_map L"
    "val h m' = merge_vals (\<lambda>k. reduce_fn (H k)) (left_val L R m) (val R m)"
    "\<And>k. addr h k = (case left_addr L R k of Some u \<Rightarrow> Some u | None \<Rightarrow> addr R k)"
    "\<And>x. m' x = None \<longleftrightarrow> m x = None \<or> (\<exists>k. left_addr L R k \<noteq> None \<and> addr R k = Some x \<and> x \<noteq> k)"
    "\<forall>x. (\<forall>k. addr h k \<noteq> Some x) \<longrightarrow> m' x = None \<or> m' x = m x" "\<forall>k k' u. addr h k = Some u \<longrightarrow> addr h k' = Some u \<longrightarrow> k = k'"
proof -
  let ?t = "this_addr (addr L) (is_leftmost_map L)"
  note S = separateD [OF assms(3)]
  obtain h m' where 1: "merge L R MERGE_INTO_LEFT m = Some (h, m')" "wf_map H h" "\<not> merging h" "is_leftmost_map h = is_leftmost_map L"
    "\<And>k. addr h k = (case addr R k of None \<Rightarrow> addr L k | Some v \<Rightarrow> Some (case ?t k v of None \<Rightarrow> v | Some u \<Rightarrow> kept MERGE_INTO_LEFT u v))"
    "\<And>k. val h m' k = (case addr R k of None \<Rightarrow> val L m k | Some v \<Rightarrow>
        (case ?t k v of None \<Rightarrow> m v | Some u \<Rightarrow> Some (reduced MERGE_INTO_LEFT (H k) (the (m u)) (the (m v)))))"
    "\<And>x. m' x = None \<longleftrightarrow> m x = None \<or> (\<exists>k v u. addr R k = Some v \<and> ?t k v = Some u \<and> x = dropped MERGE_INTO_LEFT (Some u) v \<and> x \<noteq> k)"
    "\<forall>x. (\<forall>k. addr h k \<noteq> Some x) \<longrightarrow> m' x = None \<or> m' x = m x" "\<forall>k k' u. addr h k = Some u \<longrightarrow> addr h k' = Some u \<longrightarrow> k = k'"
    by (rule merge_run [OF assms(1-4), of MERGE_INTO_LEFT]) (simp, simp, (rule that; assumption))
  show thesis
  proof (rule that [OF 1(1-4)])
    show "val h m' = merge_vals (\<lambda>k. reduce_fn (H k)) (left_val L R m) (val R m)"
    proof
      fix k
      have nn: "m u \<noteq> None" if "?t k v = Some u" "addr R k = Some v" for u v
        using that S(1) [of k u] S(3) [of k] by (auto simp: this_addr_def split: option.splits if_splits)
      show "val h m' k = merge_vals (\<lambda>k. reduce_fn (H k)) (left_val L R m) (val R m) k"
      proof (cases "addr R k")
        case None
        then show ?thesis using 1(6) [of k] by (simp add: merge_vals_def left_val_def left_addr_def val_def split: option.splits)
      next
        case (Some v)
        then obtain b where b: "m v = Some b" using S(2) [of k v] by auto
        show ?thesis
        proof (cases "?t k v")
          case None
          then show ?thesis using 1(6) [of k] Some b by (simp add: merge_vals_def left_val_def left_addr_def val_def)
        next
          case (Some u)
          then obtain a where "m u = Some a" using nn [OF Some \<open>addr R k = Some v\<close>] by auto
          then show ?thesis using 1(6) [of k] Some \<open>addr R k = Some v\<close> b
            by (simp add: merge_vals_def left_val_def left_addr_def val_def reduced_def)
        qed
      qed
    qed
    show "addr h k = (case left_addr L R k of Some u \<Rightarrow> Some u | None \<Rightarrow> addr R k)" for k
      using 1(5) [of k] by (auto simp: left_addr_def kept_def split: option.splits)
    show "m' x = None \<longleftrightarrow> m x = None \<or> (\<exists>k. left_addr L R k \<noteq> None \<and> addr R k = Some x \<and> x \<noteq> k)" for x
      unfolding 1(7) by (force simp: left_addr_def dropped_def)
  qed (rule 1(8), rule 1(9))
qed

lemma merge_maps_right:
  assumes "wf_map H L" "wf_map H R" "separate (addr L) (addr R) m False" "\<not> is_leftmost_map L" "\<not> is_leftmost_map R"
  obtains h m' where "merge R L MERGE_INTO_RIGHT m = Some (h, m')" "wf_map H h" "\<not> merging h" "is_leftmost_map h = is_leftmost_map L"
    "val h m' = merge_vals (\<lambda>k. reduce_fn (H k)) (left_val L R m) (val R m)"
    "\<And>k. addr h k = (case left_addr L R k of Some u \<Rightarrow> Some u | None \<Rightarrow> addr R k)"
    "\<And>x. m' x = None \<longleftrightarrow> m x = None \<or> (\<exists>k. left_addr L R k \<noteq> None \<and> addr R k = Some x \<and> x \<noteq> k)"
    "\<forall>x. (\<forall>k. addr h k \<noteq> Some x) \<longrightarrow> m' x = None \<or> m' x = m x" "\<forall>k k' u. addr h k = Some u \<longrightarrow> addr h k' = Some u \<longrightarrow> k = k'"
proof -
  note S = separateD [OF assms(3)]
  have t: "this_addr A False k v = A k" for A k v by (simp add: this_addr_def split: option.splits)
  have la: "left_addr L R k = addr L k" for k using assms(4) t by (simp add: left_addr_def split: option.splits)
  have sep: "separate (addr R) (addr L) m (is_leftmost_map R)" using assms(3,5) unfolding separate_def by blast
  obtain h m' where 1: "merge R L MERGE_INTO_RIGHT m = Some (h, m')" "wf_map H h" "\<not> merging h" "is_leftmost_map h = is_leftmost_map R"
    "\<And>k. addr h k = (case addr L k of None \<Rightarrow> addr R k | Some v \<Rightarrow> Some (case this_addr (addr R) (is_leftmost_map R) k v of None \<Rightarrow> v | Some u \<Rightarrow> kept MERGE_INTO_RIGHT u v))"
    "\<And>k. val h m' k = (case addr L k of None \<Rightarrow> val R m k | Some v \<Rightarrow>
        (case this_addr (addr R) (is_leftmost_map R) k v of None \<Rightarrow> m v | Some u \<Rightarrow> Some (reduced MERGE_INTO_RIGHT (H k) (the (m u)) (the (m v)))))"
    "\<And>x. m' x = None \<longleftrightarrow> m x = None \<or> (\<exists>k v u. addr L k = Some v \<and> this_addr (addr R) (is_leftmost_map R) k v = Some u \<and> x = dropped MERGE_INTO_RIGHT (Some u) v \<and> x \<noteq> k)"
    "\<forall>x. (\<forall>k. addr h k \<noteq> Some x) \<longrightarrow> m' x = None \<or> m' x = m x" "\<forall>k k' u. addr h k = Some u \<longrightarrow> addr h k' = Some u \<longrightarrow> k = k'"
    by (rule merge_run [OF assms(2,1) sep assms(4), of MERGE_INTO_RIGHT]) (simp, simp add: assms(5), (rule that; assumption))
  have lm: "is_leftmost_map R = False" using assms(5) by simp
  show thesis
  proof (rule that [OF 1(1-3)])
    show "is_leftmost_map h = is_leftmost_map L" using 1(4) assms(4,5) by simp
    show "val h m' = merge_vals (\<lambda>k. reduce_fn (H k)) (left_val L R m) (val R m)"
    proof
      fix k show "val h m' k = merge_vals (\<lambda>k. reduce_fn (H k)) (left_val L R m) (val R m) k"
        using 1(6) [of k] S(1,2) [of k] unfolding lm t by (auto simp: merge_vals_def left_val_def la val_def reduced_def split: option.splits)
    qed
    show "addr h k = (case left_addr L R k of Some u \<Rightarrow> Some u | None \<Rightarrow> addr R k)" for k
      using 1(5) [of k] unfolding lm t la by (auto simp: kept_def split: option.splits)
    show "m' x = None \<longleftrightarrow> m x = None \<or> (\<exists>k. left_addr L R k \<noteq> None \<and> addr R k = Some x \<and> x \<noteq> k)" for x
      unfolding 1(7) lm t la by (force simp: dropped_def)
  qed (rule 1(8), rule 1(9))
qed

lemma merge_maps_run:
  assumes "wf_map H L" "wf_map H R" "separate (addr L) (addr R) m (is_leftmost_map L)" "\<not> is_leftmost_map R"
  obtains h m' where "merge_maps (Some L) (Some R) m = Some (Some h, m')" "wf_map H h" "is_leftmost_map h = is_leftmost_map L"
    "val h m' = merge_vals (\<lambda>k. reduce_fn (H k)) (left_val L R m) (val R m)"
    "\<And>k. addr h k = (case left_addr L R k of Some u \<Rightarrow> Some u | None \<Rightarrow> addr R k)"
    "\<And>x. m' x = None \<longleftrightarrow> m x = None \<or> (\<exists>k. left_addr L R k \<noteq> None \<and> addr R k = Some x \<and> x \<noteq> k)"
    "\<forall>x. (\<forall>k. addr h k \<noteq> Some x) \<longrightarrow> m' x = None \<or> m' x = m x" "\<forall>k k' u. addr h k = Some u \<longrightarrow> addr h k' = Some u \<longrightarrow> k = k'"
proof (cases "is_leftmost_map L \<or> nelem L > nelem R")
  case True
  then have run: "merge_maps (Some L) (Some R) m = do { (h, m) \<leftarrow> merge L R MERGE_INTO_LEFT m; Some (Some h, m) }" by (auto simp: merge_maps_def)
  show thesis by (rule merge_maps_left [OF assms]) (rule that, simp add: run, assumption+)
next
  case False
  then have sep: "separate (addr L) (addr R) m False" "\<not> is_leftmost_map L" using assms(3) by auto
  have run: "merge_maps (Some L) (Some R) m = do { (h, m) \<leftarrow> merge R L MERGE_INTO_RIGHT m; Some (Some h, m) }" using False by (simp add: merge_maps_def)
  show thesis by (rule merge_maps_right [OF assms(1,2) sep assms(4)]) (rule that, simp add: run, assumption+)
qed

subsection \<open>The reducers of a strand\<close>

definition strand_ok :: "(64 word \<Rightarrow> 'v hyperobject) \<Rightarrow> 'v strand \<Rightarrow> bool" where
  "strand_ok H s \<longleftrightarrow> has_worker s \<and> wf_map H (current_map s) \<and> \<not> merging (current_map s) \<and>
     (\<forall>k u. addr (current_map s) k = Some u \<longrightarrow> vals s u \<noteq> None) \<and>
     (\<forall>k k' u. addr (current_map s) k = Some u \<longrightarrow> addr (current_map s) k' = Some u \<longrightarrow> k = k')"

text \<open>\<open>k\<close> is the address of the leftmost view of a hyperobject: it is there and no view of another reducer.\<close>

definition registered :: "(64 word \<Rightarrow> 'v hyperobject) \<Rightarrow> 64 word \<Rightarrow> 'v strand \<Rightarrow> bool" where
  "registered H k s \<longleftrightarrow> k \<noteq> 0 \<and> get_hyperobject_key (H k) = k \<and> vals s k \<noteq> None \<and> (\<forall>k'. addr (current_map s) k' = Some k \<longrightarrow> k' = k)"

lemma strand_okD:
  assumes "strand_ok H s"
  shows "has_worker s" "wf_map H (current_map s)" "\<not> merging (current_map s)" "addr (current_map s) k = Some u \<Longrightarrow> vals s u \<noteq> None"
    "addr (current_map s) k = Some u \<Longrightarrow> addr (current_map s) k' = Some u \<Longrightarrow> k = k'"
  using assms unfolding strand_ok_def by blast+

lemma current_map_Some [simp]: "current_map (s\<lparr>cur_map := Some h\<rparr>) = h" "current_map (s\<lparr>cur_map := Some h, vals := m\<rparr>) = h"
  by (simp_all add: current_map_def)

lemma strand_ok_insert:
  assumes "strand_ok H s" "wf_map H h" "\<not> merging h" "addr h = (addr (current_map s))(k \<mapsto> v)" "m v \<noteq> None" "\<And>x. vals s x \<noteq> None \<Longrightarrow> m x \<noteq> None"
    "\<And>k'. addr (current_map s) k' = Some v \<Longrightarrow> k' = k"
  shows "strand_ok H (s\<lparr>cur_map := Some h, vals := m\<rparr>)"
  unfolding strand_ok_def current_map_Some assms(4) using strand_okD [OF assms(1)] assms(2,3,5-7) by (auto split: if_splits)

lemma lookup_again:
  assumes "strand_ok H s" "cur_map s = Some h" "addr h k = Some a" "get_hyperobject_key (H k) = k"
  shows "hyper_lookup f (H k) s = Some (a, s)"
proof -
  have h: "current_map s = h" using assms(2) by (simp add: current_map_def)
  obtain e where e: "views h k = Some e" "el_view e = a" using assms(3) by (auto simp: addr_def)
  have "s\<lparr>cur_map := Some h\<rparr> = s" using assms(2) by (cases s) simp
  then show ?thesis using strand_okD [OF assms(1)] lookup_run [of H h k] e assms(4) by (simp add: hyper_lookup_def Let_def h)
qed

lemma hyper_lookup_run:
  assumes "strand_ok H s" "registered H k s" "fresh \<noteq> 0" "vals s fresh = None"
  obtains a s' h where "hyper_lookup fresh (H k) s = Some (a, s')" "strand_ok H s'" "cur_map s' = Some h"
    "is_leftmost_map h = is_leftmost_map (current_map s)" "addr h = (addr (current_map s))(k \<mapsto> a)"
    "case addr (current_map s) k of Some u \<Rightarrow> a = u \<and> vals s' = vals s
     | None \<Rightarrow> if is_leftmost_map (current_map s) then a = k \<and> vals s' = vals s else a = fresh \<and> vals s' = (vals s)(fresh \<mapsto> identity_fn (H k))"
proof -
  let ?h = "current_map s"
  note S = strand_okD [OF assms(1)]
  have k: "k \<noteq> 0" "get_hyperobject_key (H k) = k" "vals s k \<noteq> None" "\<And>k'. addr ?h k' = Some k \<Longrightarrow> k' = k" using assms(2) by (auto simp: registered_def)
  show thesis
  proof (cases "views ?h k")
    case (Some e)
    have "addr ?h k = Some (el_view e)" using Some by (simp add: addr_def)
    moreover have "hyper_lookup fresh (H k) s = Some (el_view e, s\<lparr>cur_map := Some ?h\<rparr>)"
      using S(1,3) k(2) Some by (simp add: hyper_lookup_def Let_def lookup_run [OF S(2)])
    moreover have "strand_ok H (s\<lparr>cur_map := Some ?h\<rparr>)" using assms(1) by (simp add: strand_ok_def)
    ultimately show thesis by (intro that [of "el_view e" "s\<lparr>cur_map := Some ?h\<rparr>" ?h]) auto
  next
    case None
    define v where "v = (if is_leftmost_map ?h then k else fresh)"
    define m where "m = (if is_leftmost_map ?h then vals s else (vals s)(fresh \<mapsto> identity_fn (H k)))"
    have v: "v \<noteq> 0" "m v \<noteq> None" "\<And>x. vals s x \<noteq> None \<Longrightarrow> m x \<noteq> None" using assms(3) k(1,3) by (auto simp: v_def m_def)
    have nv: "k' = k" if "addr ?h k' = Some v" for k' using that k(4) S(4) [OF that] assms(4) by (auto simp: v_def split: if_splits)
    obtain h where h: "rehash_and_insert k (H k) v ?h = Some h" "wf_map H h" "views h = (views ?h)(k \<mapsto> \<lparr>el_key = k, el_hb = H k, el_view = v\<rparr>)"
      "merging h = merging ?h" "is_leftmost_map h = is_leftmost_map ?h" by (rule rehash_and_insert_run [OF S(2) k(1) v(1) None])
    have a: "addr h = (addr ?h)(k \<mapsto> v)" using h(3) by simp
    have run: "hyper_lookup fresh (H k) s = Some (v, s\<lparr>cur_map := Some h, vals := m\<rparr>)"
      using S(1,3) k(2) None h(1) by (simp add: hyper_lookup_def Let_def lookup_run [OF S(2)] get_leftmost_view_def v_def m_def split: if_splits)
    have "strand_ok H (s\<lparr>cur_map := Some h, vals := m\<rparr>)"
      by (rule strand_ok_insert [OF assms(1) h(2) _ a]) (use S(3) h(4) v(2,3) nv in auto)
    then show thesis
      by (rule that [OF run]) (use h(5) a None in \<open>simp_all add: addr_def v_def m_def\<close>)
  qed
qed

lemma hyper_create_run:
  assumes "strand_ok H s" "registered H k s" "addr (current_map s) k = None"
  obtains s' h where "hyper_create (H k) s = Some s'" "strand_ok H s'" "cur_map s' = Some h" "addr h = (addr (current_map s))(k \<mapsto> k)" "vals s' = vals s"
    "is_leftmost_map h = is_leftmost_map (current_map s)"
proof -
  let ?h = "current_map s"
  note S = strand_okD [OF assms(1)]
  have k: "k \<noteq> 0" "get_hyperobject_key (H k) = k" "vals s k \<noteq> None" "\<And>k'. addr ?h k' = Some k \<Longrightarrow> k' = k" using assms(2) by (auto simp: registered_def)
  have None: "views ?h k = None" using assms(3) by (simp add: addr_def)
  obtain h where h: "rehash_and_insert k (H k) k ?h = Some h" "wf_map H h" "views h = (views ?h)(k \<mapsto> \<lparr>el_key = k, el_hb = H k, el_view = k\<rparr>)"
    "merging h = merging ?h" "is_leftmost_map h = is_leftmost_map ?h" by (rule rehash_and_insert_run [OF S(2) k(1) k(1) None])
  have a: "addr h = (addr ?h)(k \<mapsto> k)" using h(3) by simp
  have run: "hyper_create (H k) s = Some (s\<lparr>cur_map := Some h\<rparr>)"
    using S(1,3) k(2) None h(1) by (simp add: hyper_create_def Let_def lookup_run [OF S(2)] get_leftmost_view_def)
  have "strand_ok H (s\<lparr>cur_map := Some h, vals := vals s\<rparr>)" by (rule strand_ok_insert [OF assms(1) h(2) _ a]) (use S(3) h(4) k in simp_all)
  then show thesis using that [OF run] a h(5) by simp
qed

text \<open>A reducer can be destroyed exactly where its leftmost view is current.\<close>

lemma hyper_destroy_eq:
  assumes "strand_ok H s" "cur_map s = Some h" "get_hyperobject_key (H k) = k"
  shows "hyper_destroy (H k) s = (if addr h k = Some k
     then Some (s\<lparr>cur_map := Some ((upd_bucket k (\<lambda>xs. remove_in xs k) h)\<lparr>nelem := nelem h - 1\<rparr>)\<rparr>) else None)"
proof -
  have h: "current_map s = h" using assms(2) by (simp add: current_map_def)
  note S = strand_okD [OF assms(1), unfolded h]
  have n: "nelem (upd_bucket k f h) = nelem h" for f by (simp add: upd_bucket_def Let_def)
  show ?thesis
  proof (cases "views h k")
    case None
    then show ?thesis using S(1,3) assms(2,3) by (simp add: hyper_destroy_def Let_def lookup_run [OF S(2)] addr_def)
  next
    case (Some e)
    then show ?thesis using S(1,3) assms(2,3) viewsD(1) [OF S(2) Some]
      by (auto simp: hyper_destroy_def Let_def lookup_run [OF S(2)] addr_def el_is_leftmost_def destroy_elem_def n)
  qed
qed

subsection \<open>Properties\<close>

text \<open>C4: merging two reducer maps is the merge of what they mean. For well-formed hash maps whose views do not
  overlap, \<^verbatim>\<open>merge_reducer_maps\<close> succeeds, whichever map it merges into; the map it returns is well formed
  and gives every reducer the left value times the right value; the view
  object on the left survives (for the leftmost map also a leftmost view not yet in it); and of all views exactly the right ones of reducers
  present on both sides are freed, each once, unless such a view is the leftmost view itself; nothing else in the store changes.\<close>

theorem reducer_map_merge:
  assumes "wf_map H L" and "wf_map H R" and "separate (addr L) (addr R) m (is_leftmost_map L)" and "\<not> is_leftmost_map R"
  shows "\<exists>h m'. merge_maps (Some L) (Some R) m = Some (Some h, m') \<and> wf_map H h \<and> is_leftmost_map h = is_leftmost_map L \<and>
     val h m' = merge_vals (\<lambda>k. reduce_fn (H k)) (left_val L R m) (val R m) \<and>
     (\<forall>k. addr h k = (case left_addr L R k of Some u \<Rightarrow> Some u | None \<Rightarrow> addr R k)) \<and>
     (\<forall>x. m' x = None \<longleftrightarrow> m x = None \<or> (\<exists>k. left_addr L R k \<noteq> None \<and> addr R k = Some x \<and> x \<noteq> k)) \<and>
     (\<forall>x. (\<forall>k. addr h k \<noteq> Some x) \<longrightarrow> m' x = None \<or> m' x = m x)"
  by (rule merge_maps_run [OF assms]) blast

text \<open>C5: a strand sees one view per reducer. Looking a reducer up in any well-formed map succeeds and returns the view
  the map has for it; a reducer that is not in the map gets its leftmost view if this is the leftmost strand, else a new view with the
  monoid's identity; no other view moves or changes, and a second lookup returns the same view and changes nothing.\<close>

theorem hyper_lookup_spec:
  assumes "strand_ok H s" and "registered H k s" and "fresh \<noteq> 0" and "vals s fresh = None"
  shows "\<exists>a s'. hyper_lookup fresh (H k) s = Some (a, s') \<and> strand_ok H s' \<and> addr (current_map s') = (addr (current_map s))(k \<mapsto> a) \<and>
     (case addr (current_map s) k of Some u \<Rightarrow> a = u \<and> vals s' = vals s
      | None \<Rightarrow> if is_leftmost_map (current_map s) then a = k \<and> vals s' = vals s else a = fresh \<and> vals s' = (vals s)(fresh \<mapsto> identity_fn (H k))) \<and>
     (\<forall>f. hyper_lookup f (H k) s' = Some (a, s'))"
proof -
  obtain a s' h where 1: "hyper_lookup fresh (H k) s = Some (a, s')" "strand_ok H s'" "cur_map s' = Some h"
    "is_leftmost_map h = is_leftmost_map (current_map s)" "addr h = (addr (current_map s))(k \<mapsto> a)"
    "case addr (current_map s) k of Some u \<Rightarrow> a = u \<and> vals s' = vals s
     | None \<Rightarrow> if is_leftmost_map (current_map s) then a = k \<and> vals s' = vals s else a = fresh \<and> vals s' = (vals s)(fresh \<mapsto> identity_fn (H k))"
    by (rule hyper_lookup_run [OF assms])
  have "hyper_lookup f (H k) s' = Some (a, s')" for f
    by (rule lookup_again [OF 1(2,3)]) (use 1(5) assms(2) in \<open>auto simp: registered_def\<close>)
  then show ?thesis using 1 by (auto simp: current_map_def)
qed

text \<open>registering and unregistering a reducer is a round trip. A reducer created in a strand that does not know it yet
  has its initial value as its view; destroying it there succeeds, frees nothing and leaves the
  other reducers of the strand as they were; from then on destroying it again is an error.\<close>

theorem hyper_create_destroy_roundtrip:
  assumes "strand_ok H s" and "registered H k s" and "addr (current_map s) k = None"
  shows "\<exists>s1 s2. hyper_create (H k) s = Some s1 \<and> (\<forall>f. hyper_lookup f (H k) s1 = Some (k, s1)) \<and> hyper_destroy (H k) s1 = Some s2 \<and>
     strand_ok H s2 \<and> addr (current_map s2) = addr (current_map s) \<and> vals s2 = vals s \<and> hyper_destroy (H k) s2 = None"
proof -
  have k: "get_hyperobject_key (H k) = k" using assms(2) by (simp add: registered_def)
  obtain s1 h where 1: "hyper_create (H k) s = Some s1" "strand_ok H s1" "cur_map s1 = Some h" "addr h = (addr (current_map s))(k \<mapsto> k)" "vals s1 = vals s"
    by (rule hyper_create_run [OF assms])
  define h2 where "h2 = (upd_bucket k (\<lambda>xs. remove_in xs k) h)\<lparr>nelem := nelem h - 1\<rparr>"
  let ?s2 = "s1\<lparr>cur_map := Some h2\<rparr>"
  have ch: "current_map s1 = h" using 1(3) by (simp add: current_map_def)
  note S = strand_okD [OF 1(2), unfolded ch]
  obtain e where e: "views h k = Some e" using 1(4) by (auto simp: addr_def fun_eq_iff split: if_splits)
  have r: "wf_map H h2" "views h2 = (views h)(k := None)" using remove_run [OF S(2) e] by (simp_all add: h2_def)
  have a: "addr h2 = addr (current_map s)"
  proof
    fix k' show "addr h2 k' = addr (current_map s) k'" using r(2) fun_cong [OF 1(4), of k'] assms(3) by (auto simp: addr_def split: if_splits)
  qed
  have ok: "strand_ok H ?s2" unfolding strand_ok_def current_map_Some a
    using S(1) r(1) strand_okD [OF assms(1)] 1(5) S(3) by (auto simp: h2_def upd_bucket_def Let_def)
  have d: "hyper_destroy (H k) s1 = Some ?s2" using hyper_destroy_eq [OF 1(2,3) k] 1(4) by (simp add: h2_def)
  have "hyper_destroy (H k) ?s2 = None" using hyper_destroy_eq [OF ok _ k, of h2] a assms(3) by simp
  moreover have "hyper_lookup f (H k) s1 = Some (k, s1)" for f by (rule lookup_again [OF 1(2,3) _ k]) (simp add: 1(4))
  ultimately show ?thesis using 1 d ok a by auto
qed

subsection \<open>Witnesses\<close>

text \<open>Two strings under construction; the left map has the first reducer, the right map both.\<close>

definition str_hb :: "64 word \<Rightarrow> string hyperobject" where
  "str_hb k = \<lparr>hb_addr = k - 8, view_offset = 8, identity_fn = [], reduce_fn = (@)\<rparr>"

definition one_map :: "64 word \<Rightarrow> 64 word \<Rightarrow> string cilkred_map" where
  "one_map k v = the (rehash_and_insert k (str_hb k) v make_reducer_map)"

definition two_map :: "string cilkred_map" where
  "two_map = the (rehash_and_insert 200 (str_hb 200) 2200 (one_map 100 2100))"

definition str_store :: "string store" where
  "str_store = [1100 \<mapsto> ''ab'', 2100 \<mapsto> ''c'', 2200 \<mapsto> ''d'', 300 \<mapsto> ''z'']"

lemma make_map_ok: "wf_map H make_reducer_map" "views make_reducer_map = Map.empty" "addr make_reducer_map = Map.empty"
  by (auto simp: wf_map_def make_reducer_map_def views_def addr_def fun_eq_iff intro: exI [of _ 0])

lemma one_map_ok:
  assumes "k \<noteq> 0" "v \<noteq> 0"
  shows "wf_map str_hb (one_map k v)" "addr (one_map k v) = [k \<mapsto> v]" "\<not> is_leftmost_map (one_map k v)" "\<not> merging (one_map k v)"
    "views (one_map k v) k' = None \<longleftrightarrow> k' \<noteq> k"
proof -
  let ?m = "make_reducer_map :: string cilkred_map"
  have n: "views ?m k = None" by (simp add: make_map_ok)
  obtain h where h: "rehash_and_insert k (str_hb k) v make_reducer_map = Some h" "wf_map str_hb h"
    "views h = (views make_reducer_map)(k \<mapsto> \<lparr>el_key = k, el_hb = str_hb k, el_view = v\<rparr>)" "merging h = merging ?m"
    "is_leftmost_map h = is_leftmost_map ?m"
    by (rule rehash_and_insert_run [OF make_map_ok(1) assms n, of str_hb])
  have f: "\<not> merging ?m" "\<not> is_leftmost_map ?m" by (simp_all add: make_reducer_map_def)
  from h show "wf_map str_hb (one_map k v)" "addr (one_map k v) = [k \<mapsto> v]" "\<not> is_leftmost_map (one_map k v)" "\<not> merging (one_map k v)"
    "views (one_map k v) k' = None \<longleftrightarrow> k' \<noteq> k"
    using addr_upd [OF h(3)] f by (auto simp: one_map_def make_map_ok)
qed

lemma two_map_ok: "wf_map str_hb two_map" "addr two_map = [100 \<mapsto> 2100, 200 \<mapsto> 2200]" "\<not> is_leftmost_map two_map"
proof -
  have 1: "wf_map str_hb (one_map 100 2100)" "views (one_map 100 2100) 200 = None" using one_map_ok [of 100 2100] by auto
  obtain h where h: "rehash_and_insert 200 (str_hb 200) 2200 (one_map 100 2100) = Some h" "wf_map str_hb h"
    "views h = (views (one_map 100 2100))(200 \<mapsto> \<lparr>el_key = 200, el_hb = str_hb 200, el_view = 2200\<rparr>)"
    "is_leftmost_map h = is_leftmost_map (one_map 100 2100)"
    by (rule rehash_and_insert_run [OF 1(1) _ _ 1(2), of 2200]) (simp, simp, (rule that; assumption))
  then show "wf_map str_hb two_map" "addr two_map = [100 \<mapsto> 2100, 200 \<mapsto> 2200]" "\<not> is_leftmost_map two_map"
    using addr_upd [OF h(3)] one_map_ok [of 100 2100] by (simp_all add: two_map_def)
qed

lemma str_separate: "separate [100 \<mapsto> 1100] [100 \<mapsto> 2100, 200 \<mapsto> 2200] str_store False"
  by (auto simp: separate_def str_store_def split: if_splits)

theorem reducer_map_merge_witness:
  "\<exists>h m'. merge_maps (Some (one_map 100 1100)) (Some two_map) str_store = Some (Some h, m') \<and>
     val h m' 100 = Some ''abc'' \<and> val h m' 200 = Some ''d'' \<and> addr h 100 = Some 1100 \<and> m' 2100 = None \<and> m' 2200 = Some ''d''"
proof -
  have L: "wf_map str_hb (one_map 100 1100)" "addr (one_map 100 1100) = [100 \<mapsto> 1100]" "\<not> is_leftmost_map (one_map 100 1100)"
    using one_map_ok [of 100 1100] by simp_all
  have "separate (addr (one_map 100 1100)) (addr two_map) str_store (is_leftmost_map (one_map 100 1100))"
    using str_separate L two_map_ok by simp
  from reducer_map_merge [OF L(1) two_map_ok(1) this two_map_ok(3)] obtain h m' where
    1: "merge_maps (Some (one_map 100 1100)) (Some two_map) str_store = Some (Some h, m')"
    "val h m' = merge_vals (\<lambda>k. reduce_fn (str_hb k)) (left_val (one_map 100 1100) two_map str_store) (val two_map str_store)"
    "\<forall>k. addr h k = (case left_addr (one_map 100 1100) two_map k of Some u \<Rightarrow> Some u | None \<Rightarrow> addr two_map k)"
    "\<forall>x. m' x = None \<longleftrightarrow> str_store x = None \<or> (\<exists>k. left_addr (one_map 100 1100) two_map k \<noteq> None \<and> addr two_map k = Some x \<and> x \<noteq> k)"
    by blast
  have la: "left_addr (one_map 100 1100) two_map k = [100 \<mapsto> 1100] k" for k
    using L two_map_ok(2) by (auto simp: left_addr_def this_addr_def split: option.splits)
  have v: "val h m' 100 = Some ''abc''" "val h m' 200 = Some ''d''"
    by (simp_all add: 1(2) merge_vals_def left_val_def la val_def two_map_ok(2) str_store_def str_hb_def)
  have a: "addr h 100 = Some 1100" "addr h 200 = Some 2200" using 1(3) la two_map_ok(2) by simp_all
  have "m' 2100 = None" using 1(4) la two_map_ok(2) by (auto intro!: exI [of _ 100])
  then show ?thesis using 1(1) v a by (auto simp: val_def)
qed

definition str_strand :: "string strand" where
  "str_strand = \<lparr>has_worker = True, cur_map = Some (one_map 100 2100), vals = str_store\<rparr>"

lemma str_strand_ok: "strand_ok str_hb str_strand" "registered str_hb 300 str_strand" "addr (current_map str_strand) = [100 \<mapsto> 2100]"
  "\<not> is_leftmost_map (current_map str_strand)"
  using one_map_ok [of 100 2100]
  by (auto simp: strand_ok_def registered_def str_strand_def current_map_def str_store_def get_hyperobject_key_def str_hb_def split: if_splits)

theorem hyper_lookup_spec_witness:
  "\<exists>s'. hyper_lookup 4000 (str_hb 300) str_strand = Some (4000, s') \<and> vals s' 4000 = Some [] \<and> hyper_lookup 5000 (str_hb 300) s' = Some (4000, s')"
proof -
  have "vals str_strand 4000 = None" by (simp add: str_strand_def str_store_def)
  from hyper_lookup_spec [OF str_strand_ok(1,2) _ this] show ?thesis using str_strand_ok(3,4) by (auto simp: str_hb_def)
qed

theorem hyper_create_destroy_roundtrip_witness:
  "\<exists>s1 s2. hyper_create (str_hb 300) str_strand = Some s1 \<and> hyper_destroy (str_hb 300) s1 = Some s2 \<and> hyper_destroy (str_hb 300) s2 = None \<and>
     addr (current_map s2) = [100 \<mapsto> 2100]"
  using hyper_create_destroy_roundtrip [OF str_strand_ok(1,2)] str_strand_ok(3) by auto

end
