(* ===== verification/Reducer_Lib.thy ===== *)
theory Reducer_Lib
  imports Reducer_Map Stolen_Return
begin

section \<open>The library of reducers (cilk/reducer\_*.h)\<close>

text \<open>
  A reducer of the library is a view class with an identity, update operations and a reduce operation. The
  promise of all of them is one contract: however the updates of a serial execution are
  cut into strands and in whatever way the strands' views are reduced, the value is that of the serial
  execution. \<open>update_monoid\<close> states it for values, \<open>reducer_view\<close> for the views that represent them;
  every view class of the library is an instance.
\<close>

subsection \<open>The contract\<close>

text \<open>\<open>A\<close>: the values that occur; \<open>L\<close>: the legal updates; \<open>e\<close>, \<open>act\<close>, \<open>mult\<close>: identity, update and reduction.\<close>

locale update_monoid =
  fixes A :: "'a \<Rightarrow> bool" and L :: "'x \<Rightarrow> bool" and e :: 'a and act :: "'x \<Rightarrow> 'a \<Rightarrow> 'a" and mult :: "'a \<Rightarrow> 'a \<Rightarrow> 'a"
  assumes e_in: "A e"
    and act_in: "L x \<Longrightarrow> A a \<Longrightarrow> A (act x a)"
    and mult_in: "A a \<Longrightarrow> A b \<Longrightarrow> A (mult a b)"
    and mult_e: "A a \<Longrightarrow> mult a e = a"
    and mult_act: "L x \<Longrightarrow> A a \<Longrightarrow> A b \<Longrightarrow> mult a (act x b) = act x (mult a b)"
begin

lemma fold_in: "list_all L xs \<Longrightarrow> A a \<Longrightarrow> A (fold act xs a)"
  by (induction xs arbitrary: a) (auto intro: act_in)

lemma mult_fold: "list_all L xs \<Longrightarrow> A a \<Longrightarrow> A b \<Longrightarrow> mult a (fold act xs b) = fold act xs (mult a b)"
  by (induction xs arbitrary: b) (auto simp: act_in mult_act)

lemma mult_log: "list_all L xs \<Longrightarrow> A a \<Longrightarrow> mult a (fold act xs e) = fold act xs a"
  by (simp add: mult_fold e_in mult_e)

end

locale reducer_view = update_monoid A L e act mult
  for A :: "'a \<Rightarrow> bool" and L :: "'x \<Rightarrow> bool" and e :: 'a and act :: "'x \<Rightarrow> 'a \<Rightarrow> 'a" and mult :: "'a \<Rightarrow> 'a \<Rightarrow> 'a" +
  fixes vok :: "'v \<Rightarrow> bool" and sem :: "'v \<Rightarrow> 'a" and ident :: 'v and upd :: "'x \<Rightarrow> 'v \<Rightarrow> 'v" and red :: "'v \<Rightarrow> 'v \<Rightarrow> 'v"
  assumes sem_in: "vok v \<Longrightarrow> A (sem v)"
    and ident_ok: "vok ident"
    and upd_ok: "L x \<Longrightarrow> vok v \<Longrightarrow> vok (upd x v)"
    and red_ok: "vok u \<Longrightarrow> vok v \<Longrightarrow> vok (red u v)"
    and sem_ident: "sem ident = e"
    and sem_upd: "L x \<Longrightarrow> vok v \<Longrightarrow> sem (upd x v) = act x (sem v)"
    and sem_red: "vok u \<Longrightarrow> vok v \<Longrightarrow> sem (red u v) = mult (sem u) (sem v)"

text \<open>A view whose representation is associative as well: the runtime may bracket the reductions as it likes.\<close>

locale assoc_view = reducer_view A L e act mult vok sem ident upd red
  for A :: "'a \<Rightarrow> bool" and L :: "'x \<Rightarrow> bool" and e :: 'a and act :: "'x \<Rightarrow> 'a \<Rightarrow> 'a" and mult :: "'a \<Rightarrow> 'a \<Rightarrow> 'a"
    and vok :: "'v \<Rightarrow> bool" and sem :: "'v \<Rightarrow> 'a" and ident :: 'v and upd :: "'x \<Rightarrow> 'v \<Rightarrow> 'v" and red :: "'v \<Rightarrow> 'v \<Rightarrow> 'v" +
  assumes red_assoc: "red (red u v) w = red u (red v w)"

text \<open>The tree of strands of an execution. A strand that starts after a steal starts with an identity view; where two
  parts join, the right one is reduced into the left.\<close>

datatype 'x strands = Strand "'x list" | Join "'x strands" "'x strands"

fun serial_log :: "'x strands \<Rightarrow> 'x list" where
  "serial_log (Strand xs) = xs"
| "serial_log (Join l r) = serial_log l @ serial_log r"

fun run_strands :: "('x \<Rightarrow> 'v \<Rightarrow> 'v) \<Rightarrow> ('v \<Rightarrow> 'v \<Rightarrow> 'v) \<Rightarrow> 'v \<Rightarrow> 'v \<Rightarrow> 'x strands \<Rightarrow> 'v" where
  "run_strands upd red ident v (Strand xs) = fold upd xs v"
| "run_strands upd red ident v (Join l r) =
     red (run_strands upd red ident v l) (run_strands upd red ident ident r)"

context reducer_view
begin

lemma run_fold: "list_all L xs \<Longrightarrow> vok v \<Longrightarrow> vok (fold upd xs v) \<and> sem (fold upd xs v) = fold act xs (sem v)"
  by (induction xs arbitrary: v) (auto simp: upd_ok sem_upd)

lemma run_ok: "list_all L (serial_log t) \<Longrightarrow> vok v \<Longrightarrow>
   vok (run_strands upd red ident v t) \<and> sem (run_strands upd red ident v t) = fold act (serial_log t) (sem v)"
proof (induction t arbitrary: v)
  case (Strand xs)
  then show ?case using run_fold by simp
next
  case (Join l r)
  then have l: "vok (run_strands upd red ident v l)" "sem (run_strands upd red ident v l) = fold act (serial_log l) (sem v)"
    and r: "vok (run_strands upd red ident ident r)" "sem (run_strands upd red ident ident r) = fold act (serial_log r) e"
    using ident_ok by (auto simp: sem_ident)
  show ?case using l r Join.prems by (auto simp: sem_red red_ok mult_log fold_in sem_in)
qed

lemmas parallel_is_serial = run_ok [THEN conjunct2]

end

subsection \<open>Sums, products and bitwise operations\<close>

text \<open>
  \<^verbatim>\<open>scalar_view\<close>: the view is its value. Values are machine words, with the wrap-around of the unsigned types.
  An assignment \<^verbatim>\<open>*r = *r + a - b\<close> builds a proxy for the part after \<^verbatim>\<open>*r\<close> and
  adds it to the view; the proxy remembers the view it was made from.
\<close>

datatype 'n summand = Plus 'n | Minus 'n

record 'n rhs_proxy =
  m_view :: nat
  px_value :: 'n

definition op_add_proxy :: "nat \<Rightarrow> 'a::len word summand \<Rightarrow> 'a word rhs_proxy" where
  "op_add_proxy view a = \<lparr>m_view = view, px_value = (case a of Plus x \<Rightarrow> x | Minus x \<Rightarrow> - x)\<rparr>"

definition op_add_proxy_op :: "'a::len word summand \<Rightarrow> 'a word rhs_proxy \<Rightarrow> 'a word rhs_proxy" where
  "op_add_proxy_op a p = p\<lparr>px_value := (case a of Plus x \<Rightarrow> px_value p + x | Minus x \<Rightarrow> px_value p - x)\<rparr>"

definition op_add_assign :: "nat \<Rightarrow> 'a::len word rhs_proxy \<Rightarrow> 'a word \<Rightarrow> 'a word option" where
  "op_add_assign this rhs v = do { cilk_assert (this = m_view rhs); Some (v + px_value rhs) }"

datatype 'n add_op = Plus_eq 'n | Minus_eq 'n | Pre_incr | Post_incr | Pre_decr | Post_decr | Assign_sum "'n summand" "'n summand list"

definition op_add_expr :: "nat \<Rightarrow> 'a::len word summand \<Rightarrow> 'a word summand list \<Rightarrow> 'a word rhs_proxy" where
  "op_add_expr view a as = fold op_add_proxy_op as (op_add_proxy view a)"

fun op_add_view :: "nat \<Rightarrow> 'a::len word add_op \<Rightarrow> 'a word \<Rightarrow> 'a word option" where
  "op_add_view this (Plus_eq x) v = Some (v + x)"
| "op_add_view this (Minus_eq x) v = Some (v - x)"
| "op_add_view this Pre_incr v = Some (v + 1)"
| "op_add_view this Post_incr v = Some (v + 1)"
| "op_add_view this Pre_decr v = Some (v - 1)"
| "op_add_view this Post_decr v = Some (v - 1)"
| "op_add_view this (Assign_sum a as) v = op_add_assign this (op_add_expr this a as) v"

definition op_add_identity :: "'a::len word" where "op_add_identity = 0"
definition op_add_reduce :: "'a::len word \<Rightarrow> 'a word \<Rightarrow> 'a word" where "op_add_reduce l r = l + r"

text \<open>What an update adds.\<close>

fun signed_amount :: "'a::len word summand \<Rightarrow> 'a word" where
  "signed_amount (Plus x) = x"
| "signed_amount (Minus x) = - x"

fun add_amount :: "'a::len word add_op \<Rightarrow> 'a word" where
  "add_amount (Plus_eq x) = x"
| "add_amount (Minus_eq x) = - x"
| "add_amount Pre_incr = 1"
| "add_amount Post_incr = 1"
| "add_amount Pre_decr = - 1"
| "add_amount Post_decr = - 1"
| "add_amount (Assign_sum a as) = sum_list (map signed_amount (a # as))"

lemma op_add_expr_sum: "px_value (fold op_add_proxy_op as p) = px_value p + sum_list (map signed_amount as) \<and> m_view (fold op_add_proxy_op as p) = m_view p"
  by (induction as arbitrary: p) (auto simp: op_add_proxy_op_def algebra_simps split: summand.splits)

lemma op_add_view_adds: "op_add_view this u v = Some (v + add_amount u)"
  by (cases u) (auto simp: op_add_assign_def op_add_expr_def op_add_expr_sum op_add_proxy_def split: summand.splits)

interpretation opadd: assoc_view "\<lambda>_. True" "\<lambda>_. True" "0 :: 'a::len word" "\<lambda>u v. v + add_amount u" "(+)"
  "\<lambda>_. True" id op_add_identity "\<lambda>u v. the (op_add_view this u v)" op_add_reduce
  by unfold_locales (auto simp: op_add_identity_def op_add_reduce_def op_add_view_adds algebra_simps)

text \<open>Multiplication and the bitwise operations: a compound assignment and an assignment through a proxy.\<close>

datatype 'n scalar_op = Op_eq 'n | Assign_op 'n "'n list"

definition proxy_expr :: "('n \<Rightarrow> 'n \<Rightarrow> 'n) \<Rightarrow> nat \<Rightarrow> 'n \<Rightarrow> 'n list \<Rightarrow> 'n rhs_proxy" where
  "proxy_expr f view a as = fold (\<lambda>x p. p\<lparr>px_value := f (px_value p) x\<rparr>) as \<lparr>m_view = view, px_value = a\<rparr>"

fun scalar_update :: "('n \<Rightarrow> 'n \<Rightarrow> 'n) \<Rightarrow> nat \<Rightarrow> 'n scalar_op \<Rightarrow> 'n \<Rightarrow> 'n option" where
  "scalar_update f this (Op_eq x) v = Some (f v x)"
| "scalar_update f this (Assign_op a as) v = do {
     let rhs = proxy_expr f this a as;
     cilk_assert (this = m_view rhs);
     Some (f v (px_value rhs)) }"

definition op_mul_view :: "nat \<Rightarrow> 'a::len word scalar_op \<Rightarrow> 'a word \<Rightarrow> 'a word option" where "op_mul_view = scalar_update (*)"
definition op_and_view :: "nat \<Rightarrow> 'a::len word scalar_op \<Rightarrow> 'a word \<Rightarrow> 'a word option" where "op_and_view = scalar_update (AND)"
definition op_or_view :: "nat \<Rightarrow> 'a::len word scalar_op \<Rightarrow> 'a word \<Rightarrow> 'a word option" where "op_or_view = scalar_update (OR)"
definition op_xor_view :: "nat \<Rightarrow> 'a::len word scalar_op \<Rightarrow> 'a word \<Rightarrow> 'a word option" where "op_xor_view = scalar_update (XOR)"

definition op_mul_identity :: "'a::len word" where "op_mul_identity = 1"
definition op_and_identity :: "'a::len word" where "op_and_identity = NOT 0"
definition op_or_identity :: "'a::len word" where "op_or_identity = 0"
definition op_xor_identity :: "'a::len word" where "op_xor_identity = 0"

definition op_mul_reduce :: "'a::len word \<Rightarrow> 'a word \<Rightarrow> 'a word" where "op_mul_reduce l r = l * r"
definition op_and_reduce :: "'a::len word \<Rightarrow> 'a word \<Rightarrow> 'a word" where "op_and_reduce l r = l AND r"
definition op_or_reduce :: "'a::len word \<Rightarrow> 'a word \<Rightarrow> 'a word" where "op_or_reduce l r = l OR r"
definition op_xor_reduce :: "'a::len word \<Rightarrow> 'a word \<Rightarrow> 'a word" where "op_xor_reduce l r = l XOR r"

text \<open>The reference: \<^verbatim>\<open>v = v op a1 op a2\<close> evaluated from the left.\<close>

fun scalar_ref :: "('n \<Rightarrow> 'n \<Rightarrow> 'n) \<Rightarrow> 'n scalar_op \<Rightarrow> 'n \<Rightarrow> 'n" where
  "scalar_ref f (Op_eq x) v = f v x"
| "scalar_ref f (Assign_op a as) v = foldl f v (a # as)"

lemma proxy_expr_foldl: "px_value (fold (\<lambda>x p. p\<lparr>px_value := f (px_value p) x\<rparr>) as p) = foldl f (px_value p) as \<and>
    m_view (fold (\<lambda>x p. p\<lparr>px_value := f (px_value p) x\<rparr>) as p) = m_view p"
  by (induction as arbitrary: p) auto

lemma foldl_regroup: "(\<And>a b c. f (f a b) c = f a (f b c)) \<Longrightarrow> f v (foldl f a as) = foldl f v (a # as)"
  by (induction as arbitrary: a) auto

lemma scalar_update_ref:
  "(\<And>a b c. f (f a b) c = f a (f b c)) \<Longrightarrow> scalar_update f this u v = Some (scalar_ref f u v)"
  using foldl_regroup [of f] by (cases u) (auto simp: proxy_expr_def Let_def proxy_expr_foldl)

locale scalar_monoid =
  fixes f :: "'n \<Rightarrow> 'n \<Rightarrow> 'n" and unit :: 'n
  assumes f_assoc: "f (f a b) c = f a (f b c)" and f_unit: "f a unit = a"
begin

lemma foldl_hom: "f a (foldl f b xs) = foldl f (f a b) xs"
  by (induction xs arbitrary: b) (auto simp: f_assoc)

lemma scalar_ref_hom: "f a (scalar_ref f u b) = scalar_ref f u (f a b)"
  by (cases u) (auto simp: f_assoc foldl_hom)

end

sublocale scalar_monoid \<subseteq> sv: assoc_view "\<lambda>_. True" "\<lambda>_. True" unit "scalar_ref f" f "\<lambda>_. True" id unit "\<lambda>u v. the (scalar_update f this u v)" f
  by unfold_locales (auto simp: f_unit f_assoc scalar_ref_hom scalar_update_ref)

interpretation opmul: scalar_monoid op_mul_reduce op_mul_identity
  by unfold_locales (auto simp: op_mul_reduce_def op_mul_identity_def)

interpretation opand: scalar_monoid op_and_reduce op_and_identity
  by unfold_locales (auto simp: op_and_reduce_def op_and_identity_def ac_simps)

interpretation opor: scalar_monoid op_or_reduce op_or_identity
  by unfold_locales (auto simp: op_or_reduce_def op_or_identity_def ac_simps)

interpretation opxor: scalar_monoid op_xor_reduce op_xor_identity
  by unfold_locales (auto simp: op_xor_reduce_def op_xor_identity_def ac_simps)

subsection \<open>Minimum and maximum\<close>

text \<open>
  \<^verbatim>\<open>view_base\<close> with the content classes: \<open>opt\<close> says whether the is\_set optimisation is on, \<open>idv\<close> is the identity it
  uses, \<open>dv\<close> the default value otherwise. \<open>cv\<close> is the part that is compared: the value itself, or for the
  reducers with an index the second component.
\<close>

record 'a view_content =
  m_value :: 'a
  m_is_set :: bool

definition view_identity :: "bool \<Rightarrow> 'a \<Rightarrow> 'a \<Rightarrow> 'a view_content" where
  "view_identity opt idv dv = \<lparr>m_value = (if opt then idv else dv), m_is_set = False\<rparr>"

definition view_of :: "'a \<Rightarrow> 'a view_content" where
  "view_of x = \<lparr>m_value = x, m_is_set = True\<rparr>"

definition has_value :: "bool \<Rightarrow> 'a view_content \<Rightarrow> bool" where
  "has_value opt v \<longleftrightarrow> opt \<or> m_is_set v"

definition reverse_predicate :: "('c \<Rightarrow> 'c \<Rightarrow> bool) \<Rightarrow> 'c \<Rightarrow> 'c \<Rightarrow> bool" where
  "reverse_predicate p x y = p y x"

definition view_reduce :: "('c \<Rightarrow> 'c \<Rightarrow> bool) \<Rightarrow> ('a \<Rightarrow> 'c) \<Rightarrow> 'a view_content \<Rightarrow> 'a view_content \<Rightarrow> 'a view_content" where
  "view_reduce compare cv this other =
     (if m_is_set other \<and> (\<not> m_is_set this \<or> compare (cv (m_value this)) (cv (m_value other)))
      then this\<lparr>m_value := m_value other, m_is_set := True\<rparr> else this)"

definition view_calc :: "bool \<Rightarrow> ('c \<Rightarrow> 'c \<Rightarrow> bool) \<Rightarrow> ('a \<Rightarrow> 'c) \<Rightarrow> 'a \<Rightarrow> 'a view_content \<Rightarrow> 'a view_content" where
  "view_calc opt compare cv x v =
     (let v = (if \<not> has_value opt v \<or> compare (cv (m_value v)) (cv x) then v\<lparr>m_value := x\<rparr> else v)
      in v\<lparr>m_is_set := True\<rparr>)"

definition view_proxy_calc :: "('c \<Rightarrow> 'c \<Rightarrow> bool) \<Rightarrow> ('a \<Rightarrow> 'c) \<Rightarrow> 'a \<Rightarrow> 'a \<Rightarrow> 'a" where
  "view_proxy_calc compare cv x p = (if compare (cv p) (cv x) then x else p)"

text \<open>\<^verbatim>\<open>r->calc_max(x)\<close> and \<^verbatim>\<open>*r = max_of(max_of(*r, x), y)\<close>.\<close>

datatype 'a mm_op = Calc 'a | Assign_of 'a "'a list"

fun view_update :: "bool \<Rightarrow> ('c \<Rightarrow> 'c \<Rightarrow> bool) \<Rightarrow> ('a \<Rightarrow> 'c) \<Rightarrow> 'a mm_op \<Rightarrow> 'a view_content \<Rightarrow> 'a view_content" where
  "view_update opt compare cv (Calc x) v = view_calc opt compare cv x v"
| "view_update opt compare cv (Assign_of x xs) v = view_calc opt compare cv (fold (view_proxy_calc compare cv) xs x) v"

definition view_set_value :: "'a \<Rightarrow> 'a view_content \<Rightarrow> 'a view_content" where
  "view_set_value x v = v\<lparr>m_value := x, m_is_set := True\<rparr>"

text \<open>What a view stands for: nothing yet, or a value.\<close>

definition view_value :: "'a view_content \<Rightarrow> 'a option" where
  "view_value v = (if m_is_set v then Some (m_value v) else None)"

fun mm_args :: "'a mm_op \<Rightarrow> 'a list" where
  "mm_args (Calc x) = [x]"
| "mm_args (Assign_of x xs) = x # xs"

definition mm_act :: "('a \<Rightarrow> 'a \<Rightarrow> bool) \<Rightarrow> 'a \<Rightarrow> 'a option \<Rightarrow> 'a option" where
  "mm_act lt x a = (case a of None \<Rightarrow> Some x | Some y \<Rightarrow> Some (if lt y x then x else y))"

definition mm_mult :: "('a \<Rightarrow> 'a \<Rightarrow> bool) \<Rightarrow> 'a option \<Rightarrow> 'a option \<Rightarrow> 'a option" where
  "mm_mult lt a b = (case b of None \<Rightarrow> a | Some y \<Rightarrow> mm_act lt y a)"

definition mm_legal :: "bool \<Rightarrow> 'a \<Rightarrow> ('c \<Rightarrow> 'c \<Rightarrow> bool) \<Rightarrow> ('a \<Rightarrow> 'c) \<Rightarrow> 'a mm_op \<Rightarrow> bool" where
  "mm_legal opt idv compare cv u \<longleftrightarrow> (\<forall>x \<in> set (mm_args u). \<not> opt \<or> compare (cv idv) (cv x) \<or> x = idv)"

lemma view_update_set [simp]: "m_is_set (view_update opt lt c u v)"
  by (cases u) (simp_all add: view_calc_def Let_def)

locale strict_weak_order =
  fixes lt :: "'c \<Rightarrow> 'c \<Rightarrow> bool"
  assumes asym: "lt x y \<Longrightarrow> \<not> lt y x"
    and between: "lt x z \<Longrightarrow> lt x y \<or> lt y z"
begin

lemma mm_mult_act: "mm_mult (\<lambda>x y. lt (c x) (c y)) a (mm_act (\<lambda>x y. lt (c x) (c y)) x b) = mm_act (\<lambda>x y. lt (c x) (c y)) x (mm_mult (\<lambda>x y. lt (c x) (c y)) a b)"
proof (cases a; cases b)
  fix u v assume "a = Some u" "b = Some v"
  then show ?thesis using between [of "c u" "c x" "c v"] between [of "c u" "c v" "c x"] asym [of "c x" "c v"]
    by (auto simp: mm_mult_def mm_act_def)
qed (auto simp: mm_mult_def mm_act_def)

lemma mm_mult_fold: "mm_mult (\<lambda>x y. lt (c x) (c y)) a (fold (mm_act (\<lambda>x y. lt (c x) (c y))) xs b) =
    fold (mm_act (\<lambda>x y. lt (c x) (c y))) xs (mm_mult (\<lambda>x y. lt (c x) (c y)) a b)"
  by (induction xs arbitrary: b) (auto simp: mm_mult_act)

lemma proxy_value: "Some (fold (view_proxy_calc lt c) xs x) = fold (mm_act (\<lambda>x y. lt (c x) (c y))) xs (Some x)"
  by (induction xs arbitrary: x) (auto simp: view_proxy_calc_def mm_act_def)

lemma proxy_act: "mm_act (\<lambda>x y. lt (c x) (c y)) (fold (view_proxy_calc lt c) xs x) a = fold (mm_act (\<lambda>x y. lt (c x) (c y))) (x # xs) a"
proof -
  let ?f = "mm_act (\<lambda>x y. lt (c x) (c y))" and ?m = "mm_mult (\<lambda>x y. lt (c x) (c y))"
  have "?f (fold (view_proxy_calc lt c) xs x) a = ?m a (fold ?f xs (Some x))"
    by (simp add: proxy_value [symmetric]) (simp add: mm_mult_def)
  also have "\<dots> = fold ?f xs (?m a (Some x))" by (rule mm_mult_fold)
  finally show ?thesis by (simp add: mm_mult_def)
qed

text \<open>The accumulated value is the first argument that no argument beats.\<close>

lemma first_extremum: "fold (mm_act (\<lambda>x y. lt (c x) (c y))) xs None = find (\<lambda>x. \<forall>y \<in> set xs. \<not> lt (c x) (c y)) xs"
proof (induction xs rule: rev_induct)
  case (snoc z zs)
  let ?P = "\<lambda>zs x. \<forall>y \<in> set zs. \<not> lt (c x) (c y)"
  have irr: "\<not> lt x x" for x using asym by blast
  show ?case
  proof (cases "find (?P zs) zs")
    case None
    have "zs = []"
    proof (rule ccontr)
      assume "zs \<noteq> []"
      have "fold (mm_act (\<lambda>x y. lt (c x) (c y))) ys (Some y) \<noteq> None" for ys y by (induction ys arbitrary: y) (auto simp: mm_act_def)
      then have "fold (mm_act (\<lambda>x y. lt (c x) (c y))) zs None \<noteq> None" using \<open>zs \<noteq> []\<close> by (cases zs) (auto simp: mm_act_def)
      then show False using snoc.IH None by simp
    qed
    then show ?thesis using irr by (simp add: mm_act_def)
  next
    case (Some u)
    then obtain i where i: "i < length zs" "?P zs u" "u = zs ! i" "\<And>j. j < i \<Longrightarrow> \<not> ?P zs (zs ! j)" by (auto simp: find_Some_iff)
    show ?thesis
    proof (cases "lt (c u) (c z)")
      case True
      have beaten: "lt (c y) (c z)" if "y \<in> set zs" for y using between [OF True, of "c y"] i(2) that by blast
      then have "find (?P (zs @ [z])) (zs @ [z]) = Some z"
        unfolding find_Some_iff using asym irr by (intro exI [of _ "length zs"]) (auto simp: nth_append)
      then show ?thesis using True snoc.IH Some by (simp add: mm_act_def)
    next
      case False
      have "find (?P (zs @ [z])) (zs @ [z]) = Some u"
        unfolding find_Some_iff using i False by (intro exI [of _ i]) (auto simp: nth_append)
      then show ?thesis using False snoc.IH Some by (simp add: mm_act_def)
    qed
  qed
qed simp

end

sublocale strict_weak_order \<subseteq> mm: assoc_view "\<lambda>_. True" "mm_legal opt idv lt c" None
  "\<lambda>u. fold (mm_act (\<lambda>x y. lt (c x) (c y))) (mm_args u)" "mm_mult (\<lambda>x y. lt (c x) (c y))"
  "\<lambda>v. m_is_set v \<or> m_value v = (if opt then idv else dv)" view_value "view_identity opt idv dv" "view_update opt lt c" "view_reduce lt c"
proof unfold_locales
  fix x a b assume "mm_legal opt idv lt c x"
  show "mm_mult (\<lambda>x y. lt (c x) (c y)) a (fold (mm_act (\<lambda>x y. lt (c x) (c y))) (mm_args x) b) =
    fold (mm_act (\<lambda>x y. lt (c x) (c y))) (mm_args x) (mm_mult (\<lambda>x y. lt (c x) (c y)) a b)" by (rule mm_mult_fold)
next
  fix x and v :: "'a view_content" assume x: "mm_legal opt idv lt c x" and v: "m_is_set v \<or> m_value v = (if opt then idv else dv)"
  have calc: "view_value (view_calc opt lt c y v) = mm_act (\<lambda>x y. lt (c x) (c y)) y (view_value v)"
    if "\<not> opt \<or> lt (c idv) (c y) \<or> y = idv" for y
    using that v by (auto simp: view_value_def view_calc_def Let_def has_value_def mm_act_def)
  have pick: "fold (view_proxy_calc lt c) ys y \<in> set (y # ys)" for ys y
    by (induction ys arbitrary: y) (fastforce simp: view_proxy_calc_def)+
  show "view_value (view_update opt lt c x v) = fold (mm_act (\<lambda>x y. lt (c x) (c y))) (mm_args x) (view_value v)"
  proof (cases x)
    case (Calc y)
    then show ?thesis using x calc [of y] by (simp add: mm_legal_def)
  next
    case (Assign_of y ys)
    then show ?thesis using x calc [of "fold (view_proxy_calc lt c) ys y"] pick [of ys y] proxy_act [of c ys y] by (auto simp: mm_legal_def)
  qed
next
  fix u v w :: "'a view_content" show "view_reduce lt c (view_reduce lt c u v) w = view_reduce lt c u (view_reduce lt c v w)"
    using between [of "c (m_value u)" "c (m_value v)" "c (m_value w)"] between [of "c (m_value u)" "c (m_value w)" "c (m_value v)"]
      asym [of "c (m_value v)" "c (m_value w)"] by (auto simp: view_reduce_def)
qed (auto simp: mm_mult_def view_identity_def view_value_def view_reduce_def mm_act_def mm_legal_def view_calc_def Let_def split: option.splits)

context strict_weak_order
begin

lemma parallel_min_max:
  assumes "list_all (mm_legal opt idv lt c) (serial_log t)"
  shows "view_value (run_strands (view_update opt lt c) (view_reduce lt c) (view_identity opt idv dv) (view_identity opt idv dv) t) =
     fold (\<lambda>u. fold (mm_act (\<lambda>x y. lt (c x) (c y))) (mm_args u)) (serial_log t) None"
  using mm.parallel_is_serial [OF assms, of "view_identity opt idv dv" dv] by (simp add: view_identity_def view_value_def)

end

interpretation less: strict_weak_order "(<) :: 'a::linorder \<Rightarrow> 'a \<Rightarrow> bool"
  by unfold_locales auto

interpretation greater: strict_weak_order "reverse_predicate ((<) :: 'a::linorder \<Rightarrow> 'a \<Rightarrow> bool)"
  by unfold_locales (auto simp: reverse_predicate_def)

text \<open>The four classes: the value of a view, or an index and a value.\<close>

definition op_max_update :: "bool \<Rightarrow> 'c::linorder mm_op \<Rightarrow> 'c view_content \<Rightarrow> 'c view_content" where
  "op_max_update opt = view_update opt (<) id"

definition op_min_update :: "bool \<Rightarrow> 'c::linorder mm_op \<Rightarrow> 'c view_content \<Rightarrow> 'c view_content" where
  "op_min_update opt = view_update opt (reverse_predicate (<)) id"

definition op_max_index_update :: "bool \<Rightarrow> ('i \<times> 'c::linorder) mm_op \<Rightarrow> ('i \<times> 'c) view_content \<Rightarrow> ('i \<times> 'c) view_content" where
  "op_max_index_update opt = view_update opt (<) snd"

definition op_min_index_update :: "bool \<Rightarrow> ('i \<times> 'c::linorder) mm_op \<Rightarrow> ('i \<times> 'c) view_content \<Rightarrow> ('i \<times> 'c) view_content" where
  "op_min_index_update opt = view_update opt (reverse_predicate (<)) snd"

subsection \<open>Minimum and maximum in C\<close>

text \<open>The integer types the macros are instantiated with, with the ranges of x86-64 Linux; the values are mathematical integers.\<close>

datatype c_type = T_char | T_uchar | T_schar | T_wchar | T_short | T_ushort | T_int | T_uint | T_unsigned | T_long | T_ulong | T_longlong | T_ulonglong

fun signed_type :: "c_type \<Rightarrow> bool" where
  "signed_type t \<longleftrightarrow> t \<in> {T_char, T_schar, T_wchar, T_short, T_int, T_long, T_longlong}"

fun type_bits :: "c_type \<Rightarrow> nat" where
  "type_bits t = (if t \<in> {T_char, T_uchar, T_schar} then 8 else if t \<in> {T_short, T_ushort} then 16
     else if t \<in> {T_wchar, T_int, T_uint, T_unsigned} then 32 else 64)"

definition type_min :: "c_type \<Rightarrow> int" where
  "type_min t = (if signed_type t then - (2 ^ (type_bits t - 1)) else 0)"

definition type_max :: "c_type \<Rightarrow> int" where
  "type_max t = (if signed_type t then 2 ^ (type_bits t - 1) - 1 else 2 ^ type_bits t - 1)"

definition in_type :: "c_type \<Rightarrow> int \<Rightarrow> bool" where
  "in_type t x \<longleftrightarrow> type_min t \<le> x \<and> x \<le> type_max t"

text \<open>The identities: the third arguments of the instances.\<close>

fun c_max_identity :: "c_type \<Rightarrow> int" where
  "c_max_identity T_char = type_min T_char"
| "c_max_identity T_uchar = 0"
| "c_max_identity T_schar = type_min T_schar"
| "c_max_identity T_wchar = type_min T_wchar"
| "c_max_identity T_short = type_min T_short"
| "c_max_identity T_ushort = 0"
| "c_max_identity T_int = type_min T_int"
| "c_max_identity T_uint = 0"
| "c_max_identity T_unsigned = 0"
| "c_max_identity T_long = type_min T_long"
| "c_max_identity T_ulong = 0"
| "c_max_identity T_longlong = type_min T_longlong"
| "c_max_identity T_ulonglong = 0"

fun c_min_identity :: "c_type \<Rightarrow> int" where
  "c_min_identity T_char = type_max T_char"
| "c_min_identity T_uchar = type_max T_char"
| "c_min_identity T_schar = type_max T_schar"
| "c_min_identity T_wchar = type_max T_wchar"
| "c_min_identity T_short = type_max T_short"
| "c_min_identity T_ushort = type_max T_ushort"
| "c_min_identity T_int = type_max T_int"
| "c_min_identity T_uint = type_max T_uint"
| "c_min_identity T_unsigned = type_max T_unsigned"
| "c_min_identity T_long = type_max T_long"
| "c_min_identity T_ulong = type_max T_ulong"
| "c_min_identity T_longlong = type_max T_longlong"
| "c_min_identity T_ulonglong = type_max T_ulonglong"

definition c_max_calc :: "int \<Rightarrow> int \<Rightarrow> int" where "c_max_calc x view = (if view < x then x else view)"
definition c_max_reduce :: "int \<Rightarrow> int \<Rightarrow> int" where "c_max_reduce l r = (if l < r then r else l)"
definition c_min_calc :: "int \<Rightarrow> int \<Rightarrow> int" where "c_min_calc x view = (if view > x then x else view)"
definition c_min_reduce :: "int \<Rightarrow> int \<Rightarrow> int" where "c_min_reduce l r = (if l > r then r else l)"

definition c_max_index_calc :: "int \<times> int \<Rightarrow> int \<times> int \<Rightarrow> int \<times> int" where
  "c_max_index_calc ix view = (if snd view < snd ix then ix else view)"
definition c_max_index_reduce :: "int \<times> int \<Rightarrow> int \<times> int \<Rightarrow> int \<times> int" where
  "c_max_index_reduce l r = (if snd l < snd r then r else l)"
definition c_max_index_identity :: "c_type \<Rightarrow> int \<times> int" where
  "c_max_index_identity t = (0, c_max_identity t)"
definition c_min_index_calc :: "int \<times> int \<Rightarrow> int \<times> int \<Rightarrow> int \<times> int" where
  "c_min_index_calc ix view = (if snd view > snd ix then ix else view)"
definition c_min_index_reduce :: "int \<times> int \<Rightarrow> int \<times> int \<Rightarrow> int \<times> int" where
  "c_min_index_reduce l r = (if snd l > snd r then r else l)"
definition c_min_index_identity :: "c_type \<Rightarrow> int \<times> int" where
  "c_min_index_identity t = (0, c_min_identity t)"

lemma c_max_identity_least: "c_max_identity t = type_min t"
  by (cases t) (simp_all add: type_min_def)

lemma c_min_identity_greatest: "t \<noteq> T_uchar \<Longrightarrow> c_min_identity t = type_max t"
  by (cases t) simp_all

lemma type_nonempty: "type_min t \<le> type_max t"
  by (cases t) (simp_all add: type_min_def type_max_def)

lemma c_min_identity_range: "in_type t (c_min_identity t)"
  using type_nonempty [of t] by (cases t) (simp_all add: in_type_def type_min_def type_max_def)

interpretation cmax: update_monoid "in_type t" "in_type t" "c_max_identity t" c_max_calc c_max_reduce
  using type_nonempty [of t] by unfold_locales (auto simp: in_type_def c_max_calc_def c_max_reduce_def c_max_identity_least)

interpretation cmaxi: update_monoid "\<lambda>v. in_type t (snd v)" "\<lambda>v. in_type t (snd v)" "c_max_index_identity t" c_max_index_calc c_max_index_reduce
  using type_nonempty [of t]
  by unfold_locales (auto simp: in_type_def c_max_index_calc_def c_max_index_reduce_def c_max_index_identity_def c_max_identity_least)

lemma c_min_monoid: "t \<noteq> T_uchar \<Longrightarrow> update_monoid (in_type t) (in_type t) (c_min_identity t) c_min_calc c_min_reduce"
  using type_nonempty [of t] by unfold_locales (auto simp: in_type_def c_min_calc_def c_min_reduce_def c_min_identity_greatest)

lemma c_min_index_monoid:
  "t \<noteq> T_uchar \<Longrightarrow> update_monoid (\<lambda>v. in_type t (snd v)) (\<lambda>v. in_type t (snd v)) (c_min_index_identity t) c_min_index_calc c_min_index_reduce"
  using type_nonempty [of t]
  by unfold_locales (auto simp: in_type_def c_min_index_calc_def c_min_index_reduce_def c_min_index_identity_def c_min_identity_greatest)

text \<open>For \<^verbatim>\<open>unsigned char\<close> the identity is \<^verbatim>\<open>CHAR_MAX\<close> and not \<^verbatim>\<open>UCHAR_MAX\<close>: a strand that only sees 200 reports 127.\<close>

lemma uchar_min_wrong:
  "run_strands c_min_calc c_min_reduce (c_min_identity T_uchar) 255 (Join (Strand [250]) (Strand [200])) = 127"
  "fold c_min_calc [250, 200] 255 = 200"
  by (simp_all add: c_min_calc_def c_min_reduce_def type_max_def)

subsection \<open>Strings and vectors\<close>

text \<open>A view is a list of pieces and the piece being written. \<open>same\<close> says whether the allocators of the view and of the
  argument are equal.\<close>

record 'c string_view =
  m_string :: "'c list"
  m_list :: "'c list list"

definition string_identity :: "'c string_view" where
  "string_identity = \<lparr>m_string = [], m_list = []\<rparr>"

definition flatten :: "'c string_view \<Rightarrow> 'c string_view" where
  "flatten v = (if m_list v = [] then v
     else \<lparr>m_string = foldl (@) [] (m_list v) @ m_string v, m_list = []\<rparr>)"

definition string_reduce :: "'c string_view \<Rightarrow> 'c string_view \<Rightarrow> 'c string_view" where
  "string_reduce this right =
     (if m_string right \<noteq> [] \<or> m_list right \<noteq> [] then
        let l = (if m_string this \<noteq> [] then m_list this @ [m_string this] else m_list this)
        in \<lparr>m_string = m_string right, m_list = l @ m_list right\<rparr>
      else this)"

definition string_move_in :: "bool \<Rightarrow> 'c list \<Rightarrow> 'c string_view \<Rightarrow> 'c string_view \<times> 'c list" where
  "string_move_in same s v =
     (let v = v\<lparr>m_list := []\<rparr>;
          (v, s) = (if same then (v\<lparr>m_string := s\<rparr>, m_string v) else (v\<lparr>m_string := s\<rparr>, s))
      in (v, []))"

definition string_move_out :: "bool \<Rightarrow> 'c list \<Rightarrow> 'c string_view \<Rightarrow> 'c string_view \<times> 'c list" where
  "string_move_out same s v =
     (let v = flatten v;
          (v, s) = (if same then (v\<lparr>m_string := s\<rparr>, m_string v) else (v, m_string v))
      in (v\<lparr>m_string := []\<rparr>, s))"

definition string_set_value :: "'c list \<Rightarrow> 'c string_view \<Rightarrow> 'c string_view" where
  "string_set_value s v = v\<lparr>m_list := [], m_string := s\<rparr>"

definition string_get_value :: "'c string_view \<Rightarrow> 'c string_view \<times> 'c list" where
  "string_get_value v = (flatten v, m_string (flatten v))"

datatype 'c string_op = Append "'c list" | Push_char 'c

fun string_update :: "'c string_op \<Rightarrow> 'c string_view \<Rightarrow> 'c string_view" where
  "string_update (Append s) v = v\<lparr>m_string := m_string v @ s\<rparr>"
| "string_update (Push_char x) v = v\<lparr>m_string := m_string v @ [x]\<rparr>"

fun string_seg :: "'c string_op \<Rightarrow> 'c list" where
  "string_seg (Append s) = s"
| "string_seg (Push_char x) = [x]"

definition string_value :: "'c string_view \<Rightarrow> 'c list" where
  "string_value v = concat (m_list v) @ m_string v"

lemma foldl_append_concat: "foldl (@) xs yss = xs @ concat yss"
  by (induction yss arbitrary: xs) auto

lemma string_get_value_eq: "snd (string_get_value v) = string_value v" "string_value (fst (string_get_value v)) = string_value v"
  by (auto simp: string_get_value_def flatten_def string_value_def foldl_append_concat)

interpretation str: assoc_view "\<lambda>_. True" "\<lambda>_. True" "[]" "\<lambda>u s. s @ string_seg u" "(@)"
  "\<lambda>_. True" string_value string_identity string_update string_reduce
proof unfold_locales
  fix u v w :: "'c string_view"
  show "string_reduce (string_reduce u v) w = string_reduce u (string_reduce v w)" by (auto simp: string_reduce_def Let_def)
next
  fix x and v :: "'c string_view"
  show "string_value (string_update x v) = string_value v @ string_seg x" by (cases x) (simp_all add: string_value_def)
qed (auto simp: string_value_def string_identity_def string_reduce_def Let_def)

text \<open>Vectors are built the same way; \<^verbatim>\<open>view_move_out\<close> differs.\<close>

record 'c vector_view =
  m_vector :: "'c list"
  m_vlist :: "'c list list"

definition vector_identity :: "'c vector_view" where
  "vector_identity = \<lparr>m_vector = [], m_vlist = []\<rparr>"

definition vector_flatten :: "'c vector_view \<Rightarrow> 'c vector_view" where
  "vector_flatten v = (if m_vlist v = [] then v
     else \<lparr>m_vector = foldl (@) [] (m_vlist v) @ m_vector v, m_vlist = []\<rparr>)"

definition vector_reduce :: "'c vector_view \<Rightarrow> 'c vector_view \<Rightarrow> 'c vector_view" where
  "vector_reduce this other =
     (if m_vector other \<noteq> [] \<or> m_vlist other \<noteq> [] then
        let l = (if m_vector this \<noteq> [] then m_vlist this @ [m_vector this] else m_vlist this)
        in \<lparr>m_vector = m_vector other, m_vlist = l @ m_vlist other\<rparr>
      else this)"

definition vector_move_in :: "bool \<Rightarrow> 'c list \<Rightarrow> 'c vector_view \<Rightarrow> 'c vector_view \<times> 'c list" where
  "vector_move_in same s v =
     (let v = v\<lparr>m_vlist := []\<rparr>;
          (v, s) = (if same then (v\<lparr>m_vector := s\<rparr>, m_vector v) else (v\<lparr>m_vector := s\<rparr>, s))
      in (v, []))"

definition vector_move_out :: "bool \<Rightarrow> 'c list \<Rightarrow> 'c vector_view \<Rightarrow> 'c vector_view \<times> 'c list" where
  "vector_move_out same s v =
     (let v = vector_flatten v
      in if same then (v\<lparr>m_vector := s\<rparr>, m_vector v) else (v\<lparr>m_vector := []\<rparr>, m_vector v))"

definition vector_set_value :: "'c list \<Rightarrow> 'c vector_view \<Rightarrow> 'c vector_view" where
  "vector_set_value s v = v\<lparr>m_vlist := [], m_vector := s\<rparr>"

definition vector_get_value :: "'c vector_view \<Rightarrow> 'c vector_view \<times> 'c list" where
  "vector_get_value v = (vector_flatten v, m_vector (vector_flatten v))"

datatype 'c vector_op = Vec_push 'c | Vec_insert 'c | Vec_insert_n nat 'c | Vec_insert_range "'c list"

fun vector_update :: "'c vector_op \<Rightarrow> 'c vector_view \<Rightarrow> 'c vector_view" where
  "vector_update (Vec_push x) v = v\<lparr>m_vector := m_vector v @ [x]\<rparr>"
| "vector_update (Vec_insert x) v = v\<lparr>m_vector := m_vector v @ [x]\<rparr>"
| "vector_update (Vec_insert_n n x) v = v\<lparr>m_vector := m_vector v @ replicate n x\<rparr>"
| "vector_update (Vec_insert_range xs) v = v\<lparr>m_vector := m_vector v @ xs\<rparr>"

fun vector_seg :: "'c vector_op \<Rightarrow> 'c list" where
  "vector_seg (Vec_push x) = [x]"
| "vector_seg (Vec_insert x) = [x]"
| "vector_seg (Vec_insert_n n x) = replicate n x"
| "vector_seg (Vec_insert_range xs) = xs"

definition vector_value :: "'c vector_view \<Rightarrow> 'c list" where
  "vector_value v = concat (m_vlist v) @ m_vector v"

lemma vector_flatten_value: "m_vector (vector_flatten v) = vector_value v" "m_vlist (vector_flatten v) = []"
  by (simp_all add: vector_flatten_def vector_value_def foldl_append_concat)

interpretation vec: assoc_view "\<lambda>_. True" "\<lambda>_. True" "[]" "\<lambda>u s. s @ vector_seg u" "(@)"
  "\<lambda>_. True" vector_value vector_identity vector_update vector_reduce
proof unfold_locales
  fix u v w :: "'c vector_view"
  show "vector_reduce (vector_reduce u v) w = vector_reduce u (vector_reduce v w)" by (auto simp: vector_reduce_def Let_def)
next
  fix x and v :: "'c vector_view"
  show "vector_value (vector_update x v) = vector_value v @ vector_seg x" by (cases x) (simp_all add: vector_value_def)
qed (auto simp: vector_value_def vector_identity_def vector_reduce_def Let_def)

text \<open>With equal allocators the moved-out view keeps what the variable held before; the string view empties itself.\<close>

lemma vector_move_out_keeps_old:
  "vector_value (fst (vector_move_out True s v)) = s" "m_string (fst (string_move_out True s u)) = []"
  by (simp_all add: vector_move_out_def Let_def vector_flatten_value string_move_out_def vector_value_def)

subsection \<open>Lists\<close>

text \<open>Splicing takes the elements out of the list \<open>x\<close>; an iterator into \<open>x\<close> is an index. An index out of range is
  undefined behaviour, \<open>None\<close>.\<close>

definition list_push_back :: "'c \<Rightarrow> 'c list \<Rightarrow> 'c list" where "list_push_back y v = v @ [y]"
definition list_insert_back_n :: "nat \<Rightarrow> 'c \<Rightarrow> 'c list \<Rightarrow> 'c list" where "list_insert_back_n n y v = v @ replicate n y"
definition list_insert_back :: "'c list \<Rightarrow> 'c list \<Rightarrow> 'c list" where "list_insert_back ys v = v @ ys"

definition splice_back :: "bool \<Rightarrow> 'c list \<Rightarrow> 'c list \<Rightarrow> 'c list \<times> 'c list" where
  "splice_back same x v = (if same then (v @ x, []) else (list_insert_back x v, []))"

definition splice_back_at :: "bool \<Rightarrow> 'c list \<Rightarrow> nat \<Rightarrow> 'c list \<Rightarrow> ('c list \<times> 'c list) option" where
  "splice_back_at same x i v = do {
     cilk_assert (i < length x);
     if same then Some (v @ [x ! i], take i x @ drop (Suc i) x)
     else Some (list_push_back (x ! i) v, take i x @ drop (Suc i) x) }"

definition splice_back_range :: "bool \<Rightarrow> 'c list \<Rightarrow> nat \<Rightarrow> nat \<Rightarrow> 'c list \<Rightarrow> ('c list \<times> 'c list) option" where
  "splice_back_range same x i j v = do {
     cilk_assert (i \<le> j \<and> j \<le> length x);
     if same then Some (v @ take (j - i) (drop i x), take i x @ drop j x)
     else Some (list_insert_back (take (j - i) (drop i x)) v, take i x @ drop j x) }"

definition list_append_reduce :: "'c list \<Rightarrow> 'c list \<Rightarrow> 'c list" where "list_append_reduce l r = l @ r"

definition list_push_front :: "'c \<Rightarrow> 'c list \<Rightarrow> 'c list" where "list_push_front y v = y # v"
definition list_insert_front_n :: "nat \<Rightarrow> 'c \<Rightarrow> 'c list \<Rightarrow> 'c list" where "list_insert_front_n n y v = replicate n y @ v"
definition list_insert_front :: "'c list \<Rightarrow> 'c list \<Rightarrow> 'c list" where "list_insert_front ys v = ys @ v"

text \<open>With unequal allocators the code inserts the range from \<^verbatim>\<open>x.begin()\<close> to \<^verbatim>\<open>x.begin()\<close>.\<close>

definition splice_front :: "bool \<Rightarrow> 'c list \<Rightarrow> 'c list \<Rightarrow> 'c list \<times> 'c list" where
  "splice_front same x v = (if same then (x @ v, []) else (list_insert_front (take 0 x) v, []))"

definition splice_front_at :: "bool \<Rightarrow> 'c list \<Rightarrow> nat \<Rightarrow> 'c list \<Rightarrow> ('c list \<times> 'c list) option" where
  "splice_front_at same x i v = do {
     cilk_assert (i < length x);
     if same then Some ((x ! i) # v, take i x @ drop (Suc i) x)
     else Some (list_push_front (x ! i) v, take i x @ drop (Suc i) x) }"

definition splice_front_range :: "bool \<Rightarrow> 'c list \<Rightarrow> nat \<Rightarrow> nat \<Rightarrow> 'c list \<Rightarrow> ('c list \<times> 'c list) option" where
  "splice_front_range same x i j v = do {
     cilk_assert (i \<le> j \<and> j \<le> length x);
     if same then Some (take (j - i) (drop i x) @ v, take i x @ drop j x)
     else Some (list_insert_front (take (j - i) (drop i x)) v, take i x @ drop j x) }"

definition list_prepend_reduce :: "'c list \<Rightarrow> 'c list \<Rightarrow> 'c list" where "list_prepend_reduce l r = r @ l"

text \<open>An update of a list view: insertion of elements, or a splice from another list, which keeps the rest of that list.\<close>

datatype 'c list_op = Push 'c | Insert_n nat 'c | Insert_range "'c list" | Splice bool "'c list"
  | Splice_at bool "'c list" nat | Splice_range bool "'c list" nat nat

fun list_append_update :: "'c list_op \<Rightarrow> 'c list \<Rightarrow> 'c list" where
  "list_append_update (Push y) v = list_push_back y v"
| "list_append_update (Insert_n n y) v = list_insert_back_n n y v"
| "list_append_update (Insert_range ys) v = list_insert_back ys v"
| "list_append_update (Splice same x) v = fst (splice_back same x v)"
| "list_append_update (Splice_at same x i) v = (case splice_back_at same x i v of Some (v', x') \<Rightarrow> v' | None \<Rightarrow> v)"
| "list_append_update (Splice_range same x i j) v = (case splice_back_range same x i j v of Some (v', x') \<Rightarrow> v' | None \<Rightarrow> v)"

fun list_prepend_update :: "'c list_op \<Rightarrow> 'c list \<Rightarrow> 'c list" where
  "list_prepend_update (Push y) v = list_push_front y v"
| "list_prepend_update (Insert_n n y) v = list_insert_front_n n y v"
| "list_prepend_update (Insert_range ys) v = list_insert_front ys v"
| "list_prepend_update (Splice same x) v = fst (splice_front same x v)"
| "list_prepend_update (Splice_at same x i) v = (case splice_front_at same x i v of Some (v', x') \<Rightarrow> v' | None \<Rightarrow> v)"
| "list_prepend_update (Splice_range same x i j) v = (case splice_front_range same x i j v of Some (v', x') \<Rightarrow> v' | None \<Rightarrow> v)"

text \<open>The elements an update adds, as the documentation has it, and its validity.\<close>

fun list_seg :: "'c list_op \<Rightarrow> 'c list" where
  "list_seg (Push y) = [y]"
| "list_seg (Insert_n n y) = replicate n y"
| "list_seg (Insert_range ys) = ys"
| "list_seg (Splice same x) = x"
| "list_seg (Splice_at same x i) = [x ! i]"
| "list_seg (Splice_range same x i j) = take (j - i) (drop i x)"

fun list_op_ok :: "'c list_op \<Rightarrow> bool" where
  "list_op_ok (Splice_at same x i) \<longleftrightarrow> i < length x"
| "list_op_ok (Splice_range same x i j) \<longleftrightarrow> i \<le> j \<and> j \<le> length x"
| "list_op_ok _ \<longleftrightarrow> True"

fun same_alloc :: "'c list_op \<Rightarrow> bool" where
  "same_alloc (Splice same x) \<longleftrightarrow> same"
| "same_alloc _ \<longleftrightarrow> True"

lemmas list_view_defs = list_push_back_def list_insert_back_n_def list_insert_back_def splice_back_def splice_back_at_def splice_back_range_def
  list_push_front_def list_insert_front_n_def list_insert_front_def splice_front_def splice_front_at_def splice_front_range_def

lemma list_append_update_seg: "list_op_ok u \<Longrightarrow> list_append_update u v = v @ list_seg u"
  by (cases u) (auto simp: list_view_defs)

lemma list_prepend_update_seg: "list_op_ok u \<Longrightarrow> same_alloc u \<Longrightarrow> list_prepend_update u v = list_seg u @ v"
  by (cases u) (auto simp: list_view_defs)

interpretation lap: assoc_view "\<lambda>_. True" list_op_ok "[]" "\<lambda>u s. s @ list_seg u" "(@)" "\<lambda>_. True" id "[]" list_append_update list_append_reduce
  by unfold_locales (auto simp: list_append_update_seg list_append_reduce_def)

interpretation lpp: assoc_view "\<lambda>_. True" "\<lambda>u. list_op_ok u \<and> same_alloc u" "[]" "\<lambda>u s. list_seg u @ s" "\<lambda>a b. b @ a"
  "\<lambda>_. True" id "[]" list_prepend_update list_prepend_reduce
  by unfold_locales (auto simp: list_prepend_update_seg list_prepend_reduce_def)

lemma splice_front_loses: "splice_front False x v = (v, [])" "splice_front True x v = (x @ v, [])"
  by (simp_all add: list_view_defs)

subsection \<open>Output streams\<close>

text \<open>The contents written to the view's buffer and the stream's failure state. Inserting an empty stream buffer fails, and a failed
  stream swallows all output.\<close>

record ostream_view =
  os_buf :: string
  os_fail :: bool

definition ostream_identity :: ostream_view where
  "ostream_identity = \<lparr>os_buf = [], os_fail = False\<rparr>"

definition os_write :: "string \<Rightarrow> ostream_view \<Rightarrow> ostream_view" where
  "os_write s v = (if os_fail v then v else v\<lparr>os_buf := os_buf v @ s\<rparr>)"

definition os_write_buf :: "string \<Rightarrow> ostream_view \<Rightarrow> ostream_view" where
  "os_write_buf b v = (if os_fail v then v else if b = [] then v\<lparr>os_fail := True\<rparr> else v\<lparr>os_buf := os_buf v @ b\<rparr>)"

definition ostream_reduce :: "ostream_view \<Rightarrow> ostream_view \<Rightarrow> ostream_view" where
  "ostream_reduce this other = (if os_buf other \<noteq> [] then os_write_buf (os_buf other) this else this)"

interpretation ostr: reducer_view "\<lambda>_. True" "\<lambda>_. True" "[]" "\<lambda>u s. s @ u" "(@)" "\<lambda>v. \<not> os_fail v" os_buf ostream_identity os_write ostream_reduce
  by unfold_locales (auto simp: ostream_identity_def os_write_def os_write_buf_def ostream_reduce_def)

subsection \<open>Properties\<close>

text \<open>C6: minimum and maximum reducers, with or without index, with or without the is\_set optimisation, and for any comparison that is a strict
  weak order: however the updates are spread over strands, the result is the first argument, in serial order, that
  compares below no argument (nothing if there was none). This holds for legal arguments: with the optimisation every argument must compare
  strictly beyond the identity value or be the identity itself, index included. An argument of an index reducer that has the
  identity value under another index is not legal; \<open>max_index_wrong_index\<close> below shows that the claim fails for it.\<close>

theorem min_max_first_extremum:
  assumes "strict_weak_order compare" and "list_all (mm_legal opt idv compare c) (serial_log t)"
  shows "view_value (run_strands (view_update opt compare c) (view_reduce compare c) (view_identity opt idv dv) (view_identity opt idv dv) t) =
     (let args = concat (map mm_args (serial_log t)) in find (\<lambda>x. \<forall>y \<in> set args. \<not> compare (c x) (c y)) args)"
proof -
  let ?f = "mm_act (\<lambda>x y. compare (c x) (c y))"
  have args: "fold (\<lambda>u. fold ?f (mm_args u)) us a = fold ?f (concat (map mm_args us)) a" for us a
    by (induction us arbitrary: a) auto
  show ?thesis unfolding strict_weak_order.parallel_min_max [OF assms] args Let_def by (rule strict_weak_order.first_extremum [OF assms(1)])
qed

text \<open>C7: a string reducer is concatenation. Whatever the strands and the order of reductions, the value read at the end is the initial value followed by
  what all updates append, in serial order; reading it flattens the view and does not change its value.\<close>

theorem string_reducer_concat:
  "snd (string_get_value (run_strands string_update string_reduce string_identity v t)) = string_value v @ concat (map string_seg (serial_log t))"
proof -
  have "fold (\<lambda>u s. s @ string_seg u) us a = a @ concat (map string_seg us)" for us and a :: "'c list"
    by (induction us arbitrary: a) auto
  then show ?thesis using str.parallel_is_serial [of t v] by (simp add: string_get_value_eq list_all_iff)
qed

text \<open>C40: the C minimum reducers have the right identity exactly for the types other than \<^verbatim>\<open>unsigned char\<close>: only there do
  the identity and the operations fail to satisfy the contract, because the identity is not the greatest value of the type.\<close>

theorem c_min_identity_laws:
  "update_monoid (in_type t) (in_type t) (c_min_identity t) c_min_calc c_min_reduce \<longleftrightarrow> t \<noteq> T_uchar"
proof
  assume "update_monoid (in_type t) (in_type t) (c_min_identity t) c_min_calc c_min_reduce"
  then have "c_min_reduce (type_max t) (c_min_identity t) = type_max t"
    using update_monoid.mult_e [of "in_type t" "in_type t" "c_min_identity t" c_min_calc c_min_reduce "type_max t"] type_nonempty [of t]
    by (simp add: in_type_def)
  then show "t \<noteq> T_uchar" by (auto simp: c_min_reduce_def type_max_def)
qed (rule c_min_monoid)

subsection \<open>Witnesses\<close>

theorem min_max_first_extremum_witness:
  "view_value (run_strands (view_update True (<) snd) (view_reduce (<) snd) (view_identity True (0, 0) (0, 0)) (view_identity True (0, 0) (0, 0))
     (Join (Strand [Calc (1, 5)]) (Join (Strand [Calc (2, 7 :: nat), Assign_of (3, 4) [(4 :: nat, 7)]]) (Strand [])))) = Some (2, 7)"
proof -
  have "strict_weak_order ((<) :: nat \<Rightarrow> nat \<Rightarrow> bool)" by unfold_locales auto
  from min_max_first_extremum [OF this, of True "(0 :: nat, 0)" snd "Join (Strand [Calc (1, 5)]) (Join (Strand [Calc (2, 7 :: nat), Assign_of (3, 4) [(4, 7)]]) (Strand []))" "(0, 0)"]
  show ?thesis by (simp add: mm_legal_def Let_def)
qed

text \<open>Outside the hypothesis: the greatest element reported has an index that was never given.\<close>

lemma max_index_wrong_index:
  "view_value (op_max_index_update True (Calc (5, 0)) (view_identity True (0, 0) (0, 0))) = Some (0 :: nat, 0 :: nat)"
  by (simp add: op_max_index_update_def view_identity_def view_calc_def view_value_def has_value_def)

end
