(* ===== verification/Reducer_Serial.thy ===== *)
theory Reducer_Serial
  imports Reducer_Lib
begin

section \<open>Reducers from the source line to the final value\<close>

text \<open>
  Three steps put the parts together. A strand looks its views up and updates them: its map records the log of its
  updates. Maps are merged reducer by reducer. And the protocol of the scheduler brackets the merges in some order. For
  reducers that satisfy the contract of \<open>Reducer_Lib\<close> the final map has the value of the serial execution.
\<close>

subsection \<open>The updates of a strand\<close>

text \<open>One update \<^verbatim>\<open>REDUCER_VIEW(r) op= x\<close>: the view is looked up, then changed in place. An entry of the log has the address the
  allocator would give, the reducer and the update.\<close>

definition strand_update :: "(64 word \<Rightarrow> 'v hyperobject) \<Rightarrow> (64 word \<Rightarrow> 'x \<Rightarrow> 'v \<Rightarrow> 'v) \<Rightarrow> 64 word \<times> 64 word \<times> 'x \<Rightarrow> 'v strand \<Rightarrow> 'v strand option" where
  "strand_update H upd u s = (case u of (fresh, k, x) \<Rightarrow> do {
     (a, s) \<leftarrow> hyper_lookup fresh (H k) s;
     v \<leftarrow> vals s a;
     Some (s\<lparr>vals := (vals s)(a \<mapsto> upd k x v)\<rparr>) })"

fun strand_run :: "(64 word \<Rightarrow> 'v hyperobject) \<Rightarrow> (64 word \<Rightarrow> 'x \<Rightarrow> 'v \<Rightarrow> 'v) \<Rightarrow> (64 word \<times> 64 word \<times> 'x) list \<Rightarrow> 'v strand \<Rightarrow> 'v strand option" where
  "strand_run H upd [] s = Some s"
| "strand_run H upd (u # us) s = do { s \<leftarrow> strand_update H upd u s; strand_run H upd us s }"

definition log_of :: "('b \<times> 'k \<times> 'x) list \<Rightarrow> 'k \<Rightarrow> 'x list" where
  "log_of us k = map (snd \<circ> snd) (filter (\<lambda>u. fst (snd u) = k) us)"

definition current_val :: "'v strand \<Rightarrow> 64 word \<Rightarrow> 'v option" where
  "current_val s k = val (current_map s) (vals s) k"

definition free_list :: "64 word list \<Rightarrow> 'v strand \<Rightarrow> bool" where
  "free_list fs s \<longleftrightarrow> distinct fs \<and> 0 \<notin> set fs \<and> (\<forall>f. f \<in> set fs \<longrightarrow> vals s f = None)"

lemma log_of_Nil [simp]: "log_of [] k = []"
  by (simp add: log_of_def)

lemma log_of_Cons [simp]: "log_of ((f, k', x) # us) k = (if k' = k then x # log_of us k else log_of us k)"
  by (simp add: log_of_def)

lemma strand_update_step:
  assumes ok: "strand_ok H s" and k: "registered H k s" and f: "fresh \<noteq> 0" "vals s fresh = None" and nl: "\<not> is_leftmost_map (current_map s)"
  obtains s' where "strand_update H upd (fresh, k, x) s = Some s'" "strand_ok H s'" "\<not> is_leftmost_map (current_map s')"
    "current_val s' = (current_val s)(k \<mapsto> upd k x (case current_val s k of Some v \<Rightarrow> v | None \<Rightarrow> identity_fn (H k)))"
    "\<And>k'. registered H k' s \<Longrightarrow> registered H k' s'" "\<And>g. g \<noteq> fresh \<Longrightarrow> vals s g = None \<Longrightarrow> vals s' g = None"
proof -
  let ?h = "current_map s"
  note S = strand_okD [OF ok]
  obtain a s1 h where 1: "hyper_lookup fresh (H k) s = Some (a, s1)" "strand_ok H s1" "cur_map s1 = Some h"
    "is_leftmost_map h = is_leftmost_map ?h" "addr h = (addr ?h)(k \<mapsto> a)"
    "case addr ?h k of Some u \<Rightarrow> a = u \<and> vals s1 = vals s
     | None \<Rightarrow> if is_leftmost_map ?h then a = k \<and> vals s1 = vals s else a = fresh \<and> vals s1 = (vals s)(fresh \<mapsto> identity_fn (H k))"
    by (rule hyper_lookup_run [OF ok k f])
  have ch: "current_map s1 = h" using 1(3) by (simp add: current_map_def)
  note S1 = strand_okD [OF 1(2), unfolded ch]
  define w where "w = (case current_val s k of Some v \<Rightarrow> v | None \<Rightarrow> identity_fn (H k))"
  have a: "vals s1 a = Some w \<and> (\<forall>u. u \<noteq> a \<longrightarrow> vals s1 u = vals s u) \<and> (\<forall>k' u. addr ?h k' = Some u \<longrightarrow> k' \<noteq> k \<longrightarrow> u \<noteq> a) \<and> (vals s a \<noteq> None \<or> a = fresh)"
  proof (cases "addr ?h k")
    case None
    then have "a = fresh" "vals s1 = (vals s)(fresh \<mapsto> identity_fn (H k))" "current_val s k = None" using 1(6) nl by (simp_all add: current_val_def val_def)
    moreover have "addr ?h k' \<noteq> Some fresh" for k' using S(4) [of k' fresh] f(2) by blast
    ultimately show ?thesis by (auto simp: w_def)
  next
    case (Some u)
    then have au: "a = u" "vals s1 = vals s" "current_val s k = vals s u" using 1(6) by (simp_all add: current_val_def val_def)
    obtain v where v: "vals s u = Some v" using S(4) [OF Some] by blast
    have "k' = k" if "addr ?h k' = Some u" for k' using S(5) [OF that Some] .
    then show ?thesis using au v by (auto simp: w_def)
  qed
  let ?s = "s1\<lparr>vals := (vals s1)(a \<mapsto> upd k x w)\<rparr>"
  have cs: "current_map ?s = h" using 1(3) by (simp add: current_map_def)
  have run: "strand_update H upd (fresh, k, x) s = Some ?s" using 1(1) a(1) by (simp add: strand_update_def)
  have ok': "strand_ok H ?s" using S1 unfolding strand_ok_def cs by auto
  have "current_val ?s k' = ((current_val s)(k \<mapsto> upd k x w)) k'" for k'
    using a by (cases "addr ?h k'") (auto simp: current_val_def val_def cs 1(5))
  then have cv: "current_val ?s = (current_val s)(k \<mapsto> upd k x (case current_val s k of Some v \<Rightarrow> v | None \<Rightarrow> identity_fn (H k)))"
    unfolding w_def [symmetric] by blast
  have old: "vals ?s g \<noteq> None" if "vals s g \<noteq> None" for g using a that by (cases "g = a") auto
  have reg: "registered H k' ?s" if r: "registered H k' s" for k'
  proof -
    have "k' \<noteq> fresh" using r f(2) by (auto simp: registered_def)
    moreover have "k' = k" if "a = k'"
      using 1(6) that r \<open>k' \<noteq> fresh\<close> nl by (cases "addr ?h k") (auto simp: registered_def)
    ultimately show ?thesis using r old [of k'] by (auto simp: registered_def cs 1(5))
  qed
  have un: "vals ?s g = None" if "g \<noteq> fresh" "vals s g = None" for g using a that by (cases "g = a") auto
  have "\<not> is_leftmost_map (current_map ?s)" using cs 1(4) nl by simp
  then show thesis by (rule that [OF run ok' _ cv reg un])
qed

lemma strand_run_log:
  assumes "strand_ok H s" "\<not> is_leftmost_map (current_map s)" "\<And>k. log_of us k \<noteq> [] \<Longrightarrow> registered H k s" "free_list (map fst us) s"
  obtains s' where "strand_run H upd us s = Some s'" "strand_ok H s'" "\<not> is_leftmost_map (current_map s')"
    "\<And>k. current_val s' k = (if log_of us k = [] then current_val s k
       else Some (fold (upd k) (log_of us k) (case current_val s k of Some v \<Rightarrow> v | None \<Rightarrow> identity_fn (H k))))"
  using assms
proof (induction us arbitrary: s thesis)
  case Nil
  show ?case by (rule Nil(1) [of s]) (use Nil in simp_all)
next
  case (Cons u us)
  obtain f k x where u: "u = (f, k, x)" by (cases u)
  have f: "f \<noteq> 0" "vals s f = None" "free_list (map fst us) s" "f \<notin> set (map fst us)" using Cons.prems(5) by (auto simp: u free_list_def)
  have k: "registered H k s" using Cons.prems(4) [of k] by (simp add: u)
  obtain s1 where 1: "strand_update H upd (f, k, x) s = Some s1" "strand_ok H s1" "\<not> is_leftmost_map (current_map s1)"
    "current_val s1 = (current_val s)(k \<mapsto> upd k x (case current_val s k of Some v \<Rightarrow> v | None \<Rightarrow> identity_fn (H k)))"
    "\<And>k'. registered H k' s \<Longrightarrow> registered H k' s1" "\<And>g. g \<noteq> f \<Longrightarrow> vals s g = None \<Longrightarrow> vals s1 g = None"
    by (rule strand_update_step [OF Cons.prems(2) k f(1,2) Cons.prems(3), of upd x]) (rule that; assumption)
  have r: "registered H k' s1" if "log_of us k' \<noteq> []" for k' using 1(5) Cons.prems(4) [of k'] that by (auto simp: u split: if_splits)
  have "vals s1 g = None" if "g \<in> set (map fst us)" for g
    by (rule 1(6)) (use that f(3,4) in \<open>unfold free_list_def, blast+\<close>)
  then have fl: "free_list (map fst us) s1" using f(3) unfolding free_list_def by blast
  obtain s2 where 2: "strand_run H upd us s1 = Some s2" "strand_ok H s2" "\<not> is_leftmost_map (current_map s2)"
    "\<And>k. current_val s2 k = (if log_of us k = [] then current_val s1 k
       else Some (fold (upd k) (log_of us k) (case current_val s1 k of Some v \<Rightarrow> v | None \<Rightarrow> identity_fn (H k))))"
    by (rule Cons.IH [OF _ 1(2,3) r fl]) (rule that; assumption)
  show ?case by (rule Cons.prems(1) [OF _ 2(2,3)]) (use 1(1,4) 2(1,4) in \<open>auto simp: u\<close>)
qed

subsection \<open>Maps that hold a log\<close>

definition holds :: "('k \<Rightarrow> 'x \<Rightarrow> bool) \<Rightarrow> ('k \<Rightarrow> 'a) \<Rightarrow> ('k \<Rightarrow> 'x \<Rightarrow> 'a \<Rightarrow> 'a) \<Rightarrow> ('k \<Rightarrow> 'v \<Rightarrow> bool) \<Rightarrow> ('k \<Rightarrow> 'v \<Rightarrow> 'a)
    \<Rightarrow> ('k \<Rightarrow> 'v option) option \<Rightarrow> ('k \<Rightarrow> 'x list) \<Rightarrow> bool" where
  "holds L e act vok vmean m log \<longleftrightarrow> (\<forall>k. list_all (L k) (log k) \<and>
     (case Option.bind m (\<lambda>f. f k) of None \<Rightarrow> log k = [] | Some v \<Rightarrow> vok k v \<and> vmean k v = fold (act k) (log k) (e k)))"

definition cat_logs :: "('k \<Rightarrow> 'x list) list \<Rightarrow> 'k \<Rightarrow> 'x list" where
  "cat_logs logs k = concat (map (\<lambda>l. l k) logs)"

lemma merge_vals_assoc:
  assumes "\<And>k a b c. R k (R k a b) c = R k a (R k b c)"
  shows "reduce_assoc (merge_vals R)"
  using assms by (auto simp: reduce_assoc_def merge_vals_def fun_eq_iff split: option.splits)

lemma holds_merge:
  assumes "\<And>k. assoc_view (A k) (L k) (e k) (act k) (mlt k) (vok k) (vmean k) (ident k) (upd k) (R k)"
    and "holds L e act vok vmean m l" and "holds L e act vok vmean m' l'"
  shows "holds L e act vok vmean (merge_reducer_maps (merge_vals R) m m') (\<lambda>k. l k @ l' k)"
  unfolding holds_def
proof
  fix k
  have rv: "reducer_view (A k) (L k) (e k) (act k) (mlt k) (vok k) (vmean k) (ident k) (upd k) (R k)" using assms(1) [of k] by (simp add: assoc_view_def)
  then have um: "update_monoid (A k) (L k) (e k) (act k) (mlt k)" by (simp add: reducer_view_def)
  note H = assms(2,3) [unfolded holds_def, rule_format, of k]
  have both: "vok k (R k a b) \<and> vmean k (R k a b) = fold (act k) (l k @ l' k) (e k)"
    if "vok k a" "vmean k a = fold (act k) (l k) (e k)" "vok k b" "vmean k b = fold (act k) (l' k) (e k)" for a b
    using that H reducer_view.red_ok [OF rv] reducer_view.sem_red [OF rv] reducer_view.sem_in [OF rv, of a] update_monoid.mult_log [OF um] by auto
  show "list_all (L k) (l k @ l' k) \<and>
     (case Option.bind (merge_reducer_maps (merge_vals R) m m') (\<lambda>f. f k) of None \<Rightarrow> l k @ l' k = []
      | Some v \<Rightarrow> vok k v \<and> vmean k v = fold (act k) (l k @ l' k) (e k))"
    using H both by (cases m; cases m') (auto simp: merge_vals_def split: option.splits)
qed

lemma holds_product:
  assumes "\<And>k. assoc_view (A k) (L k) (e k) (act k) (mlt k) (vok k) (vmean k) (ident k) (upd k) (R k)"
    and "list_all2 (holds L e act vok vmean) ms logs"
  shows "holds L e act vok vmean (product (merge_vals R) ms) (cat_logs logs)"
  using assms(2)
proof (induction rule: list_all2_induct)
  case Nil
  then show ?case by (simp add: holds_def cat_logs_def)
next
  case (Cons m ms l logs)
  have "cat_logs (l # logs) = (\<lambda>k. l k @ cat_logs logs k)" by (simp add: cat_logs_def fun_eq_iff)
  then show ?case using holds_merge [OF assms(1) Cons(1,3)] by simp
qed

subsection \<open>Properties\<close>

text \<open>reducers give the serial value. Let every reducer satisfy the contract of a view, let the maps of a family of strands
  hold the logs of their updates, and let the children return in any order. Then all returns succeed, and for every reducer the map
  left for the parent has the value that a serial execution of all updates, in program order, computes.\<close>

theorem reducers_compute_serial_value:
  assumes "\<forall>k. assoc_view (A k) (L k) (e k) (act k) (mlt k) (vok k) (vmean k) (identity_fn (H k)) (upd k) (reduce_fn (H k))"
    and "family wk p cs s" and "mset ds = mset cs" and "list_all2 (holds L e act vok vmean) (view_seq wk p cs s) logs"
  shows "\<exists>s'. return_all (merge_vals (\<lambda>k. reduce_fn (H k))) x wk sf ds s = Some s' \<and>
     holds L e act vok vmean (children_reducer_map (ffh s' p)) (cat_logs logs)"
proof -
  let ?mu = "merge_vals (\<lambda>k. reduce_fn (H k))"
  have "reduce_assoc ?mu" by (rule merge_vals_assoc) (use assms(1) in \<open>simp add: assoc_view_def assoc_view_axioms_def\<close>)
  then obtain s' where s': "return_all ?mu x wk sf ds s = Some s'" "family wk p [] s'"
    "product ?mu (view_seq wk p [] s') = product ?mu (view_seq wk p cs s)"
    using return_all_run [OF _ assms(2,3)] by blast
  have "children_reducer_map (ffh s' p) = product ?mu (view_seq wk p cs s)" using s'(2,3) by (auto simp: family_def view_seq_def)
  moreover have "holds L e act vok vmean (product ?mu (view_seq wk p cs s)) (cat_logs logs)"
    by (rule holds_product [OF _ assms(4)]) (use assms(1) in blast)
  ultimately show ?thesis using s'(1) by auto
qed

text \<open>a strand records its updates. Any sequence of updates of registered reducers on a strand that is not the leftmost one succeeds, and afterwards the
  strand's map has for every reducer the identity, or the value it had, with the strand's updates of that reducer applied in order,
  and nothing for a reducer it did not touch.\<close>

theorem strand_accumulates:
  assumes "strand_ok H s" and "\<not> is_leftmost_map (current_map s)" and "\<forall>k. log_of us k \<noteq> [] \<longrightarrow> registered H k s" and "free_list (map fst us) s"
  shows "\<exists>s'. strand_run H upd us s = Some s' \<and> strand_ok H s' \<and>
     (\<forall>k. current_val s' k = (if log_of us k = [] then current_val s k
       else Some (fold (upd k) (log_of us k) (case current_val s k of Some v \<Rightarrow> v | None \<Rightarrow> identity_fn (H k)))))"
  by (rule strand_run_log [OF assms(1,2) _ assms(4), of upd]) (use assms(3) in auto)

subsection \<open>Witnesses\<close>

text \<open>One string reducer; frame 0 has the children 1 and 2 on the workers 1 and 2, which have appended to it.\<close>

definition ser_hb :: "64 word \<Rightarrow> char string_view hyperobject" where
  "ser_hb k = \<lparr>hb_addr = k - 8, view_offset = 8, identity_fn = string_identity, reduce_fn = string_reduce\<rparr>"

definition ser_map :: "string \<Rightarrow> 64 word \<Rightarrow> char string_view option" where
  "ser_map c = [100 \<mapsto> \<lparr>m_string = c, m_list = []\<rparr>]"

definition ser_log :: "string \<Rightarrow> 64 word \<Rightarrow> char string_op list" where
  "ser_log c = (\<lambda>k. if k = 100 then [Append c] else [])"

definition ser_rts :: "(64 word \<Rightarrow> char string_view option, unit) rts" where
  "ser_rts = \<lparr>ffh = (\<lambda>_. new_full_frame None)
       (0 := (new_full_frame None)\<lparr>rightmost_child := Some 2, fiber_self := Some 9\<rparr>,
        1 := (new_full_frame None)\<lparr>parent := Some 0, right_sibling := Some 2, fiber_self := Some 7, right_reducer_map := Some (ser_map ''b'')\<rparr>,
        2 := (new_full_frame None)\<lparr>parent := Some 0, left_sibling := Some 1, fiber_self := Some 8\<rparr>),
     ff_brk = 3, ff_freed = [], sfh = (\<lambda>_. sf0),
     wkh = (\<lambda>_. (make_worker 8 0 50)\<lparr>frame_ff := Some 0\<rparr>)
       (1 := (make_worker 8 0 50)\<lparr>reducer_map := Some (ser_map ''a'')\<rparr>, 2 := (make_worker 8 0 50)\<lparr>reducer_map := Some (ser_map ''c'')\<rparr>)\<rparr>"

lemma ser_family: "family id 0 [1, 2] ser_rts"
proof -
  have "children (ffh ser_rts) 0 [1, 2]" by (auto simp: ser_rts_def children_def new_full_frame_def last_opt_def)
  then show ?thesis
    by (simp add: family_def) (simp add: ser_rts_def new_full_frame_def worker_eval validate_full_frame_def mutex_init_def)
qed

lemma ser_views: "view_seq id 0 [1, 2] ser_rts = [None, Some (ser_map ''a''), Some (ser_map ''b''), Some (ser_map ''c''), None]"
  by (simp add: view_seq_def ser_rts_def new_full_frame_def)

theorem reducers_compute_serial_value_witness:
  "\<exists>s' m v. return_all (merge_vals (\<lambda>k. reduce_fn (ser_hb k))) no_exn id (\<lambda>_. 5) [2, 1] ser_rts = Some s' \<and>
     children_reducer_map (ffh s' 0) = Some m \<and> m 100 = Some v \<and> string_value v = ''abc''"
proof -
  let ?h = "holds (\<lambda>k _. True) (\<lambda>k. []) (\<lambda>k u s. s @ string_seg u) (\<lambda>k _. True) (\<lambda>k. string_value)"
  have one: "?h (Some (ser_map c)) (ser_log c)" for c
    by (auto simp: holds_def ser_map_def ser_log_def string_value_def)
  have none: "?h None (\<lambda>_. [])" by (simp add: holds_def)
  have la: "list_all2 ?h (view_seq id 0 [1, 2] ser_rts) [\<lambda>_. [], ser_log ''a'', ser_log ''b'', ser_log ''c'', \<lambda>_. []]"
    unfolding ser_views using one none by simp
  have av: "\<forall>k. assoc_view (\<lambda>_. True) (\<lambda>_. True) [] (\<lambda>u s. s @ string_seg u) (@) (\<lambda>_. True) string_value (identity_fn (ser_hb k)) string_update (reduce_fn (ser_hb k))"
    using str.assoc_view_axioms by (simp add: ser_hb_def)
  have "mset [2, 1] = mset [1, 2 :: nat]" by simp
  from reducers_compute_serial_value [OF av ser_family this la, of no_exn "\<lambda>_. 5"]
  obtain s' where s': "return_all (merge_vals (\<lambda>k. reduce_fn (ser_hb k))) no_exn id (\<lambda>_. 5) [2, 1] ser_rts = Some s'"
    "?h (children_reducer_map (ffh s' 0)) (cat_logs [\<lambda>_. [], ser_log ''a'', ser_log ''b'', ser_log ''c'', \<lambda>_. []])" by blast
  have "cat_logs [\<lambda>_. [], ser_log ''a'', ser_log ''b'', ser_log ''c'', \<lambda>_. []] 100 = [Append ''a'', Append ''b'', Append ''c'']"
    by (simp add: cat_logs_def ser_log_def)
  then show ?thesis using s'(1) s'(2) [unfolded holds_def, rule_format, of 100]
    by (cases "children_reducer_map (ffh s' 0)") (auto split: option.splits)
qed

theorem strand_accumulates_witness:
  "\<exists>s'. strand_run str_hb (\<lambda>k x v. v @ x) [(4000, 300, ''x''), (6000, 300, ''w'')] str_strand = Some s' \<and>
     current_val s' 300 = Some ''xw'' \<and> current_val s' 100 = Some ''c''"
proof -
  have r: "\<forall>k. log_of [(4000, 300, ''x''), (6000, 300, ''w'')] k \<noteq> [] \<longrightarrow> registered str_hb k str_strand"
    using str_strand_ok(2) by simp
  have f: "free_list (map fst [(4000, 300 :: 64 word, ''x''), (6000, 300, ''w'')]) str_strand" by (auto simp: free_list_def str_strand_def str_store_def)
  have v: "current_val str_strand 300 = None" "current_val str_strand 100 = Some ''c''"
    using str_strand_ok(3) by (simp_all add: current_val_def val_def) (simp add: str_strand_def str_store_def)
  from strand_accumulates [OF str_strand_ok(1,4) r f, of "\<lambda>k x v. v @ x"] show ?thesis by (auto simp: v str_hb_def)
qed

end
