(* ===== verification/Reducer_Trees.thy ===== *)
theory Reducer_Trees
  imports Reducer_Serial
begin

section \<open>The reducers of a whole computation on the hash maps\<close>

text \<open>
  The whole life of the reducers of a computation, on the memory: a tree of strands, each with the log of its updates. The leftmost strand
  works on the map of the worker that started the computation, every other one begins after a steal, without a map. Where two parts join, the
  map of the right part is merged into that of the left one. All strands share the store of views; \<open>right_first\<close> says, at every join, which
  part runs first.
\<close>

fun run_maps :: "(64 word \<Rightarrow> 'v hyperobject) \<Rightarrow> (64 word \<Rightarrow> 'x \<Rightarrow> 'v \<Rightarrow> 'v) \<Rightarrow> ((64 word \<times> 64 word \<times> 'x) strands \<Rightarrow> bool)
    \<Rightarrow> (64 word \<times> 64 word \<times> 'x) strands \<Rightarrow> 'v cilkred_map option \<Rightarrow> 'v store \<Rightarrow> ('v cilkred_map option \<times> 'v store) option" where
  "run_maps H upd right_first (Strand us) h m = do {
     s \<leftarrow> strand_run H upd us \<lparr>has_worker = True, cur_map = h, vals = m\<rparr>;
     Some (cur_map s, vals s) }"
| "run_maps H upd right_first (Join l r) h m =
     (if right_first (Join l r) then do {
        (hr, m) \<leftarrow> run_maps H upd right_first r None m;
        (hl, m) \<leftarrow> run_maps H upd right_first l h m;
        merge_maps hl hr m }
      else do {
        (hl, m) \<leftarrow> run_maps H upd right_first l h m;
        (hr, m) \<leftarrow> run_maps H upd right_first r None m;
        merge_maps hl hr m })"

definition used_keys :: "('b \<times> 'k \<times> 'x) list \<Rightarrow> 'k set" where
  "used_keys us = (fst \<circ> snd) ` set us"

definition fresh_addrs :: "('b \<times> 'k \<times> 'x) list \<Rightarrow> 'b set" where
  "fresh_addrs us = fst ` set us"

text \<open>The reducers of a log exist, and the addresses the allocator will return are free and different.\<close>

definition log_ok :: "(64 word \<Rightarrow> 'v hyperobject) \<Rightarrow> 'v store \<Rightarrow> (64 word \<times> 64 word \<times> 'x) list \<Rightarrow> bool" where
  "log_ok H m us \<longleftrightarrow> distinct (map fst us) \<and> 0 \<notin> fresh_addrs us \<and> (\<forall>f\<in>fresh_addrs us. m f = None) \<and>
     (\<forall>k\<in>used_keys us. k \<noteq> 0 \<and> get_hyperobject_key (H k) = k \<and> m k \<noteq> None)"

definition oaddr :: "'v cilkred_map option \<Rightarrow> 64 word \<Rightarrow> 64 word option" where
  "oaddr h = (case h of None \<Rightarrow> Map.empty | Some c \<Rightarrow> addr c)"

definition first_map :: "bool \<Rightarrow> 'v cilkred_map option" where
  "first_map leftmost = (if leftmost then Some (set_leftmost_reducer_map make_reducer_map True) else None)"

lemma log_sets_simps [simp]:
  "used_keys [] = {}" "fresh_addrs [] = {}" "used_keys (us @ vs) = used_keys us \<union> used_keys vs" "fresh_addrs (us @ vs) = fresh_addrs us \<union> fresh_addrs vs"
  "used_keys [(f, k, x)] = {k}" "fresh_addrs [(f, k, x)] = {f}"
  by (auto simp: used_keys_def fresh_addrs_def)

lemma log_of_append [simp]: "log_of (us @ vs) k = log_of us k @ log_of vs k"
  by (simp add: log_of_def)

lemma log_okD:
  assumes "log_ok H m us"
  shows "f \<in> fresh_addrs us \<Longrightarrow> m f = None \<and> f \<noteq> 0" "k \<in> used_keys us \<Longrightarrow> m k \<noteq> None \<and> k \<noteq> 0 \<and> get_hyperobject_key (H k) = k"
    "k \<in> used_keys us \<Longrightarrow> k \<notin> fresh_addrs us"
  using assms by (auto simp: log_ok_def)

lemma log_ok_append:
  assumes "log_ok H m (us @ vs)"
  shows "log_ok H m us" "log_ok H m vs" "fresh_addrs us \<inter> fresh_addrs vs = {}"
  using assms by (auto simp: log_ok_def fresh_addrs_def)

lemma oaddr_current: "oaddr (cur_map s) = addr (current_map s)"
  by (simp add: oaddr_def current_map_def make_map_ok split: option.splits)

lemma first_map_ok:
  fixes H :: "64 word \<Rightarrow> 'v hyperobject"
  shows "oaddr (first_map b :: 'v cilkred_map option) = Map.empty" "strand_ok H \<lparr>has_worker = True, cur_map = first_map b, vals = m\<rparr>"
  "first_map b = Some c \<Longrightarrow> wf_map H c \<and> is_leftmost_map c = b" "b \<Longrightarrow> first_map b \<noteq> (None :: 'v cilkred_map option)"
proof -
  have w: "wf_map H (set_leftmost_reducer_map make_reducer_map True)"
      "addr (set_leftmost_reducer_map make_reducer_map True :: 'v cilkred_map) = Map.empty"
    using make_map_ok by (auto simp: wf_map_def addr_def views_def set_leftmost_reducer_map_def fun_eq_iff)
  have n: "\<not> merging (make_reducer_map :: 'v cilkred_map)" "\<not> merging (set_leftmost_reducer_map make_reducer_map True :: 'v cilkred_map)"
    by (simp_all add: set_leftmost_reducer_map_def make_reducer_map_def)
  show "oaddr (first_map b :: 'v cilkred_map option) = Map.empty" using w by (simp add: oaddr_def first_map_def)
  show "strand_ok H \<lparr>has_worker = True, cur_map = first_map b, vals = m\<rparr>"
    using w n by (simp add: strand_ok_def current_map_def first_map_def make_map_ok)
  show "first_map b = Some c \<Longrightarrow> wf_map H c \<and> is_leftmost_map c = b" "b \<Longrightarrow> first_map b \<noteq> (None :: 'v cilkred_map option)"
    using w by (auto simp: first_map_def set_leftmost_reducer_map_def split: if_splits)
qed

text \<open>One update, on any strand.\<close>

lemma strand_update_any:
  assumes ok: "strand_ok H s" and k: "registered H k s" and f: "fresh \<noteq> 0" "vals s fresh = None"
  defines "a \<equiv> (case addr (current_map s) k of Some u \<Rightarrow> u | None \<Rightarrow> if is_leftmost_map (current_map s) then k else fresh)"
    and "v \<equiv> (case addr (current_map s) k of Some u \<Rightarrow> the (vals s u)
      | None \<Rightarrow> if is_leftmost_map (current_map s) then the (vals s k) else identity_fn (H k))"
  obtains s' h where "strand_update H upd (fresh, k, x) s = Some s'" "strand_ok H s'" "cur_map s' = Some h"
    "is_leftmost_map h = is_leftmost_map (current_map s)" "addr h = (addr (current_map s))(k \<mapsto> a)" "vals s' = (vals s)(a \<mapsto> upd k x v)"
proof -
  note S = strand_okD [OF ok]
  obtain a' s1 h where 1: "hyper_lookup fresh (H k) s = Some (a', s1)" "strand_ok H s1" "cur_map s1 = Some h"
    "is_leftmost_map h = is_leftmost_map (current_map s)" "addr h = (addr (current_map s))(k \<mapsto> a')"
    "case addr (current_map s) k of Some u \<Rightarrow> a' = u \<and> vals s1 = vals s
     | None \<Rightarrow> if is_leftmost_map (current_map s) then a' = k \<and> vals s1 = vals s else a' = fresh \<and> vals s1 = (vals s)(fresh \<mapsto> identity_fn (H k))"
    by (rule hyper_lookup_run [OF ok k f])
  have a: "a' = a" using 1(6) by (auto simp: a_def split: option.splits if_splits)
  have v: "vals s1 a = Some v" "(vals s1)(a \<mapsto> upd k x v) = (vals s)(a \<mapsto> upd k x v)"
    using 1(6) S(4) [of k] k by (auto simp: a_def v_def registered_def split: option.splits if_splits)
  let ?s = "s1\<lparr>vals := (vals s)(a \<mapsto> upd k x v)\<rparr>"
  have run: "strand_update H upd (fresh, k, x) s = Some ?s" using 1(1) v a by (simp add: strand_update_def)
  have c: "current_map s1 = h" "current_map ?s = h" using 1(3) by (simp_all add: current_map_def)
  have "vals ?s u \<noteq> None" if "vals s1 u \<noteq> None" for u using that unfolding v(2) [symmetric] by simp
  then have "strand_ok H ?s" using strand_okD [OF 1(2), unfolded c] unfolding strand_ok_def c by auto
  then show thesis using that [OF run] 1(3,4,5) a by simp
qed


subsection \<open>What the maps of a part of the tree hold\<close>

text \<open>
  The interface: a family of reducers, one for every address, each with the contract of a view. \<open>held b m us h m'\<close>: a part of the tree
  with the log \<open>us\<close>, started in the store \<open>m\<close>, has the map \<open>h\<close> in the store \<open>m'\<close>; \<open>b\<close> says whether it is the leftmost part.
\<close>

locale reducer_family =
  fixes A :: "64 word \<Rightarrow> 'a \<Rightarrow> bool" and L :: "64 word \<Rightarrow> 'x \<Rightarrow> bool" and e :: "64 word \<Rightarrow> 'a" and act :: "64 word \<Rightarrow> 'x \<Rightarrow> 'a \<Rightarrow> 'a"
    and mlt :: "64 word \<Rightarrow> 'a \<Rightarrow> 'a \<Rightarrow> 'a" and vok :: "64 word \<Rightarrow> 'v \<Rightarrow> bool" and vmean :: "64 word \<Rightarrow> 'v \<Rightarrow> 'a"
    and H :: "64 word \<Rightarrow> 'v hyperobject" and upd :: "64 word \<Rightarrow> 'x \<Rightarrow> 'v \<Rightarrow> 'v"
  assumes view: "reducer_view (A k) (L k) (e k) (act k) (mlt k) (vok k) (vmean k) (identity_fn (H k)) (upd k) (reduce_fn (H k))"
begin

definition start_val :: "bool \<Rightarrow> 'v store \<Rightarrow> 64 word \<Rightarrow> 'v" where
  "start_val b m k = (if b then the (m k) else identity_fn (H k))"

definition start_ok :: "bool \<Rightarrow> 'v store \<Rightarrow> (64 word \<times> 64 word \<times> 'x) list \<Rightarrow> bool" where
  "start_ok b m us \<longleftrightarrow> log_ok H m us \<and> (\<forall>k. list_all (L k) (log_of us k)) \<and> (b \<longrightarrow> (\<forall>k\<in>used_keys us. vok k (the (m k))))"

definition shape :: "bool \<Rightarrow> (64 word \<times> 64 word \<times> 'x) list \<Rightarrow> 'v cilkred_map option \<Rightarrow> bool" where
  "shape b us h \<longleftrightarrow> (b \<longrightarrow> h \<noteq> None) \<and> (\<forall>c. h = Some c \<longrightarrow> wf_map H c \<and> is_leftmost_map c = b) \<and>
     (\<forall>k u. oaddr h k = Some u \<longrightarrow> k \<in> used_keys us \<and> (if b then u = k else u \<in> fresh_addrs us)) \<and>
     (\<forall>k k' u. oaddr h k = Some u \<longrightarrow> oaddr h k' = Some u \<longrightarrow> k = k') \<and> (\<forall>k. oaddr h k = None \<longrightarrow> log_of us k = [])"

definition values_ok :: "bool \<Rightarrow> 'v store \<Rightarrow> (64 word \<times> 64 word \<times> 'x) list \<Rightarrow> 'v cilkred_map option \<Rightarrow> 'v store \<Rightarrow> bool" where
  "values_ok b m us h m' \<longleftrightarrow> (\<forall>k u. oaddr h k = Some u \<longrightarrow>
     (\<exists>v. m' u = Some v \<and> vok k v \<and> vmean k v = fold (act k) (log_of us k) (vmean k (start_val b m k))))"

definition held :: "bool \<Rightarrow> 'v store \<Rightarrow> (64 word \<times> 64 word \<times> 'x) list \<Rightarrow> 'v cilkred_map option \<Rightarrow> 'v store \<Rightarrow> bool" where
  "held b m us h m' \<longleftrightarrow> shape b us h \<and> values_ok b m us h m' \<and> (\<forall>x. (\<forall>k. oaddr h k \<noteq> Some x) \<longrightarrow> m' x = m x)"

lemma shapeD:
  assumes "shape b us h"
  shows "b \<Longrightarrow> h \<noteq> None" "h = Some c \<Longrightarrow> wf_map H c" "h = Some c \<Longrightarrow> is_leftmost_map c = b" "oaddr h k = Some u \<Longrightarrow> k \<in> used_keys us"
    "oaddr h k = Some u \<Longrightarrow> b \<Longrightarrow> u = k" "oaddr h k = Some u \<Longrightarrow> \<not> b \<Longrightarrow> u \<in> fresh_addrs us"
    "oaddr h k = Some u \<Longrightarrow> oaddr h k' = Some u \<Longrightarrow> k = k'" "oaddr h k = None \<Longrightarrow> log_of us k = []"
  using assms unfolding shape_def by (auto split: if_splits)

lemma heldD:
  assumes "held b m us h m'"
  shows "shape b us h" "values_ok b m us h m'" "(\<And>k. oaddr h k \<noteq> Some x) \<Longrightarrow> m' x = m x"
  using assms unfolding held_def by auto

lemma held_alloc:
  assumes "log_ok H m us" "held b m us h m'"
  shows "k \<in> used_keys us \<Longrightarrow> m' k \<noteq> None" "\<not> b \<Longrightarrow> k \<in> used_keys us \<Longrightarrow> m' k = m k" "oaddr h k = Some u \<Longrightarrow> m' u \<noteq> None"
proof -
  note S = shapeD [OF heldD(1) [OF assms(2)]] and V = heldD(2) [OF assms(2), unfolded values_ok_def, rule_format]
  show "oaddr h k = Some u \<Longrightarrow> m' u \<noteq> None" for k u using V by force
  show eq: "m' k = m k" if "\<not> b" "k \<in> used_keys us" for k
    by (rule heldD(3) [OF assms(2)]) (use S(6) that log_okD(3) [OF assms(1)] in blast)
  show "m' k \<noteq> None" if k: "k \<in> used_keys us" for k
  proof (cases "\<exists>j. oaddr h j = Some k")
    case True
    then show ?thesis using V by force
  next
    case False
    then have "m' k = m k" by (intro heldD(3) [OF assms(2)]) blast
    then show ?thesis using log_okD(2) [OF assms(1) k] by simp
  qed
qed

lemma held_first: "held b m [] (first_map b) m"
  using first_map_ok(3,4) by (auto simp: held_def shape_def values_ok_def first_map_ok(1))

lemma held_update:
  assumes start: "start_ok b m (us @ [(f, k, x)])" and ok: "strand_ok H s" and held: "held b m us (cur_map s) (vals s)"
    and lm: "is_leftmost_map (current_map s) = b"
  obtains s' where "strand_update H upd (f, k, x) s = Some s'" "strand_ok H s'" "held b m (us @ [(f, k, x)]) (cur_map s') (vals s')"
    "is_leftmost_map (current_map s') = b"
proof -
  let ?A = "addr (current_map s)"
  have lo: "log_ok H m (us @ [(f, k, x)])" using start by (simp add: start_ok_def)
  note l = log_ok_append [OF lo] and D = log_okD [OF lo]
  note S = shapeD [OF heldD(1) [OF held], unfolded oaddr_current] and V = heldD(2) [OF held, unfolded values_ok_def oaddr_current, rule_format]
    and fr = heldD(3) [OF held, unfolded oaddr_current]
  note rv = reducer_view.upd_ok [OF view] reducer_view.sem_upd [OF view] reducer_view.ident_ok [OF view]
  have f: "f \<noteq> 0" "m f = None" "f \<notin> fresh_addrs us" "k \<notin> fresh_addrs us" using D(1) [of f] D(3) [of k] l(3) by auto
  have key: "k \<noteq> 0" "get_hyperobject_key (H k) = k" "m k \<noteq> None" using D(2) [of k] by auto
  have "?A j \<noteq> Some f" for j using S(4,5,6) [of j f] f D(2) [of j] by (cases b) auto
  then have vf: "vals s f = None" using fr [of f] f by simp
  have ak: "j = k" if "?A j = Some k" for j using S(5,6) [OF that] f(4) by (cases b) auto
  have "vals s k \<noteq> None"
  proof (cases "\<exists>j. ?A j = Some k")
    case True
    then show ?thesis using V by force
  next
    case False
    then show ?thesis using fr [of k] key by force
  qed
  then have reg: "registered H k s" using key ak by (simp add: registered_def)
  define a where "a = (case ?A k of Some u \<Rightarrow> u | None \<Rightarrow> if b then k else f)"
  define v where "v = (case ?A k of Some u \<Rightarrow> the (vals s u) | None \<Rightarrow> if b then the (vals s k) else identity_fn (H k))"
  obtain s' h where 1: "strand_update H upd (f, k, x) s = Some s'" "strand_ok H s'" "cur_map s' = Some h" "is_leftmost_map h = b"
    "addr h = ?A(k \<mapsto> a)" "vals s' = (vals s)(a \<mapsto> upd k x v)"
    by (rule strand_update_any [OF ok reg f(1) vf, of upd x]) (use that lm in \<open>simp add: a_def v_def\<close>)
  have c: "current_map s' = h" using 1(3) by (simp add: current_map_def)
  have start_k: "vok k (start_val b m k)"
    using start rv(3) by (auto simp: start_val_def start_ok_def)
  have v: "vok k v \<and> vmean k v = fold (act k) (log_of us k) (vmean k (start_val b m k))"
  proof (cases "?A k")
    case None
    have "vals s k = m k"
    proof (rule fr)
      fix j show "?A j \<noteq> Some k" using ak [of j] None by auto
    qed
    then have "v = start_val b m k" using None by (simp add: v_def start_val_def)
    then show ?thesis using start_k S(8) [OF None] by simp
  next
    case (Some u)
    then show ?thesis using V [OF Some] by (auto simp: v_def)
  qed
  have "list_all (L k) (log_of (us @ [(f, k, x)]) k)" using start unfolding start_ok_def by blast
  then have Lx: "L k x" by simp
  have other: "u \<noteq> a" if "?A j = Some u" "j \<noteq> k" for j u
  proof
    assume u: "u = a"
    show False
    proof (cases "?A k")
      case None
      then have "a = (if b then k else f)" by (simp add: a_def)
      then show False using that(2) u S(5,6) [OF that(1)] f(3) by (cases b) auto
    next
      case (Some w)
      then show False using S(7) [OF that(1), of k] that(2) u by (simp add: a_def)
    qed
  qed
  have sh: "shape b (us @ [(f, k, x)]) (Some h)"
    unfolding shape_def
  proof (intro conjI allI impI)
    show "wf_map H c" "is_leftmost_map c = b" if "Some h = Some c" for c
      using that 1(4) strand_okD(2) [OF 1(2)] c by auto
    show "j \<in> used_keys (us @ [(f, k, x)])" if "oaddr (Some h) j = Some u" for j u
      using that S(4) [of j u] by (cases "j = k") (auto simp: oaddr_def 1(5))
    show "if b then u = j else u \<in> fresh_addrs (us @ [(f, k, x)])" if "oaddr (Some h) j = Some u" for j u
      using that S(5,6) [of j u] by (cases "j = k"; cases "?A k") (auto simp: oaddr_def 1(5) a_def)
    show "j = j'" if "oaddr (Some h) j = Some u" "oaddr (Some h) j' = Some u" for j j' u
    proof (cases "j = k \<or> j' = k")
      case True
      have "u \<noteq> a" if "oaddr (Some h) i = Some u" "i \<noteq> k" for i using that other [of i u] by (simp add: oaddr_def 1(5))
      moreover have "u = a" if "oaddr (Some h) k = Some u" using that by (simp add: oaddr_def 1(5))
      ultimately show ?thesis using True that by metis
    next
      case False
      then show ?thesis using that S(7) [of j u j'] by (simp add: oaddr_def 1(5))
    qed
    show "log_of (us @ [(f, k, x)]) j = []" if "oaddr (Some h) j = None" for j
      using that S(8) [of j] by (auto simp: oaddr_def 1(5) split: if_splits)
  qed simp
  have va: "values_ok b m (us @ [(f, k, x)]) (Some h) (vals s')"
    unfolding values_ok_def
  proof (intro allI impI)
    fix j u assume j: "oaddr (Some h) j = Some u"
    show "\<exists>v. vals s' u = Some v \<and> vok j v \<and> vmean j v = fold (act j) (log_of (us @ [(f, k, x)]) j) (vmean j (start_val b m j))"
    proof (cases "j = k")
      case True
      then show ?thesis using j v Lx rv(1,2) by (auto simp: oaddr_def 1(5,6))
    next
      case False
      then show ?thesis using j V [of j u] other [of j u] by (auto simp: oaddr_def 1(5,6))
    qed
  qed
  have "vals s' y = m y" if "\<And>j. oaddr (Some h) j \<noteq> Some y" for y
  proof -
    have y: "y \<noteq> a" using that [of k] by (auto simp: oaddr_def 1(5))
    have "?A j \<noteq> Some y" for j using that [of j] y by (cases "j = k"; cases "?A k") (auto simp: oaddr_def 1(5) a_def)
    then show ?thesis using fr [of y] y by (simp add: 1(6))
  qed
  then have "held b m (us @ [(f, k, x)]) (cur_map s') (vals s')" using sh va by (simp add: held_def 1(3))
  then show thesis by (rule that [OF 1(1,2)]) (simp add: c 1(4))
qed

lemma start_ok_append: "start_ok b m (us @ vs) \<Longrightarrow> start_ok b m us \<and> start_ok b m vs"
  using log_ok_append [of H m us vs] by (auto simp: start_ok_def)

lemma held_run:
  assumes "start_ok b m (us @ vs)" "strand_ok H s" "held b m us (cur_map s) (vals s)" "is_leftmost_map (current_map s) = b"
  shows "\<exists>s'. strand_run H upd vs s = Some s' \<and> held b m (us @ vs) (cur_map s') (vals s')"
  using assms
proof (induction vs arbitrary: us s)
  case (Cons v vs)
  obtain f k x where v: "v = (f, k, x)" by (cases v)
  have "start_ok b m ((us @ [v]) @ vs)" using Cons.prems(1) by simp
  note s = this start_ok_append [OF this, THEN conjunct1, unfolded v]
  obtain s1 where 1: "strand_update H upd (f, k, x) s = Some s1" "strand_ok H s1" "held b m (us @ [(f, k, x)]) (cur_map s1) (vals s1)"
    "is_leftmost_map (current_map s1) = b"
    by (rule held_update [OF s(2) Cons.prems(2-4)])
  from Cons.IH [OF s(1) [unfolded v] 1(2-4)] show ?case using 1(1) by (simp add: v)
qed auto

text \<open>The two parts of a join, in the store in which their maps are merged.\<close>

definition both :: "bool \<Rightarrow> 'v store \<Rightarrow> (64 word \<times> 64 word \<times> 'x) list \<Rightarrow> (64 word \<times> 64 word \<times> 'x) list
    \<Rightarrow> 'v cilkred_map option \<Rightarrow> 'v cilkred_map option \<Rightarrow> 'v store \<Rightarrow> bool" where
  "both b m us vs hl hr m2 \<longleftrightarrow> shape b us hl \<and> shape False vs hr \<and> values_ok b m us hl m2 \<and> values_ok False m vs hr m2 \<and>
     (\<forall>x. (\<forall>k. oaddr hl k \<noteq> Some x \<and> oaddr hr k \<noteq> Some x) \<longrightarrow> m2 x = m x)"

lemma start_ok_cong:
  assumes "start_ok b m us" "\<And>x. x \<in> used_keys us \<union> fresh_addrs us \<Longrightarrow> m' x = m x"
  shows "start_ok b m' us"
  using assms by (auto simp: start_ok_def log_ok_def)

lemma apart_addrs:
  assumes "start_ok b m (us @ vs)" "shape b us hl" "shape False vs hr" "oaddr hl k = Some u"
  shows "oaddr hr j \<noteq> Some u"
proof
  assume j: "oaddr hr j = Some u"
  have lo: "log_ok H m (us @ vs)" using assms(1) by (simp add: start_ok_def)
  have u: "u \<in> fresh_addrs vs" using shapeD(6) [OF assms(3) j] by simp
  show False
  proof (cases b)
    case True
    then have "u \<in> used_keys us" using shapeD(4,5) [OF assms(2,4)] by simp
    then show False using log_okD(3) [OF lo, of u] u by simp
  next
    case False
    then show False using shapeD(6) [OF assms(2,4)] log_ok_append(3) [OF lo] u by auto
  qed
qed

lemma key_not_addr:
  assumes "start_ok b m (us @ vs)" "shape False vs hr" "k \<in> used_keys us \<union> used_keys vs"
  shows "oaddr hr j \<noteq> Some k"
  using assms log_okD(3) [of H m "us @ vs" k] shapeD(6) [OF assms(2), of j k] by (auto simp: start_ok_def)

lemma left_then_right:
  assumes st: "start_ok b m (us @ vs)" and l: "held b m us hl m1"
  shows "start_ok False m1 vs" "held False m1 vs hr m2 \<Longrightarrow> both b m us vs hl hr m2"
proof -
  have lo: "log_ok H m (us @ vs)" using st by (simp add: start_ok_def)
  note SL = shapeD [OF heldD(1) [OF l]]
  have fresh: "m1 x = m x" if "x \<in> fresh_addrs vs" for x
  proof (rule heldD(3) [OF l], rule notI)
    fix k assume k: "oaddr hl k = Some x"
    show False
    proof (cases b)
      case True
      then show False using SL(4,5) [OF k] log_okD(3) [OF lo, of x] that by simp
    next
      case False
      then show False using SL(6) [OF k] log_ok_append(3) [OF lo] that by auto
    qed
  qed
  have keys: "m1 k \<noteq> None" if "k \<in> used_keys vs" for k
  proof (cases "\<exists>j. oaddr hl j = Some k")
    case True
    then show ?thesis using held_alloc(3) [OF log_ok_append(1) [OF lo] l] by blast
  next
    case False
    then show ?thesis using heldD(3) [OF l, of k] log_okD(2) [OF lo, of k] that by force
  qed
  show "start_ok False m1 vs"
    using st fresh keys log_okD(1,2) [OF log_ok_append(2) [OF lo]] log_ok_append(2) [OF lo]
    by (simp add: start_ok_def log_ok_def)
  assume r: "held False m1 vs hr m2"
  have same: "m2 u = m1 u" if "oaddr hl k = Some u" for k u
    by (rule heldD(3) [OF r]) (rule apart_addrs [OF st heldD(1) [OF l] heldD(1) [OF r] that])
  show "both b m us vs hl hr m2"
    unfolding both_def
  proof (intro conjI allI impI)
    show "shape b us hl" "shape False vs hr" using heldD(1) l r by blast+
    show "values_ok b m us hl m2" using heldD(2) [OF l] same by (simp add: values_ok_def)
    show "values_ok False m vs hr m2" using heldD(2) [OF r] by (simp add: values_ok_def start_val_def)
    fix x assume "\<forall>k. oaddr hl k \<noteq> Some x \<and> oaddr hr k \<noteq> Some x"
    then show "m2 x = m x" using heldD(3) [OF l, of x] heldD(3) [OF r, of x] by simp
  qed
qed

lemma right_then_left:
  assumes st: "start_ok b m (us @ vs)" and r: "held False m vs hr m1"
  shows "start_ok b m1 us" "held b m1 us hl m2 \<Longrightarrow> both b m us vs hl hr m2"
proof -
  have lo: "log_ok H m (us @ vs)" using st by (simp add: start_ok_def)
  have keys: "m1 k = m k" if "k \<in> used_keys us" for k
    by (rule heldD(3) [OF r]) (rule key_not_addr [OF st heldD(1) [OF r]], use that in simp)
  moreover have "m1 x = m x" if "x \<in> fresh_addrs us" for x
    by (rule heldD(3) [OF r], rule notI) (use shapeD(6) [OF heldD(1) [OF r]] log_ok_append(3) [OF lo] that in blast)
  ultimately show "start_ok b m1 us"
    using start_ok_append [OF st] by (intro start_ok_cong [of b m us m1]) auto
  assume l: "held b m1 us hl m2"
  have same: "m2 u = m1 u" if "oaddr hr j = Some u" for j u
    by (rule heldD(3) [OF l]) (use apart_addrs [OF st heldD(1) [OF l] heldD(1) [OF r]] that in blast)
  have sv: "start_val b m1 k = start_val b m k" if "oaddr hl k = Some u" for k u
    using keys shapeD(4) [OF heldD(1) [OF l] that] by (simp add: start_val_def)
  show "both b m us vs hl hr m2"
    unfolding both_def
  proof (intro conjI allI impI)
    show "shape b us hl" "shape False vs hr" using heldD(1) l r by blast+
    show "values_ok b m us hl m2" using heldD(2) [OF l] sv by (simp add: values_ok_def)
    show "values_ok False m vs hr m2" using heldD(2) [OF r] same by (simp add: values_ok_def)
    fix x assume "\<forall>k. oaddr hl k \<noteq> Some x \<and> oaddr hr k \<noteq> Some x"
    then show "m2 x = m x" using heldD(3) [OF l, of x] heldD(3) [OF r, of x] by simp
  qed
qed

lemma bothD:
  assumes "both b m us vs hl hr m2"
  shows "shape b us hl" "shape False vs hr" "values_ok b m us hl m2" "values_ok False m vs hr m2"
    "(\<And>k. oaddr hl k \<noteq> Some x \<and> oaddr hr k \<noteq> Some x) \<Longrightarrow> m2 x = m x"
  using assms by (auto simp: both_def)

lemma merge_one_side:
  assumes "both b m us vs hl hr m2" and "hl = None \<or> hr = None"
  shows "\<exists>h m3. merge_maps hl hr m2 = Some (h, m3) \<and> held b m (us @ vs) h m3"
proof (cases hr)
  case None
  have "log_of vs k = []" for k using shapeD(8) [OF bothD(2) [OF assms(1)], of k] None by (simp add: oaddr_def)
  then have "held b m (us @ vs) hl m2"
    using bothD [OF assms(1)] None by (auto simp: held_def shape_def values_ok_def oaddr_def split: if_splits)
  moreover have "merge_maps hl hr m2 = Some (hl, m2)" using None by (simp add: merge_maps_def split: option.splits)
  ultimately show ?thesis by blast
next
  case (Some c)
  then have l: "hl = None" using assms(2) by simp
  have "\<not> b" using shapeD(1) [OF bothD(1) [OF assms(1)]] l by blast
  moreover have "log_of us k = []" for k using shapeD(8) [OF bothD(1) [OF assms(1)], of k] l by (simp add: oaddr_def)
  ultimately have "held b m (us @ vs) hr m2"
    using bothD [OF assms(1)] l by (auto simp: held_def shape_def values_ok_def oaddr_def split: if_splits)
  moreover have "merge_maps hl hr m2 = Some (hr, m2)" using l by (simp add: merge_maps_def)
  ultimately show ?thesis by blast
qed

lemma merge_both_sides:
  assumes st: "start_ok b m (us @ vs)" and bo: "both b m us vs (Some cl) (Some cr) m2"
  shows "\<exists>h m3. merge_maps (Some cl) (Some cr) m2 = Some (h, m3) \<and> held b m (us @ vs) h m3"
proof -
  note B = bothD [OF bo]
  note SL = shapeD [OF B(1), unfolded oaddr_def option.case] and SR = shapeD [OF B(2), unfolded oaddr_def option.case]
  note VL = B(3) [unfolded values_ok_def oaddr_def option.case, rule_format] and VR = B(4) [unfolded values_ok_def oaddr_def option.case, rule_format]
  have lo: "log_ok H m (us @ vs)" using st by (simp add: start_ok_def)
  have ap: "addr cl k = Some u \<Longrightarrow> addr cr j \<noteq> Some u" for k u j using apart_addrs [OF st B(1,2), of k u j] by (simp add: oaddr_def)
  have kn: "k \<in> used_keys us \<union> used_keys vs \<Longrightarrow> addr cr j \<noteq> Some k" for k j using key_not_addr [OF st B(2)] by (simp add: oaddr_def)
  have lm: "is_leftmost_map cl = b" "\<not> is_leftmost_map cr" using SL(3) SR(3) by auto
  have mk: "m2 k = m k" if "k \<in> used_keys us \<union> used_keys vs" "addr cl k = None" "b" for k
  proof (rule B(5), intro conjI)
    fix j
    show "oaddr (Some cl) j \<noteq> Some k" using SL(5) [of j k] that(2,3) by (auto simp: oaddr_def)
    show "oaddr (Some cr) j \<noteq> Some k" using kn [OF that(1)] by (simp add: oaddr_def)
  qed
  have sep: "separate (addr cl) (addr cr) m2 (is_leftmost_map cl)"
    unfolding separate_def lm(1)
  proof (intro conjI allI impI)
    show "m2 u \<noteq> None" if "addr cl k = Some u \<or> addr cr k = Some u" for k u using that VL [of k u] VR [of k u] by auto
    show "addr cr k' \<noteq> Some u" if "addr cl k = Some u" for k k' u by (rule ap [OF that])
    show "k = k'" if "addr cl k = Some u" "addr cl k' = Some u" for k k' u by (rule SL(7) [OF that])
    show "k = k'" if "addr cr k = Some u" "addr cr k' = Some u" for k k' u by (rule SR(7) [OF that])
    fix k assume b: b and k: "addr cr k \<noteq> None"
    then have kv: "k \<in> used_keys vs" using SR(4) by auto
    show "m2 k \<noteq> None"
      using VL [of k k] SL(5) [of k _, OF _ b] mk [of k] b kv log_okD(2) [OF lo, of k] by (cases "addr cl k") auto
    show "k' = k" if "addr cl k' = Some k \<or> addr cr k' = Some k" for k' using that kn [of k k'] kv SL(5) [of k' k] b by auto
  qed
  obtain h m3 where 1: "merge_maps (Some cl) (Some cr) m2 = Some (Some h, m3)" "wf_map H h" "is_leftmost_map h = is_leftmost_map cl"
    "val h m3 = merge_vals (\<lambda>k. reduce_fn (H k)) (left_val cl cr m2) (val cr m2)"
    "\<And>k. addr h k = (case left_addr cl cr k of Some u \<Rightarrow> Some u | None \<Rightarrow> addr cr k)"
    "\<And>x. m3 x = None \<longleftrightarrow> m2 x = None \<or> (\<exists>k. left_addr cl cr k \<noteq> None \<and> addr cr k = Some x \<and> x \<noteq> k)"
    "\<forall>x. (\<forall>k. addr h k \<noteq> Some x) \<longrightarrow> m3 x = None \<or> m3 x = m2 x" "\<forall>k k' u. addr h k = Some u \<longrightarrow> addr h k' = Some u \<longrightarrow> k = k'"
    by (rule merge_maps_run [OF SL(2) [OF refl] SR(2) [OF refl] sep lm(2)]) (rule that; assumption)
  have la: "left_addr cl cr k = (case addr cl k of Some u \<Rightarrow> Some u | None \<Rightarrow> if b \<and> addr cr k \<noteq> None then Some k else None)" for k
    using kn [of k k] SR(4) [of k] lm(1) by (auto simp: left_addr_def this_addr_def split: option.splits)
  have ah: "addr h k = (case addr cl k of Some u \<Rightarrow> Some u | None \<Rightarrow> if addr cr k = None then None else if b then Some k else addr cr k)" for k
    unfolding 1(5) la by (auto split: option.splits)
  have sh: "shape b (us @ vs) (Some h)"
    unfolding shape_def oaddr_def option.case
  proof (intro conjI allI impI)
    show "wf_map H c" "is_leftmost_map c = b" if "Some h = Some c" for c using that 1(2,3) lm(1) by auto
    show "k \<in> used_keys (us @ vs)" if "addr h k = Some u" for k u
      using that SL(4) [of k u] SR(4) [of k] unfolding ah by (auto split: option.splits if_splits)
    show "if b then u = k else u \<in> fresh_addrs (us @ vs)" if "addr h k = Some u" for k u
      using that SL(5,6) [of k u] SR(6) [of k u] unfolding ah by (auto split: option.splits if_splits)
    show "k = k'" if "addr h k = Some u" "addr h k' = Some u" for k k' u using that 1(8) by blast
    show "log_of (us @ vs) k = []" if "addr h k = None" for k
      using that SL(8) [of k] SR(8) [of k] unfolding ah by (auto split: option.splits if_splits)
  qed simp
  have va: "values_ok b m (us @ vs) (Some h) m3"
    unfolding values_ok_def oaddr_def option.case
  proof (intro allI impI)
    fix k u assume u: "addr h k = Some u"
    have "m3 u = merge_vals (\<lambda>k. reduce_fn (H k)) (left_val cl cr m2) (val cr m2) k"
      using fun_cong [OF 1(4), of k] u by (simp add: val_def)
    note m3 = this [unfolded merge_vals_def left_val_def la val_def]
    note view_k = reducer_view.red_ok [OF view] reducer_view.sem_red [OF view] reducer_view.sem_in [OF view] reducer_view.sem_ident [OF view]
    have um: "update_monoid (A k) (L k) (e k) (act k) (mlt k)" using view [of k] by (simp add: reducer_view_def)
    have Lv: "list_all (L k) (log_of vs k)" using st unfolding start_ok_def by simp
    have left: "\<exists>x. m2 (case addr cl k of Some a \<Rightarrow> a | None \<Rightarrow> k) = Some x \<and> vok k x \<and>
        vmean k x = fold (act k) (log_of us k) (vmean k (start_val b m k))" if "addr cl k \<noteq> None \<or> b"
    proof (cases "addr cl k")
      case (Some a)
      then show ?thesis using VL [OF Some] by simp
    next
      case None
      then have b: b using that by simp
      have k: "k \<in> used_keys us \<union> used_keys vs" using shapeD(4) [OF sh, of k u] u by (simp add: oaddr_def)
      then have "m2 k = Some (the (m k))" using mk [OF k None b] log_okD(2) [OF lo, of k] by auto
      moreover have "vok k (the (m k))" using st k b by (simp add: start_ok_def)
      ultimately show ?thesis using None SL(8) [OF None] b by (simp add: start_val_def)
    qed
    show "\<exists>v. m3 u = Some v \<and> vok k v \<and> vmean k v = fold (act k) (log_of (us @ vs) k) (vmean k (start_val b m k))"
    proof (cases "addr cr k")
      case None
      then obtain a where a: "addr cl k = Some a" using u unfolding ah by (auto split: option.splits)
      then show ?thesis using VL [OF a] m3 None SR(8) [OF None] by auto
    next
      case (Some w)
      obtain y where y: "m2 w = Some y" "vok k y" "vmean k y = fold (act k) (log_of vs k) (e k)"
        using VR [OF Some] view_k(4) by (auto simp: start_val_def)
      show ?thesis
      proof (cases "addr cl k \<noteq> None \<or> b")
        case True
        then obtain x where x: "m2 (case addr cl k of Some a \<Rightarrow> a | None \<Rightarrow> k) = Some x" "vok k x"
          "vmean k x = fold (act k) (log_of us k) (vmean k (start_val b m k))" using left by blast
        have "m3 u = Some (reduce_fn (H k) x y)" using m3 x(1) y(1) Some True by (auto split: option.splits)
        moreover have "vmean k (reduce_fn (H k) x y) = fold (act k) (log_of vs k) (vmean k x)"
          using view_k(2) [OF x(2) y(2)] y(3) update_monoid.mult_log [OF um Lv view_k(3) [OF x(2)]] by simp
        ultimately show ?thesis using view_k(1) [OF x(2) y(2)] x(3) by simp
      next
        case False
        then have "m3 u = Some y" using m3 y(1) Some by simp
        moreover have "log_of us k = []" using SL(8) [of k] False by simp
        ultimately show ?thesis using y False view_k(4) [of k] by (simp add: start_val_def)
      qed
    qed
  qed
  have fr: "m3 x = m x" if "\<forall>k. oaddr (Some h) k \<noteq> Some x" for x
  proof (cases "\<exists>j. addr cr j = Some x")
    case True
    then obtain j where j: "addr cr j = Some x" by blast
    have "left_addr cl cr j \<noteq> None" using that [rule_format, of j] j 1(5) [of j] by (auto simp: oaddr_def split: option.splits)
    moreover have "x \<noteq> j" using kn [of j j] SR(4) [OF j] j by auto
    ultimately have "m3 x = None" using 1(6) j by blast
    moreover have "m x = None" using log_okD(1) [OF lo, of x] SR(6) [OF j] by simp
    ultimately show ?thesis by simp
  next
    case False
    have nl: "addr cl j \<noteq> Some x" for j using that [rule_format, of j] ah [of j] by (auto simp: oaddr_def)
    have "m2 x = m x" by (rule B(5)) (use nl False in \<open>simp add: oaddr_def\<close>)
    moreover have "m3 x = None \<longleftrightarrow> m2 x = None" using 1(6) [of x] False by blast
    moreover have "m3 x = None \<or> m3 x = m2 x" using 1(7) that by (simp add: oaddr_def)
    ultimately show ?thesis by auto
  qed
  have "held b m (us @ vs) (Some h) m3" using sh va fr by (simp add: held_def)
  then show ?thesis using 1(1) by blast
qed

lemma run_maps_held:
  "start_ok b m (serial_log t) \<Longrightarrow> \<exists>h m'. run_maps H upd right_first t (first_map b) m = Some (h, m') \<and> held b m (serial_log t) h m'"
proof (induction t arbitrary: b m)
  case (Strand us)
  let ?s = "\<lparr>has_worker = True, cur_map = first_map b, vals = m\<rparr>"
  have "is_leftmost_map (current_map ?s) = b"
    by (simp add: current_map_def first_map_def set_leftmost_reducer_map_def make_reducer_map_def)
  then have "\<exists>s'. strand_run H upd us ?s = Some s' \<and> held b m ([] @ us) (cur_map s') (vals s')"
    using Strand held_first [of b m] first_map_ok(2) by (intro held_run) simp_all
  then show ?case by auto
next
  case (Join l r)
  have st: "start_ok b m (serial_log l @ serial_log r)" using Join.prems by simp
  have none: "first_map False = (None :: 'v cilkred_map option)" by (simp add: first_map_def)
  have merge: "\<exists>h m3. merge_maps hl hr m2 = Some (h, m3) \<and> held b m (serial_log l @ serial_log r) h m3"
    if "both b m (serial_log l) (serial_log r) hl hr m2" for hl hr m2
    using that merge_one_side [OF that] merge_both_sides [OF st, of _ _ m2] by (cases hl; cases hr) auto
  show ?case
  proof (cases "right_first (Join l r)")
    case True
    obtain hr m1 where r: "run_maps H upd right_first r None m = Some (hr, m1)" "held False m (serial_log r) hr m1"
      using Join.IH(2) [of False m] start_ok_append [OF st] none by (auto simp: start_ok_def)
    note o = right_then_left [OF st r(2)]
    obtain hl m2 where l: "run_maps H upd right_first l (first_map b) m1 = Some (hl, m2)" "held b m1 (serial_log l) hl m2"
      using Join.IH(1) [OF o(1)] by blast
    show ?thesis using merge [OF o(2) [OF l(2)]] r(1) l(1) True by simp
  next
    case False
    obtain hl m1 where l: "run_maps H upd right_first l (first_map b) m = Some (hl, m1)" "held b m (serial_log l) hl m1"
      using Join.IH(1) start_ok_append [OF st] by blast
    note o = left_then_right [OF st l(2)]
    obtain hr m2 where r: "run_maps H upd right_first r None m1 = Some (hr, m2)" "held False m1 (serial_log r) hr m2"
      using Join.IH(2) [OF o(1)] none by auto
    show ?thesis using merge [OF o(2) [OF r(2)]] r(1) l(1) False by simp
  qed
qed

end

text \<open>Families of the library's reducers: strings, and sums of any width, one reducer at every address.\<close>

definition add_hb :: "64 word \<Rightarrow> 'a::len word hyperobject" where
  "add_hb k = \<lparr>hb_addr = k - 8, view_offset = 8, identity_fn = op_add_identity, reduce_fn = op_add_reduce\<rparr>"

interpretation strs: reducer_family "\<lambda>_ _. True" "\<lambda>_ _. True" "\<lambda>_. []" "\<lambda>_ u s. s @ string_seg u" "\<lambda>_. (@)" "\<lambda>_ _. True" "\<lambda>_. string_value"
    ser_hb "\<lambda>_. string_update"
  by unfold_locales (simp_all add: ser_hb_def str.sem_ident str.sem_upd str.sem_red)

interpretation adds: reducer_family "\<lambda>_ _. True" "\<lambda>_ _. True" "\<lambda>_. 0 :: 'a::len word" "\<lambda>_ u v. v + add_amount u" "\<lambda>_. (+)" "\<lambda>_ _. True" "\<lambda>_. id"
    add_hb "\<lambda>_ u v. the (op_add_view this u v)"
  by unfold_locales (simp_all add: add_hb_def op_add_identity_def op_add_reduce_def op_add_view_adds algebra_simps)

subsection \<open>Properties\<close>

text \<open>C3: reducers give the serial value. Let every reducer satisfy the contract of a view, let a computation be split by steals into a tree of
  strands whose updates go through \<^verbatim>\<open>__cilkrts_hyper_lookup\<close>, and let the maps be merged where the strands join, whichever of the two parts ran first. Then no
  assertion fails, and in the end the leftmost view of every reducer - the user's variable - has the value that a serial execution of all updates, in
  program order, computes from its initial value; every other view the strands created has been freed, and nothing else in the store has changed.\<close>

theorem leftmost_views_serial_value:
  assumes "\<forall>k. reducer_view (A k) (L k) (e k) (act k) (mlt k) (vok k) (vmean k) (identity_fn (H k)) (upd k) (reduce_fn (H k))"
    and "log_ok H m (serial_log t)" and "\<forall>k. list_all (L k) (log_of (serial_log t) k)" and "\<forall>k\<in>used_keys (serial_log t). vok k (the (m k))"
  shows "\<exists>h m'. run_maps H upd right_first t (Some (set_leftmost_reducer_map make_reducer_map True)) m = Some (Some h, m') \<and> is_leftmost_map h \<and>
     (\<forall>k\<in>used_keys (serial_log t). \<exists>v. m' k = Some v \<and> vok k v \<and> vmean k v = fold (act k) (log_of (serial_log t) k) (vmean k (the (m k)))) \<and>
     (\<forall>x. x \<notin> used_keys (serial_log t) \<longrightarrow> m' x = m x)"
proof -
  let ?us = "serial_log t"
  have rf: "reducer_family A L e act mlt vok vmean H upd" using assms(1) by (simp add: reducer_family_def)
  note defs = reducer_family.start_ok_def [OF rf] reducer_family.held_def [OF rf] reducer_family.shape_def [OF rf]
    reducer_family.values_ok_def [OF rf] reducer_family.start_val_def [OF rf]
  have "reducer_family.start_ok L vok H True m ?us" using assms(2-4) by (simp add: defs)
  then obtain h m' where 1: "run_maps H upd right_first t (first_map True) m = Some (h, m')"
    "reducer_family.held act vok vmean H True m ?us h m'"
    using reducer_family.run_maps_held [OF rf] by blast
  note sh = reducer_family.shapeD [OF rf reducer_family.heldD(1) [OF rf 1(2)]]
  note va = reducer_family.heldD(2) [OF rf 1(2), unfolded defs, rule_format]
  obtain c where c: "h = Some c" using sh(1) by auto
  have key: "oaddr h k = Some k" if "k \<in> used_keys ?us" for k
    using that sh(5) [of k] sh(8) [of k] by (cases "oaddr h k") (auto simp: used_keys_def log_of_def filter_empty_conv)
  have "\<exists>v. m' k = Some v \<and> vok k v \<and> vmean k v = fold (act k) (log_of ?us k) (vmean k (the (m k)))" if "k \<in> used_keys ?us" for k
    using va [OF key [OF that]] by simp
  moreover have "m' x = m x" if "x \<notin> used_keys ?us" for x
    by (rule reducer_family.heldD(3) [OF rf 1(2)]) (use that sh(4,5) in blast)
  ultimately show ?thesis using 1(1) sh(3) [OF c] c by (auto simp: first_map_def)
qed

text \<open>One string reducer at 100, appended to by three strands.\<close>

definition ser_tree :: "(64 word \<times> 64 word \<times> char string_op) strands" where
  "ser_tree = Join (Strand [(1, 100, Append ''b'')]) (Join (Strand [(2, 100, Append ''c''), (3, 100, Append ''d'')]) (Strand [(4, 100, Append ''e'')]))"

theorem leftmost_views_serial_value_witness:
  "\<exists>h m' v. run_maps ser_hb (\<lambda>k. string_update) (\<lambda>t. True) ser_tree (Some (set_leftmost_reducer_map make_reducer_map True))
      [100 \<mapsto> \<lparr>m_string = ''a'', m_list = []\<rparr>] = Some (Some h, m') \<and> m' 100 = Some v \<and> string_value v = ''abcde'' \<and> m' 2 = None"
proof -
  let ?m = "[100 \<mapsto> \<lparr>m_string = ''a'', m_list = []\<rparr>] :: char string_view store"
  have rv: "\<forall>k. reducer_view (\<lambda>_. True) (\<lambda>_. True) [] (\<lambda>u s. s @ string_seg u) (@) (\<lambda>_. True) string_value (identity_fn (ser_hb k)) string_update (reduce_fn (ser_hb k))"
    using str.reducer_view_axioms by (simp add: ser_hb_def)
  have lo: "log_ok ser_hb ?m (serial_log ser_tree)"
    by (simp add: log_ok_def ser_tree_def used_keys_def fresh_addrs_def ser_hb_def get_hyperobject_key_def)
  have la: "\<forall>k. list_all (\<lambda>_. True) (log_of (serial_log ser_tree) k)" by (simp add: list_all_iff)
  have log: "log_of (serial_log ser_tree) 100 = [Append ''b'', Append ''c'', Append ''d'', Append ''e'']" "used_keys (serial_log ser_tree) = {100}"
    by (auto simp: ser_tree_def log_of_def used_keys_def)
  obtain h m' where "run_maps ser_hb (\<lambda>k. string_update) (\<lambda>t. True) ser_tree (Some (set_leftmost_reducer_map make_reducer_map True)) ?m = Some (Some h, m')"
    "\<exists>v. m' 100 = Some v \<and> string_value v = fold (\<lambda>u s. s @ string_seg u) (log_of (serial_log ser_tree) 100) (string_value (the (?m 100)))" "m' 2 = ?m 2"
    using leftmost_views_serial_value [OF rv lo la, of "\<lambda>_. True"] log by auto
  then show ?thesis by (auto simp: log string_value_def)
qed

end
