(* ===== verification/Cilk_For.thy ===== *)
theory Cilk_For
  imports Serial_Run
begin

section \<open>Parallel loops (cilk-abi-cilk-for.cpp)\<close>

text \<open>
  A \<^verbatim>\<open>cilk_for\<close> halves its range until a piece is no longer than the grain and calls the loop body on the pieces; the left halves
  are spawned. The loop counter has \<open>'a\<close> bits (32 and 64 in the two entry points). The body is compiled code that may spawn, a \<open>task\<close>
  of \<open>Serial_Run\<close>, and no thief comes. The log has one entry for every call of the body: its range and the pedigrees its tasks
  start with. A pedigree node that is a local variable is the pedigree field of the slot at its stack address.
\<close>

definition grainsize :: "runtime_state \<Rightarrow> bool \<Rightarrow> int \<Rightarrow> 'a::len word \<Rightarrow> int" where
  "grainsize g under_ptool req cnt =
     (if req > 0 then req
      else if cnt < 1 then 1
      else if under_ptool then 1
      else let Px8 = P g * 8;
               n = (cnt + of_int Px8 - 1) div of_int Px8
           in if n > 2048 then 2048 else uint n)"

type_synonym 'a chunk_log = "('a word \<times> 'a word \<times> 64 word list list) list"

definition call_cilk_for_loop_body ::
    "('m, 'e) abi_env \<Rightarrow> nat \<Rightarrow> nat \<Rightarrow> ('a::len word \<Rightarrow> 'a word \<Rightarrow> task) \<Rightarrow> sfptr \<Rightarrow> wptr \<Rightarrow> sfptr \<Rightarrow> 'a word \<Rightarrow> 'a word
      \<Rightarrow> ('m, 'e) process \<Rightarrow> ('a chunk_log \<times> ('m, 'e) process) option" where
  "call_cilk_for_loop_body e n t body root w leaf low high pr = do {
     sf \<leftarrow> current_stack_frame (wkh (mem pr) w);
     let saved = ped_parent (w_pedigree (wkh (mem pr) w));
     let pr = write_pedigree (Ped_sf leaf) \<lparr>rank = ucast low, ped_parent = Some (Ped_sf root)\<rparr> pr;
     let pr = write_pedigree (Ped_worker w) \<lparr>rank = 0, ped_parent = Some (Ped_sf leaf)\<rparr> pr;
     (log, pr) \<leftarrow> run_task e n t w (leaf + 1) (body low high) pr;
     w \<leftarrow> sf_worker (sfh (mem pr) sf);
     Some ([(low, high, log)], upd_mem (upd_wk w (\<lambda>k. k\<lparr>w_pedigree := (w_pedigree k)\<lparr>ped_parent := saved\<rparr>\<rparr>)) pr) }"

text \<open>The loop between \<^verbatim>\<open>tail_recurse\<close> and the end of \<^verbatim>\<open>cilk_for_recursive\<close>, in the frame at \<open>a\<close>; the spawned call has its frame at
  \<open>a + 2\<close>.\<close>

partial_function (option) for_loop ::
    "('m, 'e) abi_env \<Rightarrow> nat \<Rightarrow> nat \<Rightarrow> ('a::len word \<Rightarrow> 'a word \<Rightarrow> task) \<Rightarrow> int \<Rightarrow> sfptr \<Rightarrow> wptr \<Rightarrow> sfptr \<Rightarrow> 'a word \<Rightarrow> 'a word
      \<Rightarrow> ('m, 'e) process \<Rightarrow> ('a chunk_log \<times> ('m, 'e) process) option" where
  "for_loop e n t body grain root w a low high pr =
     (let cnt = high - low in
      if cnt > of_int grain then do {
        let mid = low + cnt div 2;
        sf \<leftarrow> current_stack_frame (wkh (mem pr) w);
        s \<leftarrow> fake_detach (a + 1) (fake_helper_enter_frame (a + 1) a (mem pr));
        (log1, pr) \<leftarrow> for_loop e n t body grain root w (a + 2) low mid (upd_mem (fake_enter_frame_fast (a + 2) w) (pr\<lparr>mem := s\<rparr>));
        pr \<leftarrow> exit_function e t (a + 2) pr;
        pr \<leftarrow> leave_helper e t (a + 1) pr;
        w \<leftarrow> sf_worker (sfh (mem pr) sf);
        (log2, pr) \<leftarrow> for_loop e n t body grain root w a mid high pr;
        Some (log1 @ log2, pr) }
      else call_cilk_for_loop_body e n t body root w (a + 1) low high pr)"

definition cilk_for_recursive ::
    "('m, 'e) abi_env \<Rightarrow> nat \<Rightarrow> nat \<Rightarrow> ('a::len word \<Rightarrow> 'a word \<Rightarrow> task) \<Rightarrow> int \<Rightarrow> sfptr \<Rightarrow> wptr \<Rightarrow> sfptr \<Rightarrow> 'a word \<Rightarrow> 'a word
      \<Rightarrow> ('m, 'e) process \<Rightarrow> ('a chunk_log \<times> ('m, 'e) process) option" where
  "cilk_for_recursive e n t body grain root w a low high pr = do {
     (log, pr) \<leftarrow> for_loop e n t body grain root w a low high (upd_mem (fake_enter_frame_fast a w) pr);
     pr \<leftarrow> exit_function e t a pr;
     Some (log, pr) }"

text \<open>\<^verbatim>\<open>cilk_for_root\<close>: its frame at \<open>a\<close>, the helper of the spurious spawn at \<open>a + 1\<close>, the local variable
  \<^verbatim>\<open>loop_root_pedigree\<close> at \<open>a + 2\<close>.\<close>

definition cilk_for_root ::
    "('m, 'e) abi_env \<Rightarrow> nat \<Rightarrow> nat \<Rightarrow> bool \<Rightarrow> wptr \<Rightarrow> sfptr \<Rightarrow> ('a::len word \<Rightarrow> 'a word \<Rightarrow> task) \<Rightarrow> 'a word \<Rightarrow> int
      \<Rightarrow> ('m, 'e) process \<Rightarrow> ('a chunk_log \<times> ('m, 'e) process) option" where
  "cilk_for_root e n t under_ptool w a body cnt grain pr = do {
     let pr = upd_mem (fake_enter_frame_fast a w) pr;
     s \<leftarrow> fake_detach (a + 1) (fake_helper_enter_frame (a + 1) a (mem pr));
     pr \<leftarrow> leave_helper e t (a + 1) (pr\<lparr>mem := s\<rparr>);
     sf \<leftarrow> current_stack_frame (wkh (mem pr) w);
     let pr = upd_mem (upd_wk w (\<lambda>k. k\<lparr>w_pedigree := (w_pedigree k)\<lparr>rank := rank (w_pedigree k) - 1\<rparr>\<rparr>)) pr;
     let pr = write_pedigree (Ped_sf (a + 2)) (w_pedigree (wkh (mem pr) w)) pr;
     let gs = grainsize (glob pr) under_ptool grain cnt;
     (log, pr) \<leftarrow> cilk_for_recursive e n t body gs (a + 2) w (a + 3) 0 cnt pr;
     w \<leftarrow> sf_worker (sfh (mem pr) sf);
     let ped = read_pedigree pr (Ped_sf (a + 2));
     let pr = write_pedigree (Ped_worker w) (ped\<lparr>rank := rank ped + 1\<rparr>) pr;
     pr \<leftarrow> exit_function e t a pr;
     Some (log, pr) }"

definition cilk_for ::
    "('m, 'e) abi_env \<Rightarrow> nat \<Rightarrow> nat \<Rightarrow> bool \<Rightarrow> wptr \<Rightarrow> sfptr \<Rightarrow> ('a::len word \<Rightarrow> 'a word \<Rightarrow> task) \<Rightarrow> 'a word \<Rightarrow> int
      \<Rightarrow> ('m, 'e) process \<Rightarrow> ('a chunk_log \<times> ('m, 'e) process) option" where
  "cilk_for e n t under_ptool w a body cnt grain pr =
     (if cnt > 0 then cilk_for_root e n t under_ptool w a body cnt grain pr else Some ([], pr))"

subsection \<open>The pieces of a range\<close>

text \<open>What the log should say: the pieces follow each other from \<open>low\<close> to \<open>high\<close>, none is empty or longer than the grain, and every
  body starts with the pedigree of its lower bound under the loop.\<close>

definition covers :: "nat \<Rightarrow> nat \<Rightarrow> int \<Rightarrow> ('a::len word \<Rightarrow> 'a word \<Rightarrow> task) \<Rightarrow> 64 word list \<Rightarrow> 'a chunk_log \<Rightarrow> bool" where
  "covers lo hi grain body rs log \<longleftrightarrow> concat (map (\<lambda>(l, h, _). [unat l..<unat h]) log) = [lo..<hi] \<and>
     list_all (\<lambda>(l, h, ps). l < h \<and> int (unat h - unat l) \<le> grain \<and> ps = peds 0 (ucast l # rs) (body l h)) log"

lemma covers_append: "covers lo mid g body rs xs \<Longrightarrow> covers mid hi g body rs ys \<Longrightarrow> lo \<le> mid \<Longrightarrow> mid \<le> hi \<Longrightarrow> covers lo hi g body rs (xs @ ys)"
proof -
  assume a: "covers lo mid g body rs xs" "covers mid hi g body rs ys" "lo \<le> mid" "mid \<le> hi"
  have "[lo..<hi] = [lo..<mid] @ [mid..<hi]" using upt_add_eq_append [OF a(3), of "hi - mid"] a(4) by simp
  then show ?thesis using a(1,2) by (simp add: covers_def)
qed

lemma half_facts:
  fixes low high :: "'a::len word"
  assumes "low \<le> high" and "1 < LENGTH('a)"
  shows "unat (high - low) = unat high - unat low" "unat (low + (high - low) div 2) = unat low + (unat high - unat low) div 2"
proof -
  show c: "unat (high - low) = unat high - unat low" using assms(1) by (rule unat_sub)
  have "(2::nat) < 2 ^ LENGTH('a)" using power_strict_increasing [OF assms(2), of "2::nat"] by simp
  then have "take_bit LENGTH('a) (2::nat) = 2" by (rule take_bit_nat_eq_self)
  then have "unat (of_nat 2 :: 'a word) = 2" by (simp only: unsigned_of_nat of_nat_id)
  then have "unat (2 :: 'a word) = 2" by simp
  then have d: "unat ((high - low) div 2) = (unat high - unat low) div 2" using c by (simp add: unat_div)
  have "unat high < 2 ^ LENGTH('a)" by (rule unsigned_less)
  then have "unat low + (unat high - unat low) div 2 < 2 ^ LENGTH('a)" using assms(1) unfolding word_le_nat_alt by linarith
  then show "unat (low + (high - low) div 2) = unat low + (unat high - unat low) div 2" using d by (simp add: unat_word_ariths)
qed

lemma grain_less:
  fixes c :: "'a::len word"
  assumes "0 \<le> grain" and "grain < 2 ^ LENGTH('a)"
  shows "c > of_int grain \<longleftrightarrow> grain < int (unat c)"
proof -
  have "uint (of_int grain :: 'a word) = grain" using assms by (simp add: uint_word_of_int_eq take_bit_int_eq_self)
  then show ?thesis by (simp add: word_less_def)
qed

lemma body_run:
  assumes f: "in_function a w pr" and root: "root < a" and c: "ped_chain pr a w (Some (Ped_sf root)) rs"
    and n: "length rs + 1 + depth (body low high) \<le> n" and room: "tail (wkh (mem pr) w) + depth (body low high) \<le> Suc (ltq_limit (wkh (mem pr) w))"
  obtains pr' where "call_cilk_for_loop_body e n t body root w (a + 1) low high pr = Some ([(low, high, peds 0 (ucast low # rs) (body low high))], pr')"
    "quiet a w pr pr'" "in_function a w pr'" "call_parent (sfh (mem pr') a) = call_parent (sfh (mem pr) a)"
proof -
  let ?k = "wkh (mem pr) w"
  define pr1 where "pr1 = write_pedigree (Ped_worker w) \<lparr>rank = 0, ped_parent = Some (Ped_sf (a + 1))\<rparr>
     (write_pedigree (Ped_sf (a + 1)) \<lparr>rank = ucast low, ped_parent = Some (Ped_sf root)\<rparr> pr)"
  have m1: "pr1 = changed w ((sfh (mem pr))(a + 1 := (sfh (mem pr) (a + 1))\<lparr>sf_pedigree := \<lparr>rank = ucast low, ped_parent = Some (Ped_sf root)\<rparr>\<rparr>))
      (ltq_slot ?k) \<lparr>rank = 0, ped_parent = Some (Ped_sf (a + 1))\<rparr> pr"
    by (simp add: pr1_def changed_def upd_mem_def upd_sf_def upd_wk_def)
  have q1: "quiet a w pr pr1" unfolding m1 by (rule quietI [OF refl]) simp_all
  have fa: "sf_worker (sfh (mem pr) a) = Some w" "flags (sfh (mem pr) a) = CILK_FAKE_VERSION_FLAG" "current_stack_frame ?k = Some a" "exc ?k \<le> tail ?k"
    using f by (simp_all add: in_function_def)
  have c1: "ped_chain pr1 (a + 2) w (Some (Ped_sf (a + 1))) (ucast low # rs)"
    using ped_chain_mono [OF quiet_chain [OF q1 c], of "a + 2"] by (simp add: m1)
  have k1: "exc (wkh (mem pr1) w) \<le> tail (wkh (mem pr1) w)" "w_pedigree (wkh (mem pr1) w) = \<lparr>rank = 0, ped_parent = Some (Ped_sf (a + 1))\<rparr>"
    using fa by (simp_all add: m1)
  obtain pr2 where r2: "run_task e n t w (a + 2) (body low high) pr1 = Some (peds 0 (ucast low # rs) (body low high), pr2)" and q2: "quiet (a + 2) w pr1 pr2"
    using serial_run(1) [OF k1(1), of "a + 2" "ucast low # rs" 0 "body low high" n e t] c1 k1(2) n room by (auto simp: m1)
  have q12: "quiet a w pr pr2" by (rule quiet_trans [OF q1 q2]) simp
  define pr3 where "pr3 = upd_mem (upd_wk w (\<lambda>k. k\<lparr>w_pedigree := (w_pedigree k)\<lparr>ped_parent := ped_parent (w_pedigree ?k)\<rparr>\<rparr>)) pr2"
  have a2: "sfh (mem pr2) a = sfh (mem pr) a" using quietD(1) [OF q2, of a] by (simp add: m1)
  have "call_cilk_for_loop_body e n t body root w (a + 1) low high pr = Some ([(low, high, peds 0 (ucast low # rs) (body low high))], pr3)"
    using fa r2 a2 by (simp add: call_cilk_for_loop_body_def Let_def pr1_def pr3_def)
  moreover have "quiet a w pr pr3"
  proof -
    obtain h dq v where q: "pr2 = changed w h dq v pr" "\<forall>p<a. h p = sfh (mem pr) p" "\<forall>i<tail ?k. dq i = ltq_slot ?k i" using q12 unfolding quiet_def by blast
    show ?thesis by (rule quietI [of _ _ h dq "v\<lparr>ped_parent := ped_parent (w_pedigree ?k)\<rparr>"])
      (use q in \<open>simp_all add: pr3_def changed_def upd_mem_def upd_wk_def\<close>)
  qed
  moreover have "in_function a w pr3" "call_parent (sfh (mem pr3) a) = call_parent (sfh (mem pr) a)"
    using fa a2 quietD [OF q12] by (simp_all add: in_function_def pr3_def upd_wk_def)
  ultimately show thesis by (rule that)
qed

lemma add_leE2: "(i :: nat) + k + j \<le> m \<Longrightarrow> i + j \<le> m"
  by simp

text \<open>\<open>k\<close> bounds the number of halvings until a piece is no longer than the grain: the loop needs that many slots of the deque.\<close>

lemma for_loop_run:
  fixes low high :: "'a::len word" and pr :: "('m, 'e) process"
  assumes g: "0 < grain" "grain < 2 ^ LENGTH('a)" "1 < LENGTH('a)" and n: "\<And>l h. length rs + 1 + depth (body l h) \<le> n"
  shows "in_function a w pr \<Longrightarrow> root < a \<Longrightarrow> ped_chain pr a w (Some (Ped_sf root)) rs \<Longrightarrow> low < high \<Longrightarrow>
      int (unat high - unat low) \<le> grain * 2 ^ k \<Longrightarrow> (\<And>l h. tail (wkh (mem pr) w) + k + depth (body l h) \<le> Suc (ltq_limit (wkh (mem pr) w))) \<Longrightarrow>
    \<exists>log pr'. for_loop e n t body grain root w a low high pr = Some (log, pr') \<and> covers (unat low) (unat high) grain body rs log \<and>
      quiet a w pr pr' \<and> in_function a w pr' \<and> call_parent (sfh (mem pr') a) = call_parent (sfh (mem pr) a)"
proof (induction "unat high - unat low" arbitrary: a low high pr k rule: less_induct)
  case less
  note f = less.prems(1) and root = less.prems(2) and c = less.prems(3) and lh = less.prems(4)
    and size = less.prems(5) and room = less.prems(6)
  define mid where "mid = low + (high - low) div 2"
  have le: "low \<le> high" "unat low < unat high" using lh by (simp_all add: word_less_nat_alt word_le_nat_alt)
  note half = half_facts [OF le(1) g(3), folded mid_def]
  have cond: "high - low > of_int grain \<longleftrightarrow> grain < int (unat high - unat low)" using grain_less [of grain "high - low"] g half(1) by simp
  have fa: "sf_worker (sfh (mem pr) a) = Some w" "current_stack_frame (wkh (mem pr) w) = Some a" using f by (simp_all add: in_function_def)
  show ?case
  proof (cases "grain < int (unat high - unat low)")
    case False
    obtain pr' where b: "call_cilk_for_loop_body e n t body root w (a + 1) low high pr = Some ([(low, high, peds 0 (ucast low # rs) (body low high))], pr')"
      "quiet a w pr pr'" "in_function a w pr'" "call_parent (sfh (mem pr') a) = call_parent (sfh (mem pr) a)"
      by (rule body_run [OF f root c n add_leE2 [OF room]])
    have "for_loop e n t body grain root w a low high pr = Some ([(low, high, peds 0 (ucast low # rs) (body low high))], pr')"
      using b(1) False cond by (subst for_loop.simps) (simp add: Let_def)
    moreover have "covers (unat low) (unat high) grain body rs [(low, high, peds 0 (ucast low # rs) (body low high))]"
      using False lh by (simp add: covers_def)
    ultimately show ?thesis using b by blast
  next
    case True
    have "1 < unat high - unat low" using True g(1) by linarith
    then have m: "unat low < unat mid" "unat mid < unat high" using half(2) by auto
    then have mw: "low < mid" "mid < high" by (simp_all add: word_less_nat_alt)
    have ml: "unat mid - unat low < unat high - unat low" "unat high - unat mid < unat high - unat low" using m by auto
    have "k \<noteq> 0"
    proof
      assume "k = 0"
      with size have "int (unat high - unat low) \<le> grain" by (simp only: power_0 mult_1_right)
      with True show False by linarith
    qed
    then obtain j where k: "k = Suc j" by (cases k) simp_all
    have sizes: "int (unat mid - unat low) \<le> grain * 2 ^ j" "int (unat high - unat mid) \<le> grain * 2 ^ j"
      using size half(2) by (simp_all add: k)
    have tl: "tail (wkh (mem pr) w) < ltq_limit (wkh (mem pr) w)" using room [of low low] depth_pos [of "body low low"] k by linarith
    define pr1 where "pr1 = pr\<lparr>mem := detached a w (mem pr)\<rparr>"
    define pr2 where "pr2 = upd_mem (fake_enter_frame_fast (a + 2) w) pr1"
    have "exc (wkh (mem pr1) w) \<le> tail (wkh (mem pr1) w)" using f by (simp add: pr1_def detached_worker in_function_def)
    then have f2: "in_function (a + 2) w pr2" unfolding pr2_def by (rule enter_in_function)
    have c2: "ped_chain pr2 (a + 2) w (Some (Ped_sf root)) rs" unfolding pr2_def pr1_def by (rule enter_chain [OF detached_chain [OF c]])
    have room2: "tail (wkh (mem pr2) w) + j + depth (body l h) \<le> Suc (ltq_limit (wkh (mem pr2) w))" for l h
      using room [of l h] by (simp add: pr2_def pr1_def enter_run detached_worker k)
    obtain log1 pr3 where 1: "for_loop e n t body grain root w (a + 2) low mid pr2 = Some (log1, pr3)" "covers (unat low) (unat mid) grain body rs log1"
      "quiet (a + 2) w pr2 pr3" "in_function (a + 2) w pr3" "call_parent (sfh (mem pr3) (a + 2)) = call_parent (sfh (mem pr2) (a + 2))"
      using less.hyps [OF ml(1) f2 _ c2 mw(1) sizes(1) room2] root by (metis trans_less_add1)
    obtain pr4 where 4: "exit_function e t (a + 2) pr3 = Some pr4" "quiet (a + 2) w pr1 pr4"
      by (rule function_returns [OF pr2_def 1(3-5)])
    obtain pr5 where 5: "leave_helper e t (a + 1) pr4 = Some pr5" "quiet a w pr pr5" "in_function a w pr5"
      "call_parent (sfh (mem pr5) a) = call_parent (sfh (mem pr) a)"
      by (rule helper_returns [OF f pr1_def 4(2)])
    have c5: "ped_chain pr5 a w (Some (Ped_sf root)) rs" by (rule quiet_chain [OF 5(2) c])
    have room5: "tail (wkh (mem pr5) w) + j + depth (body l h) \<le> Suc (ltq_limit (wkh (mem pr5) w))" for l h
      using room [of l h] quietD [OF 5(2)] by (simp add: k)
    obtain log2 pr6 where 6: "for_loop e n t body grain root w a mid high pr5 = Some (log2, pr6)" "covers (unat mid) (unat high) grain body rs log2"
      "quiet a w pr5 pr6" "in_function a w pr6" "call_parent (sfh (mem pr6) a) = call_parent (sfh (mem pr5) a)"
      using less.hyps [OF ml(2) 5(3) root c5 mw(2) sizes(2) room5] by blast
    have "sf_worker (sfh (mem pr5) a) = Some w" using 5(3) by (simp add: in_function_def)
    then have "for_loop e n t body grain root w a low high pr = Some (log1 @ log2, pr6)"
      using True cond fa fake_detach_run [OF f tl] 1(1) 4(1) 5(1) 6(1) by (subst for_loop.simps) (simp add: Let_def mid_def pr1_def pr2_def)
    then show ?thesis using covers_append [OF 1(2) 6(2)] m quiet_trans [OF 5(2) 6(3)] 6(4,5) 5(4) by auto
  qed
qed

text \<open>The loop as a whole, with the grain it computes.\<close>

lemma cilk_for_recursive_run:
  fixes low high :: "'a::len word" and pr :: "('m, 'e) process"
  assumes "0 < grain" "grain < 2 ^ LENGTH('a)" "1 < LENGTH('a)" "\<And>l h. length rs + 1 + depth (body l h) \<le> n"
    and ex: "exc (wkh (mem pr) w) \<le> tail (wkh (mem pr) w)" and "root < a" "ped_chain pr a w (Some (Ped_sf root)) rs" "low < high"
    and size: "int (unat high - unat low) \<le> grain * 2 ^ k" and room: "\<And>l h. tail (wkh (mem pr) w) + k + depth (body l h) \<le> Suc (ltq_limit (wkh (mem pr) w))"
  obtains log pr' where "cilk_for_recursive e n t body grain root w a low high pr = Some (log, pr')" "covers (unat low) (unat high) grain body rs log" "quiet a w pr pr'"
proof -
  define pr1 where "pr1 = upd_mem (fake_enter_frame_fast a w) pr"
  have f1: "in_function a w pr1" unfolding pr1_def by (rule enter_in_function [OF ex])
  have c1: "ped_chain pr1 a w (Some (Ped_sf root)) rs" unfolding pr1_def by (rule enter_chain [OF assms(7)])
  have room1: "tail (wkh (mem pr1) w) + k + depth (body l h) \<le> Suc (ltq_limit (wkh (mem pr1) w))" for l h
    using room [of l h] by (simp add: pr1_def enter_run)
  obtain log pr2 where 2: "for_loop e n t body grain root w a low high pr1 = Some (log, pr2)" "covers (unat low) (unat high) grain body rs log"
    "quiet a w pr1 pr2" "in_function a w pr2" "call_parent (sfh (mem pr2) a) = call_parent (sfh (mem pr1) a)"
    using for_loop_run [of grain rs body n, OF assms(1-4) f1 assms(6) c1 assms(8) size room1] by blast
  obtain pr3 where 3: "exit_function e t a pr2 = Some pr3" "quiet a w pr pr3" by (rule function_returns [OF pr1_def 2(3-5)])
  show thesis by (rule that [OF _ 2(2) 3(2)]) (use 2(1) 3(1) in \<open>simp add: cilk_for_recursive_def pr1_def\<close>)
qed

text \<open>Up to the recursion: the spurious spawn has come and gone, the root node holds the pedigree at entry.\<close>

lemma cilk_for_root_start:
  fixes pr :: "('m, 'e) process" and cnt :: "'a::len word" and w :: wptr and a :: sfptr
  defines "ped \<equiv> w_pedigree (wkh (mem pr) w)" and "pr1 \<equiv> upd_mem (fake_enter_frame_fast a w) pr"
  assumes ex: "exc (wkh (mem pr) w) \<le> tail (wkh (mem pr) w)" and tl: "tail (wkh (mem pr) w) < ltq_limit (wkh (mem pr) w)"
  obtains pr4 where
    "cilk_for_root e n t u w a body cnt grain pr =
       Option.bind (cilk_for_recursive e n t body (grainsize (glob pr) u grain cnt) (a + 2) w (a + 3) 0 cnt pr4) (\<lambda>(log, pr). do {
         w \<leftarrow> sf_worker (sfh (mem pr) a);
         let ped = read_pedigree pr (Ped_sf (a + 2));
         pr \<leftarrow> exit_function e t a (write_pedigree (Ped_worker w) (ped\<lparr>rank := rank ped + 1\<rparr>) pr);
         Some (log, pr) })"
    "quiet a w pr1 pr4" "in_function a w pr4" "call_parent (sfh (mem pr4) a) = call_parent (sfh (mem pr1) a)"
    "sf_pedigree (sfh (mem pr4) (a + 2)) = ped"
proof -
  define pr2 where "pr2 = pr1\<lparr>mem := detached a w (mem pr1)\<rparr>"
  have f1: "in_function a w pr1" unfolding pr1_def by (rule enter_in_function [OF ex])
  have w1: "w_pedigree (wkh (mem pr1) w) = ped" by (simp add: pr1_def enter_run ped_def)
  have tl1: "tail (wkh (mem pr1) w) < ltq_limit (wkh (mem pr1) w)" using tl by (simp add: pr1_def enter_run)
  obtain pr3 where 3: "leave_helper e t (a + 1) pr2 = Some pr3" "quiet a w pr1 pr3" "in_function a w pr3"
    "call_parent (sfh (mem pr3) a) = call_parent (sfh (mem pr1) a)" "w_pedigree (wkh (mem pr3) w) = ped\<lparr>rank := rank ped + 1\<rparr>"
    using helper_returns [OF f1 pr2_def quiet_refl] w1 by metis
  define pr3' where "pr3' = upd_mem (upd_wk w (\<lambda>k. k\<lparr>w_pedigree := (w_pedigree k)\<lparr>rank := rank (w_pedigree k) - 1\<rparr>\<rparr>)) pr3"
  define pr4 where "pr4 = write_pedigree (Ped_sf (a + 2)) (w_pedigree (wkh (mem pr3') w)) pr3'"
  have e3: "pr3' = upd_mem (upd_wk w (\<lambda>k. k\<lparr>w_pedigree := ped\<rparr>)) pr3" using 3(5) by (simp add: pr3'_def upd_mem_def upd_wk_def)
  have m4: "pr4 = changed w ((sfh (mem pr3))(a + 2 := (sfh (mem pr3) (a + 2))\<lparr>sf_pedigree := ped\<rparr>)) (ltq_slot (wkh (mem pr3) w)) ped pr3"
    by (simp add: pr4_def e3 changed_def upd_mem_def upd_sf_def upd_wk_def)
  have q4: "quiet a w pr3 pr4" unfolding m4 by (rule quietI [OF refl]) simp_all
  have q14: "quiet a w pr1 pr4" by (rule quiet_trans [OF 3(2) q4]) simp
  have gs: "grainsize (glob pr4) u grain cnt = grainsize (glob pr) u grain cnt" using quietD(4) [OF q14] by (simp add: pr1_def)
  have fa: "current_stack_frame (wkh (mem pr3) w) = Some a" using 3(3) by (simp add: in_function_def)
  show thesis
  proof (rule that [OF _ q14])
    show "cilk_for_root e n t u w a body cnt grain pr =
       Option.bind (cilk_for_recursive e n t body (grainsize (glob pr) u grain cnt) (a + 2) w (a + 3) 0 cnt pr4) (\<lambda>(log, pr). do {
         w \<leftarrow> sf_worker (sfh (mem pr) a);
         let ped = read_pedigree pr (Ped_sf (a + 2));
         pr \<leftarrow> exit_function e t a (write_pedigree (Ped_worker w) (ped\<lparr>rank := rank ped + 1\<rparr>) pr);
         Some (log, pr) })"
      unfolding cilk_for_root_def Let_def pr1_def [symmetric] fake_detach_run [OF f1 tl1] bind.bind_lunit pr2_def [symmetric] 3(1) fa pr3'_def [symmetric]
        pr4_def [symmetric] gs ..
  qed (use 3(3,4) in \<open>simp_all add: m4 in_function_def\<close>)
qed

lemma cilk_for_root_run:
  fixes cnt :: "'a::len word" and pr :: "('m, 'e) process" and u :: bool and grain :: int and w :: wptr
  defines "gs \<equiv> grainsize (glob pr) u grain cnt" and "ped \<equiv> w_pedigree (wkh (mem pr) w)"
  assumes "0 < gs" "gs < 2 ^ LENGTH('a)" "1 < LENGTH('a)" "\<And>l h. length rs + 2 + depth (body l h) \<le> n" "cnt > 0"
    and ex: "exc (wkh (mem pr) w) \<le> tail (wkh (mem pr) w)" and c: "ped_chain pr a w (ped_parent ped) rs"
    and tl: "tail (wkh (mem pr) w) < ltq_limit (wkh (mem pr) w)" and size: "int (unat cnt) \<le> gs * 2 ^ k" and room: "\<And>l h. tail (wkh (mem pr) w) + k + depth (body l h) \<le> Suc (ltq_limit (wkh (mem pr) w))"
  obtains log pr' where "cilk_for_root e n t u w a body cnt grain pr = Some (log, pr')" "covers 0 (unat cnt) gs body (rank ped # rs) log"
    "quiet a w pr pr'" "w_pedigree (wkh (mem pr') w) = ped\<lparr>rank := rank ped + 2\<rparr>"
proof -
  define pr1 where "pr1 = upd_mem (fake_enter_frame_fast a w) pr"
  obtain pr4 where root: "cilk_for_root e n t u w a body cnt grain pr =
       Option.bind (cilk_for_recursive e n t body gs (a + 2) w (a + 3) 0 cnt pr4) (\<lambda>(log, pr). do {
         w \<leftarrow> sf_worker (sfh (mem pr) a);
         let ped = read_pedigree pr (Ped_sf (a + 2));
         pr \<leftarrow> exit_function e t a (write_pedigree (Ped_worker w) (ped\<lparr>rank := rank ped + 1\<rparr>) pr);
         Some (log, pr) })"
    and q14: "quiet a w pr1 pr4" and f4: "in_function a w pr4" and p4: "call_parent (sfh (mem pr4) a) = call_parent (sfh (mem pr1) a)"
    and r4: "sf_pedigree (sfh (mem pr4) (a + 2)) = ped"
    unfolding pr1_def gs_def ped_def by (rule cilk_for_root_start [OF ex tl])
  have c1: "ped_chain pr1 a w (ped_parent ped) rs" unfolding pr1_def by (rule enter_chain [OF c])
  have c4: "ped_chain pr4 (a + 3) w (Some (Ped_sf (a + 2))) (rank ped # rs)"
    using ped_chain_mono [OF quiet_chain [OF q14 c1], of "a + 3"] r4 by simp
  have e4: "exc (wkh (mem pr4) w) \<le> tail (wkh (mem pr4) w)" using f4 by (simp add: in_function_def)
  have n4: "length (rank ped # rs) + 1 + depth (body l h) \<le> n" for l h using assms(6) [of l h] by simp
  have room4: "tail (wkh (mem pr4) w) + k + depth (body l h) \<le> Suc (ltq_limit (wkh (mem pr4) w))" for l h
    using room [of l h] quietD [OF q14] by (simp add: pr1_def enter_run)
  obtain log pr5 where 5: "cilk_for_recursive e n t body gs (a + 2) w (a + 3) 0 cnt pr4 = Some (log, pr5)" "covers (unat (0::'a word)) (unat cnt) gs body (rank ped # rs) log"
    "quiet (a + 3) w pr4 pr5"
    by (rule cilk_for_recursive_run [OF assms(3-5) n4 e4 _ c4 assms(7) _ room4]) (use size in simp_all)
  have a5: "sfh (mem pr5) a = sfh (mem pr4) a" "sf_pedigree (sfh (mem pr5) (a + 2)) = ped" using quietD(1) [OF 5(3)] r4 by simp_all
  define pr6 where "pr6 = write_pedigree (Ped_worker w) (ped\<lparr>rank := rank ped + 1\<rparr>) pr5"
  have q15: "quiet a w pr1 pr5" by (rule quiet_trans [OF q14 5(3)]) simp
  have q6: "quiet a w pr1 pr6"
  proof -
    obtain h dq v where q: "pr5 = changed w h dq v pr1" "\<forall>p<a. h p = sfh (mem pr1) p" "\<forall>i<tail (wkh (mem pr1) w). dq i = ltq_slot (wkh (mem pr1) w) i"
      using q15 unfolding quiet_def by blast
    show ?thesis by (rule quietI [of _ _ h dq "ped\<lparr>rank := rank ped + 1\<rparr>"]) (use q in \<open>simp_all add: pr6_def changed_def upd_mem_def upd_wk_def\<close>)
  qed
  have f6: "in_function a w pr6" using f4 a5(1) quietD(2,3,5) [OF 5(3)] by (simp add: in_function_def pr6_def upd_wk_def)
  have p6: "call_parent (sfh (mem pr6) a) = call_parent (sfh (mem pr1) a)" using p4 a5(1) by (simp add: pr6_def)
  have w6: "w_pedigree (wkh (mem pr6) w) = ped\<lparr>rank := rank ped + 1\<rparr>" by (simp add: pr6_def upd_wk_def)
  obtain pr7 where 7: "exit_function e t a pr6 = Some pr7" "quiet a w pr pr7"
    "w_pedigree (wkh (mem pr7) w) = (w_pedigree (wkh (mem pr6) w))\<lparr>rank := rank (w_pedigree (wkh (mem pr6) w)) + 1\<rparr>"
    by (rule function_returns [OF pr1_def q6 f6 p6])
  have "sf_worker (sfh (mem pr5) a) = Some w" using a5(1) f4 by (simp add: in_function_def)
  then have "cilk_for_root e n t u w a body cnt grain pr = Some (log, pr7)"
    using 7(1) a5(2) unfolding root 5(1) by (simp add: Let_def pr6_def)
  moreover have "covers 0 (unat cnt) gs body (rank ped # rs) log" using 5(2) by simp
  moreover have "w_pedigree (wkh (mem pr7) w) = ped\<lparr>rank := rank ped + 2\<rparr>" using 7(3) w6 by (simp add: add.assoc)
  ultimately show thesis using 7(2) by (intro that)
qed

subsection \<open>The grain\<close>

definition good_grain :: "runtime_state \<Rightarrow> bool \<Rightarrow> int \<Rightarrow> 'a::len word \<Rightarrow> bool" where
  "good_grain g under_ptool grain cnt \<longleftrightarrow>
     (if grain > 0 then grain < 2 ^ 31 else under_ptool \<or> (0 < P g \<and> int (unat cnt) + 8 * P g \<le> 2 ^ LENGTH('a)))"

lemma computed_grain:
  fixes cnt :: "'a::len word" and g :: runtime_state
  assumes l: "32 \<le> LENGTH('a)" and "0 < P g" "8 * P g < 2 ^ LENGTH('a)" "cnt > 0" "\<not> u" "grain \<le> 0"
  defines "n \<equiv> (int (unat cnt) + 8 * P g - 1) mod 2 ^ LENGTH('a) div (8 * P g)"
  shows "grainsize g u grain cnt = (if n > 2048 then 2048 else n)"
proof -
  define q where "q = P g * 8"
  have "uint (of_int q :: 'a word) = take_bit LENGTH('a) q" by (rule uint_word_of_int_eq)
  then have p: "uint (of_int q :: 'a word) = q" using assms(2,3) by (simp add: take_bit_int_eq_self q_def)
  have n: "n = (int (unat cnt) + q - 1) mod 2 ^ LENGTH('a) div q" by (simp add: n_def q_def mult.commute)
  have "uint (cnt + of_int q - 1) = (int (unat cnt) + q - 1) mod 2 ^ LENGTH('a)"
    using p by (simp add: uint_word_ariths mod_simps)
  then have d: "uint ((cnt + of_int q - 1) div of_int q) = n" using p by (simp add: uint_div n)
  have "(2048::int) < 2 ^ 32" by simp
  also have "\<dots> \<le> 2 ^ LENGTH('a)" using l by (rule power_increasing) simp
  finally have "uint (2048 :: 'a word) = 2048" using uint_word_of_int_eq [of 2048, where 'a = 'a] by (simp add: take_bit_int_eq_self)
  then have b: "(cnt + of_int q - 1) div of_int q > 2048 \<longleftrightarrow> n > 2048" using d by (simp add: word_less_def)
  have "\<not> cnt < 1" using assms(4) by (simp add: word_less_1)
  then show ?thesis using assms(5,6) d b unfolding grainsize_def Let_def q_def [symmetric] by simp
qed

lemma good_grain_bounds:
  fixes cnt :: "'a::len word"
  assumes l: "32 \<le> LENGTH('a)" and "good_grain g u grain cnt" and "cnt > 0"
  shows "0 < grainsize g u grain cnt" "grainsize g u grain cnt < 2 ^ LENGTH('a)"
proof -
  have p: "(2::int) ^ 32 \<le> 2 ^ LENGTH('a)" using l by (rule power_increasing) simp
  have c: "\<not> cnt < 1" "0 < unat cnt" using assms(3) by (simp_all add: word_less_1 unat_gt_0)
  have "0 < grainsize g u grain cnt \<and> grainsize g u grain cnt < 2 ^ 32"
  proof (cases "grain > 0 \<or> u")
    case True
    then show ?thesis using assms(2) c by (auto simp: good_grain_def grainsize_def split: if_splits)
  next
    case False
    then have P: "0 < P g" "int (unat cnt) + 8 * P g \<le> 2 ^ LENGTH('a)" using assms(2) by (auto simp: good_grain_def split: if_splits)
    then have "(int (unat cnt) + 8 * P g - 1) mod 2 ^ LENGTH('a) = int (unat cnt) + 8 * P g - 1" using c(2) by (intro mod_pos_pos_trivial) linarith+
    moreover have "8 * P g div (8 * P g) \<le> (int (unat cnt) + 8 * P g - 1) div (8 * P g)" using P(1) c(2) by (intro zdiv_mono1) linarith+
    ultimately show ?thesis using computed_grain [OF l P(1) _ assms(3), of u grain] False P c by auto
  qed
  then show "0 < grainsize g u grain cnt" "grainsize g u grain cnt < 2 ^ LENGTH('a)" using p by linarith+
qed

text \<open>With the grain 0 the loop never ends: its last piece always has a successor.\<close>

lemma for_loop_zero:
  fixes low high :: "'a::len word"
  assumes "1 < LENGTH('a)"
  shows "for_loop e n t body grain root w a low high pr = Some r \<Longrightarrow> grain = 0 \<longrightarrow> high - low = 0"
proof (erule for_loop.raw_induct [where P = "\<lambda>e n t body grain root w a low high pr y. grain = 0 \<longrightarrow> high - low = 0", rotated])
  fix f e n t body grain root w a low high pr y
  assume IH: "\<And>e n t body grain root w a low high pr y. f e n t body grain root w a low high pr = Some y \<Longrightarrow> grain = 0 \<longrightarrow> high - (low :: 'a word) = 0"
    and run: "(let cnt = high - low in
      if cnt > of_int grain then do {
        let mid = low + cnt div 2;
        sf \<leftarrow> current_stack_frame (wkh (mem pr) w);
        s \<leftarrow> fake_detach (a + 1) (fake_helper_enter_frame (a + 1) a (mem pr));
        (log1, pr) \<leftarrow> f e n t body grain root w (a + 2) low mid (upd_mem (fake_enter_frame_fast (a + 2) w) (pr\<lparr>mem := s\<rparr>));
        pr \<leftarrow> exit_function e t (a + 2) pr;
        pr \<leftarrow> leave_helper e t (a + 1) pr;
        w \<leftarrow> sf_worker (sfh (mem pr) sf);
        (log2, pr) \<leftarrow> f e n t body grain root w a mid high pr;
        Some (log1 @ log2, pr) }
      else call_cilk_for_loop_body e n t body root w (a + 1) low high pr) = Some y"
  show "grain = 0 \<longrightarrow> high - low = 0"
  proof (intro impI, rule ccontr)
    assume g: "grain = 0" and d: "high - low \<noteq> 0"
    define mid where "mid = low + (high - low) div 2"
    have "(0::'a word) < high - low" using d by (simp add: word_gt_0)
    then obtain w' pr' r' where r: "f e n t body 0 root w' a mid high pr' = Some r'"
      using run g unfolding Let_def mid_def [symmetric] by (auto simp: bind_eq_Some_conv)
    have "high - mid = 0" using IH [OF r] by simp
    then have "high - low = (high - low) div 2" by (simp add: mid_def algebra_simps)
    then have "unat (high - low) = unat ((high - low) div 2)" by simp
    moreover have "unat (high - low) \<noteq> 0" using d by (simp add: unat_eq_0)
    moreover have "unat ((high - low) div 2) = unat (high - low) div 2"
      using half_facts(2) [of 0 "high - low", OF _ assms] by simp
    ultimately show False by linarith
  qed
qed

text \<open>It is a loop and no failed assertion: on a range of one iteration, with room for one spawn, the loop spawns a call of the body on an empty
  range, gets back to its frame, and continues with the same range in a state in which all this holds again.\<close>

lemma for_loop_restarts:
  fixes low high :: "'a::len word" and pr :: "('m, 'e) process"
  assumes l: "1 < LENGTH('a)" and one: "high - low = 1" and f: "in_function a w pr" and root: "root < a"
    and c: "ped_chain pr a w (Some (Ped_sf root)) rs" and n: "length rs + 1 + depth (body low low) \<le> n"
    and room: "tail (wkh (mem pr) w) + depth (body low low) \<le> ltq_limit (wkh (mem pr) w)"
  obtains pr' where "for_loop e n t body 0 root w a low high pr =
      map_option (\<lambda>(log, p). ((low, low, peds 0 (ucast low # rs) (body low low)) # log, p)) (for_loop e n t body 0 root w a low high pr')"
    "quiet a w pr pr'" "in_function a w pr'" "ped_chain pr' a w (Some (Ped_sf root)) rs"
    "tail (wkh (mem pr') w) + depth (body low low) \<le> ltq_limit (wkh (mem pr') w)"
proof -
  have fa: "sf_worker (sfh (mem pr) a) = Some w" "current_stack_frame (wkh (mem pr) w) = Some a" using f by (simp_all add: in_function_def)
  have tl: "tail (wkh (mem pr) w) < ltq_limit (wkh (mem pr) w)" using room depth_pos [of "body low low"] by linarith
  define pr1 where "pr1 = pr\<lparr>mem := detached a w (mem pr)\<rparr>"
  define pr2 where "pr2 = upd_mem (fake_enter_frame_fast (a + 2) w) pr1"
  have "exc (wkh (mem pr1) w) \<le> tail (wkh (mem pr1) w)" using f by (simp add: pr1_def detached_worker in_function_def)
  then have f2: "in_function (a + 2) w pr2" unfolding pr2_def by (rule enter_in_function)
  have c2: "ped_chain pr2 (a + 2) w (Some (Ped_sf root)) rs" unfolding pr2_def pr1_def by (rule enter_chain [OF detached_chain [OF c]])
  have room2: "tail (wkh (mem pr2) w) + depth (body low low) \<le> Suc (ltq_limit (wkh (mem pr2) w))"
    using room by (simp add: pr2_def pr1_def enter_run detached_worker)
  obtain pr3 where b: "call_cilk_for_loop_body e n t body root w (a + 2 + 1) low low pr2 = Some ([(low, low, peds 0 (ucast low # rs) (body low low))], pr3)"
    "quiet (a + 2) w pr2 pr3" "in_function (a + 2) w pr3" "call_parent (sfh (mem pr3) (a + 2)) = call_parent (sfh (mem pr2) (a + 2))"
    by (rule body_run [where body = body and low = low and high = low, OF f2 trans_less_add1 [OF root] c2 n room2])
  obtain pr4 where 4: "exit_function e t (a + 2) pr3 = Some pr4" "quiet (a + 2) w pr1 pr4"
    by (rule function_returns [OF pr2_def b(2-4)])
  obtain pr5 where 5: "leave_helper e t (a + 1) pr4 = Some pr5" "quiet a w pr pr5" "in_function a w pr5"
    by (rule helper_returns [OF f pr1_def 4(2)])
  have "for_loop e n t body 0 root w (a + 2) low low pr2 = Some ([(low, low, peds 0 (ucast low # rs) (body low low))], pr3)"
    using b(1) by (subst for_loop.simps) (simp add: Let_def)
  moreover have "(1::'a word) div 2 = 0" using half_facts(2) [of 0 "1 :: 'a word", OF _ l] by (simp add: unat_eq_0)
  moreover have "sf_worker (sfh (mem pr5) a) = Some w" using 5(3) by (simp add: in_function_def)
  ultimately have "for_loop e n t body 0 root w a low high pr =
      map_option (\<lambda>(log, p). ((low, low, peds 0 (ucast low # rs) (body low low)) # log, p)) (for_loop e n t body 0 root w a low high pr5)"
    using one fa fake_detach_run [OF f tl] 4(1) 5(1)
    by (cases "for_loop e n t body 0 root w a low high pr5"; subst for_loop.simps) (auto simp: Let_def pr1_def pr2_def)
  then show thesis
    using that 5(2,3) quiet_chain [OF 5(2) c] room quietD [OF 5(2)] by simp
qed

subsection \<open>Properties\<close>

text \<open>C17: a parallel loop does its work exactly once. When no thief comes, for any trip count, any grain that is given as a positive 32-bit number or computed
  without wrap-around (see the next property), any loop body that spawns, and a deque with room for the halvings of the range (at most \<open>k\<close> when the count is
  at most \<open>2 ^ k\<close> grains) and for the nesting of the body, the loop returns; the ranges the body was called with are consecutive and make up all iterations from 0 to the count, none
  is empty or longer than the grain; each call runs under the pedigree of its first iteration below that of the loop,
  independently of the depth of the recursion; the memory is as before, and the pedigree has advanced by two.\<close>

theorem cilk_for_covers:
  fixes cnt :: "'a::len word" and pr :: "('m, 'e) process"
  assumes "32 \<le> LENGTH('a)" and "good_grain (glob pr) u grain cnt" and "exc (wkh (mem pr) w) \<le> tail (wkh (mem pr) w)"
    and "ped_chain pr a w (ped_parent (w_pedigree (wkh (mem pr) w))) rs" and "\<forall>l h. length rs + 2 + depth (body l h) \<le> n"
    and "int (unat cnt) \<le> grainsize (glob pr) u grain cnt * 2 ^ k"
    and "\<forall>l h. tail (wkh (mem pr) w) + k + depth (body l h) \<le> ltq_limit (wkh (mem pr) w)"
  shows "\<exists>log pr'. cilk_for e n t u w a body cnt grain pr = Some (log, pr') \<and>
     covers 0 (unat cnt) (grainsize (glob pr) u grain cnt) body (rank (w_pedigree (wkh (mem pr) w)) # rs) log \<and> quiet a w pr pr' \<and>
     w_pedigree (wkh (mem pr') w) = (w_pedigree (wkh (mem pr) w))\<lparr>rank := rank (w_pedigree (wkh (mem pr) w)) + (if cnt = 0 then 0 else 2)\<rparr>"
proof (cases "cnt = 0")
  case True
  then show ?thesis by (simp add: cilk_for_def covers_def)
next
  case False
  then have c: "cnt > 0" by (simp add: word_gt_0)
  have l: "1 < LENGTH('a)" using assms(1) by simp
  have tl: "tail (wkh (mem pr) w) < ltq_limit (wkh (mem pr) w)"
    using assms(7) [rule_format, of 0 0] depth_pos [of "body 0 0"] by linarith
  have room: "tail (wkh (mem pr) w) + k + depth (body l h) \<le> Suc (ltq_limit (wkh (mem pr) w))" for l h
    using assms(7) [rule_format, of l h] by simp
  obtain log pr' where "cilk_for_root e n t u w a body cnt grain pr = Some (log, pr')"
    "covers 0 (unat cnt) (grainsize (glob pr) u grain cnt) body (rank (w_pedigree (wkh (mem pr) w)) # rs) log"
    "quiet a w pr pr'" "w_pedigree (wkh (mem pr') w) = (w_pedigree (wkh (mem pr) w))\<lparr>rank := rank (w_pedigree (wkh (mem pr) w)) + 2\<rparr>"
    by (rule cilk_for_root_run [OF good_grain_bounds [OF assms(1,2) c] l assms(5) [rule_format] c assms(3,4) tl assms(6) room])
  then show ?thesis using False c by (auto simp: cilk_for_def)
qed

text \<open>C35: a loop may hang. When the runtime computes the grain and the trip count is so close to the largest value of its type that rounding up to a multiple of
  eight times the number of workers wraps around, the grain is 0 and the loop never returns: it has no result, and where the deque has room that is because
  a range of one iteration is started over again and again (\<open>for_loop_restarts\<close>).\<close>

theorem cilk_for_grain_wraps:
  fixes cnt :: "'a::len word" and pr :: "('m, 'e) process"
  assumes "32 \<le> LENGTH('a)" and "grain \<le> 0" and "\<not> u" and "0 < P (glob pr)" and "8 * P (glob pr) < 2 ^ LENGTH('a)"
    and "2 ^ LENGTH('a) < int (unat cnt) + 8 * P (glob pr)" and "exc (wkh (mem pr) w) \<le> tail (wkh (mem pr) w)"
  shows "cilk_for e n t u w a body cnt grain pr = None"
proof -
  let ?q = "8 * P (glob pr)"
  have "int (unat cnt) < 2 ^ LENGTH('a)" by (simp add: uint_lt2p)
  then have "(int (unat cnt) + ?q - 1 - 2 ^ LENGTH('a)) mod 2 ^ LENGTH('a) = int (unat cnt) + ?q - 1 - 2 ^ LENGTH('a)"
    using assms(5,6) by (intro mod_pos_pos_trivial) linarith+
  then have "(int (unat cnt) + ?q - 1) mod 2 ^ LENGTH('a) = int (unat cnt) + ?q - 1 - 2 ^ LENGTH('a)" by (simp add: mod_simps)
  moreover have "(int (unat cnt) + ?q - 1 - 2 ^ LENGTH('a)) div ?q = 0"
    using assms(6) \<open>int (unat cnt) < 2 ^ LENGTH('a)\<close> by (intro div_pos_pos_trivial) linarith+
  moreover have "cnt > 0" using assms(5,6) by (auto simp: word_gt_0)
  ultimately have g: "grainsize (glob pr) u grain cnt = 0"
    using computed_grain [OF assms(1,4,5) \<open>cnt > 0\<close> assms(3,2)] by (simp only:) simp
  have none: "for_loop e n t body 0 (a + 2) w (a + 3) 0 cnt pr' = None" for pr'
    using for_loop_zero [of e n t body 0 "a + 2" w "a + 3" 0 cnt pr'] assms(1) \<open>cnt > 0\<close> by (cases "for_loop e n t body 0 (a + 2) w (a + 3) 0 cnt pr'") auto
  have "cilk_for_root e n t u w a body cnt grain pr = None"
  proof (cases "tail (wkh (mem pr) w) < ltq_limit (wkh (mem pr) w)")
    case True
    then show ?thesis using none cilk_for_root_start [OF assms(7) True, of e n t u a body cnt grain] g by (auto simp: cilk_for_recursive_def)
  next
    case False
    then show ?thesis by (simp add: cilk_for_root_def enter_run fake_detach_def fake_helper_enter_frame_def Let_def)
  qed
  then show ?thesis using \<open>cnt > 0\<close> by (simp add: cilk_for_def)
qed

theorem cilk_for_covers_witness:
  "\<exists>log pr'. cilk_for \<lparr>exn = no_exn, reduce = (\<lambda>_ _. ()), sync_match = False, make_info = (\<lambda>_ _. ())\<rparr> 9 0 False 1 0 (\<lambda>l h. Task [Spawn (Task [])]) (10 :: 32 word) 3 user_process = Some (log, pr') \<and>
     concat (map (\<lambda>(l, h, _). [unat l..<unat h]) log) = [0..<10] \<and> rank (w_pedigree (wkh (mem pr') 1)) = 2"
proof -
  have h: "32 \<le> LENGTH(32)" "good_grain (glob user_process) False 3 (10 :: 32 word)" "exc (wkh (mem user_process) 1) \<le> tail (wkh (mem user_process) 1)"
    "ped_chain user_process 0 1 (ped_parent (w_pedigree (wkh (mem user_process) 1))) []"
    "\<forall>l h :: 32 word. length ([] :: 64 word list) + 2 + depth ((\<lambda>l h. Task [Spawn (Task [])]) l h) \<le> 9"
    "int (unat (10 :: 32 word)) \<le> grainsize (glob user_process) False 3 (10 :: 32 word) * 2 ^ 2"
    "\<forall>l h :: 32 word. tail (wkh (mem user_process) 1) + 2 + depth ((\<lambda>l h. Task [Spawn (Task [])]) l h) \<le> ltq_limit (wkh (mem user_process) 1)"
    by (simp_all add: user_process_def worker_eval good_grain_def grainsize_def)
  have r: "rank (w_pedigree (wkh (mem user_process) 1)) = 0" by (simp add: user_process_def worker_eval)
  from cilk_for_covers [OF h, of "\<lparr>exn = no_exn, reduce = (\<lambda>_ _. ()), sync_match = False, make_info = (\<lambda>_ _. ())\<rparr>" 0]
  show ?thesis by (auto simp: covers_def r r [simplified])
qed

theorem cilk_for_grain_wraps_witness:
  "cilk_for \<lparr>exn = no_exn, reduce = (\<lambda>_ _. ()), sync_match = False, make_info = (\<lambda>_ _. ())\<rparr> 9 0 False 1 0 (\<lambda>l h. Task []) (0xFFFFFFF5 :: 32 word) 0 user_process = None"
proof -
  have "P (glob user_process) = 2" "exc (wkh (mem user_process) 1) \<le> tail (wkh (mem user_process) 1)" by (simp_all add: user_process_def worker_eval)
  then show ?thesis by (intro cilk_for_grain_wraps) simp_all
qed

end
