(* ===== verification/Scheduling_Loop.thy ===== *)
theory Scheduling_Loop
  imports Stolen_Return
begin

section \<open>The scheduling loop (scheduler.c)\<close>

text \<open>
  What a worker does between two pieces of user code: look at its one-element queue, steal, rest
  when it is told to, and set itself up to run the frame it has found. Other threads run at
  the same time. \<open>others n\<close> is what they have done to the process when this worker makes its
  \<open>n\<close>-th look at it, and \<open>envs n\<close> holds the answers of the fiber pool and the replay log for the
  steal attempt of that round. Both are arguments of the loop, so a theorem can ask for
  exactly what it needs of them. A worker that waits for ever, or searches for ever, has the result \<open>None\<close>.
\<close>

unbundle bit_operations_syntax

subsection \<open>State\<close>

text \<open>\<^verbatim>\<open>cilk_fiber_data\<close> of cilk\_fiber.h, the two fields of it the scheduler uses.\<close>

record fiber_data =
  fd_owner :: "wptr option"
  resume_sf :: "sfptr option"

record ('m, 'e) sched = "('m, 'e) process" +
  fdata :: "fiber \<Rightarrow> fiber_data"

definition on_mem :: "(('m, 'e) rts \<Rightarrow> ('m, 'e) rts option) \<Rightarrow> ('m, 'e) sched \<Rightarrow> ('m, 'e) sched option" where
  "on_mem f pr = do { s \<leftarrow> f (mem pr); Some (pr\<lparr>mem := s\<rparr>) }"

definition upd_wkr :: "wptr \<Rightarrow> (('m, 'e) worker \<Rightarrow> ('m, 'e) worker) \<Rightarrow> ('m, 'e) sched \<Rightarrow> ('m, 'e) sched" where
  "upd_wkr w f pr = pr\<lparr>mem := upd_wk w f (mem pr)\<rparr>"

subsection \<open>One attempt to find work\<close>

text \<open>
  The punishment for a failed steal. \<^verbatim>\<open>__cilkrts_idle\<close> and \<^verbatim>\<open>__cilkrts_yield\<close> change nothing of the
  process; the remainder that chooses between them divides by zero when \<open>max_steal_failures\<close>
  is a multiple of \<open>2 ^ 31\<close> and the worker has not stolen yet.
\<close>

definition failed_steal :: "32 word \<Rightarrow> ('m, 'e) worker \<Rightarrow> ('m, 'e) worker option" where
  "failed_steal max_failures k = do {
     let max_fails = push_bit 1 max_failures;
     cilk_assert (has_stolen k \<or> max_fails \<noteq> 0);
     let k = k\<lparr>steal_failure_count := steal_failure_count k + 1\<rparr>;
     Some (if steal_failure_count k > push_bit 8 max_fails then k\<lparr>has_stolen := False\<rparr> else k) }"

definition check_for_work ::
    "runtime_state \<Rightarrow> steal_env \<Rightarrow> wptr \<Rightarrow> ('m, 'e) rts \<Rightarrow> (ffptr option \<times> ('m, 'e) rts) option" where
  "check_for_work g env w s =
     (let (ff, s) = pop_next_frame w s
      in if ff \<noteq> None then Some (ff, s)
      else do {
        s \<leftarrow> (if wtype (wkh s w) \<noteq> WORKER_USER \<and> team (wkh s w) \<noteq> None then do {
                s \<leftarrow> lock_worker w s;
                let s = upd_wk w (\<lambda>k. k\<lparr>team := None\<rparr>) s;
                unlock_worker w s }
              else Some s);
        cilk_assert (frame_ff (wkh s w) = None);
        s \<leftarrow> random_steal (global_state.truncate g) env w s;
        let (ff, s) = pop_next_frame w s;
        if ff = None then do {
          k \<leftarrow> failed_steal (max_steal_failures g) (wkh s w);
          Some (ff, upd_wk w (\<lambda>_. k) s) }
        else Some (ff, upd_wk w (\<lambda>k. k\<lparr>steal_failure_count := 0, has_stolen := True\<rparr>) s) })"

subsection \<open>Waiting on a signal node (signal\_node.c)\<close>

partial_function (option) semaphore_wait ::
    "(nat \<Rightarrow> ('m, 'e) sched \<Rightarrow> ('m, 'e) sched) \<Rightarrow> nat \<Rightarrow> nat \<Rightarrow> ('m, 'e) sched \<Rightarrow> (nat \<times> ('m, 'e) sched) option" where
  "semaphore_wait others n nd pr =
     (let pr = others n pr
      in case wait_on_cilk_semaphore (nodes pr nd) of
           None \<Rightarrow> semaphore_wait others (Suc n) nd pr
         | Some v \<Rightarrow> Some (Suc n, pr\<lparr>nodes := (nodes pr)(nd := v)\<rparr>))"

partial_function (option) signal_node_wait ::
    "(nat \<Rightarrow> ('m, 'e) sched \<Rightarrow> ('m, 'e) sched) \<Rightarrow> nat \<Rightarrow> nat \<Rightarrow> ('m, 'e) sched \<Rightarrow> (nat \<times> ('m, 'e) sched) option" where
  "signal_node_wait others n nd pr =
     (if signal_node_should_wait (nodes pr nd) then
        Option.bind (semaphore_wait others n nd pr) (\<lambda>(n, pr). signal_node_wait others n nd pr)
      else Some (n, pr))"

definition notify_and :: "wptr \<Rightarrow> 32 word \<Rightarrow> ('m, 'e) sched \<Rightarrow> ('m, 'e) sched option" where
  "notify_and w msg pr = do {
     nd \<leftarrow> notify_children (glob pr) (mem pr) w msg (nodes pr);
     Some (pr\<lparr>nodes := nd\<rparr>) }"

text \<open>A worker is woken: it waits, passes the message on and starts counting failures from zero.\<close>

definition wait_for_wakeup ::
    "(nat \<Rightarrow> ('m, 'e) sched \<Rightarrow> ('m, 'e) sched) \<Rightarrow> nat \<Rightarrow> wptr \<Rightarrow> ('m, 'e) sched \<Rightarrow> (nat \<times> ('m, 'e) sched) option" where
  "wait_for_wakeup others n w pr = do {
     nd \<leftarrow> signal_node (wkh (mem pr) w);
     (n, pr) \<leftarrow> signal_node_wait others n nd pr;
     pr \<leftarrow> notify_and w 1 pr;
     Some (n, upd_wkr w (\<lambda>k. k\<lparr>steal_failure_count := 0\<rparr>) pr) }"

subsection \<open>The search\<close>

partial_function (option) search_until_work_found_or_done ::
    "(nat \<Rightarrow> ('m, 'e) sched \<Rightarrow> ('m, 'e) sched) \<Rightarrow> (nat \<Rightarrow> steal_env) \<Rightarrow> wptr \<Rightarrow> nat \<Rightarrow> ('m, 'e) sched
      \<Rightarrow> (ffptr option \<times> nat \<times> ('m, 'e) sched) option" where
  "search_until_work_found_or_done others envs w n pr =
     (let pr = others n pr
      in Option.bind (worker_runnable (glob pr) (nodes pr) w (mem pr)) (\<lambda>(st, s).
         let pr = pr\<lparr>mem := s\<rparr>
         in if st = SCHEDULE_RUN then
              Option.bind (check_for_work (glob pr) (envs n) w (mem pr)) (\<lambda>(ff, s).
                let pr = pr\<lparr>mem := s\<rparr>
                in if ff \<noteq> None then Some (ff, Suc n, pr)
                   else search_until_work_found_or_done others envs w (Suc n) pr)
            else if st = SCHEDULE_WAIT then
              Option.bind (cilk_assert (wtype (wkh (mem pr) w) = WORKER_SYSTEM)) (\<lambda>_.
              Option.bind (cilk_assert (next_frame_ff (wkh (mem pr) w) = None)) (\<lambda>_.
              Option.bind (notify_and w 0 pr) (\<lambda>pr.
              Option.bind (wait_for_wakeup others (Suc n) w pr) (\<lambda>(n, pr).
                search_until_work_found_or_done others envs w n pr))))
            else Option.bind (cilk_assert (wtype (wkh (mem pr) w) \<noteq> WORKER_USER)) (\<lambda>_.
              Some (None, Suc n, pr))))"

subsection \<open>The body of the loop\<close>

text \<open>Stage 4: the frame that was found is set up on this worker and its fiber is the one to resume.\<close>

definition run_found_frame ::
    "'e exn_rt \<Rightarrow> fiber \<Rightarrow> wptr \<Rightarrow> ffptr \<Rightarrow> ('m, 'e) sched \<Rightarrow> (fiber \<times> ('m, 'e) sched) option" where
  "run_found_frame x current_fiber w ff pr = do {
     s \<leftarrow> lock_worker w (mem pr);
     cilk_assert (frame_ff (wkh s w) = None);
     s \<leftarrow> frame_lock w ff s;
     sf \<leftarrow> call_stack (ffh s ff);
     cilk_assert (call_parent (sfh s sf) = None);
     s \<leftarrow> setup_for_execution x w ff False s;
     s \<leftarrow> frame_unlock w ff s;
     s \<leftarrow> unlock_worker w s;
     let s = prepare_to_resume_user_code w sf s;
     ff \<leftarrow> frame_ff (wkh s w);
     other \<leftarrow> fiber_self (ffh s ff);
     let pr = pr\<lparr>mem := s\<rparr>;
     cilk_assert (resume_sf (fdata pr other) = None);
     let pr = pr\<lparr>fdata := (fdata pr)(current_fiber := (fdata pr current_fiber)\<lparr>resume_sf := None\<rparr>)\<rparr>;
     cilk_assert (fd_owner (fdata pr current_fiber) = Some w);
     let pr = pr\<lparr>fdata := (fdata pr)(other := (fdata pr other)\<lparr>resume_sf := Some sf\<rparr>)\<rparr>;
     Some (other, pr) }"

definition worker_scheduling_loop_body ::
    "'e exn_rt \<Rightarrow> (nat \<Rightarrow> ('m, 'e) sched \<Rightarrow> ('m, 'e) sched) \<Rightarrow> (nat \<Rightarrow> steal_env) \<Rightarrow> fiber \<Rightarrow> wptr \<Rightarrow> nat
      \<Rightarrow> ('m, 'e) sched \<Rightarrow> (fiber option \<times> nat \<times> ('m, 'e) sched) option" where
  "worker_scheduling_loop_body x others envs current_fiber w n pr = do {
     cilk_assert (Some current_fiber = scheduling_fiber (wkh (mem pr) w));
     cilk_assert (frame_ff (wkh (mem pr) w) = None);
     let (ff, s) = pop_next_frame w (mem pr);
     let pr = pr\<lparr>mem := s\<rparr>;
     (ff, n, pr) \<leftarrow> (if ff = None then search_until_work_found_or_done others envs w n pr else Some (ff, n, pr));
     (case ff of None \<Rightarrow> do { cilk_assert (work_done (glob pr)); Some (None, n, pr) }
      | Some ff \<Rightarrow> do { (other, pr) \<leftarrow> run_found_frame x current_fiber w ff pr; Some (Some other, n, pr) }) }"

subsection \<open>The scheduler function of a worker\<close>

text \<open>
  \<^verbatim>\<open>worker_scheduler_init_function\<close> (without the notice to the tools), the loop, and
  \<^verbatim>\<open>worker_scheduler_terminate_function\<close>. Resuming a fiber runs user code until this worker
  switches back to its scheduling fiber: \<open>user\<close> is what the process looks like then.
\<close>

definition worker_scheduler_init_function ::
    "(nat \<Rightarrow> ('m, 'e) sched \<Rightarrow> ('m, 'e) sched) \<Rightarrow> wptr \<Rightarrow> nat \<Rightarrow> ('m, 'e) sched \<Rightarrow> (nat \<times> ('m, 'e) sched) option" where
  "worker_scheduler_init_function others w n pr = do {
     let pr = upd_wkr w (\<lambda>k. mysrand (word_of_int (self k + 1)) k) pr;
     (case wtype (wkh (mem pr) w) of WORKER_USER \<Rightarrow> Some (n, pr)
      | WORKER_SYSTEM \<Rightarrow> wait_for_wakeup others n w pr
      | WORKER_FREE \<Rightarrow> None) }"

definition worker_scheduler_terminate_function :: "wptr \<Rightarrow> ('m, 'e) sched \<Rightarrow> unit option" where
  "worker_scheduler_terminate_function w pr = cilk_assert (wtype (wkh (mem pr) w) \<noteq> WORKER_USER)"

partial_function (option) scheduling_loop ::
    "'e exn_rt \<Rightarrow> (nat \<Rightarrow> ('m, 'e) sched \<Rightarrow> ('m, 'e) sched) \<Rightarrow> (nat \<Rightarrow> steal_env)
      \<Rightarrow> (fiber \<Rightarrow> nat \<Rightarrow> ('m, 'e) sched \<Rightarrow> ('m, 'e) sched) \<Rightarrow> wptr \<Rightarrow> nat
      \<Rightarrow> ('m, 'e) sched \<Rightarrow> (nat \<times> ('m, 'e) sched) option" where
  "scheduling_loop x others envs user w n pr =
     (if work_done (glob pr) then Some (n, pr)
      else Option.bind (scheduling_fiber (wkh (mem pr) w)) (\<lambda>fb.
        Option.bind (worker_scheduling_loop_body x others envs fb w n pr) (\<lambda>(r, n, pr).
          case r of None \<Rightarrow> scheduling_loop x others envs user w n pr
          | Some other \<Rightarrow> scheduling_loop x others envs user w (Suc n) (user other n pr))))"

definition worker_scheduler_function ::
    "'e exn_rt \<Rightarrow> (nat \<Rightarrow> ('m, 'e) sched \<Rightarrow> ('m, 'e) sched) \<Rightarrow> (nat \<Rightarrow> steal_env)
      \<Rightarrow> (fiber \<Rightarrow> nat \<Rightarrow> ('m, 'e) sched \<Rightarrow> ('m, 'e) sched) \<Rightarrow> wptr \<Rightarrow> ('m, 'e) sched \<Rightarrow> ('m, 'e) sched option" where
  "worker_scheduler_function x others envs user w pr = do {
     (n, pr) \<leftarrow> worker_scheduler_init_function others w 0 pr;
     (n, pr) \<leftarrow> scheduling_loop x others envs user w n pr;
     worker_scheduler_terminate_function w pr;
     Some pr }"

subsection \<open>Rounds that find nothing\<close>

definition miss_round ::
    "(nat \<Rightarrow> ('m, 'e) sched \<Rightarrow> ('m, 'e) sched) \<Rightarrow> (nat \<Rightarrow> steal_env) \<Rightarrow> wptr \<Rightarrow> nat
      \<Rightarrow> ('m, 'e) sched \<Rightarrow> ('m, 'e) sched \<Rightarrow> bool" where
  "miss_round others envs w n pr pr' \<longleftrightarrow>
     (\<exists>s s'. worker_runnable (glob (others n pr)) (nodes (others n pr)) w (mem (others n pr)) = Some (SCHEDULE_RUN, s) \<and>
        check_for_work (glob (others n pr)) (envs n) w s = Some (None, s') \<and> pr' = (others n pr)\<lparr>mem := s'\<rparr>)"

text \<open>\<open>j\<close> such rounds, starting with round \<open>n\<close>.\<close>

primrec misses ::
    "(nat \<Rightarrow> ('m, 'e) sched \<Rightarrow> ('m, 'e) sched) \<Rightarrow> (nat \<Rightarrow> steal_env) \<Rightarrow> wptr \<Rightarrow> nat \<Rightarrow> nat
      \<Rightarrow> ('m, 'e) sched \<Rightarrow> ('m, 'e) sched \<Rightarrow> bool" where
  "misses others envs w 0 n pr pr' \<longleftrightarrow> pr' = pr"
| "misses others envs w (Suc j) n pr pr' \<longleftrightarrow>
     (\<exists>pr1. miss_round others envs w n pr pr1 \<and> misses others envs w j (Suc n) pr1 pr')"

lemma search_miss:
  assumes "miss_round others envs w n pr pr'"
  shows "search_until_work_found_or_done others envs w n pr = search_until_work_found_or_done others envs w (Suc n) pr'"
proof -
  obtain s s' where "worker_runnable (glob (others n pr)) (nodes (others n pr)) w (mem (others n pr)) = Some (SCHEDULE_RUN, s)"
    "check_for_work (glob (others n pr)) (envs n) w s = Some (None, s')" "pr' = (others n pr)\<lparr>mem := s'\<rparr>"
    using assms unfolding miss_round_def by blast
  then show ?thesis
    by (subst search_until_work_found_or_done.simps) (simp add: Let_def)
qed

lemma search_misses:
  "misses others envs w j n pr pr' \<Longrightarrow>
     search_until_work_found_or_done others envs w n pr = search_until_work_found_or_done others envs w (n + j) pr'"
  by (induction j arbitrary: n pr) (auto simp: search_miss)

lemma search_found:
  assumes "worker_runnable (glob (others n pr)) (nodes (others n pr)) w (mem (others n pr)) = Some (SCHEDULE_RUN, s)"
    and "check_for_work (glob (others n pr)) (envs n) w s = Some (Some ff, s')"
  shows "search_until_work_found_or_done others envs w n pr = Some (Some ff, Suc n, (others n pr)\<lparr>mem := s'\<rparr>)"
  using assms by (subst search_until_work_found_or_done.simps) (simp add: Let_def)

text \<open>The search stops empty-handed only when the computation is over.\<close>

definition gave_up :: "wptr \<Rightarrow> ffptr option \<times> nat \<times> ('m, 'e) sched \<Rightarrow> bool" where
  "gave_up w r \<longleftrightarrow> (case r of (ff, m, pr) \<Rightarrow> ff = None \<longrightarrow>
     work_done (glob pr) \<and> next_frame_ff (wkh (mem pr) w) = None \<and> wtype (wkh (mem pr) w) \<noteq> WORKER_USER)"

lemma runnable_exit:
  "worker_runnable g nd w s = Some (SCHEDULE_EXIT, s') \<Longrightarrow> s' = s \<and> work_done g \<and> next_frame_ff (wkh s w) = None"
  by (auto simp: worker_runnable_def split: if_splits bind_splits)

lemma search_done:
  assumes "search_until_work_found_or_done others envs w n pr = Some r"
  shows "gave_up w r"
  using assms
proof (erule_tac search_until_work_found_or_done.raw_induct [where P = "\<lambda>others envs w n pr r. gave_up w r", rotated])
  fix f :: "(nat \<Rightarrow> ('a, 'b) sched \<Rightarrow> ('a, 'b) sched) \<Rightarrow> (nat \<Rightarrow> steal_env) \<Rightarrow> wptr \<Rightarrow> nat \<Rightarrow> ('a, 'b) sched
      \<Rightarrow> (ffptr option \<times> nat \<times> ('a, 'b) sched) option"
  fix others envs w n pr r
  assume IH: "\<And>others envs w n pr r. f others envs w n pr = Some r \<Longrightarrow> gave_up w r"
    and run: "(let pr = others n pr
      in Option.bind (worker_runnable (glob pr) (nodes pr) w (mem pr)) (\<lambda>(st, s).
         let pr = pr\<lparr>mem := s\<rparr>
         in if st = SCHEDULE_RUN then
              Option.bind (check_for_work (glob pr) (envs n) w (mem pr)) (\<lambda>(ff, s).
                let pr = pr\<lparr>mem := s\<rparr>
                in if ff \<noteq> None then Some (ff, Suc n, pr)
                   else f others envs w (Suc n) pr)
            else if st = SCHEDULE_WAIT then
              Option.bind (cilk_assert (wtype (wkh (mem pr) w) = WORKER_SYSTEM)) (\<lambda>_.
              Option.bind (cilk_assert (next_frame_ff (wkh (mem pr) w) = None)) (\<lambda>_.
              Option.bind (notify_and w 0 pr) (\<lambda>pr.
              Option.bind (wait_for_wakeup others (Suc n) w pr) (\<lambda>(n, pr).
                f others envs w n pr))))
            else Option.bind (cilk_assert (wtype (wkh (mem pr) w) \<noteq> WORKER_USER)) (\<lambda>_.
              Some (None, Suc n, pr)))) = Some r"
  from run obtain st s where st: "worker_runnable (glob (others n pr)) (nodes (others n pr)) w (mem (others n pr)) = Some (st, s)"
    unfolding Let_def by (auto elim: bind_Some_elim)
  show "gave_up w r"
  proof (cases st)
    case SCHEDULE_RUN
    with run st show ?thesis
      by (auto simp: Let_def gave_up_def dest!: IH split: if_splits elim!: bind_Some_elim)
  next
    case SCHEDULE_WAIT
    with run st show ?thesis
      by (auto simp: Let_def dest!: IH elim!: bind_Some_elim)
  next
    case SCHEDULE_EXIT
    with run st show ?thesis
      by (auto simp: Let_def gave_up_def dest!: runnable_exit elim!: bind_Some_elim)
  qed
qed

subsection \<open>A steal that succeeds\<close>

text \<open>A worker that looks for work: it has no frame, its lock is free and it belongs to no team.\<close>

definition idle :: "wptr \<Rightarrow> ('m, 'e) rts \<Rightarrow> bool" where
  "idle w s \<longleftrightarrow> validate_worker (wkh s w) = Some () \<and> \<not> do_not_steal (wkh s w) \<and> mutex_free (w_lock (wkh s w)) \<and>
     w_pending_exception (wkh s w) = None \<and> team (wkh s w) = None"

lemma pedigree_upd_full: "(p :: pedigree)\<lparr>rank := a, ped_parent := b\<rparr> = \<lparr>rank = a, ped_parent = b\<rparr>"
  by (cases p) simp

text \<open>\<open>setup_for_execution\<close> for a frame whose stack frame is still unsynched.\<close>

lemma setup_for_unsynched:
  assumes "call_stack (ffh s ff) = Some sf" and "pending_exception (ffh s ff) = None"
    and "w_pending_exception (wkh s w) = None" and "has_flag (flags (sfh s sf)) CILK_FRAME_UNSYNCHED"
    and "CILK_FRAME_VERSION_VALUE (flags (sfh s sf)) \<noteq> 0" and "work_stolen (wkh s w)"
  obtains s' where "setup_for_execution x w ff False s = Some s'"
    and "wkh s' = (wkh s)(w := (wkh s w)\<lparr>current_stack_frame := Some sf,
       w_pedigree := \<lparr>rank = rank (sf_pedigree (sfh s sf)) + 1, ped_parent = ped_parent (sf_pedigree (sfh s sf))\<rparr>,
       work_stolen := False, head := ltq (wkh s w), tail := ltq (wkh s w), exc := ltq (wkh s w), frame_ff := Some ff\<rparr>)"
    and "ffh s' = (ffh s)(ff := (ffh s ff)\<lparr>call_stack := None\<rparr>)"
    and "sf_worker (sfh s' sf) = Some w"
proof -
  define s1 where "s1 = upd_wk w (\<lambda>k. k\<lparr>current_stack_frame := Some sf\<rparr>) (upd_sf sf (\<lambda>f. f\<lparr>sf_worker := Some w\<rparr>) s)"
  define s2 where "s2 = upd_wk w (\<lambda>k. k\<lparr>w_pedigree := \<lparr>rank = rank (sf_pedigree (sfh s sf)) + 1,
      ped_parent = ped_parent (sf_pedigree (sfh s sf))\<rparr>, work_stolen := False\<rparr>)
      (upd_sf sf (\<lambda>f. f\<lparr>flags := clear_flag (flags f) CILK_FRAME_SF_PEDIGREE_UNSYNCHED\<rparr>) s1)"
  have red: "setup_for_execution_reducers w ff s = Some s"
    using assms(1,4) by (simp add: setup_for_execution_reducers_def)
  have "upd_ff ff (\<lambda>f. f\<lparr>pending_exception := None\<rparr>) (upd_wk w (\<lambda>k. k\<lparr>w_pending_exception := None\<rparr>) s) = s"
  proof -
    have "(ffh s ff)\<lparr>pending_exception := None\<rparr> = ffh s ff" "(wkh s w)\<lparr>w_pending_exception := None\<rparr> = wkh s w"
      using assms(2) by (cases "ffh s ff", simp) (use assms(3) in \<open>cases "wkh s w", simp\<close>)
    then show ?thesis by (simp add: upd_ff_def upd_wk_def)
  qed
  then have exn: "setup_for_execution_exceptions w ff s = Some s"
    using assms(2,3) by (simp add: setup_for_execution_exceptions_def)
  have ped: "setup_for_execution_pedigree w s1 = Some s2"
    using assms(5,6) by (simp add: setup_for_execution_pedigree_def s1_def s2_def Let_def upd_wk_def upd_sf_def
        pedigree_upd_full)
  have "w_pending_exception (wkh s2 w) = None"
    using assms(3) by (simp add: s2_def s1_def)
  then have "setup_for_execution x w ff False s = Some (make_runnable w ff (upd_wk w reset_deque s2))"
    using red exn ped assms(1) by (simp add: setup_for_execution_def s1_def [symmetric] setup_for_execution_sysdep_def)
  then show ?thesis
    using that by (simp add: make_runnable_def s2_def s1_def reset_deque_def reset_THE_exception_def)
qed

text \<open>
  Stage 4 of the loop body for a stolen frame. \<open>resuming\<close>: the worker when it is ready to run the
  frame: an empty deque, its lock free, and the pedigree of the continuation, one rank after
  the spawn.
\<close>

definition resuming :: "sfptr \<Rightarrow> ffptr \<Rightarrow> pedigree \<Rightarrow> ('m, 'e) worker \<Rightarrow> ('m, 'e) worker" where
  "resuming sf ff ped k = k\<lparr>w_pedigree := \<lparr>rank = rank ped + 1, ped_parent = ped_parent ped\<rparr>,
     work_stolen := False, head := ltq k, tail := ltq k, exc := ltq k, frame_ff := Some ff,
     w_lock := mutex_init, do_not_steal := False, current_stack_frame := Some sf\<rparr>"

lemma run_found_stolen_frame:
  assumes w: "validate_worker (wkh (mem pr) w) = Some ()" "\<not> do_not_steal (wkh (mem pr) w)"
      "mutex_free (w_lock (wkh (mem pr) w))" "w_pending_exception (wkh (mem pr) w) = None"
      "frame_ff (wkh (mem pr) w) = None" "work_stolen (wkh (mem pr) w)"
    and ff: "validate_full_frame (ffh (mem pr) ff) = Some ()" "mutex_free (ff_lock (ffh (mem pr) ff))"
      "call_stack (ffh (mem pr) ff) = Some sf" "pending_exception (ffh (mem pr) ff) = None"
      "fiber_self (ffh (mem pr) ff) = Some fb"
    and sf: "call_parent (sfh (mem pr) sf) = None" "has_flag (flags (sfh (mem pr) sf)) CILK_FRAME_UNSYNCHED"
      "CILK_FRAME_VERSION_VALUE (flags (sfh (mem pr) sf)) \<noteq> 0"
    and fd: "resume_sf (fdata pr fb) = None" "fd_owner (fdata pr cur) = Some w"
  obtains pr' where "run_found_frame x cur w ff pr = Some (fb, pr')"
    and "wkh (mem pr') = (wkh (mem pr))(w := resuming sf ff (sf_pedigree (sfh (mem pr) sf)) (wkh (mem pr) w))"
    and "ffh (mem pr') = (ffh (mem pr))(ff := (ffh (mem pr) ff)\<lparr>call_stack := None, ff_lock := mutex_init\<rparr>)"
    and "sf_worker (sfh (mem pr') sf) = Some w" and "resume_sf (fdata pr' fb) = Some sf" and "glob pr' = glob pr"
proof -
  define lk where "lk = \<lparr>mx_lock = 1, mx_owner = Some w\<rparr>"
  define s1 where "s1 = upd_wk w (\<lambda>k. k\<lparr>do_not_steal := True, w_lock := lk\<rparr>) (mem pr)"
  define s2 where "s2 = upd_ff ff (\<lambda>f. f\<lparr>ff_lock := lk\<rparr>) s1"
  have l1: "lock_worker w (mem pr) = Some s1"
    unfolding s1_def lk_def using w by (intro lock_worker_free)
  have l2: "frame_lock w ff s1 = Some s2"
    unfolding s2_def lk_def using ff by (intro frame_lock_free) (simp_all add: s1_def)
  obtain s3 where s3: "setup_for_execution x w ff False s2 = Some s3"
    "wkh s3 = (wkh s2)(w := (wkh s2 w)\<lparr>current_stack_frame := Some sf,
       w_pedigree := \<lparr>rank = rank (sf_pedigree (sfh s2 sf)) + 1, ped_parent = ped_parent (sf_pedigree (sfh s2 sf))\<rparr>,
       work_stolen := False, head := ltq (wkh s2 w), tail := ltq (wkh s2 w), exc := ltq (wkh s2 w), frame_ff := Some ff\<rparr>)"
    "ffh s3 = (ffh s2)(ff := (ffh s2 ff)\<lparr>call_stack := None\<rparr>)" "sf_worker (sfh s3 sf) = Some w"
    by (rule setup_for_unsynched [of s2 ff sf w x]) (use w ff sf in \<open>simp_all add: s2_def s1_def\<close>)
  define s4 where "s4 = upd_ff ff (\<lambda>f. f\<lparr>ff_lock := mutex_init\<rparr>) s3"
  define s5 where "s5 = upd_wk w (\<lambda>k. k\<lparr>w_lock := mutex_init, do_not_steal := False\<rparr>) s4"
  have l4: "frame_unlock w ff s3 = Some s4"
    unfolding s4_def by (rule frame_unlock_own) (simp add: s3 s2_def lk_def)
  have l5: "unlock_worker w s4 = Some s5"
    unfolding s5_def by (rule unlock_worker_own) (simp_all add: s4_def s3 s2_def s1_def lk_def)
  define pr' where "pr' = pr\<lparr>mem := prepare_to_resume_user_code w sf s5,
     fdata := ((fdata pr)(cur := (fdata pr cur)\<lparr>resume_sf := None\<rparr>))
       (fb := (((fdata pr)(cur := (fdata pr cur)\<lparr>resume_sf := None\<rparr>)) fb)\<lparr>resume_sf := Some sf\<rparr>)\<rparr>"
  have fs: "frame_ff (wkh s1 w) = None" "call_stack (ffh s2 ff) = Some sf" "call_parent (sfh s2 sf) = None"
      "frame_ff (wkh (prepare_to_resume_user_code w sf s5) w) = Some ff"
      "fiber_self (ffh (prepare_to_resume_user_code w sf s5) ff) = Some fb"
    using w ff sf by (simp_all add: s1_def s2_def s5_def s4_def s3 prepare_to_resume_user_code_def)
  have "run_found_frame x cur w ff pr = Some (fb, pr')"
    by (simp add: run_found_frame_def l1 l2 fs s3(1) l4 l5 fd Let_def pr'_def)
  moreover have "wkh (mem pr') = (wkh (mem pr))(w := resuming sf ff (sf_pedigree (sfh (mem pr) sf)) (wkh (mem pr) w))"
    by (simp add: pr'_def prepare_to_resume_user_code_def s5_def s4_def s3 s2_def s1_def resuming_def)
  moreover have "ffh (mem pr') = (ffh (mem pr))(ff := (ffh (mem pr) ff)\<lparr>call_stack := None, ff_lock := mutex_init\<rparr>)"
    by (simp add: pr'_def prepare_to_resume_user_code_def s5_def s4_def s3 s2_def s1_def)
  moreover have "sf_worker (sfh (mem pr') sf) = Some w" "resume_sf (fdata pr' fb) = Some sf" "glob pr' = glob pr"
    by (simp_all add: pr'_def prepare_to_resume_user_code_def)
  ultimately show ?thesis by (rule that)
qed

lemma check_for_work_steals:
  assumes en: "steal_enabled (global_state.truncate g) env w v s" and fb: "new_fiber env = Some fb"
    and ready: "steal_ready w v p sf fs s" and id: "idle w s"
  obtains s0 s1 s' where "check_for_work g env w s = Some (Some (if fs = [] then p else ff_brk s + length fs - 1), s')"
    and "stolen_state w v p sf fs fb s0 s1" and "ffh s0 = ffh s" and "sfh s0 = sfh s" and "ff_brk s0 = ff_brk s"
    and "wkh s0 v = (wkh s v)\<lparr>w_lock := \<lparr>mx_lock = 1, mx_owner = Some w\<rparr>, exc := exc (wkh s v) + 1\<rparr>"
    and "ffh s' = ffh s1" and "sfh s' = sfh s1" and "wkh s' v = (wkh s1 v)\<lparr>w_lock := mutex_init\<rparr>"
    and "wkh s' w = (snd (myrand ((wkh s w)\<lparr>work_stolen := False\<rparr>)))\<lparr>team := team (wkh s v), next_frame_ff := None,
       work_stolen := True, steal_failure_count := 0, has_stolen := True\<rparr>"
proof -
  have wv: "w \<noteq> v" "v \<noteq> w" using ready by (auto simp: steal_ready_def)
  obtain s0 s1 where s0: "ffh s0 = ffh s" "sfh s0 = sfh s" "ff_brk s0 = ff_brk s"
      "wkh s0 w = snd (myrand ((wkh s w)\<lparr>work_stolen := False\<rparr>))"
      "wkh s0 v = (wkh s v)\<lparr>w_lock := \<lparr>mx_lock = 1, mx_owner = Some w\<rparr>, exc := exc (wkh s v) + 1\<rparr>"
    and st: "stolen_state w v p sf fs fb s0 s1"
    and run: "random_steal (global_state.truncate g) env w s = Some (upd_wk w (\<lambda>k. k\<lparr>work_stolen := True\<rparr>)
       (upd_wk v (\<lambda>k. k\<lparr>w_lock := mutex_init\<rparr>) s1))"
    using en fb ready by (rule random_steal_run)
  let ?loot = "if fs = [] then p else ff_brk s + length fs - 1"
  let ?s2 = "upd_wk w (\<lambda>k. k\<lparr>work_stolen := True\<rparr>) (upd_wk v (\<lambda>k. k\<lparr>w_lock := mutex_init\<rparr>) s1)"
  let ?s' = "upd_wk w (\<lambda>k. k\<lparr>steal_failure_count := 0, has_stolen := True\<rparr>) (upd_wk w (\<lambda>k. k\<lparr>next_frame_ff := None\<rparr>) ?s2)"
  have w1: "wkh s1 w = (wkh s0 w)\<lparr>team := team (wkh s v), next_frame_ff := Some ?loot\<rparr>"
    using st s0 unfolding stolen_state_def Let_def by simp
  have A: "check_for_work g env w s = Some (Some ?loot, ?s')"
    using id ready run w1 wv by (simp add: check_for_work_def pop_next_frame_def idle_def steal_ready_def)
  have B: "wkh ?s' v = (wkh s1 v)\<lparr>w_lock := mutex_init\<rparr>"
    using wv by simp
  have C: "wkh ?s' w = (snd (myrand ((wkh s w)\<lparr>work_stolen := False\<rparr>)))\<lparr>team := team (wkh s v), next_frame_ff := None,
       work_stolen := True, steal_failure_count := 0, has_stolen := True\<rparr>"
    using wv by (simp add: w1 s0)
  show ?thesis
    by (rule that [OF A st s0(1,2,3,5) _ _ B C]) simp_all
qed

subsection \<open>Rounds without work\<close>

text \<open>
  \<open>no_work\<close>: the root worker's node says that no user thread is inside Cilk, and no other worker
  has a frame to steal. \<open>root_searching\<close>: the root worker in its search, with \<open>j\<close> failures since its
  count was last reset. \<open>quiet\<close>: other threads leave this worker alone and bring no work.
\<close>

definition no_work :: "wptr \<Rightarrow> ('m, 'e) sched \<Rightarrow> bool" where
  "no_work w pr \<longleftrightarrow>
     (\<exists>nd. signal_node (wkh (mem pr) w) = Some nd \<and> signal_node_should_wait (nodes pr nd)) \<and>
     (\<forall>i\<in>{0..<total_workers (glob pr)} - {self (wkh (mem pr) w)}.
        workers (glob pr) i \<noteq> w \<and> \<not> can_steal_from (wkh (mem pr) (workers (glob pr) i)))"

definition root_searching :: "nat \<Rightarrow> wptr \<Rightarrow> ('m, 'e) sched \<Rightarrow> bool" where
  "root_searching j w pr \<longleftrightarrow>
     (let k = wkh (mem pr) w; g = glob pr in
      self k = 0 \<and> wtype k = WORKER_SYSTEM \<and> frame_ff k = None \<and> next_frame_ff k = None \<and> team k = None \<and>
      steal_failure_count k = of_nat j \<and> \<not> work_done g \<and> \<not> stealing_disabled g \<and>
      1 < total_workers g \<and> total_workers g \<le> 2 ^ 31 - 1 \<and>
      0 < unat (max_steal_failures g) \<and> unat (max_steal_failures g) < 2 ^ 31) \<and>
     no_work w pr"

definition quiet :: "wptr \<Rightarrow> (nat \<Rightarrow> ('m, 'e) sched \<Rightarrow> ('m, 'e) sched) \<Rightarrow> bool" where
  "quiet w others \<longleftrightarrow> (\<forall>n pr. glob (others n pr) = glob pr \<and> wkh (mem (others n pr)) w = wkh (mem pr) w \<and>
     (no_work w pr \<longrightarrow> no_work w (others n pr)))"

lemma quiet_root: "quiet w others \<Longrightarrow> root_searching j w pr \<Longrightarrow> root_searching j w (others n pr)"
  by (simp add: quiet_def root_searching_def Let_def)

lemma failed_steal_counts:
  assumes "0 < unat m" and "unat m < 2 ^ 31"
  obtains b where "failed_steal m k = Some (k\<lparr>steal_failure_count := steal_failure_count k + 1, has_stolen := b\<rparr>)"
proof -
  have "unat (push_bit 1 m) = 2 * unat m"
    using assms(2) by (simp add: push_bit_eq_mult unat_word_ariths)
  then have "push_bit 1 m \<noteq> 0" using assms(1) by auto
  then show ?thesis
    using that [of "has_stolen k \<and> \<not> steal_failure_count k + 1 > push_bit 8 (push_bit 1 m)"]
    by (auto simp: failed_steal_def Let_def)
qed

lemma root_runs:
  assumes "root_searching j w pr" and "j \<le> unat (max_steal_failures (glob pr))"
  shows "worker_runnable (glob pr) (nodes pr) w (mem pr) = Some (SCHEDULE_RUN, mem pr)"
proof -
  have "\<not> of_nat j > max_steal_failures (glob pr)"
    using assms(2) order_le_less_trans [OF assms(2) unsigned_less]
    by (simp add: word_less_nat_alt unat_of_nat take_bit_nat_eq_self not_less)
  then show ?thesis
    using assms(1) by (simp add: root_searching_def worker_runnable_def Let_def)
qed

lemma root_waits:
  assumes "root_searching (Suc (unat (max_steal_failures (glob pr)))) w pr"
  shows "worker_runnable (glob pr) (nodes pr) w (mem pr) = Some (SCHEDULE_WAIT, mem pr)"
proof -
  have "max_steal_failures (glob pr) < of_nat (Suc (unat (max_steal_failures (glob pr))))"
    using assms unfolding word_less_nat_alt unat_of_nat
    by (subst mod_less) (auto simp: root_searching_def Let_def)
  then show ?thesis
    using assms by (auto simp: root_searching_def no_work_def worker_runnable_def Let_def)
qed

lemma root_misses:
  assumes root: "root_searching j w pr" and env: "replay_victim env = id"
  obtains s' where "check_for_work (glob pr) env w (mem pr) = Some (None, s')"
    and "root_searching (Suc j) w (pr\<lparr>mem := s'\<rparr>)"
proof -
  let ?s = "mem pr"
  let ?n = "pick_victim (fst (myrand (wkh ?s w))) (total_workers (glob pr)) (self (wkh ?s w))"
  let ?s1 = "upd_wk w (\<lambda>k. snd (myrand (k\<lparr>work_stolen := False\<rparr>))) ?s"
  note r = root [unfolded root_searching_def no_work_def Let_def]
  have n: "?n \<in> {0..<total_workers (glob pr)} - {self (wkh ?s w)}"
    by (rule pick_victim_range) (use r in auto)
  then have v: "workers (glob pr) ?n \<noteq> w" "\<not> can_steal_from (wkh ?s (workers (glob pr) ?n))" "?n \<noteq> -1"
    using r by auto
  have steal: "random_steal (global_state.truncate (glob pr)) env w ?s = Some ?s1"
    by (rule random_steal_nothing [where n = ?n]) (use r v env in \<open>simp_all add: global_state.truncate_def\<close>)
  obtain b where fail: "failed_steal (max_steal_failures (glob pr)) (wkh ?s1 w) =
      Some ((wkh ?s1 w)\<lparr>steal_failure_count := steal_failure_count (wkh ?s1 w) + 1, has_stolen := b\<rparr>)"
    using failed_steal_counts [of "max_steal_failures (glob pr)" "wkh ?s1 w"] r by auto
  define k where "k = (wkh ?s1 w)\<lparr>steal_failure_count := steal_failure_count (wkh ?s1 w) + 1, has_stolen := b\<rparr>"
  have fields: "next_frame_ff k = next_frame_ff (wkh ?s w)" "frame_ff k = frame_ff (wkh ?s w)" "self k = self (wkh ?s w)"
      "wtype k = wtype (wkh ?s w)" "team k = team (wkh ?s w)" "signal_node k = signal_node (wkh ?s w)"
      "steal_failure_count k = steal_failure_count (wkh ?s w) + 1"
    by (simp_all add: k_def myrand_def Let_def)
  have nf: "next_frame_ff (wkh ?s1 w) = None"
    using r by (simp add: myrand_def Let_def)
  have "check_for_work (glob pr) env w ?s = Some (None, upd_wk w (\<lambda>_. k) ?s1)"
    using r steal fail nf by (simp add: check_for_work_def pop_next_frame_def k_def)
  moreover have "root_searching (Suc j) w (pr\<lparr>mem := upd_wk w (\<lambda>_. k) ?s1\<rparr>)"
    using r by (auto simp: root_searching_def no_work_def Let_def fields)
  ultimately show ?thesis by (rule that)
qed

lemma root_misses_many:
  assumes "quiet w others" and "\<And>n. replay_victim (envs n) = id"
    and "root_searching j w pr" and "j + i \<le> Suc (unat (max_steal_failures (glob pr)))"
  shows "\<exists>pr'. misses others envs w i n pr pr' \<and> root_searching (j + i) w pr' \<and> glob pr' = glob pr"
  using assms(3,4)
proof (induction i arbitrary: j n pr)
  case 0
  then show ?case by auto
next
  case (Suc i)
  let ?pr = "others n pr"
  have g: "glob ?pr = glob pr" and r: "root_searching j w ?pr"
    using assms(1) Suc.prems(1) by (simp_all add: quiet_def quiet_root)
  obtain s' where s': "check_for_work (glob ?pr) (envs n) w (mem ?pr) = Some (None, s')"
    "root_searching (Suc j) w (?pr\<lparr>mem := s'\<rparr>)"
    using root_misses [OF r assms(2)] by blast
  have "miss_round others envs w n pr (?pr\<lparr>mem := s'\<rparr>)"
    unfolding miss_round_def using s'(1) root_runs [OF r] Suc.prems(2) g by auto
  moreover obtain pr' where "misses others envs w i (Suc n) (?pr\<lparr>mem := s'\<rparr>) pr'" "root_searching (Suc j + i) w pr'" "glob pr' = glob pr"
    using Suc.IH [OF s'(2), of "Suc n"] Suc.prems(2) g by auto
  ultimately show ?case by auto
qed

subsection \<open>Properties\<close>

text \<open>
  The worker \<open>w\<close> with scheduling fiber \<open>cur\<close> in round \<open>n\<close> of its search, \<open>pr\<close> being the process as it
  finds it: it may look for work, and the victim it picks has a frame for it.
\<close>

definition about_to_steal :: "steal_env \<Rightarrow> fiber \<Rightarrow> fiber \<Rightarrow> wptr \<Rightarrow> wptr \<Rightarrow> ffptr \<Rightarrow> sfptr \<Rightarrow> sfptr list
    \<Rightarrow> ('m, 'e) sched \<Rightarrow> bool" where
  "about_to_steal env cur fb w v p sf fs pr \<longleftrightarrow>
     idle w (mem pr) \<and> steal_enabled (global_state.truncate (glob pr)) env w v (mem pr) \<and> new_fiber env = Some fb \<and>
     steal_ready w v p sf fs (mem pr) \<and> worker_runnable (glob pr) (nodes pr) w (mem pr) = Some (SCHEDULE_RUN, mem pr) \<and>
     pending_exception (ffh (mem pr) p) = None \<and> sf_worker (sfh (mem pr) sf) \<noteq> Some w \<and>
     CILK_FRAME_VERSION_VALUE (flags (sfh (mem pr) sf)) \<noteq> 0 \<and>
     resume_sf (fdata pr fb) = None \<and> fd_owner (fdata pr cur) = Some w"

text \<open>C14: However many rounds of the search have found nothing, as soon as the victim of a round has a
  stealable frame the scheduling loop resumes its continuation on this worker: no assertion
  fails, the fiber to switch to is the new one and resumes the stolen stack frame, the worker
  runs the loot with an empty deque and a reset failure count, the continuation's pedigree is one
  rank after the spawn, the victim runs a child of the loot, and every lock is free again.\<close>

theorem idle_worker_resumes_stolen:
  assumes "scheduling_fiber (wkh (mem pr) w) = Some cur" and "frame_ff (wkh (mem pr) w) = None"
    and "next_frame_ff (wkh (mem pr) w) = None" and "misses others envs w j n pr pr0"
    and "about_to_steal (envs (n + j)) cur fb w v p sf fs (others (n + j) pr0)"
    and "s = mem (others (n + j) pr0)" and "loot = (if fs = [] then p else ff_brk s + length fs - 1)"
  shows "\<exists>pr'. worker_scheduling_loop_body x others envs cur w n pr = Some (Some fb, Suc (n + j), pr') \<and>
     resume_sf (fdata pr' fb) = Some sf \<and> fiber_self (ffh (mem pr') loot) = Some fb \<and>
     frame_ff (wkh (mem pr') w) = Some loot \<and> current_stack_frame (wkh (mem pr') w) = Some sf \<and>
     sf_worker (sfh (mem pr') sf) = Some w \<and> head (wkh (mem pr') w) = tail (wkh (mem pr') w) \<and>
     steal_failure_count (wkh (mem pr') w) = 0 \<and> rank (w_pedigree (wkh (mem pr') w)) = rank (sf_pedigree (sfh s sf)) + 1 \<and>
     ped_parent (w_pedigree (wkh (mem pr') w)) = ped_parent (sf_pedigree (sfh s sf)) \<and>
     frame_ff (wkh (mem pr') v) = Some (ff_brk s + length fs) \<and> parent (ffh (mem pr') (ff_brk s + length fs)) = Some loot \<and>
     head (wkh (mem pr') v) = head (wkh s v) + 1 \<and> mutex_free (w_lock (wkh (mem pr') w)) \<and>
     mutex_free (w_lock (wkh (mem pr') v)) \<and> mutex_free (ff_lock (ffh (mem pr') loot))"
proof -
  let ?pr = "others (n + j) pr0"
  note a = assms(5) [unfolded about_to_steal_def, folded assms(6)]
  obtain s0 s1 s' where chk: "check_for_work (glob ?pr) (envs (n + j)) w s = Some (Some loot, s')"
    and st: "stolen_state w v p sf fs fb s0 s1" and s0: "ffh s0 = ffh s" "sfh s0 = sfh s" "ff_brk s0 = ff_brk s"
    and v0: "wkh s0 v = (wkh s v)\<lparr>w_lock := \<lparr>mx_lock = 1, mx_owner = Some w\<rparr>, exc := exc (wkh s v) + 1\<rparr>"
    and s': "ffh s' = ffh s1" "sfh s' = sfh s1" "wkh s' v = (wkh s1 v)\<lparr>w_lock := mutex_init\<rparr>"
    and w': "wkh s' w = (snd (myrand ((wkh s w)\<lparr>work_stolen := False\<rparr>)))\<lparr>team := team (wkh s v), next_frame_ff := None,
       work_stolen := True, steal_failure_count := 0, has_stolen := True\<rparr>"
    by (rule check_for_work_steals [of "glob ?pr" "envs (n + j)" w v s fb p sf fs, folded assms(7)]) (use a in auto)
  have wv: "w \<noteq> v" "v \<noteq> w" using a by (auto simp: steal_ready_def)
  have search: "search_until_work_found_or_done others envs w n pr = Some (Some loot, Suc (n + j), ?pr\<lparr>mem := s'\<rparr>)"
    unfolding search_misses [OF assms(4)] using a chk by (intro search_found [where s = s]) (simp_all add: assms(6))
  have L: "full_frame_magic_0 (ffh s' loot) = FULL_FRAME_MAGIC_0" "full_frame_magic_1 (ffh s' loot) = FULL_FRAME_MAGIC_1"
      "mutex_free (ff_lock (ffh s' loot))" "call_stack (ffh s' loot) = Some sf" "pending_exception (ffh s' loot) = None"
      "fiber_self (ffh s' loot) = Some fb" "parent (ffh s' (ff_brk s + length fs)) = Some loot"
    using st a unfolding stolen_state_def Let_def s0 s' assms(7) [symmetric] by auto
  have F: "call_parent (sfh s' sf) = None" "has_flag (flags (sfh s' sf)) CILK_FRAME_UNSYNCHED"
      "sf_pedigree (sfh s' sf) = sf_pedigree (sfh s sf)" "CILK_FRAME_VERSION_VALUE (flags (sfh s' sf)) \<noteq> 0"
    using st a unfolding stolen_state_def Let_def s0 s' by (auto simp: suspended_sf_def sf_kept_def)
  have V: "frame_ff (wkh s' v) = Some (ff_brk s + length fs)" "head (wkh s' v) = head (wkh s v) + 1" "w_lock (wkh s' v) = mutex_init"
    using st v0 unfolding stolen_state_def Let_def s0 s' by auto
  have W: "validate_worker (wkh s' w) = Some ()" "\<not> do_not_steal (wkh s' w)" "mutex_free (w_lock (wkh s' w))"
      "w_pending_exception (wkh s' w) = None" "frame_ff (wkh s' w) = None" "work_stolen (wkh s' w)"
    using a unfolding w' by (simp_all add: idle_def steal_ready_def myrand_def Let_def validate_worker_def)
  obtain pr' where run: "run_found_frame x cur w loot (?pr\<lparr>mem := s'\<rparr>) = Some (fb, pr')"
    and wk: "wkh (mem pr') = (wkh s')(w := resuming sf loot (sf_pedigree (sfh s' sf)) (wkh s' w))"
    and ff: "ffh (mem pr') = (ffh s')(loot := (ffh s' loot)\<lparr>call_stack := None, ff_lock := mutex_init\<rparr>)"
    and sf: "sf_worker (sfh (mem pr') sf) = Some w" and fd: "resume_sf (fdata pr' fb) = Some sf"
    by (rule run_found_stolen_frame [of "?pr\<lparr>mem := s'\<rparr>" w loot sf fb cur x])
      (use W L F a in \<open>simp_all add: validate_full_frame_def\<close>)
  have "worker_scheduling_loop_body x others envs cur w n pr = Some (Some fb, Suc (n + j), pr')"
    using assms(1-3) search run by (simp add: worker_scheduling_loop_body_def pop_next_frame_def)
  then show ?thesis
    using wk ff sf fd L F V w' wv by (intro exI [of _ pr']) (auto simp: resuming_def mutex_init_def)
qed

text \<open>C15: A root worker that has just reset its failure count and finds nothing to steal anywhere, while no user
  thread is inside Cilk, tries exactly \<open>max_steal_failures + 1\<close> times, each time picking another
  worker and failing no assertion, and then goes to rest.\<close>

theorem root_rests_after_failures:
  assumes "root_searching 0 w pr" and "quiet w others" and "\<forall>k. replay_victim (envs k) = id"
    and "m = Suc (unat (max_steal_failures (glob pr)))"
  shows "\<exists>pr'. misses others envs w m n pr pr' \<and>
     worker_runnable (glob (others (n + m) pr')) (nodes (others (n + m) pr')) w (mem (others (n + m) pr'))
       = Some (SCHEDULE_WAIT, mem (others (n + m) pr'))"
proof -
  obtain pr' where pr': "misses others envs w m n pr pr'" "root_searching m w pr'" "glob pr' = glob pr"
    using root_misses_many [OF assms(2) _ assms(1), of envs m n] assms(3,4) by auto
  have "glob (others (n + m) pr') = glob pr"
    using assms(2) pr'(3) by (simp add: quiet_def)
  then show ?thesis
    using pr'(1) root_waits quiet_root [OF assms(2) pr'(2)] assms(4) by metis
qed

text \<open>The search ends without a frame only when the runtime has been told that the work is done, for a
  worker that is no user worker and has no frame left to run.\<close>

theorem search_gives_up_when_done:
  assumes "search_until_work_found_or_done others envs w n pr = Some (None, m, pr')"
  shows "work_done (glob pr') \<and> next_frame_ff (wkh (mem pr') w) = None \<and> wtype (wkh (mem pr') w) \<noteq> WORKER_USER"
  using search_done [OF assms] by (simp add: gave_up_def)

subsection \<open>Witnesses\<close>

text \<open>
  Two system workers. In \<open>loop_busy\<close> worker 1 runs full frame 0 and has stack frame 10 in its deque;
  in \<open>loop_empty\<close> it has nothing.
\<close>

definition loop_glob :: runtime_state where
  "loop_glob = \<lparr>total_workers = 2, stealing_disabled = False, workers = nat, P = 3, Q = 0, work_done = False,
     max_steal_failures = 4\<rparr>"

definition loop_busy :: "(unit, unit) sched" where
  "loop_busy = \<lparr>mem = upd_sf 10 (\<lambda>f. f\<lparr>flags := 0x1000000\<rparr>)
       (upd_wk 0 (\<lambda>k. k\<lparr>scheduling_fiber := Some 3, signal_node := Some 0\<rparr>) steal_rts), glob = loop_glob,
     nodes = (\<lambda>_. signal_node_create), tls_worker = (\<lambda>_. None), tls_pedigree_leaf = (\<lambda>_. None),
     ped_nodes = (\<lambda>_. \<lparr>rank = 0, ped_parent = None\<rparr>), ped_brk = 0, global_pedigree_tls_counter = 0, freed_workers = [],
     fdata = (\<lambda>_. \<lparr>fd_owner = Some 0, resume_sf = None\<rparr>)\<rparr>"

definition loop_empty :: "(unit, unit) sched" where
  "loop_empty = upd_wkr 1 (\<lambda>k. k\<lparr>head := 101\<rparr>) loop_busy"

lemma loop_busy_steal: "about_to_steal steal_env0 3 7 0 1 0 10 [11] loop_busy"
proof -
  have "steal_ready 0 1 0 10 [11] (mem loop_busy)"
    using steal_ready_rts
    by (simp add: steal_ready_def loop_busy_def ff_ok_def)
      (simp add: steal_rts_def sf0_def ends_stack_def has_flag_def frame_flag_defs)
  moreover have "steal_enabled (global_state.truncate loop_glob) steal_env0 0 1 (mem loop_busy)"
    by (simp add: steal_enabled_def loop_glob_def global_state.truncate_def steal_env0_def loop_busy_def steal_rts_def worker_eval
        mutex_init_def validate_worker_def EXC_INFINITY_def pick_victim_def Let_def)
  ultimately show ?thesis
    by (simp add: about_to_steal_def loop_busy_def idle_def)
      (simp add: loop_glob_def steal_rts_def worker_eval steal_env0_def mutex_init_def validate_worker_def new_full_frame_def
        sf0_def worker_runnable_def CILK_FRAME_VERSION_VALUE_def CILK_FRAME_VERSION_MASK_def)
qed

theorem idle_worker_resumes_stolen_witness:
  "\<exists>pr'. worker_scheduling_loop_body no_exn (\<lambda>_. id) (\<lambda>_. steal_env0) 3 0 0 loop_busy = Some (Some 7, 1, pr') \<and>
     resume_sf (fdata pr' 7) = Some 10"
proof -
  have "scheduling_fiber (wkh (mem loop_busy) 0) = Some 3" "frame_ff (wkh (mem loop_busy) 0) = None"
      "next_frame_ff (wkh (mem loop_busy) 0) = None"
    by (simp_all add: loop_busy_def steal_rts_def worker_eval)
  from idle_worker_resumes_stolen [OF this, where others = "\<lambda>_. id" and envs = "\<lambda>_. steal_env0" and j = 0 and n = 0
      and fb = 7 and v = 1 and p = 0 and sf = 10 and fs = "[11]" and x = no_exn, OF _ _ refl refl]
  show ?thesis using loop_busy_steal by auto
qed

lemma loop_empty_root: "root_searching 0 0 loop_empty"
proof -
  have "no_work 0 loop_empty"
  proof -
    have "i \<in> {0..<2} - {0} \<Longrightarrow> i = 1" for i :: int by auto
    moreover have "\<not> can_steal_from (wkh (mem loop_empty) 1)"
      by (simp add: loop_empty_def upd_wkr_def loop_busy_def steal_rts_def worker_eval can_steal_from_def)
    ultimately show ?thesis
      by (auto simp: no_work_def loop_empty_def upd_wkr_def loop_busy_def loop_glob_def steal_rts_def worker_eval
          signal_node_should_wait_def signal_node_create_def)
  qed
  then show ?thesis
    by (simp add: root_searching_def Let_def)
      (simp add: loop_empty_def upd_wkr_def loop_busy_def loop_glob_def steal_rts_def worker_eval)
qed

theorem root_rests_after_failures_witness:
  "\<exists>pr'. misses (\<lambda>_. id) (\<lambda>_. steal_env0) 0 5 0 loop_empty pr' \<and>
     worker_runnable (glob pr') (nodes pr') 0 (mem pr') = Some (SCHEDULE_WAIT, mem pr')"
proof -
  have "quiet 0 (\<lambda>_. id)" and "\<forall>k. replay_victim ((\<lambda>_. steal_env0) k) = id"
    and m: "5 = Suc (unat (max_steal_failures (glob loop_empty)))"
    by (simp_all add: quiet_def steal_env0_def loop_empty_def upd_wkr_def loop_busy_def loop_glob_def)
  from root_rests_after_failures [OF loop_empty_root this, of 0] show ?thesis by auto
qed

theorem search_gives_up_when_done_witness:
  "work_done (glob (loop_empty\<lparr>glob := loop_glob\<lparr>work_done := True\<rparr>\<rparr>)) \<and>
     search_until_work_found_or_done (\<lambda>_. id) (\<lambda>_. steal_env0) 0 0 (loop_empty\<lparr>glob := loop_glob\<lparr>work_done := True\<rparr>\<rparr>) =
       Some (None, 1, loop_empty\<lparr>glob := loop_glob\<lparr>work_done := True\<rparr>\<rparr>)"
proof -
  have run: "search_until_work_found_or_done (\<lambda>_. id) (\<lambda>_. steal_env0) 0 0 (loop_empty\<lparr>glob := loop_glob\<lparr>work_done := True\<rparr>\<rparr>) =
       Some (None, 1, loop_empty\<lparr>glob := loop_glob\<lparr>work_done := True\<rparr>\<rparr>)"
    by (subst search_until_work_found_or_done.simps)
      (simp add: Let_def worker_runnable_def loop_empty_def upd_wkr_def loop_busy_def loop_glob_def steal_rts_def worker_eval)
  from search_gives_up_when_done [OF this] run show ?thesis by blast
qed

end
