(* ===== verification/Global_State.thy ===== *)
theory Global_State
  imports Scheduling_Loop "HOL-Library.Signed_Division"
begin

section \<open>Settings and start-up (global\_state.cpp, os-unix.c, scheduler.c)\<close>

text \<open>
  The values a user can set through environment variables and \<^verbatim>\<open>__cilkrts_set_param\<close>, what the
  runtime computes from them, and the table of workers it builds. Strings are lists of
  characters without the terminating NUL. The number of processors, the answers of the
  tools and the environment are arguments.
\<close>

unbundle bit_operations_syntax

subsection \<open>strtol\<close>

text \<open>
  \<^verbatim>\<open>strtol(s, &end, 10)\<close>: white space, a sign, digits; the value saturates at the bounds of \<^verbatim>\<open>long\<close>
  and \<^verbatim>\<open>errno\<close> is set exactly then. A string without digits gives 0 and no error, as in the C
  library of GNU/Linux; POSIX permits an implementation to set \<^verbatim>\<open>EINVAL\<close> in this case.
\<close>

definition LONG_MAX :: int where "LONG_MAX = 2 ^ 63 - 1"
definition LONG_MIN :: int where "LONG_MIN = - (2 ^ 63)"
definition INT_MAX :: int where "INT_MAX = 2 ^ 31 - 1"

definition is_space :: "char \<Rightarrow> bool" where
  "is_space c \<longleftrightarrow> c = CHR '' '' \<or> (9 \<le> (of_char c :: nat) \<and> (of_char c :: nat) \<le> 13)"

definition is_digit :: "char \<Rightarrow> bool" where
  "is_digit c \<longleftrightarrow> 48 \<le> (of_char c :: nat) \<and> (of_char c :: nat) \<le> 57"

definition digit_val :: "char \<Rightarrow> int" where
  "digit_val c = int (of_char c) - 48"

definition digits_val :: "string \<Rightarrow> int" where
  "digits_val = foldl (\<lambda>a c. 10 * a + digit_val c) 0"

definition strtol :: "string \<Rightarrow> int \<times> bool" where
  "strtol s =
     (let s = dropWhile is_space s;
          (neg, s) = (case s of c # t \<Rightarrow> if c = CHR ''-'' then (True, t) else if c = CHR ''+'' then (False, t) else (False, s)
                      | [] \<Rightarrow> (False, s));
          v = digits_val (takeWhile is_digit s);
          v = (if neg then - v else v)
      in if v > LONG_MAX then (LONG_MAX, True) else if v < LONG_MIN then (LONG_MIN, True) else (v, False))"

subsection \<open>Reading a value\<close>

datatype set_param_t = SET_PARAM_SUCCESS | SET_PARAM_UNIMP | SET_PARAM_XRANGE | SET_PARAM_INVALID | SET_PARAM_LATE

text \<open>The second component is what is stored through \<^verbatim>\<open>out\<close>, if anything is.\<close>

definition store_bool :: "string option \<Rightarrow> set_param_t \<times> bool option" where
  "store_bool val =
     (case val of None \<Rightarrow> (SET_PARAM_INVALID, None)
      | Some v \<Rightarrow> if v = ''false'' \<or> v = ''0'' then (SET_PARAM_SUCCESS, Some False)
          else if v = ''true'' \<or> v = ''1'' then (SET_PARAM_SUCCESS, Some True)
          else (SET_PARAM_INVALID, None))"

definition store_int :: "string \<Rightarrow> int \<Rightarrow> int \<Rightarrow> set_param_t \<times> int option" where
  "store_int val lo hi =
     (let (val_as_long, errno) = strtol val
      in if val_as_long = 0 \<and> errno then (SET_PARAM_INVALID, None)
         else if val_as_long < lo \<or> val_as_long = LONG_MIN then (SET_PARAM_XRANGE, None)
         else if val_as_long > hi \<or> val_as_long = LONG_MAX then (SET_PARAM_XRANGE, None)
         else (SET_PARAM_SUCCESS, Some val_as_long))"

text \<open>\<^verbatim>\<open>cilkos_validate_stack_size\<close> of os-unix.c.\<close>

definition PAGE :: "64 word" where "PAGE = 4096"
definition CILK_MIN_STACK_SIZE :: "64 word" where "CILK_MIN_STACK_SIZE = 4 * PAGE"
definition CILK_DEFAULT_STACK_SIZE :: "64 word" where "CILK_DEFAULT_STACK_SIZE = 0x100000"

definition validate_stack_size :: "64 word \<Rightarrow> 64 word option" where
  "validate_stack_size sz =
     (if sz = 0 then do { cilk_assert (CILK_DEFAULT_STACK_SIZE mod PAGE = 0); Some CILK_DEFAULT_STACK_SIZE }
      else if sz \<le> CILK_MIN_STACK_SIZE then Some CILK_MIN_STACK_SIZE
      else if sz mod PAGE > 0 then Some (PAGE * (1 + sz div PAGE))
      else Some sz)"

subsection \<open>The settings\<close>

record settings =
  cfg_stealing_disabled :: bool
  under_ptool :: bool
  force_reduce :: bool
  nworkers :: int
  max_user_workers :: int
  fiber_pool_size :: int
  global_fiber_pool_size :: int
  max_stacks :: "32 word"
  cfg_max_steal_failures :: "32 word"
  stack_size :: "64 word"
  cfg_total_workers :: int

text \<open>
  What the code around answers: the number of processors, whether a sequential tool runs the
  program, whether it forces reductions, and the environment. \<open>stack_garbage\<close> is what the
  24 bytes of \<^verbatim>\<open>envstr\<close> hold before the first \<^verbatim>\<open>getenv\<close>.
\<close>

record host =
  hardware_cpu_count :: int
  running_under_sequential_ptool :: bool
  always_force_reduce :: bool
  getenv :: "string \<Rightarrow> string option"
  stack_garbage :: string

text \<open>
  \<^verbatim>\<open>cilkos_getenv(envstr, 24, varname)\<close>: the length it returns and what the buffer then holds. A value
  that does not fit is not copied, and the length is not 0.
\<close>

definition cilkos_getenv :: "host \<Rightarrow> string \<Rightarrow> nat \<Rightarrow> string \<Rightarrow> nat \<times> string" where
  "cilkos_getenv h buf vallen varname =
     (case getenv h varname of
        Some envstr \<Rightarrow> if length envstr > vallen - 1 then (length envstr + 1, buf) else (length envstr, envstr)
      | None \<Rightarrow> (0, []))"

definition set_from_env :: "host \<Rightarrow> string \<Rightarrow> int \<Rightarrow> int \<Rightarrow> int \<Rightarrow> string \<Rightarrow> int \<times> string" where
  "set_from_env h varname old lo hi buf =
     (let (n, buf) = cilkos_getenv h buf 24 varname
      in (if n \<noteq> 0 then (case snd (store_int buf lo hi) of Some v \<Rightarrow> v | None \<Rightarrow> old) else old, buf))"

definition calc_max_user_workers :: "settings \<Rightarrow> int" where
  "calc_max_user_workers g = (if max_user_workers g > 0 then max_user_workers g else max 3 (nworkers g * 2))"

definition calc_total_workers :: "settings \<Rightarrow> int" where
  "calc_total_workers g = nworkers g + calc_max_user_workers g - 1"

text \<open>The parts of \<^verbatim>\<open>cilkg_get_user_settable_values\<close> that read the environment, each with the buffer it leaves.\<close>

definition initial_force_reduce :: "host \<Rightarrow> bool \<times> string" where
  "initial_force_reduce h =
     (if always_force_reduce h then (True, stack_garbage h)
      else let (n, buf) = cilkos_getenv h (stack_garbage h) 24 ''CILK_FORCE_REDUCE''
           in (if n \<noteq> 0 then (case snd (store_bool (Some buf)) of Some b \<Rightarrow> b | None \<Rightarrow> False) else False, buf))"

definition initial_nworkers :: "host \<Rightarrow> int \<Rightarrow> string \<Rightarrow> int \<times> string" where
  "initial_nworkers h cpus buf =
     (if running_under_sequential_ptool h then (1, buf) else set_from_env h ''CILK_NWORKERS'' cpus 1 (16 * cpus) buf)"

text \<open>\<^verbatim>\<open>cilkg_get_user_settable_values\<close> on its first call (the replay log apart); \<open>sd\<close> is the field the debugger may have set.\<close>

definition get_user_settable_values :: "host \<Rightarrow> bool \<Rightarrow> settings option" where
  "get_user_settable_values h sd = do {
     cilk_assert (hardware_cpu_count h > 0);
     let cpus = (if running_under_sequential_ptool h then 1 else hardware_cpu_count h);
     let (fr, buf) = initial_force_reduce h;
     let (p, buf) = initial_nworkers h cpus buf;
     let (u, buf) = set_from_env h ''CILK_MAX_USER_WORKERS'' 0 1 (16 * cpus) buf;
     let (f, buf) = set_from_env h ''CILK_STEAL_FAILURES'' 128 1 INT_MAX buf;
     let g = \<lparr>cfg_stealing_disabled = sd, under_ptool = running_under_sequential_ptool h, force_reduce = fr, nworkers = p,
              max_user_workers = u, fiber_pool_size = 7, global_fiber_pool_size = 3 * 3 * cpus, max_stacks = 2400,
              cfg_max_steal_failures = word_of_int f, stack_size = 0, cfg_total_workers = 0\<rparr>;
     Some (g\<lparr>cfg_total_workers := calc_total_workers g\<rparr>) }"

text \<open>\<open>published\<close>: \<^verbatim>\<open>cilkg_singleton_ptr\<close> is not null.\<close>

definition set_param_imp ::
    "host \<Rightarrow> bool \<Rightarrow> string option \<Rightarrow> string option \<Rightarrow> settings \<Rightarrow> (set_param_t \<times> settings) option" where
  "set_param_imp h published param val g =
     (case (param, val) of (None, _) \<Rightarrow> Some (SET_PARAM_INVALID, g) | (_, None) \<Rightarrow> Some (SET_PARAM_INVALID, g)
      | (Some param, Some v) \<Rightarrow>
        if param = ''force reduce'' then
          (if always_force_reduce h then Some (SET_PARAM_LATE, g)
           else let (ret, b) = store_bool (Some v)
                in Some (ret, case b of Some b \<Rightarrow> g\<lparr>force_reduce := b\<rparr> | None \<Rightarrow> g))
        else if param = ''nworkers'' then
          (if published then Some (SET_PARAM_LATE, g)
           else do {
             let cpus = hardware_cpu_count h;
             cilk_assert (cpus > 0);
             let max_cpu_count = 16 * cpus;
             let (cpus, max_cpu_count) = (if running_under_sequential_ptool h then (1, 1) else (cpus, max_cpu_count));
             let (ret, p) = store_int v 0 max_cpu_count;
             let g = (case p of Some p \<Rightarrow> g\<lparr>nworkers := p\<rparr> | None \<Rightarrow> g);
             let g = (if nworkers g = 0 then g\<lparr>nworkers := cpus\<rparr> else g);
             Some (ret, g) })
        else if param = ''max user workers'' then do {
          cilk_assert (hardware_cpu_count h > 0);
          let (ret, p) = store_int v 1 (16 * hardware_cpu_count h);
          Some (ret, case p of Some p \<Rightarrow> g\<lparr>max_user_workers := p\<rparr> | None \<Rightarrow> g) }
        else if param = ''local stacks'' then
          (let (ret, p) = store_int v 0 42
           in Some (ret, case p of Some p \<Rightarrow> g\<lparr>fiber_pool_size := p\<rparr> | None \<Rightarrow> g))
        else if param = ''shared stacks'' then
          (let (ret, p) = store_int v 0 42
           in Some (ret, case p of Some p \<Rightarrow> g\<lparr>global_fiber_pool_size := p\<rparr> | None \<Rightarrow> g))
        else if param = ''nstacks'' then
          (if published then Some (SET_PARAM_LATE, g)
           else let (ret, p) = store_int v 0 INT_MAX
                in Some (ret, case p of Some p \<Rightarrow> g\<lparr>max_stacks := word_of_int p\<rparr> | None \<Rightarrow> g))
        else if param = ''stack size'' then
          (if published then Some (SET_PARAM_LATE, g)
           else do {
             let (ret, p) = store_int v 0 INT_MAX;
             let g = (case p of Some p \<Rightarrow> g\<lparr>stack_size := word_of_int p\<rparr> | None \<Rightarrow> g);
             sz \<leftarrow> validate_stack_size (stack_size g);
             Some (ret, g\<lparr>stack_size := sz\<rparr>) })
        else Some (SET_PARAM_UNIMP, g))"

subsection \<open>Initialisation\<close>

text \<open>\<^verbatim>\<open>cilkg_init_global_state\<close> before the state is published: the settings it corrects, and the fields the scheduler reads.\<close>

definition limit_stacks :: "settings \<Rightarrow> settings option" where
  "limit_stacks g =
     (if max_stacks g > 0 then do {
        cilk_assert (nworkers g \<noteq> 0);
        let g = (if sint (max_stacks g) sdiv nworkers g < fiber_pool_size g
                 then g\<lparr>fiber_pool_size := uint (max_stacks g div word_of_int (nworkers g))\<rparr> else g);
        let g = (if fiber_pool_size g \<le> 0 then g\<lparr>fiber_pool_size := 1\<rparr> else g);
        let g = (if sint (max_stacks g) < nworkers g then g\<lparr>max_stacks := word_of_int (nworkers g)\<rparr> else g);
        Some (g\<lparr>global_fiber_pool_size := nworkers g * (fiber_pool_size g + 1)\<rparr>) }
      else Some g)"

definition init_global_state :: "(int \<Rightarrow> wptr) \<Rightarrow> settings \<Rightarrow> (settings \<times> runtime_state) option" where
  "init_global_state wk g = do {
     g \<leftarrow> limit_stacks g;
     let g = g\<lparr>cfg_total_workers := calc_total_workers g\<rparr>;
     sz \<leftarrow> validate_stack_size (stack_size g);
     let g = g\<lparr>stack_size := sz\<rparr>;
     Some (g, \<lparr>total_workers = cfg_total_workers g, stealing_disabled = cfg_stealing_disabled g, workers = wk,
               P = nworkers g, Q = 0, work_done = False, max_steal_failures = cfg_max_steal_failures g\<rparr>) }"

text \<open>
  \<^verbatim>\<open>init_workers\<close>: what the allocator returned for the workers' deques and for the signal nodes is an
  argument (\<open>ltq_at\<close>, \<open>node_at\<close>, by worker number); the deques have 1024 slots.
\<close>

definition make_worker_system ::
    "wptr \<Rightarrow> nat \<Rightarrow> ('m, 'e) rts \<times> (nat \<Rightarrow> signal_node_t) \<Rightarrow> (('m, 'e) rts \<times> (nat \<Rightarrow> signal_node_t)) option" where
  "make_worker_system w nd sn = do {
     cilk_assert (wtype (wkh (fst sn) w) = WORKER_FREE);
     Some (upd_wk w (\<lambda>k. k\<lparr>wtype := WORKER_SYSTEM, signal_node := Some nd\<rparr>) (fst sn), (snd sn)(nd := signal_node_create)) }"

primrec make_workers :: "(int \<Rightarrow> wptr) \<Rightarrow> (int \<Rightarrow> nat) \<Rightarrow> nat \<Rightarrow> ('m, 'e) rts \<Rightarrow> ('m, 'e) rts" where
  "make_workers wk ltq_at 0 s = s"
| "make_workers wk ltq_at (Suc i) s =
     (let s = make_workers wk ltq_at i s in upd_wk (wk (int i)) (\<lambda>_. make_worker 1024 (int i) (ltq_at (int i))) s)"

primrec make_system_workers ::
    "(int \<Rightarrow> wptr) \<Rightarrow> (int \<Rightarrow> nat) \<Rightarrow> nat \<Rightarrow> ('m, 'e) rts \<times> (nat \<Rightarrow> signal_node_t) \<Rightarrow> (('m, 'e) rts \<times> (nat \<Rightarrow> signal_node_t)) option" where
  "make_system_workers wk node_at 0 sn = Some sn"
| "make_system_workers wk node_at (Suc i) sn =
     do { sn \<leftarrow> make_system_workers wk node_at i sn; make_worker_system (wk (int i)) (node_at (int i)) sn }"

definition init_workers ::
    "(int \<Rightarrow> nat) \<Rightarrow> (int \<Rightarrow> nat) \<Rightarrow> runtime_state \<Rightarrow> ('m, 'e) rts \<times> (nat \<Rightarrow> signal_node_t)
      \<Rightarrow> (('m, 'e) rts \<times> (nat \<Rightarrow> signal_node_t)) option" where
  "init_workers ltq_at node_at g sn =
     make_system_workers (workers g) node_at (nat (P g - 1))
       (make_workers (workers g) ltq_at (nat (total_workers g)) (fst sn), snd sn)"

subsection \<open>Stopping, suspending and resuming the system workers\<close>

text \<open>\<^verbatim>\<open>__cilkrts_stop_workers\<close> up to the joins with the threads (\<open>running\<close>: they were started).\<close>

definition stop_workers ::
    "bool \<Rightarrow> ('m, 'e) rts \<Rightarrow> runtime_state \<Rightarrow> (nat \<Rightarrow> signal_node_t) \<Rightarrow> (runtime_state \<times> (nat \<Rightarrow> signal_node_t)) option" where
  "stop_workers running s g nd =
     (let g = g\<lparr>work_done := True\<rparr>
      in if \<not> running then Some (g, nd)
         else if P g > 1 then do { nd \<leftarrow> msg_to s (workers g 0) 1 nd; Some (g, nd) }
         else Some (g, nd))"

text \<open>\<^verbatim>\<open>__cilkrts_suspend\<close> and \<^verbatim>\<open>__cilkrts_resume\<close> of cilk-abi.c, called on the thread of worker \<open>w\<close>.\<close>

definition cilkrts_suspend_runtime ::
    "runtime_state \<Rightarrow> wptr option \<Rightarrow> ('m, 'e) rts \<Rightarrow> (nat \<Rightarrow> signal_node_t) \<Rightarrow> (('m, 'e) rts \<times> (nat \<Rightarrow> signal_node_t)) option" where
  "cilkrts_suspend_runtime g w s nd =
     (if P g < 2 then Some (s, nd)
      else case w of None \<Rightarrow> Some (s, nd)
      | Some w \<Rightarrow> (case current_stack_frame (wkh s w) of None \<Rightarrow> Some (s, nd)
        | Some sf \<Rightarrow>
            if \<not> has_flag (flags (sfh s sf)) CILK_FRAME_LAST \<or> has_flag (flags (sfh s sf)) CILK_FRAME_UNSYNCHED
            then Some (s, nd)
            else do {
              let root = workers g 0;
              let s = upd_wk root (\<lambda>k. k\<lparr>steal_failure_count := max_steal_failures g + 1\<rparr>) s;
              nd \<leftarrow> msg_to s root 0 nd;
              Some (s, nd) }))"

definition cilkrts_resume_runtime ::
    "runtime_state \<Rightarrow> ('m, 'e) rts \<Rightarrow> (nat \<Rightarrow> signal_node_t) \<Rightarrow> (nat \<Rightarrow> signal_node_t) option" where
  "cilkrts_resume_runtime g s nd = (if P g < 2 then Some nd else msg_to s (workers g 0) 1 nd)"

subsection \<open>Decimal numbers\<close>

text \<open>How a number is written: the digits of its absolute value after an optional sign.\<close>

fun decimal :: "nat \<Rightarrow> string" where
  "decimal n = (if n < 10 then [char_of (48 + n)] else decimal (n div 10) @ [char_of (48 + n mod 10)])"

declare decimal.simps [simp del]

definition show_int :: "int \<Rightarrow> string" where
  "show_int v = (if v < 0 then CHR ''-'' # decimal (nat (- v)) else decimal (nat v))"

lemma digit_char: "n < 10 \<Longrightarrow> is_digit (char_of (48 + n)) \<and> digit_val (char_of (48 + n)) = int n"
  by (simp add: is_digit_def digit_val_def of_char_of)

lemma decimal_digits: "\<forall>c\<in>set (decimal n). is_digit c"
  by (induction n rule: decimal.induct) (subst decimal.simps, auto simp: digit_char)

lemma decimal_nonempty: "decimal n \<noteq> []"
  by (subst decimal.simps) simp

lemma digits_val_snoc: "digits_val (xs @ [c]) = 10 * digits_val xs + digit_val c"
  by (simp add: digits_val_def)

lemma digits_val_decimal: "digits_val (decimal n) = int n"
proof (induction n rule: decimal.induct)
  case (1 n)
  show ?case
  proof (cases "n < 10")
    case True
    then show ?thesis by (subst decimal.simps) (simp add: digits_val_def digit_char)
  next
    case False
    have "digits_val (decimal n) = 10 * int (n div 10) + int (n mod 10)"
      using False 1 by (subst decimal.simps) (simp add: digits_val_snoc digit_char)
    then show ?thesis by (simp add: zdiv_int zmod_int)
  qed
qed

lemma takeWhile_digits:
  assumes "rest = [] \<or> \<not> is_digit (hd rest)"
  shows "takeWhile is_digit (decimal n @ rest) = decimal n"
proof -
  have "takeWhile is_digit rest = []" using assms by (cases rest) auto
  then show ?thesis using decimal_digits [of n] by (simp add: takeWhile_append2)
qed

lemma digit_not_special: "is_digit c \<Longrightarrow> \<not> is_space c \<and> c \<noteq> CHR ''-'' \<and> c \<noteq> CHR ''+''"
  by (auto simp: is_digit_def is_space_def)

lemma strtol_show_int:
  assumes "\<forall>c\<in>set ws. is_space c" and "rest = [] \<or> \<not> is_digit (hd rest)" and "LONG_MIN \<le> v" and "v \<le> LONG_MAX"
  shows "strtol (ws @ show_int v @ rest) = (v, False)"
proof (cases "v < 0")
  case True
  have "dropWhile is_space (ws @ show_int v @ rest) = show_int v @ rest"
    using assms(1) True by (simp add: show_int_def is_space_def dropWhile_append2)
  then show ?thesis
    using True assms by (simp add: strtol_def show_int_def takeWhile_digits digits_val_decimal)
next
  case False
  obtain c cs where c: "decimal (nat v) = c # cs" "is_digit c"
    using decimal_nonempty [of "nat v"] decimal_digits [of "nat v"] by (cases "decimal (nat v)") auto
  then have "dropWhile is_space (ws @ show_int v @ rest) = c # cs @ rest"
    using assms(1) False digit_not_special [OF c(2)] by (simp add: show_int_def dropWhile_append2)
  moreover have "takeWhile is_digit (c # cs @ rest) = decimal (nat v)"
    using takeWhile_digits [OF assms(2), of "nat v"] c(1) by simp
  ultimately show ?thesis
    using False assms digit_not_special [OF c(2)] by (simp add: strtol_def digits_val_decimal)
qed

lemma strtol_errno: "strtol s = (v, True) \<Longrightarrow> v \<noteq> 0"
  by (auto simp: strtol_def Let_def LONG_MAX_def LONG_MIN_def split: prod.splits if_splits)

lemma store_int_cases:
  obtains (stored) v where "store_int val lo hi = (SET_PARAM_SUCCESS, Some v)" "lo \<le> v" "v \<le> hi"
  | (rejected) "store_int val lo hi = (SET_PARAM_XRANGE, None)"
proof -
  obtain v e where ve: "strtol val = (v, e)" by fastforce
  then have "\<not> (v = 0 \<and> e)" using strtol_errno [of val v] by auto
  then have "store_int val lo hi = (if v < lo \<or> v = LONG_MIN \<or> hi < v \<or> v = LONG_MAX then (SET_PARAM_XRANGE, None)
      else (SET_PARAM_SUCCESS, Some v))"
    using ve by (auto simp: store_int_def)
  then show ?thesis
    using stored [of v] rejected by (cases "v < lo \<or> v = LONG_MIN \<or> hi < v \<or> v = LONG_MAX") auto
qed

subsection \<open>The settings stay in range\<close>

text \<open>Stack sizes: whole pages, at least the minimum, and fixed once they are valid.\<close>

definition valid_stack_size :: "64 word \<Rightarrow> bool" where
  "valid_stack_size sz \<longleftrightarrow> CILK_MIN_STACK_SIZE \<le> sz \<and> sz mod PAGE = 0"

definition settings_ok :: "host \<Rightarrow> settings \<Rightarrow> bool" where
  "settings_ok h g \<longleftrightarrow> 1 \<le> nworkers g \<and> nworkers g \<le> 16 * hardware_cpu_count h \<and>
     0 \<le> max_user_workers g \<and> max_user_workers g \<le> 16 * hardware_cpu_count h \<and>
     uint (max_stacks g) \<le> INT_MAX \<and> 1 \<le> uint (cfg_max_steal_failures g) \<and> uint (cfg_max_steal_failures g) \<le> INT_MAX \<and>
     (stack_size g = 0 \<or> valid_stack_size (stack_size g)) \<and> uint (stack_size g) < 2 ^ 32"

lemma uint_word_of_int_small:
  "0 \<le> v \<Longrightarrow> v \<le> INT_MAX \<Longrightarrow> uint (word_of_int v :: 32 word) = v"
  "0 \<le> v \<Longrightarrow> v \<le> INT_MAX \<Longrightarrow> uint (word_of_int v :: 64 word) = v"
  by (simp_all add: INT_MAX_def uint_word_of_int_eq take_bit_int_eq_self)

lemma set_from_env_cases:
  obtains v buf' where "set_from_env h var old lo hi buf = (v, buf')" and "v = old \<or> lo \<le> v \<and> v \<le> hi"
  using that [OF surjective_pairing]
  by (cases "snd (cilkos_getenv h buf 24 var)" lo hi rule: store_int_cases)
    (auto simp: set_from_env_def split_beta Let_def)

lemma get_user_settable_values_ok:
  assumes "0 < hardware_cpu_count h"
  obtains g where "get_user_settable_values h sd = Some g" and "settings_ok h g"
proof -
  define cpus where "cpus = (if running_under_sequential_ptool h then 1 else hardware_cpu_count h)"
  have c: "1 \<le> cpus" "cpus \<le> hardware_cpu_count h" using assms by (auto simp: cpus_def)
  obtain fr b1 where r: "initial_force_reduce h = (fr, b1)" by fastforce
  obtain p b2 where p: "initial_nworkers h cpus b1 = (p, b2)" and p1: "1 \<le> p" "p \<le> 16 * hardware_cpu_count h"
  proof (cases "running_under_sequential_ptool h")
    case True
    then show ?thesis using that assms by (auto simp: initial_nworkers_def)
  next
    case False
    then show ?thesis
      using that c by (cases rule: set_from_env_cases [of h "''CILK_NWORKERS''" cpus 1 "16 * cpus" b1])
        (auto simp: initial_nworkers_def)
  qed
  obtain u b3 where u: "set_from_env h ''CILK_MAX_USER_WORKERS'' 0 1 (16 * cpus) b2 = (u, b3)"
    and u1: "0 \<le> u" "u \<le> 16 * hardware_cpu_count h"
    using c by (cases rule: set_from_env_cases [of h "''CILK_MAX_USER_WORKERS''" 0 1 "16 * cpus" b2]) auto
  obtain f b4 where f: "set_from_env h ''CILK_STEAL_FAILURES'' 128 1 INT_MAX b3 = (f, b4)"
    and f1: "1 \<le> f" "f \<le> INT_MAX"
    by (cases rule: set_from_env_cases [of h "''CILK_STEAL_FAILURES''" 128 1 INT_MAX b3]) (auto simp: INT_MAX_def)
  show ?thesis
  proof (rule that)
    show "get_user_settable_values h sd = Some (let g =
        \<lparr>cfg_stealing_disabled = sd, under_ptool = running_under_sequential_ptool h, force_reduce = fr, nworkers = p,
              max_user_workers = u, fiber_pool_size = 7, global_fiber_pool_size = 3 * 3 * cpus, max_stacks = 2400,
              cfg_max_steal_failures = word_of_int f, stack_size = 0, cfg_total_workers = 0\<rparr>
        in g\<lparr>cfg_total_workers := calc_total_workers g\<rparr>)"
      using assms by (simp add: get_user_settable_values_def cpus_def [symmetric] r p u f)
  qed (use p1 u1 f1 in \<open>simp add: settings_ok_def uint_word_of_int_small Let_def INT_MAX_def\<close>)
qed

lemmas stack_consts = PAGE_def CILK_MIN_STACK_SIZE_def CILK_DEFAULT_STACK_SIZE_def

lemma validate_valid: "valid_stack_size sz \<Longrightarrow> validate_stack_size sz = Some sz"
  by (auto simp: valid_stack_size_def validate_stack_size_def stack_consts)

lemma round_up_page:
  assumes "uint sz < 2 ^ 63"
  shows "uint (PAGE * (1 + sz div PAGE)) = 4096 * (1 + uint sz div 4096)"
proof -
  define q where "q = uint sz div 4096"
  have q: "0 \<le> q" "q < 2 ^ 51"
    using assms by (simp_all add: q_def div_less_iff_less_mult pos_imp_zdiv_nonneg_iff)
  have d: "uint (sz div PAGE) = q"
    by (simp add: PAGE_def uint_div_distrib q_def)
  have "uint (1 + sz div PAGE) = 1 + q"
    using q unfolding uint_word_ariths d by (simp add: mod_pos_pos_trivial)
  then show ?thesis
    using q unfolding uint_word_ariths q_def [symmetric] by (simp add: PAGE_def mod_pos_pos_trivial)
qed

lemma page_above: "(x::int) < 4096 * (1 + x div 4096)" "4096 * (1 + x div 4096) \<le> x + 4096"
  by presburger+

lemma validate_stack_size_ok:
  assumes "uint sz < 2 ^ 63"
  obtains sz' where "validate_stack_size sz = Some sz'" and "valid_stack_size sz'" and "uint sz' \<le> max 0x100000 (uint sz + 4096)"
proof -
  consider (zero) "sz = 0" | (small) "sz \<noteq> 0" "sz \<le> CILK_MIN_STACK_SIZE" | (page) "\<not> sz \<le> CILK_MIN_STACK_SIZE" "sz mod PAGE = 0"
    | (up) "\<not> sz \<le> CILK_MIN_STACK_SIZE" "sz mod PAGE \<noteq> 0" by blast
  then show ?thesis
  proof cases
    case zero
    then show ?thesis using that by (simp add: validate_stack_size_def valid_stack_size_def stack_consts)
  next
    case small
    then show ?thesis using that by (simp add: validate_stack_size_def valid_stack_size_def stack_consts)
  next
    case page
    then have "valid_stack_size sz" by (simp add: valid_stack_size_def)
    then show ?thesis using that [OF validate_valid] by simp
  next
    case up
    let ?r = "PAGE * (1 + sz div PAGE)"
    note r = round_up_page [OF assms]
    have "16384 < uint sz" using up(1) by (simp add: stack_consts word_le_def not_le)
    moreover note page_above [of "uint sz"]
    ultimately have "CILK_MIN_STACK_SIZE \<le> ?r" "uint ?r \<le> max 0x100000 (uint sz + 4096)"
      using r by (simp_all add: word_le_def stack_consts)
    moreover have "uint (?r mod PAGE) = 0"
      unfolding uint_mod_distrib r by (simp add: PAGE_def)
    then have "?r mod PAGE = 0" by (simp add: uint_0_iff)
    moreover have "validate_stack_size sz = Some ?r"
      using up by (auto simp: validate_stack_size_def word_gt_0 CILK_MIN_STACK_SIZE_def)
    ultimately show ?thesis using that by (simp add: valid_stack_size_def)
  qed
qed

text \<open>Every parameter, with whatever string for its value, leaves the settings in range.\<close>

lemma set_int_param:
  assumes "settings_ok h g" and "\<And>p. lo \<le> p \<Longrightarrow> p \<le> hi \<Longrightarrow> settings_ok h (f p g)"
  shows "settings_ok h (case snd (store_int v lo hi) of Some p \<Rightarrow> f p g | None \<Rightarrow> g)"
  using assms by (cases v lo hi rule: store_int_cases) auto

lemma set_nworkers_ok:
  assumes "settings_ok h g" and "0 < c" and "c \<le> hardware_cpu_count h" and "hi \<le> 16 * hardware_cpu_count h"
    and "g' = (case snd (store_int v 0 hi) of Some p \<Rightarrow> g\<lparr>nworkers := p\<rparr> | None \<Rightarrow> g)"
  shows "settings_ok h (if nworkers g' = 0 then g'\<lparr>nworkers := c\<rparr> else g')"
  using assms by (cases v "0::int" hi rule: store_int_cases) (auto simp: settings_ok_def)

lemma set_stack_size_ok:
  assumes "settings_ok h g" and "g' = (case snd (store_int v 0 INT_MAX) of Some p \<Rightarrow> g\<lparr>stack_size := word_of_int p\<rparr> | None \<Rightarrow> g)"
  obtains sz where "validate_stack_size (stack_size g') = Some sz" and "settings_ok h (g'\<lparr>stack_size := sz\<rparr>)"
proof (cases v "0::int" INT_MAX rule: store_int_cases)
  case (stored p)
  then have le: "uint (stack_size g') \<le> INT_MAX" using assms(2) by (simp add: uint_word_of_int_small)
  then have "uint (stack_size g') < 2 ^ 63" by (simp add: INT_MAX_def)
  then obtain sz where sz: "validate_stack_size (stack_size g') = Some sz" "valid_stack_size sz"
    "uint sz \<le> max 0x100000 (uint (stack_size g') + 4096)" by (rule validate_stack_size_ok)
  then have "uint sz < 2 ^ 32" using le by (simp add: INT_MAX_def)
  then show ?thesis using that [OF sz(1)] sz(2) assms stored by (simp add: settings_ok_def)
next
  case rejected
  then have g': "g' = g" using assms(2) by simp
  show ?thesis
  proof (cases "stack_size g = 0")
    case True
    have "validate_stack_size 0 = Some CILK_DEFAULT_STACK_SIZE" "valid_stack_size CILK_DEFAULT_STACK_SIZE"
      by (simp_all add: validate_stack_size_def valid_stack_size_def stack_consts)
    then show ?thesis using that assms(1) True g' by (simp add: settings_ok_def CILK_DEFAULT_STACK_SIZE_def)
  next
    case False
    then show ?thesis using that [of "stack_size g"] assms(1) g' validate_valid [of "stack_size g"] by (simp add: settings_ok_def)
  qed
qed

lemma set_param_ok:
  assumes hw: "0 < hardware_cpu_count h" and ok: "settings_ok h g"
  shows "\<exists>r g'. set_param_imp h pub param val g = Some (r, g') \<and> settings_ok h g'"
proof (cases "param = None \<or> val = None")
  case True
  then show ?thesis using ok by (cases param; cases val) (auto simp: set_param_imp_def)
next
  case False
  then obtain pa v where pv: "param = Some pa" "val = Some v" by auto
  note D = set_param_imp_def pv split_beta Let_def
  consider "pa = ''force reduce''" | "pa = ''nworkers''" | "pa = ''max user workers''" | "pa = ''local stacks''"
    | "pa = ''shared stacks''" | "pa = ''nstacks''" | "pa = ''stack size''"
    | "pa \<notin> {''force reduce'', ''nworkers'', ''max user workers'', ''local stacks'', ''shared stacks'', ''nstacks'', ''stack size''}"
    by auto
  then show ?thesis
  proof cases
    case 1
    then show ?thesis using ok by (simp add: D settings_ok_def split: option.split)
  next
    case 2
    then show ?thesis
      using ok hw set_nworkers_ok [OF ok, of 1 1 _ v, OF _ _ _ refl]
        set_nworkers_ok [OF ok, of "hardware_cpu_count h" "16 * hardware_cpu_count h" _ v, OF _ _ _ refl]
      by (cases "running_under_sequential_ptool h"; cases pub) (simp_all add: D split: if_splits)
  next
    case 3
    then show ?thesis using hw set_int_param [OF ok, of 1 "16 * hardware_cpu_count h" "\<lambda>p g. g\<lparr>max_user_workers := p\<rparr>" v] ok
      by (simp add: D settings_ok_def)
  next
    case 4
    then show ?thesis using set_int_param [OF ok, of 0 42 "\<lambda>p g. g\<lparr>fiber_pool_size := p\<rparr>" v] ok
      by (simp add: D settings_ok_def)
  next
    case 5
    then show ?thesis using set_int_param [OF ok, of 0 42 "\<lambda>p g. g\<lparr>global_fiber_pool_size := p\<rparr>" v] ok
      by (simp add: D settings_ok_def)
  next
    case 6
    then show ?thesis using set_int_param [OF ok, of 0 INT_MAX "\<lambda>p g. g\<lparr>max_stacks := word_of_int p\<rparr>" v] ok
      by (simp add: D settings_ok_def uint_word_of_int_small)
  next
    case 7
    obtain sz where "validate_stack_size (stack_size (case snd (store_int v 0 INT_MAX) of Some p \<Rightarrow> g\<lparr>stack_size := word_of_int p\<rparr> | None \<Rightarrow> g)) = Some sz"
      "settings_ok h ((case snd (store_int v 0 INT_MAX) of Some p \<Rightarrow> g\<lparr>stack_size := word_of_int p\<rparr> | None \<Rightarrow> g)\<lparr>stack_size := sz\<rparr>)"
      using set_stack_size_ok [OF ok refl] .
    with 7 show ?thesis using ok by (simp add: D)
  next
    case 8
    then show ?thesis using ok by (simp add: D)
  qed
qed

text \<open>A program's calls of \<^verbatim>\<open>__cilkrts_set_param\<close> before the runtime starts.\<close>

primrec set_params :: "host \<Rightarrow> (string option \<times> string option) list \<Rightarrow> settings \<Rightarrow> settings option" where
  "set_params h [] g = Some g"
| "set_params h (c # cs) g = do { (_, g) \<leftarrow> set_param_imp h False (fst c) (snd c) g; set_params h cs g }"

lemma set_params_ok:
  assumes "0 < hardware_cpu_count h" and "settings_ok h g"
  shows "\<exists>g'. set_params h cs g = Some g' \<and> settings_ok h g'"
  using assms(2)
proof (induction cs arbitrary: g)
  case (Cons c cs)
  obtain r g1 where "set_param_imp h False (fst c) (snd c) g = Some (r, g1)" "settings_ok h g1"
    using set_param_ok [OF assms(1) Cons.prems] by blast
  with Cons.IH show ?case by auto
qed auto

lemma limit_stacks_ok:
  assumes "settings_ok h g" and "hardware_cpu_count h \<le> 2 ^ 20"
  obtains g' where "limit_stacks g = Some g'" and "settings_ok h g'" and "nworkers g' = nworkers g"
    and "max_stacks g \<noteq> 0 \<Longrightarrow> 1 \<le> fiber_pool_size g' \<and> nworkers g \<le> uint (max_stacks g')"
proof (cases "max_stacks g = 0")
  case True
  then show ?thesis using that [of g] assms by (simp add: limit_stacks_def)
next
  case False
  have ms: "sint (max_stacks g) = uint (max_stacks g)"
    using assms(1) order_trans [OF _ uint_ge_0 [of "max_stacks g"], of "- (2 ^ 31)"] unfolding sint_uint
    by (intro signed_take_bit_int_eq_self) (simp_all add: settings_ok_def INT_MAX_def)
  have n: "1 \<le> nworkers g" "nworkers g \<le> INT_MAX"
    using assms by (simp_all add: settings_ok_def INT_MAX_def)
  define g1 where "g1 = (if sint (max_stacks g) sdiv nworkers g < fiber_pool_size g
                 then g\<lparr>fiber_pool_size := uint (max_stacks g div word_of_int (nworkers g))\<rparr> else g)"
  define g2 where "g2 = (if fiber_pool_size g1 \<le> 0 then g1\<lparr>fiber_pool_size := 1\<rparr> else g1)"
  define g3 where "g3 = (if sint (max_stacks g2) < nworkers g2 then g2\<lparr>max_stacks := word_of_int (nworkers g2)\<rparr> else g2)"
  define g4 where "g4 = g3\<lparr>global_fiber_pool_size := nworkers g3 * (fiber_pool_size g3 + 1)\<rparr>"
  have same: "nworkers g2 = nworkers g" "max_stacks g2 = max_stacks g" "1 \<le> fiber_pool_size g2" "settings_ok h g2"
    using assms(1) by (simp_all add: g2_def g1_def settings_ok_def)
  have "limit_stacks g = Some g4"
    using False n by (simp add: limit_stacks_def Let_def g4_def g3_def g2_def g1_def word_gt_0)
  moreover have "settings_ok h g4"
    using same n by (simp add: g4_def g3_def settings_ok_def uint_word_of_int_small)
  moreover have "1 \<le> fiber_pool_size g4 \<and> nworkers g \<le> uint (max_stacks g4)"
    using same n ms by (auto simp: g4_def g3_def uint_word_of_int_small)
  ultimately show ?thesis using that same by (simp add: g4_def g3_def)
qed

subsection \<open>The table of workers\<close>

lemma make_workers_wkh:
  assumes "inj_on wk {0..<int n}" and "i \<in> {0..<int n}"
  shows "wkh (make_workers wk ltq_at n s) (wk i) = make_worker 1024 i (ltq_at i)"
  using assms
proof (induction n)
  case (Suc n)
  show ?case
  proof (cases "i = int n")
    case False
    then have "i \<in> {0..<int n}" "wk i \<noteq> wk (int n)"
      using Suc.prems by (auto simp: inj_on_def)
    moreover have "inj_on wk {0..<int n}" using Suc.prems(1) by (rule inj_on_subset) auto
    ultimately show ?thesis using Suc.IH by (simp add: Let_def)
  qed (simp add: Let_def)
qed simp

lemma make_system_workers_run:
  assumes "inj_on wk {0..<m}" and "int n \<le> m" and "inj_on node_at {0..<int n}"
    and "\<And>i. i \<in> {0..<m} \<Longrightarrow> wtype (wkh s (wk i)) = WORKER_FREE"
  shows "\<exists>s' nd'. make_system_workers wk node_at n (s, nd) = Some (s', nd') \<and>
     (\<forall>i\<in>{0..<m}. wkh s' (wk i) = (if i < int n then (wkh s (wk i))\<lparr>wtype := WORKER_SYSTEM, signal_node := Some (node_at i)\<rparr>
        else wkh s (wk i))) \<and> (\<forall>i\<in>{0..<int n}. nd' (node_at i) = signal_node_create)"
  using assms(2,3)
proof (induction n)
  case (Suc n)
  have "inj_on node_at {0..<int n}" using Suc.prems(2) by (rule inj_on_subset) auto
  then obtain s' nd' where IH: "make_system_workers wk node_at n (s, nd) = Some (s', nd')"
     "\<forall>i\<in>{0..<m}. wkh s' (wk i) = (if i < int n then (wkh s (wk i))\<lparr>wtype := WORKER_SYSTEM, signal_node := Some (node_at i)\<rparr>
        else wkh s (wk i))" "\<forall>i\<in>{0..<int n}. nd' (node_at i) = signal_node_create"
    using Suc.IH Suc.prems(1) by auto
  have n: "int n \<in> {0..<m}" using Suc.prems(1) by simp
  then have free: "wtype (wkh s' (wk (int n))) = WORKER_FREE" using IH(2) assms(4) by simp
  let ?s = "upd_wk (wk (int n)) (\<lambda>k. k\<lparr>wtype := WORKER_SYSTEM, signal_node := Some (node_at (int n))\<rparr>) s'"
  have "wkh ?s (wk i) = (if i < int (Suc n) then (wkh s (wk i))\<lparr>wtype := WORKER_SYSTEM, signal_node := Some (node_at i)\<rparr>
        else wkh s (wk i))" if i: "i \<in> {0..<m}" for i
    using i n IH(2) inj_on_eq_iff [OF assms(1) i n] by (cases "i = int n") auto
  moreover have "(nd'(node_at (int n) := signal_node_create)) (node_at i) = signal_node_create" if "i \<in> {0..<int (Suc n)}" for i
    using that IH(3) by (cases "i = int n") auto
  ultimately show ?case
    using IH(1) free by (auto simp: make_worker_system_def)
qed simp

lemma make_worker_fields:
  "validate_worker (make_worker n i b) = Some ()" "\<not> do_not_steal (make_worker n i b)" "mutex_free (w_lock (make_worker n i b))"
  "idle_worker (make_worker n i b)" "self (make_worker n i b) = i" "wtype (make_worker n i b) = WORKER_FREE"
  "\<not> can_steal_from (make_worker n i b)"
  by (simp_all add: worker_eval mutex_init_def validate_worker_def idle_worker_def can_steal_from_def)

subsection \<open>Properties\<close>

text \<open>C28: Whatever the environment holds and whatever strings a program passes to \<^verbatim>\<open>__cilkrts_set_param\<close>, reading the
  settings and initialising the global state succeed, and these results are in range: at least one
  worker and at most 16 for each processor, a table of workers with room for them that fits an \<^verbatim>\<open>int\<close>, a positive
  number of steal failures that survives the doubling in the scheduler, a stack size of whole
  pages. When the number of stacks is limited (\<open>max_stacks\<close> is not 0) there is also a slot in the pool of every worker and a stack for every
  worker; when it is not, the number of slots is what the program set, and it may be 0.\<close>

theorem settings_always_valid:
  assumes "0 < hardware_cpu_count h" and "hardware_cpu_count h \<le> 2 ^ 20"
  shows "\<exists>g g' g'' rt. get_user_settable_values h sd = Some g \<and> set_params h calls g = Some g' \<and>
     init_global_state wk g' = Some (g'', rt) \<and>
     1 \<le> P rt \<and> P rt \<le> 16 * hardware_cpu_count h \<and> P rt \<le> total_workers rt \<and> total_workers rt \<le> 2 ^ 31 - 1 \<and>
     0 < unat (max_steal_failures rt) \<and> unat (max_steal_failures rt) < 2 ^ 31 \<and> valid_stack_size (stack_size g'') \<and>
     (max_stacks g' = 0 \<or> 1 \<le> fiber_pool_size g'' \<and> P rt \<le> uint (max_stacks g''))"
proof -
  obtain g where g: "get_user_settable_values h sd = Some g" "settings_ok h g"
    using assms(1) by (rule get_user_settable_values_ok)
  obtain g' where g': "set_params h calls g = Some g'" "settings_ok h g'"
    using set_params_ok [OF assms(1) g(2)] by blast
  obtain g1 where g1: "limit_stacks g' = Some g1" "settings_ok h g1" "nworkers g1 = nworkers g'"
    and pool: "max_stacks g' \<noteq> 0 \<Longrightarrow> 1 \<le> fiber_pool_size g1 \<and> nworkers g' \<le> uint (max_stacks g1)"
    using limit_stacks_ok [OF g'(2) assms(2)] by blast
  have "uint (stack_size g1) < 2 ^ 63" using g1(2) by (simp add: settings_ok_def)
  then obtain sz where sz: "validate_stack_size (stack_size g1) = Some sz" "valid_stack_size sz" by (rule validate_stack_size_ok)
  define g'' where "g'' = g1\<lparr>cfg_total_workers := calc_total_workers g1, stack_size := sz\<rparr>"
  define rt where "rt = \<lparr>total_workers = calc_total_workers g1, stealing_disabled = cfg_stealing_disabled g1, workers = wk,
       P = nworkers g1, Q = 0, work_done = False, max_steal_failures = cfg_max_steal_failures g1\<rparr>"
  have run: "init_global_state wk g' = Some (g'', rt)"
    using g1(1) sz(1) by (simp add: init_global_state_def g''_def rt_def)
  have n: "1 \<le> nworkers g1" "nworkers g1 \<le> 16 * hardware_cpu_count h" "max_user_workers g1 \<le> 16 * hardware_cpu_count h"
      "1 \<le> uint (cfg_max_steal_failures g1)" "uint (cfg_max_steal_failures g1) \<le> INT_MAX"
    using g1(2) by (simp_all add: settings_ok_def)
  have h3: "3 \<le> 32 * hardware_cpu_count h" using assms(1) by linarith
  have u: "1 \<le> calc_max_user_workers g1" "calc_max_user_workers g1 \<le> 32 * hardware_cpu_count h"
    using n(1-3) h3 by (cases "0 < max_user_workers g1"; cases "3 \<le> nworkers g1 * 2"; simp add: calc_max_user_workers_def max_def)+
  define m where "m = unat (max_steal_failures rt)"
  have "1 \<le> int m" "int m \<le> INT_MAX"
    using n(4,5) by (simp_all add: rt_def m_def)
  then have f: "0 < unat (max_steal_failures rt)" "unat (max_steal_failures rt) < 2 ^ 31"
    unfolding m_def [symmetric] by (simp_all add: INT_MAX_def)
  have "1 \<le> P rt \<and> P rt \<le> 16 * hardware_cpu_count h \<and> P rt \<le> total_workers rt \<and> total_workers rt \<le> 2 ^ 31 - 1"
    using n(1,2) u assms(2) by (simp add: rt_def calc_total_workers_def)
  moreover have "max_stacks g' = 0 \<or> 1 \<le> fiber_pool_size g'' \<and> P rt \<le> uint (max_stacks g'')"
    using pool g1(3) by (auto simp: g''_def rt_def)
  moreover have "valid_stack_size (stack_size g'')" using sz(2) by (simp add: g''_def)
  ultimately show ?thesis using g(1) g'(1) run f by blast
qed

text \<open>An integer setting that is written in decimal, with white space before it and anything but a digit
  after it, is read back as the number that was written whenever it lies in the allowed range.\<close>

theorem store_int_roundtrip:
  assumes "\<forall>c\<in>set ws. is_space c" and "rest = [] \<or> \<not> is_digit (hd rest)"
    and "lo \<le> v" and "v \<le> hi" and "LONG_MIN < v" and "v < LONG_MAX"
  shows "store_int (ws @ show_int v @ rest) lo hi = (SET_PARAM_SUCCESS, Some v)"
  using assms strtol_show_int [OF assms(1,2), of v] by (simp add: store_int_def)

text \<open>C38: A value of \<^verbatim>\<open>CILK_MAX_USER_WORKERS\<close> of more than 23 characters is not read: the number of user workers is then taken
  from the value of \<^verbatim>\<open>CILK_NWORKERS\<close>, which the buffer still holds.\<close>

theorem long_env_value_reads_stale_buffer:
  assumes "\<not> running_under_sequential_ptool h" and "getenv h ''CILK_NWORKERS'' = Some (show_int n)" and "length (show_int n) \<le> 23"
    and "1 \<le> n" and "n \<le> 16 * hardware_cpu_count h" and "hardware_cpu_count h \<le> 2 ^ 20"
    and "getenv h ''CILK_MAX_USER_WORKERS'' = Some val" and "23 < length val"
  shows "\<exists>g. get_user_settable_values h sd = Some g \<and> nworkers g = n \<and> max_user_workers g = n"
proof -
  have ne: "show_int n \<noteq> []" by (simp add: show_int_def decimal_nonempty)
  have si: "store_int (show_int n) 1 (16 * hardware_cpu_count h) = (SET_PARAM_SUCCESS, Some n)"
    using strtol_show_int [of "[]" "[]" n] assms(4-6) by (simp add: store_int_def LONG_MAX_def LONG_MIN_def)
  obtain fr b1 where r: "initial_force_reduce h = (fr, b1)" by fastforce
  have p: "initial_nworkers h (hardware_cpu_count h) b1 = (n, show_int n)"
    using assms(1-3) ne si by (simp add: initial_nworkers_def set_from_env_def cilkos_getenv_def)
  have u: "set_from_env h ''CILK_MAX_USER_WORKERS'' 0 1 (16 * hardware_cpu_count h) (show_int n) = (n, show_int n)"
    using assms(7,8) si by (simp add: set_from_env_def cilkos_getenv_def)
  show ?thesis
    using assms(1,4,5) r p u by (simp add: get_user_settable_values_def Let_def split_beta)
qed

text \<open>\<^verbatim>\<open>init_workers\<close> fails no assertion and builds the table the scheduler relies on: worker \<open>i\<close> has number \<open>i\<close>, a
  free lock and an empty deque nobody can steal from; the first \<open>P - 1\<close> are system workers, each with its own signal node that says
  wait; the others are free for user threads.\<close>

theorem init_workers_table:
  assumes "inj_on (workers g) {0..<total_workers g}" and "inj_on node_at {0..<P g - 1}" and "1 \<le> P g" and "P g \<le> total_workers g"
  shows "\<exists>s' nd'. init_workers ltq_at node_at g (s, nd) = Some (s', nd') \<and>
     (\<forall>i\<in>{0..<total_workers g}. let k = wkh s' (workers g i) in
        self k = i \<and> idle_worker k \<and> \<not> can_steal_from k \<and>
        (if i < P g - 1 then wtype k = WORKER_SYSTEM \<and> signal_node k = Some (node_at i) \<and> nd' (node_at i) = signal_node_create
         else wtype k = WORKER_FREE \<and> signal_node k = None))"
proof -
  let ?s = "make_workers (workers g) ltq_at (nat (total_workers g)) s"
  have mk: "wkh ?s (workers g i) = make_worker 1024 i (ltq_at i)" if "i \<in> {0..<total_workers g}" for i
    using make_workers_wkh [of "workers g" "nat (total_workers g)" i] that assms by simp
  obtain s' nd' where run: "make_system_workers (workers g) node_at (nat (P g - 1)) (?s, nd) = Some (s', nd')"
    and tab: "\<forall>i\<in>{0..<total_workers g}. wkh s' (workers g i) =
       (if i < int (nat (P g - 1)) then (wkh ?s (workers g i))\<lparr>wtype := WORKER_SYSTEM, signal_node := Some (node_at i)\<rparr>
        else wkh ?s (workers g i))"
    and nodes: "\<forall>i\<in>{0..<int (nat (P g - 1))}. nd' (node_at i) = signal_node_create"
    using make_system_workers_run [of "workers g" "total_workers g" "nat (P g - 1)" node_at ?s nd] assms mk
    by (auto simp: make_worker_fields)
  have "let k = wkh s' (workers g i) in self k = i \<and> idle_worker k \<and> \<not> can_steal_from k \<and>
        (if i < P g - 1 then wtype k = WORKER_SYSTEM \<and> signal_node k = Some (node_at i) \<and> nd' (node_at i) = signal_node_create
         else wtype k = WORKER_FREE \<and> signal_node k = None)" if i: "i \<in> {0..<total_workers g}" for i
    using tab [rule_format, OF i] nodes i assms(3) mk [OF i]
    by (auto simp: Let_def worker_eval idle_worker_def can_steal_from_def validate_worker_def mutex_init_def)
  then show ?thesis using run by (auto simp: init_workers_def)
qed

text \<open>C29: Suspending the runtime from a synched top-level frame makes the root worker rest at its next look, whatever its
  failure count was; resuming lets it run again and leaves a signal for it.\<close>

theorem suspend_resume_root:
  assumes "2 \<le> P g" and "current_stack_frame (wkh s w) = Some sf" and "has_flag (flags (sfh s sf)) CILK_FRAME_LAST"
    and "\<not> has_flag (flags (sfh s sf)) CILK_FRAME_UNSYNCHED" and "r = workers g 0" and "self (wkh s r) = 0"
    and "next_frame_ff (wkh s r) = None" and "\<not> work_done g" and "signal_node (wkh s r) = Some n"
    and "max_steal_failures g < - 1"
  shows "\<exists>s' nd1 nd2. cilkrts_suspend_runtime g (Some w) s nd = Some (s', nd1) \<and>
     worker_runnable g nd1 r s' = Some (SCHEDULE_WAIT, s') \<and>
     cilkrts_resume_runtime g s' nd1 = Some nd2 \<and> sem (nd2 n) = sem (nd n) + 1 \<and>
     worker_runnable g nd2 r s' = Some (SCHEDULE_RUN, upd_wk r (\<lambda>k. k\<lparr>steal_failure_count := 0\<rparr>) s')"
proof -
  define s' where "s' = upd_wk r (\<lambda>k. k\<lparr>steal_failure_count := max_steal_failures g + 1\<rparr>) s"
  define nd1 where "nd1 = nd(n := (nd n)\<lparr>run := 0\<rparr>)"
  define nd2 where "nd2 = nd1(n := signal_cilk_semaphore ((nd1 n)\<lparr>run := 1\<rparr>))"
  have lt: "max_steal_failures g < max_steal_failures g + 1"
    using assms(10) uint_ge_0 [of "max_steal_failures g"]
    by (simp add: word_less_def uint_word_ariths mod_pos_pos_trivial)
  have "cilkrts_suspend_runtime g (Some w) s nd = Some (s', nd1)"
    using assms by (simp add: cilkrts_suspend_runtime_def msg_to_def signal_node_msg_def s'_def nd1_def)
  moreover have "cilkrts_resume_runtime g s' nd1 = Some nd2"
    using assms by (simp add: cilkrts_resume_runtime_def msg_to_def signal_node_msg_def s'_def nd2_def)
  moreover have "worker_runnable g nd1 r s' = Some (SCHEDULE_WAIT, s')"
    "worker_runnable g nd2 r s' = Some (SCHEDULE_RUN, upd_wk r (\<lambda>k. k\<lparr>steal_failure_count := 0\<rparr>) s')"
    using assms lt by (simp_all add: worker_runnable_def s'_def nd1_def nd2_def signal_node_should_wait_def signal_cilk_semaphore_def)
  moreover have "sem (nd2 n) = sem (nd n) + 1" by (simp add: nd2_def nd1_def signal_cilk_semaphore_def)
  ultimately show ?thesis by blast
qed

subsection \<open>Witnesses\<close>

text \<open>A machine with four processors. In \<open>host_long\<close> the second variable is too long for the buffer.\<close>

definition host4 :: host where
  "host4 = \<lparr>hardware_cpu_count = 4, running_under_sequential_ptool = False, always_force_reduce = False,
     getenv = (\<lambda>_. None), stack_garbage = ''junk''\<rparr>"

definition host_long :: host where
  "host_long = host4\<lparr>getenv := [''CILK_NWORKERS'' \<mapsto> show_int 8, ''CILK_MAX_USER_WORKERS'' \<mapsto> replicate 30 (CHR '' '')]\<rparr>"

theorem settings_always_valid_witness:
  "\<exists>g g' g'' rt. get_user_settable_values host4 False = Some g \<and>
     set_params host4 [(Some ''nworkers'', Some ''0''), (Some ''stack size'', Some ''5000'')] g = Some g' \<and>
     init_global_state nat g' = Some (g'', rt) \<and> 1 \<le> P rt \<and> P rt \<le> 64 \<and> valid_stack_size (stack_size g'')"
  using settings_always_valid [of host4 False "[(Some ''nworkers'', Some ''0''), (Some ''stack size'', Some ''5000'')]" nat]
  by (auto simp: host4_def)

theorem store_int_roundtrip_witness:
  "store_int ('' '' @ show_int 12 @ '' workers'') 1 64 = (SET_PARAM_SUCCESS, Some 12)"
  by (rule store_int_roundtrip) (simp_all add: is_space_def is_digit_def LONG_MIN_def LONG_MAX_def)

lemma show_int_8: "show_int 8 = ''8''"
  by code_simp

theorem long_env_value_reads_stale_buffer_witness:
  "\<exists>g. get_user_settable_values host_long False = Some g \<and> nworkers g = 8 \<and> max_user_workers g = 8"
  by (rule long_env_value_reads_stale_buffer [where val = "replicate 30 (CHR '' '')"]) (simp_all add: host_long_def host4_def show_int_8)

theorem init_workers_table_witness:
  "\<exists>s' nd'. init_workers (\<lambda>i. nat i * 2000 + 1) nat (loop_glob\<lparr>total_workers := 4\<rparr>) (mem loop_busy, \<lambda>_. \<lparr>run = 7, sem = 7\<rparr>) = Some (s', nd') \<and>
     wtype (wkh s' 1) = WORKER_SYSTEM \<and> wtype (wkh s' 2) = WORKER_FREE \<and> nd' 1 = signal_node_create"
proof -
  let ?g = "loop_glob\<lparr>total_workers := 4\<rparr>"
  have i: "inj_on (workers ?g) {0..<total_workers ?g}" "inj_on nat {0..<P ?g - 1}" "1 \<le> P ?g" "P ?g \<le> total_workers ?g"
    by (auto simp: loop_glob_def inj_on_def)
  from init_workers_table [OF i, of "\<lambda>i. nat i * 2000 + 1" "mem loop_busy" "\<lambda>_. \<lparr>run = 7, sem = 7\<rparr>"] obtain s' nd'
    where run: "init_workers (\<lambda>i. nat i * 2000 + 1) nat ?g (mem loop_busy, \<lambda>_. \<lparr>run = 7, sem = 7\<rparr>) = Some (s', nd')"
    and tab: "\<forall>i\<in>{0..<total_workers ?g}. let k = wkh s' (workers ?g i) in
        self k = i \<and> idle_worker k \<and> \<not> can_steal_from k \<and>
        (if i < P ?g - 1 then wtype k = WORKER_SYSTEM \<and> signal_node k = Some (nat i) \<and> nd' (nat i) = signal_node_create
         else wtype k = WORKER_FREE \<and> signal_node k = None)" by blast
  have "wtype (wkh s' 1) = WORKER_SYSTEM \<and> nd' 1 = signal_node_create" "wtype (wkh s' 2) = WORKER_FREE"
    using tab [rule_format, of 1] tab [rule_format, of 2] by (simp_all add: loop_glob_def Let_def)
  with run show ?thesis by blast
qed

theorem suspend_resume_root_witness:
  "\<exists>s' nd1. cilkrts_suspend_runtime loop_glob (Some 1)
       (upd_sf 10 (\<lambda>f. f\<lparr>flags := CILK_FRAME_LAST\<rparr>) (upd_wk 1 (\<lambda>k. k\<lparr>current_stack_frame := Some 10\<rparr>) (mem loop_busy)))
       (\<lambda>_. signal_node_create) = Some (s', nd1) \<and>
     worker_runnable loop_glob nd1 0 s' = Some (SCHEDULE_WAIT, s')"
proof -
  let ?s = "upd_sf 10 (\<lambda>f. f\<lparr>flags := CILK_FRAME_LAST\<rparr>) (upd_wk 1 (\<lambda>k. k\<lparr>current_stack_frame := Some 10\<rparr>) (mem loop_busy))"
  have "2 \<le> P loop_glob" "current_stack_frame (wkh ?s 1) = Some 10" "has_flag (flags (sfh ?s 10)) CILK_FRAME_LAST"
    "\<not> has_flag (flags (sfh ?s 10)) CILK_FRAME_UNSYNCHED" "0 = workers loop_glob 0" "self (wkh ?s 0) = 0"
    "next_frame_ff (wkh ?s 0) = None" "\<not> work_done loop_glob" "signal_node (wkh ?s 0) = Some 0" "max_steal_failures loop_glob < - 1"
    by (simp_all add: loop_glob_def loop_busy_def steal_rts_def worker_eval has_flag_def frame_flag_defs)
  from suspend_resume_root [OF this, of "\<lambda>_. signal_node_create"] show ?thesis by blast
qed

end
