(* ===== verification/Fiber_Pool.thy ===== *)
theory Fiber_Pool
  imports Global_State
begin

section \<open>Fibers and their pools (cilk\_fiber.cpp, cilk\_fiber-unix.cpp)\<close>

text \<open>
  A fiber is a stack and the little the runtime keeps about it; a pool is an array of fibers that are not in use,
  a count of the fibers it took from the heap, and a parent pool. Fibers and pools are named by their addresses;
  \<open>None\<close> as a result is a failed assertion, a use of a fiber that was freed, or a lock that is never released.
  The slots of a pool's array that are in use are a list (the last element is on top); a lock is held or free. An operation is
  composed of the sections between which the code holds no lock of a shared pool (\<open>look_in_pool\<close>, \<open>undo_allocation\<close>,
  \<open>put_local\<close>, \<open>move_locked\<close>, \<open>put_last\<close>); the theory \<open>Fiber_Steps\<close> interleaves the sections of the workers. Fibers are
  not reference counted on Unix, so \<^verbatim>\<open>dec_ref_count\<close> is the constant 0. A context switch is \<open>switch_to\<close>, the changes that are made
  before the jump; what the fiber that runs after it does first is \<open>do_post_switch_actions\<close>.
\<close>

unbundle bit_operations_syntax

record fiber_pool =
  fp_lock :: "bool option"
  fp_parent :: "nat option"
  fp_stack_size :: "64 word"
  fp_fibers :: "nat list"
  fp_max_size :: "32 word"
  fp_total :: int
  fp_high_water :: int
  fp_alloc_max :: int

record cilk_fiber =
  fb_stack_size :: "64 word"
  fb_owner :: "nat option"
  m_start_proc :: "nat option"
  m_post_switch_proc :: "nat option"
  m_pending_remove_ref :: "nat option"
  m_pending_pool :: "nat option"
  m_flags :: "32 word"

record fibers_state =
  pools :: "nat \<Rightarrow> fiber_pool"
  fibs :: "nat \<Rightarrow> cilk_fiber option"

definition RESUMABLE :: "32 word" where "RESUMABLE = 1"
definition ALLOCATED_FROM_THREAD :: "32 word" where "ALLOCATED_FROM_THREAD = 2"

definition is_resumable :: "cilk_fiber \<Rightarrow> bool" where
  "is_resumable f \<longleftrightarrow> m_flags f AND RESUMABLE \<noteq> 0"

definition set_resumable :: "bool \<Rightarrow> cilk_fiber \<Rightarrow> cilk_fiber" where
  "set_resumable b f = f\<lparr>m_flags := (if b then m_flags f OR RESUMABLE else m_flags f AND NOT RESUMABLE)\<rparr>"

definition is_allocated_from_thread :: "cilk_fiber \<Rightarrow> bool" where
  "is_allocated_from_thread f \<longleftrightarrow> m_flags f AND ALLOCATED_FROM_THREAD \<noteq> 0"

definition upd_pool :: "nat \<Rightarrow> (fiber_pool \<Rightarrow> fiber_pool) \<Rightarrow> fibers_state \<Rightarrow> fibers_state" where
  "upd_pool p g s = s\<lparr>pools := (pools s)(p := g (pools s p))\<rparr>"

definition upd_fiber :: "nat \<Rightarrow> (cilk_fiber \<Rightarrow> cilk_fiber) \<Rightarrow> fibers_state \<Rightarrow> fibers_state option" where
  "upd_fiber f g s = (case fibs s f of None \<Rightarrow> None | Some x \<Rightarrow> Some (s\<lparr>fibs := (fibs s)(f \<mapsto> g x)\<rparr>))"

definition pool_size :: "nat \<Rightarrow> fibers_state \<Rightarrow> nat" where
  "pool_size p s = length (fp_fibers (pools s p))"

subsection \<open>Locks and counts\<close>

definition fp_mutex_lock :: "nat \<Rightarrow> fibers_state \<Rightarrow> fibers_state option" where
  "fp_mutex_lock p s = (if fp_lock (pools s p) = Some False then Some (upd_pool p (\<lambda>q. q\<lparr>fp_lock := Some True\<rparr>) s) else None)"

definition fp_mutex_unlock :: "nat \<Rightarrow> fibers_state \<Rightarrow> fibers_state option" where
  "fp_mutex_unlock p s = (if fp_lock (pools s p) = Some True then Some (upd_pool p (\<lambda>q. q\<lparr>fp_lock := Some False\<rparr>) s) else None)"

definition lock_if_shared :: "nat \<Rightarrow> fibers_state \<Rightarrow> fibers_state option" where
  "lock_if_shared p s = (if fp_lock (pools s p) = None then Some s else fp_mutex_lock p s)"

definition unlock_if_shared :: "nat \<Rightarrow> fibers_state \<Rightarrow> fibers_state option" where
  "unlock_if_shared p s = (if fp_lock (pools s p) = None then Some s else fp_mutex_unlock p s)"

definition increment_pool_total :: "nat \<Rightarrow> fibers_state \<Rightarrow> fibers_state" where
  "increment_pool_total p = upd_pool p (\<lambda>q.
     let q = q\<lparr>fp_total := fp_total q + 1\<rparr>
     in if fp_high_water q < fp_total q then q\<lparr>fp_high_water := fp_total q\<rparr> else q)"

definition decrement_pool_total :: "nat \<Rightarrow> int \<Rightarrow> fibers_state \<Rightarrow> fibers_state" where
  "decrement_pool_total p fibers_freed = upd_pool p (\<lambda>q. q\<lparr>fp_total := fp_total q - fibers_freed\<rparr>)"

subsection \<open>Freeing and moving fibers\<close>

definition deallocate_to_heap :: "nat \<Rightarrow> fibers_state \<Rightarrow> fibers_state option" where
  "deallocate_to_heap f s = (if fibs s f = None then None else Some (s\<lparr>fibs := (fibs s)(f := None)\<rparr>))"

fun free_all :: "nat list \<Rightarrow> fibers_state \<Rightarrow> fibers_state option" where
  "free_all [] s = Some s"
| "free_all (f # fs) s = Option.bind (deallocate_to_heap f s) (free_all fs)"

text \<open>The inner loop of stage 2: at most \<open>b\<close> fibers are taken from the top, and \<open>num_to_keep\<close> stay.\<close>

fun grab_fibers :: "nat \<Rightarrow> nat \<Rightarrow> nat list \<Rightarrow> nat list \<times> nat list" where
  "grab_fibers 0 num_to_keep fs = ([], fs)"
| "grab_fibers (Suc b) num_to_keep fs =
     (if length fs > num_to_keep then
        let (freed, rest) = grab_fibers b num_to_keep (butlast fs) in (last fs # freed, rest)
      else ([], fs))"

partial_function (option) pool_free_fibers :: "nat \<Rightarrow> 32 word \<Rightarrow> nat option \<Rightarrow> fibers_state \<Rightarrow> fibers_state option" where
  "pool_free_fibers p num_to_keep fiber_to_return s =
     Option.bind (lock_if_shared p s) (\<lambda>s.
     let (fibers_to_free, rest) = grab_fibers 10 (unat num_to_keep) (fp_fibers (pools s p));
         s = upd_pool p (\<lambda>q. q\<lparr>fp_fibers := rest\<rparr>) s;
         s = decrement_pool_total p (int (length fibers_to_free)) s;
         last_fiber_returned = (pool_size p s \<le> unat num_to_keep)
     in Option.bind
          (if last_fiber_returned then
             (case fiber_to_return of None \<Rightarrow> Some s
              | Some f \<Rightarrow> if pool_size p s < unat (fp_max_size (pools s p))
                         then Some (upd_pool p (\<lambda>q. q\<lparr>fp_fibers := fp_fibers q @ [f]\<rparr>) s) else None)
           else Some s) (\<lambda>s.
        Option.bind (unlock_if_shared p s) (\<lambda>s.
        Option.bind (free_all fibers_to_free s) (\<lambda>s.
          if last_fiber_returned then Some s else pool_free_fibers p num_to_keep fiber_to_return s))))"

text \<open>The loop of a transfer, on the arrays of the child and of the parent.\<close>

function fiber_move_loop :: "nat \<Rightarrow> nat \<Rightarrow> nat list \<Rightarrow> nat list \<Rightarrow> nat list \<times> nat list" where
  "fiber_move_loop num_to_keep parent_max fs parent_fs =
     (if length parent_fs < parent_max \<and> length fs > num_to_keep
      then fiber_move_loop num_to_keep parent_max (butlast fs) (parent_fs @ [last fs])
      else (fs, parent_fs))"
  by auto
termination by (relation "measure (\<lambda>(k, c, fs, ps). length fs)") auto

declare fiber_move_loop.simps [simp del]

text \<open>The parent's size is read without its lock, so by the time the lock is held the parent may be full after all; the loop tests again.\<close>

definition parent_full :: "nat \<Rightarrow> fibers_state \<Rightarrow> bool option" where
  "parent_full p s = do {
     parent_pool \<leftarrow> fp_parent (pools s p);
     Some (pool_size parent_pool s \<ge> unat (fp_max_size (pools s parent_pool))) }"

definition move_locked :: "nat \<Rightarrow> nat \<Rightarrow> fibers_state \<Rightarrow> fibers_state option" where
  "move_locked p num_to_keep s = do {
     parent_pool \<leftarrow> fp_parent (pools s p);
     s \<leftarrow> fp_mutex_lock parent_pool s;
     let (fs, parent_fs) = fiber_move_loop num_to_keep (unat (fp_max_size (pools s parent_pool)))
                             (fp_fibers (pools s p)) (fp_fibers (pools s parent_pool));
     let s = upd_pool p (\<lambda>q. q\<lparr>fp_fibers := fs\<rparr>) s;
     let s = upd_pool parent_pool (\<lambda>q. q\<lparr>fp_fibers := parent_fs\<rparr>) s;
     let s = (if fp_total (pools s p) < 0
              then upd_pool p (\<lambda>q. q\<lparr>fp_total := 0\<rparr>)
                     (upd_pool parent_pool (\<lambda>q. q\<lparr>fp_total := fp_total q + fp_total (pools s p)\<rparr>) s)
              else s);
     fp_mutex_unlock parent_pool s }"

definition move_to_parent_pool :: "nat \<Rightarrow> nat \<Rightarrow> fibers_state \<Rightarrow> fibers_state option" where
  "move_to_parent_pool p num_to_keep s = do {
     full \<leftarrow> parent_full p s;
     if full then Some s else move_locked p num_to_keep s }"

subsection \<open>Pools\<close>

definition pool_init :: "nat \<Rightarrow> nat option \<Rightarrow> 64 word \<Rightarrow> 32 word \<Rightarrow> int \<Rightarrow> bool \<Rightarrow> fibers_state \<Rightarrow> fibers_state" where
  "pool_init p par stksize buffer_size alloc_max is_shared = upd_pool p (\<lambda>_.
     \<lparr>fp_lock = (if is_shared then Some False else None), fp_parent = par, fp_stack_size = stksize, fp_fibers = [],
      fp_max_size = buffer_size, fp_total = 0, fp_high_water = 0, fp_alloc_max = alloc_max\<rparr>)"

definition set_fiber_limit :: "nat \<Rightarrow> 32 word \<Rightarrow> fibers_state \<Rightarrow> fibers_state option" where
  "set_fiber_limit p max_fibers_to_allocate s = do {
     cilk_assert (fp_parent (pools s p) = None);
     Some (upd_pool p (\<lambda>q. q\<lparr>fp_alloc_max := sint max_fibers_to_allocate\<rparr>) s) }"

definition pool_destroy :: "nat \<Rightarrow> fibers_state \<Rightarrow> fibers_state option" where
  "pool_destroy p s = do {
     s \<leftarrow> lock_if_shared p s;
     s \<leftarrow> (if fp_parent (pools s p) \<noteq> None then move_to_parent_pool p 0 s else Some s);
     s \<leftarrow> unlock_if_shared p s;
     pool_free_fibers p 0 None s }"

subsection \<open>Allocating fibers\<close>

text \<open>\<open>heap\<close> is what the allocator returns, null when there is no memory.\<close>

definition new_fiber :: "64 word \<Rightarrow> 32 word \<Rightarrow> cilk_fiber" where
  "new_fiber stksize fl = \<lparr>fb_stack_size = stksize, fb_owner = None, m_start_proc = None, m_post_switch_proc = None,
     m_pending_remove_ref = None, m_pending_pool = None, m_flags = fl\<rparr>"

definition allocate_from_heap :: "(fibers_state \<Rightarrow> nat option) \<Rightarrow> 64 word \<Rightarrow> fibers_state \<Rightarrow> nat option \<times> fibers_state" where
  "allocate_from_heap heap stksize s =
     (case heap s of None \<Rightarrow> (None, s)
      | Some f \<Rightarrow> (Some f, s\<lparr>fibs := (fibs s)(f \<mapsto> new_fiber stksize 0)\<rparr>))"

text \<open>
  Steps 1 to 4, under the pool's lock: a fiber of the pool, or else whether a fiber may be taken from the heap, which is then counted already.
  The heap is asked without a lock; when it has no memory, the count is undone in a section of its own.
\<close>

definition look_in_pool :: "nat \<Rightarrow> fibers_state \<Rightarrow> (nat option \<times> bool \<times> fibers_state) option" where
  "look_in_pool p s = do {
     s \<leftarrow> lock_if_shared p s;
     if pool_size p s > 0 then do {
       let f = last (fp_fibers (pools s p));
       s \<leftarrow> unlock_if_shared p (upd_pool p (\<lambda>q. q\<lparr>fp_fibers := butlast (fp_fibers q)\<rparr>) s);
       Some (Some f, False, s) }
     else do {
       let can_allocate_from_heap = (fp_total (pools s p) < fp_alloc_max (pools s p));
       s \<leftarrow> unlock_if_shared p (if can_allocate_from_heap then increment_pool_total p s else s);
       Some (None, can_allocate_from_heap, s) } }"

definition undo_allocation :: "nat \<Rightarrow> fibers_state \<Rightarrow> fibers_state option" where
  "undo_allocation p s = do {
     s \<leftarrow> lock_if_shared p s;
     unlock_if_shared p (decrement_pool_total p 1 s) }"

partial_function (option) fiber_allocate ::
    "(fibers_state \<Rightarrow> nat option) \<Rightarrow> nat \<Rightarrow> fibers_state \<Rightarrow> (nat option \<times> fibers_state) option" where
  "fiber_allocate heap p s =
     Option.bind (look_in_pool p s) (\<lambda>(found, can_allocate_from_heap, s).
       if found \<noteq> None then Some (found, s)
       else let (ret, s) = (if can_allocate_from_heap then allocate_from_heap heap (fp_stack_size (pools s p)) s else (None, s))
         in if ret \<noteq> None then Some (ret, s)
            else Option.bind (if can_allocate_from_heap then undo_allocation p s else Some s) (\<lambda>s.
                 case fp_parent (pools s p) of None \<Rightarrow> Some (None, s) | Some q \<Rightarrow> fiber_allocate heap q s))"

subsection \<open>Releasing fibers\<close>

text \<open>Case 1, a pool with space; in case 2 the lock of the pool is still held.\<close>

definition put_local :: "nat \<Rightarrow> nat \<Rightarrow> fibers_state \<Rightarrow> (bool \<times> fibers_state) option" where
  "put_local f p s = do {
     s \<leftarrow> upd_fiber f (set_resumable False) s;
     x \<leftarrow> fibs s f;
     cilk_assert (\<not> is_allocated_from_thread x);
     s \<leftarrow> lock_if_shared p s;
     if pool_size p s < unat (fp_max_size (pools s p)) then do {
       s \<leftarrow> unlock_if_shared p (upd_pool p (\<lambda>q. q\<lparr>fp_fibers := fp_fibers q @ [f]\<rparr>) s);
       Some (True, s) }
     else Some (False, s) }"

definition num_to_keep :: "nat \<Rightarrow> fibers_state \<Rightarrow> nat" where
  "num_to_keep p s = unat (fp_max_size (pools s p) div 2 + fp_max_size (pools s p) div 4)"

definition put_last :: "nat \<Rightarrow> nat \<Rightarrow> fibers_state \<Rightarrow> fibers_state option" where
  "put_last f p s = do {
     s \<leftarrow> unlock_if_shared p s;
     pool_free_fibers p (fp_max_size (pools s p) - 1) (Some f) s }"

definition deallocate_self :: "nat \<Rightarrow> nat \<Rightarrow> fibers_state \<Rightarrow> fibers_state option" where
  "deallocate_self f p s = do {
     (returned, s) \<leftarrow> put_local f p s;
     if returned then Some s
     else do {
       s \<leftarrow> (if fp_parent (pools s p) \<noteq> None then move_to_parent_pool p (num_to_keep p s) s else Some s);
       put_last f p s } }"

definition remove_reference :: "nat \<Rightarrow> nat option \<Rightarrow> fibers_state \<Rightarrow> fibers_state option" where
  "remove_reference f pl s = (case pl of Some p \<Rightarrow> deallocate_self f p s | None \<Rightarrow> deallocate_to_heap f s)"

definition allocate_from_thread :: "(fibers_state \<Rightarrow> nat option) \<Rightarrow> fibers_state \<Rightarrow> (nat \<times> fibers_state) option" where
  "allocate_from_thread heap s = do {
     f \<leftarrow> heap s;
     Some (f, s\<lparr>fibs := (fibs s)(f \<mapsto> new_fiber 0 ALLOCATED_FROM_THREAD)\<rparr>) }"

definition deallocate_from_thread :: "nat \<Rightarrow> fibers_state \<Rightarrow> fibers_state option" where
  "deallocate_from_thread f s = do {
     x \<leftarrow> fibs s f;
     cilk_assert (is_allocated_from_thread x);
     deallocate_to_heap f s }"

subsection \<open>Switching fibers\<close>

text \<open>\<open>proc\<close> is what the procedures with the given addresses do when they run after a switch.\<close>

definition reset_state :: "nat \<Rightarrow> nat \<Rightarrow> fibers_state \<Rightarrow> fibers_state option" where
  "reset_state f start_proc s = do {
     s \<leftarrow> upd_fiber f (\<lambda>x. x\<lparr>m_start_proc := Some start_proc\<rparr>) s;
     x \<leftarrow> fibs s f;
     cilk_assert (\<not> is_resumable x);
     cilk_assert (m_pending_remove_ref x = None);
     cilk_assert (m_pending_pool x = None);
     Some s }"

definition do_post_switch_actions ::
    "(nat \<Rightarrow> nat \<Rightarrow> fibers_state \<Rightarrow> fibers_state option) \<Rightarrow> nat \<Rightarrow> fibers_state \<Rightarrow> fibers_state option" where
  "do_post_switch_actions pcall f s = do {
     x \<leftarrow> fibs s f;
     s \<leftarrow> (case m_post_switch_proc x of None \<Rightarrow> Some s
           | Some pr \<Rightarrow> do { s \<leftarrow> upd_fiber f (\<lambda>x. x\<lparr>m_post_switch_proc := None\<rparr>) s; pcall pr f s });
     x \<leftarrow> fibs s f;
     (case m_pending_remove_ref x of None \<Rightarrow> Some s
      | Some g \<Rightarrow> do {
          s \<leftarrow> remove_reference g (m_pending_pool x) s;
          upd_fiber f (\<lambda>x. x\<lparr>m_pending_remove_ref := None, m_pending_pool := None\<rparr>) s }) }"

datatype switched = Resumed nat | Started nat nat

definition switch_to :: "nat \<Rightarrow> fibers_state \<Rightarrow> (switched \<times> fibers_state) option" where
  "switch_to other s = do {
     x \<leftarrow> fibs s other;
     if is_resumable x then do {
       s \<leftarrow> upd_fiber other (set_resumable False) s;
       Some (Resumed other, s) }
     else do {
       start \<leftarrow> m_start_proc x;
       cilk_assert (\<not> is_allocated_from_thread x);
       Some (Started other start, s) } }"

definition resume_other ::
    "(nat \<Rightarrow> nat \<Rightarrow> fibers_state \<Rightarrow> fibers_state option) \<Rightarrow> nat \<Rightarrow> fibers_state \<Rightarrow> (switched \<times> fibers_state) option" where
  "resume_other pcall other s = do {
     (running, s) \<leftarrow> switch_to other s;
     s \<leftarrow> do_post_switch_actions pcall other s;
     Some (running, s) }"

definition pass_owner :: "nat \<Rightarrow> nat \<Rightarrow> fibers_state \<Rightarrow> fibers_state option" where
  "pass_owner me other s = do {
     x \<leftarrow> fibs s me;
     s \<leftarrow> upd_fiber other (\<lambda>y. y\<lparr>fb_owner := fb_owner x\<rparr>) s;
     upd_fiber me (\<lambda>x. x\<lparr>fb_owner := None\<rparr>) s }"

definition suspend_self_and_resume_other ::
    "(nat \<Rightarrow> nat \<Rightarrow> fibers_state \<Rightarrow> fibers_state option) \<Rightarrow> nat \<Rightarrow> nat \<Rightarrow> fibers_state \<Rightarrow> (switched \<times> fibers_state) option" where
  "suspend_self_and_resume_other pcall me other s = do {
     s \<leftarrow> pass_owner me other s;
     x \<leftarrow> fibs s me;
     cilk_assert (\<not> is_resumable x);
     s \<leftarrow> upd_fiber me (set_resumable True) s;
     resume_other pcall other s }"

text \<open>Leaving a fiber for good: what is done before the jump.\<close>

definition leave_self :: "nat \<Rightarrow> nat option \<Rightarrow> nat \<Rightarrow> fibers_state \<Rightarrow> fibers_state option" where
  "leave_self me my_pool other s = do {
     s \<leftarrow> upd_fiber other (\<lambda>y. y\<lparr>m_pending_remove_ref := Some me, m_pending_pool := my_pool\<rparr>) s;
     s \<leftarrow> pass_owner me other s;
     x \<leftarrow> fibs s me;
     cilk_assert (\<not> is_resumable x);
     Some s }"

definition remove_self_and_resume_other ::
    "(nat \<Rightarrow> nat \<Rightarrow> fibers_state \<Rightarrow> fibers_state option) \<Rightarrow> nat \<Rightarrow> nat option \<Rightarrow> nat \<Rightarrow> fibers_state \<Rightarrow> (switched \<times> fibers_state) option" where
  "remove_self_and_resume_other pcall me my_pool other s = do {
     s \<leftarrow> leave_self me my_pool other s;
     resume_other pcall other s }"

subsection \<open>The pools of the runtime (scheduler.c)\<close>

text \<open>Pool 0 is the shared pool of the global state, pool \<open>w + 1\<close> that of worker \<open>w\<close>.\<close>

definition make_worker_pool :: "settings \<Rightarrow> nat \<Rightarrow> fibers_state \<Rightarrow> fibers_state" where
  "make_worker_pool g p = pool_init p (Some 0) (stack_size g) (word_of_int (fiber_pool_size g)) 0 False"

definition init_fiber_pools :: "nat \<Rightarrow> settings \<Rightarrow> fibers_state \<Rightarrow> fibers_state option" where
  "init_fiber_pools nw g s = do {
     let s = pool_init 0 None (stack_size g) (word_of_int (global_fiber_pool_size g)) (sint (max_stacks g)) True s;
     s \<leftarrow> set_fiber_limit 0 (if max_stacks g \<noteq> 0 then max_stacks g else word_of_int INT_MAX) s;
     Some (fold (make_worker_pool g) [1..<Suc nw] s) }"

subsection \<open>Single operations\<close>

lemma pools_upd_pool [simp]: "pools (upd_pool p g s) = (pools s)(p := g (pools s p))" "fibs (upd_pool p g s) = fibs s"
  by (simp_all add: upd_pool_def)

lemma upd_pool_upd_pool [simp]: "upd_pool p g (upd_pool p h s) = upd_pool p (\<lambda>q. g (h q)) s"
  by (simp add: upd_pool_def)

text \<open>A state is determined by its pools and fibers, so the states an operation passes through are written as such pairs.\<close>

definition mk :: "(nat \<Rightarrow> fiber_pool) \<Rightarrow> (nat \<Rightarrow> cilk_fiber option) \<Rightarrow> fibers_state" where
  "mk ps fs = \<lparr>pools = ps, fibs = fs\<rparr>"

lemma mk_simps [simp]: "pools (mk ps fs) = ps" "fibs (mk ps fs) = fs" "upd_pool p g (mk ps fs) = mk (ps(p := g (ps p))) fs"
    "(mk ps fs)\<lparr>fibs := fs'\<rparr> = mk ps fs'" "mk (pools s) (fibs s) = s"
  by (simp_all add: mk_def upd_pool_def)

definition free_lock :: "fiber_pool \<Rightarrow> bool" where
  "free_lock q \<longleftrightarrow> fp_lock q \<noteq> Some True"

definition locked :: "fiber_pool \<Rightarrow> fiber_pool" where
  "locked q = q\<lparr>fp_lock := map_option (\<lambda>_. True) (fp_lock q)\<rparr>"

lemma locked_simps [simp]: "fp_fibers (locked q) = fp_fibers q" "fp_max_size (locked q) = fp_max_size q" "fp_total (locked q) = fp_total q"
    "fp_parent (locked q) = fp_parent q" "fp_alloc_max (locked q) = fp_alloc_max q" "fp_stack_size (locked q) = fp_stack_size q"
    "fp_high_water (locked q) = fp_high_water q" "fp_lock (locked q) = map_option (\<lambda>_. True) (fp_lock q)"
  by (simp_all add: locked_def)

lemma same_lock: "fp_lock q = l \<Longrightarrow> q\<lparr>fp_lock := l\<rparr> = q"
  by (cases q) simp

lemma same_total: "fp_total q = t \<Longrightarrow> q\<lparr>fp_total := t\<rparr> = q"
  by (cases q) simp

lemma unlocked [simp]:
  "(locked q)\<lparr>fp_fibers := a, fp_total := t, fp_lock := fp_lock q\<rparr> = q\<lparr>fp_fibers := a, fp_total := t\<rparr>"
  "(locked q)\<lparr>fp_total := t, fp_fibers := a, fp_lock := fp_lock q\<rparr> = q\<lparr>fp_fibers := a, fp_total := t\<rparr>"
  "(locked q)\<lparr>fp_fibers := a, fp_lock := fp_lock q\<rparr> = q\<lparr>fp_fibers := a\<rparr>"
  "(locked q)\<lparr>fp_total := t, fp_lock := fp_lock q\<rparr> = q\<lparr>fp_total := t\<rparr>"
  "(locked q)\<lparr>fp_total := t, fp_high_water := h, fp_lock := fp_lock q\<rparr> = q\<lparr>fp_total := t, fp_high_water := h\<rparr>"
  "(locked q)\<lparr>fp_lock := fp_lock q\<rparr> = q"
  by (cases q; simp add: locked_def)+

lemma lock_run: "free_lock (ps p) \<Longrightarrow> lock_if_shared p (mk ps fs) = Some (mk (ps(p := locked (ps p))) fs)"
  by (cases "fp_lock (ps p)") (auto simp: lock_if_shared_def fp_mutex_lock_def free_lock_def locked_def same_lock)

lemma unlock_run:
  assumes "fp_lock (ps p) = map_option (\<lambda>_. True) l" and "l \<noteq> Some True"
  shows "unlock_if_shared p (mk ps fs) = Some (mk (ps(p := (ps p)\<lparr>fp_lock := l\<rparr>)) fs)"
  using assms by (cases l) (auto simp: unlock_if_shared_def fp_mutex_unlock_def same_lock)

lemma grab_fibers_eq:
  "grab_fibers b k fs = (let j = (if length fs \<le> k then length fs else max k (length fs - b)) in (rev (drop j fs), take j fs))"
proof (induction b k fs rule: grab_fibers.induct)
  case (2 b k fs)
  show ?case
  proof (cases "length fs > k")
    case True
    then have ne: "fs \<noteq> []" by auto
    let ?j = "max k (length fs - Suc b)"
    have j: "?j \<le> length fs - 1" "(if length (butlast fs) \<le> k then length (butlast fs) else max k (length (butlast fs) - b)) = ?j"
      using True by auto
    have "drop ?j fs = drop ?j (butlast fs) @ [last fs]" "take ?j fs = take ?j (butlast fs)"
      using j(1) ne append_butlast_last_id [OF ne] by (metis drop_append length_butlast diff_is_0_eq drop0, metis take_append length_butlast diff_is_0_eq take0 append_Nil2)
    then show ?thesis using True "2.IH" [OF True] j(2) by (simp add: Let_def)
  qed simp
qed (simp add: Let_def)

lemma free_all_run: "distinct xs \<Longrightarrow> \<forall>x\<in>set xs. fs x \<noteq> None \<Longrightarrow> free_all xs (mk ps fs) = Some (mk ps (\<lambda>x. if x \<in> set xs then None else fs x))"
proof (induction xs arbitrary: fs)
  case (Cons x xs)
  have "(\<lambda>y. if y \<in> set xs then None else (fs(x := None)) y) = (\<lambda>y. if y \<in> set (x # xs) then None else fs y)"
    by (rule ext) auto
  moreover have "free_all xs (mk ps (fs(x := None))) = Some (mk ps (\<lambda>y. if y \<in> set xs then None else (fs(x := None)) y))"
    by (rule Cons.IH) (use Cons.prems in auto)
  ultimately show ?case using Cons.prems by (simp add: deallocate_to_heap_def)
qed simp

lemma fiber_move_loop_props:
  "fiber_move_loop k c xs ys = (xs', ys') \<Longrightarrow> mset xs' + mset ys' = mset xs + mset ys \<and> length xs' \<le> length xs \<and> length ys' \<le> max c (length ys)"
proof (induction k c xs ys rule: fiber_move_loop.induct)
  case (1 k c xs ys)
  show ?case
  proof (cases "length ys < c \<and> length xs > k")
    case True
    then have "xs \<noteq> []" by auto
    then have "mset xs = mset (butlast xs) + {#last xs#}" by (metis append_butlast_last_id mset.simps(1) mset.simps(2) mset_append add_mset_add_single)
    moreover have "fiber_move_loop k c (butlast xs) (ys @ [last xs]) = (xs', ys')" using "1.prems" True by (subst (asm) fiber_move_loop.simps) simp
    ultimately show ?thesis using "1.IH" [OF True] True by auto
  next
    case False
    then show ?thesis using "1.prems" by (subst (asm) fiber_move_loop.simps) auto
  qed
qed

definition freed :: "nat list \<Rightarrow> (nat \<Rightarrow> cilk_fiber option) \<Rightarrow> nat \<Rightarrow> cilk_fiber option" where
  "freed xs fs = (\<lambda>x. if x \<in> set xs then None else fs x)"

lemma freed_append: "freed xs (freed ys fs) = freed (xs @ ys) fs"
  by (rule ext) (simp add: freed_def)

lemma freed_rev [simp]: "freed (rev xs) fs = freed xs fs" "freed [] fs = fs"
  by (simp_all add: freed_def)

lemma free_all_freed: "distinct xs \<Longrightarrow> \<forall>x\<in>set xs. fs x \<noteq> None \<Longrightarrow> free_all xs (mk ps fs) = Some (mk ps (freed xs fs))"
  by (simp add: free_all_run freed_def)

definition kept_fibers :: "nat \<Rightarrow> nat option \<Rightarrow> fiber_pool \<Rightarrow> fiber_pool" where
  "kept_fibers k ret q = q\<lparr>fp_fibers := take k (fp_fibers q) @ (case ret of None \<Rightarrow> [] | Some f \<Rightarrow> [f]),
     fp_total := fp_total q - int (length (fp_fibers q) - k)\<rparr>"

lemma pool_free_fibers_run:
  assumes "free_lock (ps p)" and "distinct (fp_fibers (ps p))" and "\<forall>x\<in>set (fp_fibers (ps p)). fs x \<noteq> None"
    and "ret = None \<or> unat k < unat (fp_max_size (ps p))"
  shows "pool_free_fibers p k ret (mk ps fs) = Some (mk (ps(p := kept_fibers (unat k) ret (ps p))) (freed (drop (unat k) (fp_fibers (ps p))) fs))"
  using assms
proof (induction "length (fp_fibers (ps p))" arbitrary: ps fs rule: less_induct)
  case less
  let ?xs = "fp_fibers (ps p)" and ?k = "unat k"
  define j where "j = (if length ?xs \<le> ?k then length ?xs else max ?k (length ?xs - 10))"
  have grab: "grab_fibers 10 ?k ?xs = (rev (drop j ?xs), take j ?xs)" by (simp add: grab_fibers_eq j_def Let_def)
  have jl: "j \<le> length ?xs" by (simp add: j_def)
  let ?q = "(ps p)\<lparr>fp_fibers := take j ?xs, fp_total := fp_total (ps p) - int (length ?xs - j)\<rparr>"
  have d: "distinct (rev (drop j ?xs))" "\<forall>x\<in>set (rev (drop j ?xs)). fs x \<noteq> None"
    using less.prems(2,3) by (auto dest: in_set_dropD)
  note fa = free_all_freed [OF d]
  have l: "fp_lock (ps p) \<noteq> Some True" using less.prems(1) by (simp add: free_lock_def)
  let ?q1 = "(locked (ps p))\<lparr>fp_fibers := take j ?xs, fp_total := fp_total (ps p) - int (length ?xs - j)\<rparr>"
  have step: "pool_free_fibers p k ret (mk ps fs) =
      Option.bind (if j \<le> ?k then (case ret of None \<Rightarrow> Some (mk (ps(p := ?q1)) fs)
              | Some f \<Rightarrow> if j < unat (fp_max_size (ps p)) then Some (mk (ps(p := ?q1\<lparr>fp_fibers := take j ?xs @ [f]\<rparr>)) fs) else None)
            else Some (mk (ps(p := ?q1)) fs)) (\<lambda>s.
        Option.bind (unlock_if_shared p s) (\<lambda>s.
        Option.bind (free_all (rev (drop j ?xs)) s) (\<lambda>s. if j \<le> ?k then Some s else pool_free_fibers p k ret s)))"
    using lock_run [of ps p, OF less.prems(1), of fs] jl
    by (subst pool_free_fibers.simps) (simp add: grab Let_def decrement_pool_total_def pool_size_def split: option.splits)
  have ul: "unlock_if_shared p (mk (ps(p := ?q1)) fs) = Some (mk (ps(p := ?q)) fs)"
      "unlock_if_shared p (mk (ps(p := ?q1\<lparr>fp_fibers := take j ?xs @ [f]\<rparr>)) fs) = Some (mk (ps(p := (ps p)\<lparr>fp_fibers := take j ?xs @ [f], fp_total := fp_total (ps p) - int (length ?xs - j)\<rparr>)) fs)" for f
    using unlock_run [of "ps(p := ?q1)" p "fp_lock (ps p)" fs] unlock_run [of "ps(p := ?q1\<lparr>fp_fibers := take j ?xs @ [f]\<rparr>)" p "fp_lock (ps p)" fs] l
    by simp_all
  show ?case
  proof (cases "j \<le> ?k")
    case True
    have dk: "drop j ?xs = drop ?k ?xs" "take j ?xs = take ?k ?xs" "length ?xs - j = length ?xs - ?k"
      using True by (auto simp: j_def split: if_splits)
    show ?thesis using True step ul fa less.prems(4) dk by (auto simp: kept_fibers_def split: option.splits)
  next
    case False
    have lt: "length (fp_fibers ((ps(p := ?q)) p)) < length ?xs" using False by (auto simp: j_def split: if_splits)
    have IH: "pool_free_fibers p k ret (mk (ps(p := ?q)) (freed (drop j ?xs) fs)) =
        Some (mk ((ps(p := ?q))(p := kept_fibers ?k ret ((ps(p := ?q)) p))) (freed (drop ?k (fp_fibers ((ps(p := ?q)) p))) (freed (drop j ?xs) fs)))"
      by (rule less.hyps [of "ps(p := ?q)", OF lt])
        (use less.prems set_take_disj_set_drop_if_distinct [OF less.prems(2) order_refl, of j]
          in \<open>auto simp: free_lock_def freed_def dest: in_set_takeD\<close>)
    have kj: "?k < j" "j \<le> length ?xs" using False jl by auto
    have "drop ?k (take j ?xs) @ drop j ?xs = drop ?k ?xs"
      using kj by (metis append_take_drop_id drop_append length_take min.absorb2 less_imp_le diff_is_0_eq drop0)
    then have fr: "freed (drop ?k (take j ?xs)) (freed (drop j ?xs) fs) = freed (drop ?k ?xs) fs" by (simp add: freed_append)
    have "kept_fibers ?k ret ?q = kept_fibers ?k ret (ps p)" using kj by (simp add: kept_fibers_def min_def)
    then show ?thesis using False step ul fa IH fr by simp
  qed
qed

subsection \<open>The invariant of the pools\<close>

text \<open>
  Pool 0 is the shared one; the pools \<open>1\<close> to \<open>nw\<close> belong to the workers. \<open>pooled\<close> are the fibers in pools and
  \<open>pool_totals\<close> the sum of the counts.
\<close>

definition pooled :: "nat \<Rightarrow> (nat \<Rightarrow> fiber_pool) \<Rightarrow> nat multiset" where
  "pooled nw ps = (\<Sum>p\<le>nw. mset (fp_fibers (ps p)))"

definition pool_totals :: "nat \<Rightarrow> (nat \<Rightarrow> fiber_pool) \<Rightarrow> int" where
  "pool_totals nw ps = (\<Sum>p\<le>nw. fp_total (ps p))"

definition root_ok :: "int \<Rightarrow> fiber_pool \<Rightarrow> bool" where
  "root_ok lim q \<longleftrightarrow> fp_parent q = None \<and> fp_lock q = Some False \<and> fp_total q \<le> lim \<and> fp_alloc_max q = lim \<and>
     length (fp_fibers q) \<le> unat (fp_max_size q)"

definition local_ok :: "fiber_pool \<Rightarrow> bool" where
  "local_ok q \<longleftrightarrow> fp_parent q = Some 0 \<and> fp_lock q = None \<and> fp_total q \<le> 0 \<and> fp_alloc_max q = 0 \<and>
     0 < unat (fp_max_size q) \<and> length (fp_fibers q) \<le> unat (fp_max_size q)"

definition pools_ok :: "nat \<Rightarrow> int \<Rightarrow> (nat \<Rightarrow> fiber_pool) \<Rightarrow> bool" where
  "pools_ok nw lim ps \<longleftrightarrow> root_ok lim (ps 0) \<and> (\<forall>p\<in>{1..nw}. local_ok (ps p))"

text \<open>
  \<open>L\<close> are the fibers the heap has given out and not got back, \<open>M\<close> those that are in no pool, and \<open>R\<close> counts the fibers
  that are counted before the heap has been asked for them.
\<close>

definition pools_inv :: "nat \<Rightarrow> int \<Rightarrow> nat set \<Rightarrow> nat multiset \<Rightarrow> int \<Rightarrow> fibers_state \<Rightarrow> bool" where
  "pools_inv nw lim L M R s \<longleftrightarrow> pools_ok nw lim (pools s) \<and> finite L \<and> mset_set L = pooled nw (pools s) + M \<and>
     (\<forall>f\<in>L. \<exists>x. fibs s f = Some x \<and> \<not> is_allocated_from_thread x) \<and> int (card L) + R = pool_totals nw (pools s)"

lemma pooled_upd: "p \<le> nw \<Longrightarrow> pooled nw (ps(p := q)) + mset (fp_fibers (ps p)) = pooled nw ps + mset (fp_fibers q)"
proof -
  assume p: "p \<le> nw"
  have "pooled nw f = mset (fp_fibers (f p)) + (\<Sum>r\<in>{..nw} - {p}. mset (fp_fibers (f r)))" for f
    unfolding pooled_def using p by (intro sum.remove) auto
  moreover have "(\<Sum>r\<in>{..nw} - {p}. mset (fp_fibers ((ps(p := q)) r))) = (\<Sum>r\<in>{..nw} - {p}. mset (fp_fibers (ps r)))"
    by (rule sum.cong) auto
  ultimately show ?thesis by simp
qed

lemma totals_upd: "p \<le> nw \<Longrightarrow> pool_totals nw (ps(p := q)) = pool_totals nw ps - fp_total (ps p) + fp_total q"
proof -
  assume p: "p \<le> nw"
  have "pool_totals nw f = fp_total (f p) + (\<Sum>r\<in>{..nw} - {p}. fp_total (f r))" for f
    unfolding pool_totals_def using p by (intro sum.remove) auto
  moreover have "(\<Sum>r\<in>{..nw} - {p}. fp_total ((ps(p := q)) r)) = (\<Sum>r\<in>{..nw} - {p}. fp_total (ps r))"
    by (rule sum.cong) auto
  ultimately show ?thesis by simp
qed

lemma totals_bound: "pools_ok nw lim ps \<Longrightarrow> pool_totals nw ps \<le> lim"
proof -
  assume ok: "pools_ok nw lim ps"
  have "pool_totals nw ps = fp_total (ps 0) + (\<Sum>r\<in>{..nw} - {0}. fp_total (ps r))"
    unfolding pool_totals_def by (intro sum.remove) auto
  moreover have "(\<Sum>r\<in>{..nw} - {0}. fp_total (ps r)) \<le> 0"
    using ok by (intro sum_nonpos) (auto simp: pools_ok_def local_ok_def)
  ultimately show ?thesis using ok by (simp add: pools_ok_def root_ok_def)
qed

lemma pool_in: "p \<le> nw \<Longrightarrow> mset (fp_fibers (ps p)) \<subseteq># pooled nw ps"
proof -
  assume p: "p \<le> nw"
  have "pooled nw ps = mset (fp_fibers (ps p)) + (\<Sum>r\<in>{..nw} - {p}. mset (fp_fibers (ps r)))"
    unfolding pooled_def using p by (intro sum.remove) auto
  then show ?thesis by simp
qed

lemma inv_pool:
  assumes "pools_inv nw lim L M R s" and "p \<le> nw"
  shows "distinct (fp_fibers (pools s p))" and "set (fp_fibers (pools s p)) \<subseteq> L" and "set_mset M \<subseteq> L" and "set_mset M \<inter> set (fp_fibers (pools s p)) = {}"
proof -
  have eq: "mset_set L = pooled nw (pools s) + M" and fin: "finite L" using assms(1) by (simp_all add: pools_inv_def)
  have "mset (fp_fibers (pools s p)) + M \<subseteq># mset_set L" using pool_in [OF assms(2), of "pools s"] eq by simp
  then have c: "count (mset (fp_fibers (pools s p))) x + count M x \<le> count (mset_set L) x" for x
    by (metis count_union mset_subset_eq_count)
  have cL: "count (mset_set L) x = (if x \<in> L then 1 else 0)" for x using fin by simp
  have pos: "0 < count (mset (fp_fibers (pools s p))) x" if "x \<in> set (fp_fibers (pools s p))" for x using that by simp
  show "distinct (fp_fibers (pools s p))"
    unfolding distinct_count_atmost_1
  proof (intro allI)
    fix x show "count (mset (fp_fibers (pools s p))) x = (if x \<in> set (fp_fibers (pools s p)) then 1 else 0)"
    proof (cases "x \<in> set (fp_fibers (pools s p))")
      case True
      define n where "n = count (mset (fp_fibers (pools s p))) x"
      have "0 < n" "n + count M x \<le> count (mset_set L) x" "count (mset_set L) x \<le> 1"
        using pos [OF True] c [of x] cL [of x] unfolding n_def by simp_all
      then have "n = 1" by linarith
      then show ?thesis using True by (simp add: n_def)
    next
      case False
      then show ?thesis by (simp add: not_in_iff)
    qed
  qed
  show "set (fp_fibers (pools s p)) \<subseteq> L"
  proof
    fix x assume "x \<in> set (fp_fibers (pools s p))"
    then show "x \<in> L" using c [of x] cL [of x] pos [of x] by (auto split: if_splits)
  qed
  show "set_mset M \<subseteq> L" using eq fin by (metis finite_set_mset_mset_set set_mset_union sup_ge2)
  show "set_mset M \<inter> set (fp_fibers (pools s p)) = {}"
  proof (rule ccontr)
    assume "set_mset M \<inter> set (fp_fibers (pools s p)) \<noteq> {}"
    then obtain x where "0 < count M x" "x \<in> set (fp_fibers (pools s p))" by auto
    moreover have "count (mset_set L) x \<le> 1" using cL [of x] by simp
    ultimately show False using c [of x] pos [of x] by linarith
  qed
qed

lemma mset_moved:
  assumes "a + y = c + y'" and "c + x = b + x'" and "x' + y' = x + y"
  shows "a = (b :: 'a multiset)"
proof (rule multiset_eqI)
  fix e
  show "count a e = count b e"
    using arg_cong [OF assms(1), of "\<lambda>m. count m e"] arg_cong [OF assms(2), of "\<lambda>m. count m e"] arg_cong [OF assms(3), of "\<lambda>m. count m e"]
    by simp
qed

lemma mset_dropped:
  assumes "xs = t + d" and "a + xs = b + (t + {#e#})" and "l = b + add_mset e h" and "l' + d = l"
  shows "l' = a + (h :: 'a multiset)"
proof (rule multiset_eqI)
  fix y
  show "count l' y = count (a + h) y"
    using arg_cong [OF assms(1), of "\<lambda>m. count m y"] arg_cong [OF assms(2), of "\<lambda>m. count m y"]
      arg_cong [OF assms(3), of "\<lambda>m. count m y"] arg_cong [OF assms(4), of "\<lambda>m. count m y"]
    by (simp split: if_splits)
qed

lemma move_locked_run:
  assumes "pools_ok nw lim ps" and "p \<in> {1..nw}"
  shows "\<exists>ps'. move_locked p k (mk ps fs) = Some (mk ps' fs) \<and> pools_ok nw lim ps' \<and> pooled nw ps' = pooled nw ps \<and>
     pool_totals nw ps' = pool_totals nw ps \<and> fp_max_size (ps' p) = fp_max_size (ps p)"
proof -
  have p: "p \<noteq> 0" "p \<le> nw" using assms(2) by auto
  have par: "fp_parent (ps p) = Some 0" "fp_lock (ps 0) = Some False" "fp_total (ps p) \<le> 0" "fp_total (ps 0) \<le> lim"
      "length (fp_fibers (ps 0)) \<le> unat (fp_max_size (ps 0))"
    using assms by (auto simp: pools_ok_def local_ok_def root_ok_def)
  obtain xs ys where ml: "fiber_move_loop k (unat (fp_max_size (ps 0))) (fp_fibers (ps p)) (fp_fibers (ps 0)) = (xs, ys)" by fastforce
  note mp = fiber_move_loop_props [OF ml]
  let ?p = "(ps p)\<lparr>fp_fibers := xs, fp_total := 0\<rparr>" and ?r = "(ps 0)\<lparr>fp_fibers := ys, fp_total := fp_total (ps 0) + fp_total (ps p)\<rparr>"
  let ?ps = "(ps(p := ?p))(0 := ?r)"
  have q0: "(ps 0)\<lparr>fp_fibers := ys, fp_total := t, fp_lock := Some False\<rparr> = (ps 0)\<lparr>fp_fibers := ys, fp_total := t\<rparr>"
      "(ps 0)\<lparr>fp_fibers := ys, fp_lock := Some False\<rparr> = (ps 0)\<lparr>fp_fibers := ys\<rparr>" for t
    using par(2) by (simp_all add: same_lock)
  have run: "move_locked p k (mk ps fs) = Some (mk ?ps fs)"
  proof (cases "fp_total (ps p) < 0")
    case True
    then show ?thesis using par ml p
      by (simp add: move_locked_def pool_size_def fp_mutex_lock_def fp_mutex_unlock_def q0)
  next
    case nn: False
    then have t: "fp_total (ps p) = 0" using par(3) by simp
    have e: "(ps p)\<lparr>fp_fibers := xs, fp_total := 0\<rparr> = (ps p)\<lparr>fp_fibers := xs\<rparr>"
        "(ps 0)\<lparr>fp_fibers := ys, fp_total := fp_total (ps 0) + fp_total (ps p)\<rparr> = (ps 0)\<lparr>fp_fibers := ys\<rparr>"
      using t by (simp_all add: same_total)
    show ?thesis unfolding e using par ml p t
      by (simp add: move_locked_def pool_size_def fp_mutex_lock_def fp_mutex_unlock_def q0)
  qed
  have M: "pooled nw (ps(p := ?p)) + mset (fp_fibers (ps p)) = pooled nw ps + mset xs"
      "pooled nw ?ps + mset (fp_fibers (ps 0)) = pooled nw (ps(p := ?p)) + mset ys"
    using pooled_upd [of p nw ps ?p] pooled_upd [of 0 nw "ps(p := ?p)" ?r] p by auto
  have "pooled nw ?ps = pooled nw ps" by (rule mset_moved [OF M(2,1)]) (use mp in blast)
  moreover have "pool_totals nw ?ps = pool_totals nw ps"
    using totals_upd [of p nw ps ?p] totals_upd [of 0 nw "ps(p := ?p)" ?r] p by auto
  moreover have "pools_ok nw lim ?ps"
  proof -
    have "local_ok (ps p)" using assms by (simp add: pools_ok_def)
    then have "root_ok lim ?r" "local_ok ?p" using assms(1) par mp by (auto simp: local_ok_def root_ok_def pools_ok_def)
    then show ?thesis using assms p by (simp add: pools_ok_def)
  qed
  ultimately show ?thesis using run p by auto
qed

lemma parent_full_run:
  assumes "pools_ok nw lim (pools s)" and "p \<in> {1..nw}"
  shows "parent_full p s = Some (unat (fp_max_size (pools s 0)) \<le> length (fp_fibers (pools s 0)))"
  using assms by (auto simp: parent_full_def pools_ok_def local_ok_def pool_size_def)

lemma move_to_parent_run:
  assumes "pools_ok nw lim ps" and "p \<in> {1..nw}"
  shows "\<exists>ps'. move_to_parent_pool p k (mk ps fs) = Some (mk ps' fs) \<and> pools_ok nw lim ps' \<and> pooled nw ps' = pooled nw ps \<and>
     pool_totals nw ps' = pool_totals nw ps \<and> fp_max_size (ps' p) = fp_max_size (ps p)"
  using move_locked_run [OF assms, of k fs] parent_full_run [of nw lim "mk ps fs" p] assms
  by (cases "unat (fp_max_size (ps 0)) \<le> length (fp_fibers (ps 0))") (auto simp: move_to_parent_pool_def)

lemma mset_set_remove: "finite H \<Longrightarrow> f \<in> H \<Longrightarrow> mset_set H = add_mset f (mset_set (H - {f}))"
  by (metis finite_Diff insert_Diff mset_set.insert insert_Diff_single Diff_iff singletonI)

lemma not_thread_set_resumable [simp]: "is_allocated_from_thread (set_resumable b x) = is_allocated_from_thread x"
proof -
  have "(fl OR 1) AND 2 = fl AND (2 :: 32 word)" "(fl AND NOT 1) AND 2 = fl AND (2 :: 32 word)" for fl
    by (simp_all add: bit_eq_iff bit_simps) (auto simp: bit_1_iff)
  then show ?thesis by (simp add: is_allocated_from_thread_def set_resumable_def RESUMABLE_def ALLOCATED_FROM_THREAD_def)
qed

text \<open>The sections of a return, for a fiber \<open>f\<close> that is in no pool.\<close>

lemma put_local_run:
  assumes inv: "pools_inv nw lim L (add_mset f M) R s" and p: "p \<in> {1..nw}"
  shows "\<exists>s'. put_local f p s = Some (length (fp_fibers (pools s p)) < unat (fp_max_size (pools s p)), s') \<and>
     (if length (fp_fibers (pools s p)) < unat (fp_max_size (pools s p)) then pools_inv nw lim L M R s' \<and> f \<in> set (fp_fibers (pools s' p))
      else pools_inv nw lim L (add_mset f M) R s' \<and> pools s' = pools s) \<and>
     (\<forall>q. q \<noteq> f \<longrightarrow> fibs s' q = fibs s q)"
proof -
  obtain ps fs where s: "s = mk ps fs" by (metis mk_simps(5))
  have "f \<in> L" using inv_pool(3) [OF inv, of 0] by auto
  then obtain x where x: "fs f = Some x" "\<not> is_allocated_from_thread x" using inv unfolding s by (auto simp: pools_inv_def)
  let ?fs = "fs(f \<mapsto> set_resumable False x)" and ?room = "length (fp_fibers (ps p)) < unat (fp_max_size (ps p))"
  let ?q = "(ps p)\<lparr>fp_fibers := fp_fibers (ps p) @ [f]\<rparr>"
  have lo: "local_ok (ps p)" and ok: "pools_ok nw lim ps" using inv p unfolding s by (simp_all add: pools_inv_def pools_ok_def)
  have run: "put_local f p s = Some (if ?room then (True, mk (ps(p := ?q)) ?fs) else (False, mk ps ?fs))"
    using x lo by (simp add: s put_local_def upd_fiber_def cilk_assert_def lock_if_shared_def unlock_if_shared_def local_ok_def pool_size_def)
  have live: "\<forall>g\<in>L. \<exists>y. ?fs g = Some y \<and> \<not> is_allocated_from_thread y" using inv x unfolding s by (auto simp: pools_inv_def)
  show ?thesis
  proof (cases ?room)
    case True
    have "pools_ok nw lim (ps(p := ?q))" using ok p lo True by (auto simp: pools_ok_def local_ok_def)
    moreover have "pooled nw (ps(p := ?q)) = add_mset f (pooled nw ps)" using pooled_upd [of p nw ps ?q] p by simp
    moreover have "pool_totals nw (ps(p := ?q)) = pool_totals nw ps" using totals_upd [of p nw ps ?q] p by simp
    ultimately have "pools_inv nw lim L M R (mk (ps(p := ?q)) ?fs)" using inv live by (simp add: pools_inv_def s)
    then show ?thesis using run True by (simp add: s)
  next
    case False
    have "pools_inv nw lim L (add_mset f M) R (mk ps ?fs)" using inv live by (simp add: pools_inv_def s)
    then show ?thesis using run False by (simp add: s)
  qed
qed

lemma move_locked_inv:
  assumes inv: "pools_inv nw lim L M R s" and p: "p \<in> {1..nw}"
  shows "\<exists>s'. move_locked p k s = Some s' \<and> pools_inv nw lim L M R s' \<and> fibs s' = fibs s"
proof -
  obtain ps fs where s: "s = mk ps fs" by (metis mk_simps(5))
  have "pools_ok nw lim ps" using inv by (simp add: pools_inv_def s)
  from move_locked_run [OF this p, of k fs] show ?thesis using inv by (auto simp: s pools_inv_def)
qed

lemma move_to_parent_inv:
  assumes inv: "pools_inv nw lim L M R s" and p: "p \<in> {1..nw}"
  shows "\<exists>s'. move_to_parent_pool p k s = Some s' \<and> pools_inv nw lim L M R s' \<and> fibs s' = fibs s"
proof -
  obtain ps fs where s: "s = mk ps fs" by (metis mk_simps(5))
  have "pools_ok nw lim ps" using inv by (simp add: pools_inv_def s)
  from move_to_parent_run [OF this p, of k fs] show ?thesis using inv by (auto simp: s pools_inv_def)
qed

lemma put_last_run:
  assumes inv: "pools_inv nw lim L (add_mset f M) R s" and p: "p \<in> {1..nw}"
  shows "\<exists>s' L'. put_last f p s = Some s' \<and> pools_inv nw lim L' M R s' \<and> L' \<subseteq> L \<and> f \<in> set (fp_fibers (pools s' p)) \<and>
     (\<forall>q. q \<notin> L \<longrightarrow> fibs s' q = fibs s q)"
proof -
  obtain ps fs where s: "s = mk ps fs" by (metis mk_simps(5))
  have ok: "pools_ok nw lim ps" and fin: "finite L" and eq: "mset_set L = pooled nw ps + add_mset f M"
    and live: "\<forall>f\<in>L. \<exists>x. fs f = Some x \<and> \<not> is_allocated_from_thread x" and card: "int (card L) + R = pool_totals nw ps"
    using inv s by (auto simp: pools_inv_def)
  have lo: "local_ok (ps p)" using ok p by (simp add: pools_ok_def)
  let ?xs = "fp_fibers (ps p)" and ?k = "unat (fp_max_size (ps p) - 1)"
  have k: "?k = unat (fp_max_size (ps p)) - 1" using lo by (intro unat_minus_one) (auto simp: local_ok_def)
  have xs: "distinct ?xs" "set ?xs \<subseteq> L" "length ?xs \<le> unat (fp_max_size (ps p))" "f \<notin> set ?xs"
    using inv_pool [OF inv, of p] p lo s by (auto simp: local_ok_def)
  have ds: "distinct (drop ?k ?xs)" "set (drop ?k ?xs) \<subseteq> L" using xs by (auto dest: in_set_dropD)
  let ?q = "kept_fibers ?k (Some f) (ps p)" and ?L = "L - set (drop ?k ?xs)" and ?fs = "freed (drop ?k ?xs) fs"
  have "pool_free_fibers p (fp_max_size (ps p) - 1) (Some f) (mk ps fs) = Some (mk (ps(p := ?q)) ?fs)"
  proof (rule pool_free_fibers_run)
    show "\<forall>x\<in>set ?xs. fs x \<noteq> None" using live xs(2) by fastforce
    show "Some f = None \<or> ?k < unat (fp_max_size (ps p))" using k lo by (auto simp: local_ok_def)
  qed (use lo xs in \<open>auto simp: free_lock_def local_ok_def\<close>)
  then have run: "put_last f p s = Some (mk (ps(p := ?q)) ?fs)"
    using lo by (simp add: s put_last_def unlock_if_shared_def local_ok_def)
  have "fp_total (ps p) - int n \<le> 0" for n using lo by (simp add: local_ok_def)
  then have "local_ok ?q" using lo xs(3) k by (auto simp: local_ok_def kept_fibers_def)
  then have ok': "pools_ok nw lim (ps(p := ?q))" using ok p by (auto simp: pools_ok_def)
  have L: "mset_set ?L + mset (drop ?k ?xs) = mset_set L" "card ?L + length (drop ?k ?xs) = card L"
    using ds fin by (metis mset_set_Diff mset_set_set subset_imp_msubset_mset_set subset_mset.diff_add,
      metis card_Diff_subset card_mono distinct_card finite_set le_add_diff_inverse2)
  have eq': "mset_set ?L = pooled nw (ps(p := ?q)) + M"
  proof -
    have "mset ?xs = mset (take ?k ?xs) + mset (drop ?k ?xs)" by (metis append_take_drop_id mset_append)
    moreover have "pooled nw (ps(p := ?q)) + mset ?xs = pooled nw ps + (mset (take ?k ?xs) + {#f#})"
      using pooled_upd [of p nw ps ?q] p by (simp add: kept_fibers_def)
    ultimately show ?thesis using eq L(1) by (rule mset_dropped)
  qed
  have "pool_totals nw (ps(p := ?q)) = pool_totals nw ps - int (length (drop ?k ?xs))"
    using totals_upd [of p nw ps ?q] p by (simp add: kept_fibers_def)
  then have "pools_inv nw lim ?L M R (mk (ps(p := ?q)) ?fs)"
    using ok' fin eq' live card L(2) by (auto simp: pools_inv_def freed_def)
  moreover have "?fs q = fs q" if "q \<notin> L" for q using that ds(2) by (auto simp: freed_def)
  moreover have "f \<in> set (fp_fibers ?q)" by (simp add: kept_fibers_def)
  ultimately show ?thesis using run s by (intro exI [of _ "mk (ps(p := ?q)) ?fs"] exI [of _ ?L]) auto
qed

lemma put_fiber_run:
  assumes inv: "pools_inv nw lim L (add_mset f M) R s" and p: "p \<in> {1..nw}"
  shows "\<exists>s' L'. remove_reference f (Some p) s = Some s' \<and> pools_inv nw lim L' M R s' \<and> L' \<subseteq> L \<and> f \<in> set (fp_fibers (pools s' p)) \<and>
     (\<forall>q. q \<notin> L \<longrightarrow> fibs s' q = fibs s q)"
proof -
  have fL: "f \<in> L" using inv_pool(3) [OF inv, of 0] by auto
  obtain s1 where 1: "put_local f p s = Some (length (fp_fibers (pools s p)) < unat (fp_max_size (pools s p)), s1)"
      "if length (fp_fibers (pools s p)) < unat (fp_max_size (pools s p)) then pools_inv nw lim L M R s1 \<and> f \<in> set (fp_fibers (pools s1 p))
      else pools_inv nw lim L (add_mset f M) R s1 \<and> pools s1 = pools s" "\<forall>q. q \<noteq> f \<longrightarrow> fibs s1 q = fibs s q"
    using put_local_run [OF inv p] by blast
  show ?thesis
  proof (cases "length (fp_fibers (pools s p)) < unat (fp_max_size (pools s p))")
    case True
    then show ?thesis using 1 fL by (intro exI [of _ s1] exI [of _ L]) (auto simp: remove_reference_def deallocate_self_def)
  next
    case False
    then have inv1: "pools_inv nw lim L (add_mset f M) R s1" using 1(2) by simp
    then have par: "fp_parent (pools s1 p) \<noteq> None" using p by (simp add: pools_inv_def pools_ok_def local_ok_def)
    obtain s2 where 2: "move_to_parent_pool p (num_to_keep p s1) s1 = Some s2" "pools_inv nw lim L (add_mset f M) R s2" "fibs s2 = fibs s1"
      using move_to_parent_inv [OF inv1 p] by blast
    obtain s3 L' where 3: "put_last f p s2 = Some s3" "pools_inv nw lim L' M R s3" "L' \<subseteq> L" "f \<in> set (fp_fibers (pools s3 p))"
        "\<forall>q. q \<notin> L \<longrightarrow> fibs s3 q = fibs s2 q"
      using put_last_run [OF 2(2) p] by blast
    have "remove_reference f (Some p) s = Some s3" using 1(1) 2(1) 3(1) False par by (simp add: remove_reference_def deallocate_self_def)
    moreover have "fibs s3 q = fibs s q" if "q \<notin> L" for q using that 3(5) 2(3) 1(3) fL by auto
    ultimately show ?thesis using 3(2-4) by blast
  qed
qed

lemma pool_destroy_run:
  assumes inv: "pools_inv nw lim L M R s" and p: "p \<in> {1..nw}"
  shows "\<exists>s' L'. pool_destroy p s = Some s' \<and> pools_inv nw lim L' M R s' \<and> fp_fibers (pools s' p) = []"
proof -
  obtain ps fs where s: "s = mk ps fs" by (metis mk_simps(5))
  have ok: "pools_ok nw lim ps" and lo: "local_ok (ps p)" using inv p s by (auto simp: pools_inv_def pools_ok_def)
  obtain ps1 where m: "move_to_parent_pool p 0 (mk ps fs) = Some (mk ps1 fs)"
      "pools_ok nw lim ps1" "pooled nw ps1 = pooled nw ps" "pool_totals nw ps1 = pool_totals nw ps"
    using move_to_parent_run [OF ok p] by blast
  have inv1: "pools_inv nw lim L M R (mk ps1 fs)" using inv m(2-4) s by (simp add: pools_inv_def)
  have lo1: "local_ok (ps1 p)" using m(2) p by (simp add: pools_ok_def)
  let ?xs = "fp_fibers (ps1 p)" and ?q = "kept_fibers 0 None (ps1 p)"
  have xs: "distinct ?xs" "set ?xs \<subseteq> L" "set_mset M \<inter> set ?xs = {}" using inv_pool [OF inv1, of p] p by auto
  have "pool_free_fibers p 0 None (mk ps1 fs) = Some (mk (ps1(p := ?q)) (freed ?xs fs))"
    using pool_free_fibers_run [of ps1 p fs None 0] inv1 xs lo1 by (fastforce simp: free_lock_def local_ok_def pools_inv_def)
  then have run: "pool_destroy p s = Some (mk (ps1(p := ?q)) (freed ?xs fs))"
    using m(1) lo lo1 by (simp add: s pool_destroy_def lock_if_shared_def unlock_if_shared_def local_ok_def)
  have L: "mset_set (L - set ?xs) + mset ?xs = mset_set L" "card (L - set ?xs) + length ?xs = card L"
    using xs(1,2) inv unfolding pools_inv_def by (metis mset_set_Diff mset_set_set subset_imp_msubset_mset_set subset_mset.diff_add,
      metis card_Diff_subset card_mono distinct_card finite_set le_add_diff_inverse2)
  have "pooled nw (ps1(p := ?q)) + mset ?xs = pooled nw ps1" using pooled_upd [of p nw ps1 ?q] p by (simp add: kept_fibers_def)
  moreover have "mset_set L = pooled nw ps1 + M" using inv1 by (simp add: pools_inv_def)
  ultimately have "mset_set (L - set ?xs) = pooled nw (ps1(p := ?q)) + M"
    using L(1) by (metis (no_types, lifting) add.assoc add.commute add_right_imp_eq)
  moreover have "pool_totals nw (ps1(p := ?q)) = pool_totals nw ps1 - int (length ?xs)"
    using totals_upd [of p nw ps1 ?q] p by (simp add: kept_fibers_def)
  moreover have "local_ok ?q" using lo1 by (auto simp: local_ok_def kept_fibers_def)
  then have "pools_ok nw lim (ps1(p := ?q))" using m(2) p by (auto simp: pools_ok_def)
  ultimately have "pools_inv nw lim (L - set ?xs) M R (mk (ps1(p := ?q)) (freed ?xs fs))"
    using inv1 L(2) by (auto simp: pools_inv_def freed_def)
  then show ?thesis using run by (auto simp: kept_fibers_def)
qed

subsection \<open>Allocation keeps the invariant\<close>

definition grown :: "fiber_pool \<Rightarrow> fiber_pool" where
  "grown q = q\<lparr>fp_total := fp_total q + 1, fp_high_water := max (fp_high_water q) (fp_total q + 1)\<rparr>"

definition ungrown :: "fiber_pool \<Rightarrow> fiber_pool" where
  "ungrown q = q\<lparr>fp_high_water := max (fp_high_water q) (fp_total q + 1)\<rparr>"

lemma grown_simps [simp]: "fp_fibers (grown q) = fp_fibers q" "fp_parent (grown q) = fp_parent q" "fp_lock (grown q) = fp_lock q"
    "fp_total (grown q) = fp_total q + 1" "fp_alloc_max (grown q) = fp_alloc_max q" "fp_max_size (grown q) = fp_max_size q"
    "fp_stack_size (grown q) = fp_stack_size q"
    "fp_fibers (ungrown q) = fp_fibers q" "fp_parent (ungrown q) = fp_parent q" "fp_lock (ungrown q) = fp_lock q"
    "fp_total (ungrown q) = fp_total q" "fp_alloc_max (ungrown q) = fp_alloc_max q" "fp_max_size (ungrown q) = fp_max_size q"
  by (simp_all add: grown_def ungrown_def)

lemma increment_grown: "increment_pool_total p (mk ps fs) = mk (ps(p := grown (ps p))) fs"
proof -
  have "(if h < t then q\<lparr>fp_total := t, fp_high_water := t\<rparr> else q\<lparr>fp_total := t\<rparr>) = q\<lparr>fp_total := t, fp_high_water := max h t\<rparr>"
    if "fp_high_water q = h" for q :: fiber_pool and h t using that by (cases q) (auto simp: max_def)
  from this [OF refl] show ?thesis by (simp add: increment_pool_total_def grown_def Let_def)
qed

lemma grown_locked: "(grown (locked q))\<lparr>fp_lock := fp_lock q\<rparr> = grown q"
  by (cases q) (simp add: grown_def locked_def)

lemma look_in_pool_eq:
  assumes "free_lock (ps p)"
  shows "look_in_pool p (mk ps fs) = Some
     (if fp_fibers (ps p) \<noteq> [] then (Some (last (fp_fibers (ps p))), False, mk (ps(p := (ps p)\<lparr>fp_fibers := butlast (fp_fibers (ps p))\<rparr>)) fs)
      else if fp_total (ps p) < fp_alloc_max (ps p) then (None, True, mk (ps(p := grown (ps p))) fs)
      else (None, False, mk ps fs))"
proof -
  have l: "fp_lock (ps p) \<noteq> Some True" using assms by (simp add: free_lock_def)
  have u1: "unlock_if_shared p (mk (ps(p := (locked (ps p))\<lparr>fp_fibers := b\<rparr>)) fs) = Some (mk (ps(p := (ps p)\<lparr>fp_fibers := b\<rparr>)) fs)" for b
    using unlock_run [of "ps(p := (locked (ps p))\<lparr>fp_fibers := b\<rparr>)" p "fp_lock (ps p)" fs] l by simp
  have u2: "unlock_if_shared p (mk (ps(p := locked (ps p))) fs) = Some (mk ps fs)"
    using unlock_run [of "ps(p := locked (ps p))" p "fp_lock (ps p)" fs] l by simp
  have u3: "unlock_if_shared p (mk (ps(p := grown (locked (ps p)))) fs) = Some (mk (ps(p := grown (ps p))) fs)"
    using unlock_run [of "ps(p := grown (locked (ps p)))" p "fp_lock (ps p)" fs] l by (simp add: grown_locked)
  show ?thesis using lock_run [of ps p, OF assms, of fs] u1 u2 u3
    by (simp add: look_in_pool_def Let_def pool_size_def increment_grown)
qed

lemma undo_allocation_eq:
  assumes "free_lock (ps p)"
  shows "undo_allocation p (mk ps fs) = Some (mk (ps(p := (ps p)\<lparr>fp_total := fp_total (ps p) - 1\<rparr>)) fs)"
proof -
  have l: "fp_lock (ps p) \<noteq> Some True" using assms by (simp add: free_lock_def)
  show ?thesis
    using lock_run [of ps p, OF assms, of fs] unlock_run [of "ps(p := (locked (ps p))\<lparr>fp_total := fp_total (ps p) - 1\<rparr>)" p "fp_lock (ps p)" fs] l
    by (simp add: undo_allocation_def decrement_pool_total_def)
qed

lemma fiber_allocate_step:
  assumes "free_lock (ps p)"
  shows "fiber_allocate heap p (mk ps fs) =
     (let up = (\<lambda>s. case fp_parent (ps p) of None \<Rightarrow> Some (None, s) | Some q \<Rightarrow> fiber_allocate heap q s)
      in if fp_fibers (ps p) \<noteq> [] then Some (Some (last (fp_fibers (ps p))), mk (ps(p := (ps p)\<lparr>fp_fibers := butlast (fp_fibers (ps p))\<rparr>)) fs)
         else if fp_total (ps p) < fp_alloc_max (ps p) then
           (case heap (mk (ps(p := grown (ps p))) fs) of
              Some f \<Rightarrow> Some (Some f, mk (ps(p := grown (ps p))) (fs(f \<mapsto> new_fiber (fp_stack_size (ps p)) 0)))
            | None \<Rightarrow> up (mk (ps(p := ungrown (ps p))) fs))
         else up (mk ps fs))"
proof -
  have "free_lock ((ps(p := grown (ps p))) p)" using assms by (simp add: free_lock_def)
  from undo_allocation_eq [of "ps(p := grown (ps p))" p, OF this, of fs]
  have u: "undo_allocation p (mk (ps(p := grown (ps p))) fs) = Some (mk (ps(p := ungrown (ps p))) fs)"
    by (simp add: grown_def ungrown_def same_total)
  show ?thesis using look_in_pool_eq [of ps p, OF assms, of fs] u
    by (subst fiber_allocate.simps) (simp add: Let_def allocate_from_heap_def split: option.splits)
qed

text \<open>The sections of a request, with the fibers they take out of the pools.\<close>

lemma inv_free_lock: "pools_inv nw lim L M R s \<Longrightarrow> q \<le> nw \<Longrightarrow> free_lock (pools s q)"
  by (cases "q = 0") (auto simp: pools_inv_def pools_ok_def root_ok_def local_ok_def free_lock_def)

lemma inv_parent:
  assumes "pools_inv nw lim L M R s" and "q \<le> nw"
  shows "fp_parent (pools s q) = (if q = 0 then None else Some 0)"
proof -
  have "root_ok lim (pools s 0)" "\<forall>p\<in>{1..nw}. local_ok (pools s p)" using assms(1) by (simp_all add: pools_inv_def pools_ok_def)
  then show ?thesis using assms(2) by (auto simp: root_ok_def local_ok_def)
qed

lemma pools_ok_upd:
  assumes "pools_ok nw lim ps" and "q \<le> nw" and "q = 0 \<Longrightarrow> root_ok lim (ps 0) \<Longrightarrow> root_ok lim r" and "local_ok (ps q) \<Longrightarrow> local_ok r"
  shows "pools_ok nw lim (ps(q := r))"
  using assms by (cases "q = 0") (auto simp: pools_ok_def)

lemma pop_inv:
  assumes inv: "pools_inv nw lim L M R (mk ps fs)" and q: "q \<le> nw" and ne: "fp_fibers (ps q) \<noteq> []"
  shows "pools_inv nw lim L (add_mset (last (fp_fibers (ps q))) M) R (mk (ps(q := (ps q)\<lparr>fp_fibers := butlast (fp_fibers (ps q))\<rparr>)) fs)"
proof -
  let ?f = "last (fp_fibers (ps q))" and ?r = "(ps q)\<lparr>fp_fibers := butlast (fp_fibers (ps q))\<rparr>"
  have "mset (fp_fibers (ps q)) = add_mset ?f (mset (butlast (fp_fibers (ps q))))"
    using ne by (metis append_butlast_last_id add_mset_add_single mset.simps(1) mset.simps(2) mset_append)
  then have "add_mset ?f (pooled nw (ps(q := ?r))) = pooled nw ps" using pooled_upd [OF q, of ps ?r] by simp
  moreover have "pool_totals nw (ps(q := ?r)) = pool_totals nw ps" using totals_upd [OF q, of ps ?r] by simp
  moreover have "pools_ok nw lim (ps(q := ?r))"
    by (rule pools_ok_upd [OF _ q]) (use inv in \<open>auto simp: pools_inv_def root_ok_def local_ok_def\<close>)
  ultimately show ?thesis using inv by (auto simp: pools_inv_def)
qed

lemma reserve_inv:
  assumes inv: "pools_inv nw lim L M R (mk ps fs)" and q: "q \<le> nw" and lt: "fp_total (ps q) < fp_alloc_max (ps q)"
  shows "pools_inv nw lim L M (R + 1) (mk (ps(q := grown (ps q))) fs)"
proof -
  have "pooled nw (ps(q := grown (ps q))) = pooled nw ps" using pooled_upd [OF q, of ps "grown (ps q)"] by simp
  moreover have "pool_totals nw (ps(q := grown (ps q))) = pool_totals nw ps + 1" using totals_upd [OF q, of ps "grown (ps q)"] by simp
  moreover have "pools_ok nw lim (ps(q := grown (ps q)))"
    by (rule pools_ok_upd [OF _ q]) (use inv lt in \<open>auto simp: pools_inv_def root_ok_def local_ok_def\<close>)
  ultimately show ?thesis using inv by (simp add: pools_inv_def)
qed

lemma heap_inv:
  assumes inv: "pools_inv nw lim L M R s" and f: "fibs s f = None"
  shows "pools_inv nw lim (insert f L) (add_mset f M) (R - 1) (s\<lparr>fibs := (fibs s)(f \<mapsto> new_fiber sz 0)\<rparr>)"
proof -
  have "f \<notin> L" using inv f by (auto simp: pools_inv_def)
  moreover have "\<not> is_allocated_from_thread (new_fiber sz 0)" by (simp add: is_allocated_from_thread_def new_fiber_def)
  ultimately show ?thesis using inv by (auto simp: pools_inv_def)
qed

lemma undo_inv:
  assumes inv: "pools_inv nw lim L M R s" and q: "q \<le> nw"
  shows "\<exists>s'. undo_allocation q s = Some s' \<and> pools_inv nw lim L M (R - 1) s' \<and> fibs s' = fibs s"
proof -
  obtain ps fs where s: "s = mk ps fs" by (metis mk_simps(5))
  let ?r = "(ps q)\<lparr>fp_total := fp_total (ps q) - 1\<rparr>"
  have "pooled nw (ps(q := ?r)) = pooled nw ps" using pooled_upd [OF q, of ps ?r] by simp
  moreover have "pool_totals nw (ps(q := ?r)) = pool_totals nw ps - 1" using totals_upd [OF q, of ps ?r] by simp
  moreover have "pools_ok nw lim (ps(q := ?r))"
    by (rule pools_ok_upd [OF _ q]) (use inv s in \<open>auto simp: pools_inv_def root_ok_def local_ok_def\<close>)
  ultimately have "pools_inv nw lim L M (R - 1) (mk (ps(q := ?r)) fs)" using inv by (simp add: s pools_inv_def)
  then show ?thesis using undo_allocation_eq [of ps q fs] inv_free_lock [OF inv q] by (simp add: s)
qed

lemma look_run:
  assumes inv: "pools_inv nw lim L M R s" and q: "q \<le> nw"
  shows "\<exists>found can s'. look_in_pool q s = Some (found, can, s') \<and> fibs s' = fibs s \<and>
     (case found of Some f \<Rightarrow> pools_inv nw lim L (add_mset f M) R s'
      | None \<Rightarrow> pools_inv nw lim L M (if can then R + 1 else R) s')"
proof -
  obtain ps fs where s: "s = mk ps fs" by (metis mk_simps(5))
  note eq = look_in_pool_eq [of ps q fs]
  note i = inv [unfolded s]
  show ?thesis using eq inv_free_lock [OF i q] pop_inv [OF i q] reserve_inv [OF i q] i by (auto simp: s)
qed

subsection \<open>The pools at the start\<close>

definition fiber_limit :: "settings \<Rightarrow> int" where
  "fiber_limit g = (if max_stacks g \<noteq> 0 then sint (max_stacks g) else INT_MAX)"

lemma fold_worker_pools:
  "pools (fold (make_worker_pool g) ws s) p =
     (if p \<in> set ws then \<lparr>fp_lock = None, fp_parent = Some 0, fp_stack_size = stack_size g, fp_fibers = [],
        fp_max_size = word_of_int (fiber_pool_size g), fp_total = 0, fp_high_water = 0, fp_alloc_max = 0\<rparr> else pools s p)"
  by (induction ws arbitrary: s) (auto simp: make_worker_pool_def pool_init_def)

lemma init_inv:
  assumes "init_fiber_pools nw g s0 = Some s" and "0 < fiber_pool_size g" and "fiber_pool_size g < 2 ^ 32" and "0 \<le> sint (max_stacks g)"
  shows "pools_inv nw (fiber_limit g) {} {#} 0 s"
proof -
  let ?lim = "if max_stacks g \<noteq> 0 then max_stacks g else word_of_int INT_MAX"
  have lim: "sint ?lim = fiber_limit g" "0 \<le> fiber_limit g"
    using assms(4) by (auto simp: fiber_limit_def INT_MAX_def)
  have z: "unat (word_of_int (fiber_pool_size g) :: 32 word) = nat (fiber_pool_size g)"
    using assms(2,3) by (simp add: unat_eq_nat_uint uint_word_of_int)
  have p0: "fp_parent (pools s 0) = None" "fp_lock (pools s 0) = Some False" "fp_total (pools s 0) = 0" "fp_fibers (pools s 0) = []"
      "fp_alloc_max (pools s 0) = fiber_limit g"
    using assms(1) lim(1) by (auto simp: init_fiber_pools_def set_fiber_limit_def pool_init_def fold_worker_pools cilk_assert_def simp del: upt_Suc split: if_splits)
  have pw: "local_ok (pools s p) \<and> fp_fibers (pools s p) = [] \<and> fp_total (pools s p) = 0" if "p \<in> {1..nw}" for p
    using assms(1,2) that z by (auto simp: init_fiber_pools_def set_fiber_limit_def pool_init_def fold_worker_pools cilk_assert_def local_ok_def simp del: upt_Suc split: if_splits)
  have all: "fp_fibers (pools s p) = [] \<and> fp_total (pools s p) = 0" if "p \<le> nw" for p
    using p0 pw that by (cases "p = 0") auto
  then show ?thesis using p0 pw lim(2) by (auto simp: pools_inv_def pools_ok_def root_ok_def pooled_def pool_totals_def)
qed

definition some_settings :: settings where
  "some_settings = \<lparr>cfg_stealing_disabled = False, under_ptool = False, force_reduce = False, nworkers = 2, max_user_workers = 2,
     fiber_pool_size = 7, global_fiber_pool_size = 18, max_stacks = 2400, cfg_max_steal_failures = 128, stack_size = 1048576,
     cfg_total_workers = 3\<rparr>"

definition one_fiber_heap :: "fibers_state \<Rightarrow> nat option" where
  "one_fiber_heap s = (if fibs s 0 = None then Some 0 else None)"

lemma store_zero: "0 \<le> hi \<Longrightarrow> hi < LONG_MAX \<Longrightarrow> store_int ''0'' 0 hi = (SET_PARAM_SUCCESS, Some 0)"
proof -
  assume hi: "0 \<le> hi" "hi < LONG_MAX"
  have "strtol ''0'' = (0, False)" by code_simp
  then show ?thesis using hi by (simp add: store_int_def LONG_MIN_def)
qed

lemma full_empty_pool_aborts:
  assumes "fp_fibers (ps p) = []" and "fp_max_size (ps p) = 0" and "fp_lock (ps p) = None" and "fp_parent (ps p) = Some 0" and "p \<noteq> 0"
    and "fp_lock (ps 0) = Some False" and "fp_fibers (ps 0) = []" and "fp_total (ps p) = 0"
  shows "remove_reference f (Some p) (mk ps fs) = None"
proof -
  have mv: "move_to_parent_pool p 0 (mk ps fs') = Some (mk ps fs')" for fs'
  proof (cases "unat (fp_max_size (ps 0)) = 0")
    case True
    then show ?thesis using assms by (simp add: move_to_parent_pool_def parent_full_def pool_size_def)
  next
    case False
    have "fiber_move_loop 0 n [] [] = ([], [])" for n by (subst fiber_move_loop.simps) simp
    moreover have e: "(ps p)\<lparr>fp_fibers := []\<rparr> = ps p" "(ps 0)\<lparr>fp_fibers := [], fp_lock := Some False\<rparr> = ps 0"
      using assms by (cases "ps p", simp, cases "ps 0", simp)
    ultimately show ?thesis using False assms
      by (simp add: move_to_parent_pool_def parent_full_def move_locked_def pool_size_def fp_mutex_lock_def fp_mutex_unlock_def e)
  qed
  have "pool_free_fibers p (- 1) (Some f) (mk ps fs') = None" for fs'
    using assms by (subst pool_free_fibers.simps) (simp add: lock_if_shared_def grab_fibers_eq decrement_pool_total_def pool_size_def Let_def)
  then show ?thesis using assms mv
    by (simp add: remove_reference_def deallocate_self_def put_local_def put_last_def num_to_keep_def upd_fiber_def cilk_assert_def
        lock_if_shared_def unlock_if_shared_def pool_size_def split: option.splits)
qed

lemma zero_pools:
  assumes "init_fiber_pools nw (g\<lparr>fiber_pool_size := 0, max_stacks := 0\<rparr>) s0 = Some s" and "p \<in> {1..nw}"
  shows "pools s p = \<lparr>fp_lock = None, fp_parent = Some 0, fp_stack_size = stack_size g, fp_fibers = [],
      fp_max_size = 0, fp_total = 0, fp_high_water = 0, fp_alloc_max = 0\<rparr>"
    and "pools s 0 = \<lparr>fp_lock = Some False, fp_parent = None, fp_stack_size = stack_size g, fp_fibers = [],
      fp_max_size = word_of_int (global_fiber_pool_size g), fp_total = 0, fp_high_water = 0, fp_alloc_max = sint (word_of_int INT_MAX :: 32 word)\<rparr>"
  using assms by (auto simp: init_fiber_pools_def set_fiber_limit_def pool_init_def cilk_assert_def fold_worker_pools simp del: upt_Suc)

lemma init_fibs: "init_fiber_pools nw g s0 = Some s \<Longrightarrow> fibs s = fibs s0"
proof -
  have "fibs (fold (make_worker_pool g) ws s) = fibs s" for ws s
    by (induction ws arbitrary: s) (auto simp: make_worker_pool_def pool_init_def)
  then show "init_fiber_pools nw g s0 = Some s \<Longrightarrow> fibs s = fibs s0"
    by (auto simp: init_fiber_pools_def set_fiber_limit_def pool_init_def cilk_assert_def simp del: upt_Suc)
qed

text \<open>
  C37: A program that sets both the number of local stacks and the limit on stacks to zero - both values are accepted - cannot give back a
  fiber: the pools then have no slot, the number of fibers to keep, one less than that, wraps around, and the first
  fiber a worker returns to its pool fails an assertion.
\<close>

theorem zero_local_stacks_abort:
  assumes "p \<in> {1..nw}" and "init_fiber_pools nw (g\<lparr>fiber_pool_size := 0, max_stacks := 0\<rparr>) s0 = Some s"
    and "fiber_allocate heap p s = Some (Some f, s')"
  shows "set_param_imp h False (Some ''local stacks'') (Some ''0'') g = Some (SET_PARAM_SUCCESS, g\<lparr>fiber_pool_size := 0\<rparr>) \<and>
     set_param_imp h False (Some ''nstacks'') (Some ''0'') (g\<lparr>fiber_pool_size := 0\<rparr>) =
       Some (SET_PARAM_SUCCESS, g\<lparr>fiber_pool_size := 0, max_stacks := 0\<rparr>) \<and>
     limit_stacks (g\<lparr>fiber_pool_size := 0, max_stacks := 0\<rparr>) = Some (g\<lparr>fiber_pool_size := 0, max_stacks := 0\<rparr>) \<and>
     remove_reference f (Some p) s' = None"
proof (intro conjI)
  show "set_param_imp h False (Some ''local stacks'') (Some ''0'') g = Some (SET_PARAM_SUCCESS, g\<lparr>fiber_pool_size := 0\<rparr>)"
    by (simp add: set_param_imp_def store_zero LONG_MAX_def)
  show "set_param_imp h False (Some ''nstacks'') (Some ''0'') (g\<lparr>fiber_pool_size := 0\<rparr>) =
       Some (SET_PARAM_SUCCESS, g\<lparr>fiber_pool_size := 0, max_stacks := 0\<rparr>)"
    by (simp add: set_param_imp_def store_zero LONG_MAX_def INT_MAX_def)
  show "limit_stacks (g\<lparr>fiber_pool_size := 0, max_stacks := 0\<rparr>) = Some (g\<lparr>fiber_pool_size := 0, max_stacks := 0\<rparr>)"
    by (simp add: limit_stacks_def)
  obtain ps fs where s: "s = mk ps fs" by (metis mk_simps(5))
  note sh = zero_pools [OF assms(2,1), unfolded s mk_simps]
  have "s' = mk (ps(0 := grown (ps 0))) (fs(f \<mapsto> new_fiber (stack_size g) 0))"
    using assms(3) fiber_allocate_step [of ps p heap fs] fiber_allocate_step [of ps 0 heap fs]
    by (simp add: s sh free_lock_def INT_MAX_def split: option.splits)
  then show "remove_reference f (Some p) s' = None"
    using assms(1) sh by (simp add: full_empty_pool_aborts)
qed

theorem zero_local_stacks_abort_witness:
  "\<exists>s f s'. init_fiber_pools 1 (some_settings\<lparr>fiber_pool_size := 0, max_stacks := 0\<rparr>) (mk (\<lambda>p. undefined) (\<lambda>f. None)) = Some s \<and>
     fiber_allocate one_fiber_heap 1 s = Some (Some f, s') \<and> remove_reference f (Some 1) s' = None"
proof -
  obtain s where i: "init_fiber_pools 1 (some_settings\<lparr>fiber_pool_size := 0, max_stacks := 0\<rparr>) (mk (\<lambda>p. undefined) (\<lambda>f. None)) = Some s"
    by (simp add: init_fiber_pools_def set_fiber_limit_def pool_init_def cilk_assert_def)
  obtain ps fs where s: "s = mk ps fs" by (metis mk_simps(5))
  have fs: "fs = (\<lambda>f. None)" using init_fibs [OF i] s by simp
  have p: "(1::nat) \<in> {1..1}" by simp
  note sh = zero_pools [OF i p, unfolded s mk_simps]
  have "\<exists>s'. fiber_allocate one_fiber_heap 1 s = Some (Some 0, s')"
    using fiber_allocate_step [of ps 1 one_fiber_heap fs] fiber_allocate_step [of ps 0 one_fiber_heap fs] sh
    by (simp add: s fs free_lock_def INT_MAX_def one_fiber_heap_def)
  then obtain s' where a: "fiber_allocate one_fiber_heap 1 s = Some (Some 0, s')" by blast
  then show ?thesis using i zero_local_stacks_abort [OF p i a] by blast
qed

subsection \<open>Leaving a fiber\<close>

lemma inv_fibs:
  assumes "pools_inv nw lim L M R s" and "pools s' = pools s" and "\<And>f. f \<in> L \<Longrightarrow> \<exists>x. fibs s' f = Some x \<and> \<not> is_allocated_from_thread x"
  shows "pools_inv nw lim L M R s'"
  using assms by (simp add: pools_inv_def)

lemma is_resumable_set [simp]: "is_resumable (set_resumable False y) = False"
  by (simp add: is_resumable_def set_resumable_def RESUMABLE_def and.assoc)

text \<open>The fiber that is resumed, once it runs: it has the worker, and what the one before asked for has been done.\<close>

definition taken_over :: "cilk_fiber \<Rightarrow> cilk_fiber \<Rightarrow> cilk_fiber" where
  "taken_over x y = (set_resumable False y)\<lparr>fb_owner := fb_owner x, m_post_switch_proc := None,
     m_pending_remove_ref := None, m_pending_pool := None\<rparr>"

text \<open>The fiber that is resumed, right after the switch: it has been told which fiber to release.\<close>

definition switched_to :: "nat \<Rightarrow> nat \<Rightarrow> cilk_fiber \<Rightarrow> cilk_fiber \<Rightarrow> cilk_fiber" where
  "switched_to me p x y = (set_resumable False y)\<lparr>fb_owner := fb_owner x, m_pending_remove_ref := Some me, m_pending_pool := Some p\<rparr>"

lemma leave_and_switch:
  assumes x: "fibs s me = Some x" and y: "fibs s other = Some y" and ne: "me \<noteq> other" and res: "is_resumable y" "\<not> is_resumable x"
  shows "\<exists>s1. leave_self me (Some p) other s = Some s1 \<and>
     switch_to other s1 = Some (Resumed other, s\<lparr>fibs := (fibs s)(me \<mapsto> x\<lparr>fb_owner := None\<rparr>, other \<mapsto> switched_to me p x y)\<rparr>)"
proof -
  let ?y = "y\<lparr>m_pending_remove_ref := Some me, m_pending_pool := Some p, fb_owner := fb_owner x\<rparr>"
  let ?s1 = "s\<lparr>fibs := (fibs s)(other \<mapsto> ?y, me \<mapsto> x\<lparr>fb_owner := None\<rparr>)\<rparr>"
  have fl: "is_resumable ?y" "\<not> is_resumable (x\<lparr>fb_owner := None\<rparr>)" using res by (simp_all add: is_resumable_def)
  have "leave_self me (Some p) other s = Some ?s1"
    using x y ne fl(2) by (simp add: leave_self_def upd_fiber_def pass_owner_def cilk_assert_def)
  moreover have "set_resumable False ?y = switched_to me p x y" by (cases y) (simp add: switched_to_def set_resumable_def)
  then have "switch_to other ?s1 = Some (Resumed other, s\<lparr>fibs := (fibs s)(me \<mapsto> x\<lparr>fb_owner := None\<rparr>, other \<mapsto> switched_to me p x y)\<rparr>)"
    using ne fl(1) by (simp add: switch_to_def upd_fiber_def fun_upd_twist)
  ultimately show ?thesis by blast
qed

text \<open>What a post-switch procedure may do: it keeps the fiber that waits to be released, and the fiber it runs on.\<close>

definition post_switch_ok ::
    "nat \<Rightarrow> int \<Rightarrow> nat set \<Rightarrow> nat \<Rightarrow> int \<Rightarrow> (nat \<Rightarrow> nat \<Rightarrow> fibers_state \<Rightarrow> fibers_state option) \<Rightarrow> nat \<Rightarrow> nat option \<Rightarrow> nat multiset \<Rightarrow> nat multiset \<Rightarrow> bool" where
  "post_switch_ok nw lim L me R pcall other proc M M' \<longleftrightarrow> (case proc of None \<Rightarrow> M' = M
     | Some pr \<Rightarrow> \<forall>t. pools_inv nw lim L (add_mset me M) R t \<longrightarrow> (\<exists>t' L'. pcall pr other t = Some t' \<and>
         pools_inv nw lim L' (add_mset me M') R t' \<and> other \<notin> L' \<and> fibs t' other = fibs t other))"

lemma release_after_switch:
  assumes inv: "pools_inv nw lim L (add_mset me M) R s" and p: "p \<in> {1..nw}" and other: "other \<notin> L" "fibs s other = Some z"
    and z: "m_pending_remove_ref z = Some me" "m_pending_pool z = Some p"
    and post: "post_switch_ok nw lim L me R pcall other (m_post_switch_proc z) M M'"
  shows "\<exists>s' L'. do_post_switch_actions pcall other s = Some s' \<and> pools_inv nw lim L' M' R s' \<and> me \<in> set (fp_fibers (pools s' p)) \<and>
     fibs s' other = Some (z\<lparr>m_post_switch_proc := None, m_pending_remove_ref := None, m_pending_pool := None\<rparr>)"
proof -
  let ?z = "z\<lparr>m_post_switch_proc := None\<rparr>"
  obtain t L1 where t: "(case m_post_switch_proc z of None \<Rightarrow> Some s
        | Some pr \<Rightarrow> Option.bind (upd_fiber other (\<lambda>x. x\<lparr>m_post_switch_proc := None\<rparr>) s) (pcall pr other)) = Some t"
      "pools_inv nw lim L1 (add_mset me M') R t" "other \<notin> L1" "fibs t other = Some ?z"
  proof (cases "m_post_switch_proc z")
    case None
    then have "?z = z" by (cases z) simp
    then show thesis using None inv other post by (intro that [of s L]) (simp_all add: post_switch_ok_def)
  next
    case (Some pr)
    let ?s = "s\<lparr>fibs := (fibs s)(other \<mapsto> ?z)\<rparr>"
    have "pools_inv nw lim L (add_mset me M) R ?s"
      by (rule inv_fibs [OF inv]) (use inv other in \<open>auto simp: pools_inv_def\<close>)
    then obtain t L1 where "pcall pr other ?s = Some t" "pools_inv nw lim L1 (add_mset me M') R t" "other \<notin> L1" "fibs t other = fibs ?s other"
      using post Some unfolding post_switch_ok_def by force
    then show thesis using Some other by (intro that [of t L1]) (simp_all add: upd_fiber_def)
  qed
  obtain u L2 where u: "remove_reference me (Some p) t = Some u" "pools_inv nw lim L2 M' R u" "L2 \<subseteq> L1" "me \<in> set (fp_fibers (pools u p))"
      "\<forall>q. q \<notin> L1 \<longrightarrow> fibs u q = fibs t q" using put_fiber_run [OF t(2) p] by blast
  have fu: "fibs u other = Some ?z" using u(5) t(3,4) by simp
  let ?z' = "?z\<lparr>m_pending_remove_ref := None, m_pending_pool := None\<rparr>"
  let ?s' = "u\<lparr>fibs := (fibs u)(other \<mapsto> ?z')\<rparr>"
  have "do_post_switch_actions pcall other s = Some ?s'"
    using t(1,4) u(1) fu z other(2) by (simp add: do_post_switch_actions_def upd_fiber_def)
  moreover have "pools_inv nw lim L2 M' R ?s'"
    by (rule inv_fibs [OF u(2)]) (use u(2,3) t(3) in \<open>auto simp: pools_inv_def\<close>)
  ultimately show ?thesis using u(4) by auto
qed

text \<open>
  C26: A fiber that is left for good goes back to the worker's pool, and not before the worker has left it. When a worker leaves a
  fiber of the pools for a suspended fiber, the switch succeeds; when the other fiber starts to run, the fiber that
  was left is still allocated, in no pool, and recorded as the fiber to release. The other fiber then runs its post-switch procedure, if it has one -
  any procedure that keeps the invariant of the pools and the two fibers -, and after it the fiber that was left is in the
  pool of the worker, the invariant holds without it among the fibers in use, and the resumed fiber
  has the worker, is no longer marked as suspended, and has nothing pending.
\<close>

theorem leave_fiber_returns_it:
  assumes inv: "pools_inv nw lim L (add_mset me M) R s" and p: "p \<in> {1..nw}" and other: "other \<notin> L" and y: "fibs s other = Some y"
    and res: "is_resumable y" and x: "fibs s me = Some x" and nres: "\<not> is_resumable x"
    and post: "post_switch_ok nw lim L me R pcall other (m_post_switch_proc y) M M'"
  shows "\<exists>s1 s2 s' L'. leave_self me (Some p) other s = Some s1 \<and> switch_to other s1 = Some (Resumed other, s2) \<and>
     do_post_switch_actions pcall other s2 = Some s' \<and> remove_self_and_resume_other pcall me (Some p) other s = Some (Resumed other, s') \<and>
     pools_inv nw lim L (add_mset me M) R s2 \<and> fibs s2 me \<noteq> None \<and> (\<forall>q\<le>nw. me \<notin> set (fp_fibers (pools s2 q))) \<and>
     fibs s2 other = Some (switched_to me p x y) \<and>
     pools_inv nw lim L' M' R s' \<and> me \<in> set (fp_fibers (pools s' p)) \<and> fibs s' other = Some (taken_over x y)"
proof -
  have "me \<in> L" using inv_pool(3) [OF inv, of 0] by simp
  then have ne: "me \<noteq> other" using other by auto
  let ?s2 = "s\<lparr>fibs := (fibs s)(me \<mapsto> x\<lparr>fb_owner := None\<rparr>, other \<mapsto> switched_to me p x y)\<rparr>"
  obtain s1 where s1: "leave_self me (Some p) other s = Some s1" "switch_to other s1 = Some (Resumed other, ?s2)"
    using leave_and_switch [OF x y ne res nres, of p] by blast
  have inv2: "pools_inv nw lim L (add_mset me M) R ?s2"
  proof (rule inv_fibs [OF inv])
    show "\<exists>w. fibs ?s2 f = Some w \<and> \<not> is_allocated_from_thread w" if "f \<in> L" for f
      using that inv other x by (auto simp: pools_inv_def is_allocated_from_thread_def)
  qed simp
  have "\<exists>s' L'. do_post_switch_actions pcall other ?s2 = Some s' \<and> pools_inv nw lim L' M' R s' \<and> me \<in> set (fp_fibers (pools s' p)) \<and>
      fibs s' other = Some ((switched_to me p x y)\<lparr>m_post_switch_proc := None, m_pending_remove_ref := None, m_pending_pool := None\<rparr>)"
    by (rule release_after_switch [OF inv2 p other]) (use post in \<open>simp_all add: switched_to_def set_resumable_def\<close>)
  then obtain s' L' where r: "do_post_switch_actions pcall other ?s2 = Some s'" "pools_inv nw lim L' M' R s'" "me \<in> set (fp_fibers (pools s' p))"
      "fibs s' other = Some ((switched_to me p x y)\<lparr>m_post_switch_proc := None, m_pending_remove_ref := None, m_pending_pool := None\<rparr>)" by blast
  have run: "remove_self_and_resume_other pcall me (Some p) other s = Some (Resumed other, s')"
    using s1 r(1) by (simp add: remove_self_and_resume_other_def resume_other_def)
  have "me \<notin> set (fp_fibers (pools ?s2 q))" if "q \<le> nw" for q using inv_pool(4) [OF inv2 that] by auto
  moreover have "(switched_to me p x y)\<lparr>m_post_switch_proc := None, m_pending_remove_ref := None, m_pending_pool := None\<rparr> = taken_over x y"
    by (simp add: switched_to_def taken_over_def)
  ultimately show ?thesis using s1 r run inv2 ne by (intro exI [of _ s1] exI [of _ ?s2] exI [of _ s'] exI [of _ L']) simp
qed

definition two_fibers :: fibers_state where
  "two_fibers = mk (\<lambda>p. if p = 0 then \<lparr>fp_lock = Some False, fp_parent = None, fp_stack_size = 0, fp_fibers = [], fp_max_size = 4,
       fp_total = 1, fp_high_water = 1, fp_alloc_max = 10\<rparr>
     else \<lparr>fp_lock = None, fp_parent = Some 0, fp_stack_size = 0, fp_fibers = [], fp_max_size = 2, fp_total = 0, fp_high_water = 0, fp_alloc_max = 0\<rparr>)
     (\<lambda>f. if f = 5 then Some ((new_fiber 0 0)\<lparr>fb_owner := Some 1\<rparr>)
          else if f = 9 then Some ((new_fiber 0 RESUMABLE)\<lparr>m_post_switch_proc := Some 3\<rparr>) else None)"

text \<open>A worker leaves fiber 5 for fiber 9, which has a post-switch procedure; fiber 5 ends in the pool of the worker.\<close>

theorem leave_fiber_returns_it_witness:
  "\<exists>s'. remove_self_and_resume_other (\<lambda>pr f s. Some s) 5 (Some 1) 9 two_fibers = Some (Resumed 9, s') \<and>
     5 \<in> set (fp_fibers (pools s' 1)) \<and> map_option fb_owner (fibs s' 9) = Some (Some 1)"
proof -
  have inv: "pools_inv 1 10 {5} {#5#} 0 two_fibers"
    by (simp add: pools_inv_def two_fibers_def pools_ok_def root_ok_def local_ok_def pooled_def pool_totals_def is_allocated_from_thread_def new_fiber_def)
  have y: "fibs two_fibers 9 = Some ((new_fiber 0 RESUMABLE)\<lparr>m_post_switch_proc := Some 3\<rparr>)"
    and x: "fibs two_fibers 5 = Some ((new_fiber 0 0)\<lparr>fb_owner := Some 1\<rparr>)" by (simp_all add: two_fibers_def)
  have r: "is_resumable ((new_fiber 0 RESUMABLE)\<lparr>m_post_switch_proc := Some 3\<rparr>)" "\<not> is_resumable ((new_fiber 0 0)\<lparr>fb_owner := Some 1\<rparr>)"
    by (simp_all add: is_resumable_def new_fiber_def RESUMABLE_def)
  have post: "post_switch_ok 1 10 {5} 5 0 (\<lambda>pr f s. Some s) 9 (Some 3) {#} {#}" by (auto simp: post_switch_ok_def)
  from leave_fiber_returns_it [OF inv _ _ y r(1) x r(2), of 1 "\<lambda>pr f s. Some s" "{#}"] post
  show ?thesis by (auto simp: taken_over_def)
qed

end
