(* ===== verification/Fiber_Steps.thy ===== *)
theory Fiber_Steps
  imports Fiber_Pool
begin

section \<open>The workers and the pools of fibers, interleaved\<close>

text \<open>
  Worker \<open>w\<close> (from 1 to \<open>nw\<close>) owns pool \<open>w\<close>, which has no lock because no other worker uses it; pool 0 is shared. A worker that
  asks for a fiber or gives one back runs the sections of \<open>Fiber_Pool\<close> one by one, and the other workers may do the same between any two of
  them: a section on the shared pool is run under its lock, so it is one step. Outside the sections the code reads the size of the shared
  pool without its lock (\<open>parent_full\<close>) and calls the heap. The heap gives an address that is not in use, or null, at any time.
  What a worker does next is its program counter.
\<close>

datatype fiber_pc =
    F_idle
  | F_look nat \<comment> \<open>\<^verbatim>\<open>cilk_fiber::allocate\<close> of the pool\<close>
  | F_heap nat \<comment> \<open>counted in the pool, about to call the heap\<close>
  | F_undo nat \<comment> \<open>the heap had no memory\<close>
  | F_put nat \<comment> \<open>\<^verbatim>\<open>cilk_fiber::deallocate_self\<close> of the fiber\<close>
  | F_full nat \<comment> \<open>the worker's pool is full\<close>
  | F_move nat \<comment> \<open>about to lock the shared pool\<close>
  | F_last nat \<comment> \<open>about to free fibers of the worker's pool\<close>

record fiber_sys =
  fmem :: fibers_state
  fpc :: "nat \<Rightarrow> fiber_pc"
  in_use :: "nat set"

definition search_parent :: "nat \<Rightarrow> fibers_state \<Rightarrow> fiber_pc" where
  "search_parent q s = (case fp_parent (pools s q) of None \<Rightarrow> F_idle | Some r \<Rightarrow> F_look r)"

inductive fiber_step :: "nat \<Rightarrow> fiber_sys \<Rightarrow> fiber_sys \<Rightarrow> bool" for w where
  ask: "fpc c w = F_idle \<Longrightarrow> fiber_step w c (c\<lparr>fpc := (fpc c)(w := F_look w)\<rparr>)"
| found: "fpc c w = F_look q \<Longrightarrow> look_in_pool q (fmem c) = Some (Some f, can, s) \<Longrightarrow>
    fiber_step w c (c\<lparr>fmem := s, fpc := (fpc c)(w := F_idle), in_use := insert f (in_use c)\<rparr>)"
| count: "fpc c w = F_look q \<Longrightarrow> look_in_pool q (fmem c) = Some (None, True, s) \<Longrightarrow>
    fiber_step w c (c\<lparr>fmem := s, fpc := (fpc c)(w := F_heap q)\<rparr>)"
| at_limit: "fpc c w = F_look q \<Longrightarrow> look_in_pool q (fmem c) = Some (None, False, s) \<Longrightarrow>
    fiber_step w c (c\<lparr>fmem := s, fpc := (fpc c)(w := search_parent q s)\<rparr>)"
| heap_gives: "fpc c w = F_heap q \<Longrightarrow> fibs (fmem c) f = None \<Longrightarrow>
    allocate_from_heap (\<lambda>_. Some f) (fp_stack_size (pools (fmem c) q)) (fmem c) = (Some f, s) \<Longrightarrow>
    fiber_step w c (c\<lparr>fmem := s, fpc := (fpc c)(w := F_idle), in_use := insert f (in_use c)\<rparr>)"
| heap_fails: "fpc c w = F_heap q \<Longrightarrow> fiber_step w c (c\<lparr>fpc := (fpc c)(w := F_undo q)\<rparr>)"
| undo: "fpc c w = F_undo q \<Longrightarrow> undo_allocation q (fmem c) = Some s \<Longrightarrow>
    fiber_step w c (c\<lparr>fmem := s, fpc := (fpc c)(w := search_parent q s)\<rparr>)"
| give: "fpc c w = F_idle \<Longrightarrow> f \<in> in_use c \<Longrightarrow> fiber_step w c (c\<lparr>fpc := (fpc c)(w := F_put f), in_use := in_use c - {f}\<rparr>)"
| put_room: "fpc c w = F_put f \<Longrightarrow> put_local f w (fmem c) = Some (True, s) \<Longrightarrow>
    fiber_step w c (c\<lparr>fmem := s, fpc := (fpc c)(w := F_idle)\<rparr>)"
| put_full: "fpc c w = F_put f \<Longrightarrow> put_local f w (fmem c) = Some (False, s) \<Longrightarrow>
    fiber_step w c (c\<lparr>fmem := s, fpc := (fpc c)(w := F_full f)\<rparr>)"
| test_parent: "fpc c w = F_full f \<Longrightarrow> parent_full w (fmem c) = Some full \<Longrightarrow>
    fiber_step w c (c\<lparr>fpc := (fpc c)(w := if full then F_last f else F_move f)\<rparr>)"
| move: "fpc c w = F_move f \<Longrightarrow> move_locked w (num_to_keep w (fmem c)) (fmem c) = Some s \<Longrightarrow>
    fiber_step w c (c\<lparr>fmem := s, fpc := (fpc c)(w := F_last f)\<rparr>)"
| last: "fpc c w = F_last f \<Longrightarrow> put_last f w (fmem c) = Some s \<Longrightarrow>
    fiber_step w c (c\<lparr>fmem := s, fpc := (fpc c)(w := F_idle)\<rparr>)"

inductive fibers_reach :: "nat \<Rightarrow> settings \<Rightarrow> fiber_sys \<Rightarrow> bool" for nw g where
  fibers_start: "init_fiber_pools nw g s0 = Some s \<Longrightarrow> fibers_reach nw g \<lparr>fmem = s, fpc = (\<lambda>w. F_idle), in_use = {}\<rparr>"
| fibers_step: "fibers_reach nw g c \<Longrightarrow> w \<in> {1..nw} \<Longrightarrow> fiber_step w c c' \<Longrightarrow> fibers_reach nw g c'"

subsection \<open>The invariant\<close>

text \<open>The fiber a worker is giving back, and the fiber it has counted before it has it.\<close>

fun giving_back :: "fiber_pc \<Rightarrow> nat multiset" where
  "giving_back (F_put f) = {#f#}"
| "giving_back (F_full f) = {#f#}"
| "giving_back (F_move f) = {#f#}"
| "giving_back (F_last f) = {#f#}"
| "giving_back _ = {#}"

fun reserved :: "fiber_pc \<Rightarrow> int" where
  "reserved (F_heap q) = 1"
| "reserved (F_undo q) = 1"
| "reserved _ = 0"

fun pc_pool :: "fiber_pc \<Rightarrow> nat set" where
  "pc_pool (F_look q) = {q}"
| "pc_pool (F_heap q) = {q}"
| "pc_pool (F_undo q) = {q}"
| "pc_pool _ = {}"

definition out_of_pools :: "nat \<Rightarrow> fiber_sys \<Rightarrow> nat multiset" where
  "out_of_pools nw c = mset_set (in_use c) + (\<Sum>w\<in>{1..nw}. giving_back (fpc c w))"

definition all_reserved :: "nat \<Rightarrow> fiber_sys \<Rightarrow> int" where
  "all_reserved nw c = (\<Sum>w\<in>{1..nw}. reserved (fpc c w))"

definition sys_inv :: "nat \<Rightarrow> int \<Rightarrow> nat set \<Rightarrow> fiber_sys \<Rightarrow> bool" where
  "sys_inv nw lim L c \<longleftrightarrow> finite (in_use c) \<and> (\<forall>w\<in>{1..nw}. pc_pool (fpc c w) \<subseteq> {0, w}) \<and>
     pools_inv nw lim L (out_of_pools nw c) (all_reserved nw c) (fmem c)"

lemma out_split:
  assumes "w \<in> {1..nw}"
  shows "out_of_pools nw c = giving_back (fpc c w) + (mset_set (in_use c) + (\<Sum>v\<in>{1..nw} - {w}. giving_back (fpc c v)))"
  unfolding out_of_pools_def by (subst sum.remove [OF _ assms]) (simp_all add: ac_simps)

lemma reserved_split:
  assumes "w \<in> {1..nw}"
  shows "all_reserved nw c = reserved (fpc c w) + (\<Sum>v\<in>{1..nw} - {w}. reserved (fpc c v))"
  unfolding all_reserved_def by (subst sum.remove [OF _ assms]) simp_all

lemma reserved_nonneg: "0 \<le> all_reserved nw c"
proof -
  have "0 \<le> reserved p" for p by (cases p) auto
  then show ?thesis by (simp add: all_reserved_def sum_nonneg)
qed

text \<open>What is left of the invariant when worker \<open>w\<close> steps.\<close>

lemma sys_inv_upd:
  assumes inv: "sys_inv nw lim L c" and w: "w \<in> {1..nw}" and fin: "finite U" and pc: "pc_pool pc \<subseteq> {0, w}"
    and new: "pools_inv nw lim L' (giving_back pc + mset_set U + (\<Sum>v\<in>{1..nw} - {w}. giving_back (fpc c v)))
      (reserved pc + (\<Sum>v\<in>{1..nw} - {w}. reserved (fpc c v))) s"
  shows "sys_inv nw lim L' (c\<lparr>fmem := s, fpc := (fpc c)(w := pc), in_use := U\<rparr>)"
proof -
  let ?c = "c\<lparr>fmem := s, fpc := (fpc c)(w := pc), in_use := U\<rparr>"
  have "(\<Sum>v\<in>{1..nw} - {w}. giving_back (fpc ?c v)) = (\<Sum>v\<in>{1..nw} - {w}. giving_back (fpc c v))"
      "(\<Sum>v\<in>{1..nw} - {w}. reserved (fpc ?c v)) = (\<Sum>v\<in>{1..nw} - {w}. reserved (fpc c v))" by (auto intro!: sum.cong)
  then show ?thesis using assms by (simp add: sys_inv_def out_split [OF w, of ?c] reserved_split [OF w, of ?c] add.assoc)
qed

lemma sys_inv_split:
  assumes "sys_inv nw lim L c" and w: "w \<in> {1..nw}"
  shows "pools_inv nw lim L (giving_back (fpc c w) + mset_set (in_use c) + (\<Sum>v\<in>{1..nw} - {w}. giving_back (fpc c v)))
      (reserved (fpc c w) + (\<Sum>v\<in>{1..nw} - {w}. reserved (fpc c v))) (fmem c)"
  using assms by (simp add: sys_inv_def out_split [OF w, of c] reserved_split [OF w, of c] add.assoc)

lemma not_in_use:
  assumes "pools_inv nw lim L (add_mset f (mset_set U + N)) R s" and "finite U"
  shows "f \<notin> U"
proof
  assume "f \<in> U"
  have "mset_set L = pooled nw (pools s) + add_mset f (mset_set U + N)" "finite L" using assms(1) by (simp_all add: pools_inv_def)
  then have "count (mset_set L) f = count (pooled nw (pools s)) f + Suc (count (mset_set U) f + count N f)" by simp
  moreover have "count (mset_set L) f \<le> 1" using \<open>finite L\<close> by (cases "f \<in> L") simp_all
  ultimately show False using \<open>f \<in> U\<close> assms(2) by simp
qed

lemma in_use_found:
  assumes inv: "sys_inv nw lim L c" and w: "w \<in> {1..nw}"
    and new: "pools_inv nw lim L' (add_mset f (mset_set (in_use c) + (\<Sum>v\<in>{1..nw} - {w}. giving_back (fpc c v))))
      (\<Sum>v\<in>{1..nw} - {w}. reserved (fpc c v)) s"
  shows "sys_inv nw lim L' (c\<lparr>fmem := s, fpc := (fpc c)(w := F_idle), in_use := insert f (in_use c)\<rparr>)"
proof -
  have fin: "finite (in_use c)" using inv by (simp add: sys_inv_def)
  then have "f \<notin> in_use c" using not_in_use [OF new] by blast
  then show ?thesis using fin new by (intro sys_inv_upd [OF inv w]) simp_all
qed

lemma search_parent_pool:
  assumes "pools_inv nw lim L M R s" and "q \<in> {0, w}" and "w \<in> {1..nw}"
  shows "pc_pool (search_parent q s) \<subseteq> {0, w}" and "giving_back (search_parent q s) = {#}" and "reserved (search_parent q s) = 0"
  using inv_parent [OF assms(1), of q] assms(2,3) by (auto simp: search_parent_def)

lemma step_inv:
  assumes inv: "sys_inv nw lim L c" and w: "w \<in> {1..nw}" and step: "fiber_step w c c'"
  shows "\<exists>L'. sys_inv nw lim L' c'"
proof -
  have fin: "finite (in_use c)" and pcp: "pc_pool (fpc c w) \<subseteq> {0, w}" using inv w by (auto simp: sys_inv_def)
  define N where "N = (\<Sum>v\<in>{1..nw} - {w}. giving_back (fpc c v))"
  define R where "R = (\<Sum>v\<in>{1..nw} - {w}. reserved (fpc c v))"
  note i = sys_inv_split [OF inv w, folded N_def R_def]
  note upd = sys_inv_upd [OF inv w, folded N_def R_def]
  note new = in_use_found [OF inv w, folded N_def R_def]
  from step show ?thesis
  proof cases
    case ask
    have "sys_inv nw lim L (c\<lparr>fmem := fmem c, fpc := (fpc c)(w := F_look w), in_use := in_use c\<rparr>)"
      by (rule upd) (use i fin ask in simp_all)
    then show ?thesis using ask by auto
  next
    case (found q f can s)
    then have "q \<le> nw" using pcp w by auto
    with look_run [OF i this] found have "pools_inv nw lim L (add_mset f (mset_set (in_use c) + N)) R s" by simp
    then show ?thesis using new found by blast
  next
    case (count q s)
    then have "q \<le> nw" using pcp w by auto
    with look_run [OF i this] count have "pools_inv nw lim L (mset_set (in_use c) + N) (R + 1) s" by auto
    then have "sys_inv nw lim L (c\<lparr>fmem := s, fpc := (fpc c)(w := F_heap q), in_use := in_use c\<rparr>)"
      using fin count pcp by (intro upd) (simp_all add: add.commute)
    then show ?thesis using count by auto
  next
    case (at_limit q s)
    then have q: "q \<le> nw" "q \<in> {0, w}" using pcp w by auto
    with look_run [OF i q(1)] at_limit have s: "pools_inv nw lim L (mset_set (in_use c) + N) R s" by auto
    have "sys_inv nw lim L (c\<lparr>fmem := s, fpc := (fpc c)(w := search_parent q s), in_use := in_use c\<rparr>)"
      by (rule upd [OF fin]) (use s search_parent_pool [OF s q(2) w] in simp_all)
    then show ?thesis using at_limit by auto
  next
    case (heap_gives q f s)
    have s: "s = (fmem c)\<lparr>fibs := (fibs (fmem c))(f \<mapsto> new_fiber (fp_stack_size (pools (fmem c) q)) 0)\<rparr>"
      using heap_gives by (simp add: allocate_from_heap_def)
    have "pools_inv nw lim (insert f L) (add_mset f (mset_set (in_use c) + N)) R s"
      using heap_inv [OF i heap_gives(3)] heap_gives(2) by (simp add: s)
    then show ?thesis using new heap_gives by blast
  next
    case (heap_fails q)
    have "sys_inv nw lim L (c\<lparr>fmem := fmem c, fpc := (fpc c)(w := F_undo q), in_use := in_use c\<rparr>)"
      by (rule upd) (use i fin heap_fails pcp in simp_all)
    then show ?thesis using heap_fails by auto
  next
    case (undo q s)
    then have q: "q \<le> nw" "q \<in> {0, w}" using pcp w by auto
    with undo_inv [OF i q(1)] undo have s: "pools_inv nw lim L (mset_set (in_use c) + N) R s" by simp
    have "sys_inv nw lim L (c\<lparr>fmem := s, fpc := (fpc c)(w := search_parent q s), in_use := in_use c\<rparr>)"
      by (rule upd [OF fin]) (use s search_parent_pool [OF s q(2) w] in simp_all)
    then show ?thesis using undo by auto
  next
    case (give f)
    have "sys_inv nw lim L (c\<lparr>fmem := fmem c, fpc := (fpc c)(w := F_put f), in_use := in_use c - {f}\<rparr>)"
      by (rule upd) (use i fin give mset_set_remove [OF fin give(3)] in simp_all)
    then show ?thesis using give by auto
  next
    case (put_room f s)
    have j: "pools_inv nw lim L (add_mset f (mset_set (in_use c) + N)) R (fmem c)" using i put_room by simp
    have "pools_inv nw lim L (mset_set (in_use c) + N) R s" using put_local_run [OF j w] put_room by (auto split: if_splits)
    then have "sys_inv nw lim L (c\<lparr>fmem := s, fpc := (fpc c)(w := F_idle), in_use := in_use c\<rparr>)"
      using fin by (intro upd) simp_all
    then show ?thesis using put_room by auto
  next
    case (put_full f s)
    have j: "pools_inv nw lim L (add_mset f (mset_set (in_use c) + N)) R (fmem c)" using i put_full by simp
    have "pools_inv nw lim L (add_mset f (mset_set (in_use c) + N)) R s" using put_local_run [OF j w] put_full by (auto split: if_splits)
    then have "sys_inv nw lim L (c\<lparr>fmem := s, fpc := (fpc c)(w := F_full f), in_use := in_use c\<rparr>)"
      using fin by (intro upd) simp_all
    then show ?thesis using put_full by auto
  next
    case (test_parent f full)
    have "sys_inv nw lim L (c\<lparr>fmem := fmem c, fpc := (fpc c)(w := if full then F_last f else F_move f), in_use := in_use c\<rparr>)"
      by (rule upd) (use i fin test_parent in simp_all)
    then show ?thesis using test_parent by auto
  next
    case (move f s)
    have "pools_inv nw lim L (add_mset f (mset_set (in_use c) + N)) R s"
      using move_locked_inv [OF i w, of "num_to_keep w (fmem c)"] move by simp
    then have "sys_inv nw lim L (c\<lparr>fmem := s, fpc := (fpc c)(w := F_last f), in_use := in_use c\<rparr>)"
      using fin by (intro upd) simp_all
    then show ?thesis using move by auto
  next
    case (last f s)
    have j: "pools_inv nw lim L (add_mset f (mset_set (in_use c) + N)) R (fmem c)" using i last by simp
    obtain L' where "pools_inv nw lim L' (mset_set (in_use c) + N) R s" using put_last_run [OF j w] last by auto
    then have "sys_inv nw lim L' (c\<lparr>fmem := s, fpc := (fpc c)(w := F_idle), in_use := in_use c\<rparr>)"
      using fin by (intro upd) simp_all
    then show ?thesis using last by auto
  qed
qed

lemma step_enabled:
  assumes inv: "sys_inv nw lim L c" and w: "w \<in> {1..nw}" and busy: "fpc c w \<noteq> F_idle"
  shows "\<exists>c'. fiber_step w c c'"
proof -
  have pcp: "pc_pool (fpc c w) \<subseteq> {0, w}" using inv w by (auto simp: sys_inv_def)
  note i = sys_inv_split [OF inv w]
  show ?thesis
  proof (cases "fpc c w")
    case (F_look q)
    then have "q \<le> nw" using pcp w by auto
    from look_run [OF i this] obtain found can s where l: "look_in_pool q (fmem c) = Some (found, can, s)" by blast
    show ?thesis
    proof (cases found)
      case None
      then show ?thesis using fiber_step.count [OF F_look] fiber_step.at_limit [OF F_look] l by (cases can) auto
    next
      case (Some f)
      then show ?thesis using fiber_step.found [OF F_look] l by blast
    qed
  next
    case (F_undo q)
    then have "q \<le> nw" using pcp w by auto
    from undo_inv [OF i this] show ?thesis using fiber_step.undo F_undo by blast
  next
    case (F_put f)
    have "pools_inv nw lim L (add_mset f (mset_set (in_use c) + (\<Sum>v\<in>{1..nw} - {w}. giving_back (fpc c v))))
      (\<Sum>v\<in>{1..nw} - {w}. reserved (fpc c v)) (fmem c)" using i F_put by simp
    from put_local_run [OF this w] obtain r s where "put_local f w (fmem c) = Some (r, s)" by blast
    then show ?thesis using fiber_step.put_room [OF F_put] fiber_step.put_full [OF F_put] by (cases r) auto
  next
    case (F_full f)
    have "pools_ok nw lim (pools (fmem c))" using i by (simp add: pools_inv_def)
    from parent_full_run [OF this w] show ?thesis using fiber_step.test_parent F_full by blast
  next
    case (F_move f)
    from move_locked_inv [OF i w] show ?thesis using fiber_step.move F_move by blast
  next
    case (F_last f)
    have "pools_inv nw lim L (add_mset f (mset_set (in_use c) + (\<Sum>v\<in>{1..nw} - {w}. giving_back (fpc c v))))
      (\<Sum>v\<in>{1..nw} - {w}. reserved (fpc c v)) (fmem c)" using i F_last by simp
    from put_last_run [OF this w] show ?thesis using fiber_step.last F_last by blast
  qed (use busy fiber_step.heap_fails in auto)
qed

lemma fibers_reach_inv:
  assumes "fibers_reach nw g c" and "0 < fiber_pool_size g" and "fiber_pool_size g < 2 ^ 32" and "0 \<le> sint (max_stacks g)"
  shows "\<exists>L. sys_inv nw (fiber_limit g) L c"
  using assms(1)
proof induction
  case (fibers_start s0 s)
  have "pools_inv nw (fiber_limit g) {} {#} 0 s" by (rule init_inv [OF fibers_start assms(2-4)])
  then show ?case by (auto simp: sys_inv_def out_of_pools_def all_reserved_def)
next
  case (fibers_step c w c')
  then show ?case using step_inv by blast
qed

text \<open>Every operation takes at most seven steps of its worker, whatever the other workers do.\<close>

fun steps_left :: "fiber_pc \<Rightarrow> nat" where
  "steps_left F_idle = 0"
| "steps_left (F_look q) = (if q = 0 then 3 else 6)"
| "steps_left (F_heap q) = (if q = 0 then 2 else 5)"
| "steps_left (F_undo q) = (if q = 0 then 1 else 4)"
| "steps_left (F_put f) = 4"
| "steps_left (F_full f) = 3"
| "steps_left (F_move f) = 2"
| "steps_left (F_last f) = 1"

lemma step_decreases:
  assumes inv: "sys_inv nw lim L c" and w: "w \<in> {1..nw}" and busy: "fpc c w \<noteq> F_idle" and step: "fiber_step w c c'"
  shows "steps_left (fpc c' w) < steps_left (fpc c w)"
proof -
  obtain L' where "sys_inv nw lim L' c'" using step_inv [OF inv w step] by blast
  then have par: "fp_parent (pools (fmem c') q) = (if q = 0 then None else Some 0)" if "q \<le> nw" for q
    using inv_parent that unfolding sys_inv_def by blast
  have pcp: "pc_pool (fpc c w) \<subseteq> {0, w}" using inv w by (auto simp: sys_inv_def)
  have up: "steps_left (search_parent q (fmem c')) = (if q = 0 then 0 else 3)" if "q \<in> {0, w}" for q
    using par [of q] that w by (auto simp: search_parent_def)
  from step show ?thesis
  proof cases
    case (at_limit q s)
    then show ?thesis using up [of q] pcp by auto
  next
    case (undo q s)
    then show ?thesis using up [of q] pcp by auto
  qed (use busy in auto)
qed

text \<open>
  C13: The pools of fibers are safe for every interleaving of the workers' requests and returns, when the pools of the workers have at least one
  slot. In every state that is reached: every fiber the heap has given out and not got back is at exactly one place - in one slot of one pool,
  in use, or in the hands of one worker that gives it back -, so no fiber is handed out twice, returned twice or used after it was freed;
  these fibers and the ones that are counted before the heap is asked for them never exceed the limit set for
  the program; and a worker in the middle of a request or return can always go on - no assertion fails, no freed fiber is touched - and ends it
  within six further steps of its own.
\<close>

theorem fiber_pools_safe:
  assumes "fibers_reach nw g c" and "0 < fiber_pool_size g" and "fiber_pool_size g < 2 ^ 32" and "0 \<le> sint (max_stacks g)"
  shows "(\<exists>L. finite L \<and> mset_set L = pooled nw (pools (fmem c)) + mset_set (in_use c) + (\<Sum>w\<in>{1..nw}. giving_back (fpc c w)) \<and>
       (\<forall>f\<in>L. fibs (fmem c) f \<noteq> None) \<and> int (card L) + (\<Sum>w\<in>{1..nw}. reserved (fpc c w)) \<le> fiber_limit g) \<and>
     (\<forall>w\<in>{1..nw}. fpc c w \<noteq> F_idle \<longrightarrow> steps_left (fpc c w) \<le> 6 \<and> (\<exists>c'. fiber_step w c c') \<and>
       (\<forall>c'. fiber_step w c c' \<longrightarrow> steps_left (fpc c' w) < steps_left (fpc c w)))"
proof -
  obtain L where inv: "sys_inv nw (fiber_limit g) L c" using fibers_reach_inv [OF assms] by blast
  then have p: "pools_inv nw (fiber_limit g) L (out_of_pools nw c) (all_reserved nw c) (fmem c)" by (simp add: sys_inv_def)
  have "int (card L) + all_reserved nw c \<le> fiber_limit g" using p totals_bound [of nw "fiber_limit g" "pools (fmem c)"] by (simp add: pools_inv_def)
  then have "\<exists>L. finite L \<and> mset_set L = pooled nw (pools (fmem c)) + mset_set (in_use c) + (\<Sum>w\<in>{1..nw}. giving_back (fpc c w)) \<and>
       (\<forall>f\<in>L. fibs (fmem c) f \<noteq> None) \<and> int (card L) + (\<Sum>w\<in>{1..nw}. reserved (fpc c w)) \<le> fiber_limit g"
    using p by (intro exI [of _ L]) (auto simp: pools_inv_def out_of_pools_def all_reserved_def add.assoc)
  moreover have "steps_left (fpc c w) \<le> 6" for w by (cases "fpc c w") auto
  ultimately show ?thesis using step_enabled [OF inv] step_decreases [OF inv] by blast
qed

definition one_in_use :: "fibers_state \<Rightarrow> fiber_sys" where
  "one_in_use s = \<lparr>fmem = s\<lparr>pools := (pools s)(0 := grown (pools s 0)), fibs := (fibs s)(7 \<mapsto> new_fiber 1048576 0)\<rparr>, fpc = (\<lambda>w. F_idle), in_use = {7}\<rparr>"

lemma one_in_use_reach:
  assumes s: "init_fiber_pools 2 some_settings (mk (\<lambda>p. undefined) (\<lambda>f. None)) = Some s"
  shows "fibers_reach 2 some_settings (one_in_use s)"
proof -
  obtain ps fs where sm: "s = mk ps fs" by (metis mk_simps(5))
  have p1: "ps 1 = \<lparr>fp_lock = None, fp_parent = Some 0, fp_stack_size = 1048576, fp_fibers = [], fp_max_size = 7, fp_total = 0, fp_high_water = 0, fp_alloc_max = 0\<rparr>"
    and p0: "ps 0 = \<lparr>fp_lock = Some False, fp_parent = None, fp_stack_size = 1048576, fp_fibers = [], fp_max_size = 18, fp_total = 0, fp_high_water = 0, fp_alloc_max = 2400\<rparr>"
    and fs: "fs = (\<lambda>f. None)"
    using s init_fibs [OF s] unfolding sm
    by (auto simp: init_fiber_pools_def set_fiber_limit_def pool_init_def fold_worker_pools cilk_assert_def some_settings_def mk_def simp del: upt_Suc
        dest!: arg_cong [where f = pools])
  let ?ps = "ps(0 := grown (ps 0))"
  let ?c = "\<lambda>m pc U. \<lparr>fmem = m, fpc = (\<lambda>w. F_idle)(1 := pc), in_use = U\<rparr>"
  have idle: "(\<lambda>w :: nat. F_idle)(1 := F_idle) = (\<lambda>w. F_idle)" by (rule fun_upd_idem) simp
  have "fibers_reach 2 some_settings (?c s F_idle {})" unfolding idle by (rule fibers_start [OF s])
  moreover have "fiber_step 1 (?c s F_idle {}) (?c s (F_look 1) {})" using ask [of "?c s F_idle {}" 1] by simp
  moreover have "look_in_pool 1 s = Some (None, False, s)" using look_in_pool_eq [of ps 1 fs] by (simp add: sm p1 p1 [unfolded One_nat_def] free_lock_def)
  then have "fiber_step 1 (?c s (F_look 1) {}) (?c s (F_look 0) {})"
    using at_limit [of "?c s (F_look 1) {}" 1 1 s] by (simp add: search_parent_def sm p1 p1 [unfolded One_nat_def])
  moreover have "look_in_pool 0 s = Some (None, True, mk ?ps fs)" using look_in_pool_eq [of ps 0 fs] by (simp add: sm p0 free_lock_def)
  then have "fiber_step 1 (?c s (F_look 0) {}) (?c (mk ?ps fs) (F_heap 0) {})" using count [of "?c s (F_look 0) {}" 1 0] by simp
  moreover have "fiber_step 1 (?c (mk ?ps fs) (F_heap 0) {}) (?c (mk ?ps (fs(7 \<mapsto> new_fiber 1048576 0))) F_idle {7})"
    using heap_gives [of "?c (mk ?ps fs) (F_heap 0) {}" 1 0 7 "mk ?ps (fs(7 \<mapsto> new_fiber 1048576 0))"] p0 fs by (simp add: allocate_from_heap_def grown_def)
  ultimately have "fibers_reach 2 some_settings (?c (mk ?ps (fs(7 \<mapsto> new_fiber 1048576 0))) F_idle {7})"
    by (meson fibers_step atLeastAtMost_iff order_refl one_le_numeral)
  moreover have "?c (mk ?ps (fs(7 \<mapsto> new_fiber 1048576 0))) F_idle {7} = one_in_use s" unfolding idle by (simp add: one_in_use_def sm mk_def)
  ultimately show ?thesis by simp
qed

text \<open>A state with two workers in which worker 1 has got fiber 7 and starts to give it back.\<close>

theorem fiber_pools_safe_witness:
  "\<exists>s c L. init_fiber_pools 2 some_settings (mk (\<lambda>p. undefined) (\<lambda>f. None)) = Some s \<and> fpc c 1 = F_put 7 \<and> fmem c = fmem (one_in_use s) \<and>
     finite L \<and> (7 :: nat) \<in> L \<and> card L \<le> 2400 \<and> (\<exists>c'. fiber_step 1 c c')"
proof -
  obtain s where s: "init_fiber_pools 2 some_settings (mk (\<lambda>p. undefined) (\<lambda>f. None)) = Some s"
    by (simp add: init_fiber_pools_def set_fiber_limit_def pool_init_def cilk_assert_def)
  let ?c = "(one_in_use s)\<lparr>fpc := (fpc (one_in_use s))(1 := F_put 7), in_use := in_use (one_in_use s) - {7}\<rparr>"
  have "fiber_step 1 (one_in_use s) ?c" by (rule give) (simp_all add: one_in_use_def)
  then have r: "fibers_reach 2 some_settings ?c" using fibers_step [OF one_in_use_reach [OF s], of 1] by simp
  have g: "0 < fiber_pool_size some_settings" "fiber_pool_size some_settings < 2 ^ 32" "0 \<le> sint (max_stacks some_settings)"
      "fiber_limit some_settings = 2400" by (simp_all add: some_settings_def fiber_limit_def)
  note safe = fiber_pools_safe [OF r g(1-3), unfolded g(4)]
  have pc: "fpc ?c = (\<lambda>w. F_idle)(1 := F_put 7)" by (simp add: one_in_use_def)
  have "{1..2} = {1, 2 :: nat}" by auto
  then have sums: "(\<Sum>w\<in>{1..2}. giving_back (fpc ?c w)) = {#7#}" "(\<Sum>w\<in>{1..2}. reserved (fpc ?c w)) = 0" unfolding pc by simp_all
  obtain L where L: "finite L" "mset_set L = pooled 2 (pools (fmem ?c)) + mset_set (in_use ?c) + {#7#}" "int (card L) + 0 \<le> 2400"
    using safe unfolding sums by blast
  have "7 \<in># mset_set L" unfolding L(2) by simp
  then have "7 \<in> L" using L(1) by simp
  moreover have "\<exists>c'. fiber_step 1 ?c c'" using safe pc by auto
  ultimately show ?thesis using s L(1,3) pc by (intro exI [of _ s] exI [of _ ?c] exI [of _ L]) simp
qed

subsection \<open>An operation that is not interrupted\<close>

text \<open>The requests and returns of \<open>Fiber_Pool\<close> are what a worker does when no other worker steps in between.\<close>

lemma request_level:
  assumes inv: "pools_inv nw lim L M R (fmem c)" and q: "q \<le> nw" and pc: "fpc c w = F_look q" and fresh: "\<And>s f. heap s = Some f \<Longrightarrow> fibs s f = None"
    and run: "fiber_allocate heap q (fmem c) = Some (r, s')"
    and up: "\<And>s q'. pools_inv nw lim L M R s \<Longrightarrow> fp_parent (pools s q) = Some q' \<Longrightarrow> fiber_allocate heap q' s = Some (r, s') \<Longrightarrow>
      (fiber_step w)\<^sup>*\<^sup>* (c\<lparr>fmem := s, fpc := (fpc c)(w := F_look q')\<rparr>) (c\<lparr>fmem := s', fpc := (fpc c)(w := F_idle), in_use := set_option r \<union> in_use c\<rparr>)"
  shows "(fiber_step w)\<^sup>*\<^sup>* c (c\<lparr>fmem := s', fpc := (fpc c)(w := F_idle), in_use := set_option r \<union> in_use c\<rparr>)"
proof -
  let ?fin = "c\<lparr>fmem := s', fpc := (fpc c)(w := F_idle), in_use := set_option r \<union> in_use c\<rparr>"
  obtain found can s where l: "look_in_pool q (fmem c) = Some (found, can, s)"
      "case found of Some f \<Rightarrow> pools_inv nw lim L (add_mset f M) R s | None \<Rightarrow> pools_inv nw lim L M (if can then R + 1 else R) s"
    using look_run [OF inv q] by blast
  have parent: "(fiber_step w)\<^sup>*\<^sup>* (c\<lparr>fmem := s, fpc := (fpc c)(w := search_parent q s)\<rparr>) ?fin"
    if "pools_inv nw lim L M R s" "(case fp_parent (pools s q) of None \<Rightarrow> Some (None, s) | Some q' \<Rightarrow> fiber_allocate heap q' s) = Some (r, s')" for s
    using that up [OF that(1)] by (cases "fp_parent (pools s q)") (auto simp: search_parent_def)
  show ?thesis
  proof (cases found)
    case (Some f)
    have "r = Some f" "s' = s" using run [unfolded fiber_allocate.simps [of heap q "fmem c"] l(1) Some, simplified] by auto
    then show ?thesis using fiber_step.found [OF pc] l(1) Some by auto
  next
    case None
    note run' = run [unfolded fiber_allocate.simps [of heap q "fmem c"] l(1) None, simplified]
    show ?thesis
    proof (cases can)
      case False
      then show ?thesis using run' l(2) None fiber_step.at_limit [OF pc] l(1) parent [of s]
        by (auto intro: converse_rtranclp_into_rtranclp)
    next
      case True
      have 1: "fiber_step w c (c\<lparr>fmem := s, fpc := (fpc c)(w := F_heap q)\<rparr>)" using fiber_step.count [OF pc] l(1) None True by simp
      let ?c1 = "c\<lparr>fmem := s, fpc := (fpc c)(w := F_heap q)\<rparr>"
      have "(fiber_step w)\<^sup>*\<^sup>* ?c1 ?fin"
      proof (cases "heap s")
        case (Some f)
        let ?t = "s\<lparr>fibs := (fibs s)(f \<mapsto> new_fiber (fp_stack_size (pools s q)) 0)\<rparr>"
        have "r = Some f" "s' = ?t" using run' True Some by (simp_all add: allocate_from_heap_def)
        then show ?thesis using fiber_step.heap_gives [of ?c1 w q f ?t] fresh [OF Some]
          by (auto simp: allocate_from_heap_def)
      next
        case none: None
        have i1: "pools_inv nw lim L M (R + 1) s" using l(2) None True by simp
        obtain u where u: "undo_allocation q s = Some u" "pools_inv nw lim L M R u" using undo_inv [OF i1 q] by auto
        have "fiber_step w ?c1 (c\<lparr>fmem := s, fpc := (fpc c)(w := F_undo q)\<rparr>)" using fiber_step.heap_fails [of ?c1 w q] by simp
        moreover have "fiber_step w (c\<lparr>fmem := s, fpc := (fpc c)(w := F_undo q)\<rparr>) (c\<lparr>fmem := u, fpc := (fpc c)(w := search_parent q u)\<rparr>)"
          using fiber_step.undo [of "c\<lparr>fmem := s, fpc := (fpc c)(w := F_undo q)\<rparr>" w q u] u(1) by simp
        moreover have "(fiber_step w)\<^sup>*\<^sup>* (c\<lparr>fmem := u, fpc := (fpc c)(w := search_parent q u)\<rparr>) ?fin"
          by (rule parent [OF u(2)]) (use run' True none u(1) in \<open>simp add: allocate_from_heap_def\<close>)
        ultimately show ?thesis by (meson converse_rtranclp_into_rtranclp)
      qed
      then show ?thesis using 1 by (rule converse_rtranclp_into_rtranclp [rotated])
    qed
  qed
qed

lemma allocate_level:
  assumes inv: "pools_inv nw lim L M R s" and q: "q \<le> nw" and fresh: "\<And>s f. heap s = Some f \<Longrightarrow> fibs s f = None"
    and up: "\<And>s' q'. pools_inv nw lim L M R s' \<Longrightarrow> fp_parent (pools s' q) = Some q' \<Longrightarrow>
      \<exists>r t. fiber_allocate heap q' s' = Some (r, t) \<and> set_option r \<inter> set_mset M = {}"
  shows "\<exists>r t. fiber_allocate heap q s = Some (r, t) \<and> set_option r \<inter> set_mset M = {}"
proof -
  have disj: "f \<notin># M" if "pools_inv nw lim L' (add_mset f M) R' t" for f L' R' t
  proof
    assume "f \<in># M"
    then obtain N where "M = add_mset f N" by (metis mset_add)
    moreover have "mset_set L' = pooled nw (pools t) + add_mset f M" "finite L'" using that by (simp_all add: pools_inv_def)
    ultimately have "2 \<le> count (mset_set L') f" by simp
    then show False using \<open>finite L'\<close> by (cases "f \<in> L'") simp_all
  qed
  have parent: "\<exists>r t. (case fp_parent (pools u q) of None \<Rightarrow> Some (None, u) | Some q' \<Rightarrow> fiber_allocate heap q' u) = Some (r, t) \<and> set_option r \<inter> set_mset M = {}"
    if "pools_inv nw lim L M R u" for u
    using up [OF that] by (cases "fp_parent (pools u q)") auto
  obtain found can s1 where l: "look_in_pool q s = Some (found, can, s1)"
      "case found of Some f \<Rightarrow> pools_inv nw lim L (add_mset f M) R s1 | None \<Rightarrow> pools_inv nw lim L M (if can then R + 1 else R) s1"
    using look_run [OF inv q] by blast
  show ?thesis
  proof (cases found)
    case (Some f)
    then show ?thesis using l disj by (subst fiber_allocate.simps) auto
  next
    case none: None
    show ?thesis
    proof (cases can)
      case False
      then show ?thesis using l none parent [of s1] by (subst fiber_allocate.simps) simp
    next
      case True
      then have i1: "pools_inv nw lim L M (R + 1) s1" using l(2) none by simp
      obtain u where u: "undo_allocation q s1 = Some u" "pools_inv nw lim L M R u" using undo_inv [OF i1 q] by auto
      show ?thesis
      proof (cases "heap s1")
        case None
        then show ?thesis using l(1) none True u parent [OF u(2)] by (subst fiber_allocate.simps) (simp add: allocate_from_heap_def)
      next
        case (Some f)
        have "f \<notin># M" using disj heap_inv [OF i1 fresh [OF Some]] by blast
        then show ?thesis using l(1) none True Some by (subst fiber_allocate.simps) (simp add: allocate_from_heap_def)
      qed
    qed
  qed
qed

lemma allocate_run:
  assumes inv: "pools_inv nw lim L M R s" and w: "w \<in> {1..nw}" and fresh: "\<And>s f. heap s = Some f \<Longrightarrow> fibs s f = None"
  shows "\<exists>r t. fiber_allocate heap w s = Some (r, t) \<and> set_option r \<inter> set_mset M = {}"
proof -
  have root: "\<exists>r t. fiber_allocate heap 0 u = Some (r, t) \<and> set_option r \<inter> set_mset M = {}" if "pools_inv nw lim L M R u" for u
    by (rule allocate_level [OF that _ fresh]) (use inv_parent [where q = 0] in auto)
  show ?thesis by (rule allocate_level [OF inv _ fresh]) (use w root inv_parent [where q = w] in auto)
qed

lemma request_run:
  assumes inv: "pools_inv nw lim L M R (fmem c)" and w: "w \<in> {1..nw}" and idle: "fpc c w = F_idle" and fresh: "\<And>s f. heap s = Some f \<Longrightarrow> fibs s f = None"
    and run: "fiber_allocate heap w (fmem c) = Some (r, s')"
  shows "(fiber_step w)\<^sup>*\<^sup>* c (c\<lparr>fmem := s', in_use := set_option r \<union> in_use c\<rparr>)"
proof -
  have same: "(fpc c)(w := F_idle) = fpc c" using idle by auto
  let ?fin = "c\<lparr>fmem := s', fpc := (fpc c)(w := F_idle), in_use := set_option r \<union> in_use c\<rparr>"
  have root: "(fiber_step w)\<^sup>*\<^sup>* (c\<lparr>fmem := s, fpc := (fpc c)(w := F_look 0)\<rparr>) ?fin"
    if i: "pools_inv nw lim L M R s" and a: "fiber_allocate heap 0 s = Some (r, s')" for s
    using request_level [of nw lim L M R "c\<lparr>fmem := s, fpc := (fpc c)(w := F_look 0)\<rparr>" 0 w heap r s'] i a fresh inv_parent [where q = 0] by force
  have "(fiber_step w)\<^sup>*\<^sup>* (c\<lparr>fpc := (fpc c)(w := F_look w)\<rparr>) ?fin"
    using request_level [of nw lim L M R "c\<lparr>fpc := (fpc c)(w := F_look w)\<rparr>" w w heap r s'] inv w fresh run root inv_parent [where q = w] by force
  with fiber_step.ask [of c w, OF idle] have "(fiber_step w)\<^sup>*\<^sup>* c ?fin" by (rule converse_rtranclp_into_rtranclp)
  moreover have "?fin = c\<lparr>fmem := s', in_use := set_option r \<union> in_use c\<rparr>" unfolding same by simp
  ultimately show ?thesis by simp
qed

lemma return_run:
  assumes inv: "pools_inv nw lim L (add_mset f M) R (fmem c)" and w: "w \<in> {1..nw}" and idle: "fpc c w = F_idle" and f: "f \<in> in_use c"
    and run: "remove_reference f (Some w) (fmem c) = Some s'"
  shows "(fiber_step w)\<^sup>*\<^sup>* c (c\<lparr>fmem := s', in_use := in_use c - {f}\<rparr>)"
proof -
  have same: "(fpc c)(w := F_idle) = fpc c" using idle by auto
  let ?c = "\<lambda>s pc. \<lparr>fmem = s, fpc = (fpc c)(w := pc), in_use = in_use c - {f}\<rparr>"
  have e: "c\<lparr>fpc := (fpc c)(w := F_put f), in_use := in_use c - {f}\<rparr> = ?c (fmem c) (F_put f)" by (cases c) simp
  have 0: "fiber_step w c (?c (fmem c) (F_put f))" using fiber_step.give [of c w f, OF idle f] unfolding e .
  obtain b s1 where p: "put_local f w (fmem c) = Some (b, s1)" "\<not> b \<longrightarrow> pools_inv nw lim L (add_mset f M) R s1"
    using put_local_run [OF inv w] by force
  have "(fiber_step w)\<^sup>*\<^sup>* (?c (fmem c) (F_put f)) (?c s' F_idle)"
  proof (cases b)
    case True
    then have "s' = s1" using run p(1) by (simp add: remove_reference_def deallocate_self_def)
    then show ?thesis using fiber_step.put_room [of "?c (fmem c) (F_put f)" w f s1] p(1) True by auto
  next
    case False
    have i1: "pools_inv nw lim L (add_mset f M) R s1" using p(2) False by blast
    have ok: "pools_ok nw lim (pools s1)" using i1 by (simp add: pools_inv_def)
    have par: "fp_parent (pools s1 w) = Some 0" using inv_parent [OF i1, of w] w by simp
    obtain full where full: "parent_full w s1 = Some full" using parent_full_run [OF ok w] by blast
    have 1: "fiber_step w (?c (fmem c) (F_put f)) (?c s1 (F_full f))"
      using fiber_step.put_full [of "?c (fmem c) (F_put f)" w f s1] p(1) False by simp
    have 2: "fiber_step w (?c s1 (F_full f)) (?c s1 (if full then F_last f else F_move f))"
      using fiber_step.test_parent [of "?c s1 (F_full f)" w f full] full by simp
    obtain s2 where s2: "move_to_parent_pool w (num_to_keep w s1) s1 = Some s2" "put_last f w s2 = Some s'"
      using run p(1) False par by (auto simp: remove_reference_def deallocate_self_def bind_eq_Some_conv)
    have 3: "(fiber_step w)\<^sup>*\<^sup>* (?c s1 (if full then F_last f else F_move f)) (?c s2 (F_last f))"
      using s2(1) full fiber_step.move [of "?c s1 (F_move f)" w f s2] by (auto simp: move_to_parent_pool_def)
    have 4: "fiber_step w (?c s2 (F_last f)) (?c s' F_idle)" using fiber_step.last [of "?c s2 (F_last f)" w f s'] s2(2) by simp
    from 1 2 3 4 show ?thesis
      by (meson converse_rtranclp_into_rtranclp rtranclp.rtrancl_into_rtrancl)
  qed
  with 0 have "(fiber_step w)\<^sup>*\<^sup>* c (?c s' F_idle)" by (rule converse_rtranclp_into_rtranclp)
  moreover have "?c s' F_idle = c\<lparr>fmem := s', in_use := in_use c - {f}\<rparr>" unfolding same by (cases c) simp
  ultimately show ?thesis by simp
qed

text \<open>
  C36: A request or return that no other worker interrupts is the operation of the runtime: in every state that is reached, asking for
  a fiber and giving a fiber back succeed for every idle worker, and what they do is a sequence of steps of this worker
  alone - for a request with the heap's answers, and with the fiber it yields, if any, added to the fibers in use.
\<close>

theorem fiber_operations_are_steps:
  assumes "fibers_reach nw g c" and "0 < fiber_pool_size g" and "fiber_pool_size g < 2 ^ 32" and "0 \<le> sint (max_stacks g)"
    and "w \<in> {1..nw}" and "fpc c w = F_idle" and "\<And>s f. heap s = Some f \<Longrightarrow> fibs s f = None"
  shows "(\<exists>r s'. fiber_allocate heap w (fmem c) = Some (r, s') \<and> set_option r \<inter> in_use c = {} \<and>
       (fiber_step w)\<^sup>*\<^sup>* c (c\<lparr>fmem := s', in_use := set_option r \<union> in_use c\<rparr>)) \<and>
     (\<forall>f\<in>in_use c. \<exists>s'. remove_reference f (Some w) (fmem c) = Some s' \<and> f \<in> set (fp_fibers (pools s' w)) \<and>
       (fiber_step w)\<^sup>*\<^sup>* c (c\<lparr>fmem := s', in_use := in_use c - {f}\<rparr>))"
proof -
  obtain L where inv: "sys_inv nw (fiber_limit g) L c" using fibers_reach_inv [OF assms(1-4)] by blast
  then have p: "pools_inv nw (fiber_limit g) L (out_of_pools nw c) (all_reserved nw c) (fmem c)" and fin: "finite (in_use c)" by (simp_all add: sys_inv_def)
  obtain r s' where a: "fiber_allocate heap w (fmem c) = Some (r, s')" "set_option r \<inter> set_mset (out_of_pools nw c) = {}"
    using allocate_run [OF p assms(5), of heap, OF assms(7)] by blast
  have "set_option r \<inter> in_use c = {}" using a(2) fin by (auto simp: out_of_pools_def)
  moreover have "\<exists>s'. remove_reference f (Some w) (fmem c) = Some s' \<and> f \<in> set (fp_fibers (pools s' w)) \<and>
       (fiber_step w)\<^sup>*\<^sup>* c (c\<lparr>fmem := s', in_use := in_use c - {f}\<rparr>)" if f: "f \<in> in_use c" for f
  proof -
    have "out_of_pools nw c = add_mset f (mset_set (in_use c - {f}) + (\<Sum>w\<in>{1..nw}. giving_back (fpc c w)))"
      by (simp add: out_of_pools_def mset_set_remove [OF fin f])
    then obtain M where i: "pools_inv nw (fiber_limit g) L (add_mset f M) (all_reserved nw c) (fmem c)" using p by metis
    obtain s' where s': "remove_reference f (Some w) (fmem c) = Some s'" "f \<in> set (fp_fibers (pools s' w))"
      using put_fiber_run [OF i assms(5)] by blast
    show ?thesis using s' return_run [OF i assms(5,6) f s'(1)] by blast
  qed
  ultimately show ?thesis using a(1) request_run [OF p assms(5,6), of heap, OF assms(7) a(1)] by blast
qed

text \<open>Worker 2 gives back the fiber that worker 1 has got, and asks for another one.\<close>

theorem fiber_operations_are_steps_witness:
  "\<exists>s s' r s''. init_fiber_pools 2 some_settings (mk (\<lambda>p. undefined) (\<lambda>f. None)) = Some s \<and>
     fiber_allocate one_fiber_heap 2 (fmem (one_in_use s)) = Some (r, s') \<and> r \<noteq> Some 7 \<and>
     remove_reference 7 (Some 2) (fmem (one_in_use s)) = Some s'' \<and> 7 \<in> set (fp_fibers (pools s'' 2))"
proof -
  obtain s where s: "init_fiber_pools 2 some_settings (mk (\<lambda>p. undefined) (\<lambda>f. None)) = Some s"
    by (simp add: init_fiber_pools_def set_fiber_limit_def pool_init_def cilk_assert_def)
  have g: "0 < fiber_pool_size some_settings" "fiber_pool_size some_settings < 2 ^ 32" "0 \<le> sint (max_stacks some_settings)"
    by (simp_all add: some_settings_def)
  have w: "(2 :: nat) \<in> {1..2}" "fpc (one_in_use s) 2 = F_idle" "in_use (one_in_use s) = {7}" by (simp_all add: one_in_use_def)
  have h: "fibs s f = None" if "one_fiber_heap s = Some f" for s f using that by (simp add: one_fiber_heap_def split: if_splits)
  from fiber_operations_are_steps [OF one_in_use_reach [OF s] g w(1,2), of one_fiber_heap, OF h, unfolded w(3)] s show ?thesis by auto
qed

end
