(* ===== verification/Cilksort.thy ===== *)
theory Cilksort
  imports Prelude
begin

section \<open>The sorting benchmark (cilk5/cilksort.c)\<close>

text \<open>
  A parallel merge sort over arrays of \<^verbatim>\<open>long\<close>. Memory is a partial map from addresses (counted in
  elements) to values: a load or store outside the allocated arrays has no result, and a
  \<^verbatim>\<open>memcpy\<close> of a negative length or between overlapping ranges has none either, so a theorem that
  an operation returns says that every access is in bounds. The operations are the serial
  elision of the program (a spawned call runs before what follows it); that the strands
  between a spawn and its sync may run in any order is a theorem. The elements are only
  compared and copied, so integers stand for them.
\<close>

type_synonym elms = "int \<Rightarrow> int option"

definition st :: "elms \<Rightarrow> int \<Rightarrow> int \<Rightarrow> elms option" where
  "st m p v = (if m p = None then None else Some (m(p \<mapsto> v)))"

definition memcpy :: "int \<Rightarrow> int \<Rightarrow> int \<Rightarrow> elms \<Rightarrow> elms option" where
  "memcpy dest src n m =
     (if n < 0 \<or> (0 < n \<and> src < dest + n \<and> dest < src + n) \<or>
         (\<exists>i\<in>{0..<n}. m (src + i) = None \<or> m (dest + i) = None) then None
      else Some (\<lambda>q. if dest \<le> q \<and> q < dest + n then m (src + (q - dest)) else m q))"

definition KILO :: int where "KILO = 1024"
definition MERGESIZE :: int where "MERGESIZE = 2 * KILO"
definition QUICKSIZE :: int where "QUICKSIZE = 2 * KILO"
definition INSERTIONSIZE :: int where "INSERTIONSIZE = 20"

subsection \<open>Sequential quicksort\<close>

definition med3 :: "int \<Rightarrow> int \<Rightarrow> int \<Rightarrow> int" where
  "med3 a b c =
     (if a < b then (if b < c then b else if a < c then c else a)
      else (if b > c then b else if a > c then c else a))"

definition choose_pivot :: "int \<Rightarrow> int \<Rightarrow> elms \<Rightarrow> int option" where
  "choose_pivot low high m = do {
     a \<leftarrow> m low; b \<leftarrow> m high; c \<leftarrow> m (low + (high - low) div 2);
     Some (med3 a b c) }"

text \<open>The three loops of \<^verbatim>\<open>seqpart\<close>; the scans return where they stopped and the value they saw there.\<close>

partial_function (option) scan_down :: "int \<Rightarrow> int \<Rightarrow> elms \<Rightarrow> (int \<times> int) option" where
  "scan_down pivot curr_high m =
     Option.bind (m curr_high) (\<lambda>h. if h > pivot then scan_down pivot (curr_high - 1) m else Some (curr_high, h))"

partial_function (option) scan_up :: "int \<Rightarrow> int \<Rightarrow> elms \<Rightarrow> (int \<times> int) option" where
  "scan_up pivot curr_low m =
     Option.bind (m curr_low) (\<lambda>l. if l < pivot then scan_up pivot (curr_low + 1) m else Some (curr_low, l))"

partial_function (option) seqpart_loop :: "int \<Rightarrow> int \<Rightarrow> int \<Rightarrow> elms \<Rightarrow> (int \<times> elms) option" where
  "seqpart_loop pivot curr_low curr_high m =
     Option.bind (scan_down pivot curr_high m) (\<lambda>(curr_high, h).
     Option.bind (scan_up pivot curr_low m) (\<lambda>(curr_low, l).
       if curr_low \<ge> curr_high then Some (curr_high, m)
       else Option.bind (st m curr_high l) (\<lambda>m.
            Option.bind (st m curr_low h) (\<lambda>m. seqpart_loop pivot (curr_low + 1) (curr_high - 1) m))))"

definition seqpart :: "int \<Rightarrow> int \<Rightarrow> elms \<Rightarrow> (int \<times> elms) option" where
  "seqpart low high m = do {
     pivot \<leftarrow> choose_pivot low high m;
     (curr_high, m) \<leftarrow> seqpart_loop pivot low high m;
     Some (if curr_high < high then curr_high else curr_high - 1, m) }"

partial_function (option) insert_shift :: "int \<Rightarrow> int \<Rightarrow> int \<Rightarrow> elms \<Rightarrow> (int \<times> elms) option" where
  "insert_shift a low p m =
     (if p \<ge> low then Option.bind (m p) (\<lambda>b.
        if b > a then Option.bind (st m (p + 1) b) (\<lambda>m. insert_shift a low (p - 1) m) else Some (p, m))
      else Some (p, m))"

partial_function (option) insertion_loop :: "int \<Rightarrow> int \<Rightarrow> int \<Rightarrow> elms \<Rightarrow> elms option" where
  "insertion_loop low high q m =
     (if q \<le> high then
        Option.bind (m q) (\<lambda>a. Option.bind (insert_shift a low (q - 1) m) (\<lambda>(p, m).
        Option.bind (st m (p + 1) a) (\<lambda>m. insertion_loop low high (q + 1) m)))
      else Some m)"

definition insertion_sort :: "int \<Rightarrow> int \<Rightarrow> elms \<Rightarrow> elms option" where
  "insertion_sort low high m = insertion_loop low high (low + 1) m"

text \<open>The while loop of \<^verbatim>\<open>seqquick\<close> continues with a new \<open>low\<close>.\<close>

partial_function (option) seqquick :: "int \<Rightarrow> int \<Rightarrow> elms \<Rightarrow> elms option" where
  "seqquick low high m =
     (if high - low \<ge> INSERTIONSIZE then
        Option.bind (seqpart low high m) (\<lambda>(p, m).
        Option.bind (seqquick low p m) (\<lambda>m. seqquick (p + 1) high m))
      else insertion_sort low high m)"

subsection \<open>Merging\<close>

text \<open>The two merging loops of \<^verbatim>\<open>seqmerge\<close>: the fast one stops before the last element of a range.\<close>

partial_function (option) merge_fast ::
    "int \<Rightarrow> int \<Rightarrow> int \<Rightarrow> int \<Rightarrow> int \<Rightarrow> int \<Rightarrow> int \<Rightarrow> elms \<Rightarrow> (int \<times> int \<times> int \<times> elms) option" where
  "merge_fast low1 high1 low2 high2 lowdest a1 a2 m =
     (if a1 < a2 then
        Option.bind (st m lowdest a1) (\<lambda>m. Option.bind (m (low1 + 1)) (\<lambda>a1.
          if low1 + 1 \<ge> high1 then Some (low1 + 1, low2, lowdest + 1, m)
          else merge_fast (low1 + 1) high1 low2 high2 (lowdest + 1) a1 a2 m))
      else
        Option.bind (st m lowdest a2) (\<lambda>m. Option.bind (m (low2 + 1)) (\<lambda>a2.
          if low2 + 1 \<ge> high2 then Some (low1, low2 + 1, lowdest + 1, m)
          else merge_fast low1 high1 (low2 + 1) high2 (lowdest + 1) a1 a2 m)))"

partial_function (option) merge_slow ::
    "int \<Rightarrow> int \<Rightarrow> int \<Rightarrow> int \<Rightarrow> int \<Rightarrow> int \<Rightarrow> int \<Rightarrow> elms \<Rightarrow> (int \<times> int \<times> int \<times> elms) option" where
  "merge_slow low1 high1 low2 high2 lowdest a1 a2 m =
     (if a1 < a2 then
        Option.bind (st m lowdest a1) (\<lambda>m.
          if low1 + 1 > high1 then Some (low1 + 1, low2, lowdest + 1, m)
          else Option.bind (m (low1 + 1)) (\<lambda>a1. merge_slow (low1 + 1) high1 low2 high2 (lowdest + 1) a1 a2 m))
      else
        Option.bind (st m lowdest a2) (\<lambda>m.
          if low2 + 1 > high2 then Some (low1, low2 + 1, lowdest + 1, m)
          else Option.bind (m (low2 + 1)) (\<lambda>a2. merge_slow low1 high1 (low2 + 1) high2 (lowdest + 1) a1 a2 m)))"

definition seqmerge :: "int \<Rightarrow> int \<Rightarrow> int \<Rightarrow> int \<Rightarrow> int \<Rightarrow> elms \<Rightarrow> elms option" where
  "seqmerge low1 high1 low2 high2 lowdest m = do {
     (low1, low2, lowdest, m) \<leftarrow>
       (if low1 < high1 \<and> low2 < high2 then do {
          a1 \<leftarrow> m low1; a2 \<leftarrow> m low2;
          merge_fast low1 high1 low2 high2 lowdest a1 a2 m }
        else Some (low1, low2, lowdest, m));
     (low1, low2, lowdest, m) \<leftarrow>
       (if low1 \<le> high1 \<and> low2 \<le> high2 then do {
          a1 \<leftarrow> m low1; a2 \<leftarrow> m low2;
          merge_slow low1 high1 low2 high2 lowdest a1 a2 m }
        else Some (low1, low2, lowdest, m));
     (if low1 > high1 then memcpy lowdest low2 (high2 - low2 + 1) m
      else memcpy lowdest low1 (high1 - low1 + 1) m) }"

partial_function (option) binsplit_loop :: "int \<Rightarrow> int \<Rightarrow> int \<Rightarrow> elms \<Rightarrow> int option" where
  "binsplit_loop val low high m =
     (if low \<noteq> high then
        let mid = low + (high - low + 1) div 2
        in Option.bind (m mid) (\<lambda>x. if val \<le> x then binsplit_loop val low (mid - 1) m else binsplit_loop val mid high m)
      else Some low)"

definition binsplit :: "int \<Rightarrow> int \<Rightarrow> int \<Rightarrow> elms \<Rightarrow> int option" where
  "binsplit val low high m = do {
     low \<leftarrow> binsplit_loop val low high m;
     x \<leftarrow> m low;
     Some (if x > val then low - 1 else low) }"

partial_function (option) cilkmerge :: "int \<Rightarrow> int \<Rightarrow> int \<Rightarrow> int \<Rightarrow> int \<Rightarrow> elms \<Rightarrow> elms option" where
  "cilkmerge low1 high1 low2 high2 lowdest m =
     (let (low1, high1, low2, high2) = (if high2 - low2 > high1 - low1 then (low2, high2, low1, high1)
                                        else (low1, high1, low2, high2))
      in if high1 < low1 then memcpy lowdest low2 (high2 - low2) m
         else if high2 - low2 < MERGESIZE then seqmerge low1 high1 low2 high2 lowdest m
         else
           let split1 = (high1 - low1 + 1) div 2 + low1
           in Option.bind (m split1) (\<lambda>v. Option.bind (binsplit v low2 high2 m) (\<lambda>split2.
                let lowsize = split1 - low1 + split2 - low2
                in Option.bind (st m (lowdest + lowsize + 1) v) (\<lambda>m.
                   Option.bind (cilkmerge low1 (split1 - 1) low2 split2 lowdest m) (\<lambda>m.
                     cilkmerge (split1 + 1) high1 (split2 + 1) high2 (lowdest + lowsize + 2) m)))))"

subsection \<open>The parallel sort\<close>

partial_function (option) cilksort :: "int \<Rightarrow> int \<Rightarrow> int \<Rightarrow> elms \<Rightarrow> elms option" where
  "cilksort low tmp sz m =
     (if sz < QUICKSIZE then seqquick low (low + sz - 1) m
      else
        let quarter = sz div 4;
            A = low; tmpA = tmp;
            B = A + quarter; tmpB = tmpA + quarter;
            C = B + quarter; tmpC = tmpB + quarter;
            D = C + quarter; tmpD = tmpC + quarter
        in Option.bind (cilksort A tmpA quarter m) (\<lambda>m.
           Option.bind (cilksort B tmpB quarter m) (\<lambda>m.
           Option.bind (cilksort C tmpC quarter m) (\<lambda>m.
           Option.bind (cilksort D tmpD (sz - 3 * quarter) m) (\<lambda>m.
           Option.bind (cilkmerge A (A + quarter - 1) B (B + quarter - 1) tmpA m) (\<lambda>m.
           Option.bind (cilkmerge C (C + quarter - 1) D (low + sz - 1) tmpC m) (\<lambda>m.
             cilkmerge tmpA (tmpC - 1) tmpC (tmpA + sz - 1) A m)))))))"

subsection \<open>The benchmark around it\<close>

text \<open>
  \<^verbatim>\<open>my_rand\<close> returns the new state, which it also stores. The array is filled with its indices,
  scrambled, sorted and checked; \<open>sort_benchmark\<close> is the part of \<^verbatim>\<open>main\<close> between the two
  allocations and the message, and returns \<^verbatim>\<open>success\<close>.
\<close>

definition my_rand :: "64 word \<Rightarrow> 64 word" where
  "my_rand rand_nxt = rand_nxt * 1103515245 + 12345"

definition swap_elms :: "int \<Rightarrow> int \<Rightarrow> elms \<Rightarrow> elms option" where
  "swap_elms a b m = do { tmp \<leftarrow> m a; x \<leftarrow> m b; m \<leftarrow> st m a x; st m b tmp }"

partial_function (option) scramble_loop :: "int \<Rightarrow> int \<Rightarrow> int \<Rightarrow> 64 word \<Rightarrow> elms \<Rightarrow> (64 word \<times> elms) option" where
  "scramble_loop a i sz rand_nxt m =
     (if i < sz then
        let rand_nxt = my_rand rand_nxt; j = uint rand_nxt mod sz
        in Option.bind (swap_elms (a + i) (a + j) m) (\<lambda>m. scramble_loop a (i + 1) sz rand_nxt m)
      else Some (rand_nxt, m))"

definition scramble_array :: "int \<Rightarrow> int \<Rightarrow> 64 word \<Rightarrow> elms \<Rightarrow> (64 word \<times> elms) option" where
  "scramble_array a sz rand_nxt m = scramble_loop a 0 sz rand_nxt m"

partial_function (option) fill_loop :: "int \<Rightarrow> int \<Rightarrow> int \<Rightarrow> elms \<Rightarrow> elms option" where
  "fill_loop a i sz m = (if i < sz then Option.bind (st m (a + i) i) (\<lambda>m. fill_loop a (i + 1) sz m) else Some m)"

definition fill_array :: "int \<Rightarrow> int \<Rightarrow> elms \<Rightarrow> (64 word \<times> elms) option" where
  "fill_array a sz m = do { m \<leftarrow> fill_loop a 0 sz m; scramble_array a sz 1 m }"

partial_function (option) check_loop :: "int \<Rightarrow> int \<Rightarrow> int \<Rightarrow> bool \<Rightarrow> elms \<Rightarrow> bool option" where
  "check_loop a i sz success m =
     (if i < sz then Option.bind (m (a + i)) (\<lambda>x. check_loop a (i + 1) sz (if x \<noteq> i then False else success) m)
      else Some success)"

definition sort_benchmark :: "int \<Rightarrow> int \<Rightarrow> int \<Rightarrow> elms \<Rightarrow> (bool \<times> elms) option" where
  "sort_benchmark a tmp sz m = do {
     (rand_nxt, m) \<leftarrow> fill_array a sz m;
     m \<leftarrow> cilksort a tmp sz m;
     success \<leftarrow> check_loop a 0 sz True m;
     Some (success, m) }"

subsection \<open>Arrays in memory\<close>

definition arr :: "elms \<Rightarrow> int \<Rightarrow> int list \<Rightarrow> bool" where
  "arr m p xs \<longleftrightarrow> (\<forall>i<length xs. m (p + int i) = Some (xs ! i))"

definition put :: "elms \<Rightarrow> int \<Rightarrow> int list \<Rightarrow> elms" where
  "put m p xs = (\<lambda>q. if p \<le> q \<and> q < p + int (length xs) then Some (xs ! nat (q - p)) else m q)"

definition room :: "elms \<Rightarrow> int \<Rightarrow> int \<Rightarrow> bool" where
  "room m p n \<longleftrightarrow> (\<forall>q. p \<le> q \<and> q < p + n \<longrightarrow> m q \<noteq> None)"

definition no_overlap :: "int \<Rightarrow> int \<Rightarrow> int \<Rightarrow> int \<Rightarrow> bool" where
  "no_overlap p n q k \<longleftrightarrow> p + n \<le> q \<or> q + k \<le> p"

lemma arr_Nil [simp]: "arr m p []"
  by (simp add: arr_def)

lemma arr_append: "arr m p (xs @ ys) \<longleftrightarrow> arr m p xs \<and> arr m (p + int (length xs)) ys"
proof
  assume a: "arr m p (xs @ ys)"
  have "m (p + int (length xs) + int i) = Some (ys ! i)" if "i < length ys" for i
    using a [unfolded arr_def, rule_format, of "length xs + i"] that by (simp add: add.assoc)
  moreover have "m (p + int i) = Some (xs ! i)" if "i < length xs" for i
    using a [unfolded arr_def, rule_format, of i] that by (simp add: nth_append)
  ultimately show "arr m p xs \<and> arr m (p + int (length xs)) ys" by (simp add: arr_def)
next
  assume a: "arr m p xs \<and> arr m (p + int (length xs)) ys"
  show "arr m p (xs @ ys)"
    unfolding arr_def
  proof (intro allI impI)
    fix i assume "i < length (xs @ ys)"
    then show "m (p + int i) = Some ((xs @ ys) ! i)"
      using a conjunct2 [OF a, unfolded arr_def, rule_format, of "i - length xs"]
      by (cases "i < length xs") (auto simp: arr_def nth_append of_nat_diff algebra_simps)
  qed
qed

lemma arr_Cons: "arr m p (x # xs) \<longleftrightarrow> m p = Some x \<and> arr m (p + 1) xs"
  using arr_append [of m p "[x]" xs] by (simp add: arr_def)

lemma arr_nth: "arr m p xs \<Longrightarrow> p \<le> q \<Longrightarrow> q < p + int (length xs) \<Longrightarrow> m q = Some (xs ! nat (q - p))"
  unfolding arr_def by (drule spec [of _ "nat (q - p)"]) auto

lemma arr_room: "arr m p xs \<Longrightarrow> room m p (int (length xs))"
  by (simp add: room_def arr_nth)

lemma arr_put [simp]: "arr (put m p xs) p xs"
  by (simp add: arr_def put_def)

lemma arr_put_apart: "no_overlap p (int (length xs)) q (int (length ys)) \<Longrightarrow> arr (put m p xs) q ys = arr m q ys"
proof -
  assume a: "no_overlap p (int (length xs)) q (int (length ys))"
  have "put m p xs (q + int i) = m (q + int i)" if "i < length ys" for i
    using a that by (auto simp: put_def no_overlap_def)
  then show ?thesis by (simp add: arr_def)
qed

lemma room_put: "room m q n \<Longrightarrow> room (put m p xs) q n"
  by (auto simp: room_def put_def)

lemma put_Nil [simp]: "put m p [] = m"
  by (rule ext) (auto simp: put_def)

lemma put_append: "put (put m p xs) (p + int (length xs)) ys = put m p (xs @ ys)"
proof
  fix q
  have "nat (q - p) - length xs = nat (q - (p + int (length xs)))" if "p + int (length xs) \<le> q" using that by linarith
  then show "put (put m p xs) (p + int (length xs)) ys q = put m p (xs @ ys) q"
    by (auto simp: put_def nth_append)
qed

lemma put_single: "m(p \<mapsto> v) = put m p [v]"
  by (rule ext) (auto simp: put_def)

lemma put_Cons: "put (m(p \<mapsto> x)) (p + 1) xs = put m p (x # xs)"
  using put_append [of m p "[x]" xs] by (simp add: put_single)

lemma put_commute:
  "no_overlap p (int (length xs)) q (int (length ys)) \<Longrightarrow> put (put m p xs) q ys = put (put m q ys) p xs"
  by (rule ext) (auto simp: put_def no_overlap_def)

lemma put_put [simp]: "length xs = length ys \<Longrightarrow> put (put m p xs) p ys = put m p ys"
  by (rule ext) (auto simp: put_def)

lemma put_arr: "arr m p xs \<Longrightarrow> put m p xs = m"
  by (rule ext) (auto simp: put_def arr_nth)

lemma put_outside: "q < p \<or> p + int (length xs) \<le> q \<Longrightarrow> put m p xs q = m q"
  by (auto simp: put_def)

lemma st_run: "room m p n \<Longrightarrow> 0 < n \<Longrightarrow> st m p v = Some (put m p [v])"
  by (auto simp: st_def room_def put_single)

lemma memcpy_run:
  assumes "arr m src xs" and "room m dest (int (length xs))" and "no_overlap dest (int (length xs)) src (int (length xs))"
  shows "memcpy dest src (int (length xs)) m = Some (put m dest xs)"
proof -
  have "\<not> (\<exists>i\<in>{0..<int (length xs)}. m (src + i) = None \<or> m (dest + i) = None)"
    using assms(1,2) by (auto simp: room_def arr_nth)
  moreover have "(\<lambda>q. if dest \<le> q \<and> q < dest + int (length xs) then m (src + (q - dest)) else m q) = put m dest xs"
    using assms(1) by (intro ext) (auto simp: put_def arr_nth)
  ultimately show ?thesis using assms(3) by (auto simp: memcpy_def no_overlap_def)
qed

subsection \<open>Sequential merge\<close>

fun merge_lists :: "int list \<Rightarrow> int list \<Rightarrow> int list" where
  "merge_lists (x # xs) (y # ys) = (if x < y then x # merge_lists xs (y # ys) else y # merge_lists (x # xs) ys)"
| "merge_lists [] ys = ys"
| "merge_lists xs [] = xs"

lemma merge_lists_Nil [simp]: "merge_lists xs [] = xs"
  by (cases xs) simp_all

lemma merge_lists_length: "length (merge_lists xs ys) = length xs + length ys"
  by (induction xs ys rule: merge_lists.induct) auto

lemma merge_lists_mset: "mset (merge_lists xs ys) = mset xs + mset ys"
  by (induction xs ys rule: merge_lists.induct) auto

lemma merge_lists_sorted: "sorted xs \<Longrightarrow> sorted ys \<Longrightarrow> sorted (merge_lists xs ys)"
proof (induction xs ys rule: merge_lists.induct)
  case (1 x xs y ys)
  have "set (merge_lists xs (y # ys)) = set xs \<union> set (y # ys)" "set (merge_lists (x # xs) ys) = set (x # xs) \<union> set ys"
    by (metis merge_lists_mset set_mset_mset set_mset_union)+
  with 1 show ?case by auto
qed simp_all

lemma merge_lists_sort: "sorted xs \<Longrightarrow> sorted ys \<Longrightarrow> merge_lists xs ys = sort (xs @ ys)"
  by (rule properties_for_sort [symmetric]) (simp_all add: merge_lists_mset merge_lists_sorted)

text \<open>
  \<open>sep\<close>: the sources hold \<open>X\<close> and \<open>Y\<close>, and the destination has room and overlaps neither.
  \<open>merged\<close>: some elements of both have been moved to the destination, in the order of \<open>merge_lists\<close>.
\<close>

definition sep :: "int \<Rightarrow> int list \<Rightarrow> int \<Rightarrow> int list \<Rightarrow> int \<Rightarrow> elms \<Rightarrow> bool" where
  "sep l1 X l2 Y d m \<longleftrightarrow> arr m l1 X \<and> arr m l2 Y \<and> room m d (int (length X + length Y)) \<and>
     no_overlap d (int (length X + length Y)) l1 (int (length X)) \<and> no_overlap d (int (length X + length Y)) l2 (int (length Y))"

definition merged :: "int \<Rightarrow> int list \<Rightarrow> int \<Rightarrow> int list \<Rightarrow> int \<Rightarrow> elms \<Rightarrow> int \<times> int \<times> int \<times> elms \<Rightarrow> int list \<Rightarrow> int list \<Rightarrow> bool" where
  "merged l1 X l2 Y d m r X' Y' \<longleftrightarrow> (\<exists>us vs zs. X = us @ X' \<and> Y = vs @ Y' \<and> length zs = length us + length vs \<and>
     r = (l1 + int (length us), l2 + int (length vs), d + int (length zs), put m d zs) \<and>
     merge_lists X Y = zs @ merge_lists X' Y')"

lemma merged_refl: "merged l1 X l2 Y d m (l1, l2, d, m) X Y"
  unfolding merged_def by (rule exI [of _ "[]"], rule exI [of _ "[]"], rule exI [of _ "[]"]) simp

lemma merged_trans:
  assumes "merged l1 X l2 Y d m (l1', l2', d', m') X' Y'" and "merged l1' X' l2' Y' d' m' r X'' Y''"
  shows "merged l1 X l2 Y d m r X'' Y''"
proof -
  obtain us vs zs where 1: "X = us @ X'" "Y = vs @ Y'" "length zs = length us + length vs"
     "l1' = l1 + int (length us)" "l2' = l2 + int (length vs)" "d' = d + int (length zs)" "m' = put m d zs"
     "merge_lists X Y = zs @ merge_lists X' Y'" using assms(1) unfolding merged_def by auto
  obtain us' vs' zs' where 2: "X' = us' @ X''" "Y' = vs' @ Y''" "length zs' = length us' + length vs'"
     "r = (l1' + int (length us'), l2' + int (length vs'), d' + int (length zs'), put m' d' zs')"
     "merge_lists X' Y' = zs' @ merge_lists X'' Y''" using assms(2) unfolding merged_def by auto
  show ?thesis
    unfolding merged_def
    by (rule exI [of _ "us @ us'"], rule exI [of _ "vs @ vs'"], rule exI [of _ "zs @ zs'"]) (use 1 2 put_append [of m d zs zs'] in auto)
qed

lemma merged_left: "x < y \<Longrightarrow> merged l1 (x # X) l2 (y # Y) d m (l1 + 1, l2, d + 1, put m d [x]) X (y # Y)"
  unfolding merged_def by (rule exI [of _ "[x]"], rule exI [of _ "[]"], rule exI [of _ "[x]"]) simp

lemma merged_right: "\<not> x < y \<Longrightarrow> merged l1 (x # X) l2 (y # Y) d m (l1, l2 + 1, d + 1, put m d [y]) (x # X) Y"
  unfolding merged_def by (rule exI [of _ "[]"], rule exI [of _ "[y]"], rule exI [of _ "[y]"]) simp

lemma merged_sep:
  assumes "merged l1 X l2 Y d m (l1', l2', d', m') X' Y'" and "sep l1 X l2 Y d m"
  shows "sep l1' X' l2' Y' d' m'"
proof -
  obtain us vs zs where 1: "X = us @ X'" "Y = vs @ Y'" "length zs = length us + length vs"
     "l1' = l1 + int (length us)" "l2' = l2 + int (length vs)" "d' = d + int (length zs)" "m' = put m d zs"
    using assms(1) unfolding merged_def by auto
  have "arr m' l1' X'" "arr m' l2' Y'"
    using assms(2) 1 by (auto simp: sep_def arr_append arr_put_apart no_overlap_def)
  moreover have "room m' d' (int (length X' + length Y'))"
    using assms(2) 1 unfolding 1(7) by (intro room_put) (auto simp: sep_def room_def)
  ultimately show ?thesis using assms(2) 1 by (auto simp: sep_def no_overlap_def)
qed

lemma sep_st:
  assumes "sep l1 X l2 Y d m" and "X \<noteq> [] \<or> Y \<noteq> []"
  shows "st m d v = Some (put m d [v])"
proof (rule st_run)
  show "room m d (int (length X + length Y))" using assms(1) by (simp add: sep_def)
  show "0 < int (length X + length Y)" using assms(2) by (cases X; cases Y) auto
qed

lemma sep_load:
  "sep l1 (x # X) l2 Y d m \<Longrightarrow> m l1 = Some x" "sep l1 X l2 (y # Y) d m \<Longrightarrow> m l2 = Some y"
  by (simp_all add: sep_def arr_Cons)

lemma merge_slow_run:
  assumes "sep l1 (x # X) l2 (y # Y) d m"
  shows "\<exists>r X' Y'. merge_slow l1 (l1 + int (length X)) l2 (l2 + int (length Y)) d x y m = Some r \<and>
     merged l1 (x # X) l2 (y # Y) d m r X' Y' \<and> (X' = [] \<or> Y' = [])"
  using assms
proof (induction "length X + length Y" arbitrary: l1 x X l2 y Y d m rule: less_induct)
  case less
  note store = sep_st [OF less.prems, simplified]
  show ?case
  proof (cases "x < y")
    case True
    note step = merged_left [OF True, of l1 X l2 Y d m]
    show ?thesis
    proof (cases X)
      case Nil
      then show ?thesis
        using store True step by (subst merge_slow.simps) auto
    next
      case (Cons x' X')
      note s' = merged_sep [OF step less.prems, unfolded Cons]
      from less.hyps [OF _ s'] obtain r Xr Yr where IH:
        "merge_slow (l1 + 1) (l1 + 1 + int (length X')) l2 (l2 + int (length Y)) (d + 1) x' y (put m d [x]) = Some r"
        "merged (l1 + 1) (x' # X') l2 (y # Y) (d + 1) (put m d [x]) r Xr Yr" "Xr = [] \<or> Yr = []"
        using Cons by auto
      have "merge_slow l1 (l1 + int (length X)) l2 (l2 + int (length Y)) d x y m = Some r"
        using store True IH(1) sep_load(1) [OF s'] Cons by (subst merge_slow.simps) (simp add: add.assoc)
      then show ?thesis using merged_trans [OF step] IH(2,3) Cons by blast
    qed
  next
    case False
    note step = merged_right [OF False, of l1 X l2 Y d m]
    show ?thesis
    proof (cases Y)
      case Nil
      then show ?thesis
        using store False step by (subst merge_slow.simps) auto
    next
      case (Cons y' Y')
      note s' = merged_sep [OF step less.prems, unfolded Cons]
      from less.hyps [OF _ s'] obtain r Xr Yr where IH:
        "merge_slow l1 (l1 + int (length X)) (l2 + 1) (l2 + 1 + int (length Y')) (d + 1) x y' (put m d [y]) = Some r"
        "merged l1 (x # X) (l2 + 1) (y' # Y') (d + 1) (put m d [y]) r Xr Yr" "Xr = [] \<or> Yr = []"
        using Cons by auto
      have "merge_slow l1 (l1 + int (length X)) l2 (l2 + int (length Y)) d x y m = Some r"
        using store False IH(1) sep_load(2) [OF s'] Cons by (subst merge_slow.simps) (simp add: add.assoc)
      then show ?thesis using merged_trans [OF step] IH(2,3) Cons by blast
    qed
  qed
qed

lemma merge_fast_run:
  assumes "sep l1 (x # X) l2 (y # Y) d m" and "X \<noteq> []" and "Y \<noteq> []"
  shows "\<exists>r X' Y'. merge_fast l1 (l1 + int (length X)) l2 (l2 + int (length Y)) d x y m = Some r \<and>
     merged l1 (x # X) l2 (y # Y) d m r X' Y' \<and> X' \<noteq> [] \<and> Y' \<noteq> []"
  using assms
proof (induction "length X + length Y" arbitrary: l1 x X l2 y Y d m rule: less_induct)
  case less
  note store = sep_st [OF less.prems(1), simplified]
  obtain x' X' y' Y' where XY: "X = x' # X'" "Y = y' # Y'" using less.prems(2,3) by (meson neq_Nil_conv)
  show ?case
  proof (cases "x < y")
    case True
    note step = merged_left [OF True, of l1 X l2 Y d m]
    note s' = merged_sep [OF step less.prems(1), unfolded XY(1)]
    show ?thesis
    proof (cases X')
      case Nil
      then show ?thesis
        using store True step sep_load(1) [OF s'] XY by (subst merge_fast.simps) auto
    next
      case (Cons x2 X2)
      from less.hyps [OF _ s'] obtain r Xr Yr where IH:
        "merge_fast (l1 + 1) (l1 + 1 + int (length X')) l2 (l2 + int (length Y)) (d + 1) x' y (put m d [x]) = Some r"
        "merged (l1 + 1) (x' # X') l2 (y # Y) (d + 1) (put m d [x]) r Xr Yr" "Xr \<noteq> []" "Yr \<noteq> []"
        using Cons XY by auto
      have "merge_fast l1 (l1 + int (length X)) l2 (l2 + int (length Y)) d x y m = Some r"
        using store True IH(1) sep_load(1) [OF s'] XY Cons by (subst merge_fast.simps) (simp add: add.assoc)
      then show ?thesis using merged_trans [OF step] IH(2-4) XY by blast
    qed
  next
    case False
    note step = merged_right [OF False, of l1 X l2 Y d m]
    note s' = merged_sep [OF step less.prems(1), unfolded XY(2)]
    show ?thesis
    proof (cases Y')
      case Nil
      then show ?thesis
        using store False step sep_load(2) [OF s'] XY by (subst merge_fast.simps) auto
    next
      case (Cons y2 Y2)
      from less.hyps [OF _ s'] obtain r Xr Yr where IH:
        "merge_fast l1 (l1 + int (length X)) (l2 + 1) (l2 + 1 + int (length Y')) (d + 1) x y' (put m d [y]) = Some r"
        "merged l1 (x # X) (l2 + 1) (y' # Y') (d + 1) (put m d [y]) r Xr Yr" "Xr \<noteq> []" "Yr \<noteq> []"
        using Cons XY by auto
      have "merge_fast l1 (l1 + int (length X)) l2 (l2 + int (length Y)) d x y m = Some r"
        using store False IH(1) sep_load(2) [OF s'] XY Cons by (subst merge_fast.simps) (simp add: add.assoc)
      then show ?thesis using merged_trans [OF step] IH(2-4) XY by blast
    qed
  qed
qed

lemma seqmerge_run:
  assumes "sep l1 X l2 Y d m"
  shows "seqmerge l1 (l1 + int (length X) - 1) l2 (l2 + int (length Y) - 1) d m = Some (put m d (merge_lists X Y))"
proof -
  let ?h1 = "l1 + int (length X) - 1" and ?h2 = "l2 + int (length Y) - 1"
  obtain l1' l2' d' m' X' Y' where fast:
    "(if l1 < ?h1 \<and> l2 < ?h2 then do { a1 \<leftarrow> m l1; a2 \<leftarrow> m l2; merge_fast l1 ?h1 l2 ?h2 d a1 a2 m } else Some (l1, l2, d, m))
       = Some (l1', l2', d', m')" "merged l1 X l2 Y d m (l1', l2', d', m') X' Y'"
  proof (cases "l1 < ?h1 \<and> l2 < ?h2")
    case True
    then obtain x Xs y Ys where "X = x # Xs" "Xs \<noteq> []" "Y = y # Ys" "Ys \<noteq> []" by (cases X; cases Y) auto
    then have s1: "sep l1 (x # Xs) l2 (y # Ys) d m" "l1 + int (length Xs) = ?h1" "l2 + int (length Ys) = ?h2"
      and ne: "Xs \<noteq> []" "Ys \<noteq> []"
      using assms by auto
    obtain r X1 Y1 where r: "merge_fast l1 ?h1 l2 ?h2 d x y m = Some r" "merged l1 (x # Xs) l2 (y # Ys) d m r X1 Y1"
      using merge_fast_run [OF s1(1) ne] unfolding s1(2,3) by blast
    show ?thesis
    proof (cases r)
      case (fields q1 q2 q3 q4)
      then show ?thesis
        using r sep_load [OF s1(1)] True \<open>X = x # Xs\<close> \<open>Y = y # Ys\<close>
        by (intro that [of q1 q2 q3 q4 X1 Y1]) auto
    qed
  next
    case False
    then show ?thesis by (intro that [OF _ merged_refl]) auto
  qed
  note s' = merged_sep [OF fast(2) assms]
  have h': "l1' + int (length X') - 1 = ?h1" "l2' + int (length Y') - 1 = ?h2"
    using fast(2) unfolding merged_def by auto
  obtain l1'' l2'' d'' m'' X'' Y'' where slow:
    "(if l1' \<le> ?h1 \<and> l2' \<le> ?h2 then do { a1 \<leftarrow> m' l1'; a2 \<leftarrow> m' l2'; merge_slow l1' ?h1 l2' ?h2 d' a1 a2 m' } else Some (l1', l2', d', m'))
       = Some (l1'', l2'', d'', m'')" "merged l1' X' l2' Y' d' m' (l1'', l2'', d'', m'') X'' Y''" "X'' = [] \<or> Y'' = []"
  proof (cases "X' = [] \<or> Y' = []")
    case True
    then show ?thesis by (intro that [OF _ merged_refl True]) (use h' in auto)
  next
    case False
    then obtain x Xs y Ys where "X' = x # Xs" "Y' = y # Ys" by (cases X'; cases Y') auto
    then have s1: "sep l1' (x # Xs) l2' (y # Ys) d' m'" "l1' + int (length Xs) = ?h1" "l2' + int (length Ys) = ?h2"
      using s' h' by auto
    obtain r X1 Y1 where r: "merge_slow l1' ?h1 l2' ?h2 d' x y m' = Some r"
      "merged l1' (x # Xs) l2' (y # Ys) d' m' r X1 Y1" "X1 = [] \<or> Y1 = []"
      using merge_slow_run [OF s1(1)] unfolding s1(2,3) by blast
    show ?thesis
    proof (cases r)
      case (fields q1 q2 q3 q4)
      then show ?thesis
        using r sep_load [OF s1(1)] s1(2,3) \<open>X' = x # Xs\<close> \<open>Y' = y # Ys\<close>
        by (intro that [of q1 q2 q3 q4 X1 Y1]) auto
    qed
  qed
  note s'' = merged_sep [OF slow(2) s']
  have h'': "l1'' + int (length X'') - 1 = ?h1" "l2'' + int (length Y'') - 1 = ?h2"
    using slow(2) h' unfolding merged_def by auto
  obtain zs where zs: "merge_lists X Y = zs @ merge_lists X'' Y''" "d'' = d + int (length zs)" "m'' = put m d zs"
    using merged_trans [OF fast(2) slow(2)] unfolding merged_def by auto
  have len: "?h2 - l2'' + 1 = int (length Y'')" "?h1 - l1'' + 1 = int (length X'')" "l1'' > ?h1 \<longleftrightarrow> X'' = []"
    using h'' by (linarith, linarith, cases X'', auto)
  have "(if l1'' > ?h1 then memcpy d'' l2'' (?h2 - l2'' + 1) m'' else memcpy d'' l1'' (?h1 - l1'' + 1) m'')
      = Some (put m'' d'' (merge_lists X'' Y''))"
  proof (cases "X'' = []")
    case True
    then show ?thesis unfolding len using memcpy_run [of m'' l2'' Y'' d''] s'' by (simp add: sep_def)
  next
    case False
    then show ?thesis unfolding len using memcpy_run [of m'' l1'' X'' d''] slow(3) s'' by (simp add: sep_def)
  qed
  then show ?thesis
    unfolding seqmerge_def fast(1) bind.bind_lunit split_conv slow(1) by (simp add: zs put_append)
qed

subsection \<open>The split of a parallel merge\<close>

text \<open>\<open>binsplit\<close> cuts a sorted range: everything up to the index it returns is at most \<open>val\<close>, the rest at least.\<close>

lemma binsplit_loop_run:
  assumes "arr m p xs" and "sorted xs" and "i \<le> j" and "j < length xs"
    and "\<forall>k<i. xs ! k \<le> val" and "\<forall>k. j < k \<and> k < length xs \<longrightarrow> val \<le> xs ! k"
  shows "\<exists>k. binsplit_loop val (p + int i) (p + int j) m = Some (p + int k) \<and> k < length xs \<and>
     (\<forall>l<k. xs ! l \<le> val) \<and> (\<forall>l. k < l \<and> l < length xs \<longrightarrow> val \<le> xs ! l)"
  using assms(3-)
proof (induction "j - i" arbitrary: i j rule: less_induct)
  case less
  show ?case
  proof (cases "i = j")
    case True
    then show ?thesis using less.prems by (subst binsplit_loop.simps) auto
  next
    case False
    define d where "d = i + (j - i + 1) div 2"
    have d: "i < d" "d \<le> j" using False less.prems(1) by (auto simp: d_def)
    have mid: "p + int i + (p + int j - (p + int i) + 1) div 2 = p + int d"
      using less.prems(1) by (simp add: d_def zdiv_int of_nat_diff)
    have ld: "m (p + int d) = Some (xs ! d)" using assms(1) d less.prems(2) by (simp add: arr_def)
    show ?thesis
    proof (cases "val \<le> xs ! d")
      case True
      have "val \<le> xs ! k" if "d - 1 < k" "k < length xs" for k
        using order_trans [OF True sorted_nth_mono [OF assms(2), of d k]] that d by simp
      moreover have "d - 1 - i < j - i" "i \<le> d - 1" "d - 1 < length xs" using d less.prems(2) by linarith+
      ultimately obtain k where k: "binsplit_loop val (p + int i) (p + int (d - 1)) m = Some (p + int k)" "k < length xs"
          "\<forall>l<k. xs ! l \<le> val" "\<forall>l. k < l \<and> l < length xs \<longrightarrow> val \<le> xs ! l"
        using less.hyps [of "d - 1" i] less.prems(3) by metis
      have "binsplit_loop val (p + int i) (p + int j) m = Some (p + int k)"
      proof -
        have "p + int d - 1 = p + int (d - 1)" "p + int i \<noteq> p + int j" using d False by auto
        then show ?thesis
          using k(1) True by (subst binsplit_loop.simps) (simp only: Let_def mid ld bind.bind_lunit if_True not_False_eq_True simp_thms)
      qed
      with k show ?thesis by blast
    next
      case nd: False
      have "\<forall>k<d. xs ! k \<le> val"
        using nd assms(2) d less.prems(2) by (metis less_imp_le linear order_le_less_trans order_trans sorted_nth_mono)
      moreover have "j - d < j - i" using d by linarith
      ultimately obtain k where k: "binsplit_loop val (p + int d) (p + int j) m = Some (p + int k)" "k < length xs"
          "\<forall>l<k. xs ! l \<le> val" "\<forall>l. k < l \<and> l < length xs \<longrightarrow> val \<le> xs ! l"
        using less.hyps [of j d] d(2) less.prems(2,4) by metis
      have "binsplit_loop val (p + int i) (p + int j) m = Some (p + int k)"
      proof -
        have "p + int i \<noteq> p + int j" using False by simp
        then show ?thesis
          using k(1) nd by (subst binsplit_loop.simps) (simp only: Let_def mid ld bind.bind_lunit if_True if_False not_False_eq_True simp_thms)
      qed
      with k show ?thesis by blast
    qed
  qed
qed

lemma binsplit_run:
  assumes "arr m p xs" and "sorted xs" and "xs \<noteq> []"
  obtains k where "binsplit val p (p + int (length xs) - 1) m = Some (p + int k - 1)" and "k \<le> length xs"
    and "\<forall>x\<in>set (take k xs). x \<le> val" and "\<forall>x\<in>set (drop k xs). val \<le> x"
proof -
  have j: "p + int (length xs) - 1 = p + int (length xs - 1)" using assms(3) by (cases xs) auto
  have "\<exists>k. binsplit_loop val (p + int 0) (p + int (length xs - 1)) m = Some (p + int k) \<and> k < length xs \<and>
     (\<forall>l<k. xs ! l \<le> val) \<and> (\<forall>l. k < l \<and> l < length xs \<longrightarrow> val \<le> xs ! l)"
    by (rule binsplit_loop_run [OF assms(1,2)]) (use assms(3) in auto)
  then obtain k where k: "binsplit_loop val p (p + int (length xs - 1)) m = Some (p + int k)" "k < length xs"
      "\<forall>l<k. xs ! l \<le> val" "\<forall>l. k < l \<and> l < length xs \<longrightarrow> val \<le> xs ! l"
    by auto
  have ld: "m (p + int k) = Some (xs ! k)" using assms(1) k(2) by (simp add: arr_def)
  define c where "c = (if xs ! k > val then k else Suc k)"
  have run: "binsplit val p (p + int (length xs) - 1) m = Some (p + int c - 1)"
    using k(1) ld unfolding j by (simp add: binsplit_def c_def)
  have low: "\<forall>x\<in>set (take c xs). x \<le> val"
  proof
    fix x assume "x \<in> set (take c xs)"
    then obtain l where "l < c" "l < length xs" "x = xs ! l" by (auto simp: in_set_conv_nth)
    then show "x \<le> val" using k(3) by (cases "l = k") (auto simp: c_def split: if_splits)
  qed
  have high: "\<forall>x\<in>set (drop c xs). val \<le> x"
  proof
    fix x assume "x \<in> set (drop c xs)"
    then obtain i where i: "i < length xs - c" "x = xs ! (c + i)" by (auto simp: in_set_conv_nth)
    then show "val \<le> x" using k(4) by (cases "c + i = k") (auto simp: c_def split: if_splits)
  qed
  show ?thesis using that [OF run _ low high] k(2) by (simp add: c_def)
qed

subsection \<open>Parallel merge\<close>

lemma sep_pieces:
  assumes "sep l1 (A1 @ v # A2) l2 (B1 @ B2) d m" and "length Z = length A1 + length B1" and "c = int (length Z)"
  shows "sep l1 A1 l2 B1 d (put m (d + c) [v])"
    and "sep (l1 + int (length A1) + 1) A2 (l2 + int (length B1)) B2 (d + c + 1) (put (put m (d + c) [v]) d Z)"
    and "st m (d + c) v = Some (put m (d + c) [v])"
proof -
  have a: "arr m l1 A1" "m (l1 + int (length A1)) = Some v" "arr m (l1 + int (length A1) + 1) A2"
      "arr m l2 B1" "arr m (l2 + int (length B1)) B2"
    and r: "room m d (int (length A1 + length A2 + length B1 + length B2) + 1)"
    and x: "no_overlap d (int (length A1 + length A2 + length B1 + length B2) + 1) l1 (int (length A1 + length A2) + 1)"
      "no_overlap d (int (length A1 + length A2 + length B1 + length B2) + 1) l2 (int (length B1 + length B2))"
    using assms(1) by (auto simp: sep_def arr_append arr_Cons algebra_simps)
  have c: "c = int (length A1) + int (length B1)" using assms(2,3) by simp
  show "st m (d + c) v = Some (put m (d + c) [v])"
    by (rule st_run [of _ _ 1]) (use r c in \<open>auto simp: room_def\<close>)
  have y: "no_overlap (d + c) (int (length [v])) l1 (int (length A1))" "no_overlap (d + c) (int (length [v])) l2 (int (length B1))"
      "no_overlap (d + c) (int (length [v])) (l1 + int (length A1) + 1) (int (length A2))"
      "no_overlap (d + c) (int (length [v])) (l2 + int (length B1)) (int (length B2))"
      "no_overlap d (int (length Z)) (l1 + int (length A1) + 1) (int (length A2))"
      "no_overlap d (int (length Z)) (l2 + int (length B1)) (int (length B2))"
    using x c assms(2) by (auto simp: no_overlap_def)
  have q: "room m d (int (length A1 + length B1))" "room m (d + c + 1) (int (length A2 + length B2))"
    using r c by (auto simp: room_def)
  show "sep l1 A1 l2 B1 d (put m (d + c) [v])"
    unfolding sep_def arr_put_apart [OF y(1)] arr_put_apart [OF y(2)]
    using a x room_put [OF q(1)] by (auto simp: no_overlap_def)
  show "sep (l1 + int (length A1) + 1) A2 (l2 + int (length B1)) B2 (d + c + 1) (put (put m (d + c) [v]) d Z)"
    unfolding sep_def arr_put_apart [OF y(5)] arr_put_apart [OF y(6)] arr_put_apart [OF y(3)] arr_put_apart [OF y(4)]
    using a x c room_put [OF room_put [OF q(2)]] by (auto simp: no_overlap_def)
qed

lemma put_three:
  assumes "c = int (length Z1)"
  shows "put (put (put m (d + c) [v]) d Z1) (d + c + 1) Z2 = put m d (Z1 @ v # Z2)"
proof -
  have "put (put m (d + c) [v]) d Z1 = put (put m d Z1) (d + c) [v]"
    by (rule put_commute) (use assms in \<open>simp add: no_overlap_def\<close>)
  then show ?thesis
    using put_append [of m d Z1 "[v]"] put_append [of m d "Z1 @ [v]" Z2] assms by (simp add: ac_simps)
qed

lemma sort_three:
  assumes "\<forall>x\<in>set A1 \<union> set B1. x \<le> v" and "\<forall>x\<in>set A2 \<union> set B2. v \<le> x"
  shows "sort (A1 @ B1) @ v # sort (A2 @ B2) = sort ((A1 @ v # A2) @ (B1 @ B2))"
  by (rule properties_for_sort [symmetric]) (use assms in \<open>auto simp: sorted_append intro: order_trans\<close>)

lemma cilkmerge_step:
  assumes "(if h2 - l2 > h1 - l1 then (l2, h2, l1, h1) else (l1, h1, l2, h2)) = (a, ha, b, hb)"
  shows "cilkmerge l1 h1 l2 h2 d m =
     (if ha < a then memcpy d b (hb - b) m
      else if hb - b < MERGESIZE then seqmerge a ha b hb d m
      else Option.bind (m ((ha - a + 1) div 2 + a)) (\<lambda>v. Option.bind (binsplit v b hb m) (\<lambda>t.
         Option.bind (st m (d + ((ha - a + 1) div 2 + a - a + t - b) + 1) v) (\<lambda>m.
         Option.bind (cilkmerge a ((ha - a + 1) div 2 + a - 1) b t d m) (\<lambda>m.
           cilkmerge ((ha - a + 1) div 2 + a + 1) ha (t + 1) hb (d + ((ha - a + 1) div 2 + a - a + t - b) + 2) m)))))"
  by (subst cilkmerge.simps) (simp only: assms Let_def split_conv)

lemma cilkmerge_run:
  assumes "sep l1 X l2 Y d m" and "sorted X" and "sorted Y" and "X \<noteq> [] \<or> Y \<noteq> []"
  shows "cilkmerge l1 (l1 + int (length X) - 1) l2 (l2 + int (length Y) - 1) d m = Some (put m d (sort (X @ Y)))"
  using assms
proof (induction "length X + length Y" arbitrary: l1 X l2 Y d m rule: less_induct)
  case less
  obtain a A b B where AB: "(if length Y > length X then (l2, Y, l1, X) else (l1, X, l2, Y)) = (a, A, b, B)"
    by (metis prod_cases4)
  have swap: "(if l2 + int (length Y) - 1 - l2 > l1 + int (length X) - 1 - l1
       then (l2, l2 + int (length Y) - 1, l1, l1 + int (length X) - 1)
       else (l1, l1 + int (length X) - 1, l2, l2 + int (length Y) - 1)) =
     (a, a + int (length A) - 1, b, b + int (length B) - 1)"
    using AB by (auto split: if_splits)
  have s: "sep a A b B d m" "sorted A" "sorted B" "A \<noteq> []" "length B \<le> length A" "sort (X @ Y) = sort (A @ B)"
      "length A + length B = length X + length Y"
    using AB less.prems by (auto simp: sep_def add.commute split: if_splits intro: properties_for_sort)
  show ?case
  proof (cases "int (length B) - 1 < MERGESIZE")
    case True
    then show ?thesis
      using s seqmerge_run [OF s(1)] merge_lists_sort [OF s(2,3)]
      unfolding cilkmerge_step [OF swap] by simp
  next
    case False
    define n where "n = length A div 2"
    define v where "v = A ! n"
    define A1 A2 where "A1 = take n A" and "A2 = drop (Suc n) A"
    have big: "2049 \<le> length B" using False by (simp add: MERGESIZE_def KILO_def)
    then have n: "n < length A" "Suc n < length A" "0 < n" using s(5) by (auto simp: n_def)
    have A: "A = A1 @ v # A2" "length A1 = n" using n by (auto simp: A1_def A2_def v_def id_take_nth_drop)
    have arrs: "arr m a A" "arr m b B" using s(1) by (simp_all add: sep_def)
    have ld: "m (a + int n) = Some v" using arrs(1) n by (simp add: arr_def v_def)
    obtain k where k: "binsplit v b (b + int (length B) - 1) m = Some (b + int k - 1)" "k \<le> length B"
        "\<forall>x\<in>set (take k B). x \<le> v" "\<forall>x\<in>set (drop k B). v \<le> x"
      using binsplit_run [OF arrs(2) s(3), of v] big by (metis list.size(3) not_numeral_le_zero)
    define B1 B2 where "B1 = take k B" and "B2 = drop k B"
    have B: "B = B1 @ B2" "length B1 = k" using k(2) by (simp_all add: B1_def B2_def)
    define Z1 c where "Z1 = sort (A1 @ B1)" and "c = int (length Z1)"
    have Z1: "length Z1 = length A1 + length B1" "c = int n + int k" by (simp_all add: Z1_def c_def A B)
    note pc = sep_pieces [OF s(1) [unfolded A(1) B(1)] Z1(1) c_def]
    have srt: "sorted A1" "sorted A2" "sorted B1" "sorted B2" "\<forall>x\<in>set A1. x \<le> v" "\<forall>x\<in>set A2. v \<le> x"
      using s(2,3) unfolding A(1) B(1) by (simp_all add: sorted_append)
    have m1: "cilkmerge a (a + int n - 1) b (b + int k - 1) d (put m (d + c) [v]) = Some (put (put m (d + c) [v]) d Z1)"
    proof -
      have "length A1 + length B1 < length X + length Y" unfolding s(7) [symmetric] A(1) B(1) by simp
      moreover have "A1 \<noteq> []" using n(3) A(2) by auto
      ultimately show ?thesis using less.hyps [OF _ pc(1) srt(1,3)] A(2) B(2) by (simp add: Z1_def)
    qed
    have ne: "A2 \<noteq> []" using n(2) by (simp add: A2_def)
    have "length A2 + length B2 < length X + length Y" unfolding s(7) [symmetric] A(1) B(1) by simp
    then have m2: "cilkmerge (a + int n + 1) (a + int n + 1 + int (length A2) - 1) (b + int k) (b + int k + int (length B2) - 1) (d + c + 1)
        (put (put m (d + c) [v]) d Z1) = Some (put (put (put m (d + c) [v]) d Z1) (d + c + 1) (sort (A2 @ B2)))"
      using less.hyps [OF _ pc(2) srt(2,4)] ne A(2) B(2) by simp
    have idx: "a + int n + 1 + int (length A2) - 1 = a + int (length A) - 1" "b + int k + int (length B2) - 1 = b + int (length B) - 1"
      using A B by (simp_all add: algebra_simps) 
    have spl: "(a + int (length A) - 1 - a + 1) div 2 + a = a + int n" by (simp add: n_def zdiv_int)
    have lows: "d + (a + int n - a + (b + int k - 1) - b) + 1 = d + c" "d + (a + int n - a + (b + int k - 1) - b) + 2 = d + c + 1"
      using Z1(2) by simp_all
    have "cilkmerge l1 (l1 + int (length X) - 1) l2 (l2 + int (length Y) - 1) d m =
        Some (put (put (put m (d + c) [v]) d Z1) (d + c + 1) (sort (A2 @ B2)))"
    proof -
      have "\<not> a + int (length A) - 1 < a" "\<not> b + int (length B) - 1 - b < MERGESIZE" "b + int k - 1 + 1 = b + int k"
        using False s(4) by (auto simp: MERGESIZE_def KILO_def)
      then show ?thesis
        using m2 unfolding idx
        by (simp only: cilkmerge_step [OF swap] spl ld k(1) lows pc(3) m1 if_False bind.bind_lunit simp_thms)
    qed
    moreover have "put (put (put m (d + c) [v]) d Z1) (d + c + 1) (sort (A2 @ B2)) = put m d (sort (A @ B))"
    proof -
      have "\<forall>x\<in>set A1 \<union> set B1. x \<le> v" "\<forall>x\<in>set A2 \<union> set B2. v \<le> x"
        using srt(5,6) k(3,4) unfolding B1_def B2_def by auto
      then have "Z1 @ v # sort (A2 @ B2) = sort (A @ B)"
        unfolding Z1_def A(1) B(1) by (rule sort_three)
      then show ?thesis using put_three [OF c_def, of m d v "sort (A2 @ B2)"] by simp
    qed
    ultimately show ?thesis using s(6) by simp
  qed
qed

subsection \<open>Insertion sort\<close>

lemma put_prefix: "length L' = length L \<Longrightarrow> put (put m p (L @ R)) p L' = put m p (L' @ R)"
  by (rule ext) (auto simp: put_def nth_append)

lemma put_suffix: "length R' = length R \<Longrightarrow> put (put m p (L @ R)) (p + int (length L)) R' = put m p (L @ R')"
  using put_append [of "put m p L" "p + int (length L)" "[]"] by (simp flip: put_append)

lemma insert_shift_run:
  assumes "arr m low (ys @ ws)" and "room m low (int (length ys + length ws) + 1)" and "\<forall>w\<in>set ws. a < w" and "ys = [] \<or> last ys \<le> a"
  shows "insert_shift a low (low + int (length ys + length ws) - 1) m = Some (low + int (length ys) - 1, put m (low + int (length ys) + 1) ws)"
  using assms(1-3)
proof (induction ws arbitrary: m rule: rev_induct)
  case Nil
  show ?case
  proof (cases ys rule: rev_cases)
    case Nil
    then show ?thesis by (subst insert_shift.simps) simp
  next
    case (snoc us u)
    then have "m (low + int (length us)) = Some u" "u \<le> a"
      using Nil.prems(1) assms(4) by (auto simp: arr_append arr_Cons)
    then show ?thesis using snoc by (subst insert_shift.simps) (simp add: add.commute)
  qed
next
  case (snoc w ws)
  let ?p = "low + int (length ys + length ws)"
  let ?m = "put m (?p + 1) [w]"
  have w: "m ?p = Some w" "a < w" using snoc.prems(1,3) by (auto simp: arr_append arr_Cons add.assoc)
  have st: "st m (?p + 1) w = Some ?m"
    by (rule st_run [of _ _ 1]) (use snoc.prems(2) in \<open>auto simp: room_def\<close>)
  have "no_overlap (?p + 1) (int (length [w])) low (int (length (ys @ ws)))" by (simp add: no_overlap_def)
  then have "arr ?m low (ys @ ws)"
    using snoc.prems(1) arr_put_apart arr_append [of m low "ys @ ws" "[w]"] by simp
  moreover have "room ?m low (int (length ys + length ws) + 1)"
    using snoc.prems(2) by (intro room_put) (auto simp: room_def)
  ultimately have IH: "insert_shift a low (?p - 1) ?m = Some (low + int (length ys) - 1, put ?m (low + int (length ys) + 1) ws)"
    using snoc.IH [of ?m] snoc.prems(3) by simp
  have "put ?m (low + int (length ys) + 1) ws = put (put m (low + int (length ys) + 1) ws) (?p + 1) [w]"
    by (rule put_commute) (simp add: no_overlap_def)
  also have "\<dots> = put m (low + int (length ys) + 1) (ws @ [w])"
    using put_append [of m "low + int (length ys) + 1" ws "[w]"] by (simp add: algebra_simps)
  finally show ?case
    using w st IH by (subst insert_shift.simps) (simp add: algebra_simps)
qed

lemma sorted_split: "sorted zs \<Longrightarrow> \<exists>ys ws. zs = ys @ ws \<and> (\<forall>w\<in>set ws. a < w) \<and> (\<forall>y\<in>set ys. y \<le> (a::int))"
proof (induction zs)
  case (Cons z zs)
  show ?case
  proof (cases "z \<le> a")
    case True
    from Cons obtain ys ws where "zs = ys @ ws" "\<forall>w\<in>set ws. a < w" "\<forall>y\<in>set ys. y \<le> a" by auto
    with True show ?thesis by (intro exI [of _ "z # ys"] exI [of _ ws]) auto
  next
    case False
    with Cons.prems show ?thesis by (intro exI [of _ "[]"] exI [of _ "z # zs"]) auto
  qed
qed simp

lemma insertion_loop_run:
  assumes "arr m low (zs @ rest)" and "sorted zs"
  shows "insertion_loop low (low + int (length zs + length rest) - 1) (low + int (length zs)) m = Some (put m low (sort (zs @ rest)))"
  using assms
proof (induction rest arbitrary: zs m)
  case Nil
  then show ?case by (subst insertion_loop.simps) (simp add: put_arr sorted_sort_id)
next
  case (Cons a rest)
  obtain ys ws where z: "zs = ys @ ws" "\<forall>w\<in>set ws. a < w" "\<forall>y\<in>set ys. y \<le> a"
    using sorted_split [OF Cons.prems(2)] by blast
  have a: "m (low + int (length zs)) = Some a" "arr m low (ys @ ws)" using Cons.prems(1) z(1) by (simp_all add: arr_append arr_Cons add.assoc)
  have r: "room m low (int (length ys + length ws) + 1)"
    using arr_room [OF Cons.prems(1)] z(1) by (simp add: room_def)
  have sh: "insert_shift a low (low + int (length zs) - 1) m = Some (low + int (length ys) - 1, put m (low + int (length ys) + 1) ws)"
    using insert_shift_run [OF a(2) r z(2)] z(1,3) last_in_set by (cases "ys = []") auto
  let ?m = "put m low (ys @ a # ws)"
  have st: "st (put m (low + int (length ys) + 1) ws) (low + int (length ys)) a = Some ?m"
  proof -
    have "st (put m (low + int (length ys) + 1) ws) (low + int (length ys)) a =
        Some (put (put m (low + int (length ys) + 1) ws) (low + int (length ys)) [a])"
      by (rule st_run [of _ _ 1], rule room_put) (use r in \<open>auto simp: room_def\<close>)
    also have "put (put m (low + int (length ys) + 1) ws) (low + int (length ys)) [a] = put (put m (low + int (length ys)) [a]) (low + int (length ys) + 1) ws"
      by (rule put_commute) (simp add: no_overlap_def)
    also have "\<dots> = put (put m low ys) (low + int (length ys)) (a # ws)"
      using put_append [of m "low + int (length ys)" "[a]" ws] put_arr [of m low ys] a(2) by (simp add: arr_append)
    finally show ?thesis by (simp add: put_append)
  qed
  have arr': "arr ?m low ((ys @ a # ws) @ rest)"
  proof -
    have "no_overlap low (int (length (ys @ a # ws))) (low + int (length (ys @ a # ws))) (int (length rest))" by (simp add: no_overlap_def)
    moreover have "arr m (low + int (length (ys @ a # ws))) rest"
      using Cons.prems(1) z(1) by (simp add: arr_append arr_Cons algebra_simps)
    ultimately show ?thesis
      unfolding arr_append [of ?m low "ys @ a # ws" rest] using arr_put_apart arr_put by blast
  qed
  have srt: "sorted (ys @ a # ws)" using Cons.prems(2) z by (auto simp: sorted_append intro: less_imp_le)
  have "sort ((ys @ a # ws) @ rest) = sort (zs @ a # rest)"
    by (rule properties_for_sort) (use z(1) in auto)
  moreover have "insertion_loop low (low + int (length (ys @ a # ws) + length rest) - 1) (low + int (length (ys @ a # ws))) ?m
      = Some (put ?m low (sort ((ys @ a # ws) @ rest)))" by (rule Cons.IH [OF arr' srt])
  moreover have "put ?m low (sort (zs @ a # rest)) = put m low (sort (zs @ a # rest))"
    using z(1) by (intro ext) (auto simp: put_def)
  ultimately show ?case
    using a(1) sh st z(1) by (subst insertion_loop.simps) (simp add: algebra_simps)
qed

lemma insertion_sort_run:
  assumes "arr m low xs"
  shows "insertion_sort low (low + int (length xs) - 1) m = Some (put m low (sort xs))"
proof (cases xs)
  case Nil
  then show ?thesis by (simp add: insertion_sort_def) (subst insertion_loop.simps, simp)
next
  case (Cons x rest)
  then show ?thesis using insertion_loop_run [of m low "[x]" rest] assms by (simp add: insertion_sort_def algebra_simps)
qed

subsection \<open>Partition and quicksort\<close>

lemma scan_down_run:
  assumes "arr m low zs" and "j < length zs" and "\<exists>i\<le>j. zs ! i \<le> pv"
  shows "\<exists>k\<le>j. scan_down pv (low + int j) m = Some (low + int k, zs ! k) \<and> zs ! k \<le> pv \<and> (\<forall>l. k < l \<and> l \<le> j \<longrightarrow> pv < zs ! l)"
  using assms(2,3)
proof (induction j)
  case 0
  then show ?case using arr_nth [OF assms(1), of low] by (subst scan_down.simps) auto
next
  case (Suc j)
  have ld: "m (low + int (Suc j)) = Some (zs ! Suc j)" using assms(1) Suc.prems(1) unfolding arr_def by blast
  show ?case
  proof (cases "zs ! Suc j > pv")
    case True
    then have "\<exists>i\<le>j. zs ! i \<le> pv" using Suc.prems(2) by (metis le_Suc_eq not_less)
    then obtain k where k: "k \<le> j" "scan_down pv (low + int j) m = Some (low + int k, zs ! k)" "zs ! k \<le> pv"
        "\<forall>l. k < l \<and> l \<le> j \<longrightarrow> pv < zs ! l"
      using Suc.IH Suc.prems(1) by auto
    have "scan_down pv (low + int (Suc j)) m = Some (low + int k, zs ! k)"
      using ld True k(2) by (subst scan_down.simps) simp
    then show ?thesis using k True by (intro exI [of _ k]) (auto simp: le_Suc_eq)
  next
    case False
    then show ?thesis using ld by (intro exI [of _ "Suc j"]) (subst scan_down.simps, simp)
  qed
qed

lemma scan_up_run:
  assumes "arr m low zs" and "\<exists>j\<ge>i. j < length zs \<and> pv \<le> zs ! j"
  shows "\<exists>k\<ge>i. k < length zs \<and> scan_up pv (low + int i) m = Some (low + int k, zs ! k) \<and> pv \<le> zs ! k \<and>
     (\<forall>l. i \<le> l \<and> l < k \<longrightarrow> zs ! l < pv)"
  using assms(2)
proof (induction "length zs - i" arbitrary: i rule: less_induct)
  case less
  obtain j where j: "i \<le> j" "j < length zs" "pv \<le> zs ! j" using less.prems by blast
  have ld: "m (low + int i) = Some (zs ! i)" using assms(1) j by (simp add: arr_def)
  show ?case
  proof (cases "zs ! i < pv")
    case True
    then have "Suc i \<le> j" using j by (cases "i = j") auto
    then have "\<exists>j\<ge>Suc i. j < length zs \<and> pv \<le> zs ! j" "length zs - Suc i < length zs - i" using j by auto
    from less.hyps [OF this(2,1)] obtain k where k: "Suc i \<le> k" "k < length zs"
        "scan_up pv (low + int (Suc i)) m = Some (low + int k, zs ! k)" "pv \<le> zs ! k" "\<forall>l. Suc i \<le> l \<and> l < k \<longrightarrow> zs ! l < pv"
      by blast
    have "scan_up pv (low + int i) m = Some (low + int k, zs ! k)"
      using ld True k(3) by (subst scan_up.simps) (simp add: algebra_simps)
    moreover have "\<forall>l. i \<le> l \<and> l < k \<longrightarrow> zs ! l < pv"
      using k(5) True by (metis Suc_leI le_neq_implies_less)
    ultimately show ?thesis using k by (intro exI [of _ k]) auto
  next
    case False
    then show ?thesis using ld j by (intro exI [of _ i]) (subst scan_up.simps, auto)
  qed
qed

lemma put_update:
  assumes "arr m p zs" and "k < length zs"
  shows "st m (p + int k) v = Some (put m p (zs[k := v]))"
proof -
  have "m (p + int k) = Some (zs ! k)" using assms by (simp add: arr_def)
  moreover have "m(p + int k \<mapsto> v) = put m p (zs[k := v])"
  proof
    fix q
    show "(m(p + int k \<mapsto> v)) q = put m p (zs[k := v]) q"
      using assms arr_nth [OF assms(1), of q] by (cases "nat (q - p) = k") (auto simp: put_def)
  qed
  ultimately show ?thesis by (simp add: st_def)
qed

text \<open>What a call of the partition loop needs, and what it delivers, of the elements \<open>zs\<close> of the range.\<close>

definition part_inv :: "int \<Rightarrow> nat \<Rightarrow> nat \<Rightarrow> int list \<Rightarrow> bool" where
  "part_inv pv i j zs \<longleftrightarrow> j < length zs \<and> (\<forall>l<i. zs ! l \<le> pv) \<and> (\<forall>l. j < l \<and> l < length zs \<longrightarrow> pv \<le> zs ! l) \<and>
     (\<exists>l\<le>j. zs ! l \<le> pv) \<and> (\<exists>l\<ge>i. l < length zs \<and> pv \<le> zs ! l)"

definition parted :: "int \<Rightarrow> nat \<Rightarrow> int list \<Rightarrow> bool" where
  "parted pv k zs \<longleftrightarrow> k < length zs \<and> (\<forall>l\<le>k. zs ! l \<le> pv) \<and> (\<forall>l. k < l \<and> l < length zs \<longrightarrow> pv \<le> zs ! l) \<and>
     (Suc k = length zs \<longrightarrow> pv \<le> zs ! k)"

lemma seqpart_loop_run:
  assumes "part_inv pv i j zs" and "arr m low zs"
  shows "\<exists>k zs'. seqpart_loop pv (low + int i) (low + int j) m = Some (low + int k, put m low zs') \<and> mset zs' = mset zs \<and> parted pv k zs'"
  using assms
proof (induction "j - i" arbitrary: i j zs m rule: less_induct)
  case less
  note inv = less.prems(1) [unfolded part_inv_def]
  obtain k where k: "k \<le> j" "scan_down pv (low + int j) m = Some (low + int k, zs ! k)" "zs ! k \<le> pv"
      "\<forall>l. k < l \<and> l \<le> j \<longrightarrow> pv < zs ! l"
    using scan_down_run [OF less.prems(2), of j pv] inv by blast
  obtain u where u: "i \<le> u" "u < length zs" "scan_up pv (low + int i) m = Some (low + int u, zs ! u)" "pv \<le> zs ! u"
      "\<forall>l. i \<le> l \<and> l < u \<longrightarrow> zs ! l < pv"
    using scan_up_run [OF less.prems(2), of i pv] inv by blast
  have low: "zs ! l \<le> pv" if "l < u" for l using inv u(5) that by (metis less_imp_le not_less)
  have high: "pv \<le> zs ! l" if "k < l" "l < length zs" for l using inv k(4) that by (metis less_imp_le not_less)
  show ?case
  proof (cases "k \<le> u")
    case True
    have "parted pv k zs"
      unfolding parted_def
    proof (intro conjI allI impI)
      show "k < length zs" using k(1) inv by simp
      show "zs ! l \<le> pv" if "l \<le> k" for l using low k(3) that True by (cases "l = k") auto
      show "pv \<le> zs ! l" if "k < l \<and> l < length zs" for l using high that by blast
      show "pv \<le> zs ! k" if "Suc k = length zs"
      proof -
        have "u = k" using u(2) True that by linarith
        then show ?thesis using u(4) by simp
      qed
    qed
    moreover have "seqpart_loop pv (low + int i) (low + int j) m = Some (low + int k, put m low zs)"
      using k(2) u(3) True put_arr [OF less.prems(2)] by (subst seqpart_loop.simps) simp
    ultimately show ?thesis by blast
  next
    case False
    then have uk: "u < k" "k < length zs" using k(1) inv by auto
    let ?zs = "zs[k := zs ! u, u := zs ! k]"
    have st: "st m (low + int k) (zs ! u) = Some (put m low (zs[k := zs ! u]))"
        "st (put m low (zs[k := zs ! u])) (low + int u) (zs ! k) = Some (put m low ?zs)"
      using put_update [OF less.prems(2) uk(2), of "zs ! u"] put_update [of "put m low (zs[k := zs ! u])" low "zs[k := zs ! u]" u "zs ! k"] u(2) by simp_all
    have "part_inv pv (Suc u) (k - 1) ?zs"
      unfolding part_inv_def
    proof (intro conjI allI impI)
      show "k - 1 < length ?zs" using uk by simp
      show "?zs ! l \<le> pv" if "l < Suc u" for l using low k(3) u(2) uk that by (cases "l = u") (auto simp: nth_list_update)
      show "pv \<le> ?zs ! l" if "k - 1 < l \<and> l < length ?zs" for l
        using high u(4) uk that by (cases "l = k") (auto simp: nth_list_update)
      show "\<exists>l\<le>k - 1. ?zs ! l \<le> pv" using uk k(3) u(2) by (intro exI [of _ u]) auto
      show "\<exists>l\<ge>Suc u. l < length ?zs \<and> pv \<le> ?zs ! l" using uk u(4) by (intro exI [of _ k]) auto
    qed
    moreover have "k - 1 - Suc u < j - i" using uk k(1) u(1) by linarith
    ultimately obtain k' zs' where IH: "seqpart_loop pv (low + int (Suc u)) (low + int (k - 1)) (put m low ?zs) = Some (low + int k', put (put m low ?zs) low zs')"
        "mset zs' = mset ?zs" "parted pv k' zs'"
      using less.hyps [of "k - 1" "Suc u" ?zs "put m low ?zs"] by auto
    have ms: "mset ?zs = mset zs" using mset_swap [of u zs k] uk u(2) by simp
    then have "length zs' = length ?zs" using IH(2) by (metis mset_eq_length)
    then have "put (put m low ?zs) low zs' = put m low zs'" by (intro put_put) simp
    moreover have "seqpart_loop pv (low + int i) (low + int j) m = Some (low + int k', put (put m low ?zs) low zs')"
      using k(2) u(3) False st IH(1) uk by (subst seqpart_loop.simps) (simp add: of_nat_diff algebra_simps)
    ultimately show ?thesis using IH(2,3) ms by auto
  qed
qed

lemma med3_in: "med3 a b c \<in> {a, b, c}"
  by (simp add: med3_def)

lemma seqpart_run:
  assumes "arr m low xs" and "2 \<le> length xs"
  shows "\<exists>L R. seqpart low (low + int (length xs) - 1) m = Some (low + int (length L) - 1, put m low (L @ R)) \<and>
     L \<noteq> [] \<and> R \<noteq> [] \<and> mset (L @ R) = mset xs \<and> (\<forall>x\<in>set L. \<forall>y\<in>set R. x \<le> y)"
proof -
  let ?n = "length xs"
  have at: "m (low + int i) = Some (xs ! i)" if "i < ?n" for i using assms(1) that by (simp add: arr_def)
  have n0: "0 < ?n" "?n - 1 < ?n" "(?n - 1) div 2 < ?n" using assms(2) by linarith+
  have ix: "low + int (?n - 1) = low + int ?n - 1" "low + int ((?n - 1) div 2) = low + (low + int ?n - 1 - low) div 2"
    using assms(2) by (simp_all add: zdiv_int of_nat_diff)
  have ld: "m low = Some (xs ! 0)" "m (low + int ?n - 1) = Some (xs ! (?n - 1))"
      "m (low + (low + int ?n - 1 - low) div 2) = Some (xs ! ((?n - 1) div 2))"
    using at [OF n0(1)] at [OF n0(2), unfolded ix(1)] at [OF n0(3), unfolded ix(2)] by simp_all
  define pv where "pv = med3 (xs ! 0) (xs ! (?n - 1)) (xs ! ((?n - 1) div 2))"
  have ch: "choose_pivot low (low + int ?n - 1) m = Some pv" using ld by (simp add: choose_pivot_def pv_def)
  have "\<exists>i<?n. xs ! i = pv"
    using med3_in [of "xs ! 0" "xs ! (?n - 1)" "xs ! ((?n - 1) div 2)"] assms(2)
    by (auto simp: pv_def intro: exI [of _ 0] exI [of _ "?n - 1"] exI [of _ "(?n - 1) div 2"])
  then obtain i0 where i0: "i0 < ?n" "xs ! i0 = pv" by blast
  then have "\<exists>l\<le>?n - 1. xs ! l \<le> pv" "\<exists>l\<ge>0. l < ?n \<and> pv \<le> xs ! l"
    by (auto intro!: exI [of _ i0])
  then have "part_inv pv 0 (?n - 1) xs"
    using assms(2) by (auto simp: part_inv_def)
  from seqpart_loop_run [OF this assms(1)] obtain k zs where
    k: "seqpart_loop pv low (low + int (?n - 1)) m = Some (low + int k, put m low zs)" "mset zs = mset xs" "parted pv k zs"
    by auto
  have len: "length zs = ?n" using k(2) by (metis mset_eq_length)
  have e: "low + int (?n - 1) = low + int ?n - 1" using assms(2) by simp
  define c where "c = (if Suc k < ?n then Suc k else k)"
  have c: "0 < c" "c < ?n" using k(3) assms(2) len by (auto simp: c_def parted_def)
  have run: "seqpart low (low + int ?n - 1) m = Some (low + int c - 1, put m low zs)"
    using k(1,3) ch len unfolding e by (auto simp: seqpart_def c_def parted_def)
  have "x \<le> pv" if "x \<in> set (take c zs)" for x
    using that k(3) len by (auto simp: in_set_conv_nth c_def parted_def split: if_splits)
  moreover have "pv \<le> y" if "y \<in> set (drop c zs)" for y
  proof -
    from that obtain l where "l < ?n - c" "y = zs ! (c + l)" using len by (auto simp: in_set_conv_nth)
    then show ?thesis using k(3) len c
      by (cases "c + l = k") (auto simp: c_def parted_def split: if_splits)
  qed
  ultimately have "\<forall>x\<in>set (take c zs). \<forall>y\<in>set (drop c zs). x \<le> y" by (blast intro: order_trans)
  then show ?thesis
    using run c len k(2) by (intro exI [of _ "take c zs"] exI [of _ "drop c zs"]) auto
qed

lemma seqquick_run:
  assumes "arr m low xs"
  shows "seqquick low (low + int (length xs) - 1) m = Some (put m low (sort xs))"
  using assms
proof (induction "length xs" arbitrary: low xs m rule: less_induct)
  case less
  show ?case
  proof (cases "low + int (length xs) - 1 - low \<ge> INSERTIONSIZE")
    case False
    then show ?thesis using insertion_sort_run [OF less.prems] by (subst seqquick.simps) simp
  next
    case True
    then obtain L R where p: "seqpart low (low + int (length xs) - 1) m = Some (low + int (length L) - 1, put m low (L @ R))"
        "L \<noteq> []" "R \<noteq> []" "mset (L @ R) = mset xs" "\<forall>x\<in>set L. \<forall>y\<in>set R. x \<le> y"
      using seqpart_run [OF less.prems] by (auto simp: INSERTIONSIZE_def)
    have len: "length xs = length L + length R" using p(4) by (metis length_append mset_eq_length)
    let ?m = "put m low (L @ R)"
    have arrs: "arr ?m low L" using arr_append [of ?m low L R] by simp
    have l: "seqquick low (low + int (length L) - 1) ?m = Some (put m low (sort L @ R))"
      using less.hyps [OF _ arrs] len p(3) by (simp add: put_prefix)
    have "arr (put m low (sort L @ R)) (low + int (length L)) R"
      using arr_append [of "put m low (sort L @ R)" low "sort L" R] by simp
    then have r: "seqquick (low + int (length L)) (low + int (length L) + int (length R) - 1) (put m low (sort L @ R)) =
        Some (put (put m low (sort L @ R)) (low + int (length L)) (sort R))"
      using less.hyps len p(2) by simp
    have "put (put m low (sort L @ R)) (low + int (length L)) (sort R) = put m low (sort L @ sort R)"
      using put_suffix [of "sort R" R m low "sort L"] by simp
    also have "sort L @ sort R = sort xs"
      by (rule properties_for_sort [symmetric]) (use p(4,5) in \<open>auto simp: sorted_append\<close>)
    finally show ?thesis
      using True p(1) l r len by (subst seqquick.simps) (simp add: algebra_simps)
  qed
qed

subsection \<open>The parallel sort\<close>

text \<open>\<open>sorted_at\<close>: the array at \<open>low\<close> is sorted, and nothing outside it and the scratch array has changed.\<close>

definition sorted_at :: "int \<Rightarrow> int \<Rightarrow> int list \<Rightarrow> elms \<Rightarrow> elms \<Rightarrow> bool" where
  "sorted_at low tmp xs m m' \<longleftrightarrow> arr m' low (sort xs) \<and> (\<forall>q. (m' q = None) = (m q = None)) \<and>
     (\<forall>q. (q < low \<or> low + int (length xs) \<le> q) \<and> (q < tmp \<or> tmp + int (length xs) \<le> q) \<longrightarrow> m' q = m q)"

lemma sorted_at_other:
  assumes "sorted_at low tmp xs m m'" and "arr m p ys" and "no_overlap low (int (length xs)) p (int (length ys))"
    and "no_overlap tmp (int (length xs)) p (int (length ys))"
  shows "arr m' p ys"
proof -
  have "m' (p + int i) = m (p + int i)" if "i < length ys" for i
    using assms(1,3,4) that by (auto simp: sorted_at_def no_overlap_def)
  then show ?thesis using assms(2) by (simp add: arr_def)
qed

lemma sorted_at_room: "sorted_at low tmp xs m m' \<Longrightarrow> room m p n \<Longrightarrow> room m' p n"
  by (simp add: sorted_at_def room_def)


lemma sorted_at_out:
  assumes "sorted_at low tmp xs m m'" and "q < low \<or> low + int (length xs) \<le> q" and "q < tmp \<or> tmp + int (length xs) \<le> q"
  shows "m' q = m q"
  using assms by (simp add: sorted_at_def)

lemma put_None: "room m p (int (length xs)) \<Longrightarrow> (put m p xs q = None) = (m q = None)"
  by (auto simp: put_def room_def)

lemma sort_append_sort: "sort (sort xs @ sort ys) = sort (xs @ ys)" for xs :: "int list"
  by (rule properties_for_sort) simp_all

lemma sort_eq_Nil: "sort xs = [] \<longleftrightarrow> xs = []" for xs :: "int list"
  by (metis length_0_conv length_sort)

lemma four_parts:
  assumes "4 \<le> length xs"
  shows "\<exists>A B C D. xs = A @ B @ C @ D \<and> length A = length xs div 4 \<and> length B = length A \<and> length C = length A \<and> A \<noteq> [] \<and> D \<noteq> []"
proof -
  let ?q = "length xs div 4"
  have "xs = take ?q xs @ take ?q (drop ?q xs) @ take ?q (drop ?q (drop ?q xs)) @ drop ?q (drop ?q (drop ?q xs))"
    by (simp only: append_take_drop_id)
  moreover have "length (take ?q xs) = ?q" "length (take ?q (drop ?q xs)) = ?q" "length (take ?q (drop ?q (drop ?q xs))) = ?q"
      "take ?q xs \<noteq> []" "drop ?q (drop ?q (drop ?q xs)) \<noteq> []"
    using assms by (auto simp: min_def)
  ultimately show ?thesis by metis
qed

lemma three_merges:
  fixes A B C D :: "int list" and low tmp :: int
  defines "q \<equiv> int (length A)" and "d \<equiv> int (length D)" and "n \<equiv> 3 * int (length A) + int (length D)"
  assumes lens: "length B = length A" "length C = length A" "A \<noteq> []" "D \<noteq> []"
    and arrs: "arr m low (sort A)" "arr m (low + q) (sort B)" "arr m (low + q + q) (sort C)" "arr m (low + q + q + q) (sort D)"
    and rooms: "room m tmp n" "room m low n" and ap: "low + n \<le> tmp \<or> tmp + n \<le> low"
  shows "\<exists>m1 m2 m3. cilkmerge low (low + q - 1) (low + q) (low + q + q - 1) tmp m = Some m1 \<and>
     cilkmerge (low + q + q) (low + q + q + q - 1) (low + q + q + q) (low + n - 1) (tmp + q + q) m1 = Some m2 \<and>
     cilkmerge tmp (tmp + q + q - 1) (tmp + q + q) (tmp + n - 1) low m2 = Some m3 \<and> sorted_at low tmp (A @ B @ C @ D) m m3"
proof -
  note lB = lens(1) and lC = lens(2)
  let ?m1 = "put m tmp (sort (A @ B))" and ?m2 = "put (put m tmp (sort (A @ B))) (tmp + q + q) (sort (C @ D))"
  let ?m3 = "put ?m2 low (sort (A @ B @ C @ D))"
  have pos: "0 < q" "0 < d" and n: "n = 3 * q + d" using lens by (auto simp: q_def d_def n_def)
  have lq: "int (length A) = q" "int (length B) = q" "int (length C) = q" "int (length D) = d" using lB lC by (simp_all add: q_def d_def)
  have R: "room m (tmp + q + q) (q + d)" "room m tmp (q + q)" using rooms(1) pos by (auto simp: room_def n)
  have s1: "sep low (sort A) (low + q) (sort B) tmp m"
    using arrs(1,2) R(2) ap pos by (auto simp: sep_def no_overlap_def lq n)
  have m1: "cilkmerge low (low + q - 1) (low + q) (low + q + q - 1) tmp m = Some ?m1"
    using cilkmerge_run [OF s1] lens(3) by (simp add: lq sort_append_sort sort_eq_Nil)
  have "arr ?m1 (low + q + q) (sort C)" "arr ?m1 (low + q + q + q) (sort D)"
    using arrs(3,4) arr_put_apart [of tmp "sort (A @ B)"] ap pos by (auto simp: no_overlap_def lq n)
  moreover have R2: "room ?m1 (tmp + q + q) (q + d)" by (rule room_put [OF R(1)])
  ultimately have s2: "sep (low + q + q) (sort C) (low + q + q + q) (sort D) (tmp + q + q) ?m1"
    using ap pos by (auto simp: sep_def no_overlap_def lq n)
  have m2: "cilkmerge (low + q + q) (low + q + q + q - 1) (low + q + q + q) (low + n - 1) (tmp + q + q) ?m1 = Some ?m2"
    using cilkmerge_run [OF s2] lens(4) by (simp add: lq n sort_append_sort sort_eq_Nil algebra_simps)
  have "arr ?m2 tmp (sort (A @ B))"
    using arr_put_apart [of "tmp + q + q" "sort (C @ D)" tmp "sort (A @ B)" ?m1] by (auto simp: no_overlap_def lq)
  moreover have R3: "room ?m2 low n" by (intro room_put rooms(2))
  ultimately have s3: "sep tmp (sort (A @ B)) (tmp + q + q) (sort (C @ D)) low ?m2"
    using ap pos by (auto simp: sep_def no_overlap_def lq n)
  have m3: "cilkmerge tmp (tmp + q + q - 1) (tmp + q + q) (tmp + n - 1) low ?m2 = Some ?m3"
    using cilkmerge_run [OF s3] lens(3) sort_append_sort [of "A @ B" "C @ D"] by (simp add: lq n sort_eq_Nil algebra_simps)
  have "sorted_at low tmp (A @ B @ C @ D) m ?m3"
    using R R2 R3 pos unfolding sorted_at_def by (auto simp: put_None put_outside lq n)
  with m1 m2 m3 show ?thesis by blast
qed

lemma cilksort_run:
  assumes "arr m low xs" and "room m tmp (int (length xs))" and "no_overlap low (int (length xs)) tmp (int (length xs))"
  shows "\<exists>m'. cilksort low tmp (int (length xs)) m = Some m' \<and> sorted_at low tmp xs m m'"
  using assms
proof (induction "length xs" arbitrary: low tmp xs m rule: less_induct)
  case less
  show ?case
  proof (cases "int (length xs) < QUICKSIZE")
    case True
    have "sorted_at low tmp xs m (put m low (sort xs))"
      using arr_room [OF less.prems(1)] by (auto simp: sorted_at_def put_None put_outside)
    with True show ?thesis using seqquick_run [OF less.prems(1)] by (subst cilksort.simps) simp
  next
    case False
    then have n: "4 \<le> length xs" by (simp add: QUICKSIZE_def KILO_def)
    from four_parts [OF n] obtain A B C D where xs: "xs = A @ B @ C @ D" and qn: "length A = length xs div 4"
        and lB: "length B = length A" and lC: "length C = length A" and ne: "A \<noteq> []" "D \<noteq> []" by blast
    let ?q = "int (length A)" and ?d = "int (length D)"
    have q: "int (length xs) div 4 = ?q" using qn by (simp add: zdiv_int)
    have sz: "int (length xs) = 3 * ?q + ?d" using xs lB lC by simp
    have lt: "length A < length xs" "length B < length xs" "length C < length xs" "length D < length xs"
      using xs lB lC ne by auto
    have pos: "0 < ?q" "0 < ?d" using ne by auto
    have ap: "low + (3 * ?q + ?d) \<le> tmp \<or> tmp + (3 * ?q + ?d) \<le> low" using less.prems(3) by (simp add: sz no_overlap_def)
    have arrs: "arr m low A" "arr m (low + ?q) B" "arr m (low + ?q + ?q) C" "arr m (low + ?q + ?q + ?q) D"
      using less.prems(1) lB lC unfolding xs arr_append by simp_all
    have rm: "room m tmp ?q" "room m (tmp + ?q) ?q" "room m (tmp + ?q + ?q) ?q" "room m (tmp + ?q + ?q + ?q) ?d" "room m tmp (3 * ?q + ?d)"
      using less.prems(2) unfolding sz by (auto simp: room_def)
    obtain m1 where m1: "cilksort low tmp ?q m = Some m1" and s1: "sorted_at low tmp A m m1"
      using less.hyps [OF lt(1) arrs(1) rm(1)] ap pos by (auto simp: no_overlap_def)
    obtain m2 where m2: "cilksort (low + ?q) (tmp + ?q) ?q m1 = Some m2" and s2: "sorted_at (low + ?q) (tmp + ?q) B m1 m2"
      using less.hyps [OF lt(2), of m1 "low + ?q" "tmp + ?q"] sorted_at_other [OF s1 arrs(2)] sorted_at_room [OF s1 rm(2)] ap pos
      by (auto simp: no_overlap_def lB)
    have c2: "arr m2 (low + ?q + ?q) C" "room m2 (tmp + ?q + ?q) ?q"
      using sorted_at_other [OF s2 sorted_at_other [OF s1 arrs(3)]] sorted_at_room [OF s2 sorted_at_room [OF s1 rm(3)]] ap pos
      by (auto simp: no_overlap_def lB lC)
    obtain m3 where m3: "cilksort (low + ?q + ?q) (tmp + ?q + ?q) ?q m2 = Some m3"
        and s3: "sorted_at (low + ?q + ?q) (tmp + ?q + ?q) C m2 m3"
      using less.hyps [OF lt(3), of m2 "low + ?q + ?q" "tmp + ?q + ?q"] c2 ap pos by (auto simp: no_overlap_def lC)
    have s123: "room m3 p n" if "room m p n" for p n using that s1 s2 s3 by (blast intro: sorted_at_room)
    have d3: "arr m3 (low + ?q + ?q + ?q) D"
      using sorted_at_other [OF s3 sorted_at_other [OF s2 sorted_at_other [OF s1 arrs(4)]]] ap pos by (auto simp: no_overlap_def lB lC)
    obtain m4 where m4: "cilksort (low + ?q + ?q + ?q) (tmp + ?q + ?q + ?q) ?d m3 = Some m4"
        and s4: "sorted_at (low + ?q + ?q + ?q) (tmp + ?q + ?q + ?q) D m3 m4"
      using less.hyps [OF lt(4) d3 s123 [OF rm(4)]] ap pos by (auto simp: no_overlap_def)
    have A: "arr m4 low (sort A)"
      using sorted_at_other [OF s4 sorted_at_other [OF s3 sorted_at_other [OF s2, of low "sort A"]]] s1 ap pos
      by (auto simp: no_overlap_def lB lC sorted_at_def)
    have B: "arr m4 (low + ?q) (sort B)"
      using sorted_at_other [OF s4 sorted_at_other [OF s3, of "low + ?q" "sort B"]] s2 ap pos
      by (auto simp: no_overlap_def lB lC sorted_at_def)
    have C: "arr m4 (low + ?q + ?q) (sort C)"
      using sorted_at_other [OF s4, of "low + ?q + ?q" "sort C"] s3 ap pos by (auto simp: no_overlap_def lB lC sorted_at_def)
    have D: "arr m4 (low + ?q + ?q + ?q) (sort D)" using s4 by (simp add: sorted_at_def)
    have same: "m4 q = None \<longleftrightarrow> m q = None" for q using s1 s2 s3 s4 by (simp add: sorted_at_def)
    have out: "m4 q = m q" if "q < low \<or> low + int (length xs) \<le> q" "q < tmp \<or> tmp + int (length xs) \<le> q" for q
    proof -
      have "m1 q = m q" by (rule sorted_at_out [OF s1]) (use that pos sz in auto)
      moreover have "m2 q = m1 q" by (rule sorted_at_out [OF s2]) (use that pos sz lB in auto)
      moreover have "m3 q = m2 q" by (rule sorted_at_out [OF s3]) (use that pos sz lC in auto)
      moreover have "m4 q = m3 q" by (rule sorted_at_out [OF s4]) (use that pos sz in auto)
      ultimately show ?thesis by simp
    qed
    have R': "room m4 tmp (3 * ?q + ?d)" "room m4 low (3 * ?q + ?d)"
      using rm(5) arr_room [OF less.prems(1)] sz same by (simp_all add: room_def)
    obtain m5 m6 m7 where m567: "cilkmerge low (low + ?q - 1) (low + ?q) (low + ?q + ?q - 1) tmp m4 = Some m5"
        "cilkmerge (low + ?q + ?q) (low + ?q + ?q + ?q - 1) (low + ?q + ?q + ?q) (low + (3 * ?q + ?d) - 1) (tmp + ?q + ?q) m5 = Some m6"
        "cilkmerge tmp (tmp + ?q + ?q - 1) (tmp + ?q + ?q) (tmp + (3 * ?q + ?d) - 1) low m6 = Some m7"
        "sorted_at low tmp xs m4 m7"
      using three_merges [OF lB lC ne A B C D R' ap] xs by auto
    have "sorted_at low tmp xs m m7" using m567(4) same out by (simp add: sorted_at_def)
    moreover have "cilksort low tmp (int (length xs)) m = Some m7"
      using False m1 m2 m3 m4 m567(1-3) sz by (subst cilksort.simps) (simp add: Let_def q [unfolded sz])
    ultimately show ?thesis by blast
  qed
qed


subsection \<open>Filling and checking\<close>

lemma fill_loop_run:
  assumes "room m a (int (length zs + k))" and "zs = map int [0..<length zs]"
  shows "fill_loop a (int (length zs)) (int (length zs + k)) (put m a zs) = Some (put m a (map int [0..<length zs + k]))"
  using assms
proof (induction k arbitrary: zs)
  case 0
  then show ?case by (subst fill_loop.simps) simp
next
  case (Suc k)
  let ?zs = "zs @ [int (length zs)]"
  have "room (put m a zs) (a + int (length zs)) 1" by (rule room_put) (use Suc.prems(1) in \<open>auto simp: room_def\<close>)
  then have st: "st (put m a zs) (a + int (length zs)) (int (length zs)) = Some (put m a ?zs)"
    using st_run [of "put m a zs" "a + int (length zs)" 1] put_append [of m a zs] by simp
  have "?zs = map int [0..<length ?zs]" using Suc.prems(2) by simp
  then have "fill_loop a (int (length ?zs)) (int (length ?zs + k)) (put m a ?zs) = Some (put m a (map int [0..<length ?zs + k]))"
    using Suc.IH [of ?zs] Suc.prems(1) by simp
  with st show ?case by (subst fill_loop.simps) (simp add: algebra_simps)
qed

lemma swap_elms_run:
  assumes "arr m a zs" and "i < length zs" and "j < length zs"
  shows "swap_elms (a + int i) (a + int j) m = Some (put m a (zs[i := zs ! j, j := zs ! i]))"
proof -
  have "m (a + int i) = Some (zs ! i)" "m (a + int j) = Some (zs ! j)" using assms by (simp_all add: arr_def)
  moreover have "st m (a + int i) (zs ! j) = Some (put m a (zs[i := zs ! j]))" by (rule put_update [OF assms(1,2)])
  moreover have "st (put m a (zs[i := zs ! j])) (a + int j) (zs ! i) = Some (put m a (zs[i := zs ! j, j := zs ! i]))"
    using put_update [of "put m a (zs[i := zs ! j])" a "zs[i := zs ! j]" j "zs ! i"] assms(3) by simp
  ultimately show ?thesis by (simp add: swap_elms_def)
qed

lemma scramble_loop_run:
  assumes "arr m a zs" and "i \<le> length zs"
  shows "\<exists>nxt zs'. scramble_loop a (int i) (int (length zs)) r m = Some (nxt, put m a zs') \<and> mset zs' = mset zs"
  using assms
proof (induction "length zs - i" arbitrary: i zs m r)
  case 0
  then show ?case using put_arr [of m a zs, symmetric] by (subst scramble_loop.simps) auto
next
  case (Suc k)
  let ?n = "length zs" and ?j = "nat (uint (my_rand r) mod int (length zs))"
  have i: "i < ?n" using Suc.hyps(2) by simp
  then have n0: "0 < int ?n" by linarith
  have jn: "?j < ?n" "int ?j = uint (my_rand r) mod int ?n"
    using pos_mod_sign [OF n0, of "uint (my_rand r)"] pos_mod_bound [OF n0, of "uint (my_rand r)"] by linarith+
  let ?zs = "zs[i := zs ! ?j, ?j := zs ! i]"
  have sw: "swap_elms (a + int i) (a + int ?j) m = Some (put m a ?zs)" by (rule swap_elms_run [OF Suc.prems(1) i jn(1)])
  have k: "k = ?n - Suc i" using Suc.hyps(2) by linarith
  obtain nxt zs' where IH: "scramble_loop a (int (Suc i)) (int ?n) (my_rand r) (put m a ?zs) = Some (nxt, put (put m a ?zs) a zs')"
      "mset zs' = mset ?zs"
    using Suc.hyps(1) [of ?zs "Suc i" "put m a ?zs" "my_rand r"] k i unfolding length_list_update by auto
  have ms: "mset ?zs = mset zs" using mset_swap [OF jn(1) i] by (metis list_update_swap list_update_id nth_list_update_eq)
  have "length zs' = length ?zs" using IH(2) by (metis mset_eq_length)
  then have "put (put m a ?zs) a zs' = put m a zs'" by (intro put_put) simp
  then have "scramble_loop a (int i) (int ?n) r m = Some (nxt, put m a zs')"
    using i sw IH(1) jn(2) by (subst scramble_loop.simps) (simp add: Let_def algebra_simps)
  then show ?case using IH(2) ms by auto
qed

lemma fill_array_run:
  assumes "room m a (int n)"
  shows "\<exists>nxt zs. fill_array a (int n) m = Some (nxt, put m a zs) \<and> mset zs = mset (map int [0..<n])"
proof -
  let ?zs = "map int [0..<n]"
  have f: "fill_loop a 0 (int n) m = Some (put m a ?zs)" using fill_loop_run [of m a "[]" n] assms by simp
  obtain nxt zs where s: "scramble_loop a (int 0) (int (length ?zs)) 1 (put m a ?zs) = Some (nxt, put (put m a ?zs) a zs)" "mset zs = mset ?zs"
    using scramble_loop_run [of "put m a ?zs" a ?zs 0 1] by auto
  have "length zs = length ?zs" using s(2) by (metis mset_eq_length)
  then have "put (put m a ?zs) a zs = put m a zs" by (intro put_put) simp
  then have "fill_array a (int n) m = Some (nxt, put m a zs)" using f s(1) by (simp add: fill_array_def scramble_array_def)
  then show ?thesis using s(2) by blast
qed

lemma check_loop_run:
  assumes "arr m a (map int [0..<n])" and "i \<le> n"
  shows "check_loop a (int i) (int n) True m = Some True"
  using assms
proof (induction "n - i" arbitrary: i)
  case 0
  then show ?case by (subst check_loop.simps) simp
next
  case (Suc k)
  have "m (a + int i) = Some (int i)" using Suc.prems(1) Suc.hyps(2) by (simp add: arr_def)
  moreover have "check_loop a (int (Suc i)) (int n) True m = Some True"
    by (rule Suc.hyps(1)) (use Suc.hyps(2) Suc.prems in auto)
  ultimately show ?case using Suc.hyps(2) by (subst check_loop.simps) (simp add: algebra_simps)
qed

subsection \<open>Properties\<close>

lemma cilkmerge_after_other:
  assumes "sep l1 X l2 Y d m" and "sorted X" and "sorted Y" and "X \<noteq> [] \<or> Y \<noteq> []"
    and "no_overlap d' (int (length zs)) l1 (int (length X))" and "no_overlap d' (int (length zs)) l2 (int (length Y))"
  shows "cilkmerge l1 (l1 + int (length X) - 1) l2 (l2 + int (length Y) - 1) d (put m d' zs) = Some (put (put m d' zs) d (sort (X @ Y)))"
proof -
  have "sep l1 X l2 Y d (put m d' zs)"
    using assms(1,5,6) by (simp add: sep_def arr_put_apart room_put)
  then show ?thesis using assms(2-4) by (rule cilkmerge_run)
qed

text \<open>
  C12: \<^verbatim>\<open>cilksort\<close> sorts. On an array of any length (empty ones and ones shorter than the quicksort
  limit included) with a scratch array of the same length that does not overlap it, the call returns
  - every load, store and copy on the way is inside an allocated array -, the array holds the sorted
  list of its elements, and no memory outside the array and the scratch array has changed.
\<close>

theorem cilksort_sorts:
  assumes "arr m low xs" and "room m tmp (int (length xs))" and "no_overlap low (int (length xs)) tmp (int (length xs))"
  shows "\<exists>m'. cilksort low tmp (int (length xs)) m = Some m' \<and> arr m' low (sort xs) \<and>
     (\<forall>q. (q < low \<or> low + int (length xs) \<le> q) \<and> (q < tmp \<or> tmp + int (length xs) \<le> q) \<longrightarrow> m' q = m q)"
  using cilksort_run [OF assms] unfolding sorted_at_def by blast

theorem cilksort_sorts_witness:
  "\<exists>m'. cilksort 0 10 3 (put (put Map.empty 0 [3, 1, 2]) 10 [0, 0, 0]) = Some m' \<and> arr m' 0 [1, 2, 3]"
proof -
  have "arr (put (put Map.empty 0 [3, 1, 2]) 10 [0, 0, 0]) 0 [3, 1, 2]"
    by (simp add: arr_put_apart no_overlap_def)
  moreover have "room (put (put Map.empty 0 [3, 1, 2]) 10 [0, 0, 0]) 10 (int (length [3, 1, 2::int]))"
    using arr_room [OF arr_put, of "put Map.empty 0 [3, 1, 2]" 10 "[0, 0, 0]"] by simp
  moreover have "no_overlap 0 (int (length [3, 1, 2::int])) 10 (int (length [3, 1, 2::int]))" by (simp add: no_overlap_def)
  ultimately show ?thesis using cilksort_sorts [of _ 0 "[3, 1, 2]" 10] by auto
qed

text \<open>
  C24: The merges on both sides of a spawn are independent. Two merges of sorted ranges, each into a
  destination of its own that overlaps no source of the other, give the same memory in either
  order: both destinations hold the merged ranges. So the strand that is spawned and the one that
  goes on may run in any order, and a thief of the continuation changes nothing.
\<close>

theorem cilkmerge_strands_commute:
  assumes "sep a A b B d m" and "sorted A" and "sorted B" and "A \<noteq> [] \<or> B \<noteq> []"
    and "sep a' A' b' B' d' m" and "sorted A'" and "sorted B'" and "A' \<noteq> [] \<or> B' \<noteq> []"
    and "no_overlap d (int (length A + length B)) d' (int (length A' + length B'))"
    and "no_overlap d (int (length A + length B)) a' (int (length A'))" and "no_overlap d (int (length A + length B)) b' (int (length B'))"
    and "no_overlap d' (int (length A' + length B')) a (int (length A))" and "no_overlap d' (int (length A' + length B')) b (int (length B))"
  shows "(do { m \<leftarrow> cilkmerge a (a + int (length A) - 1) b (b + int (length B) - 1) d m;
              cilkmerge a' (a' + int (length A') - 1) b' (b' + int (length B') - 1) d' m }) =
         (do { m \<leftarrow> cilkmerge a' (a' + int (length A') - 1) b' (b' + int (length B') - 1) d' m;
              cilkmerge a (a + int (length A) - 1) b (b + int (length B) - 1) d m }) \<and>
     (do { m \<leftarrow> cilkmerge a (a + int (length A) - 1) b (b + int (length B) - 1) d m;
          cilkmerge a' (a' + int (length A') - 1) b' (b' + int (length B') - 1) d' m }) =
       Some (put (put m d (sort (A @ B))) d' (sort (A' @ B')))"
proof -
  have "put (put m d (sort (A @ B))) d' (sort (A' @ B')) = put (put m d' (sort (A' @ B'))) d (sort (A @ B))"
    using assms(9) by (intro put_commute) simp
  then show ?thesis
    using cilkmerge_run [OF assms(1-4)] cilkmerge_run [OF assms(5-8)]
      cilkmerge_after_other [OF assms(1-4), of d' "sort (A' @ B')"] cilkmerge_after_other [OF assms(5-8), of d "sort (A @ B)"]
      assms(10-13) by simp
qed

theorem cilkmerge_strands_commute_witness:
  "(do { m \<leftarrow> cilkmerge 0 0 1 1 10 (put Map.empty 0 [2, 1, 4, 3, 0, 0, 0, 0, 0, 0, 0, 0, 0, 0]);
        cilkmerge 2 2 3 3 12 m }) =
     Some (put (put (put Map.empty 0 [2, 1, 4, 3, 0, 0, 0, 0, 0, 0, 0, 0, 0, 0]) 10 [1, 2]) 12 [3, 4])"
proof -
  let ?m = "put Map.empty 0 [2, 1, 4, 3, 0, 0, 0, 0, 0, 0, 0, 0, 0, 0]"
  have "sep 0 [2] 1 [1] 10 ?m" "sep 2 [4] 3 [3] 12 ?m"
    by (auto simp: sep_def arr_def room_def no_overlap_def put_def)
  then show ?thesis
    using conjunct2 [OF cilkmerge_strands_commute [of 0 "[2]" 1 "[1]" 10 ?m 2 "[4]" 3 "[3]" 12]] by (simp add: no_overlap_def)
qed

text \<open>
  C23: The benchmark always reports success. With two arrays of any one size that do not overlap, filling
  and scrambling the first, sorting it and checking it goes through without an access outside the
  two arrays, and the check finds every element in its place.
\<close>

theorem sort_benchmark_succeeds:
  assumes "room m a (int n)" and "room m tmp (int n)" and "no_overlap a (int n) tmp (int n)"
  shows "\<exists>m'. sort_benchmark a tmp (int n) m = Some (True, m') \<and> arr m' a (map int [0..<n])"
proof -
  obtain nxt zs where f: "fill_array a (int n) m = Some (nxt, put m a zs)" "mset zs = mset (map int [0..<n])"
    using fill_array_run [OF assms(1)] by blast
  then have len: "length zs = n" by (metis diff_zero length_map length_upt mset_eq_length)
  have srt: "sort zs = map int [0..<n]"
    by (rule properties_for_sort) (use f(2) in \<open>simp_all add: sorted_map\<close>)
  obtain m' where c: "cilksort a tmp (int n) (put m a zs) = Some m'" "arr m' a (map int [0..<n])"
    using cilksort_run [of "put m a zs" a zs tmp] assms(2,3) room_put len srt by (auto simp: sorted_at_def)
  then show ?thesis using f(1) check_loop_run [OF c(2), of 0] by (simp add: sort_benchmark_def)
qed

theorem sort_benchmark_succeeds_witness:
  "\<exists>m'. sort_benchmark 0 5000 4100 (\<lambda>p. if p < 10000 then Some 0 else None) = Some (True, m') \<and> arr m' 0 (map int [0..<4100])"
  using sort_benchmark_succeeds [of "\<lambda>p. if p < 10000 then Some 0 else None" 0 4100 5000]
  by (simp add: room_def no_overlap_def del: upt.simps upt_rec_numeral)

end
