(* ===== verification/Exceptions.thy ===== *)
theory Exceptions
  imports Scheduler_Sync
begin

section \<open>Pending exceptions (except-gcc.cpp)\<close>

text \<open>
  The scheduler's model takes the merge of two exception records as an argument; here are the records
  themselves. An exception object is named by its address; the memory maps it to the next object of the
  chain it is in, and to nothing once it has been deleted, so a second deletion, or following the link
  of a deleted object, has no result. Records are named by their addresses too and are gone once freed.
  The checks compiled only into debug builds are the predicate \<open>pe_check\<close>.
\<close>

record eh_globals =
  caughtExceptions :: "nat option"
  uncaughtExceptions :: "32 word"

record pending_exception_info =
  pe_active :: "nat option"
  pe_rethrow :: bool
  runtime_state :: eh_globals

record eh_mem =
  exn_objs :: "nat \<Rightarrow> nat option option"
  infos :: "nat \<Rightarrow> pending_exception_info option"

definition no_exceptions :: eh_globals where
  "no_exceptions = \<lparr>caughtExceptions = None, uncaughtExceptions = 0\<rparr>"

definition pe_check :: "pending_exception_info \<Rightarrow> bool" where
  "pe_check i \<longleftrightarrow> pe_active i \<noteq> None \<longrightarrow> 0 < sint (uncaughtExceptions (runtime_state i))"

definition pe_make :: "eh_globals \<Rightarrow> nat option \<Rightarrow> bool \<Rightarrow> pending_exception_info \<times> eh_globals" where
  "pe_make state_in exc_in rethrow_in =
     (\<lparr>pe_active = exc_in, pe_rethrow = rethrow_in, runtime_state = state_in\<rparr>,
      state_in\<lparr>caughtExceptions := None, uncaughtExceptions := 0\<rparr>)"

definition pe_empty :: "pending_exception_info \<Rightarrow> bool" where
  "pe_empty i \<longleftrightarrow> pe_active i = None \<and> \<not> pe_rethrow i \<and> caughtExceptions (runtime_state i) = None \<and>
     uncaughtExceptions (runtime_state i) = 0"

definition delete_exception :: "nat \<Rightarrow> eh_mem \<Rightarrow> eh_mem option" where
  "delete_exception e m = (if exn_objs m e = None then None else Some (m\<lparr>exn_objs := (exn_objs m)(e := None)\<rparr>))"

partial_function (option) delete_caught :: "nat option \<Rightarrow> eh_mem \<Rightarrow> eh_mem option" where
  "delete_caught c m =
     (case c of None \<Rightarrow> Some m
      | Some e \<Rightarrow> Option.bind (exn_objs m e) (\<lambda>nxt. Option.bind (delete_exception e m) (delete_caught nxt)))"

definition pe_destruct :: "nat \<Rightarrow> eh_mem \<Rightarrow> eh_mem option" where
  "pe_destruct p m = do {
     i \<leftarrow> infos m p;
     m \<leftarrow> (case pe_active i of None \<Rightarrow> Some m | Some e \<Rightarrow> delete_exception e m);
     m \<leftarrow> delete_caught (caughtExceptions (runtime_state i)) m;
     Some (m\<lparr>infos := (infos m)(p \<mapsto> i\<lparr>pe_active := None, runtime_state := (runtime_state i)\<lparr>caughtExceptions := None\<rparr>\<rparr>)\<rparr>) }"

definition info_free :: "nat \<Rightarrow> eh_mem \<Rightarrow> eh_mem" where
  "info_free p m = m\<lparr>infos := (infos m)(p := None)\<rparr>"

definition merge_caught :: "pending_exception_info \<Rightarrow> pending_exception_info \<Rightarrow>
    (pending_exception_info \<times> pending_exception_info) option" where
  "merge_caught left right =
     (if caughtExceptions (runtime_state left) \<noteq> None then
        (if caughtExceptions (runtime_state right) = None then Some (left, right) else None)
      else if pe_rethrow left then None
      else Some (left\<lparr>pe_rethrow := pe_rethrow right,
                      runtime_state := (runtime_state left)\<lparr>caughtExceptions := caughtExceptions (runtime_state right)\<rparr>\<rparr>,
                 right\<lparr>runtime_state := (runtime_state right)\<lparr>caughtExceptions := None\<rparr>\<rparr>))"

definition merge_active :: "pending_exception_info \<Rightarrow> pending_exception_info \<Rightarrow>
    pending_exception_info \<times> pending_exception_info" where
  "merge_active left right =
     (let right_uncaught = uncaughtExceptions (runtime_state right);
          left_uncaught = uncaughtExceptions (runtime_state left)
      in if pe_active left = None then
           (left\<lparr>pe_active := pe_active right, runtime_state := (runtime_state left)\<lparr>uncaughtExceptions := left_uncaught + right_uncaught\<rparr>\<rparr>,
            right\<lparr>pe_active := None\<rparr>)
         else
           (left\<lparr>runtime_state := (runtime_state left)\<lparr>uncaughtExceptions :=
              left_uncaught + (right_uncaught - (if pe_active right \<noteq> None then 1 else 0))\<rparr>\<rparr>, right))"

definition merge_exceptions :: "nat option \<Rightarrow> nat option \<Rightarrow> eh_mem \<Rightarrow> (nat option \<times> eh_mem) option" where
  "merge_exceptions left right m =
     (case (left, right) of (None, _) \<Rightarrow> Some (right, m)
      | (_, None) \<Rightarrow> Some (left, m)
      | (Some l, Some r) \<Rightarrow> do {
          li \<leftarrow> infos m l;
          ri \<leftarrow> infos m r;
          (li, ri) \<leftarrow> merge_caught li ri;
          let (li, ri) = merge_active li ri;
          let m = m\<lparr>infos := (infos m)(l \<mapsto> li, r \<mapsto> ri)\<rparr>;
          m \<leftarrow> pe_destruct r m;
          let m = info_free r m;
          if pe_empty li then do {
            m \<leftarrow> pe_destruct l m;
            Some (None, info_free l m) }
          else Some (Some l, m) })"

text \<open>
  Saving the state of the C++ runtime into a new record \<open>p\<close>, and installing a record again when a frame is
  resumed: the frame's flag, its exception pointer, the state of the C++ runtime, what is left in the worker.
\<close>

definition save_info :: "nat \<Rightarrow> nat option \<Rightarrow> bool \<Rightarrow> eh_globals \<Rightarrow> eh_mem \<Rightarrow> eh_globals \<times> eh_mem" where
  "save_info p exc_in rethrow_in g m =
     (let (i, g) = pe_make g exc_in rethrow_in in (g, m\<lparr>infos := (infos m)(p \<mapsto> i)\<rparr>))"

record resumed =
  rs_excepting :: bool
  rs_except_data :: "nat option"
  rs_globals :: eh_globals
  rs_pending :: "nat option"

definition setup_exceptions :: "nat option \<Rightarrow> resumed \<Rightarrow> eh_mem \<Rightarrow> (resumed \<times> eh_mem) option" where
  "setup_exceptions pending f m =
     (case pending of None \<Rightarrow> Some (f, m)
      | Some p \<Rightarrow> do {
          i \<leftarrow> infos m p;
          let f = f\<lparr>rs_pending := None\<rparr>;
          cilk_assert (uncaughtExceptions (rs_globals f) = 0 \<and> caughtExceptions (rs_globals f) = None);
          let f = f\<lparr>rs_globals := runtime_state i\<rparr>;
          let i = i\<lparr>runtime_state := no_exceptions\<rparr>;
          let (f, i) = (if pe_rethrow i then (f\<lparr>rs_excepting := True\<rparr>, i\<lparr>pe_rethrow := False\<rparr>) else (f, i));
          let (f, i) = (if pe_active i \<noteq> None then (f\<lparr>rs_excepting := True, rs_except_data := pe_active i\<rparr>, i\<lparr>pe_active := None\<rparr>) else (f, i));
          let m = m\<lparr>infos := (infos m)(p \<mapsto> i)\<rparr>;
          if pe_empty i then do {
            m \<leftarrow> pe_destruct p m;
            Some (f, info_free p m) }
          else Some (f, m) })"

subsection \<open>What a record stands for\<close>

record exn_val =
  v_active :: "nat option"
  v_rethrow :: bool
  v_caught :: "nat list"
  v_uncaught :: "32 word"

definition nil_val :: exn_val where
  "nil_val = \<lparr>v_active = None, v_rethrow = False, v_caught = [], v_uncaught = 0\<rparr>"

definition vmerge :: "exn_val \<Rightarrow> exn_val \<Rightarrow> exn_val" where
  "vmerge a b =
     \<lparr>v_active = (if v_active a = None then v_active b else v_active a),
      v_rethrow = (if v_caught a \<noteq> [] then v_rethrow a else v_rethrow b),
      v_caught = (if v_caught a \<noteq> [] then v_caught a else v_caught b),
      v_uncaught = v_uncaught a + v_uncaught b - (if v_active a \<noteq> None \<and> v_active b \<noteq> None then 1 else 0)\<rparr>"

definition val_rt :: "exn_val exn_rt" where
  "val_rt = \<lparr>merge_both = (\<lambda>l r. if vmerge l r = nil_val then None else Some (vmerge l r)), rethrow = v_rethrow, active = v_active\<rparr>"

fun chain :: "(nat \<Rightarrow> nat option option) \<Rightarrow> nat option \<Rightarrow> nat list \<Rightarrow> bool" where
  "chain h p [] = (p = None)"
| "chain h p (x # xs) = (p = Some x \<and> (case h x of None \<Rightarrow> False | Some n \<Rightarrow> chain h n xs))"

definition objs :: "exn_val \<Rightarrow> nat list" where
  "objs v = (case v_active v of None \<Rightarrow> [] | Some a \<Rightarrow> [a]) @ v_caught v"

fun holds_info :: "eh_mem \<Rightarrow> nat option \<Rightarrow> exn_val \<Rightarrow> bool" where
  "holds_info m None v = (v = nil_val)"
| "holds_info m (Some p) v = (\<exists>i. infos m p = Some i \<and> v_active v = pe_active i \<and> v_rethrow v = pe_rethrow i \<and>
     v_uncaught v = uncaughtExceptions (runtime_state i) \<and> chain (exn_objs m) (caughtExceptions (runtime_state i)) (v_caught v) \<and>
     (\<forall>a. pe_active i = Some a \<longrightarrow> exn_objs m a \<noteq> None))"

text \<open>Of two records at most one has caught exceptions, and a rethrow is of a caught exception.\<close>

definition mergeable :: "exn_val \<Rightarrow> exn_val \<Rightarrow> bool" where
  "mergeable a b \<longleftrightarrow> (v_caught a = [] \<or> v_caught b = []) \<and> (v_rethrow a \<longrightarrow> v_caught a \<noteq> []) \<and> (v_rethrow b \<longrightarrow> v_caught b \<noteq> [])"

lemma chain_cong: "(\<And>x. x \<in> set xs \<Longrightarrow> h x = h' x) \<Longrightarrow> chain h p xs = chain h' p xs"
  by (induction xs arbitrary: p) (auto split: option.splits)

lemma holds_info_cong:
  assumes "holds_info m p v" and "\<And>q. p = Some q \<Longrightarrow> infos m' q = infos m q" and "\<And>x. x \<in> set (objs v) \<Longrightarrow> exn_objs m' x = exn_objs m x"
  shows "holds_info m' p v"
proof (cases p)
  case (Some q)
  then show ?thesis
    using assms(1,2) assms(3) chain_cong [of "v_caught v" "exn_objs m" "exn_objs m'"]
    by (auto simp: objs_def split: option.splits)
qed (use assms(1) in simp)

lemma chain_None: "chain h None xs \<longleftrightarrow> xs = []"
  by (cases xs) auto

lemma chain_empty_iff: "chain h p xs \<Longrightarrow> p = None \<longleftrightarrow> xs = []"
  by (cases xs) auto

definition drop_objs :: "nat set \<Rightarrow> (nat \<Rightarrow> nat option option) \<Rightarrow> nat \<Rightarrow> nat option option" where
  "drop_objs D h = (\<lambda>x. if x \<in> D then None else h x)"

lemma drop_objs_simps [simp]: "drop_objs {} h = h" "x \<notin> D \<Longrightarrow> drop_objs D h x = h x" "x \<in> D \<Longrightarrow> drop_objs D h x = None"
  by (auto simp: drop_objs_def)

text \<open>The object that a merge gives up: the right record's exception, when the left one has its own.\<close>

definition loser :: "exn_val \<Rightarrow> exn_val \<Rightarrow> nat set" where
  "loser a b = (if v_active a = None then {} else set_option (v_active b))"

lemma delete_caught_None [simp]: "delete_caught None m = Some m"
  by (subst delete_caught.simps) simp

lemma pe_destruct_run:
  assumes "infos m p = Some i" and "caughtExceptions (runtime_state i) = None" and "\<And>e. pe_active i = Some e \<Longrightarrow> exn_objs m e \<noteq> None"
  shows "\<exists>i'. pe_destruct p m = Some (m\<lparr>exn_objs := drop_objs (set_option (pe_active i)) (exn_objs m), infos := (infos m)(p \<mapsto> i')\<rparr>)"
proof (cases "pe_active i")
  case (Some e)
  have "(exn_objs m)(e := None) = drop_objs {e} (exn_objs m)" by (rule ext) (simp add: drop_objs_def)
  then show ?thesis using assms Some by (auto simp: pe_destruct_def delete_exception_def)
next
  case None
  then show ?thesis using assms by (intro exI) (simp add: pe_destruct_def)
qed

definition merged_info :: "pending_exception_info \<Rightarrow> pending_exception_info \<Rightarrow> pending_exception_info" where
  "merged_info li ri =
     \<lparr>pe_active = (if pe_active li = None then pe_active ri else pe_active li),
      pe_rethrow = (if caughtExceptions (runtime_state li) \<noteq> None then pe_rethrow li else pe_rethrow ri),
      runtime_state = \<lparr>caughtExceptions = (if caughtExceptions (runtime_state li) \<noteq> None then caughtExceptions (runtime_state li)
                                          else caughtExceptions (runtime_state ri)),
        uncaughtExceptions = uncaughtExceptions (runtime_state li) + uncaughtExceptions (runtime_state ri) -
          (if pe_active li \<noteq> None \<and> pe_active ri \<noteq> None then 1 else 0)\<rparr>\<rparr>"

lemma merge_infos:
  assumes "caughtExceptions (runtime_state li) = None \<or> caughtExceptions (runtime_state ri) = None"
    and "caughtExceptions (runtime_state li) = None \<Longrightarrow> \<not> pe_rethrow li"
  obtains li1 ri1 ri2 where "merge_caught li ri = Some (li1, ri1)" and "merge_active li1 ri1 = (merged_info li ri, ri2)"
    and "caughtExceptions (runtime_state ri2) = None" and "pe_active ri2 = (if pe_active li = None then None else pe_active ri)"
proof -
  let ?ri1 = "if caughtExceptions (runtime_state li) \<noteq> None then ri
              else ri\<lparr>runtime_state := (runtime_state ri)\<lparr>caughtExceptions := None\<rparr>\<rparr>"
  let ?ri2 = "if pe_active li = None then ?ri1\<lparr>pe_active := None\<rparr> else ?ri1"
  define li1 where "li1 = (if caughtExceptions (runtime_state li) \<noteq> None then li
     else li\<lparr>pe_rethrow := pe_rethrow ri, runtime_state := (runtime_state li)\<lparr>caughtExceptions := caughtExceptions (runtime_state ri)\<rparr>\<rparr>)"
  have mc: "merge_caught li ri = Some (li1, ?ri1)" "pe_active li1 = pe_active li"
      "pe_rethrow li1 = pe_rethrow (merged_info li ri)" "uncaughtExceptions (runtime_state li1) = uncaughtExceptions (runtime_state li)"
      "caughtExceptions (runtime_state li1) = caughtExceptions (runtime_state (merged_info li ri))"
    using assms by (auto simp: merge_caught_def merged_info_def li1_def)
  have "merge_active li1 ?ri1 = (merged_info li ri, ?ri2)"
    using mc(2-5) by (simp add: merge_active_def merged_info_def Let_def)
  then show ?thesis by (rule that [OF mc(1)]) (use assms in auto)
qed

lemma sint_small: "uint x < 2 ^ 31 \<Longrightarrow> sint x = uint x" for x :: "32 word"
  using signed_take_bit_int_eq_self [of 31 "uint x"] uint_ge_0 [of x] by (simp add: sint_uint)

lemma merged_check:
  assumes "pe_check li" and "pe_check ri"
    and "uint (uncaughtExceptions (runtime_state li)) + uint (uncaughtExceptions (runtime_state ri)) < 2 ^ 31"
  shows "pe_check (merged_info li ri)"
proof -
  define x y where "x = uncaughtExceptions (runtime_state li)" and "y = uncaughtExceptions (runtime_state ri)"
  have b: "uint x < 2 ^ 31" "uint y < 2 ^ 31" "uint x + uint y < 2 ^ 31"
    using assms(3) uint_ge_0 [of x] uint_ge_0 [of y] unfolding x_def y_def by linarith+
  have s: "uint (x + y) = uint x + uint y" using b(3) by (simp add: uint_word_ariths)
  have d: "uint (x + y - 1) = uint x + uint y - 1" if "0 < uint x"
  proof -
    have "(uint x + uint y - 1) mod 4294967296 = uint x + uint y - 1"
      by (rule mod_pos_pos_trivial) (use b(3) [simplified] that uint_ge_0 [of y] in linarith)+
    then show ?thesis by (simp add: uint_word_ariths mod_simps)
  qed
  show ?thesis
  proof (cases "pe_active li \<noteq> None \<and> pe_active ri \<noteq> None")
    case True
    then have p: "0 < uint x" "0 < uint y" using assms(1,2) sint_small b by (auto simp: pe_check_def x_def y_def)
    then have "sint (x + y - 1) = uint x + uint y - 1" using d b(3) sint_small [of "x + y - 1"] by simp
    then show ?thesis using True p by (simp add: pe_check_def merged_info_def x_def y_def)
  next
    case False
    have "sint (x + y) = uint x + uint y" using s b(3) sint_small [of "x + y"] by simp
    then show ?thesis using False assms(1,2) sint_small [OF b(1)] sint_small [OF b(2)] uint_ge_0 [of x] uint_ge_0 [of y]
      by (auto simp: pe_check_def merged_info_def x_def y_def intro: add_pos_nonneg add_nonneg_pos)
  qed
qed

lemma merge_both_run:
  assumes a: "holds_info m (Some l) a" and b: "holds_info m (Some r) b" and lr: "l \<noteq> r" and "mergeable a b" and d: "distinct (objs a @ objs b)"
  shows "\<exists>m'. merge_exceptions (Some l) (Some r) m = Some (if vmerge a b = nil_val then None else Some l, m') \<and>
     holds_info m' (if vmerge a b = nil_val then None else Some l) (vmerge a b) \<and>
     exn_objs m' = drop_objs (loser a b) (exn_objs m) \<and> (\<forall>q. q \<noteq> l \<and> q \<noteq> r \<longrightarrow> infos m' q = infos m q)"
proof -
  obtain li where li: "infos m l = Some li" "v_active a = pe_active li" "v_rethrow a = pe_rethrow li"
      "v_uncaught a = uncaughtExceptions (runtime_state li)" "chain (exn_objs m) (caughtExceptions (runtime_state li)) (v_caught a)"
      "\<forall>x. pe_active li = Some x \<longrightarrow> exn_objs m x \<noteq> None" using a by auto
  obtain ri where ri: "infos m r = Some ri" "v_active b = pe_active ri" "v_rethrow b = pe_rethrow ri"
      "v_uncaught b = uncaughtExceptions (runtime_state ri)" "chain (exn_objs m) (caughtExceptions (runtime_state ri)) (v_caught b)"
      "\<forall>x. pe_active ri = Some x \<longrightarrow> exn_objs m x \<noteq> None" using b by auto
  note emp = chain_empty_iff [OF li(5)] chain_empty_iff [OF ri(5)]
  obtain li1 ri1 ri2 where mi: "merge_caught li ri = Some (li1, ri1)" "merge_active li1 ri1 = (merged_info li ri, ri2)"
      "caughtExceptions (runtime_state ri2) = None" "pe_active ri2 = (if pe_active li = None then None else pe_active ri)"
    by (rule merge_infos [of li ri]) (use assms(4) emp li(3) in \<open>auto simp: mergeable_def\<close>)
  let ?i = "merged_info li ri" and ?m1 = "m\<lparr>infos := (infos m)(l \<mapsto> merged_info li ri, r \<mapsto> ri2)\<rparr>"
  have los: "set_option (pe_active ri2) = loser a b" using mi(4) li(2) ri(2) by (simp add: loser_def)
  have live: "exn_objs ?m1 e \<noteq> None" if "pe_active ri2 = Some e" for e
    using that mi(4) ri(6) by (simp split: if_splits)
  from pe_destruct_run [of ?m1 r ri2, OF _ mi(3) live] obtain i' where ds: "pe_destruct r ?m1 =
      Some (?m1\<lparr>exn_objs := drop_objs (loser a b) (exn_objs m), infos := (infos ?m1)(r \<mapsto> i')\<rparr>)" by (auto simp: los)
  let ?m2 = "info_free r (?m1\<lparr>exn_objs := drop_objs (loser a b) (exn_objs m), infos := (infos ?m1)(r \<mapsto> i')\<rparr>)"
  have m2: "exn_objs ?m2 = drop_objs (loser a b) (exn_objs m)" "infos ?m2 l = Some ?i" "\<forall>q. q \<noteq> l \<and> q \<noteq> r \<longrightarrow> infos ?m2 q = infos m q"
    using lr by (simp_all add: info_free_def)
  have nil: "pe_empty ?i \<longleftrightarrow> vmerge a b = nil_val"
    using li(2-4) ri(2-4) emp by (auto simp: pe_empty_def merged_info_def vmerge_def nil_val_def)
  have disj: "x \<notin> loser a b" if "x \<in> set (objs (vmerge a b))" for x
    using that d by (auto simp: objs_def vmerge_def loser_def split: if_splits option.splits)
  have ch: "chain (exn_objs m) (caughtExceptions (runtime_state ?i)) (v_caught (vmerge a b))"
    using li(5) ri(5) emp by (auto simp: merged_info_def vmerge_def)
  have h0: "holds_info (m\<lparr>infos := infos ?m2\<rparr>) (Some l) (vmerge a b)"
    using m2(2) ch li(2-4,6) ri(2-4,6) emp by (auto simp: merged_info_def vmerge_def)
  have h: "holds_info ?m2 (Some l) (vmerge a b)"
    by (rule holds_info_cong [OF h0]) (use disj m2(1) in auto)
  have merge: "merge_exceptions (Some l) (Some r) m =
      (if pe_empty ?i then do { m \<leftarrow> pe_destruct l ?m2; Some (None, info_free l m) } else Some (Some l, ?m2))"
    using li(1) ri(1) mi(1,2) ds by (simp add: merge_exceptions_def)
  show ?thesis
  proof (cases "vmerge a b = nil_val")
    case False
    then show ?thesis using merge nil h m2 by auto
  next
    case True
    then have e: "pe_active ?i = None" "caughtExceptions (runtime_state ?i) = None" using nil by (auto simp: pe_empty_def)
    from pe_destruct_run [OF m2(2) e(2)] e(1) obtain i2 where
      "pe_destruct l ?m2 = Some (?m2\<lparr>exn_objs := exn_objs ?m2, infos := (infos ?m2)(l \<mapsto> i2)\<rparr>)" by auto
    then show ?thesis using merge nil True m2 by (simp add: info_free_def)
  qed
qed

subsection \<open>Merging in any grouping\<close>

text \<open>The value the scheduler's model sees of a record: none for the null pointer.\<close>

definition opt_val :: "nat option \<Rightarrow> exn_val \<Rightarrow> exn_val option" where
  "opt_val p v = map_option (\<lambda>_. v) p"

lemma vmerge_nil [simp]: "vmerge nil_val b = b" "(v_rethrow a \<longrightarrow> v_caught a \<noteq> []) \<Longrightarrow> vmerge a nil_val = a"
  by (auto simp: vmerge_def nil_val_def)

lemma loser_nil [simp]: "loser nil_val b = {}"
  by (simp add: loser_def nil_val_def)

lemma merge_any:
  assumes "holds_info m l a" and "holds_info m r b" and "l \<noteq> None \<Longrightarrow> l \<noteq> r" and "mergeable a b" and "distinct (objs a @ objs b)"
  shows "\<exists>p m'. merge_exceptions l r m = Some (p, m') \<and> holds_info m' p (vmerge a b) \<and> p \<in> {None, l, r} \<and>
     exn_objs m' = drop_objs (loser a b) (exn_objs m) \<and> (\<forall>q. Some q \<noteq> l \<and> Some q \<noteq> r \<longrightarrow> infos m' q = infos m q) \<and>
     merge_pending_exceptions val_rt (opt_val l a) (opt_val r b) = opt_val p (vmerge a b)"
proof (cases l)
  case None
  then have "a = nil_val" using assms(1) by simp
  then show ?thesis using assms(2) None by (cases r) (simp_all add: merge_exceptions_def opt_val_def)
next
  case l: (Some x)
  show ?thesis
  proof (cases r)
    case None
    then have b: "b = nil_val" using assms(2) by simp
    have "vmerge a b = a" "loser a b = {}" using assms(4) b by (auto simp: mergeable_def loser_def nil_val_def vmerge_def)
    then show ?thesis using assms(1) l None by (simp add: merge_exceptions_def opt_val_def)
  next
    case r: (Some y)
    have "x \<noteq> y" using assms(3) l r by auto
    from merge_both_run [OF assms(1) [unfolded l] assms(2) [unfolded r] this assms(4,5)] obtain m' where
      "merge_exceptions (Some x) (Some y) m = Some (if vmerge a b = nil_val then None else Some x, m')"
      "holds_info m' (if vmerge a b = nil_val then None else Some x) (vmerge a b)"
      "exn_objs m' = drop_objs (loser a b) (exn_objs m)" "\<forall>q. q \<noteq> x \<and> q \<noteq> y \<longrightarrow> infos m' q = infos m q" by blast
    then show ?thesis unfolding l r
      by (intro exI [of _ "if vmerge a b = nil_val then None else Some x"] exI [of _ m']) (simp add: opt_val_def val_rt_def)
  qed
qed

definition actives :: "exn_val list \<Rightarrow> nat list" where
  "actives vs = concat (map (\<lambda>v. case v_active v of None \<Rightarrow> [] | Some e \<Rightarrow> [e]) vs)"

text \<open>
  What a sequence of strands amounts to, in serial order: the first exception, the caught exceptions, and the
  count of uncaught exceptions less those that were given up.
\<close>

definition vsum :: "exn_val list \<Rightarrow> exn_val" where
  "vsum vs =
     \<lparr>v_active = (case actives vs of [] \<Rightarrow> None | e # _ \<Rightarrow> Some e),
      v_rethrow = list_ex v_rethrow vs,
      v_caught = concat (map v_caught vs),
      v_uncaught = sum_list (map v_uncaught vs) - of_nat (length (tl (actives vs)))\<rparr>"

definition vals_ok :: "exn_val list \<Rightarrow> bool" where
  "vals_ok vs \<longleftrightarrow> length (filter (\<lambda>v. v_caught v \<noteq> []) vs) \<le> 1 \<and> (\<forall>v\<in>set vs. v_rethrow v \<longrightarrow> v_caught v \<noteq> []) \<and>
     distinct (concat (map objs vs))"

datatype joins = Strand "nat option" | Join joins joins

primrec strands :: "joins \<Rightarrow> nat option list" where
  "strands (Strand p) = [p]"
| "strands (Join a b) = strands a @ strands b"

primrec join_exceptions :: "joins \<Rightarrow> eh_mem \<Rightarrow> (nat option \<times> eh_mem) option" where
  "join_exceptions (Strand p) m = Some (p, m)"
| "join_exceptions (Join a b) m = do { (l, m) \<leftarrow> join_exceptions a m; (r, m) \<leftarrow> join_exceptions b m; merge_exceptions l r m }"

lemma actives_append [simp]: "actives (us @ vs) = actives us @ actives vs"
  by (simp add: actives_def)

lemma actives_simps [simp]: "actives [] = []" "actives (v # vs) = (case v_active v of None \<Rightarrow> [] | Some e \<Rightarrow> [e]) @ actives vs"
  by (simp_all add: actives_def)

lemma vsum_single: "vsum [v] = v"
  by (simp add: vsum_def split: option.splits)

lemma no_caught: "concat (map v_caught vs) = [] \<longleftrightarrow> filter (\<lambda>v. v_caught v \<noteq> []) vs = []"
  by (induction vs) auto

lemma vals_ok_append:
  assumes "vals_ok (us @ vs)"
  shows "vals_ok us" and "vals_ok vs" and "set (concat (map objs us)) \<inter> set (concat (map objs vs)) = {}"
    and "concat (map v_caught us) = [] \<or> concat (map v_caught vs) = []"
proof -
  show "vals_ok us" "vals_ok vs" "set (concat (map objs us)) \<inter> set (concat (map objs vs)) = {}"
    using assms by (auto simp: vals_ok_def)
  show "concat (map v_caught us) = [] \<or> concat (map v_caught vs) = []"
    using assms unfolding no_caught vals_ok_def
    by (cases "filter (\<lambda>v. v_caught v \<noteq> []) us"; cases "filter (\<lambda>v. v_caught v \<noteq> []) vs") simp_all
qed

lemma vals_ok_rethrow: "vals_ok vs \<Longrightarrow> list_ex v_rethrow vs \<Longrightarrow> concat (map v_caught vs) \<noteq> []"
  by (auto simp: vals_ok_def list_ex_iff)

lemma vsum_append:
  assumes "vals_ok (us @ vs)"
  shows "vmerge (vsum us) (vsum vs) = vsum (us @ vs)"
proof -
  note ok = vals_ok_append [OF assms]
  have rt: "list_ex v_rethrow us \<Longrightarrow> concat (map v_caught us) \<noteq> []" "list_ex v_rethrow vs \<Longrightarrow> concat (map v_caught vs) \<noteq> []"
    using vals_ok_rethrow ok(1,2) by blast+
  show ?thesis
    using ok(4) rt by (cases "actives us"; cases "actives vs") (auto simp: vmerge_def vsum_def algebra_simps)
qed

lemma vsum_objs: "set (objs (vsum vs)) \<subseteq> set (concat (map objs vs))"
proof -
  have "set (actives vs) \<union> set (concat (map v_caught vs)) \<subseteq> set (concat (map objs vs))"
    by (induction vs) (auto simp: objs_def split: option.splits)
  then show ?thesis by (auto simp: objs_def vsum_def split: list.splits)
qed

lemma vsum_distinct: "vals_ok vs \<Longrightarrow> distinct (objs (vsum vs))"
proof (induction vs)
  case (Cons v vs)
  note ok = vals_ok_append [of "[v]" vs, simplified, OF Cons.prems]
  have v: "vmerge v (vsum vs) = vsum (v # vs)" using vsum_append [of "[v]" vs] Cons.prems by (simp add: vsum_single)
  have "distinct (objs v)" using ok(1) by (simp add: vals_ok_def)
  moreover have "distinct (objs (vsum vs))" using Cons.IH ok(2) by blast
  moreover have "set (objs v) \<inter> set (objs (vsum vs)) = {}" using ok(3) vsum_objs [of vs] by auto
  ultimately show ?case unfolding v [symmetric] by (auto simp: objs_def vmerge_def split: option.splits)
qed (simp add: objs_def vsum_def)

lemma vsum_mergeable:
  assumes "vals_ok (us @ vs)"
  shows "mergeable (vsum us) (vsum vs)" and "distinct (objs (vsum us) @ objs (vsum vs))"
    and "loser (vsum us) (vsum vs) \<union> set (tl (actives us)) \<union> set (tl (actives vs)) = set (tl (actives (us @ vs)))"
proof -
  note ok = vals_ok_append [OF assms]
  show "mergeable (vsum us) (vsum vs)"
    using ok(4) vals_ok_rethrow [OF ok(1)] vals_ok_rethrow [OF ok(2)] by (auto simp: mergeable_def vsum_def)
  show "distinct (objs (vsum us) @ objs (vsum vs))"
    using vsum_distinct [OF ok(1)] vsum_distinct [OF ok(2)] vsum_objs [of us] vsum_objs [of vs] ok(3) by auto
  show "loser (vsum us) (vsum vs) \<union> set (tl (actives us)) \<union> set (tl (actives vs)) = set (tl (actives (us @ vs)))"
    by (cases "actives us"; cases "actives vs") (auto simp: loser_def vsum_def)
qed

lemma actives_objs: "set (actives vs) \<subseteq> set (concat (map objs vs))"
  by (induction vs) (auto simp: objs_def split: option.splits)

lemma set_tl: "x \<in> set (tl xs) \<Longrightarrow> x \<in> set xs"
  by (cases xs) auto

lemma join_exceptions_run:
  assumes "list_all2 (holds_info m) (strands t) vs" and "vals_ok vs" and "distinct [p \<leftarrow> strands t. p \<noteq> None]"
  shows "\<exists>p m'. join_exceptions t m = Some (p, m') \<and> holds_info m' p (vsum vs) \<and> (p = None \<or> p \<in> set (strands t)) \<and>
     exn_objs m' = drop_objs (set (tl (actives vs))) (exn_objs m) \<and> (\<forall>q. Some q \<notin> set (strands t) \<longrightarrow> infos m' q = infos m q)"
  using assms
proof (induction t arbitrary: m vs)
  case (Strand p)
  then obtain v where "vs = [v]" "holds_info m p v" by (auto simp: list_all2_Cons1)
  moreover have "tl (actives [v]) = []" by (cases "v_active v") simp_all
  ultimately show ?case by (simp add: vsum_single)
next
  case (Join a b)
  obtain us ws where vs: "vs = us @ ws" and hu: "list_all2 (holds_info m) (strands a) us" and hw: "list_all2 (holds_info m) (strands b) ws"
    using Join.prems(1) by (auto simp: list_all2_append1)
  note ok = vals_ok_append [OF Join.prems(2) [unfolded vs]]
  have dist: "distinct [p \<leftarrow> strands a. p \<noteq> None]" "distinct [p \<leftarrow> strands b. p \<noteq> None]"
    using Join.prems(3) by auto
  have dist3: "p = None" if "p \<in> set (strands a)" "p \<in> set (strands b)" for p
    using Join.prems(3) that by (cases p) auto
  obtain l m1 where l: "join_exceptions a m = Some (l, m1)" "holds_info m1 l (vsum us)" "l = None \<or> l \<in> set (strands a)"
      "exn_objs m1 = drop_objs (set (tl (actives us))) (exn_objs m)" "\<forall>q. Some q \<notin> set (strands a) \<longrightarrow> infos m1 q = infos m q"
    using Join.IH(1) [OF hu ok(1) dist(1)] by blast
  have same: "exn_objs m1 x = exn_objs m x" if "x \<in> set (concat (map objs ws))" for x
  proof -
    have "x \<notin> set (tl (actives us))" using that ok(3) actives_objs [of us] set_tl [of x "actives us"] by blast
    then show ?thesis using l(4) by simp
  qed
  have "holds_info m1 p v" if pv: "holds_info m p v" "p \<in> set (strands b)" "v \<in> set ws" for p v
    by (rule holds_info_cong [OF pv(1)]) (use pv(2,3) dist3 l(5) same in auto)
  then have hw1: "list_all2 (holds_info m1) (strands b) ws"
    using hw unfolding list_all2_conv_all_nth by (metis nth_mem)
  obtain r m2 where r: "join_exceptions b m1 = Some (r, m2)" "holds_info m2 r (vsum ws)" "r = None \<or> r \<in> set (strands b)"
      "exn_objs m2 = drop_objs (set (tl (actives ws))) (exn_objs m1)" "\<forall>q. Some q \<notin> set (strands b) \<longrightarrow> infos m2 q = infos m1 q"
    using Join.IH(2) [OF hw1 ok(2) dist(2)] by blast
  have l2: "holds_info m2 l (vsum us)"
  proof (rule holds_info_cong [OF l(2)])
    show "infos m2 q = infos m1 q" if "l = Some q" for q using that l(3) dist3 r(5) by auto
    show "exn_objs m2 x = exn_objs m1 x" if "x \<in> set (objs (vsum us))" for x
    proof -
      have "x \<notin> set (tl (actives ws))" using that vsum_objs [of us] ok(3) actives_objs [of ws] set_tl [of x "actives ws"] by blast
      then show ?thesis using r(4) by simp
    qed
  qed
  have "l \<noteq> r" if "l \<noteq> None" using that l(3) r(3) dist3 by auto
  from merge_any [OF l2 r(2) this vsum_mergeable(1,2) [OF Join.prems(2) [unfolded vs]]] obtain p m3 where
    p: "merge_exceptions l r m2 = Some (p, m3)" "holds_info m3 p (vmerge (vsum us) (vsum ws))" "p \<in> {None, l, r}"
      "exn_objs m3 = drop_objs (loser (vsum us) (vsum ws)) (exn_objs m2)" "\<forall>q. Some q \<noteq> l \<and> Some q \<noteq> r \<longrightarrow> infos m3 q = infos m2 q"
    by blast
  have "holds_info m3 p (vsum vs)" using p(2) vsum_append [OF Join.prems(2) [unfolded vs]] vs by simp
  moreover have "exn_objs m3 = drop_objs (set (tl (actives vs))) (exn_objs m)"
    unfolding vs vsum_mergeable(3) [OF Join.prems(2) [unfolded vs], symmetric] p(4) r(4) l(4) by (rule ext) (auto simp: drop_objs_def)
  moreover have "infos m3 q = infos m q" if "Some q \<notin> set (strands (Join a b))" for q
    using that l(3,5) r(3,5) p(5) by auto
  ultimately show ?case using l(1,3) r(1,3) p(1,3) by auto
qed

subsection \<open>The active exception of a record\<close>

text \<open>
  In the words of the comment of \<^verbatim>\<open>__cilkrts_merge_pending_exceptions\<close>: the active exception of a record is its
  field \<open>active\<close> when that is set, \<open>unresolved\<close> when it is not and the record is to rethrow, and nil otherwise; of two records the left one's
  counts if it is not nil.
\<close>

datatype active_exn = Active nat | Unresolved | Nil_exn

definition active_of :: "exn_val \<Rightarrow> active_exn" where
  "active_of v = (case v_active v of Some e \<Rightarrow> Active e | None \<Rightarrow> if v_rethrow v then Unresolved else Nil_exn)"

fun first_active :: "exn_val list \<Rightarrow> active_exn" where
  "first_active [] = Nil_exn"
| "first_active (v # vs) = (if active_of v = Nil_exn then first_active vs else active_of v)"

text \<open>The comment asks that the left record of a merge is not unresolved: of a sequence of strands only the last one may rethrow.\<close>

definition resolved :: "exn_val list \<Rightarrow> bool" where
  "resolved vs \<longleftrightarrow> list_all (\<lambda>v. \<not> v_rethrow v) (butlast vs)"

lemma vsum_active: "resolved vs \<Longrightarrow> active_of (vsum vs) = first_active vs"
proof (induction vs)
  case Nil
  then show ?case by (simp add: vsum_def active_of_def)
next
  case (Cons v vs)
  show ?case
  proof (cases "vs = []")
    case True
    then show ?thesis by (simp add: vsum_single)
  next
    case False
    then have "\<not> v_rethrow v" and "resolved vs" using Cons.prems by (simp_all add: resolved_def)
    then show ?thesis using Cons.IH by (cases "v_active v"; cases "actives vs") (auto simp: vsum_def active_of_def)
  qed
qed

subsection \<open>Properties\<close>

text \<open>
  C11: However the joins group the strands of a frame, the exception that survives is the first in serial order.
  For records whose exception objects are distinct, of which at most one has caught exceptions, that rethrow only those, and of which none
  but the last is to rethrow (the left record of a merge is not unresolved, as the comment of the merge asks), every sequence of merges along
  a tree of joins succeeds - no assertion fails, no object is deleted twice or followed after its deletion -, and leaves a record (or none,
  when there is nothing to keep) whose active exception is the first one of the strands that is not nil, with their caught exceptions and
  the number of uncaught exceptions less those deleted; deleted are exactly the other active exceptions, and no record outside the tree has changed.
\<close>

theorem leftmost_exception_survives:
  assumes "list_all2 (holds_info m) (strands t) vs" and "vals_ok vs" and "resolved vs" and "distinct [p \<leftarrow> strands t. p \<noteq> None]"
  shows "\<exists>p m'. join_exceptions t m = Some (p, m') \<and> holds_info m' p (vsum vs) \<and> active_of (vsum vs) = first_active vs \<and>
     (\<forall>x. exn_objs m' x = (if x \<in> set (tl (actives vs)) then None else exn_objs m x)) \<and>
     (\<forall>q. Some q \<notin> set (strands t) \<longrightarrow> infos m' q = infos m q)"
  using join_exceptions_run [OF assms(1,2,4)] vsum_active [OF assms(3)] unfolding drop_objs_def by (metis (no_types, lifting))

definition three_throws :: eh_mem where
  "three_throws = \<lparr>exn_objs = (\<lambda>x. if x < 3 then Some None else None),
     infos = (\<lambda>p. if p < 3 then Some \<lparr>pe_active = (if p = 0 then None else Some p), pe_rethrow = False,
                runtime_state = \<lparr>caughtExceptions = (if p = 0 then Some 0 else None), uncaughtExceptions = (if p = 0 then 0 else 1)\<rparr>\<rparr> else None)\<rparr>"

theorem leftmost_exception_survives_witness:
  "\<exists>p m'. join_exceptions (Join (Strand (Some 0)) (Join (Strand (Some 1)) (Strand (Some 2)))) three_throws = Some (p, m') \<and>
     holds_info m' p \<lparr>v_active = Some 1, v_rethrow = False, v_caught = [0], v_uncaught = 1\<rparr> \<and> exn_objs m' 2 = None \<and> exn_objs m' 1 = Some None"
proof -
  let ?t = "Join (Strand (Some 0)) (Join (Strand (Some 1)) (Strand (Some 2)))"
  let ?c = "\<lparr>v_active = None, v_rethrow = False, v_caught = [0], v_uncaught = 0\<rparr>"
  let ?v = "\<lambda>k. \<lparr>v_active = Some k, v_rethrow = False, v_caught = [], v_uncaught = 1\<rparr>"
  have h: "list_all2 (holds_info three_throws) (strands ?t) [?c, ?v 1, ?v 2]" by (simp add: three_throws_def)
  have ok: "vals_ok [?c, ?v 1, ?v 2]" "resolved [?c, ?v 1, ?v 2]" by (simp_all add: vals_ok_def objs_def resolved_def)
  have sum: "vsum [?c, ?v 1, ?v 2] = \<lparr>v_active = Some 1, v_rethrow = False, v_caught = [0], v_uncaught = 1\<rparr>"
      "tl (actives [?c, ?v 1, ?v 2]) = [2]" by (simp_all add: vsum_def)
  have o: "exn_objs three_throws 1 = Some None" by (simp add: three_throws_def)
  obtain p m' where "join_exceptions ?t three_throws = Some (p, m')" "holds_info m' p (vsum [?c, ?v 1, ?v 2])"
      "\<forall>x. exn_objs m' x = (if x \<in> set (tl (actives [?c, ?v 1, ?v 2])) then None else exn_objs three_throws x)"
    using leftmost_exception_survives [OF h ok] by auto
  then show ?thesis unfolding sum by (intro exI [of _ p] exI [of _ m']) (simp add: o [simplified])
qed

text \<open>
  The condition is needed, and the code checks it only when the left record has no caught exceptions: a left record that is to rethrow its
  caught exception, merged with a right one that has an active exception, ends with the right exception active, where the comment says the left one counts.
\<close>

definition left_rethrows :: eh_mem where
  "left_rethrows = \<lparr>exn_objs = (\<lambda>x. if x < 2 then Some None else None),
     infos = (\<lambda>p. if p < 2 then Some \<lparr>pe_active = (if p = 0 then None else Some 1), pe_rethrow = (p = 0),
                runtime_state = \<lparr>caughtExceptions = (if p = 0 then Some 0 else None), uncaughtExceptions = (if p = 0 then 0 else 1)\<rparr>\<rparr> else None)\<rparr>"

lemma unresolved_left_loses:
  "\<exists>p m' v. merge_exceptions (Some 0) (Some 1) left_rethrows = Some (p, m') \<and> holds_info m' p v \<and> active_of v = Active 1"
proof -
  let ?l = "\<lparr>v_active = None, v_rethrow = True, v_caught = [0], v_uncaught = 0\<rparr>"
  let ?r = "\<lparr>v_active = Some 1, v_rethrow = False, v_caught = [], v_uncaught = 1\<rparr>"
  have h: "list_all2 (holds_info left_rethrows) (strands (Join (Strand (Some 0)) (Strand (Some 1)))) [?l, ?r]"
    by (simp add: left_rethrows_def)
  have ok: "vals_ok [?l, ?r]" by (simp add: vals_ok_def objs_def)
  obtain p m' where m: "join_exceptions (Join (Strand (Some 0)) (Strand (Some 1))) left_rethrows = Some (p, m')" "holds_info m' p (vsum [?l, ?r])"
    using join_exceptions_run [OF h ok] by auto
  have v: "active_of (vsum [?l, ?r]) = Active 1" by (simp add: vsum_def active_of_def)
  have "merge_exceptions (Some 0) (Some 1) left_rethrows = Some (p, m')" using m(1) by simp
  with m(2) v show ?thesis by blast
qed

text \<open>
  C31: Saving the state of the C++ runtime at a suspension and installing it when the frame is resumed gives it back. Saving
  clears the state; resuming into a cleared state restores both lists, marks the frame as excepting when there is an active exception or one to
  rethrow, hands it the exception, and frees the record. Resuming into a state that is not clear is an error.
\<close>

theorem exception_save_restore:
  "fst (save_info p exc_in rethrow_in g m) = no_exceptions \<and>
   setup_exceptions (Some p) f (snd (save_info p exc_in rethrow_in g m)) =
     (if rs_globals f = no_exceptions then
        Some (\<lparr>rs_excepting = (rs_excepting f \<or> rethrow_in \<or> exc_in \<noteq> None),
               rs_except_data = (if exc_in = None then rs_except_data f else exc_in),
               rs_globals = g, rs_pending = None\<rparr>, m\<lparr>infos := (infos m)(p := None)\<rparr>)
      else None)"
proof -
  obtain m1 g1 where sv: "save_info p exc_in rethrow_in g m = (g1, m1)" by fastforce
  then have g1: "g1 = no_exceptions" and i: "infos m1 p = Some \<lparr>pe_active = exc_in, pe_rethrow = rethrow_in, runtime_state = g\<rparr>"
    and m1: "exn_objs m1 = exn_objs m" "(infos m1)(p := None) = (infos m)(p := None)" "m1 = m\<lparr>infos := infos m1\<rparr>"
    by (auto simp: save_info_def pe_make_def no_exceptions_def)
  have clear: "rs_globals f = no_exceptions \<longleftrightarrow> uncaughtExceptions (rs_globals f) = 0 \<and> caughtExceptions (rs_globals f) = None"
    by (auto simp: no_exceptions_def)
  let ?i0 = "\<lparr>pe_active = None, pe_rethrow = False, runtime_state = no_exceptions\<rparr>"
  have ds: "pe_destruct p (m1\<lparr>infos := (infos m1)(p \<mapsto> ?i0)\<rparr>) = Some (m1\<lparr>infos := (infos m1)(p \<mapsto> ?i0)\<rparr>)"
    by (simp add: pe_destruct_def no_exceptions_def)
  have e0: "pe_empty ?i0" by (simp add: pe_empty_def no_exceptions_def)
  have fr: "info_free p (m1\<lparr>infos := (infos m1)(p \<mapsto> ?i0)\<rparr>) = m\<lparr>infos := (infos m)(p := None)\<rparr>"
    using m1 by (simp add: info_free_def)
  show ?thesis
  proof (cases "rs_globals f = no_exceptions")
    case True
    then show ?thesis using sv g1 i ds e0 fr clear
      by (cases rethrow_in; cases exc_in) (simp_all add: setup_exceptions_def cilk_assert_def)
  next
    case False
    then show ?thesis using sv g1 i clear by (auto simp: setup_exceptions_def cilk_assert_def)
  qed
qed

theorem exception_save_restore_witness:
  "setup_exceptions (Some 7) \<lparr>rs_excepting = False, rs_except_data = None, rs_globals = no_exceptions, rs_pending = Some 7\<rparr>
     (snd (save_info 7 (Some 3) False \<lparr>caughtExceptions = Some 4, uncaughtExceptions = 1\<rparr> three_throws)) =
   Some (\<lparr>rs_excepting = True, rs_except_data = Some 3, rs_globals = \<lparr>caughtExceptions = Some 4, uncaughtExceptions = 1\<rparr>, rs_pending = None\<rparr>,
     three_throws\<lparr>infos := (infos three_throws)(7 := None)\<rparr>)"
  using exception_save_restore [of 7 "Some 3" False "\<lparr>caughtExceptions = Some 4, uncaughtExceptions = 1\<rparr>" three_throws
     "\<lparr>rs_excepting = False, rs_except_data = None, rs_globals = no_exceptions, rs_pending = Some 7\<rparr>"] by simp

text \<open>
  C32: The merge of records refines what the scheduler's model assumes of it: on the values of the records, \<^verbatim>\<open>__cilkrts_merge_pending_exceptions\<close>
  is the scheduler's merge, null results included; it touches no other record, and deletes the right exception exactly when both have one.
\<close>

theorem merge_exceptions_refines:
  assumes "holds_info m l a" and "holds_info m r b" and "l \<noteq> None \<Longrightarrow> l \<noteq> r" and "mergeable a b" and "distinct (objs a @ objs b)"
  shows "\<exists>p m'. merge_exceptions l r m = Some (p, m') \<and> holds_info m' p (vmerge a b) \<and>
     merge_pending_exceptions val_rt (opt_val l a) (opt_val r b) = opt_val p (vmerge a b) \<and>
     exn_objs m' = (\<lambda>x. if v_active a \<noteq> None \<and> v_active b = Some x then None else exn_objs m x) \<and>
     (\<forall>q. Some q \<noteq> l \<and> Some q \<noteq> r \<longrightarrow> infos m' q = infos m q)"
proof -
  have "drop_objs (loser a b) h = (\<lambda>x. if v_active a \<noteq> None \<and> v_active b = Some x then None else h x)" for h
    by (rule ext) (auto simp: drop_objs_def loser_def)
  then show ?thesis using merge_any [OF assms] by metis
qed

theorem merge_exceptions_refines_witness:
  "\<exists>p m'. merge_exceptions (Some 1) (Some 2) three_throws = Some (p, m') \<and> exn_objs m' 2 = None \<and>
     holds_info m' p \<lparr>v_active = Some 1, v_rethrow = False, v_caught = [], v_uncaught = 1\<rparr>"
proof -
  let ?v = "\<lambda>k. \<lparr>v_active = Some k, v_rethrow = False, v_caught = [], v_uncaught = 1\<rparr>"
  have "holds_info three_throws (Some 1) (?v 1)" "holds_info three_throws (Some 2) (?v 2)" by (simp_all add: three_throws_def)
  moreover have "mergeable (?v 1) (?v 2)" "distinct (objs (?v 1) @ objs (?v 2))" by (simp_all add: mergeable_def objs_def)
  moreover have "vmerge (?v 1) (?v 2) = ?v 1" by (simp add: vmerge_def)
  ultimately show ?thesis using merge_exceptions_refines [of three_throws "Some 1" "?v 1" "Some 2" "?v 2"] by auto
qed

end
