(* ===== verification/Spec2Isabelle.thy ===== *)
theory Spec2Isabelle
  imports Reducer_Trees Cilk_For Fiber_Steps Cilksort Exceptions
begin

text \<open>
  \<^bold>\<open>What the program is.\<close> The repository is the artifact of a paper on task-parallel runtimes. Its own
  core is the Intel Cilk Plus runtime under \<^verbatim>\<open>src/cilkrts\<close>: a randomised work-stealing scheduler in C for
  programs that spawn and sync. A \<^emph>\<open>worker\<close> executes user code and keeps a deque of stack frames whose
  continuations may be stolen; a thief turns a stolen frame into a \<^emph>\<open>full frame\<close> in a tree of full frames;
  join counters decide who resumes a frame after a sync; every strand has its own map of reducer views and
  the maps are merged in serial order when strands join. The benchmarks beside it are programs for such
  runtimes.

  \<^bold>\<open>How the parts interact.\<close> Compiled code calls the ABI (enter, detach, leave, sync: cilk-abi.c and the
  macros of cilk\_fake.h). Detaching pushes a frame on the deque, leaving pops it with the THE protocol; a
  thief takes the worker's lock, runs the other half of that protocol and promotes frames
  (scheduler.c, full\_frame.c). A worker whose parent was stolen merges its reducer maps and exceptions,
  jumps to its scheduling stack, and gives up its frame; the join counter hands the parent to the last strand.
  User threads are bound to workers when they first enter Cilk, and system workers sleep on a tree of signal
  nodes while there are no user threads.

  \<^bold>\<open>The theories.\<close>
    \<^item> \<open>Prelude\<close>: shared lemmas; \<open>Runtime_State\<close>: workers, stack frames, full frames and the memory \<open>rts\<close> that
      holds them (abi.h, local\_state.h, full\_frame.h). Pointers are natural numbers or options of them; a
      C pointer dereference is an application of the heap component; \<open>None\<close> as a result of an operation is a failed
      \<^verbatim>\<open>CILK_ASSERT\<close>, a null dereference, or a blocked lock, and a theorem that an operation succeeds says that none happens.
    \<^item> \<open>Worker_Mutex\<close>, \<open>Worker_Lock\<close>: worker\_mutex.c, spin\_mutex.c and the worker lock of scheduler.c; mutual
      exclusion over all interleavings, and that a worker waits for at most one more thief.
    \<^item> \<open>THE_Protocol\<close>: the deque. The owner and any number of thieves as an interleaved system
      of single memory accesses (the two reads of a thief's test are two steps); exactly-once, pointer order, no empty slot read.
    \<^item> \<open>Full_Frame\<close>: the tree of full frames refined to lists of children; \<open>Rng\<close>: victim selection.
    \<^item> \<open>Scheduler_Steal\<close>: random\_steal down to unroll\_call\_stack; \<open>Scheduler_Sync\<close>: provably good steals, do\_sync,
      spawn and call return; \<open>Reducer_Protocol\<close>: the parallel reductions of a spawn return and a sync.
    \<^item> \<open>Signal_Node\<close>: sleeping and waking of system workers; \<open>User_Thread\<close>: binding of user threads;
      \<open>Cilk_ABI\<close>: what compiled code calls; \<open>Serial_Run\<close>: whole programs of spawns, calls and syncs without thieves;
      \<open>Stolen_Return\<close>: the path of a return to a stolen parent through all of these.
    \<^item> \<open>Scheduling_Loop\<close>: the loop of an idle worker (check\_for\_work, the search, the loop body and the scheduler
      function): it resumes the frame it stole, and a root worker rests after a fixed number of failures.
    \<^item> \<open>Global_State\<close>: the settings (global\_state.cpp): reading them from the environment and from set\_param,
      the values derived from them, the table of workers, suspending and resuming.
    \<^item> \<open>Frame_Malloc\<close>: the allocator of stack frames and closures (frame\_malloc.c) with its global and local pools;
      a block it hands out overlaps no block in use.
    \<^item> \<open>Reducer_Map\<close>: the hash map of views and lookup, insertion and merging (reducer\_impl.cpp);
      \<open>Reducer_Lib\<close>: the monoids and views of the reducer headers (include/cilk/reducer*.h);
      \<open>Reducer_Serial\<close>: the updates of a strand through its map, and the merge order of the scheduler over maps that hold such logs;
      \<open>Reducer_Trees\<close>: whole computations on the hash maps - lookups, updates and merges of all strands on one store of views -, after which
      the user's variables have the serial value.
    \<^item> \<open>Fiber_Pool\<close>: the pools of fibers and what a switch between fibers changes (cilk\_fiber.cpp), each operation composed of its
      critical sections; a fiber that is left goes to the pool after the switch; pools without a slot abort.
      \<open>Fiber_Steps\<close>: any number of workers that interleave these sections; no fiber is handed out
      twice, lost or used after it was freed, every operation ends, and the number of fibers stays below the limit of the settings.
    \<^item> \<open>Exceptions\<close>: the records of pending C++ exceptions and their merge (except-gcc.cpp), which refines what the
      scheduler assumes of them: the first exception in serial order survives every grouping of joins, provided that no record
      on the left of a merge is marked to rethrow (then the code keeps the right one, \<open>unresolved_left_loses\<close>).
    \<^item> \<open>Cilk_For\<close>: the divide and conquer of parallel loops (cilk-abi-cilk-for.cpp).
    \<^item> \<open>Cilksort\<close>: a program for the runtime (cilk5/cilksort.c), from filling the array to the check of the result;
      it sorts, touches no memory but its two arrays, and the strands of its merges commute.

  \<^bold>\<open>Interfaces.\<close> A locale states each contract that several definitions share: a lock with try and give (\<open>try_mutex\<close>, for the worker
  and the spin mutex), the list of children of a frame (\<open>sibling_list\<close>), and the laws of a reducer - its values and updates
  (\<open>update_monoid\<close>), its views (\<open>reducer_view\<close>, \<open>assoc_view\<close>), and the two families of the library (\<open>scalar_monoid\<close>,
  \<open>strict_weak_order\<close>), and of all reducers of a computation together (\<open>reducer_family\<close>). Each is interpreted on the definitions that provide it, and the properties rest on the facts of these interpretations.

  \<^bold>\<open>Bounds and fuel.\<close> The deque's counters, ranks and flags are words of their C width where they can wrap
  (pedigree ranks, flags, stack pointers), natural or integer numbers where they index. \<^verbatim>\<open>unroll_call_stack\<close> follows
  a chain of frames and is a partial function; it is proved to return on every chain that ends. The pedigree walk of \<open>Serial_Run\<close>
  has a length bound \<open>n\<close>, and its theorem asks for the depth of the program only. The loops of \<open>Cilk_For\<close>, \<open>Scheduling_Loop\<close>
  and \<open>Cilksort\<close> are partial functions too: where the code is meant to return it is proved to return, with
  the conditions it needs in the statement. The deque has the slots between \<open>ltq\<close> and \<open>ltq_limit\<close>. The source stores without a check;
  here a push on a full deque has no result (\<open>fake_detach\<close>, \<open>full_deque_no_result\<close>) or is no step (\<open>the_step\<close>), and the theorems on whole
  programs have the room in the deque as a hypothesis.

  \<^bold>\<open>What is not modelled.\<close> The jump between stacks and their mapping (the scheduler's theories take
  a new fiber as an argument), raising and
  unwinding of C++ exceptions (only their records are), record and replay, the creation of threads and
  yields of the operating system, statistics, and the Windows variants. Of the reducer library: the floating-point instances, the legacy
  wrappers and the holders. The benchmarks other than the sort compute with floating-point numbers (cholesky, fft, heat,
  lu, matmul, rectmul, strassen) or are small (nqueens). Programs run in \<open>Serial_Run\<close> and \<open>Cilk_For\<close> without thieves;
  what a thief does is the subject of the theories of the scheduler, and which strands of a program may then run in another order
  is stated for the merges of \<open>Cilksort\<close>. Simplifications inside modelled operations are stated where they are made: join counters do not
  wrap, a spawn return is not interfered with while it has unlocked the parent, forced reductions are off, a number without digits
  does not set errno (as in the C library of GNU/Linux). Third-party libraries (oneTBB) and C++ benchmark suites (gbbs, miniFE) are left out.
\<close>

end
